(* ===== verification/Prelude.thy ===== *)
theory Prelude
  imports Main "HOL-Library.Word" "HOL-Library.Monad_Syntax"
begin

text \<open>
  Shared vocabulary of the development: the machine integers of
  \<^verbatim>\<open>src/arch/x86_64/include/kernel/def.h\<close> as words of their width, the status codes of
  \<^verbatim>\<open>kernel/global.h\<close>, and the generic lemmas on lists, words and the option monad that
  the component theories use.

  Conventions. A kernel operation is a function of the state that returns the new state. The
  result type is an \<^typ>\<open>'a option\<close>, and \<open>None\<close> means that the C code does not return a
  defined result: a failed \<^verbatim>\<open>ASSERT\<close> (which panics), a null dereference, an index outside
  an array, or a spinlock that is never released. Error codes which the code returns are ordinary
  values. Theorems that an operation succeeds are therefore also theorems that it does not fault.
\<close>

unbundle bit_operations_syntax

type_synonym u8 = "8 word"
type_synonym u16 = "16 word"
type_synonym u32 = "32 word"
type_synonym u64 = "64 word"

text \<open>A virtual or physical address, and the C null pointer.\<close>

type_synonym addr = "64 word"

abbreviation NULL :: addr where
  "NULL \<equiv> 0"

text \<open>Process ids are \<^verbatim>\<open>int32_t\<close>; they are compared as signed numbers.\<close>

type_synonym pid = int

datatype status_t =
    K_SUCCESS
  | K_ERROR
  | K_NOMEM
  | K_NOSUPPORT
  | K_HW_NOSUPPORT
  | K_DEADLOCK
  | K_INVALID_PARAM
  | K_INVAILD_ADDR
  | K_OUT_OF_RESOURCE
  | K_NOT_FOUND
  | K_TIMEOUT

definition ERROR :: "status_t \<Rightarrow> bool" where
  "ERROR x \<longleftrightarrow> x \<noteq> K_SUCCESS"

lemma ERROR_simps [simp]:
  "\<not> ERROR K_SUCCESS" "ERROR K_ERROR" "ERROR K_NOMEM" "ERROR K_OUT_OF_RESOURCE"
  "ERROR K_NOT_FOUND" "ERROR K_INVALID_PARAM" "ERROR K_INVAILD_ADDR" "ERROR K_TIMEOUT"
  "ERROR K_NOSUPPORT" "ERROR K_HW_NOSUPPORT" "ERROR K_DEADLOCK"
  by (simp_all add: ERROR_def)

text \<open>The panic of a failed \<^verbatim>\<open>ASSERT\<close>: no result.\<close>

definition assert :: "bool \<Rightarrow> unit option" where
  "assert P = (if P then Some () else None)"

lemma assert_simps [simp]:
  "assert True = Some ()" "assert False = None"
  "assert P = Some u \<longleftrightarrow> P" "assert P = None \<longleftrightarrow> \<not> P"
  by (simp_all add: assert_def)

lemma bind_assert [simp]:
  "Option.bind (assert P) f = (if P then f () else None)"
  by (simp add: assert_def)

lemma bind_eq_SomeE:
  assumes "Option.bind m f = Some y"
  obtains x where "m = Some x" and "f x = Some y"
  using assms by (cases m) auto

subsection \<open>Words\<close>

lemma unat_add_no_wrap:
  fixes a b :: "'a::len word"
  assumes "unat a + unat b < 2 ^ LENGTH('a)"
  shows "unat (a + b) = unat a + unat b"
  using assms by (simp add: unat_word_ariths)

lemma unat_sub_no_wrap:
  fixes a b :: "'a::len word"
  assumes "b \<le> a"
  shows "unat (a - b) = unat a - unat b"
  using assms by (simp add: unat_sub)

lemma unat_of_nat_lt: "n < 2 ^ LENGTH('a) \<Longrightarrow> unat (word_of_nat n :: 'a::len word) = n"
  by (simp add: unat_of_nat)

lemma unat_Suc_less:
  fixes i n :: "'a::len word"
  assumes "i < n"
  shows "unat (i + 1) = Suc (unat i)"
proof -
  have "unat i < unat n" using assms by (simp add: word_less_nat_alt)
  moreover have "unat n < 2 ^ LENGTH('a)" by (rule unsigned_less)
  ultimately have "Suc (unat i) < 2 ^ LENGTH('a)" by linarith
  then show ?thesis by (simp add: unat_word_ariths)
qed

text \<open>Masks and shifts as remainders and quotients.\<close>

lemma unat_masked: "unat (x AND mask n) = unat x mod 2 ^ n" for x :: u64
proof -
  have "unat (x AND mask n) = take_bit n (unat x)" by (simp only: unsigned_take_bit_eq flip: take_bit_eq_mask)
  then show ?thesis by (simp add: take_bit_eq_mod)
qed

lemma masked_of_nat: "x AND mask n = word_of_nat (unat x mod 2 ^ n)" for x :: u64
  by (simp flip: unat_masked)

lemma unat_drop: "unat (drop_bit n x) = unat x div 2 ^ n" for x :: u64
proof -
  have "take_bit 64 (unat x) = unat x" using unsigned_less [of x] by (intro take_bit_nat_eq_self) simp
  then show ?thesis by (simp add: unsigned_drop_bit_eq) (simp add: drop_bit_eq_div)
qed

lemma ucast_of_nat_32: "n < 2 ^ 32 \<Longrightarrow> ucast (word_of_nat n :: u32) = (word_of_nat n :: u64)"
  by (simp add: word_unat_eq_iff unsigned_ucast_eq unat_of_nat take_bit_eq_mod)

subsection \<open>Repeating an operation\<close>

text \<open>Run an operation on every element of a list, stopping at the first fault.\<close>

fun fold_option :: "('a \<Rightarrow> 's \<Rightarrow> 's option) \<Rightarrow> 'a list \<Rightarrow> 's \<Rightarrow> 's option" where
  "fold_option f [] s = Some s"
| "fold_option f (x # xs) s = Option.bind (f x s) (fold_option f xs)"

lemma fold_option_append [simp]:
  "fold_option f (xs @ ys) s = Option.bind (fold_option f xs s) (fold_option f ys)"
  by (induction xs arbitrary: s) (auto split: Option.bind_split)

lemma fold_option_invariant:
  assumes "fold_option f xs s = Some s'" and "P s"
    and "\<And>x s s'. x \<in> set xs \<Longrightarrow> P s \<Longrightarrow> f x s = Some s' \<Longrightarrow> P s'"
  shows "P s'"
  using assms by (induction xs arbitrary: s) (auto elim!: bind_eq_SomeE)

text \<open>Repeat an operation with a result \<open>n\<close> times, collecting the results.\<close>

fun collect_option :: "nat \<Rightarrow> ('s \<Rightarrow> ('a \<times> 's) option) \<Rightarrow> 's \<Rightarrow> ('a list \<times> 's) option" where
  "collect_option 0 f s = Some ([], s)"
| "collect_option (Suc n) f s =
     do { (x, s') \<leftarrow> f s; (xs, s'') \<leftarrow> collect_option n f s'; Some (x # xs, s'') }"

subsection \<open>Lists\<close>

lemma list_update_id_nth: "i < length xs \<Longrightarrow> xs[i := xs ! i] = xs"
  by simp

lemma set_take_subset_nth:
  "x \<in> set (take n xs) \<longleftrightarrow> (\<exists>i < n. i < length xs \<and> xs ! i = x)"
  by (auto simp: in_set_conv_nth)

lemma remove1_append_distinct:
  "x \<notin> set xs \<Longrightarrow> remove1 x (xs @ x # ys) = xs @ ys"
  by (simp add: remove1_append)

subsection \<open>Little-endian numbers\<close>

fun le_bytes :: "nat \<Rightarrow> nat \<Rightarrow> u8 list" where
  "le_bytes 0 x = []"
| "le_bytes (Suc n) x = word_of_nat (x mod 256) # le_bytes n (x div 256)"

fun le_value :: "u8 list \<Rightarrow> nat" where
  "le_value [] = 0"
| "le_value (b # bs) = unat b + 256 * le_value bs"

lemma le_bytes_length [simp]: "length (le_bytes n x) = n"
  by (induction n arbitrary: x) auto

lemma le_round: "x < 256 ^ n \<Longrightarrow> le_value (le_bytes n x) = x"
proof (induction n arbitrary: x)
  case (Suc n)
  have "unat (word_of_nat (x mod 256) :: u8) = x mod 256" by (simp add: unat_of_nat)
  moreover have "x div 256 < 256 ^ n" using Suc.prems by (intro less_mult_imp_div_less) (simp add: mult.commute)
  ultimately show ?case using Suc.IH [of "x div 256"] by simp
qed simp

lemma unat_less_256: "unat (b :: u8) < 256"
  using unsigned_less [of b] by simp

end
