(* ===== verification/DList.thy ===== *)
theory DList
  imports Prelude
begin

text \<open>
  The intrusive doubly linked list of \<^verbatim>\<open>src/lib/list.c\<close> and
  \<^verbatim>\<open>src/include/lib/list.h\<close>. The heap holds the \<^verbatim>\<open>prev\<close> and
  \<^verbatim>\<open>next\<close> field of every node; a list header is two sentinel nodes next to each other.
  Every operation is written as the sequence of loads and stores of the C function, and a load or
  store through the null pointer is a fault. The predicate \<open>dlist h l xs\<close> relates a heap to the
  sequence of nodes it holds, and the contract \<open>intrusive_list\<close> is what the rest of the
  kernel relies on when it treats a list as a sequence.
\<close>

subsection \<open>Nodes, headers and field accesses\<close>

record node_heap =
  node_prev :: "addr \<Rightarrow> addr"
  node_next :: "addr \<Rightarrow> addr"

text \<open>
  \<^verbatim>\<open>list_t\<close> is the node \<^verbatim>\<open>head\<close> followed by the node \<^verbatim>\<open>tail\<close>; a
  \<^verbatim>\<open>list_node_t\<close> is two pointers, 16 bytes.
\<close>

definition list_head :: "addr \<Rightarrow> addr" where
  "list_head l = l"

definition list_tail :: "addr \<Rightarrow> addr" where
  "list_tail l = l + 16"

definition list_next :: "addr \<Rightarrow> node_heap \<Rightarrow> addr option" where
  "list_next n h = (if n = NULL then None else Some (node_next h n))"

definition list_prev :: "addr \<Rightarrow> node_heap \<Rightarrow> addr option" where
  "list_prev n h = (if n = NULL then None else Some (node_prev h n))"

definition set_next :: "addr \<Rightarrow> addr \<Rightarrow> node_heap \<Rightarrow> node_heap option" where
  "set_next n v h = (if n = NULL then None else Some (h\<lparr>node_next := (node_next h)(n := v)\<rparr>))"

definition set_prev :: "addr \<Rightarrow> addr \<Rightarrow> node_heap \<Rightarrow> node_heap option" where
  "set_prev n v h = (if n = NULL then None else Some (h\<lparr>node_prev := (node_prev h)(n := v)\<rparr>))"

lemmas node_access_defs = list_next_def list_prev_def set_next_def set_prev_def

subsection \<open>The operations\<close>

definition init_list :: "addr \<Rightarrow> node_heap \<Rightarrow> node_heap option" where
  "init_list l h = do {
     h \<leftarrow> set_prev (list_head l) NULL h;
     h \<leftarrow> set_next (list_head l) (list_tail l) h;
     h \<leftarrow> set_prev (list_tail l) (list_head l) h;
     set_next (list_tail l) NULL h }"

definition list_in :: "addr \<Rightarrow> addr \<Rightarrow> node_heap \<Rightarrow> node_heap option" where
  "list_in node in_before h = do {
     p \<leftarrow> list_prev in_before h;
     h \<leftarrow> set_next p node h;
     p \<leftarrow> list_prev in_before h;
     h \<leftarrow> set_prev node p h;
     h \<leftarrow> set_next node in_before h;
     set_prev in_before node h }"

definition list_push :: "addr \<Rightarrow> addr \<Rightarrow> node_heap \<Rightarrow> node_heap option" where
  "list_push l node h = do {
     first \<leftarrow> list_next (list_head l) h;
     list_in node first h }"

definition list_append :: "addr \<Rightarrow> addr \<Rightarrow> node_heap \<Rightarrow> node_heap option" where
  "list_append l node h = list_in node (list_tail l) h"

definition list_remove :: "addr \<Rightarrow> node_heap \<Rightarrow> node_heap option" where
  "list_remove node h = do {
     p \<leftarrow> list_prev node h;
     n \<leftarrow> list_next node h;
     h \<leftarrow> set_next p n h;
     n \<leftarrow> list_next node h;
     p \<leftarrow> list_prev node h;
     h \<leftarrow> set_prev n p h;
     h \<leftarrow> set_next node NULL h;
     set_prev node NULL h }"

definition list_pop :: "addr \<Rightarrow> node_heap \<Rightarrow> (addr \<times> node_heap) option" where
  "list_pop l h = do {
     node \<leftarrow> list_next (list_head l) h;
     h \<leftarrow> list_remove node h;
     Some (node, h) }"

definition list_empty :: "addr \<Rightarrow> node_heap \<Rightarrow> bool option" where
  "list_empty l h = do {
     first \<leftarrow> list_next (list_head l) h;
     Some (first = list_tail l) }"

text \<open>The three loops walk until they meet the tail; on a corrupted list they need not end.\<close>

partial_function (option) find_from :: "node_heap \<Rightarrow> addr \<Rightarrow> addr \<Rightarrow> addr \<Rightarrow> bool option" where
  "find_from h t objnode node =
     (if node = t then Some False
      else if node = objnode then Some True
      else do { nx \<leftarrow> list_next node h; find_from h t objnode nx })"

definition list_find :: "addr \<Rightarrow> addr \<Rightarrow> node_heap \<Rightarrow> bool option" where
  "list_find l objnode h = do {
     node \<leftarrow> list_next (list_head l) h;
     find_from h (list_tail l) objnode node }"

partial_function (option) traverse_from ::
  "node_heap \<Rightarrow> (addr \<Rightarrow> u64 \<Rightarrow> bool) \<Rightarrow> u64 \<Rightarrow> addr \<Rightarrow> addr \<Rightarrow> addr option" where
  "traverse_from h func arg t node =
     (if node = t then Some NULL
      else if func node arg then Some node
      else do { nx \<leftarrow> list_next node h; traverse_from h func arg t nx })"

definition list_traversal ::
  "addr \<Rightarrow> (addr \<Rightarrow> u64 \<Rightarrow> bool) \<Rightarrow> u64 \<Rightarrow> node_heap \<Rightarrow> addr option" where
  "list_traversal l func arg h = do {
     node \<leftarrow> list_next (list_head l) h;
     traverse_from h func arg (list_tail l) node }"

partial_function (option) len_from :: "node_heap \<Rightarrow> addr \<Rightarrow> addr \<Rightarrow> u32 \<Rightarrow> u32 option" where
  "len_from h t node len =
     (if node = t then Some len
      else do { nx \<leftarrow> list_next node h; len_from h t nx (len + 1) })"

definition list_len :: "addr \<Rightarrow> node_heap \<Rightarrow> u32 option" where
  "list_len l h = do {
     node \<leftarrow> list_next (list_head l) h;
     len_from h (list_tail l) node 0 }"

subsection \<open>What a heap holds\<close>

text \<open>From \<open>a\<close>, the links lead through the nodes \<open>xs\<close> to \<open>b\<close> and back.\<close>

fun linked :: "node_heap \<Rightarrow> addr \<Rightarrow> addr list \<Rightarrow> addr \<Rightarrow> bool" where
  "linked h a [] b \<longleftrightarrow> node_next h a = b \<and> node_prev h b = a"
| "linked h a (x # xs) b \<longleftrightarrow> node_next h a = x \<and> node_prev h x = a \<and> linked h x xs b"

definition dlist :: "node_heap \<Rightarrow> addr \<Rightarrow> addr list \<Rightarrow> bool" where
  "dlist h l xs \<longleftrightarrow>
     distinct (list_head l # xs @ [list_tail l]) \<and>
     NULL \<notin> set (list_head l # xs @ [list_tail l]) \<and>
     node_prev h (list_head l) = NULL \<and> node_next h (list_tail l) = NULL \<and>
     linked h (list_head l) xs (list_tail l)"

text \<open>The nodes a list owns, its two sentinels included.\<close>

definition dnodes :: "addr \<Rightarrow> addr list \<Rightarrow> addr set" where
  "dnodes l xs = insert (list_head l) (insert (list_tail l) (set xs))"

lemma linked_append:
  "linked h a (xs @ y # ys) b \<longleftrightarrow> linked h a xs y \<and> linked h y ys b"
  by (induction xs arbitrary: a) auto

lemma linked_cong:
  assumes "\<And>n. n \<in> set (a # xs) \<Longrightarrow> node_next h' n = node_next h n"
    and "\<And>n. n \<in> set (xs @ [b]) \<Longrightarrow> node_prev h' n = node_prev h n"
  shows "linked h' a xs b = linked h a xs b"
  using assms by (induction xs arbitrary: a) auto

text \<open>Point the end of a segment to another node.\<close>

lemma linked_retarget:
  assumes "linked h a xs b" and "distinct (a # xs)" and "p = last (a # xs)"
    and "node_next h' p = n" and "node_prev h' n = p"
    and "\<And>m. m \<in> set (a # xs) \<Longrightarrow> m \<noteq> p \<Longrightarrow> node_next h' m = node_next h m"
    and "\<And>m. m \<in> set xs \<Longrightarrow> node_prev h' m = node_prev h m"
  shows "linked h' a xs n"
  using assms
proof (induction xs arbitrary: a)
  case Nil
  then show ?case by simp
next
  case (Cons x xs)
  have "p \<noteq> a" using Cons.prems(2,3) by (auto split: if_splits)
  with Cons show ?case by auto
qed

lemma linked_first: "linked h a xs b \<Longrightarrow> node_next h a = hd (xs @ [b])"
  by (cases xs) auto

lemma linked_last: "linked h a xs b \<Longrightarrow> node_prev h b = last (a # xs)"
  by (induction xs arbitrary: a) auto

lemma linked_split_last:
  "xs \<noteq> [] \<Longrightarrow> linked h a xs b \<longleftrightarrow>
     linked h a (butlast xs) (last xs) \<and> node_next h (last xs) = b \<and> node_prev h b = last xs"
  using linked_append [of h a "butlast xs" "last xs" "[]" b] by simp

lemma linked_unique:
  "linked h a xs b \<Longrightarrow> linked h a ys b \<Longrightarrow> b \<notin> set xs \<Longrightarrow> b \<notin> set ys \<Longrightarrow> xs = ys"
proof (induction xs arbitrary: a ys)
  case Nil
  then show ?case by (cases ys) auto
next
  case (Cons x xs)
  then show ?case by (cases ys) auto
qed

lemma dlist_unique: "dlist h l xs \<Longrightarrow> dlist h l ys \<Longrightarrow> xs = ys"
  by (auto simp: dlist_def intro: linked_unique)

subsection \<open>The operations on a well-formed list\<close>

lemma dnodes_simps [simp]:
  "n \<in> dnodes l xs \<longleftrightarrow> n = list_head l \<or> n = list_tail l \<or> n \<in> set xs"
  by (auto simp: dnodes_def)

lemma dlist_cong:
  assumes "\<And>n. n \<in> dnodes l xs \<Longrightarrow> node_next h' n = node_next h n"
    and "\<And>n. n \<in> dnodes l xs \<Longrightarrow> node_prev h' n = node_prev h n"
  shows "dlist h' l xs = dlist h l xs"
proof -
  have "linked h' (list_head l) xs (list_tail l) = linked h (list_head l) xs (list_tail l)"
    by (rule linked_cong) (auto intro: assms)
  then show ?thesis using assms by (simp add: dlist_def)
qed

lemma init_list_dlist:
  assumes "list_head l \<noteq> NULL" and "list_tail l \<noteq> NULL"
  obtains h' where "init_list l h = Some h'" and "dlist h' l []"
    and "\<And>n. n \<notin> dnodes l [] \<Longrightarrow> node_next h' n = node_next h n \<and> node_prev h' n = node_prev h n"
proof -
  let ?h = "h\<lparr>node_prev := (node_prev h)(list_head l := NULL, list_tail l := list_head l),
              node_next := (node_next h)(list_head l := list_tail l, list_tail l := NULL)\<rparr>"
  have "list_head l \<noteq> list_tail l" by (simp add: list_head_def list_tail_def)
  then show thesis
    using assms by (intro that [of ?h]) (auto simp: init_list_def node_access_defs dlist_def)
qed

lemma list_in_eq:
  assumes "b \<noteq> NULL" "node_prev h b = p" "p \<noteq> NULL" "node \<noteq> NULL" "node \<noteq> b"
  shows "list_in node b h = Some (h\<lparr>
      node_next := (node_next h)(p := node, node := b),
      node_prev := (node_prev h)(node := p, b := node)\<rparr>)"
  using assms by (simp add: list_in_def node_access_defs)

text \<open>Insertion in front of the first node of \<open>ys\<close> (or of the tail).\<close>

lemma list_in_dlist:
  assumes d: "dlist h l (xs @ ys)" and node: "node \<noteq> NULL" "node \<notin> dnodes l (xs @ ys)"
    and b: "b = hd (ys @ [list_tail l])"
  obtains h' where "list_in node b h = Some h'" and "dlist h' l (xs @ node # ys)"
    and "\<And>n. n \<notin> dnodes l (xs @ node # ys) \<Longrightarrow>
            node_next h' n = node_next h n \<and> node_prev h' n = node_prev h n"
proof -
  define p where "p = last (list_head l # xs)"
  let ?t = "list_tail l"
  let ?h = "h\<lparr>node_next := (node_next h)(p := node, node := b),
             node_prev := (node_prev h)(node := p, b := node)\<rparr>"
  have dist: "distinct (list_head l # xs @ ys @ [?t])"
    and nn: "NULL \<notin> set (list_head l # xs @ ys @ [?t])"
    and lk: "linked h (list_head l) (xs @ ys) ?t"
    using d by (auto simp: dlist_def)
  have bt: "b \<in> set (ys @ [?t])" using b by (cases ys) auto
  have pin: "p \<in> set (list_head l # xs)" unfolding p_def by (rule last_in_set) simp
  have seg: "linked h (list_head l) xs b"
    using lk b by (cases ys) (auto simp: linked_append)
  have pb: "node_prev h b = p" unfolding p_def using linked_last [OF seg] .
  have neq: "p \<noteq> b" "p \<noteq> node" "node \<noteq> b" "p \<noteq> NULL" "b \<noteq> NULL"
    using dist nn node bt pin by auto
  have "list_in node b h = Some ?h"
    by (rule list_in_eq) (use pb neq node in auto)
  moreover have "linked ?h (list_head l) (xs @ node # ys) ?t"
  proof -
    have "linked ?h (list_head l) xs node"
      by (rule linked_retarget [OF seg _ p_def]) (use dist node neq bt in auto)
    moreover have "linked ?h node ys ?t"
    proof (cases ys)
      case Nil
      then show ?thesis using b neq by simp
    next
      case (Cons y ys')
      have "linked ?h y ys' ?t = linked h y ys' ?t"
        by (rule linked_cong) (use dist node neq pin Cons b in auto)
      then show ?thesis using lk Cons b neq by (auto simp: linked_append)
    qed
    ultimately show ?thesis by (simp add: linked_append)
  qed
  moreover have "node_prev ?h (list_head l) = NULL" "node_next ?h ?t = NULL"
    using d node bt neq pin dist by (auto simp: dlist_def)
  moreover have "distinct (list_head l # (xs @ node # ys) @ [?t])"
    and "NULL \<notin> set (list_head l # (xs @ node # ys) @ [?t])"
    using node dist nn by auto
  ultimately have "dlist ?h l (xs @ node # ys)" by (simp only: dlist_def) simp
  moreover have "\<And>n. n \<notin> dnodes l (xs @ node # ys) \<Longrightarrow> n \<noteq> p \<and> n \<noteq> node \<and> n \<noteq> b"
    using pin bt by auto
  ultimately show thesis using \<open>list_in node b h = Some ?h\<close> by (intro that [of ?h]) simp_all
qed

lemma list_append_dlist:
  assumes "dlist h l xs" "node \<noteq> NULL" "node \<notin> dnodes l xs"
  obtains h' where "list_append l node h = Some h'" and "dlist h' l (xs @ [node])"
    and "\<And>n. n \<notin> dnodes l (xs @ [node]) \<Longrightarrow>
            node_next h' n = node_next h n \<and> node_prev h' n = node_prev h n"
  by (rule list_in_dlist [of h l xs "[]" node "list_tail l"])
     (use assms in \<open>auto simp: list_append_def\<close>)

lemma list_push_dlist:
  assumes "dlist h l xs" "node \<noteq> NULL" "node \<notin> dnodes l xs"
  obtains h' where "list_push l node h = Some h'" and "dlist h' l (node # xs)"
    and "\<And>n. n \<notin> dnodes l (node # xs) \<Longrightarrow>
            node_next h' n = node_next h n \<and> node_prev h' n = node_prev h n"
proof (rule list_in_dlist [of h l "[]" xs node "node_next h (list_head l)"])
  show "node_next h (list_head l) = hd (xs @ [list_tail l])"
    using assms(1) by (auto simp: dlist_def dest: linked_first)
next
  fix h'
  assume "list_in node (node_next h (list_head l)) h = Some h'"
    and "dlist h' l ([] @ node # xs)"
    and "\<And>n. n \<notin> dnodes l ([] @ node # xs) \<Longrightarrow>
            node_next h' n = node_next h n \<and> node_prev h' n = node_prev h n"
  then show thesis
    using assms(1) by (intro that [of h']) (auto simp: list_push_def list_next_def dlist_def)
qed (use assms in auto)

text \<open>Removal of a node anywhere in the list; its two fields are cleared.\<close>

lemma list_remove_dlist:
  assumes d: "dlist h l (xs @ node # ys)"
  obtains h' where "list_remove node h = Some h'" and "dlist h' l (xs @ ys)"
    and "node_next h' node = NULL" and "node_prev h' node = NULL"
    and "\<And>n. n \<notin> dnodes l (xs @ node # ys) \<Longrightarrow>
            node_next h' n = node_next h n \<and> node_prev h' n = node_prev h n"
proof -
  define p where "p = last (list_head l # xs)"
  let ?t = "list_tail l"
  define n where "n = hd (ys @ [?t])"
  let ?h = "h\<lparr>node_next := (node_next h)(p := n, node := NULL),
             node_prev := (node_prev h)(n := p, node := NULL)\<rparr>"
  have dist: "distinct (list_head l # xs @ node # ys @ [?t])"
    and nn: "NULL \<notin> set (list_head l # xs @ node # ys @ [?t])"
    and lk: "linked h (list_head l) xs node" "linked h node ys ?t"
    using d by (auto simp: dlist_def linked_append)
  have nt: "n \<in> set (ys @ [?t])" by (cases ys) (auto simp: n_def)
  have pin: "p \<in> set (list_head l # xs)" unfolding p_def by (rule last_in_set) simp
  have pb: "node_prev h node = p" unfolding p_def using linked_last [OF lk(1)] .
  have nb: "node_next h node = n" unfolding n_def using linked_first [OF lk(2)] .
  have neq: "p \<noteq> n" "p \<noteq> node" "node \<noteq> n" "p \<noteq> NULL" "n \<noteq> NULL" "node \<noteq> NULL"
    using dist nn nt pin by auto
  have "list_remove node h = Some ?h"
    using neq pb nb by (simp add: list_remove_def node_access_defs fun_upd_twist)
  moreover have "linked ?h (list_head l) (xs @ ys) ?t"
  proof (cases ys)
    case Nil
    have "linked ?h (list_head l) xs ?t"
      by (rule linked_retarget [OF lk(1) _ p_def]) (use dist neq Nil n_def in auto)
    then show ?thesis using Nil by simp
  next
    case (Cons y ys')
    have "linked ?h (list_head l) xs y"
      by (rule linked_retarget [OF lk(1) _ p_def]) (use dist neq Cons n_def in auto)
    moreover have "linked ?h y ys' ?t = linked h y ys' ?t"
      by (rule linked_cong) (use dist neq pin Cons n_def in auto)
    ultimately show ?thesis using lk(2) Cons by (auto simp: linked_append)
  qed
  moreover have "node_prev ?h (list_head l) = NULL" "node_next ?h ?t = NULL"
    using d nt neq pin dist by (auto simp: dlist_def)
  moreover have "distinct (list_head l # (xs @ ys) @ [?t])"
    and "NULL \<notin> set (list_head l # (xs @ ys) @ [?t])"
    using dist nn by auto
  ultimately have "dlist ?h l (xs @ ys)" by (simp only: dlist_def) simp
  moreover have "\<And>m. m \<notin> dnodes l (xs @ node # ys) \<Longrightarrow> m \<noteq> p \<and> m \<noteq> node \<and> m \<noteq> n"
    using pin nt by auto
  ultimately show thesis using \<open>list_remove node h = Some ?h\<close> by (intro that [of ?h]) simp_all
qed

lemma list_pop_dlist:
  assumes "dlist h l (x # xs)"
  obtains h' where "list_pop l h = Some (x, h')" and "dlist h' l xs"
    and "node_next h' x = NULL" and "node_prev h' x = NULL"
    and "\<And>n. n \<notin> dnodes l (x # xs) \<Longrightarrow>
            node_next h' n = node_next h n \<and> node_prev h' n = node_prev h n"
proof (rule list_remove_dlist [of h l "[]" x xs])
  fix h'
  assume "list_remove x h = Some h'" and "dlist h' l ([] @ xs)"
    and "node_next h' x = NULL" and "node_prev h' x = NULL"
    and "\<And>n. n \<notin> dnodes l ([] @ x # xs) \<Longrightarrow>
            node_next h' n = node_next h n \<and> node_prev h' n = node_prev h n"
  then show thesis
    using assms by (intro that [of h']) (auto simp: list_pop_def list_next_def dlist_def)
qed (use assms in auto)

text \<open>Popping an empty list removes the tail sentinel, whose \<^verbatim>\<open>next\<close> is null.\<close>

lemma list_pop_empty:
  "dlist h l [] \<Longrightarrow> list_pop l h = None"
  by (auto simp: list_pop_def list_remove_def node_access_defs dlist_def)

lemma list_empty_dlist: "dlist h l xs \<Longrightarrow> list_empty l h = Some (xs = [])"
  by (cases xs) (auto simp: list_empty_def list_next_def dlist_def)

lemma find_from_linked:
  "linked h a xs b \<Longrightarrow> b \<notin> set xs \<Longrightarrow> NULL \<notin> set xs \<Longrightarrow>
   find_from h b obj (node_next h a) = Some (obj \<in> set xs)"
proof (induction xs arbitrary: a)
  case Nil
  then show ?case by (simp add: find_from.simps)
next
  case (Cons x xs)
  then show ?case
    by (subst find_from.simps) (auto simp: list_next_def)
qed

lemma list_find_dlist: "dlist h l xs \<Longrightarrow> list_find l obj h = Some (obj \<in> set xs)"
  by (simp add: list_find_def list_next_def dlist_def find_from_linked)

lemma traverse_from_linked:
  "linked h a xs b \<Longrightarrow> b \<notin> set xs \<Longrightarrow> NULL \<notin> set xs \<Longrightarrow>
   traverse_from h func arg b (node_next h a) =
     Some (case find (\<lambda>n. func n arg) xs of None \<Rightarrow> NULL | Some n \<Rightarrow> n)"
proof (induction xs arbitrary: a)
  case Nil
  then show ?case by (simp add: traverse_from.simps)
next
  case (Cons x xs)
  then show ?case
    by (subst traverse_from.simps) (auto simp: list_next_def)
qed

lemma list_traversal_dlist:
  "dlist h l xs \<Longrightarrow> list_traversal l func arg h =
     Some (case find (\<lambda>n. func n arg) xs of None \<Rightarrow> NULL | Some n \<Rightarrow> n)"
  by (simp add: list_traversal_def list_next_def dlist_def traverse_from_linked)

lemma len_from_linked:
  "linked h a xs b \<Longrightarrow> b \<notin> set xs \<Longrightarrow> NULL \<notin> set xs \<Longrightarrow>
   len_from h b (node_next h a) k = Some (k + of_nat (length xs))"
proof (induction xs arbitrary: a k)
  case Nil
  then show ?case by (simp add: len_from.simps)
next
  case (Cons x xs)
  then show ?case
    by (subst len_from.simps) (auto simp: list_next_def ac_simps)
qed

lemma list_len_dlist: "dlist h l xs \<Longrightarrow> list_len l h = Some (of_nat (length xs))"
  using len_from_linked [of h "list_head l" xs "list_tail l" 0]
  by (simp add: list_len_def list_next_def dlist_def)

subsection \<open>The contract\<close>

text \<open>
  What the scheduler, the allocator and the message queues rely on: each operation acts on the
  sequence as expected and leaves every other list in the heap as it is, as long as no node is in
  two lists. \<open>owns\<close> are the nodes an operation on the list may write.
\<close>

locale intrusive_list =
  fixes rep :: "'h \<Rightarrow> 'l \<Rightarrow> 'n list \<Rightarrow> bool"
    and owns :: "'l \<Rightarrow> 'n list \<Rightarrow> 'n set"
    and valid :: "'n \<Rightarrow> bool"
    and append :: "'l \<Rightarrow> 'n \<Rightarrow> 'h \<Rightarrow> 'h option"
    and remove :: "'n \<Rightarrow> 'h \<Rightarrow> 'h option"
    and pop :: "'l \<Rightarrow> 'h \<Rightarrow> ('n \<times> 'h) option"
  assumes owns_append: "owns l (xs @ [n]) = insert n (owns l xs)"
    and owns_member: "n \<in> set xs \<Longrightarrow> n \<in> owns l xs"
    and owns_subset: "set ys \<subseteq> set xs \<Longrightarrow> owns l ys \<subseteq> owns l xs"
    and owns_minus: "rep h l (xs @ n # ys) \<Longrightarrow> n \<notin> owns l (xs @ ys)"
    and valid_member: "rep h l xs \<Longrightarrow> n \<in> set xs \<Longrightarrow> valid n"
    and append_rep: "rep h l xs \<Longrightarrow> valid n \<Longrightarrow> n \<notin> owns l xs \<Longrightarrow>
          \<exists>h'. append l n h = Some h' \<and> rep h' l (xs @ [n]) \<and>
            (\<forall>k ys. rep h k ys \<longrightarrow> owns k ys \<inter> owns l (xs @ [n]) = {} \<longrightarrow> rep h' k ys)"
    and remove_rep: "rep h l (xs @ n # ys) \<Longrightarrow>
          \<exists>h'. remove n h = Some h' \<and> rep h' l (xs @ ys) \<and>
            (\<forall>k zs. rep h k zs \<longrightarrow> owns k zs \<inter> owns l (xs @ n # ys) = {} \<longrightarrow> rep h' k zs)"
    and pop_rep: "rep h l (n # xs) \<Longrightarrow>
          \<exists>h'. pop l h = Some (n, h') \<and> rep h' l xs \<and>
            (\<forall>k zs. rep h k zs \<longrightarrow> owns k zs \<inter> owns l (n # xs) = {} \<longrightarrow> rep h' k zs)"
begin

lemma append_all:
  assumes "rep h l xs" and "\<forall>n \<in> set ns. valid n \<and> n \<notin> owns l xs" and "distinct ns"
  shows "\<exists>h'. fold_option (append l) ns h = Some h' \<and> rep h' l (xs @ ns)"
  using assms
proof (induction ns arbitrary: h xs)
  case Nil
  then show ?case by simp
next
  case (Cons n ns)
  obtain h1 where h1: "append l n h = Some h1" "rep h1 l (xs @ [n])"
    using append_rep [of h l xs n] Cons.prems by auto
  have "\<exists>h'. fold_option (append l) ns h1 = Some h' \<and> rep h' l ((xs @ [n]) @ ns)"
    by (rule Cons.IH) (use Cons.prems h1 in \<open>auto simp: owns_append\<close>)
  then show ?case using h1 by simp
qed

lemma pop_all:
  assumes "rep h l xs"
  shows "\<exists>h'. collect_option (length xs) (pop l) h = Some (xs, h') \<and> rep h' l []"
  using assms
proof (induction xs arbitrary: h)
  case Nil
  then show ?case by simp
next
  case (Cons n xs)
  obtain h1 where h1: "pop l h = Some (n, h1)" "rep h1 l xs"
    using pop_rep [OF Cons.prems] by auto
  then show ?case using Cons.IH [OF h1(2)] by auto
qed

text \<open>First in, first out.\<close>

lemma fifo_order:
  assumes "rep h l []" and "\<forall>n \<in> set ns. valid n \<and> n \<notin> owns l []" and "distinct ns"
  shows "\<exists>h1 h2. fold_option (append l) ns h = Some h1 \<and> rep h1 l ns \<and>
           collect_option (length ns) (pop l) h1 = Some (ns, h2) \<and> rep h2 l []"
  using append_all [OF assms] pop_all by fastforce

text \<open>Moving a node from one list to another, as the scheduler does when it wakes a task.\<close>

lemma move_between:
  assumes r: "rep h l (xs @ n # ys)" and k: "rep h k zs"
    and disj: "owns k zs \<inter> owns l (xs @ n # ys) = {}"
  shows "\<exists>h1 h2. remove n h = Some h1 \<and> append k n h1 = Some h2 \<and>
           rep h2 l (xs @ ys) \<and> rep h2 k (zs @ [n])"
proof -
  obtain h1 where h1: "remove n h = Some h1" "rep h1 l (xs @ ys)" "rep h1 k zs"
    using remove_rep [OF r] k disj by blast
  have n: "valid n" "n \<notin> owns k zs"
    using valid_member [OF r] owns_member [of n "xs @ n # ys" l] disj by auto
  obtain h2 where h2: "append k n h1 = Some h2" "rep h2 k (zs @ [n])"
    and fr: "\<And>k' ys'. rep h1 k' ys' \<Longrightarrow> owns k' ys' \<inter> owns k (zs @ [n]) = {} \<Longrightarrow> rep h2 k' ys'"
    using append_rep [OF h1(3) n] by blast
  have "owns l (xs @ ys) \<subseteq> owns l (xs @ n # ys)" by (rule owns_subset) auto
  moreover have "n \<notin> owns l (xs @ ys)"
    by (rule owns_minus [OF r])
  ultimately have "rep h2 l (xs @ ys)"
    using disj by (intro fr [OF h1(2)]) (auto simp: owns_append)
  then show ?thesis using h1 h2 by blast
qed

end

lemma dlist_frame:
  assumes "dlist h k ys" and "dnodes k ys \<inter> N = {}"
    and "\<And>n. n \<notin> N \<Longrightarrow> node_next h' n = node_next h n \<and> node_prev h' n = node_prev h n"
  shows "dlist h' k ys"
proof -
  have "dlist h' k ys = dlist h k ys"
    by (rule dlist_cong) (use assms(2,3) in blast)+
  then show ?thesis using assms(1) by simp
qed

interpretation node_list: intrusive_list dlist dnodes "\<lambda>n. n \<noteq> NULL" list_append list_remove list_pop
proof unfold_locales
  fix l xs and n :: addr
  show "dnodes l (xs @ [n]) = insert n (dnodes l xs)" by auto
next
  fix n :: addr and xs l
  assume "n \<in> set xs" then show "n \<in> dnodes l xs" by simp
next
  fix ys xs :: "addr list" and l
  assume "set ys \<subseteq> set xs" then show "dnodes l ys \<subseteq> dnodes l xs" by auto
next
  fix h l xs n ys
  assume "dlist h l (xs @ n # ys)" then show "n \<notin> dnodes l (xs @ ys)" by (auto simp: dlist_def)
next
  fix h l xs and n :: addr
  assume "dlist h l xs" "n \<in> set xs" then show "n \<noteq> NULL" by (auto simp: dlist_def)
next
  fix h l xs n
  assume a: "dlist h l xs" "n \<noteq> NULL" "n \<notin> dnodes l xs"
  obtain h' where h': "list_append l n h = Some h'" "dlist h' l (xs @ [n])"
    and fr: "\<And>m. m \<notin> dnodes l (xs @ [n]) \<Longrightarrow> node_next h' m = node_next h m \<and> node_prev h' m = node_prev h m"
    by (rule list_append_dlist [OF a]) blast
  show "\<exists>h'. list_append l n h = Some h' \<and> dlist h' l (xs @ [n]) \<and>
      (\<forall>k ys. dlist h k ys \<longrightarrow> dnodes k ys \<inter> dnodes l (xs @ [n]) = {} \<longrightarrow> dlist h' k ys)"
    using h' dlist_frame [OF _ _ fr] by blast
next
  fix h l xs n ys
  assume a: "dlist h l (xs @ n # ys)"
  obtain h' where h': "list_remove n h = Some h'" "dlist h' l (xs @ ys)"
    and fr: "\<And>m. m \<notin> dnodes l (xs @ n # ys) \<Longrightarrow> node_next h' m = node_next h m \<and> node_prev h' m = node_prev h m"
    by (rule list_remove_dlist [OF a]) blast
  show "\<exists>h'. list_remove n h = Some h' \<and> dlist h' l (xs @ ys) \<and>
      (\<forall>k zs. dlist h k zs \<longrightarrow> dnodes k zs \<inter> dnodes l (xs @ n # ys) = {} \<longrightarrow> dlist h' k zs)"
    using h' dlist_frame [OF _ _ fr] by blast
next
  fix h l n xs
  assume a: "dlist h l (n # xs)"
  obtain h' where h': "list_pop l h = Some (n, h')" "dlist h' l xs"
    and fr: "\<And>m. m \<notin> dnodes l (n # xs) \<Longrightarrow> node_next h' m = node_next h m \<and> node_prev h' m = node_prev h m"
    by (rule list_pop_dlist [OF a]) blast
  show "\<exists>h'. list_pop l h = Some (n, h') \<and> dlist h' l xs \<and>
      (\<forall>k zs. dlist h k zs \<longrightarrow> dnodes k zs \<inter> dnodes l (n # xs) = {} \<longrightarrow> dlist h' k zs)"
    using h' dlist_frame [OF _ _ fr] by blast
qed

subsection \<open>Properties\<close>

text \<open>A list is a first-in first-out queue: appending any distinct nodes to an initialised list
  and popping as many returns them in the order of insertion, never faults, and leaves the list
  empty and well-formed.\<close>

theorem list_is_fifo:
  assumes "dlist h l []" and "\<forall>n \<in> set ns. n \<noteq> NULL \<and> n \<notin> dnodes l []" and "distinct ns"
  shows "\<exists>h1 h2. fold_option (list_append l) ns h = Some h1 \<and> dlist h1 l ns \<and>
           collect_option (length ns) (list_pop l) h1 = Some (ns, h2) \<and> dlist h2 l []"
  by (rule node_list.fifo_order [OF assms])

definition example_heap :: node_heap where
  "example_heap = \<lparr>node_prev = (\<lambda>_. 0)(0x1010 := 0x1000), node_next = (\<lambda>_. 0)(0x1000 := 0x1010)\<rparr>"

lemma example_heap_dlist: "dlist example_heap 0x1000 []"
  by (simp add: example_heap_def dlist_def list_head_def list_tail_def)

theorem list_is_fifo_witness:
  "\<exists>h1 h2. fold_option (list_append 0x1000) [0x2000, 0x3000] example_heap = Some h1 \<and>
     dlist h1 0x1000 [0x2000, 0x3000] \<and>
     collect_option (length [0x2000, 0x3000 :: addr]) (list_pop 0x1000) h1 =
       Some ([0x2000, 0x3000], h2) \<and>
     dlist h2 0x1000 []"
  by (rule list_is_fifo [OF example_heap_dlist]) (simp_all add: list_head_def list_tail_def)

text \<open>\<^verbatim>\<open>list_remove\<close> unlinks exactly the given node, wherever it is, clears its two fields, and
  changes no other list of the heap.\<close>

theorem list_remove_unlinks:
  assumes "dlist h l (xs @ node # ys)" and "dlist h k zs"
    and "dnodes k zs \<inter> dnodes l (xs @ node # ys) = {}"
  shows "\<exists>h'. list_remove node h = Some h' \<and> dlist h' l (xs @ ys) \<and> dlist h' k zs \<and>
           node_next h' node = NULL \<and> node_prev h' node = NULL \<and>
           list_find l node h' = Some False"
proof -
  obtain h' where h': "list_remove node h = Some h'" "dlist h' l (xs @ ys)"
      "node_next h' node = NULL" "node_prev h' node = NULL"
    and fr: "\<And>m. m \<notin> dnodes l (xs @ node # ys) \<Longrightarrow>
               node_next h' m = node_next h m \<and> node_prev h' m = node_prev h m"
    by (rule list_remove_dlist [OF assms(1)]) blast
  have "dlist h' k zs" by (rule dlist_frame [OF assms(2,3) fr])
  moreover have "node \<notin> set (xs @ ys)" using assms(1) by (auto simp: dlist_def)
  ultimately show ?thesis using h' list_find_dlist [OF h'(2), of node] by auto
qed

definition example_heap2 :: node_heap where
  "example_heap2 = \<lparr>
     node_prev = (\<lambda>_. 0)(0x3000 := 0x1000, 0x1010 := 0x3000, 0x2010 := 0x2000),
     node_next = (\<lambda>_. 0)(0x1000 := 0x3000, 0x3000 := 0x1010, 0x2000 := 0x2010)\<rparr>"

theorem list_remove_unlinks_witness:
  "\<exists>h'. list_remove 0x3000 example_heap2 = Some h' \<and> dlist h' 0x1000 [] \<and> dlist h' 0x2000 [] \<and>
     node_next h' 0x3000 = NULL \<and> node_prev h' 0x3000 = NULL \<and>
     list_find 0x1000 0x3000 h' = Some False"
proof -
  have "dlist example_heap2 0x1000 ([] @ 0x3000 # [])" "dlist example_heap2 0x2000 []"
    by (simp_all add: example_heap2_def dlist_def list_head_def list_tail_def)
  moreover have "dnodes 0x2000 [] \<inter> dnodes 0x1000 ([] @ 0x3000 # []) = {}"
    by (simp add: dnodes_def list_head_def list_tail_def)
  ultimately show ?thesis
    using list_remove_unlinks [of example_heap2 "0x1000" "[]" "0x3000" "[]" "0x2000" "[]"] by simp
qed

end
