(* ===== verification/BitmapAlloc.thy ===== *)
theory BitmapAlloc
  imports Prelude
begin

text \<open>
  The bitmap of \<^verbatim>\<open>src/lib/bitmap.c\<close>, on which the physical page allocator is built: bit
  test, bit update and the first-fit search for a run of bits. Bit and byte indices
  (\<^verbatim>\<open>size_t\<close>) are natural numbers; the one product of them that can wrap is written with its
  modulus, and the index returned is truncated to 32 bits as in the code. A read outside the byte
  array is a fault.
\<close>

record bitmap =
  btmp_bytes_len :: nat
  bmap :: "u8 list"

subsection \<open>The operations\<close>

definition init_bitmap :: "bitmap \<Rightarrow> bitmap option" where
  "init_bitmap b =
     (if btmp_bytes_len b \<le> length (bmap b)
      then Some (b\<lparr>bmap := replicate (btmp_bytes_len b) 0 @ drop (btmp_bytes_len b) (bmap b)\<rparr>)
      else None)"

definition map_byte :: "bitmap \<Rightarrow> nat \<Rightarrow> u8 option" where
  "map_byte b i = (if i < length (bmap b) then Some (bmap b ! i) else None)"

definition bitmap_scan_test :: "bitmap \<Rightarrow> nat \<Rightarrow> int option" where
  "bitmap_scan_test b bit_index =
     (let byte_index = bit_index div 8; bit_odd = bit_index mod 8 in
      if byte_index \<ge> btmp_bytes_len b then Some (-1)
      else do {
        v \<leftarrow> map_byte b byte_index;
        Some (if v AND push_bit bit_odd 1 \<noteq> 0 then 1 else 0) })"

text \<open>The first loop of \<^verbatim>\<open>bitmap_alloc\<close>: skip the bytes without a bit of the wanted value.\<close>

function skip_full :: "bitmap \<Rightarrow> u8 \<Rightarrow> nat \<Rightarrow> nat option" where
  "skip_full b byte_full byte_index =
     (if byte_index < btmp_bytes_len b then do {
        v \<leftarrow> map_byte b byte_index;
        if v = byte_full then skip_full b byte_full (Suc byte_index) else Some byte_index }
      else Some byte_index)"
  by pat_completeness auto
termination
  by (relation "measure (\<lambda>(b, _, i). btmp_bytes_len b - i)") auto

declare skip_full.simps [simp del]

text \<open>
  The inner loop: how many bits from \<open>bit_index\<close> on have the wanted value, at most
  \<open>cnt\<close>. \<open>None\<close> (inside \<open>Some\<close>) is the early return of \<^verbatim>\<open>K_ERROR\<close> at the end of
  the bitmap.
\<close>

function count_run :: "bitmap \<Rightarrow> u8 \<Rightarrow> nat \<Rightarrow> nat \<Rightarrow> nat \<Rightarrow> nat option option" where
  "count_run b val cnt bit_index free_bits =
     (if free_bits < cnt then do {
        current_bit \<leftarrow> bitmap_scan_test b (bit_index + free_bits);
        if current_bit < 0 then Some None
        else if current_bit \<noteq> 0 \<and> val = 0 then Some (Some free_bits)
        else if current_bit = 0 \<and> val = 1 then Some (Some free_bits)
        else count_run b val cnt bit_index (Suc free_bits) }
      else Some (Some free_bits))"
  by pat_completeness auto
termination
  by (relation "measure (\<lambda>(_, _, cnt, _, free_bits). cnt - free_bits)") auto

declare count_run.simps [simp del]

definition bitmap_bits_len :: "bitmap \<Rightarrow> nat" where
  "bitmap_bits_len b = (btmp_bytes_len b * 8) mod 2 ^ 64"

text \<open>The outer loop. On success the index is stored, truncated to \<^verbatim>\<open>uint32_t\<close>.\<close>

function scan_runs :: "bitmap \<Rightarrow> u8 \<Rightarrow> nat \<Rightarrow> nat \<Rightarrow> (status_t \<times> u32 option) option" where
  "scan_runs b val cnt bit_index =
     (if bit_index < bitmap_bits_len b then
        (case count_run b val cnt bit_index 0 of
           None \<Rightarrow> None
         | Some None \<Rightarrow> Some (K_ERROR, None)
         | Some (Some free_bits) \<Rightarrow>
             if free_bits = cnt then Some (K_SUCCESS, Some (word_of_nat bit_index))
             else scan_runs b val cnt (Suc (bit_index + free_bits)))
      else Some (K_OUT_OF_RESOURCE, None))"
  by pat_completeness auto
termination
  by (relation "measure (\<lambda>(b, _, _, i). bitmap_bits_len b - i)") auto

declare scan_runs.simps [simp del]

definition bitmap_alloc ::
  "bitmap \<Rightarrow> u8 \<Rightarrow> nat \<Rightarrow> addr \<Rightarrow> (status_t \<times> u32 option) option" where
  "bitmap_alloc b val cnt index =
     (if index = NULL \<or> (val \<noteq> 0 \<and> val \<noteq> 1) then Some (K_INVALID_PARAM, None)
      else do {
        byte_index \<leftarrow> skip_full b (if val = 0 then 0xff else 0) 0;
        if byte_index \<ge> btmp_bytes_len b then Some (K_OUT_OF_RESOURCE, None)
        else scan_runs b val cnt (byte_index * 8) })"

definition bitmap_set :: "bitmap \<Rightarrow> nat \<Rightarrow> u8 \<Rightarrow> bitmap option" where
  "bitmap_set b bit_index val =
     (let byte_index = bit_index div 8; bit_odd = bit_index mod 8 in
      if byte_index \<ge> btmp_bytes_len b then Some b
      else do {
        v \<leftarrow> map_byte b byte_index;
        Some (if val = 0 then b\<lparr>bmap := (bmap b)[byte_index := v AND NOT (push_bit bit_odd 1)]\<rparr>
              else if val = 1 then b\<lparr>bmap := (bmap b)[byte_index := v OR push_bit bit_odd 1]\<rparr>
              else b) })"

subsection \<open>Bits as a predicate\<close>

definition bmbit :: "bitmap \<Rightarrow> nat \<Rightarrow> bool" where
  "bmbit b i = bit (bmap b ! (i div 8)) (i mod 8)"

definition bitmap_wf :: "bitmap \<Rightarrow> bool" where
  "bitmap_wf b \<longleftrightarrow> btmp_bytes_len b \<le> length (bmap b) \<and> btmp_bytes_len b * 8 < 2 ^ 64"

text \<open>\<open>cnt\<close> bits of the wanted value, inside the bitmap, from \<open>k\<close> on.\<close>

definition run_at :: "bitmap \<Rightarrow> u8 \<Rightarrow> nat \<Rightarrow> nat \<Rightarrow> bool" where
  "run_at b val cnt k \<longleftrightarrow>
     k + cnt \<le> btmp_bytes_len b * 8 \<and> (\<forall>j < cnt. bmbit b (k + j) = (val = 1))"

lemma bits_len_wf: "bitmap_wf b \<Longrightarrow> bitmap_bits_len b = btmp_bytes_len b * 8"
  by (simp add: bitmap_bits_len_def bitmap_wf_def)

lemma and_push_bit_one:
  fixes v :: "'a::len word"
  assumes "n < LENGTH('a)"
  shows "v AND push_bit n 1 \<noteq> 0 \<longleftrightarrow> bit v n"
proof
  assume "v AND push_bit n 1 \<noteq> 0"
  then obtain m where "bit (v AND push_bit n 1) m" by (auto simp: bit_eq_iff)
  then show "bit v n" by (auto simp: bit_simps)
next
  assume "bit v n"
  then have "bit (v AND push_bit n 1) n" using assms by (auto simp: bit_simps)
  then show "v AND push_bit n 1 \<noteq> 0" by auto
qed

lemma scan_test_wf:
  assumes "bitmap_wf b"
  shows "bitmap_scan_test b i =
    Some (if i < btmp_bytes_len b * 8 then (if bmbit b i then 1 else 0) else -1)"
proof -
  have "i div 8 < btmp_bytes_len b \<longleftrightarrow> i < btmp_bytes_len b * 8"
    by (simp add: less_mult_imp_div_less div_less_iff_less_mult)
  moreover have "v AND push_bit (i mod 8) 1 \<noteq> 0 \<longleftrightarrow> bit v (i mod 8)" for v :: u8
    by (rule and_push_bit_one) simp
  ultimately show ?thesis
    using assms by (auto simp: bitmap_scan_test_def map_byte_def bmbit_def bitmap_wf_def Let_def)
qed

lemma bitmap_set_wf:
  assumes wf: "bitmap_wf b" and v: "val = 0 \<or> val = 1"
  obtains b' where "bitmap_set b i val = Some b'" and "bitmap_wf b'"
    and "btmp_bytes_len b' = btmp_bytes_len b" and "length (bmap b') = length (bmap b)"
    and "\<And>j. j < btmp_bytes_len b * 8 \<Longrightarrow> bmbit b' j = (if j = i then val = 1 else bmbit b j)"
proof (cases "i div 8 < btmp_bytes_len b")
  case False
  then have "\<not> i < btmp_bytes_len b * 8" by (simp add: div_less_iff_less_mult)
  with False wf show thesis by (intro that [of b]) (auto simp: bitmap_set_def)
next
  case True
  let ?k = "i div 8" and ?o = "i mod 8"
  have k: "?k < length (bmap b)" using True wf by (simp add: bitmap_wf_def)
  have split: "j = i \<longleftrightarrow> j div 8 = ?k \<and> j mod 8 = ?o" for j :: nat
    by (metis div_mult_mod_eq)
  have bit_upd: "bit (if val = 0 then w AND NOT (push_bit ?o 1) else w OR push_bit ?o 1) n
      = (if n = ?o then val = 1 else bit w n)" if "n < 8" for w :: u8 and n
    using v that by (auto simp: bit_simps)
  let ?w = "if val = 0 then bmap b ! ?k AND NOT (push_bit ?o 1) else bmap b ! ?k OR push_bit ?o 1"
  let ?b = "b\<lparr>bmap := (bmap b)[?k := ?w]\<rparr>"
  have "bitmap_set b i val = Some ?b"
    using True k v by (auto simp: bitmap_set_def map_byte_def Let_def)
  moreover have "bmbit ?b j = (if j = i then val = 1 else bmbit b j)"
    if "j < btmp_bytes_len b * 8" for j
  proof (cases "j div 8 = ?k")
    case jk: True
    have "bmbit ?b j = bit ?w (j mod 8)" using jk k by (simp add: bmbit_def)
    also have "\<dots> = (if j mod 8 = ?o then val = 1 else bit (bmap b ! ?k) (j mod 8))"
      by (rule bit_upd) simp
    finally show ?thesis using jk split [of j] by (simp add: bmbit_def)
  next
    case False
    then show ?thesis using split [of j] by (simp add: bmbit_def)
  qed
  ultimately show thesis using wf by (intro that [of ?b]) (auto simp: bitmap_wf_def)
qed

lemma init_bitmap_wf:
  assumes "bitmap_wf b"
  obtains b' where "init_bitmap b = Some b'" and "bitmap_wf b'"
    and "btmp_bytes_len b' = btmp_bytes_len b"
    and "\<And>j. j < btmp_bytes_len b * 8 \<Longrightarrow> \<not> bmbit b' j"
proof
  let ?b = "b\<lparr>bmap := replicate (btmp_bytes_len b) 0 @ drop (btmp_bytes_len b) (bmap b)\<rparr>"
  show "init_bitmap b = Some ?b" "bitmap_wf ?b" "btmp_bytes_len ?b = btmp_bytes_len b"
    using assms by (auto simp: init_bitmap_def bitmap_wf_def)
  fix j assume "j < btmp_bytes_len b * 8"
  then have "j div 8 < btmp_bytes_len b" by (simp add: div_less_iff_less_mult)
  then show "\<not> bmbit ?b j" by (simp add: bmbit_def nth_append)
qed

subsection \<open>The search\<close>

lemma full_byte_bits:
  fixes val :: u8
  assumes "bmap b ! (i div 8) = (if val = 0 then 0xff else 0)" and "val = 0 \<or> val = 1"
  shows "bmbit b i = (val \<noteq> 1)"
proof -
  have "(0xff :: u8) = mask 8" by (simp add: mask_eq_exp_minus_1)
  moreover have "bit (mask 8 :: u8) (i mod 8)" unfolding bit_mask_iff by simp
  ultimately have "bit (0xff :: u8) (i mod 8)" by (simp only:)
  with assms show ?thesis unfolding bmbit_def by (cases "val = 0") auto
qed

lemma skip_full_spec:
  fixes val :: u8
  assumes "bitmap_wf b" and "val = 0 \<or> val = 1" and "i \<le> btmp_bytes_len b"
  shows "\<exists>k. skip_full b (if val = 0 then 0xff else 0) i = Some k \<and> i \<le> k \<and>
    k \<le> btmp_bytes_len b \<and> (\<forall>j. i * 8 \<le> j \<longrightarrow> j < k * 8 \<longrightarrow> bmbit b j = (val \<noteq> 1))"
  using assms(3)
proof (induction "btmp_bytes_len b - i" arbitrary: i)
  case 0
  then show ?case by (subst skip_full.simps) auto
next
  case (Suc d)
  let ?full = "if val = 0 then 0xff else 0 :: u8"
  have i: "i < btmp_bytes_len b" "i < length (bmap b)"
    using Suc.hyps(2) assms(1) by (auto simp: bitmap_wf_def)
  show ?case
  proof (cases "bmap b ! i = ?full")
    case False
    then show ?thesis using i by (subst skip_full.simps) (auto simp: map_byte_def)
  next
    case True
    have "skip_full b ?full i = skip_full b ?full (Suc i)"
      using i True by (subst skip_full.simps) (simp add: map_byte_def)
    moreover obtain k where k: "skip_full b ?full (Suc i) = Some k" "Suc i \<le> k"
        "k \<le> btmp_bytes_len b" "\<forall>j. Suc i * 8 \<le> j \<longrightarrow> j < k * 8 \<longrightarrow> bmbit b j = (val \<noteq> 1)"
    proof -
      have "d = btmp_bytes_len b - Suc i" using Suc.hyps(2) by arith
      from Suc.hyps(1) [OF this] i that show thesis by (auto simp: Suc_le_eq)
    qed
    moreover have "bmbit b j = (val \<noteq> 1)" if "i * 8 \<le> j" "j < k * 8" for j
    proof (cases "Suc i * 8 \<le> j")
      case True
      then show ?thesis using k(4) that by blast
    next
      case False
      then have "j div 8 = i" using that by auto
      then show ?thesis using full_byte_bits [of b j val] True assms(2) by simp
    qed
    ultimately show ?thesis by (auto intro!: exI [of _ k])
  qed
qed

text \<open>The inner loop stops at the end of the bitmap, at a wrong bit, or after \<open>cnt\<close> bits.\<close>

lemma count_run_spec:
  assumes "bitmap_wf b" and "val = 0 \<or> val = 1" and "fb \<le> cnt"
    and "\<forall>j < fb. k + j < btmp_bytes_len b * 8 \<and> bmbit b (k + j) = (val = 1)"
  shows "(\<exists>m. fb \<le> m \<and> m < cnt \<and> count_run b val cnt k fb = Some None \<and>
             k + m \<ge> btmp_bytes_len b * 8) \<or>
         (\<exists>m \<le> cnt. count_run b val cnt k fb = Some (Some m) \<and>
             (\<forall>j < m. k + j < btmp_bytes_len b * 8 \<and> bmbit b (k + j) = (val = 1)) \<and>
             (m < cnt \<longrightarrow> bmbit b (k + m) = (val \<noteq> 1)))"
  using assms(3,4)
proof (induction "cnt - fb" arbitrary: fb)
  case 0
  then show ?case by (subst (1 2) count_run.simps) auto
next
  case (Suc d)
  then have lt: "fb < cnt" by simp
  note cr_step = count_run.simps [of b val cnt k fb] scan_test_wf [OF assms(1)]
  show ?case
  proof (cases "k + fb < btmp_bytes_len b * 8 \<and> bmbit b (k + fb) = (val = 1)")
    case True
    then have eq: "count_run b val cnt k fb = count_run b val cnt k (Suc fb)"
      using lt assms(2) by (auto simp: cr_step)
    have "\<forall>j < Suc fb. k + j < btmp_bytes_len b * 8 \<and> bmbit b (k + j) = (val = 1)"
      using Suc.prems(2) True by (auto simp: less_Suc_eq)
    then show ?thesis
      unfolding eq using Suc.hyps(1) [of "Suc fb"] Suc.hyps(2) lt by fastforce
  next
    case False
    then show ?thesis
      using lt assms(2) Suc.prems(2) by (cases "k + fb < btmp_bytes_len b * 8") (auto simp: cr_step)
  qed
qed

lemma scan_runs_spec:
  assumes "bitmap_wf b" and "val = 0 \<or> val = 1" and "0 < cnt"
    and "\<forall>i < k. \<not> run_at b val cnt i"
  shows "\<exists>st r. scan_runs b val cnt k = Some (st, r) \<and>
    (if \<exists>i. run_at b val cnt i
     then st = K_SUCCESS \<and> r = Some (word_of_nat (LEAST i. run_at b val cnt i))
     else (st = K_ERROR \<or> st = K_OUT_OF_RESOURCE) \<and> r = None)"
  using assms(4)
proof (induction "btmp_bytes_len b * 8 - k" arbitrary: k rule: less_induct)
  case less
  have len: "bitmap_bits_len b = btmp_bytes_len b * 8" using bits_len_wf [OF assms(1)] .
  show ?case
  proof (cases "k < btmp_bytes_len b * 8")
    case False
    have "\<not> (\<exists>i. run_at b val cnt i)"
    proof (rule notI)
      assume "\<exists>i. run_at b val cnt i"
      then obtain i where i: "run_at b val cnt i" by blast
      with less.prems have "k \<le> i" by (meson not_le)
      with i False assms(3) show False by (simp add: run_at_def)
    qed
    then show ?thesis using False len by (subst scan_runs.simps) auto
  next
    case True
    consider (off) m where "m < cnt" "count_run b val cnt k 0 = Some None"
        "k + m \<ge> btmp_bytes_len b * 8"
      | (stop) m where "m \<le> cnt" "count_run b val cnt k 0 = Some (Some m)"
        "\<forall>j < m. k + j < btmp_bytes_len b * 8 \<and> bmbit b (k + j) = (val = 1)"
        "m < cnt \<longrightarrow> bmbit b (k + m) = (val \<noteq> 1)"
      using count_run_spec [OF assms(1,2), of 0 cnt k] by auto
    then show ?thesis
    proof cases
      case off
      have "\<not> run_at b val cnt i" for i
        using off less.prems by (cases "i < k") (auto simp: run_at_def)
      then show ?thesis using True len off by (subst scan_runs.simps) auto
    next
      case stop
      show ?thesis
      proof (cases "m = cnt")
        case eq: True
        have "k + (cnt - 1) < btmp_bytes_len b * 8"
          using stop(3) [rule_format, of "cnt - 1"] eq assms(3) by simp
        then have at: "run_at b val cnt k" using stop(3) eq by (auto simp: run_at_def)
        moreover have "(LEAST i. run_at b val cnt i) = k"
        proof (rule Least_equality [where P = "run_at b val cnt", OF at])
          show "k \<le> i" if "run_at b val cnt i" for i using less.prems that by (meson not_le)
        qed
        ultimately show ?thesis using True len stop eq by (subst scan_runs.simps) auto
      next
        case neq: False
        then have wrong: "bmbit b (k + m) = (val \<noteq> 1)" and "m < cnt" using stop by auto
        have "\<not> run_at b val cnt i" if "i < Suc (k + m)" for i
        proof (cases "i < k")
          case False
          with that \<open>m < cnt\<close> have "k + m - i < cnt" "i + (k + m - i) = k + m" by auto
          then show ?thesis using wrong by (metis run_at_def)
        qed (use less.prems in auto)
        then have *: "\<forall>i < Suc (k + m). \<not> run_at b val cnt i" by blast
        have "scan_runs b val cnt k = scan_runs b val cnt (Suc (k + m))"
          using True len stop neq by (subst scan_runs.simps) auto
        then show ?thesis using less.hyps [OF _ *] True by auto
      qed
    qed
  qed
qed

lemma bitmap_alloc_spec:
  assumes "bitmap_wf b" and "val = 0 \<or> val = 1" and "0 < cnt" and "index \<noteq> NULL"
  shows "\<exists>st r. bitmap_alloc b val cnt index = Some (st, r) \<and>
    (if \<exists>i. run_at b val cnt i
     then st = K_SUCCESS \<and> r = Some (word_of_nat (LEAST i. run_at b val cnt i))
     else (st = K_ERROR \<or> st = K_OUT_OF_RESOURCE) \<and> r = None)"
proof -
  obtain k where k: "skip_full b (if val = 0 then 0xff else 0) 0 = Some k" "k \<le> btmp_bytes_len b"
      "\<forall>j < k * 8. bmbit b j = (val \<noteq> 1)"
    using skip_full_spec [OF assms(1,2), of 0] by auto
  have none: "\<not> run_at b val cnt i" if "i < k * 8" for i
    using k(3) that assms(3) by (auto simp: run_at_def dest: spec [of _ 0])
  show ?thesis
  proof (cases "k < btmp_bytes_len b")
    case True
    then show ?thesis
      using scan_runs_spec [OF assms(1-3), of "k * 8"] none k(1) assms(2,4)
      by (simp add: bitmap_alloc_def)
  next
    case False
    then have "\<not> run_at b val cnt i" for i
      using none [of i] k(2) assms(3) by (cases "i < k * 8") (auto simp: run_at_def)
    then show ?thesis using False k(1) assms(2,4) by (simp add: bitmap_alloc_def)
  qed
qed

text \<open>\<^verbatim>\<open>bitmap_alloc\<close> is first fit: on a well-formed bitmap it succeeds exactly
  when some run of \<open>cnt\<close> bits of the wanted value exists, and it then returns the lowest such
  run; otherwise it returns an error and no index. It never reads outside the byte array.\<close>

theorem bitmap_alloc_first_fit:
  assumes "bitmap_wf b" and "val = 0 \<or> val = 1" and "0 < cnt" and "index \<noteq> NULL"
  shows "\<exists>st r. bitmap_alloc b val cnt index = Some (st, r) \<and>
    (if \<exists>i. run_at b val cnt i
     then st = K_SUCCESS \<and> r = Some (word_of_nat (LEAST i. run_at b val cnt i))
     else (st = K_ERROR \<or> st = K_OUT_OF_RESOURCE) \<and> r = None)"
  using assms by (rule bitmap_alloc_spec)

definition example_bitmap :: bitmap where
  "example_bitmap = \<lparr>btmp_bytes_len = 3, bmap = [0xff, 0x4d, 0x00]\<rparr>"

lemma bitmap_alloc_first_fit_witness:
  "\<exists>st r. bitmap_alloc example_bitmap 0 3 0x1000 = Some (st, r) \<and>
    (if \<exists>i. run_at example_bitmap 0 3 i
     then st = K_SUCCESS \<and> r = Some (word_of_nat (LEAST i. run_at example_bitmap 0 3 i))
     else (st = K_ERROR \<or> st = K_OUT_OF_RESOURCE) \<and> r = None)"
  by (rule bitmap_alloc_first_fit) (simp_all add: example_bitmap_def bitmap_wf_def)

text \<open>\<^verbatim>\<open>bitmap_set\<close> changes the one bit it is given and no other, and the bit is what
  \<^verbatim>\<open>bitmap_scan_test\<close> then reads; an index outside the bitmap leaves it as it was.\<close>

theorem bitmap_set_then_test:
  assumes "bitmap_wf b" and "val = 0 \<or> val = 1"
  shows "\<exists>b'. bitmap_set b i val = Some b' \<and> bitmap_wf b' \<and>
    (\<forall>j. bitmap_scan_test b' j =
       (if j = i \<and> i < btmp_bytes_len b * 8 then Some (uint val) else bitmap_scan_test b j))"
proof -
  obtain b' where "bitmap_set b i val = Some b'" "bitmap_wf b'"
      "btmp_bytes_len b' = btmp_bytes_len b" "length (bmap b') = length (bmap b)"
      "\<And>j. j < btmp_bytes_len b * 8 \<Longrightarrow> bmbit b' j = (if j = i then val = 1 else bmbit b j)"
    by (rule bitmap_set_wf [OF assms, of i]) blast
  then show ?thesis using assms by (auto simp: scan_test_wf)
qed

lemma bitmap_set_then_test_witness:
  "\<exists>b'. bitmap_set example_bitmap 12 0 = Some b' \<and> bitmap_wf b' \<and>
    (\<forall>j. bitmap_scan_test b' j =
       (if j = 12 \<and> 12 < btmp_bytes_len example_bitmap * 8 then Some (uint (0 :: u8))
        else bitmap_scan_test example_bitmap j))"
  by (rule bitmap_set_then_test) (simp_all add: example_bitmap_def bitmap_wf_def)

end
