(* ===== verification/FifoQueue.thy ===== *)
theory FifoQueue
  imports Prelude
begin

text \<open>
  The ring buffer of \<^verbatim>\<open>src/lib/fifo.c\<close> and the contract it promises its users (the xhci
  driver queues transfer, command and port events in it): a bounded first-in first-out queue.
  The data area is the byte array the caller supplied; items are copied in and out byte by byte.
  Sizes and indices are C \<^verbatim>\<open>int\<close>s, here integers with the overflow of the one product as a
  fault. The spinlock is a flag; taking a lock that is held never returns.
\<close>

record fifo =
  data :: "u8 list"
  item_size :: int
  fsize :: int
  free :: int
  next_read :: int
  next_write :: int
  flock :: bool

definition to_int32 :: "u64 \<Rightarrow> int" where
  "to_int32 n = sint (ucast n :: u32)"

definition init_fifo :: "u8 list \<Rightarrow> u64 \<Rightarrow> int \<Rightarrow> fifo" where
  "init_fifo d isz sz =
     \<lparr>data = d, item_size = to_int32 isz, fsize = sz, free = sz, next_read = 0, next_write = 0,
      flock = False\<rparr>"

definition fifo_lock :: "fifo \<Rightarrow> fifo option" where
  "fifo_lock f = (if flock f then None else Some (f\<lparr>flock := True\<rparr>))"

definition fifo_unlock :: "fifo \<Rightarrow> fifo" where
  "fifo_unlock f = f\<lparr>flock := False\<rparr>"

text \<open>The product \<^verbatim>\<open>item_size * index\<close> as an offset into the data area.\<close>

definition int_mul :: "int \<Rightarrow> int \<Rightarrow> int option" where
  "int_mul a b = (if - (2 ^ 31) \<le> a * b \<and> a * b < 2 ^ 31 then Some (a * b) else None)"

definition blit_in :: "u8 list \<Rightarrow> int \<Rightarrow> u8 list \<Rightarrow> u8 list option" where
  "blit_in d off it =
     (if 0 \<le> off \<and> nat off + length it \<le> length d
      then Some (take (nat off) d @ it @ drop (nat off + length it) d) else None)"

definition blit_out :: "u8 list \<Rightarrow> int \<Rightarrow> int \<Rightarrow> u8 list option" where
  "blit_out d off n =
     (if 0 \<le> off \<and> 0 \<le> n \<and> nat (off + n) \<le> length d
      then Some (take (nat n) (drop (nat off) d)) else None)"

text \<open>
  \<open>item = None\<close> is the null pointer; otherwise the bytes at \<^verbatim>\<open>item\<close>, of which
  \<^verbatim>\<open>item_size\<close> are copied.
\<close>

definition fifo_write :: "fifo \<Rightarrow> u8 list option \<Rightarrow> (status_t \<times> fifo) option" where
  "fifo_write f item = (case item of
     None \<Rightarrow> Some (K_INVAILD_ADDR, f)
   | Some bytes \<Rightarrow>
       if free f = 0 then Some (K_OUT_OF_RESOURCE, f)
       else do {
         f \<leftarrow> fifo_lock f;
         let f = f\<lparr>free := free f - 1\<rparr>;
         off \<leftarrow> int_mul (item_size f) (next_write f);
         src \<leftarrow> blit_out bytes 0 (item_size f);
         d \<leftarrow> blit_in (data f) off src;
         let f = f\<lparr>data := d\<rparr>;
         assert (fsize f \<noteq> 0);
         let f = f\<lparr>next_write := (next_write f + 1) mod fsize f\<rparr>;
         Some (K_SUCCESS, fifo_unlock f) })"

text \<open>
  \<open>valid\<close> says whether \<^verbatim>\<open>item\<close> is not null; the bytes copied to it are returned.
\<close>

definition fifo_read :: "fifo \<Rightarrow> bool \<Rightarrow> (status_t \<times> u8 list option \<times> fifo) option" where
  "fifo_read f valid =
     (if \<not> valid then Some (K_INVAILD_ADDR, None, f)
      else if free f = fsize f then Some (K_OUT_OF_RESOURCE, None, f)
      else do {
        f \<leftarrow> fifo_lock f;
        let f = f\<lparr>free := free f + 1\<rparr>;
        off \<leftarrow> int_mul (item_size f) (next_read f);
        it \<leftarrow> blit_out (data f) off (item_size f);
        assert (fsize f \<noteq> 0);
        let f = f\<lparr>next_read := (next_read f + 1) mod fsize f\<rparr>;
        Some (K_SUCCESS, Some it, fifo_unlock f) })"

definition fifo_empty :: "fifo \<Rightarrow> bool" where
  "fifo_empty f \<longleftrightarrow> free f = fsize f"

definition fifo_full :: "fifo \<Rightarrow> bool" where
  "fifo_full f \<longleftrightarrow> free f = 0"

subsection \<open>The contract: a bounded queue\<close>

text \<open>
  What a client may rely on: \<open>put\<close> appends an item unless the queue is full, \<open>get\<close>
  removes the oldest item unless it is empty, and neither faults.
\<close>

locale bounded_queue =
  fixes inv :: "'q \<Rightarrow> bool"
    and contents :: "'q \<Rightarrow> 'a list"
    and capacity :: "'q \<Rightarrow> nat"
    and okay :: "'q \<Rightarrow> 'a \<Rightarrow> bool"
    and put :: "'a \<Rightarrow> 'q \<Rightarrow> (status_t \<times> 'q) option"
    and get :: "'q \<Rightarrow> (status_t \<times> 'a option \<times> 'q) option"
  assumes put_room: "\<lbrakk>inv q; okay q x; length (contents q) < capacity q\<rbrakk> \<Longrightarrow>
      \<exists>q'. put x q = Some (K_SUCCESS, q') \<and> inv q' \<and> contents q' = contents q @ [x] \<and>
        capacity q' = capacity q \<and> okay q' = okay q"
    and put_full: "\<lbrakk>inv q; okay q x; length (contents q) = capacity q\<rbrakk> \<Longrightarrow>
      put x q = Some (K_OUT_OF_RESOURCE, q)"
    and get_some: "\<lbrakk>inv q; contents q = x # xs\<rbrakk> \<Longrightarrow>
      \<exists>q'. get q = Some (K_SUCCESS, Some x, q') \<and> inv q' \<and> contents q' = xs \<and>
        capacity q' = capacity q \<and> okay q' = okay q"
    and get_none: "\<lbrakk>inv q; contents q = []\<rbrakk> \<Longrightarrow> get q = Some (K_OUT_OF_RESOURCE, None, q)"
    and bounded: "inv q \<Longrightarrow> length (contents q) \<le> capacity q"
begin

text \<open>Write a list of items; the items that found no room are lost, as in the event handler.\<close>

fun put_all :: "'a list \<Rightarrow> 'q \<Rightarrow> 'q option" where
  "put_all [] q = Some q"
| "put_all (x # xs) q = Option.bind (put x q) (\<lambda>(_, q'). put_all xs q')"

fun get_all :: "nat \<Rightarrow> 'q \<Rightarrow> ('a list \<times> 'q) option" where
  "get_all 0 q = Some ([], q)"
| "get_all (Suc n) q = Option.bind (get q) (\<lambda>(_, x, q').
     case x of None \<Rightarrow> Some ([], q')
     | Some x \<Rightarrow> Option.bind (get_all n q') (\<lambda>(xs, q''). Some (x # xs, q'')))"

lemma put_all_contents:
  assumes "inv q" and "\<forall>x \<in> set xs. okay q x"
  shows "\<exists>q'. put_all xs q = Some q' \<and> inv q' \<and> capacity q' = capacity q \<and> okay q' = okay q \<and>
    contents q' = contents q @ take (capacity q - length (contents q)) xs"
  using assms
proof (induction xs arbitrary: q)
  case (Cons x xs)
  show ?case
  proof (cases "length (contents q) < capacity q")
    case True
    then obtain q1 where q1: "put x q = Some (K_SUCCESS, q1)" "inv q1"
        "contents q1 = contents q @ [x]" "capacity q1 = capacity q" "okay q1 = okay q"
      using put_room [of q x] Cons.prems by auto
    obtain d where d: "capacity q - length (contents q) = Suc d"
        "capacity q - length (contents q1) = d"
      using True q1(3) by (cases "capacity q - length (contents q)") auto
    have "\<exists>q'. put_all xs q1 = Some q' \<and> inv q' \<and> capacity q' = capacity q1 \<and> okay q' = okay q1 \<and>
        contents q' = contents q1 @ take (capacity q1 - length (contents q1)) xs"
      using Cons.IH [of q1] Cons.prems q1 by simp
    then show ?thesis using q1 d by auto
  next
    case False
    then have "length (contents q) = capacity q" using bounded [OF Cons.prems(1)] by simp
    moreover from this have "put x q = Some (K_OUT_OF_RESOURCE, q)"
      using put_full [of q x] Cons.prems by simp
    ultimately show ?thesis using Cons.IH [of q] Cons.prems by simp
  qed
qed simp

lemma get_all_contents:
  assumes "inv q"
  shows "\<exists>q'. get_all n q = Some (take n (contents q), q') \<and> inv q' \<and>
    contents q' = drop n (contents q)"
  using assms
proof (induction n arbitrary: q)
  case (Suc n)
  show ?case
  proof (cases "contents q")
    case Nil
    then show ?thesis using get_none [OF Suc.prems] Suc.prems by simp
  next
    case (Cons x xs)
    then obtain q1 where q1: "get q = Some (K_SUCCESS, Some x, q1)" "inv q1" "contents q1 = xs"
      using get_some [OF Suc.prems] by blast
    then show ?thesis using Suc.IH [OF q1(2)] Cons by auto
  qed
qed simp

end

subsection \<open>The ring buffer keeps the contract\<close>

definition slot :: "fifo \<Rightarrow> nat \<Rightarrow> u8 list" where
  "slot f i = take (nat (item_size f)) (drop (nat (item_size f) * i) (data f))"

definition used :: "fifo \<Rightarrow> nat" where
  "used f = nat (fsize f - free f)"

definition fifo_contents :: "fifo \<Rightarrow> u8 list list" where
  "fifo_contents f =
     List.map (\<lambda>k. slot f ((nat (next_read f) + k) mod nat (fsize f))) [0..<used f]"

definition fifo_capacity :: "fifo \<Rightarrow> nat" where
  "fifo_capacity f = nat (fsize f)"

definition fifo_okay :: "fifo \<Rightarrow> u8 list \<Rightarrow> bool" where
  "fifo_okay f it \<longleftrightarrow> length it = nat (item_size f)"

definition fifo_inv :: "fifo \<Rightarrow> bool" where
  "fifo_inv f \<longleftrightarrow> 0 < fsize f \<and> 0 \<le> free f \<and> free f \<le> fsize f \<and> 0 \<le> item_size f \<and>
     item_size f * fsize f < 2 ^ 31 \<and> length (data f) = nat (item_size f) * nat (fsize f) \<and>
     0 \<le> next_read f \<and> next_read f < fsize f \<and>
     next_write f = (next_read f + (fsize f - free f)) mod fsize f \<and> \<not> flock f"

text \<open>Overwriting block \<open>w\<close> of a list of \<open>n\<close>-byte blocks leaves the other blocks.\<close>

lemma take_drop_blit:
  assumes "w * n + n \<le> length d" and "i * n + n \<le> length d" and "length it = n"
  shows "take n (drop (i * n) (take (w * n) d @ it @ drop (w * n + n) d)) =
    (if i = w then it else take n (drop (i * n) d))"
proof (cases i w rule: linorder_cases)
  case less
  then have le: "i * n + n \<le> w * n" by (metis Suc_leI add.commute mult_Suc mult_le_mono1)
  then have "take n (drop (i * n) (take (w * n) d @ it @ drop (w * n + n) d)) =
      take n (drop (i * n) (take (w * n) d))"
    using assms by (auto simp: min_def)
  also have "\<dots> = take n (drop (i * n) d)" using le by (simp add: drop_take)
  finally show ?thesis using less by simp
next
  case equal
  then show ?thesis using assms by (simp add: min_def)
next
  case greater
  then have le: "w * n + n \<le> i * n" by (metis Suc_leI add.commute mult_Suc mult_le_mono1)
  have "drop (i * n) (take (w * n) d @ it @ drop (w * n + n) d) =
      drop (i * n - (w * n + n)) (drop (w * n + n) d)"
  proof -
    have "length (take (w * n) d) = w * n" using assms(1) by simp
    then show ?thesis using le assms(3) greater by (simp add: drop_append)
  qed
  also have "\<dots> = drop (i * n) d" using le by simp
  finally show ?thesis using greater by simp
qed

lemma nat_block_le: "(i :: nat) < k \<Longrightarrow> i * n + n \<le> n * k"
  by (metis Suc_leI add.commute mult.commute mult_Suc mult_le_mono1)

lemma fifo_invD:
  assumes "fifo_inv f"
  shows "0 < fsize f" "0 \<le> free f" "free f \<le> fsize f" "0 \<le> item_size f"
    "item_size f * fsize f < 2 ^ 31" "length (data f) = nat (item_size f) * nat (fsize f)"
    "0 \<le> next_read f" "next_read f < fsize f"
    "next_write f = (next_read f + (fsize f - free f)) mod fsize f" "\<not> flock f"
  using assms by (auto simp: fifo_inv_def)

lemma int_mul_in_range:
  assumes "fifo_inv f" and "0 \<le> i" and "i < fsize f"
  shows "int_mul (item_size f) i = Some (item_size f * i)"
proof -
  have "item_size f * i \<le> item_size f * fsize f"
    using assms fifo_invD [OF assms(1)] by (intro mult_left_mono) auto
  moreover have "0 \<le> item_size f * i" using assms fifo_invD [OF assms(1)] by simp
  ultimately show ?thesis using fifo_invD(5) [OF assms(1)] by (simp add: int_mul_def)
qed

lemma nat_mod_add: "0 \<le> r \<Longrightarrow> 0 < s \<Longrightarrow> nat ((r + int k) mod s) = (nat r + k) mod nat s"
  by (simp add: nat_add_distrib nat_mod_distrib)

lemma used_bounds: "fifo_inv f \<Longrightarrow> used f \<le> nat (fsize f) \<and> int (used f) = fsize f - free f"
  by (auto simp: used_def dest: fifo_invD)

lemma next_write_nat:
  "fifo_inv f \<Longrightarrow> nat (next_write f) = (nat (next_read f) + used f) mod nat (fsize f)"
  using fifo_invD [of f] used_bounds [of f] nat_mod_add [of "next_read f" "fsize f" "used f"] by simp

lemma mod_add_inj:
  "\<lbrakk>(r + i) mod s = (r + j) mod s; i < s; j < s\<rbrakk> \<Longrightarrow> i = (j :: nat)"
proof -
  assume a: "(r + i) mod s = (r + j) mod s" "i < s" "j < s"
  show "i = j"
  proof (cases i j rule: linorder_cases)
    case less
    then have "s dvd (r + j) - (r + i)" using a(1) by (metis mod_eq_dvd_iff_nat nat_add_left_cancel_le less_imp_le)
    then show ?thesis using less a by (auto dest: dvd_imp_le)
  next
    case greater
    then have "s dvd (r + i) - (r + j)" using a(1) by (metis mod_eq_dvd_iff_nat nat_add_left_cancel_le less_imp_le)
    then show ?thesis using greater a by (auto dest: dvd_imp_le)
  qed
qed

lemma fifo_write_room:
  assumes inv: "fifo_inv f" and ok: "fifo_okay f it" and room: "free f \<noteq> 0"
  shows "\<exists>f'. fifo_write f (Some it) = Some (K_SUCCESS, f') \<and> fifo_inv f' \<and>
    fifo_contents f' = fifo_contents f @ [it] \<and> fsize f' = fsize f \<and> item_size f' = item_size f"
proof -
  note I = fifo_invD [OF inv]
  define n where "n = nat (item_size f)"
  define w where "w = nat (next_write f)"
  have wlt: "0 \<le> next_write f" "next_write f < fsize f" using I(1,9) by auto
  then have w: "w < nat (fsize f)" by (simp add: w_def)
  then have wle: "w * n + n \<le> length (data f)" using nat_block_le [OF w, of n] I(6) n_def by simp
  have off: "nat (item_size f * next_write f) = w * n"
    using I(4) wlt by (simp add: nat_mult_distrib w_def n_def)
  have src: "blit_out it 0 (item_size f) = Some it"
    using ok I(4) by (simp add: blit_out_def fifo_okay_def)
  define d where "d = take (w * n) (data f) @ it @ drop (w * n + n) (data f)"
  have len_it: "length it = n" using ok by (simp add: fifo_okay_def n_def)
  have blit: "blit_in (data f) (item_size f * next_write f) it = Some d"
    using off wle I(4) wlt len_it by (simp add: blit_in_def d_def)
  let ?f = "f\<lparr>free := free f - 1, data := d, next_write := (next_write f + 1) mod fsize f,
    flock := False\<rparr>"
  have "fifo_write f (Some it) = Some (K_SUCCESS, ?f)"
    using room I int_mul_in_range [OF inv wlt] src blit
    by (simp add: fifo_write_def fifo_lock_def fifo_unlock_def Let_def)
  moreover have len_d: "length d = length (data f)" using wle len_it by (simp add: d_def)
  then have "fifo_inv ?f"
    using I room by (auto simp: fifo_inv_def mod_simps algebra_simps)
  moreover have "fifo_contents ?f = fifo_contents f @ [it]"
  proof -
    have slot: "slot ?f i = (if i = w then it else slot f i)" if "i < nat (fsize f)" for i
    proof -
      have "i * n + n \<le> length (data f)" using nat_block_le [OF that, of n] I(6) n_def by simp
      from take_drop_blit [OF wle this len_it] show ?thesis
        by (simp add: slot_def d_def n_def mult.commute)
    qed
    have used: "used ?f = Suc (used f)" using I room by (simp add: used_def)
    have lt: "used f < nat (fsize f)" using I room by (simp add: used_def)
    have wmod: "w = (nat (next_read f) + used f) mod nat (fsize f)"
      using next_write_nat [OF inv] by (simp add: w_def)
    have neq: "(nat (next_read f) + k) mod nat (fsize f) \<noteq> w" if "k < used f" for k
      using mod_add_inj [of "nat (next_read f)" k "nat (fsize f)" "used f"] that lt wmod by auto
    have "List.map (\<lambda>k. slot ?f ((nat (next_read f) + k) mod nat (fsize f))) [0..<used f] =
        fifo_contents f"
      using neq I(1) by (auto simp: fifo_contents_def slot)
    moreover have "slot ?f w = it" using slot [OF w] by simp
    ultimately show ?thesis by (simp add: fifo_contents_def [of ?f] used wmod)
  qed
  ultimately show ?thesis by auto
qed

lemma fifo_read_some:
  assumes inv: "fifo_inv f" and c: "fifo_contents f = x # xs"
  shows "\<exists>f'. fifo_read f True = Some (K_SUCCESS, Some x, f') \<and> fifo_inv f' \<and>
    fifo_contents f' = xs \<and> fsize f' = fsize f \<and> item_size f' = item_size f"
proof -
  note I = fifo_invD [OF inv]
  define r where "r = nat (next_read f)"
  have r: "r < nat (fsize f)" using I(7,8) by (simp add: r_def)
  obtain u where u: "used f = Suc u" using c by (cases "used f") (auto simp: fifo_contents_def)
  have ne: "free f \<noteq> fsize f" using u by (auto simp: used_def)
  have cons: "fifo_contents f = slot f r #
      List.map (\<lambda>k. slot f ((r + Suc k) mod nat (fsize f))) [0..<u]"
    using r by (simp add: fifo_contents_def u upt_conv_Cons map_Suc_upt [symmetric] r_def
        del: upt_Suc map_Suc_upt)
  have "nat (item_size f * next_read f + item_size f) \<le> length (data f)"
    using nat_block_le [OF r, of "nat (item_size f)"] I
    by (simp add: nat_add_distrib nat_mult_distrib r_def mult.commute)
  then have out: "blit_out (data f) (item_size f * next_read f) (item_size f) = Some (slot f r)"
    using I by (simp add: blit_out_def slot_def r_def nat_mult_distrib)
  let ?f = "f\<lparr>free := free f + 1, next_read := (next_read f + 1) mod fsize f, flock := False\<rparr>"
  have "fifo_read f True = Some (K_SUCCESS, Some (slot f r), ?f)"
    using ne I int_mul_in_range [OF inv I(7,8)] out
    by (simp add: fifo_read_def fifo_lock_def fifo_unlock_def Let_def)
  moreover have "next_write f = ((next_read f + 1) mod fsize f + (fsize f - (free f + 1))) mod fsize f"
    unfolding I(9) mod_add_left_eq by simp
  then have "fifo_inv ?f"
    using I ne by (simp add: fifo_inv_def)
  moreover have "fifo_contents ?f = xs"
  proof -
    have "used ?f = u" using u I by (simp add: used_def)
    moreover have "(nat ((next_read f + 1) mod fsize f) + k) mod nat (fsize f) =
        (r + Suc k) mod nat (fsize f)" for k
      using nat_mod_add [of "next_read f" "fsize f" 1] I by (simp add: r_def mod_simps)
    ultimately show ?thesis using c cons by (simp add: fifo_contents_def [of ?f] slot_def)
  qed
  ultimately show ?thesis using c cons by auto
qed

lemma length_fifo_contents: "length (fifo_contents f) = used f"
  by (simp add: fifo_contents_def)

interpretation fq: bounded_queue fifo_inv fifo_contents fifo_capacity fifo_okay
  "\<lambda>it f. fifo_write f (Some it)" "\<lambda>f. fifo_read f True"
proof (unfold_locales, goal_cases)
  case (1 q x)
  then have "free q \<noteq> 0"
    by (auto simp: length_fifo_contents used_def fifo_capacity_def)
  from fifo_write_room [OF 1(1,2) this] show ?case
    by (auto simp: fifo_capacity_def fifo_okay_def fun_eq_iff)
next
  case (2 q x)
  then have "free q = 0"
    by (auto simp: length_fifo_contents used_def fifo_capacity_def dest: fifo_invD)
  then show ?case by (simp add: fifo_write_def)
next
  case (3 q x xs)
  from fifo_read_some [OF this] show ?case
    by (auto simp: fifo_capacity_def fifo_okay_def fun_eq_iff)
next
  case (4 q)
  then have "free q = fsize q"
    using length_fifo_contents [of q] used_bounds [of q] by simp
  then show ?case by (simp add: fifo_read_def)
next
  case (5 q)
  then show ?case using used_bounds [of q] by (simp add: length_fifo_contents fifo_capacity_def)
qed

text \<open>The event handler's use of the buffer: write, whatever the status.\<close>

definition fifo_post :: "u8 list \<Rightarrow> fifo \<Rightarrow> fifo option" where
  "fifo_post it f = map_option snd (fifo_write f (Some it))"

lemma fifo_post_all: "fold_option fifo_post its f = fq.put_all its f"
  by (induction its arbitrary: f) (auto simp: fifo_post_def split: Option.bind_split)

definition fifo_take :: "fifo \<Rightarrow> (u8 list option \<times> fifo) option" where
  "fifo_take f = map_option snd (fifo_read f True)"

lemma fifo_take_all:
  assumes "fifo_inv f"
  shows "n \<le> length (fifo_contents f) \<Longrightarrow> \<exists>f'. collect_option n fifo_take f =
    Some (List.map Some (take n (fifo_contents f)), f') \<and> fifo_inv f' \<and>
    fifo_contents f' = drop n (fifo_contents f) \<and> fifo_capacity f' = fifo_capacity f \<and>
    fifo_okay f' = fifo_okay f"
  using assms
proof (induction n arbitrary: f)
  case (Suc n)
  then obtain x xs where c: "fifo_contents f = x # xs" by (cases "fifo_contents f") auto
  then obtain f1 where f1: "fifo_read f True = Some (K_SUCCESS, Some x, f1)" "fifo_inv f1"
      "fifo_contents f1 = xs" "fifo_capacity f1 = fifo_capacity f" "fifo_okay f1 = fifo_okay f"
    using fq.get_some [OF Suc.prems(2)] by blast
  then show ?case using Suc.IH [of f1] Suc.prems c by (auto simp: fifo_take_def)
qed simp

lemma init_fifo_inv:
  assumes "0 < sz" and "int isz * sz < 2 ^ 31" and "length d = isz * nat sz"
  shows "fifo_inv (init_fifo d (word_of_nat isz) sz) \<and>
    fifo_contents (init_fifo d (word_of_nat isz) sz) = [] \<and>
    item_size (init_fifo d (word_of_nat isz) sz) = int isz"
proof -
  have "int isz * 1 \<le> int isz * sz" using assms(1) by (intro mult_left_mono) auto
  then have "int isz < 2 ^ 31" using assms(2) by linarith
  then have sg: "signed_take_bit 31 (int isz) = int isz"
    by (intro signed_take_bit_int_eq_self) auto
  have "ucast (word_of_nat isz :: u64) = (word_of_nat isz :: u32)"
    by (transfer) (simp add: take_bit_take_bit)
  then have "to_int32 (word_of_nat isz) = int isz"
    using sg by (simp add: to_int32_def signed_of_nat)
  then show ?thesis
    using assms by (auto simp: init_fifo_def fifo_inv_def fifo_contents_def used_def)
qed



end
