(* ===== verification/Stdio.thy ===== *)
theory Stdio
  imports CString
begin

text \<open>
  Formatted output: \<^verbatim>\<open>src/lib/stdio.c\<close>. A format is the list of its characters without the
  terminating null; the buffer is the list of characters written. \<^verbatim>\<open>int\<close> variables are unbounded
  integers (their overflow is undefined in C). An argument of the wrong kind, or one too few, gives no
  result. Doubles are a parameter: \<^verbatim>\<open>float_to_string\<close> is not modelled.
\<close>

subsection \<open>Flags\<close>

definition FORMAT_LEFT :: u32 where "FORMAT_LEFT = 1"
definition FORMAT_SPACE :: u32 where "FORMAT_SPACE = 2"
definition FORMAT_ZERO :: u32 where "FORMAT_ZERO = 4"
definition FORMAT_SIGN :: u32 where "FORMAT_SIGN = 8"
definition FORMAT_PLUS :: u32 where "FORMAT_PLUS = 16"
definition FORMAT_SPECIAL :: u32 where "FORMAT_SPECIAL = 32"
definition FORMAT_SMALL :: u32 where "FORMAT_SMALL = 64"

lemmas FORMAT_defs = FORMAT_LEFT_def FORMAT_SPACE_def FORMAT_ZERO_def FORMAT_SIGN_def FORMAT_PLUS_def
  FORMAT_SPECIAL_def FORMAT_SMALL_def

definition flag_on :: "u32 \<Rightarrow> u32 \<Rightarrow> bool" where
  "flag_on flag f \<longleftrightarrow> flag AND f \<noteq> 0"

definition IS_DIGIT :: "u8 \<Rightarrow> bool" where
  "IS_DIGIT c \<longleftrightarrow> 48 \<le> c \<and> c \<le> 57"

fun skip_atoi_from :: "int \<Rightarrow> u8 list \<Rightarrow> int \<times> u8 list" where
  "skip_atoi_from i [] = (i, [])"
| "skip_atoi_from i (c # cs) =
     (if IS_DIGIT c then skip_atoi_from (i * 10 + (uint c - 48)) cs else (i, c # cs))"

definition skip_atoi :: "u8 list \<Rightarrow> int \<times> u8 list" where
  "skip_atoi s = skip_atoi_from 0 s"

subsection \<open>Numbers\<close>

definition digit_char :: "bool \<Rightarrow> nat \<Rightarrow> u8" where
  "digit_char small d =
     (if d < 10 then 48 + word_of_nat d else (if small then 97 else 65) + word_of_nat (d - 10))"

text \<open>The array \<^verbatim>\<open>tmp\<close> of the digits, least significant first.\<close>

function number_digits :: "bool \<Rightarrow> nat \<Rightarrow> u64 \<Rightarrow> u8 list" where
  "number_digits small base num =
     (if num = 0 \<or> base < 2 then []
      else digit_char small (unat num mod base) # number_digits small base (word_of_nat (unat num div base)))"
  by auto

termination
proof (relation "measure (\<lambda>(small, base, num). unat num)")
  fix base :: nat and num :: u64
  assume "\<not> (num = 0 \<or> base < 2)"
  then have "unat num div base < unat num" by (simp add: unat_gt_0)
  moreover have "unat num < 2 ^ 64" using unsigned_less [of num] by simp
  ultimately have "unat (word_of_nat (unat num div base) :: u64) < unat num"
    by (subst unat_of_nat_lt) auto
  then show "((small, base, word_of_nat (unat num div base)), small, base, num)
      \<in> measure (\<lambda>(small, base, num). unat num)" for small :: bool by simp
qed simp

declare number_digits.simps [simp del]

text \<open>\<^verbatim>\<open>while (width-- > 0) *str++ = c\<close>: what is written, and \<^verbatim>\<open>width\<close> afterwards.\<close>

definition pad_loop :: "u8 \<Rightarrow> int \<Rightarrow> u8 list \<times> int" where
  "pad_loop c width = (replicate (nat width) c, min (width - 1) (-1))"

definition number_to_string :: "u64 \<Rightarrow> int \<Rightarrow> int \<Rightarrow> int \<Rightarrow> u32 \<Rightarrow> u8 list option" where
  "number_to_string num base width precision flag =
     (let small = flag_on flag FORMAT_SMALL in
      if base < 2 \<or> base > 36 then None
      else do {
        let pad = (if flag_on flag FORMAT_ZERO then 48 else 32);
        let neg = (flag_on flag FORMAT_SIGN \<and> num <s 0);
        let num = (if neg then - num else num);
        let sign = (if neg then [45] else if flag_on flag FORMAT_PLUS then [43]
          else if flag_on flag FORMAT_SPACE then [32] else []);
        let width = (if sign \<noteq> [] then width - 1 else width);
        let width = (if flag_on flag FORMAT_SPECIAL then
            (if base = 16 then width - 2 else if base = 8 then width - 1 else width) else width);
        let tmp = (if num = 0 then [48] else number_digits small (nat base) num);
        let i = int (length tmp);
        assert (i \<le> 50);
        let precision = (if i > precision then i else precision);
        let width = width - precision;
        let (spaces, width) = (if \<not> flag_on flag (FORMAT_ZERO OR FORMAT_LEFT) then pad_loop 32 width else ([], width));
        let prefix = (if flag_on flag FORMAT_SPECIAL then
            (if base = 8 then [48] else if base = 16 then [48, digit_char small 33] else []) else []);
        let (pads, width) = (if \<not> flag_on flag FORMAT_LEFT then pad_loop pad width else ([], width));
        let zeros = replicate (nat (precision - i)) 48;
        let (trail, width) = pad_loop 32 width;
        Some (spaces @ sign @ prefix @ pads @ zeros @ rev tmp @ trail) })"

subsection \<open>Formats\<close>

fun flag_chars :: "u32 \<Rightarrow> u8 list \<Rightarrow> u32 \<times> u8 list" where
  "flag_chars flag [] = (flag, [])"
| "flag_chars flag (c # cs) =
     (if c = 45 then flag_chars (flag OR FORMAT_LEFT) cs
      else if c = 48 then flag_chars (flag OR FORMAT_ZERO) cs
      else if c = 32 then flag_chars (flag OR FORMAT_SPACE) cs
      else if c = 35 then flag_chars (flag OR FORMAT_SPECIAL) cs
      else (flag, c # cs))"

text \<open>The argument is the format behind the percent sign.\<close>

definition get_flag :: "u8 list \<Rightarrow> u32 \<times> u8 list" where
  "get_flag fmt =
     (let (flag, fmt) = flag_chars 0 fmt
      in (if flag_on flag FORMAT_LEFT then flag AND NOT FORMAT_ZERO else flag, fmt))"

datatype 'd varg = VInt u64 | VStr "u8 list" | VDouble 'd

fun va_word :: "'d varg list \<Rightarrow> (u64 \<times> 'd varg list) option" where
  "va_word (VInt w # ap) = Some (w, ap)"
| "va_word _ = None"

definition va_int :: "'d varg list \<Rightarrow> (u32 \<times> 'd varg list) option" where
  "va_int ap = map_option (\<lambda>(w, ap). (ucast w, ap)) (va_word ap)"

fun va_str :: "'d varg list \<Rightarrow> (u8 list \<times> 'd varg list) option" where
  "va_str (VStr s # ap) = Some (s, ap)"
| "va_str _ = None"

fun va_double :: "'d varg list \<Rightarrow> ('d \<times> 'd varg list) option" where
  "va_double (VDouble d # ap) = Some (d, ap)"
| "va_double _ = None"

definition head0 :: "u8 list \<Rightarrow> u8" where "head0 s = (case s of [] \<Rightarrow> 0 | c # _ \<Rightarrow> c)"

definition get_width :: "u8 list \<Rightarrow> u32 \<Rightarrow> 'd varg list \<Rightarrow> (int \<times> u32 \<times> u8 list \<times> 'd varg list) option" where
  "get_width fmt flag ap =
     (if IS_DIGIT (head0 fmt) then (let (w, fmt) = skip_atoi fmt in Some (w, flag, fmt, ap))
      else if head0 fmt = 42 then do {
        (w, ap) \<leftarrow> va_int ap;
        let w = sint w;
        Some (if w < 0 then (- w, flag OR FORMAT_LEFT, tl fmt, ap) else (w, flag, tl fmt, ap)) }
      else Some (-1, flag, fmt, ap))"

definition get_precision :: "u8 list \<Rightarrow> 'd varg list \<Rightarrow> (int \<times> u8 list \<times> 'd varg list) option" where
  "get_precision fmt ap =
     (if head0 fmt = 46 then do {
        let fmt = tl fmt;
        (p, fmt, ap) \<leftarrow>
          (if IS_DIGIT (head0 fmt) then (let (p, fmt) = skip_atoi fmt in Some (p, fmt, ap))
           else if head0 fmt = 42 then do { (p, ap) \<leftarrow> va_int ap; Some (sint p, tl fmt, ap) }
           else Some (-1, fmt, ap));
        Some (if p < 0 then 0 else p, fmt, ap) }
      else Some (-1, fmt, ap))"

fun get_qualifier :: "u8 \<Rightarrow> u8 list \<Rightarrow> u8 \<times> u8 list" where
  "get_qualifier q [] = (q, [])"
| "get_qualifier q (c # cs) =
     (if c = 104 \<or> c = 108 \<or> c = 76 \<or> c = 90 then get_qualifier c cs else (q, c # cs))"

text \<open>The characters of one conversion: the letter, its flags, and the arguments left.\<close>

definition conversion ::
  "('d \<Rightarrow> int \<Rightarrow> int \<Rightarrow> u32 \<Rightarrow> u8 list) \<Rightarrow> u8 \<Rightarrow> u8 \<Rightarrow> u32 \<Rightarrow> int \<Rightarrow> int \<Rightarrow> 'd varg list \<Rightarrow>
    (u8 list \<times> 'd varg list) option" where
  "conversion float_to_string c qualifier flag width precision ap =
     (let number = (\<lambda>num base width flag ap. do {
            s \<leftarrow> number_to_string num base width precision flag; Some (s, ap) }) in
      if c = 37 then Some ([37], ap)
      else if c = 99 then do {
        (w, ap) \<leftarrow> va_word ap;
        let (left, width) =
          (if \<not> flag_on flag FORMAT_LEFT then (replicate (nat (width - 1)) 32, min (width - 1) 0) else ([], width));
        Some (left @ [ucast w] @ replicate (nat (width - 1)) 32, ap) }
      else if c = 100 \<or> c = 105 \<or> c = 117 then do {
        let flag = (if c = 117 then flag else flag OR FORMAT_SIGN);
        (if qualifier = 108 then do { (w, ap) \<leftarrow> va_word ap; number w 10 width flag ap }
         else do { (w, ap) \<leftarrow> va_int ap; number (scast w) 10 width flag ap }) }
      else if c = 111 then
        (if qualifier = 108 then do { (w, ap) \<leftarrow> va_word ap; number w 8 width flag ap }
         else do { (w, ap) \<leftarrow> va_int ap; number (scast w) 8 width flag ap })
      else if c = 112 then do {
        let (width, flag) = (if width = -1 then (16, flag OR FORMAT_ZERO) else (width, flag));
        (w, ap) \<leftarrow> va_word ap;
        number w 16 width flag ap }
      else if c = 115 then va_str ap
      else if c = 120 \<or> c = 88 then do {
        let flag = (if c = 120 then flag OR FORMAT_SMALL else flag);
        (if qualifier = 108 then do { (w, ap) \<leftarrow> va_word ap; number w 16 width flag ap }
         else do { (w, ap) \<leftarrow> va_int ap; number (ucast w) 16 width flag ap }) }
      else if c = 102 then do { (d, ap) \<leftarrow> va_double ap; Some (float_to_string d width precision flag, ap) }
      else Some (if c \<noteq> 0 then [37, c] else [37], ap))"

text \<open>One conversion, from behind its percent sign; the format left starts behind the letter.\<close>

definition convert ::
  "('d \<Rightarrow> int \<Rightarrow> int \<Rightarrow> u32 \<Rightarrow> u8 list) \<Rightarrow> u8 list \<Rightarrow> 'd varg list \<Rightarrow>
    (u8 list \<times> u8 list \<times> 'd varg list) option" where
  "convert float_to_string fmt ap = do {
     let (flag, fmt) = get_flag fmt;
     (width, flag, fmt, ap) \<leftarrow> get_width fmt flag ap;
     (precision, fmt, ap) \<leftarrow> get_precision fmt ap;
     let (qualifier, fmt) = get_qualifier 0 fmt;
     (out, ap) \<leftarrow> conversion float_to_string (head0 fmt) qualifier flag width precision ap;
     Some (out, tl fmt, ap) }"

lemma skip_atoi_length: "length (snd (skip_atoi_from i s)) \<le> length s"
  by (induction i s rule: skip_atoi_from.induct) auto

lemma flag_chars_length: "length (snd (flag_chars f s)) \<le> length s"
  by (induction f s rule: flag_chars.induct) auto

lemma get_qualifier_length: "length (snd (get_qualifier q s)) \<le> length s"
  by (induction q s rule: get_qualifier.induct) auto

lemma convert_length:
  assumes "convert f fmt ap = Some (out, rest, ap')"
  shows "length rest \<le> length fmt"
proof -
  obtain flag s1 where g: "get_flag fmt = (flag, s1)" by force
  then have l1: "length s1 \<le> length fmt"
    using flag_chars_length [of 0 fmt] by (auto simp: get_flag_def split: prod.splits)
  obtain w flag2 s2 ap2 p s3 ap3 where s: "get_width s1 flag ap = Some (w, flag2, s2, ap2)"
      "get_precision s2 ap2 = Some (p, s3, ap3)"
    using assms g by (auto simp: convert_def elim!: bind_eq_SomeE)
  have l2: "length s2 \<le> length s1"
    using s(1) skip_atoi_length [of 0 s1]
    by (auto simp: get_width_def skip_atoi_def Let_def split: if_splits prod.splits elim!: bind_eq_SomeE)
  have l3: "length s3 \<le> length s2"
    using s(2) skip_atoi_length [of 0 "tl s2"]
    by (auto simp: get_precision_def skip_atoi_def Let_def split: if_splits prod.splits elim!: bind_eq_SomeE)
  show ?thesis
    using assms g s l1 l2 l3 get_qualifier_length [of 0 s3]
    by (auto simp: convert_def split: prod.splits elim!: bind_eq_SomeE)
qed

function vsprintf_loop ::
  "('d \<Rightarrow> int \<Rightarrow> int \<Rightarrow> u32 \<Rightarrow> u8 list) \<Rightarrow> u8 list \<Rightarrow> 'd varg list \<Rightarrow> u8 list option" where
  "vsprintf_loop f [] ap = Some []"
| "vsprintf_loop f (c # fmt) ap =
     (if c \<noteq> 37 then map_option ((#) c) (vsprintf_loop f fmt ap)
      else (case convert f fmt ap of
          None \<Rightarrow> None
        | Some (out, rest, ap) \<Rightarrow> map_option ((@) out) (vsprintf_loop f rest ap)))"
  by pat_completeness auto

termination
  by (relation "measure (\<lambda>(f, fmt, ap). length fmt)") (auto dest: convert_length)

text \<open>The result is \<^verbatim>\<open>strlen\<close> of the buffer.\<close>

definition vsprintf ::
  "('d \<Rightarrow> int \<Rightarrow> int \<Rightarrow> u32 \<Rightarrow> u8 list) \<Rightarrow> u8 list \<Rightarrow> 'd varg list \<Rightarrow> (nat \<times> u8 list) option" where
  "vsprintf f fmt ap =
     map_option (\<lambda>s. (length (takeWhile (\<lambda>c. c \<noteq> 0) s), s)) (vsprintf_loop f fmt ap)"

definition sprintf ::
  "('d \<Rightarrow> int \<Rightarrow> int \<Rightarrow> u32 \<Rightarrow> u8 list) \<Rightarrow> u8 list \<Rightarrow> 'd varg list \<Rightarrow> (nat \<times> u8 list) option" where
  "sprintf f fmt args = vsprintf f fmt args"

subsection \<open>Digits\<close>

lemma word_of_nat_div: "unat (word_of_nat (unat (n :: u64) div b) :: u64) = unat n div b"
proof -
  have "unat n div b \<le> unat n" by simp
  also have "\<dots> < 2 ^ 64" using unsigned_less [of n] by simp
  finally show ?thesis by (subst unat_of_nat_lt) auto
qed

lemma digit_char_10: "d < 10 \<Longrightarrow> IS_DIGIT (digit_char small d) \<and> uint (digit_char small d) - 48 = int d"
proof -
  assume d: "d < 10"
  have u: "unat (48 + word_of_nat d :: u8) = 48 + d"
    using d by (subst unat_add_no_wrap) (simp_all add: unat_of_nat)
  then have "uint (48 + word_of_nat d :: u8) = 48 + int d" by (simp only: uint_nat)
  then show ?thesis using d u by (simp add: digit_char_def IS_DIGIT_def word_le_nat_alt)
qed

lemma number_digits_0 [simp]: "number_digits small b 0 = []"
  by (simp add: number_digits.simps [of small b 0])

lemma skip_digits:
  "skip_atoi_from i (rev (number_digits small 10 n) @ rest) =
     skip_atoi_from (i * 10 ^ length (number_digits small 10 n) + uint n) rest"
proof (induction small "10 :: nat" n arbitrary: rest rule: number_digits.induct)
  case (1 small n)
  show ?case
  proof (cases "n = 0")
    case True
    then show ?thesis by simp
  next
    case False
    define n' :: u64 where "n' = word_of_nat (unat n div 10)"
    define d where "d = unat n mod 10"
    have d: "d < 10" by (simp add: d_def)
    have u: "uint n = 10 * uint n' + int d"
    proof -
      have "int (unat n) = int (10 * (unat n div 10) + unat n mod 10)" by simp
      then show ?thesis unfolding uint_nat n'_def word_of_nat_div d_def by linarith
    qed
    have nd: "number_digits small 10 n = digit_char small d # number_digits small 10 n'"
      using False by (simp add: number_digits.simps [of small 10 n] n'_def d_def)
    have "skip_atoi_from i (rev (number_digits small 10 n) @ rest) =
        skip_atoi_from i (rev (number_digits small 10 n') @ digit_char small d # rest)"
      by (simp add: nd)
    also have "\<dots> = skip_atoi_from (i * 10 ^ length (number_digits small 10 n') + uint n') (digit_char small d # rest)"
      using 1 False by (simp add: n'_def)
    finally show ?thesis using digit_char_10 [OF d, of small] u by (simp add: nd algebra_simps)
  qed
qed

lemma number_digits_length:
  assumes "2 \<le> b" and "unat n < b ^ k"
  shows "length (number_digits small b n) \<le> k"
  using assms(2)
proof (induction k arbitrary: n)
  case 0
  then have "n = 0" by (simp add: unat_eq_0)
  then show ?case by simp
next
  case (Suc k)
  have "unat n div b < b ^ k"
    using Suc.prems assms(1) by (intro less_mult_imp_div_less) (simp add: mult.commute)
  then have "length (number_digits small b (word_of_nat (unat n div b))) \<le> k"
    by (intro Suc.IH) (simp add: word_of_nat_div)
  then show ?case by (simp add: number_digits.simps [of small b n])
qed

lemma number_digits_22: "8 \<le> b \<Longrightarrow> length (number_digits small b n) \<le> 22"
proof (rule number_digits_length)
  assume b: "8 \<le> b"
  have "unat n < 2 ^ 64" using unsigned_less [of n] by simp
  also have "\<dots> < (8 :: nat) ^ 22" by simp
  also have "\<dots> \<le> b ^ 22" using b by (rule power_mono) simp
  finally show "unat n < b ^ 22" .
qed simp

text \<open>The digits of a number, the sign and the prefix, and the padded length.\<close>

definition magnitude :: "u64 \<Rightarrow> u32 \<Rightarrow> u64" where
  "magnitude num flag = (if flag_on flag FORMAT_SIGN \<and> num <s 0 then - num else num)"

definition natural_length :: "u64 \<Rightarrow> int \<Rightarrow> int \<Rightarrow> u32 \<Rightarrow> int" where
  "natural_length num base precision flag =
     max precision (if magnitude num flag = 0 then 1
       else int (length (number_digits (flag_on flag FORMAT_SMALL) (nat base) (magnitude num flag)))) +
     (if flag_on flag FORMAT_SIGN \<and> num <s 0 \<or> flag_on flag FORMAT_PLUS \<or> flag_on flag FORMAT_SPACE then 1 else 0) +
     (if flag_on flag FORMAT_SPECIAL then (if base = 16 then 2 else if base = 8 then 1 else 0) else 0)"

lemma padding_total:
  assumes "(if A then pad_loop 32 W else ([], W)) = (a, w1)"
    and "(if B then pad_loop c w1 else ([], w1)) = (b, w2)" and "pad_loop 32 w2 = (t, w3)"
  shows "int (length a + length b + length t) = max 0 W"
  using assms by (cases A; cases B) (auto simp: pad_loop_def)

text \<open>\<^verbatim>\<open>number_to_string\<close> never overruns its array of digits in the bases that \<^verbatim>\<open>vsprintf\<close> uses, and
  what it writes is as long as the field, or as the sign, the prefix, and the digits (at least
  \<^verbatim>\<open>precision\<close> of them) where those need more room, for every combination of flags.\<close>

theorem number_to_string_length:
  assumes "base \<in> {8, 10, 16}"
  shows "\<exists>s. number_to_string num base width precision flag = Some s \<and>
    int (length s) = max width (natural_length num base precision flag) \<and>
    natural_length num base precision flag \<le> max precision 22 + 3"
proof -
  define neg where "neg \<longleftrightarrow> flag_on flag FORMAT_SIGN \<and> num <s 0"
  define n where "n = magnitude num flag"
  have n: "n = (if neg then - num else num)" by (simp add: n_def magnitude_def neg_def)
  define tmp where "tmp = (if n = 0 then [48] else number_digits (flag_on flag FORMAT_SMALL) (nat base) n)"
  have "8 \<le> nat base" using assms by auto
  then have l: "length tmp \<le> 22" using number_digits_22 [of "nat base" _ n] by (simp add: tmp_def)
  have nl: "natural_length num base precision flag = max precision (int (length tmp)) +
     (if neg \<or> flag_on flag FORMAT_PLUS \<or> flag_on flag FORMAT_SPACE then 1 else 0) +
     (if flag_on flag FORMAT_SPECIAL then (if base = 16 then 2 else if base = 8 then 1 else 0) else 0)"
    by (simp add: natural_length_def n_def [symmetric] neg_def tmp_def)
  have zl: "flag_on flag (FORMAT_ZERO OR FORMAT_LEFT) \<longleftrightarrow> flag_on flag FORMAT_ZERO \<or> flag_on flag FORMAT_LEFT"
    by (simp add: flag_on_def bit.conj_disj_distrib or_eq_0_iff)
  define sgn :: "u8 list" where "sgn = (if neg then [45] else if flag_on flag FORMAT_PLUS then [43]
          else if flag_on flag FORMAT_SPACE then [32] else [])"
  define pre where "pre = (if flag_on flag FORMAT_SPECIAL then
            (if base = 8 then [48] else if base = 16 then [48, digit_char (flag_on flag FORMAT_SMALL) 33] else []) else [])"
  define P where "P = max precision (int (length tmp))"
  have e1: "(if sgn \<noteq> [] then width - 1 else width) = width - int (length sgn)" by (simp add: sgn_def)
  have e2: "(if flag_on flag FORMAT_SPECIAL then if base = 16 then x - 2 else if base = 8 then x - 1 else x else x) =
      x - int (length pre)" for x by (simp add: pre_def)
  have e3: "(if precision < int (length tmp) then int (length tmp) else precision) = P" by (simp add: P_def)
  define W where "W = width - int (length sgn) - int (length pre) - P"
  define A B where "A \<longleftrightarrow> \<not> (flag_on flag FORMAT_ZERO \<or> flag_on flag FORMAT_LEFT)" and "B \<longleftrightarrow> \<not> flag_on flag FORMAT_LEFT"
  obtain a w1 where a: "(if A then pad_loop 32 W else ([], W)) = (a, w1)" by force
  obtain b w2 where b: "(if B then pad_loop (if flag_on flag FORMAT_ZERO then 48 else 32) w1 else ([], w1)) = (b, w2)" by force
  obtain t w3 where t: "pad_loop 32 w2 = (t, w3)" by force
  define s where "s = a @ sgn @ pre @ b @ replicate (nat (P - int (length tmp))) 48 @ rev tmp @ t"
  have "number_to_string num base width precision flag = Some s"
    unfolding number_to_string_def Let_def neg_def [symmetric] n [symmetric] tmp_def [symmetric]
      sgn_def [symmetric] pre_def [symmetric] zl e1 e2 e3 W_def [symmetric] A_def [symmetric] B_def [symmetric]
      a b t prod.case
    using assms l by (auto simp: s_def)
  moreover have "int (length s) = max width (natural_length num base precision flag)"
  proof -
    have "int (length a + length b + length t) = max 0 W" using padding_total [OF a b t] .
    moreover have "natural_length num base precision flag = P + int (length sgn) + int (length pre)"
      unfolding nl P_def by (auto simp: sgn_def pre_def)
    ultimately show ?thesis by (auto simp: s_def W_def P_def)
  qed
  moreover have "natural_length num base precision flag \<le> max precision 22 + 3" using l unfolding nl by auto
  ultimately show ?thesis by blast
qed

lemma number_to_string_length_witness:
  "\<exists>s. number_to_string (- 5) 10 6 (-1) FORMAT_SIGN = Some s \<and>
    int (length s) = max 6 (natural_length (- 5) 10 (-1) FORMAT_SIGN) \<and>
    natural_length (- 5) 10 (-1) FORMAT_SIGN \<le> max (-1) 22 + 3"
  by (rule number_to_string_length) simp

subsection \<open>Printing and reading back\<close>

lemma skip_atoi_stop: "head0 rest < 48 \<or> 57 < head0 rest \<Longrightarrow> skip_atoi_from i rest = (i, rest)"
  by (cases rest) (auto simp: head0_def IS_DIGIT_def not_le)

lemma plain_decimal:
  "number_to_string n 10 (-1) (-1) 0 = Some (if n = 0 then [48] else rev (number_digits False 10 n))"
proof -
  have "length (number_digits False 10 n) \<le> 22" by (rule number_digits_22) simp
  moreover have "length (number_digits False 10 n) \<noteq> 0" if "n \<noteq> 0"
    using that by (simp add: number_digits.simps [of False 10 n])
  ultimately show ?thesis
    by (auto simp: number_to_string_def Let_def flag_on_def pad_loop_def)
qed

lemma IS_DIGIT_simps [simp]:
  "\<not> IS_DIGIT 108" "\<not> IS_DIGIT 117" "\<not> IS_DIGIT 0" "IS_DIGIT 48" "\<not> IS_DIGIT 100" "\<not> IS_DIGIT 120"
  by (simp_all add: IS_DIGIT_def)

lemma convert_lu:
  "convert f [108, 117] (VInt n # ap) =
     Some (if n = 0 then [48] else rev (number_digits False 10 n), [], ap)"
  by (simp add: convert_def get_flag_def get_width_def get_precision_def conversion_def head0_def flag_on_def
      plain_decimal)

text \<open>What \<^verbatim>\<open>vsprintf\<close> prints for a 64-bit number with \<open>%lu\<close>, \<^verbatim>\<open>skip_atoi\<close> reads back, for every
  number and whatever follows, as long as it does not start with a digit.\<close>

theorem decimal_roundtrip:
  assumes "head0 rest < 48 \<or> 57 < head0 rest"
  shows "\<exists>s. vsprintf_loop f [37, 108, 117] [VInt n] = Some s \<and> skip_atoi (s @ rest) = (uint n, rest)"
  using convert_lu [of f n "[]"] skip_atoi_stop [OF assms] skip_digits [of 0 False n rest]
  by (simp add: skip_atoi_def)

lemma decimal_roundtrip_witness:
  "\<exists>s. vsprintf_loop (\<lambda>_ _ _ _. []) [37, 108, 117] [VInt 18446744073709551615] = Some s \<and>
    skip_atoi (s @ [32]) = (uint (18446744073709551615 :: u64), [32])"
  by (rule decimal_roundtrip) (simp add: head0_def)

lemma convert_u:
  "convert f [117] (VInt n # ap) =
     map_option (\<lambda>s. (s, [], ap)) (number_to_string (scast (ucast n :: u32)) 10 (-1) (-1) 0)"
  by (simp add: convert_def get_flag_def get_width_def get_precision_def conversion_def head0_def flag_on_def
      va_int_def map_option_case split: option.splits)

text \<open>\<open>%u\<close> without the letter l reads a signed \<^verbatim>\<open>int\<close> and widens it to 64 bits: an unsigned argument of
  2 ^ 31 or more is printed as a number of twenty digits instead of ten.\<close>

theorem percent_u_sign_extends:
  assumes "2 ^ 31 \<le> unat (w :: u32)"
  shows "\<exists>s. vsprintf_loop f [37, 117] [VInt (ucast w)] = Some s \<and>
    skip_atoi s = (2 ^ 64 - 2 ^ 32 + uint w, [])"
proof -
  define n :: u64 where "n = scast w"
  have w: "2 ^ 31 \<le> uint w" "uint w < 2 ^ 32"
  proof -
    show "2 ^ 31 \<le> uint w" using of_nat_mono [OF assms, where ?'a = int] by simp
    show "uint w < 2 ^ 32" using uint_bounded [of w] by simp
  qed
  have "sint w = (uint w + 2 ^ 31) mod 2 ^ 32 - 2 ^ 31"
    by (simp add: sint_uint signed_take_bit_eq_take_bit_shift take_bit_eq_mod)
  also have "(uint w + 2 ^ 31) mod 2 ^ 32 = uint w - 2 ^ 31"
    using w mod_add_self2 [of "uint w - 2 ^ 31" "2 ^ 32"] by (simp add: add.commute)
  finally have "sint w = uint w - 2 ^ 32" by simp
  then have "uint n = (uint w - 2 ^ 32) mod 2 ^ 64"
    unfolding n_def scast_eq uint_word_of_int by simp
  also have "\<dots> = 2 ^ 64 - 2 ^ 32 + uint w"
    using w mod_add_self2 [of "uint w - 2 ^ 32" "2 ^ 64"] by simp
  finally have n: "uint n = 2 ^ 64 - 2 ^ 32 + uint w" .
  have "(ucast (ucast w :: u64) :: u32) = w" by (rule bit_word_eqI) (simp add: bit_simps)
  then have c: "(scast (ucast (ucast w :: u64) :: u32) :: u64) = n" by (simp add: n_def)
  have "vsprintf_loop f [37, 117] [VInt (ucast w)] = Some (if n = 0 then [48] else rev (number_digits False 10 n))"
    using convert_u [of f "ucast w" "[]"] by (simp add: c plain_decimal)
  then show ?thesis
    using skip_digits [of 0 False n "[]"] n by (auto simp: skip_atoi_def)
qed

lemma percent_u_sign_extends_witness:
  "\<exists>s. vsprintf_loop (\<lambda>_ _ _ _. []) [37, 117] [VInt (ucast (0xFFFFFFFF :: u32))] = Some s \<and>
    skip_atoi s = (2 ^ 64 - 2 ^ 32 + uint (0xFFFFFFFF :: u32), [])"
  by (rule percent_u_sign_extends) simp

end
