(* ===== verification/VmmRanges.thy ===== *)
theory VmmRanges
  imports Prelude
begin

text \<open>
  The table of address ranges of \<^verbatim>\<open>src/mem/vmm.c\<close>, of which every user task has two (free
  and used virtual memory). The table is an array of blocks of which the first
  \<^verbatim>\<open>using_blocks\<close> are in use, sorted by address; all address arithmetic is on 64-bit words.
  Its contract is that of a set of addresses: adding a range is union, removing one is difference,
  and allocation picks the first block that is large enough.
\<close>

record vmm_block =
  vb_start :: u64
  vb_size :: u64

record vmm_struct =
  blocks :: "vmm_block list"
  total_blocks :: nat
  using_blocks :: nat

subsection \<open>The operations\<close>

definition vmm_struct_init :: "vmm_block list \<Rightarrow> nat \<Rightarrow> vmm_struct" where
  "vmm_struct_init bs n = \<lparr>blocks = bs, total_blocks = n, using_blocks = 0\<rparr>"

text \<open>Array access; outside the array is a fault.\<close>

definition get_blk :: "vmm_struct \<Rightarrow> nat \<Rightarrow> vmm_block option" where
  "get_blk v i = (if i < length (blocks v) then Some (blocks v ! i) else None)"

definition set_blk :: "nat \<Rightarrow> vmm_block \<Rightarrow> vmm_struct \<Rightarrow> vmm_struct option" where
  "set_blk i b v =
     (if i < length (blocks v) then Some (v\<lparr>blocks := (blocks v)[i := b]\<rparr>) else None)"

definition move_forward :: "nat \<Rightarrow> vmm_struct \<Rightarrow> vmm_struct option" where
  "move_forward index v =
     fold_option (\<lambda>i v. do { b \<leftarrow> get_blk v (i + 1); set_blk i b v }) [index..<using_blocks v] v"

definition move_backward :: "nat \<Rightarrow> vmm_struct \<Rightarrow> vmm_struct option" where
  "move_backward index v =
     fold_option (\<lambda>i v. do { b \<leftarrow> get_blk v (i - 1); set_blk i b v })
       (rev [Suc index..<Suc (using_blocks v)]) v"

text \<open>The search loops: the first index from \<open>i\<close> on whose block satisfies the test.\<close>

function scan_blocks :: "(vmm_block \<Rightarrow> bool) \<Rightarrow> vmm_struct \<Rightarrow> nat \<Rightarrow> nat option" where
  "scan_blocks P v i =
     (if i < using_blocks v then do {
        b \<leftarrow> get_blk v i;
        if P b then Some i else scan_blocks P v (Suc i) }
      else Some i)"
  by pat_completeness auto
termination
  by (relation "measure (\<lambda>(_, v, i). using_blocks v - i)") auto

declare scan_blocks.simps [simp del]

definition vmm_remove_range ::
  "vmm_struct \<Rightarrow> u64 \<Rightarrow> u64 \<Rightarrow> (status_t \<times> vmm_struct) option" where
  "vmm_remove_range v start sz =
     (let endp = start + sz in do {
        i \<leftarrow> scan_blocks (\<lambda>b. start \<ge> vb_start b \<and> endp \<le> vb_start b + vb_size b) v 0;
        if i \<ge> using_blocks v then Some (K_NOT_FOUND, v)
        else do {
          b \<leftarrow> get_blk v i;
          let block_start = vb_start b;
          let block_end = block_start + vb_size b;
          if start = block_start \<and> endp = block_end then do {
            v \<leftarrow> move_forward i (v\<lparr>using_blocks := using_blocks v - 1\<rparr>);
            Some (K_SUCCESS, v) }
          else if start > block_start \<and> endp < block_end then
            (if using_blocks v \<ge> total_blocks v then Some (K_OUT_OF_RESOURCE, v)
             else do {
               v \<leftarrow> set_blk i (b\<lparr>vb_size := start - block_start\<rparr>) v;
               v \<leftarrow> move_backward (i + 1) v;
               v \<leftarrow> set_blk (i + 1) \<lparr>vb_start = endp, vb_size = block_end - endp\<rparr> v;
               Some (K_SUCCESS, v\<lparr>using_blocks := using_blocks v + 1\<rparr>) })
          else if start = block_start then do {
            v \<leftarrow> set_blk i (b\<lparr>vb_start := endp, vb_size := block_end - endp\<rparr>) v;
            Some (K_SUCCESS, v) }
          else if endp = block_end then do {
            v \<leftarrow> set_blk i (b\<lparr>vb_size := start - block_start\<rparr>) v;
            Some (K_SUCCESS, v) }
          else Some (K_ERROR, v) } })"

text \<open>The part of \<^verbatim>\<open>vmm_add_range\<close> after the merge with the preceding block failed.\<close>

definition add_new ::
  "vmm_struct \<Rightarrow> nat \<Rightarrow> u64 \<Rightarrow> u64 \<Rightarrow> (status_t \<times> vmm_struct) option" where
  "add_new v i start sz = do {
     next \<leftarrow> (if i < using_blocks v then map_option Some (get_blk v i) else Some None);
     if (case next of Some b \<Rightarrow> start + sz = vb_start b | None \<Rightarrow> False) then do {
       let b = the next;
       v \<leftarrow> set_blk i (b\<lparr>vb_start := start, vb_size := vb_size b + sz\<rparr>) v;
       Some (K_SUCCESS, v) }
     else if using_blocks v < total_blocks v then do {
       v \<leftarrow> move_backward i v;
       v \<leftarrow> Some (v\<lparr>using_blocks := using_blocks v + 1\<rparr>);
       v \<leftarrow> set_blk i \<lparr>vb_start = start, vb_size = sz\<rparr> v;
       Some (K_SUCCESS, v) }
     else Some (K_ERROR, v) }"

definition vmm_add_range ::
  "vmm_struct \<Rightarrow> u64 \<Rightarrow> u64 \<Rightarrow> (status_t \<times> vmm_struct) option" where
  "vmm_add_range v start sz = do {
     i \<leftarrow> scan_blocks (\<lambda>b. vb_start b > start) v 0;
     before \<leftarrow> (if i > 0 then map_option Some (get_blk v (i - 1)) else Some None);
     case before of
       Some p \<Rightarrow>
         if vb_start p + vb_size p = start then do {
           let p' = p\<lparr>vb_size := vb_size p + sz\<rparr>;
           v \<leftarrow> set_blk (i - 1) p' v;
           if i = using_blocks v then Some (K_SUCCESS, v)
           else do {
             b \<leftarrow> get_blk v i;
             if start + sz = vb_start b then do {
               v \<leftarrow> set_blk (i - 1) (p'\<lparr>vb_size := vb_size p' + vb_size b\<rparr>) v;
               v \<leftarrow> move_forward i (v\<lparr>using_blocks := using_blocks v - 1\<rparr>);
               Some (K_SUCCESS, v) }
             else Some (K_SUCCESS, v) } }
         else add_new v i start sz
     | None \<Rightarrow> add_new v i start sz }"

text \<open>The status of the removal is ignored, as in the code.\<close>

definition vmm_alloc :: "vmm_struct \<Rightarrow> u64 \<Rightarrow> (status_t \<times> u64 option \<times> vmm_struct) option" where
  "vmm_alloc v sz = do {
     i \<leftarrow> scan_blocks (\<lambda>b. vb_size b \<ge> sz) v 0;
     if i < using_blocks v then do {
       b \<leftarrow> get_blk v i;
       let start = vb_start b;
       (_, v) \<leftarrow> vmm_remove_range v start sz;
       Some (K_SUCCESS, Some start, v) }
     else Some (K_OUT_OF_RESOURCE, None, v) }"

definition vmm_find :: "vmm_struct \<Rightarrow> u64 \<Rightarrow> int option" where
  "vmm_find v addr = do {
     i \<leftarrow> scan_blocks (\<lambda>b. addr \<ge> vb_start b \<and> addr \<le> vb_start b + vb_size b) v 0;
     Some (if i < using_blocks v then 1 else 0) }"

subsection \<open>What a table stands for\<close>

definition active :: "vmm_struct \<Rightarrow> vmm_block list" where
  "active v = take (using_blocks v) (blocks v)"

definition rs :: "vmm_block \<Rightarrow> nat" where "rs b = unat (vb_start b)"
definition re :: "vmm_block \<Rightarrow> nat" where "re b = unat (vb_start b) + unat (vb_size b)"

fun ranges_ok :: "vmm_block list \<Rightarrow> bool" where
  "ranges_ok [] = True"
| "ranges_ok (b # bs) \<longleftrightarrow>
     rs b < re b \<and> re b < 2 ^ 64 \<and> (\<forall>c \<in> set bs. re b < rs c) \<and> ranges_ok bs"

definition covers :: "vmm_block list \<Rightarrow> nat set" where
  "covers bs = (\<Union>b \<in> set bs. {rs b..<re b})"

definition vmm_inv :: "vmm_struct \<Rightarrow> bool" where
  "vmm_inv v \<longleftrightarrow> using_blocks v \<le> total_blocks v \<and> length (blocks v) = total_blocks v \<and>
     ranges_ok (active v)"

text \<open>The set of addresses in the table.\<close>

definition addrs :: "vmm_struct \<Rightarrow> nat set" where
  "addrs v = covers (active v)"

definition range_of :: "u64 \<Rightarrow> u64 \<Rightarrow> nat set" where
  "range_of start sz = {unat start..<unat start + unat sz}"

lemma covers_simps [simp]:
  "covers [] = {}" "covers (b # bs) = {rs b..<re b} \<union> covers bs"
  "covers (xs @ ys) = covers xs \<union> covers ys"
  by (auto simp: covers_def)

lemma ranges_ok_append [simp]:
  "ranges_ok (xs @ ys) \<longleftrightarrow>
     ranges_ok xs \<and> ranges_ok ys \<and> (\<forall>x \<in> set xs. \<forall>y \<in> set ys. re x < rs y)"
  by (induction xs) auto

lemma ranges_okD: "ranges_ok bs \<Longrightarrow> b \<in> set bs \<Longrightarrow> rs b < re b \<and> re b < 2 ^ 64"
  by (induction bs) auto

lemma re_word: "re b < 2 ^ 64 \<Longrightarrow> unat (vb_start b + vb_size b) = re b"
  unfolding re_def by (rule unat_add_no_wrap) simp

subsection \<open>The loops\<close>

lemma scan_blocks_spec:
  assumes "using_blocks v \<le> length (blocks v)"
  shows "i \<le> using_blocks v \<Longrightarrow> \<exists>k. scan_blocks P v i = Some k \<and> i \<le> k \<and> k \<le> using_blocks v \<and>
    (\<forall>j. i \<le> j \<longrightarrow> j < k \<longrightarrow> \<not> P (blocks v ! j)) \<and> (k < using_blocks v \<longrightarrow> P (blocks v ! k))"
proof (induction "using_blocks v - i" arbitrary: i)
  case 0
  then show ?case by (subst scan_blocks.simps) auto
next
  case (Suc d)
  then have i: "i < using_blocks v" "i < length (blocks v)" using assms by auto
  show ?case
  proof (cases "P (blocks v ! i)")
    case True
    then show ?thesis using i by (subst scan_blocks.simps) (auto simp: get_blk_def)
  next
    case False
    have "d = using_blocks v - Suc i" using Suc.hyps(2) by arith
    from Suc.hyps(1) [OF this] i obtain k where k: "scan_blocks P v (Suc i) = Some k" "Suc i \<le> k"
        "k \<le> using_blocks v" "\<forall>j. Suc i \<le> j \<longrightarrow> j < k \<longrightarrow> \<not> P (blocks v ! j)"
        "k < using_blocks v \<longrightarrow> P (blocks v ! k)"
      by (auto simp: Suc_le_eq)
    have "scan_blocks P v i = Some k"
      using i False k(1) by (subst scan_blocks.simps) (simp add: get_blk_def)
    moreover have "\<not> P (blocks v ! j)" if "i \<le> j" "j < k" for j
      using that False k(4) by (cases "j = i") auto
    ultimately show ?thesis using k by auto
  qed
qed

text \<open>The search as a split of the active list.\<close>

lemma scan_active:
  assumes "vmm_inv v"
  obtains (found) i pre b post where "scan_blocks P v 0 = Some i" "i < using_blocks v"
      "i < length (blocks v)" "blocks v ! i = b" "length pre = i"
      "active v = pre @ b # post" "\<forall>c \<in> set pre. \<not> P c" "P b"
  | (none) "scan_blocks P v 0 = Some (using_blocks v)" "\<forall>c \<in> set (active v). \<not> P c"
proof -
  have len: "using_blocks v \<le> length (blocks v)" using assms by (simp add: vmm_inv_def)
  then obtain k where k: "scan_blocks P v 0 = Some k" "k \<le> using_blocks v"
      "\<forall>j < k. \<not> P (blocks v ! j)" "k < using_blocks v \<longrightarrow> P (blocks v ! k)"
    using scan_blocks_spec [OF len, of 0 P] by auto
  show thesis
  proof (cases "k < using_blocks v")
    case True
    have "active v = take k (active v) @ active v ! k # drop (Suc k) (active v)"
      using True len by (intro id_take_nth_drop) (simp add: active_def)
    then have "active v = take k (blocks v) @ blocks v ! k # drop (Suc k) (active v)"
      using True by (simp add: active_def min_def)
    moreover have "\<forall>c \<in> set (take k (blocks v)). \<not> P c"
      using k(3) by (auto simp: set_take_subset_nth)
    ultimately show thesis using k True len by (intro found [of k]) auto
  next
    case False
    then have "k = using_blocks v" using k(2) by simp
    then show thesis using k len by (intro none) (auto simp: active_def set_take_subset_nth)
  qed
qed

lemma fold_move_forward:
  assumes "n < length (blocks v) \<or> n = index" and "index \<le> n"
  shows "\<exists>L. fold_option (\<lambda>i v. do { b \<leftarrow> get_blk v (i + 1); set_blk i b v }) [index..<n] v
      = Some (v\<lparr>blocks := L\<rparr>) \<and> length L = length (blocks v) \<and>
    (\<forall>k. L ! k = (if index \<le> k \<and> k < n then blocks v ! Suc k else blocks v ! k))"
  using assms
proof (induction n)
  case 0
  then show ?case by (intro exI [of _ "blocks v"]) simp
next
  case (Suc n)
  show ?case
  proof (cases "index \<le> n")
    case True
    with Suc obtain L where L: "fold_option (\<lambda>i v. do { b \<leftarrow> get_blk v (i + 1); set_blk i b v }) [index..<n] v
        = Some (v\<lparr>blocks := L\<rparr>)" "length L = length (blocks v)"
        "\<forall>k. L ! k = (if index \<le> k \<and> k < n then blocks v ! Suc k else blocks v ! k)"
      by auto
    have n: "Suc n < length (blocks v)" using Suc.prems True by auto
    let ?L = "L[n := blocks v ! Suc n]"
    have "fold_option (\<lambda>i v. do { b \<leftarrow> get_blk v (i + 1); set_blk i b v }) [index..<Suc n] v
        = Some (v\<lparr>blocks := ?L\<rparr>)"
      using L n True by (simp add: get_blk_def set_blk_def)
    moreover have "?L ! k = (if index \<le> k \<and> k < Suc n then blocks v ! Suc k else blocks v ! k)" for k
      using L n True by (cases "k = n") (auto simp: less_Suc_eq)
    ultimately show ?thesis using L(2) by (intro exI [of _ ?L]) simp
  next
    case False
    then show ?thesis using Suc.prems by (intro exI [of _ "blocks v"]) auto
  qed
qed

lemma fold_move_backward:
  assumes "n < length (blocks v)"
  shows "\<exists>L. fold_option (\<lambda>i v. do { b \<leftarrow> get_blk v (i - 1); set_blk i b v })
      (rev [Suc index..<Suc n]) v = Some (v\<lparr>blocks := L\<rparr>) \<and> length L = length (blocks v) \<and>
    (\<forall>k. L ! k = (if index < k \<and> k \<le> n then blocks v ! (k - 1) else blocks v ! k))"
  using assms
proof (induction n arbitrary: v)
  case 0
  then show ?case by (intro exI [of _ "blocks v"]) auto
next
  case (Suc n)
  show ?case
  proof (cases "index \<le> n")
    case True
    let ?v = "v\<lparr>blocks := (blocks v)[Suc n := blocks v ! n]\<rparr>"
    from Suc.IH [of ?v] Suc.prems obtain L where L:
      "fold_option (\<lambda>i v. do { b \<leftarrow> get_blk v (i - 1); set_blk i b v }) (rev [Suc index..<Suc n]) ?v
        = Some (v\<lparr>blocks := L\<rparr>)" "length L = length (blocks v)"
        "\<forall>k. L ! k = (if index < k \<and> k \<le> n then blocks ?v ! (k - 1) else blocks ?v ! k)"
      by auto
    have step: "rev [Suc index..<Suc (Suc n)] = Suc n # rev [Suc index..<Suc n]" using True by simp
    have "fold_option (\<lambda>i v. do { b \<leftarrow> get_blk v (i - 1); set_blk i b v }) (rev [Suc index..<Suc (Suc n)]) v
        = Some (v\<lparr>blocks := L\<rparr>)"
      unfolding step using L(1) Suc.prems by (simp add: get_blk_def set_blk_def del: upt_Suc)
    moreover have "L ! k = (if index < k \<and> k \<le> Suc n then blocks v ! (k - 1) else blocks v ! k)" for k
      using L(3) Suc.prems True by (cases "k = Suc n") (auto simp: nth_list_update)
    ultimately show ?thesis using L(2) by blast
  next
    case False
    then show ?thesis by (intro exI [of _ "blocks v"]) auto
  qed
qed

text \<open>Dropping a block, replacing it, and inserting one, on the active list.\<close>

lemma move_forward_active:
  assumes "active v = pre @ b # post" and "length pre = i" and "using_blocks v \<le> length (blocks v)"
  obtains v' where "move_forward i (v\<lparr>using_blocks := using_blocks v - 1\<rparr>) = Some v'"
    and "active v' = pre @ post" and "total_blocks v' = total_blocks v"
    and "length (blocks v') = length (blocks v)" and "using_blocks v' = using_blocks v - 1"
proof -
  have u: "using_blocks v = Suc (length pre + length post)"
    using arg_cong [OF assms(1), of length] assms(3) by (simp add: active_def)
  let ?v = "v\<lparr>using_blocks := using_blocks v - 1\<rparr>"
  obtain L where L: "move_forward i ?v = Some (?v\<lparr>blocks := L\<rparr>)" "length L = length (blocks v)"
      "\<forall>k. L ! k = (if i \<le> k \<and> k < using_blocks v - 1 then blocks v ! Suc k else blocks v ! k)"
    using fold_move_forward [of "using_blocks v - 1" ?v i] u assms(2,3)
    by (auto simp: move_forward_def)
  have nth: "blocks v ! k = (pre @ b # post) ! k" if "k < using_blocks v" for k
    using arg_cong [OF assms(1), of "\<lambda>x. x ! k"] that by (simp add: active_def)
  have "take (using_blocks v - 1) L = pre @ post"
    using u assms(2,3) L(2,3) by (intro nth_equalityI) (auto simp: nth nth_append)
  then show thesis
    using L(1,2) by (intro that [of "?v\<lparr>blocks := L\<rparr>"]) (auto simp: active_def)
qed

lemma set_blk_active:
  assumes "active v = pre @ b # post" and "length pre = i" and "using_blocks v \<le> length (blocks v)"
  obtains v' where "set_blk i c v = Some v'"
    and "active v' = pre @ c # post" and "total_blocks v' = total_blocks v"
    and "length (blocks v') = length (blocks v)" and "using_blocks v' = using_blocks v"
proof -
  have u: "using_blocks v = Suc (length pre + length post)"
    using arg_cong [OF assms(1), of length] assms(3) by (simp add: active_def)
  have "active (v\<lparr>blocks := (blocks v)[i := c]\<rparr>) = pre @ c # post"
    using assms(1,2) by (simp add: active_def take_update_swap list_update_append)
  then show thesis
    using u assms(2,3)
    by (intro that [of "v\<lparr>blocks := (blocks v)[i := c]\<rparr>"]) (auto simp: set_blk_def)
qed

lemma move_backward_active:
  assumes "active v = pre @ post" and "length pre = i" and "using_blocks v < length (blocks v)"
  obtains v' where "move_backward i v = Some v'"
    and "total_blocks v' = total_blocks v" and "using_blocks v' = using_blocks v"
    and "length (blocks v') = length (blocks v)"
    and "\<And>c. active (v'\<lparr>using_blocks := Suc (using_blocks v), blocks := (blocks v')[i := c]\<rparr>)
        = pre @ c # post"
proof -
  have u: "using_blocks v = length pre + length post"
    using arg_cong [OF assms(1), of length] assms(3) by (simp add: active_def)
  obtain L where L: "move_backward i v = Some (v\<lparr>blocks := L\<rparr>)" "length L = length (blocks v)"
      "\<forall>k. L ! k = (if i < k \<and> k \<le> using_blocks v then blocks v ! (k - 1) else blocks v ! k)"
    using fold_move_backward [OF assms(3), of i] by (auto simp: move_backward_def)
  have nth: "blocks v ! k = (pre @ post) ! k" if "k < using_blocks v" for k
    using arg_cong [OF assms(1), of "\<lambda>x. x ! k"] that by (simp add: active_def)
  have "take (Suc (using_blocks v)) (L[i := c]) = pre @ c # post" for c
  proof (rule nth_equalityI)
    fix k assume "k < length (take (Suc (using_blocks v)) (L[i := c]))"
    then have k: "k \<le> using_blocks v" "k < length L" by auto
    consider "k < i" | "k = i" | "i < k" by arith
    then show "take (Suc (using_blocks v)) (L[i := c]) ! k = (pre @ c # post) ! k"
    proof cases
      case 3
      then have "L ! k = (pre @ post) ! (k - 1)" using L(3) k nth [of "k - 1"] by auto
      moreover obtain j where "k = Suc j" "i \<le> j" using 3 by (cases k) auto
      ultimately show ?thesis using k 3 assms(2) by (simp add: nth_append Suc_diff_le)
    qed (use k L nth assms(2) u in \<open>auto simp: nth_append\<close>)
  qed (use u L assms(2,3) in auto)
  then show thesis
    using L(1,2) by (intro that [of "v\<lparr>blocks := L\<rparr>"]) (auto simp: active_def)
qed

subsection \<open>Removing a range\<close>

lemma covers_cut:
  assumes "ranges_ok (pre @ b # post)" and "rs b \<le> S" and "S < E" and "E \<le> re b"
  shows "covers (pre @ b # post) - {S..<E} =
    covers pre \<union> ({rs b..<S} \<union> ({E..<re b} \<union> covers post))"
proof -
  have "\<forall>x \<in> covers pre. x < S"
    using assms(1,2) by (fastforce simp: covers_def)
  moreover have "\<forall>x \<in> covers post. E \<le> x"
    using assms(1,4) by (fastforce simp: covers_def)
  ultimately show ?thesis using assms(2-4) by fastforce
qed

lemma ranges_ok_replace:
  assumes "ranges_ok (pre @ b # post)" and "ranges_ok mid"
    and "\<And>c. c \<in> set mid \<Longrightarrow> rs b \<le> rs c \<and> re c \<le> re b"
  shows "ranges_ok (pre @ mid @ post)"
  using assms(1,2) by (auto dest!: assms(3) intro: le_less_trans less_le_trans)

text \<open>A range inside the set of addresses lies inside one block, since blocks do not touch.\<close>

lemma range_in_one_block:
  assumes "ranges_ok bs" and "{S..<E} \<subseteq> covers bs" and "S < E"
  shows "\<exists>b \<in> set bs. rs b \<le> S \<and> E \<le> re b"
proof -
  obtain b where b: "b \<in> set bs" "rs b \<le> S" "S < re b"
    using assms(2,3) by (auto simp: covers_def subset_iff)
  have "E \<le> re b"
  proof (rule ccontr)
    assume "\<not> E \<le> re b"
    then have "re b \<in> covers bs" using assms(2) b by auto
    then obtain c where c: "c \<in> set bs" "rs c \<le> re b" "re b < re c" by (auto simp: covers_def)
    obtain xs ys where bs: "bs = xs @ b # ys" using b(1) by (meson split_list)
    from c(1) bs consider "c \<in> set xs" | "c = b" | "c \<in> set ys" by auto
    then show False
      using assms(1) bs c b by cases (auto dest: ranges_okD)
  qed
  with b show ?thesis by blast
qed

lemma block_words:
  assumes "ranges_ok bs" and "b \<in> set bs"
  shows "unat (vb_start b + vb_size b) = re b" "unat (vb_start b) = rs b" "rs b < re b"
    "re b < 2 ^ 64"
  using ranges_okD [OF assms] re_word [of b] by (auto simp: rs_def)

text \<open>A block from word bounds.\<close>

lemma mk_block:
  fixes a e :: u64
  assumes "a \<le> e"
  shows "rs (b\<lparr>vb_start := a, vb_size := e - a\<rparr>) = unat a"
    "re (b\<lparr>vb_start := a, vb_size := e - a\<rparr>) = unat e"
  using assms by (auto simp: rs_def re_def unat_sub_no_wrap word_le_nat_alt)

lemma vmm_remove_found:
  assumes inv: "vmm_inv v" and sz: "0 < unat sz" "unat start + unat sz < 2 ^ 64"
    and act: "active v = pre @ b # post" and b: "rs b \<le> unat start" "unat start + unat sz \<le> re b"
    and scan: "scan_blocks (\<lambda>b. start \<ge> vb_start b \<and> start + sz \<le> vb_start b + vb_size b) v 0 = Some i"
      "i < using_blocks v" "length pre = i" "blocks v ! i = b" "i < length (blocks v)"
  shows "\<exists>st v'. vmm_remove_range v start sz = Some (st, v') \<and> vmm_inv v' \<and>
    total_blocks v' = total_blocks v \<and>
    (if rs b < unat start \<and> unat start + unat sz < re b \<and> using_blocks v = total_blocks v
     then st = K_OUT_OF_RESOURCE \<and> v' = v
     else st = K_SUCCESS \<and> addrs v' = addrs v - range_of start sz) \<and>
    (rs b = unat start \<and> re b = unat start + unat sz \<longrightarrow> using_blocks v' < total_blocks v')"
proof -
  have ok: "ranges_ok (pre @ b # post)" using inv act by (simp add: vmm_inv_def)
  have ul: "using_blocks v \<le> length (blocks v)" and ut: "using_blocks v \<le> total_blocks v"
    and lt: "length (blocks v) = total_blocks v"
    using inv by (auto simp: vmm_inv_def)
  define s0 e0 where "s0 = vb_start b" and "e0 = vb_start b + vb_size b"
  have w: "unat s0 = rs b" "unat e0 = re b" "rs b < re b" "re b < 2 ^ 64"
    using block_words [OF ok, of b] by (auto simp: s0_def e0_def)
  define en where "en = start + sz"
  have en: "unat en = unat start + unat sz"
    unfolding en_def using sz(2) by (intro unat_add_no_wrap) simp
  have cut: "addrs v - range_of start sz =
      covers pre \<union> ({rs b..<unat start} \<union> ({unat en..<re b} \<union> covers post))"
    using covers_cut [OF ok b(1) _ b(2)] sz(1) en by (simp add: addrs_def act range_of_def)
  have get_blk: "get_blk v i = Some b" using scan by (simp add: get_blk_def)
  have rem: "vmm_remove_range v start sz =
     (if start = s0 \<and> en = e0 then do {
        v \<leftarrow> move_forward i (v\<lparr>using_blocks := using_blocks v - 1\<rparr>);
        Some (K_SUCCESS, v) }
      else if s0 < start \<and> en < e0 then
        (if using_blocks v \<ge> total_blocks v then Some (K_OUT_OF_RESOURCE, v)
         else do {
           v \<leftarrow> set_blk i (b\<lparr>vb_size := start - s0\<rparr>) v;
           v \<leftarrow> move_backward (i + 1) v;
           v \<leftarrow> set_blk (i + 1) \<lparr>vb_start = en, vb_size = e0 - en\<rparr> v;
           Some (K_SUCCESS, v\<lparr>using_blocks := using_blocks v + 1\<rparr>) })
      else if start = s0 then do {
        v \<leftarrow> set_blk i (b\<lparr>vb_start := en, vb_size := e0 - en\<rparr>) v;
        Some (K_SUCCESS, v) }
      else if en = e0 then do {
        v \<leftarrow> set_blk i (b\<lparr>vb_size := start - s0\<rparr>) v;
        Some (K_SUCCESS, v) }
      else Some (K_ERROR, v))"
    using scan(1,2) get_blk by (simp add: vmm_remove_range_def Let_def en_def s0_def e0_def)
  have le: "s0 \<le> start" "en \<le> e0" using b w en by (simp_all add: word_le_nat_alt)
  consider (exact) "start = s0" "en = e0" | (split) "s0 < start" "en < e0"
    | (front) "start = s0" "en < e0" | (rear) "s0 < start" "en = e0"
    using le by (metis order.not_eq_order_implies_strict)
  then show ?thesis
  proof cases
    case exact
    obtain v' where v': "move_forward i (v\<lparr>using_blocks := using_blocks v - 1\<rparr>) = Some v'"
        "active v' = pre @ post" "total_blocks v' = total_blocks v"
        "length (blocks v') = length (blocks v)" "using_blocks v' = using_blocks v - 1"
      by (rule move_forward_active [OF act scan(3) ul])
    have "vmm_inv v'" using v' ranges_ok_replace [OF ok, of "[]"] ut lt by (simp add: vmm_inv_def)
    moreover have "addrs v' = addrs v - range_of start sz"
      using v' exact w unfolding cut by (simp add: addrs_def)
    moreover have "using_blocks v' < total_blocks v'" using v'(3,5) scan(2) ut by simp
    ultimately show ?thesis using exact v' w unfolding rem by simp
  next
    case split
    note sw = split [unfolded word_less_nat_alt w en]
    show ?thesis
    proof (cases "using_blocks v = total_blocks v")
      case True
      moreover have "start \<noteq> s0" using split by auto
      ultimately show ?thesis using split sw inv w en unfolding rem by simp
    next
      case False
      define b1 where "b1 = b\<lparr>vb_size := start - s0\<rparr>"
      define b2 where "b2 = \<lparr>vb_start = en, vb_size = e0 - en\<rparr>"
      have b1: "rs b1 = rs b" "re b1 = unat start"
        using mk_block [of s0 start b] split by (auto simp: b1_def s0_def rs_def)
      have b2: "rs b2 = unat en" "re b2 = re b"
        using mk_block [of en e0 b2] split w by (auto simp: b2_def)
      obtain v1 where v1: "set_blk i b1 v = Some v1" "active v1 = pre @ b1 # post"
          "total_blocks v1 = total_blocks v" "length (blocks v1) = length (blocks v)"
          "using_blocks v1 = using_blocks v"
        by (rule set_blk_active [OF act scan(3) ul])
      have "active v1 = (pre @ [b1]) @ post" "length (pre @ [b1]) = i + 1"
          "using_blocks v1 < length (blocks v1)"
        using v1 False scan(3) ut lt by auto
      then obtain v2 where v2: "move_backward (i + 1) v1 = Some v2"
          "total_blocks v2 = total_blocks v1" "using_blocks v2 = using_blocks v1"
          "length (blocks v2) = length (blocks v1)"
          "\<And>c. active (v2\<lparr>using_blocks := Suc (using_blocks v1), blocks := (blocks v2)[i + 1 := c]\<rparr>)
            = (pre @ [b1]) @ c # post"
        by (rule move_backward_active) blast
      let ?v = "v2\<lparr>using_blocks := Suc (using_blocks v1), blocks := (blocks v2)[i + 1 := b2]\<rparr>"
      have act': "active ?v = pre @ [b1, b2] @ post" using v2(5) [of b2] by simp
      have "vmm_remove_range v start sz = Some (K_SUCCESS, ?v)"
        unfolding rem using split False ut sw v1 v2 scan lt less_imp_neq [OF split(1)]
        by (simp add: b1_def [symmetric] b2_def [symmetric] set_blk_def [of "Suc i"])
      moreover have "ranges_ok (pre @ [b1, b2] @ post)"
        using ok by (rule ranges_ok_replace) (use b1 b2 sw w en sz in auto)
      then have "vmm_inv ?v" using v1 v2 False ut lt act' by (simp add: vmm_inv_def)
      moreover have "addrs ?v = addrs v - range_of start sz"
        unfolding cut using b1 b2 arg_cong [OF act', of covers]
        by (simp add: addrs_def)
      ultimately show ?thesis using False v1 v2 sw by simp
    qed
  next
    case front
    define b' where "b' = b\<lparr>vb_start := en, vb_size := e0 - en\<rparr>"
    have b': "rs b' = unat en" "re b' = re b"
      using mk_block [of en e0 b] front w by (auto simp: b'_def)
    obtain v' where v': "set_blk i b' v = Some v'" "active v' = pre @ b' # post"
        "total_blocks v' = total_blocks v" "length (blocks v') = length (blocks v)"
        "using_blocks v' = using_blocks v"
      by (rule set_blk_active [OF act scan(3) ul])
    have "ranges_ok (pre @ [b'] @ post)"
      using ok by (rule ranges_ok_replace) (use b' w en front sz in \<open>auto simp: word_less_nat_alt\<close>)
    then have "vmm_inv v'" using v' ut lt by (simp add: vmm_inv_def)
    moreover have "addrs v' = addrs v - range_of start sz"
      unfolding cut using b' front w by (simp add: addrs_def v'(2))
    moreover have "re b \<noteq> unat start + unat sz" using front(2) w en by (simp add: word_less_nat_alt)
    ultimately show ?thesis unfolding rem using front v' w less_imp_neq [OF front(2)] by (simp add: b'_def [symmetric])
  next
    case rear
    define b' where "b' = b\<lparr>vb_size := start - s0\<rparr>"
    have b': "rs b' = rs b" "re b' = unat start"
      using mk_block [of s0 start b] rear by (auto simp: b'_def s0_def rs_def)
    obtain v' where v': "set_blk i b' v = Some v'" "active v' = pre @ b' # post"
        "total_blocks v' = total_blocks v" "length (blocks v') = length (blocks v)"
        "using_blocks v' = using_blocks v"
      by (rule set_blk_active [OF act scan(3) ul])
    have "ranges_ok (pre @ [b'] @ post)"
      using ok by (rule ranges_ok_replace) (use b' w en rear sz in \<open>auto simp: word_less_nat_alt\<close>)
    then have "vmm_inv v'" using v' ut lt by (simp add: vmm_inv_def)
    moreover have "addrs v' = addrs v - range_of start sz"
      unfolding cut using b' rear w by (simp add: addrs_def v'(2))
    moreover have "rs b \<noteq> unat start" using rear(1) w by (simp add: word_less_nat_alt)
    ultimately show ?thesis unfolding rem using rear v' w en less_imp_neq [OF rear(1)] by (auto simp: b'_def [symmetric])
  qed
qed

lemma range_of_bounds:
  "range_of start sz = {unat start..<unat start + unat sz}"
  by (simp add: range_of_def)

lemma in_block_words:
  assumes "ranges_ok bs" and "c \<in> set bs" and "unat start + unat sz < 2 ^ 64"
  shows "start \<ge> vb_start c \<and> start + sz \<le> vb_start c + vb_size c \<longleftrightarrow>
    rs c \<le> unat start \<and> unat start + unat sz \<le> re c"
proof -
  have "unat (start + sz) = unat start + unat sz"
    using assms(3) by (intro unat_add_no_wrap) simp
  then show ?thesis using block_words [OF assms(1,2)] by (simp add: word_le_nat_alt)
qed

lemma vmm_remove_range_spec:
  assumes inv: "vmm_inv v" and sz: "0 < unat sz" "unat start + unat sz < 2 ^ 64"
  shows "\<exists>st v'. vmm_remove_range v start sz = Some (st, v') \<and> vmm_inv v' \<and>
    (if \<not> range_of start sz \<subseteq> addrs v then st = K_NOT_FOUND \<and> v' = v
     else (st = K_SUCCESS \<and> addrs v' = addrs v - range_of start sz) \<or>
          (st = K_OUT_OF_RESOURCE \<and> v' = v \<and> using_blocks v = total_blocks v))"
proof -
  have ok: "ranges_ok (active v)" using inv by (simp add: vmm_inv_def)
  note bw = in_block_words [OF ok _ sz(2)]
  show ?thesis
  proof (cases rule: scan_active [OF inv,
        of "\<lambda>b. start \<ge> vb_start b \<and> start + sz \<le> vb_start b + vb_size b", case_names found none])
    case (found i pre b post)
    have b: "rs b \<le> unat start" "unat start + unat sz \<le> re b"
      using found(8) bw [of b] found(6) by auto
    have sub: "range_of start sz \<subseteq> addrs v"
      using b found(6) by (auto simp: addrs_def range_of_def)
    from vmm_remove_found [OF inv sz found(6) b found(1,2,5,4,3)] sub show ?thesis
      by (auto split: if_splits)
  next
    case none
    have "\<not> range_of start sz \<subseteq> addrs v"
    proof
      assume "range_of start sz \<subseteq> addrs v"
      then obtain b where "b \<in> set (active v)" "rs b \<le> unat start" "unat start + unat sz \<le> re b"
        using range_in_one_block [OF ok, of "unat start" "unat start + unat sz"] sz(1)
        by (auto simp: addrs_def range_of_def)
      then show False using none(2) bw by blast
    qed
    then show ?thesis using none(1) inv by (simp add: vmm_remove_range_def Let_def)
  qed
qed

text \<open>\<^verbatim>\<open>vmm_remove_range\<close> is set difference: on a well-formed table it succeeds
  exactly when the range lies in the table (and, when a block has to be split, a slot is free), the
  table then stands for its addresses without the range and is well-formed again; on failure the
  table is unchanged. It never leaves the array.\<close>

theorem vmm_remove_is_difference:
  assumes inv: "vmm_inv v" and sz: "0 < unat sz" "unat start + unat sz < 2 ^ 64"
  shows "\<exists>st v'. vmm_remove_range v start sz = Some (st, v') \<and> vmm_inv v' \<and>
    (if \<not> range_of start sz \<subseteq> addrs v then st = K_NOT_FOUND \<and> v' = v
     else (st = K_SUCCESS \<and> addrs v' = addrs v - range_of start sz) \<or>
          (st = K_OUT_OF_RESOURCE \<and> v' = v \<and> using_blocks v = total_blocks v))"
  by (rule vmm_remove_range_spec [OF assms])

definition example_vmm :: vmm_struct where
  "example_vmm = \<lparr>blocks = [\<lparr>vb_start = 0x1000, vb_size = 0x3000\<rparr>, \<lparr>vb_start = 0x8000, vb_size = 0x1000\<rparr>,
     \<lparr>vb_start = 0, vb_size = 0\<rparr>], total_blocks = 3, using_blocks = 2\<rparr>"

lemma example_vmm_inv: "vmm_inv example_vmm"
  by (simp add: example_vmm_def vmm_inv_def active_def rs_def re_def)

lemma vmm_remove_is_difference_witness:
  "\<exists>st v'. vmm_remove_range example_vmm 0x2000 0x1000 = Some (st, v') \<and> vmm_inv v' \<and>
    (if \<not> range_of 0x2000 0x1000 \<subseteq> addrs example_vmm then st = K_NOT_FOUND \<and> v' = example_vmm
     else (st = K_SUCCESS \<and> addrs v' = addrs example_vmm - range_of 0x2000 0x1000) \<or>
          (st = K_OUT_OF_RESOURCE \<and> v' = example_vmm \<and>
           using_blocks example_vmm = total_blocks example_vmm))"
  by (rule vmm_remove_is_difference [OF example_vmm_inv]) simp_all

lemma vmm_alloc_spec:
  assumes inv: "vmm_inv v" and sz: "0 < unat sz"
  shows "\<exists>st r v'. vmm_alloc v sz = Some (st, r, v') \<and> vmm_inv v' \<and>
    (if \<exists>b \<in> set (active v). unat sz \<le> unat (vb_size b)
     then st = K_SUCCESS \<and> (\<exists>start. r = Some start \<and> range_of start sz \<subseteq> addrs v \<and>
        addrs v' = addrs v - range_of start sz \<and> (\<exists>b \<in> set (active v). unat start = rs b) \<and>
        (using_blocks v' < total_blocks v' \<or> unat start + unat sz \<in> addrs v'))
     else st = K_OUT_OF_RESOURCE \<and> r = None \<and> v' = v)"
proof -
  have ok: "ranges_ok (active v)" using inv by (simp add: vmm_inv_def)
  show ?thesis
  proof (cases rule: scan_active [OF inv, of "\<lambda>b. vb_size b \<ge> sz", case_names found none])
    case (found i pre b post)
    define s where "s = vb_start b"
    have b: "b \<in> set (active v)" using found(6) by simp
    have w: "rs b = unat s" "unat sz \<le> unat (vb_size b)" "re b < 2 ^ 64" "rs b < re b"
      using found(8) block_words [OF ok b] by (auto simp: s_def rs_def word_le_nat_alt)
    then have fit: "unat s + unat sz \<le> re b" and lt: "unat s + unat sz < 2 ^ 64"
      by (auto simp: re_def rs_def)
    note bw = in_block_words [OF ok _ lt]
    show ?thesis
    proof (cases rule: scan_active [OF inv,
          of "\<lambda>b. s \<ge> vb_start b \<and> s + sz \<le> vb_start b + vb_size b", case_names fd no])
      case (fd j pre' c post')
      have c: "c \<in> set (active v)" "rs c \<le> unat s" "unat s + unat sz \<le> re c"
        using fd(8) fd(6) bw [of c] by auto
      have front: "\<not> rs c < unat s"
      proof
        assume "rs c < unat s"
        moreover obtain xs ys where bs: "active v = xs @ b # ys" using b by (meson split_list)
        ultimately show False using c ok w sz by (auto simp: bs)
      qed
      have cs: "rs c = unat s" using front c(2) by simp
      from vmm_remove_found [OF inv sz lt fd(6) c(2,3) fd(1,2,5,4,3)] cs
      obtain v' where v': "vmm_remove_range v s sz = Some (K_SUCCESS, v')" "vmm_inv v'"
          "addrs v' = addrs v - range_of s sz"
          "re c = unat s + unat sz \<longrightarrow> using_blocks v' < total_blocks v'" by auto
      have "unat s + unat sz \<in> addrs v'" if "re c \<noteq> unat s + unat sz"
      proof -
        have "unat s + unat sz \<in> {rs c..<re c}" using c that by simp
        then show ?thesis using c(1) unfolding v'(3) by (auto simp: addrs_def covers_def range_of_def)
      qed
      then have room: "using_blocks v' < total_blocks v' \<or> unat s + unat sz \<in> addrs v'"
        using v'(4) by blast
      have "range_of s sz \<subseteq> addrs v"
        using c by (force simp: addrs_def covers_def range_of_def)
      moreover have "vmm_alloc v sz = Some (K_SUCCESS, Some s, v')"
        using found v'(1) by (simp add: vmm_alloc_def get_blk_def s_def [symmetric])
      moreover have "\<exists>b \<in> set (active v). unat sz \<le> unat (vb_size b)" using b w(2) by blast
      ultimately show ?thesis using c(1) cs [symmetric] v'(2,3) room by auto
    next
      case no
      then show ?thesis using b w(1) fit bw [of b] by auto
    qed
  next
    case none
    then show ?thesis using inv by (auto simp: vmm_alloc_def word_le_nat_alt)
  qed
qed

text \<open>\<^verbatim>\<open>vmm_alloc\<close> takes a range that was in the table out of it: it succeeds
  exactly when some block is large enough (the removal whose status it ignores cannot fail), and
  the returned range is then no longer in the table.\<close>

theorem vmm_alloc_takes_range:
  assumes "vmm_inv v" and "0 < unat sz"
  shows "\<exists>st r v'. vmm_alloc v sz = Some (st, r, v') \<and> vmm_inv v' \<and>
    (if \<exists>b \<in> set (active v). unat sz \<le> unat (vb_size b)
     then st = K_SUCCESS \<and> (\<exists>start. r = Some start \<and> range_of start sz \<subseteq> addrs v \<and>
        addrs v' = addrs v - range_of start sz)
     else st = K_OUT_OF_RESOURCE \<and> r = None \<and> v' = v)"
  using vmm_alloc_spec [OF assms] by (auto split: if_splits)

lemma vmm_alloc_takes_range_witness:
  "\<exists>st r v'. vmm_alloc example_vmm 0x2000 = Some (st, r, v') \<and> vmm_inv v' \<and>
    (if \<exists>b \<in> set (active example_vmm). unat (0x2000 :: u64) \<le> unat (vb_size b)
     then st = K_SUCCESS \<and> (\<exists>start. r = Some start \<and> range_of start 0x2000 \<subseteq> addrs example_vmm \<and>
        addrs v' = addrs example_vmm - range_of start 0x2000)
     else st = K_OUT_OF_RESOURCE \<and> r = None \<and> v' = example_vmm)"
  by (rule vmm_alloc_takes_range [OF example_vmm_inv]) simp

text \<open>\<^verbatim>\<open>vmm_find\<close> reports membership, except that it also reports the address just
  past the end of each block.\<close>

theorem vmm_find_membership:
  assumes inv: "vmm_inv v"
  shows "vmm_find v a =
    Some (if unat a \<in> addrs v \<or> (\<exists>b \<in> set (active v). unat a = re b) then 1 else 0)"
proof -
  have ok: "ranges_ok (active v)" using inv by (simp add: vmm_inv_def)
  have w: "a \<ge> vb_start c \<and> a \<le> vb_start c + vb_size c \<longleftrightarrow> rs c \<le> unat a \<and> unat a \<le> re c"
    if "c \<in> set (active v)" for c
    using block_words [OF ok that] by (simp add: word_le_nat_alt)
  show ?thesis
  proof (cases rule: scan_active [OF inv,
        of "\<lambda>b. a \<ge> vb_start b \<and> a \<le> vb_start b + vb_size b", case_names found none])
    case (found i pre b post)
    then have "b \<in> set (active v)" "rs b \<le> unat a" "unat a \<le> re b" using w [of b] by auto
    moreover from this have "unat a \<in> addrs v \<or> unat a = re b"
      by (auto simp: addrs_def covers_def)
    ultimately have "unat a \<in> addrs v \<or> (\<exists>b \<in> set (active v). unat a = re b)" by blast
    then show ?thesis using found(1,2) by (simp add: vmm_find_def)
  next
    case none
    have "\<not> (unat a \<in> addrs v \<or> (\<exists>b \<in> set (active v). unat a = re b))"
    proof
      assume "unat a \<in> addrs v \<or> (\<exists>b \<in> set (active v). unat a = re b)"
      then obtain b where "b \<in> set (active v)" "rs b \<le> unat a" "unat a \<le> re b"
        using ranges_okD [OF ok] by (fastforce simp: addrs_def covers_def)
      then show False using none(2) w by blast
    qed
    then show ?thesis using none(1) by (simp add: vmm_find_def)
  qed
qed

lemma vmm_find_membership_witness:
  "vmm_find example_vmm 0x4000 = Some (if unat (0x4000 :: u64) \<in> addrs example_vmm \<or>
      (\<exists>b \<in> set (active example_vmm). unat (0x4000 :: u64) = re b) then 1 else 0)"
  by (rule vmm_find_membership [OF example_vmm_inv])

text \<open>Between two blocks there is a gap, so the first address of a block follows none of the table, and
  the end of a block follows its last address.\<close>

lemma block_start_gap:
  assumes "vmm_inv v" and "b \<in> set (active v)" and "0 < rs b"
  shows "rs b - 1 \<notin> addrs v"
proof
  assume "rs b - 1 \<in> addrs v"
  then obtain c where c: "c \<in> set (active v)" "rs c \<le> rs b - 1" "rs b - 1 < re c"
    by (auto simp: addrs_def covers_def)
  have ok: "ranges_ok (active v)" using assms(1) by (simp add: vmm_inv_def)
  obtain xs ys where bs: "active v = xs @ b # ys" using assms(2) by (meson split_list)
  from c(1) bs consider "c \<in> set xs" | "c = b" | "c \<in> set ys" by auto
  then show False using ok bs c assms(3) ranges_okD [OF ok assms(2)] by cases auto
qed

lemma vmm_find_set:
  assumes "vmm_inv v"
  shows "vmm_find v a =
    Some (if unat a \<in> addrs v \<or> (0 < unat a \<and> unat a - 1 \<in> addrs v) then 1 else 0)"
proof -
  have ok: "ranges_ok (active v)" using assms by (simp add: vmm_inv_def)
  have "unat a \<in> addrs v \<or> (\<exists>b \<in> set (active v). unat a = re b) \<longleftrightarrow>
      unat a \<in> addrs v \<or> (0 < unat a \<and> unat a - 1 \<in> addrs v)"
  proof (cases "unat a \<in> addrs v")
    case False
    have "(\<exists>b \<in> set (active v). unat a = re b) \<longleftrightarrow> 0 < unat a \<and> unat a - 1 \<in> addrs v"
    proof
      assume "\<exists>b \<in> set (active v). unat a = re b"
      then obtain b where b: "b \<in> set (active v)" "unat a = re b" by blast
      then have "rs b \<le> unat a - 1" "unat a - 1 < re b" "0 < unat a" using ranges_okD [OF ok b(1)] by auto
      then show "0 < unat a \<and> unat a - 1 \<in> addrs v" using b(1) by (auto simp: addrs_def covers_def)
    next
      assume r: "0 < unat a \<and> unat a - 1 \<in> addrs v"
      then obtain b where b: "b \<in> set (active v)" "rs b \<le> unat a - 1" "unat a - 1 < re b"
        by (auto simp: addrs_def covers_def)
      have "\<not> (rs b \<le> unat a \<and> unat a < re b)" using False b(1) by (auto simp: addrs_def covers_def)
      then have "unat a = re b" using b r by linarith
      then show "\<exists>b \<in> set (active v). unat a = re b" using b(1) by blast
    qed
    then show ?thesis by simp
  qed simp
  then show ?thesis unfolding vmm_find_membership [OF assms] by simp
qed

subsection \<open>Adding a range\<close>

lemma nth_active:
  assumes "active v = pre @ b # post" and "length pre = i"
  shows "get_blk v i = Some b"
proof -
  have "i < length (active v)" using assms by simp
  then have "i < length (blocks v)" "i < using_blocks v" by (auto simp: active_def)
  then show ?thesis using arg_cong [OF assms(1), of "\<lambda>x. x ! i"] assms(2)
    by (simp add: get_blk_def active_def nth_append_length [of pre, unfolded assms(2)])
qed

lemma add_new_spec:
  assumes inv: "vmm_inv v" and sz: "0 < unat sz" "unat start + unat sz < 2 ^ 64"
    and act: "active v = pre @ post" and i: "length pre = i"
    and before: "\<forall>c \<in> set pre. re c < unat start"
    and after: "\<forall>c \<in> set post. unat start + unat sz \<le> rs c"
  shows "\<exists>st v'. add_new v i start sz = Some (st, v') \<and> vmm_inv v' \<and>
    ((st = K_SUCCESS \<and> addrs v' = addrs v \<union> range_of start sz) \<or>
     (st = K_ERROR \<and> v' = v \<and> using_blocks v = total_blocks v \<and> unat start + unat sz \<notin> addrs v))"
proof -
  have ok: "ranges_ok (pre @ post)" using inv act by (simp add: vmm_inv_def)
  have ul: "using_blocks v \<le> length (blocks v)" and ut: "using_blocks v \<le> total_blocks v"
    and lt: "length (blocks v) = total_blocks v"
    using inv by (auto simp: vmm_inv_def)
  have u: "using_blocks v = length pre + length post"
    using arg_cong [OF act, of length] ul by (simp add: active_def)
  have en: "unat (start + sz) = unat start + unat sz" using sz(2) by (intro unat_add_no_wrap) simp
  show ?thesis
  proof (cases "\<exists>b post'. post = b # post' \<and> unat start + unat sz = rs b")
    case True
    then obtain b post' where post: "post = b # post'" "unat start + unat sz = rs b" by blast
    have act': "active v = pre @ b # post'" using act post by simp
    have eq: "start + sz = vb_start b" using post(2) en by (simp add: word_unat_eq_iff rs_def)
    define b' where "b' = b\<lparr>vb_start := start, vb_size := vb_size b + sz\<rparr>"
    have reb: "re b < 2 ^ 64" using ok post by simp
    then have "unat (vb_size b + sz) = unat (vb_size b) + unat sz"
      using post(2) by (intro unat_add_no_wrap) (simp add: re_def rs_def)
    then have b': "rs b' = unat start" "re b' = re b"
      using post(2) by (simp_all add: b'_def rs_def re_def)
    obtain v' where v': "set_blk i b' v = Some v'" "active v' = pre @ b' # post'"
        "total_blocks v' = total_blocks v" "length (blocks v') = length (blocks v)"
        "using_blocks v' = using_blocks v"
      by (rule set_blk_active [OF act' i ul])
    have "add_new v i start sz = Some (K_SUCCESS, v')"
      using v'(1) nth_active [OF act' i] u i post eq by (simp add: add_new_def b'_def)
    moreover have "vmm_inv v'"
      using v' ut lt ok before b' sz post by (auto simp: vmm_inv_def)
    moreover have "addrs v' = addrs v \<union> range_of start sz"
      using b' post v'(2) act' sz ranges_okD [OF ok, of b]
      by (auto simp: addrs_def range_of_def)
    ultimately show ?thesis by auto
  next
    case False
    have no: "\<not> (case if i < using_blocks v then map_option Some (get_blk v i) else Some None of
        Some (Some b) \<Rightarrow> start + sz = vb_start b | _ \<Rightarrow> False)"
    proof (cases post)
      case (Cons b post')
      then have "get_blk v i = Some b" using nth_active [of v pre b post'] act i by simp
      moreover have "start + sz \<noteq> vb_start b" using False Cons en by (auto simp: rs_def)
      ultimately show ?thesis by simp
    qed (use u i in simp)
    have nx: "\<exists>n. (if i < using_blocks v then map_option Some (get_blk v i) else Some None) = Some n"
      using ul u by (auto simp: get_blk_def)
    have strict: "\<forall>c \<in> set post. unat start + unat sz < rs c"
    proof (cases post)
      case (Cons d post')
      then have "unat start + unat sz < rs d" using after False by (auto simp: le_less)
      then show ?thesis using Cons ok by auto
    qed simp
    show ?thesis
    proof (cases "using_blocks v < total_blocks v")
      case room: True
      obtain v1 where v1: "move_backward i v = Some v1" "total_blocks v1 = total_blocks v"
          "using_blocks v1 = using_blocks v" "length (blocks v1) = length (blocks v)"
          "\<And>c. active (v1\<lparr>using_blocks := Suc (using_blocks v), blocks := (blocks v1)[i := c]\<rparr>)
            = pre @ c # post"
        using move_backward_active [OF act i] room lt by metis
      define b where "b = \<lparr>vb_start = start, vb_size = sz\<rparr>"
      have b: "rs b = unat start" "re b = unat start + unat sz" by (simp_all add: b_def rs_def re_def)
      define v' where "v' = v1\<lparr>using_blocks := Suc (using_blocks v), blocks := (blocks v1)[i := b]\<rparr>"
      have act': "active v' = pre @ b # post" unfolding v'_def by (rule v1(5))
      have "add_new v i start sz = Some (K_SUCCESS, v')"
        using nx no room v1(1-4) u i lt
        by (auto simp: add_new_def set_blk_def v'_def b_def split: option.splits)
      moreover have "ranges_ok (pre @ b # post)"
        using ok before b sz strict by auto
      then have "vmm_inv v'" using act' v1 room lt by (simp add: vmm_inv_def v'_def)
      moreover have "addrs v' = addrs v \<union> range_of start sz"
        using b act act' by (auto simp: addrs_def range_of_def)
      ultimately show ?thesis by auto
    next
      case full: False
      then have "add_new v i start sz = Some (K_ERROR, v)"
        using nx no by (auto simp: add_new_def split: option.splits)
      moreover have "unat start + unat sz \<notin> addrs v"
        using before strict sz(1) by (fastforce simp: addrs_def act covers_def)
      ultimately show ?thesis using inv full ut by auto
    qed
  qed
qed

text \<open>Where the search of \<^verbatim>\<open>vmm_add_range\<close> stops.\<close>

lemma add_split:
  assumes inv: "vmm_inv v" and sz: "0 < unat sz"
    and disj: "range_of start sz \<inter> addrs v = {}"
  obtains i pre post where "scan_blocks (\<lambda>b. vb_start b > start) v 0 = Some i"
    and "length pre = i" and "active v = pre @ post"
    and "i = using_blocks v \<longleftrightarrow> post = []"
    and "\<forall>c \<in> set pre. re c \<le> unat start"
    and "\<forall>c \<in> set post. unat start + unat sz \<le> rs c"
proof -
  have ok: "ranges_ok (active v)" and ul: "using_blocks v \<le> length (blocks v)"
    using inv by (auto simp: vmm_inv_def)
  have dis: "re c \<le> unat start \<or> unat start + unat sz \<le> rs c" if "c \<in> set (active v)" for c
  proof (rule ccontr)
    assume "\<not> ?thesis"
    then have "max (unat start) (rs c) \<in> range_of start sz" "max (unat start) (rs c) \<in> {rs c..<re c}"
      using sz ranges_okD [OF ok that] by (auto simp: range_of_def max_def)
    then show False using disj that unfolding addrs_def covers_def by blast
  qed
  have less: "vb_start c > start \<longleftrightarrow> unat start < rs c" for c
    by (simp add: word_less_nat_alt rs_def)
  show thesis
  proof (cases rule: scan_active [OF inv, of "\<lambda>b. vb_start b > start", case_names found none])
    case (found i pre b post)
    have "\<forall>c \<in> set pre. re c \<le> unat start"
      using found(6,7) dis sz by (fastforce simp: less)
    moreover have "unat start < rs c" if "c \<in> set (b # post)" for c
      using that found(6,8) ok by (auto simp: less)
    then have "\<forall>c \<in> set (b # post). unat start + unat sz \<le> rs c"
      using dis found(6) ranges_okD [OF ok] by fastforce
    ultimately show thesis using found by (intro that [of i pre "b # post"]) auto
  next
    case none
    have "\<forall>c \<in> set (active v). re c \<le> unat start" using none(2) dis sz by (fastforce simp: less)
    then show thesis using none ul by (intro that [of "using_blocks v" "active v" "[]"]) (auto simp: active_def)
  qed
qed

lemma vmm_add_range_spec:
  assumes inv: "vmm_inv v" and sz: "0 < unat sz" "unat start + unat sz < 2 ^ 64"
    and disj: "range_of start sz \<inter> addrs v = {}"
  shows "\<exists>st v'. vmm_add_range v start sz = Some (st, v') \<and> vmm_inv v' \<and>
    ((st = K_SUCCESS \<and> addrs v' = addrs v \<union> range_of start sz) \<or>
     (st = K_ERROR \<and> v' = v \<and> using_blocks v = total_blocks v \<and> unat start + unat sz \<notin> addrs v))"
proof -
  have ok: "ranges_ok (active v)" and ul: "using_blocks v \<le> length (blocks v)"
    and ut: "using_blocks v \<le> total_blocks v" and lt: "length (blocks v) = total_blocks v"
    using inv by (auto simp: vmm_inv_def)
  have en: "unat (start + sz) = unat start + unat sz" using sz(2) by (intro unat_add_no_wrap) simp
  obtain i pre post where scan: "scan_blocks (\<lambda>b. vb_start b > start) v 0 = Some i"
    and i: "length pre = i" and act: "active v = pre @ post" and last: "i = using_blocks v \<longleftrightarrow> post = []"
    and before: "\<forall>c \<in> set pre. re c \<le> unat start"
    and after: "\<forall>c \<in> set post. unat start + unat sz \<le> rs c"
    by (rule add_split [OF inv sz(1) disj])
  show ?thesis
  proof (cases pre rule: rev_cases)
    case Nil
    then show ?thesis
      using add_new_spec [OF inv sz act i] after i scan by (simp add: vmm_add_range_def)
  next
    case (snoc pre0 p)
    have act0: "active v = pre0 @ p # post" and i0: "length pre0 = i - 1" "0 < i"
      using act i snoc by auto
    have blkp: "get_blk v (i - 1) = Some p" by (rule nth_active [OF act0 i0(1)])
    have p: "re p < 2 ^ 64" "rs p < re p" "vb_start p + vb_size p = start \<longleftrightarrow> re p = unat start"
      using block_words [OF ok, of p] act0 by (auto simp: word_unat_eq_iff)
    show ?thesis
    proof (cases "re p = unat start")
      case False
      have "\<forall>c \<in> set pre. re c < unat start"
      proof -
        have "re p < unat start" using before False snoc by auto
        moreover have "re c < rs p" if "c \<in> set pre0" for c using ok act0 that by auto
        ultimately show ?thesis using snoc p(2) by fastforce
      qed
      from add_new_spec [OF inv sz act i this after] show ?thesis
        using scan i0(2) blkp p(3) False by (simp add: vmm_add_range_def)
    next
      case True
      define p' where "p' = p\<lparr>vb_size := vb_size p + sz\<rparr>"
      have "unat (vb_size p + sz) = unat (vb_size p) + unat sz"
        using True sz by (intro unat_add_no_wrap) (simp add: re_def)
      then have p': "rs p' = rs p" "re p' = unat start + unat sz"
        using True by (simp_all add: p'_def rs_def re_def)
      obtain v1 where v1: "set_blk (i - 1) p' v = Some v1" "active v1 = pre0 @ p' # post"
          "total_blocks v1 = total_blocks v" "length (blocks v1) = length (blocks v)"
          "using_blocks v1 = using_blocks v"
        by (rule set_blk_active [OF act0 i0(1) ul])
      have add: "vmm_add_range v start sz =
          (if i = using_blocks v then Some (K_SUCCESS, v1)
           else do {
             b \<leftarrow> get_blk v1 i;
             if start + sz = vb_start b then do {
               v \<leftarrow> set_blk (i - 1) (p'\<lparr>vb_size := vb_size p' + vb_size b\<rparr>) v1;
               v \<leftarrow> move_forward i (v\<lparr>using_blocks := using_blocks v - 1\<rparr>);
               Some (K_SUCCESS, v) }
             else Some (K_SUCCESS, v1) })"
        using scan i0(2) blkp p(3) True v1(1,5)
        by (simp add: vmm_add_range_def p'_def [symmetric] Let_def)
      have union1: "addrs v1 = addrs v \<union> range_of start sz"
        using p' p(2) True v1(2) act0 by (auto simp: addrs_def range_of_def)
      have inv1: "vmm_inv v1" if "\<forall>c \<in> set post. unat start + unat sz < rs c"
        using v1 ut lt ok act0 p' p(2) True sz that by (auto simp: vmm_inv_def)
      show ?thesis
      proof (cases post)
        case Nil
        then show ?thesis using add last v1 union1 inv1 by auto
      next
        case (Cons b post')
        have blkb: "get_blk v1 i = Some b"
          using nth_active [of v1 "pre0 @ [p']" b post'] v1(2) i0 Cons by simp
        have b: "start + sz = vb_start b \<longleftrightarrow> unat start + unat sz = rs b"
          using en by (simp add: word_unat_eq_iff rs_def)
        show ?thesis
        proof (cases "unat start + unat sz = rs b")
          case False
          then have "unat start + unat sz < rs b" using after Cons by auto
          then have "\<forall>c \<in> set post. unat start + unat sz < rs c" using ok act0 Cons by auto
          then show ?thesis using inv1 union1 add last Cons blkb b False by auto
        next
          case join: True
          define q where "q = p'\<lparr>vb_size := vb_size p' + vb_size b\<rparr>"
          have reb: "re b < 2 ^ 64" "rs b < re b" using ok act0 Cons by auto
          have "unat (vb_size p' + vb_size b) = unat (vb_size p') + unat (vb_size b)"
            using join p' reb by (intro unat_add_no_wrap) (simp add: re_def rs_def)
          then have q: "rs q = rs p" "re q = re b"
            using join p' by (simp_all add: q_def rs_def re_def)
          obtain v2 where v2: "set_blk (i - 1) q v1 = Some v2" "active v2 = pre0 @ q # post"
              "total_blocks v2 = total_blocks v1" "length (blocks v2) = length (blocks v1)"
              "using_blocks v2 = using_blocks v1"
            by (rule set_blk_active [OF v1(2) i0(1)]) (use v1 ul in auto)
          have act2: "active v2 = (pre0 @ [q]) @ b # post'" "length (pre0 @ [q]) = i"
              "using_blocks v2 \<le> length (blocks v2)"
            using v2 v1 Cons i0 ul by auto
          obtain v3 where v3: "move_forward i (v2\<lparr>using_blocks := using_blocks v2 - 1\<rparr>) = Some v3"
              "active v3 = (pre0 @ [q]) @ post'" "total_blocks v3 = total_blocks v2"
              "length (blocks v3) = length (blocks v2)" "using_blocks v3 = using_blocks v2 - 1"
            by (rule move_forward_active [OF act2])
          have "vmm_add_range v start sz = Some (K_SUCCESS, v3)"
            unfolding add using last Cons blkb b join v2(1,5) v3(1) by (simp add: q_def [symmetric])
          moreover have "vmm_inv v3"
            using v3 v2 v1 ut lt ok act0 Cons q p(2) reb by (auto simp: vmm_inv_def)
          moreover have "addrs v3 = addrs v \<union> range_of start sz"
            using v3(2) act0 Cons q p(2) True join reb sz by (auto simp: addrs_def range_of_def)
          ultimately show ?thesis by auto
        qed
      qed
    qed
  qed
qed

text \<open>C13: \<^verbatim>\<open>vmm_add_range\<close> is set union: adding a range that is not in the table merges
  it with the blocks it touches, so that the table stays sorted and its blocks stay apart; the
  table then stands for its addresses and the range. Only a full table makes it fail, and then
  nothing changes.\<close>

theorem vmm_add_is_union:
  assumes "vmm_inv v" and "0 < unat sz" "unat start + unat sz < 2 ^ 64"
    and "range_of start sz \<inter> addrs v = {}"
  shows "\<exists>st v'. vmm_add_range v start sz = Some (st, v') \<and> vmm_inv v' \<and>
    ((st = K_SUCCESS \<and> addrs v' = addrs v \<union> range_of start sz) \<or>
     (st = K_ERROR \<and> v' = v \<and> using_blocks v = total_blocks v))"
  using vmm_add_range_spec [OF assms] by blast

lemma vmm_add_is_union_witness:
  "\<exists>st v'. vmm_add_range example_vmm 0x4000 0x4000 = Some (st, v') \<and> vmm_inv v' \<and>
    ((st = K_SUCCESS \<and> addrs v' = addrs example_vmm \<union> range_of 0x4000 0x4000) \<or>
     (st = K_ERROR \<and> v' = example_vmm \<and> using_blocks example_vmm = total_blocks example_vmm))"
  by (rule vmm_add_is_union [OF example_vmm_inv])
     (auto simp: range_of_def addrs_def example_vmm_def active_def rs_def re_def)

end
