(* ===== verification/SyncLocks.thy ===== *)
theory SyncLocks
  imports Prelude
begin

text \<open>
  Synchronisation primitives: the atomic operations of \<^verbatim>\<open>sync/atomic.c\<close> and
  \<^verbatim>\<open>sync/asm_sync.S\<close>, the spinlock as a step relation over any number of processors (the
  loop of \<^verbatim>\<open>asm_spinlock_lock\<close>, instruction by instruction where memory is touched), and the
  spinlock operations as the rest of the kernel model uses them, with the preemption counter of the
  running task.
\<close>

subsection \<open>Atomic operations\<close>

type_synonym atomic = u64

definition asm_atomic_xchg :: "atomic \<Rightarrow> u64 \<Rightarrow> u64 \<times> atomic" where
  "asm_atomic_xchg a v = (a, v)"

definition atomic_set :: "atomic \<Rightarrow> u64 \<Rightarrow> u64 \<times> atomic" where
  "atomic_set a v = asm_atomic_xchg a v"

definition atomic_read :: "atomic \<Rightarrow> u64" where "atomic_read a = a"
definition atomic_add :: "atomic \<Rightarrow> u64 \<Rightarrow> atomic" where "atomic_add a v = a + v"
definition atomic_sub :: "atomic \<Rightarrow> u64 \<Rightarrow> atomic" where "atomic_sub a v = a - v"
definition atomic_inc :: "atomic \<Rightarrow> atomic" where "atomic_inc a = a + 1"
definition atomic_dec :: "atomic \<Rightarrow> atomic" where "atomic_dec a = a - 1"
definition atomic_mask :: "atomic \<Rightarrow> u64 \<Rightarrow> atomic" where "atomic_mask a m = a AND m"

text \<open>
  The bit instructions with a memory operand and a register index reach beyond the word for an index
  of 64 or more: a fault here. The result is the old bit.
\<close>

definition old_bit :: "atomic \<Rightarrow> u64 \<Rightarrow> u64" where
  "old_bit a n = (if bit a (unat n) then 1 else 0)"

definition atomic_bts :: "atomic \<Rightarrow> u64 \<Rightarrow> (u64 \<times> atomic) option" where
  "atomic_bts a n = (if n < 64 then Some (old_bit a n, a OR push_bit (unat n) 1) else None)"

definition atomic_btr :: "atomic \<Rightarrow> u64 \<Rightarrow> (u64 \<times> atomic) option" where
  "atomic_btr a n = (if n < 64 then Some (old_bit a n, a AND NOT (push_bit (unat n) 1)) else None)"

definition atomic_btc :: "atomic \<Rightarrow> u64 \<Rightarrow> (u64 \<times> atomic) option" where
  "atomic_btc a n = (if n < 64 then Some (old_bit a n, a XOR push_bit (unat n) 1) else None)"

text \<open>The bit operations return the old bit and change that bit only: set it, clear it, flip
  it.\<close>

theorem atomic_bit_ops:
  assumes "n < 64"
  shows "\<exists>s r c. atomic_bts a n = Some (old_bit a n, s) \<and> atomic_btr a n = Some (old_bit a n, r) \<and>
    atomic_btc a n = Some (old_bit a n, c) \<and>
    (\<forall>k < 64. bit s k = (k = unat n \<or> bit a k) \<and> bit r k = (k \<noteq> unat n \<and> bit a k) \<and>
       bit c k = (if k = unat n then \<not> bit a k else bit a k))"
  using assms
  by (auto simp: atomic_bts_def atomic_btr_def atomic_btc_def bit_simps)

lemma atomic_bit_ops_witness:
  "\<exists>s r c. atomic_bts 0xa0 5 = Some (old_bit 0xa0 5, s) \<and> atomic_btr 0xa0 5 = Some (old_bit 0xa0 5, r) \<and>
    atomic_btc 0xa0 5 = Some (old_bit 0xa0 5, c) \<and>
    (\<forall>k < 64. bit s k = (k = unat (5 :: u64) \<or> bit (0xa0 :: u64) k) \<and>
       bit r k = (k \<noteq> unat (5 :: u64) \<and> bit (0xa0 :: u64) k) \<and>
       bit c k = (if k = unat (5 :: u64) then \<not> bit (0xa0 :: u64) k else bit (0xa0 :: u64) k))"
  by (rule atomic_bit_ops) simp

subsection \<open>The spinlock on several processors\<close>

text \<open>
  A processor is outside, about to exchange (label \<^verbatim>\<open>asm_spinlock_lock\<close>), polling
  (label \<^verbatim>\<open>.wait\<close>), or in the critical section.
\<close>

datatype spin_pc = Outside | Exchange | Polling | Holding

record spin_state =
  lock_word :: u64
  pcs :: "nat \<Rightarrow> spin_pc"

inductive spin_step :: "spin_state \<Rightarrow> spin_state \<Rightarrow> bool" where
  spin_call: "pcs s c = Outside \<Longrightarrow> spin_step s (s\<lparr>pcs := (pcs s)(c := Exchange)\<rparr>)"
| spin_xchg: "pcs s c = Exchange \<Longrightarrow>
    spin_step s (s\<lparr>lock_word := 0,
      pcs := (pcs s)(c := if lock_word s = 1 then Holding else Polling)\<rparr>)"
| spin_poll: "pcs s c = Polling \<Longrightarrow>
    spin_step s (s\<lparr>pcs := (pcs s)(c := if lock_word s = 1 then Exchange else Polling)\<rparr>)"
| spin_unlock: "pcs s c = Holding \<Longrightarrow>
    spin_step s (s\<lparr>lock_word := 1, pcs := (pcs s)(c := Outside)\<rparr>)"

inductive_cases spin_stepE: "spin_step s s'"

text \<open>\<^verbatim>\<open>init_spinlock\<close>, with every processor outside.\<close>

definition init_spin :: spin_state where
  "init_spin = \<lparr>lock_word = 1, pcs = \<lambda>_. Outside\<rparr>"

inductive spin_reachable :: "spin_state \<Rightarrow> bool" where
  spin_init: "spin_reachable init_spin"
| spin_next: "spin_reachable s \<Longrightarrow> spin_step s s' \<Longrightarrow> spin_reachable s'"

definition spin_inv :: "spin_state \<Rightarrow> bool" where
  "spin_inv s \<longleftrightarrow> (lock_word s = 1 \<and> (\<forall>c. pcs s c \<noteq> Holding)) \<or>
     (lock_word s = 0 \<and> (\<exists>!c. pcs s c = Holding))"

lemma spin_inv_step: "spin_step s s' \<Longrightarrow> spin_inv s \<Longrightarrow> spin_inv s'"
  by (elim spin_stepE) (auto simp: spin_inv_def; metis spin_pc.distinct)+

text \<open>C39: Mutual exclusion: in every reachable state at most one processor holds the lock, and the
  lock word is 1 exactly when nobody does.\<close>

theorem spinlock_mutual_exclusion:
  assumes "spin_reachable s"
  shows "(\<forall>c d. pcs s c = Holding \<longrightarrow> pcs s d = Holding \<longrightarrow> c = d) \<and>
    (lock_word s = 1 \<longleftrightarrow> (\<forall>c. pcs s c \<noteq> Holding))"
proof -
  have "spin_inv s" using assms
  proof induction
    case spin_init
    then show ?case by (simp add: init_spin_def spin_inv_def)
  qed (rule spin_inv_step)
  then show ?thesis by (auto simp: spin_inv_def)
qed

definition spin_contended :: spin_state where
  "spin_contended = \<lparr>lock_word = 0, pcs = (\<lambda>_. Outside)(0 := Holding, 1 := Polling)\<rparr>"

lemma spin_contended_reachable: "spin_reachable spin_contended"
proof -
  let ?s1 = "\<lparr>lock_word = 1, pcs = (\<lambda>_. Outside)(0 := Exchange)\<rparr>"
  let ?s2 = "\<lparr>lock_word = 0, pcs = (\<lambda>_. Outside)(0 := Holding)\<rparr>"
  let ?s3 = "\<lparr>lock_word = 0, pcs = (\<lambda>_. Outside)(0 := Holding, 1 := Exchange)\<rparr>"
  have "spin_step init_spin ?s1" using spin_call [of init_spin 0] by (simp add: init_spin_def)
  moreover have "spin_step ?s1 ?s2" using spin_xchg [of ?s1 0] by simp
  moreover have "spin_step ?s2 ?s3" using spin_call [of ?s2 1] by simp
  moreover have "spin_step ?s3 spin_contended"
    using spin_xchg [of ?s3 1] by (simp add: spin_contended_def)
  ultimately show ?thesis by (meson spin_init spin_next)
qed

lemma spinlock_mutual_exclusion_witness: "pcs spin_contended 1 \<noteq> Holding \<and> lock_word spin_contended \<noteq> 1"
proof -
  have "pcs spin_contended 0 = Holding" by (simp add: spin_contended_def)
  then show ?thesis using spinlock_mutual_exclusion [OF spin_contended_reachable] by (metis zero_neq_one)
qed

subsection \<open>Locks as the kernel operations use them\<close>

text \<open>
  The spinlocks of the kernel and the state the lock operations touch: the lock words, and the
  preemption counter of the running task. Sequentially, a lock that is not free is never acquired.
\<close>

datatype lock_id =
    TasksLock | TaskListLock nat | SendLock pid | ChildListLock pid | MemGroupLock nat | MemLock

record lock_state =
  locks :: "lock_id \<Rightarrow> u64"
  preempt_count :: "pid \<Rightarrow> u64"
  running_pid :: pid

definition init_spinlock :: "lock_id \<Rightarrow> 'a lock_state_scheme \<Rightarrow> 'a lock_state_scheme" where
  "init_spinlock l s = s\<lparr>locks := (locks s)(l := 1)\<rparr>"

definition bump_preempt :: "u64 \<Rightarrow> 'a lock_state_scheme \<Rightarrow> 'a lock_state_scheme" where
  "bump_preempt d s =
     s\<lparr>preempt_count := (preempt_count s)(running_pid s := preempt_count s (running_pid s) + d)\<rparr>"

definition spinlock_lock :: "lock_id \<Rightarrow> 'a lock_state_scheme \<Rightarrow> 'a lock_state_scheme option" where
  "spinlock_lock l s =
     (let s = bump_preempt 1 s in
      if locks s l = 1 then Some (s\<lparr>locks := (locks s)(l := 0)\<rparr>) else None)"

definition spinlock_unlock :: "lock_id \<Rightarrow> 'a lock_state_scheme \<Rightarrow> 'a lock_state_scheme" where
  "spinlock_unlock l s = bump_preempt (- 1) (s\<lparr>locks := (locks s)(l := 1)\<rparr>)"

definition lock_free :: "lock_id \<Rightarrow> 'a lock_state_scheme \<Rightarrow> bool" where
  "lock_free l s \<longleftrightarrow> locks s l = 1"

text \<open>The state while \<open>l\<close> is held.\<close>

definition locked :: "lock_id \<Rightarrow> 'a lock_state_scheme \<Rightarrow> 'a lock_state_scheme" where
  "locked l s = bump_preempt 1 (s\<lparr>locks := (locks s)(l := 0)\<rparr>)"

lemma spinlock_lock_free: "lock_free l s \<Longrightarrow> spinlock_lock l s = Some (locked l s)"
  by (simp add: spinlock_lock_def locked_def bump_preempt_def lock_free_def)

lemma spinlock_lock_held: "\<not> lock_free l s \<Longrightarrow> spinlock_lock l s = None"
  by (simp add: spinlock_lock_def bump_preempt_def lock_free_def)

lemma spinlock_unlock_locked: "lock_free l s \<Longrightarrow> spinlock_unlock l (locked l s) = s"
  by (simp add: spinlock_unlock_def locked_def bump_preempt_def lock_free_def fun_upd_idem)

text \<open>Taking a free lock and releasing it restores the state, the preemption counter
  included, and other locks are free or held as before; while the lock is held a second attempt to
  take it never returns.\<close>

theorem spinlock_lock_unlock:
  assumes "lock_free l s"
  shows "\<exists>s'. spinlock_lock l s = Some s' \<and> spinlock_unlock l s' = s \<and>
    spinlock_lock l s' = None \<and> preempt_count s' (running_pid s) = preempt_count s (running_pid s) + 1 \<and>
    (\<forall>k. k \<noteq> l \<longrightarrow> lock_free k s' = lock_free k s)"
  using assms spinlock_lock_free [OF assms] spinlock_unlock_locked [OF assms]
  by (auto simp: locked_def bump_preempt_def lock_free_def intro!: spinlock_lock_held)

definition example_lock_state :: lock_state where
  "example_lock_state = \<lparr>locks = \<lambda>_. 1, preempt_count = \<lambda>_. 0, running_pid = 3\<rparr>"

lemma spinlock_lock_unlock_witness:
  "\<exists>s'. spinlock_lock MemLock example_lock_state = Some s' \<and>
    spinlock_unlock MemLock s' = example_lock_state \<and> spinlock_lock MemLock s' = None \<and>
    preempt_count s' (running_pid example_lock_state) =
      preempt_count example_lock_state (running_pid example_lock_state) + 1 \<and>
    (\<forall>k. k \<noteq> MemLock \<longrightarrow> lock_free k s' = lock_free k example_lock_state)"
  by (rule spinlock_lock_unlock) (simp add: example_lock_state_def lock_free_def)

end
