(* ===== verification/PhysPages.thy ===== *)
theory PhysPages
  imports SyncLocks BitmapAlloc
begin

text \<open>
  The physical page allocator of \<^verbatim>\<open>src/arch/x86_64/mem/page.c\<close>: start-up from the EFI
  memory map, allocation of runs of 2 MiB pages and their release, on the bitmap allocator (a set
  bit is a free page) and under the memory lock.
\<close>

definition PG_SIZE :: u64 where "PG_SIZE = 0x200000"
definition PAGE_BITMAP_BYTES_LEN :: nat where "PAGE_BITMAP_BYTES_LEN = 2048"

record phys_state = lock_state +
  page_bitmap :: bitmap
  mem_size :: u64
  total_pages :: u64
  total_free_pages :: u64
  free_pages :: u64

subsection \<open>Start-up\<close>

datatype memory_type =
  FREE_MEMORY | RESERVED_MEMORY | ACPI_MEMORY | ACPI_MEMORY_NVS | UNUSEABLE_MEMORY | MAX_MEMORY_TYPE

text \<open>The EFI types by number, in the order of \<^verbatim>\<open>EFI_MEMORY_TYPE\<close>.\<close>

definition memory_type :: "u32 \<Rightarrow> memory_type" where
  "memory_type t =
     (if t \<in> {7, 3, 4, 1} then FREE_MEMORY
      else if t \<in> {2, 5, 6, 11, 12, 13, 0} then RESERVED_MEMORY
      else if t = 9 then ACPI_MEMORY
      else if t = 10 then ACPI_MEMORY_NVS
      else if t = 8 \<or> t = 14 then UNUSEABLE_MEMORY
      else MAX_MEMORY_TYPE)"

record efi_desc =
  efi_type :: u32
  physical_start :: u64
  number_of_pages :: u64

definition page_size_round_up :: "u64 \<Rightarrow> u64" where
  "page_size_round_up a = (a + (PG_SIZE - 1)) div PG_SIZE"

definition page_size_round_down :: "u64 \<Rightarrow> u64" where
  "page_size_round_down a = a div PG_SIZE"

definition desc_size :: "efi_desc \<Rightarrow> u64" where
  "desc_size d = push_bit 12 (number_of_pages d)"

text \<open>
  The inner loop: absorb the following descriptors while they touch the region and have its type.
  The result is the size and end of the region and the descriptors left.
\<close>

fun absorb :: "memory_type \<Rightarrow> u64 \<Rightarrow> u64 \<Rightarrow> efi_desc list \<Rightarrow> u64 \<times> u64 \<times> efi_desc list" where
  "absorb ty sz en [] = (sz, en, [])"
| "absorb ty sz en (d # ds) =
     (if en < physical_start d then (sz, en, d # ds)
      else if memory_type (efi_type d) \<noteq> ty then (sz, en, d # ds)
      else absorb ty (sz + desc_size d) (en + desc_size d) ds)"

lemma absorb_length: "length (snd (snd (absorb ty s e ds))) \<le> length ds"
  by (induction ds arbitrary: s e) (auto simp: le_SucI)

lemma absorb_rest: "absorb ty sz en ds = (sz', en', rest) \<Longrightarrow> length rest \<le> length ds"
  using absorb_length [of ty sz en ds] by simp

text \<open>The loop over the regions; the counters wrap as the \<^verbatim>\<open>size_t\<close>s do.\<close>

definition set_bits :: "u8 \<Rightarrow> nat \<Rightarrow> nat \<Rightarrow> bitmap \<Rightarrow> bitmap option" where
  "set_bits val lo hi b = fold_option (\<lambda>i b. bitmap_set b i val) [lo..<hi] b"

definition add_region ::
  "memory_type \<Rightarrow> u64 \<Rightarrow> u64 \<Rightarrow> u64 \<Rightarrow> 'a phys_state_scheme \<Rightarrow> 'a phys_state_scheme option" where
  "add_region ty start en sz s =
     (if ty = FREE_MEMORY then
        (let bit_start = page_size_round_up start; bit_end = page_size_round_down en;
             bit_size = bit_end - bit_start in do {
           let s = s\<lparr>mem_size := mem_size s + sz\<rparr>;
           let s = (if bit_end > bit_start
             then s\<lparr>total_free_pages := total_free_pages s + bit_size,
                    free_pages := total_free_pages s + bit_size\<rparr>
             else s);
           b \<leftarrow> set_bits 1 (unat bit_start) (unat bit_end) (page_bitmap s);
           Some (s\<lparr>page_bitmap := b, total_pages := total_pages s + bit_size\<rparr>) })
      else Some s)"

function mem_regions :: "efi_desc list \<Rightarrow> 'a phys_state_scheme \<Rightarrow> 'a phys_state_scheme option" where
  "mem_regions [] s = Some s"
| "mem_regions (d # ds) s =
     (let ty = memory_type (efi_type d);
          (sz, en, rest) = absorb ty (desc_size d) (physical_start d + desc_size d) ds in do {
        s \<leftarrow> add_region ty (physical_start d) en sz s;
        mem_regions rest s })"
  by pat_completeness auto
termination
  by (relation "measure (\<lambda>(ds, _). length ds)") (auto dest!: absorb_rest [OF sym])

text \<open>
  \<^verbatim>\<open>mem_page_init\<close>, for the descriptors of the boot information; the handler registration
  at its end is outside this state. The page counters are static, so they start as zero.
\<close>

definition mem_page_init :: "efi_desc list \<Rightarrow> 'a phys_state_scheme \<Rightarrow> 'a phys_state_scheme option" where
  "mem_page_init descs s =
     (let s = s\<lparr>page_bitmap := \<lparr>btmp_bytes_len = PAGE_BITMAP_BYTES_LEN,
                 bmap = bmap (page_bitmap s)\<rparr>,
               mem_size := 0, total_pages := 0, free_pages := 0\<rparr> in do {
        b \<leftarrow> init_bitmap (page_bitmap s);
        let s = init_spinlock MemLock (s\<lparr>page_bitmap := b\<rparr>);
        s \<leftarrow> mem_regions descs s;
        let s = (if unat (total_pages s div 8) \<le> PAGE_BITMAP_BYTES_LEN
          then s\<lparr>page_bitmap := (page_bitmap s)\<lparr>btmp_bytes_len := unat (total_pages s div 8)\<rparr>\<rparr>
          else s);
        b \<leftarrow> set_bits 0 0 3 (page_bitmap s);
        Some (s\<lparr>page_bitmap := b, total_free_pages := total_free_pages s - 3\<rparr>) })"

definition get_total_free_pages :: "'a phys_state_scheme \<Rightarrow> u64" where
  "get_total_free_pages s = total_free_pages s"

subsection \<open>Allocation\<close>

text \<open>
  The result is the status, the value stored at \<^verbatim>\<open>addr\<close> (\<open>None\<close> when nothing is
  stored) and the state. The index variable is a local: its address is not null.
\<close>

definition alloc_physical_page_sub ::
  "u64 \<Rightarrow> 'a phys_state_scheme \<Rightarrow> (status_t \<times> addr option \<times> 'a phys_state_scheme) option" where
  "alloc_physical_page_sub n s = do {
     assert (n \<noteq> 0);
     (status, r) \<leftarrow> bitmap_alloc (page_bitmap s) 1 (unat n) 1;
     if ERROR status then Some (K_NOMEM, None, s)
     else do {
       index \<leftarrow> r;
       b \<leftarrow> set_bits 0 (unat index) (unat (ucast index + n)) (page_bitmap s);
       let s = s\<lparr>page_bitmap := b, free_pages := free_pages s - n\<rparr>;
       Some (K_SUCCESS, Some (ucast index * PG_SIZE), s) } }"

definition alloc_physical_page ::
  "u64 \<Rightarrow> 'a phys_state_scheme \<Rightarrow> (status_t \<times> addr option \<times> 'a phys_state_scheme) option" where
  "alloc_physical_page n s = do {
     assert (n \<noteq> 0);
     if free_pages s < n then Some (K_NOMEM, Some NULL, s)
     else do {
       s \<leftarrow> spinlock_lock MemLock s;
       (status, r, s) \<leftarrow> alloc_physical_page_sub n s;
       Some (status, r, spinlock_unlock MemLock s) } }"

definition free_physical_page ::
  "addr \<Rightarrow> u64 \<Rightarrow> 'a phys_state_scheme \<Rightarrow> 'a phys_state_scheme option" where
  "free_physical_page a n s = do {
     assert (n \<noteq> 0);
     assert (a \<noteq> NULL \<and> a AND 0x1fffff = 0);
     s \<leftarrow> spinlock_lock MemLock s;
     b \<leftarrow> set_bits 1 (unat (a div PG_SIZE)) (unat (a div PG_SIZE + n)) (page_bitmap s);
     let s = s\<lparr>page_bitmap := b, free_pages := free_pages s + n\<rparr>;
     Some (spinlock_unlock MemLock s) }"

subsection \<open>The set of free pages\<close>

definition page_limit :: "'a phys_state_scheme \<Rightarrow> nat" where
  "page_limit s = btmp_bytes_len (page_bitmap s) * 8"

definition free_set :: "'a phys_state_scheme \<Rightarrow> nat set" where
  "free_set s = {i. i < page_limit s \<and> bmbit (page_bitmap s) i}"

definition phys_wf :: "'a phys_state_scheme \<Rightarrow> bool" where
  "phys_wf s \<longleftrightarrow> bitmap_wf (page_bitmap s) \<and> btmp_bytes_len (page_bitmap s) \<le> PAGE_BITMAP_BYTES_LEN"

lemma phys_wfD: "phys_wf s \<Longrightarrow> bitmap_wf (page_bitmap s) \<and> page_limit s \<le> 16384"
  by (simp add: phys_wf_def PAGE_BITMAP_BYTES_LEN_def page_limit_def)

lemma set_bits_wf:
  assumes "bitmap_wf b" and "val = 0 \<or> val = 1"
  obtains b' where "set_bits val lo hi b = Some b'" and "bitmap_wf b'"
    and "btmp_bytes_len b' = btmp_bytes_len b" and "length (bmap b') = length (bmap b)"
    and "\<And>j. j < btmp_bytes_len b * 8 \<Longrightarrow>
      bmbit b' j = (if lo \<le> j \<and> j < hi then val = 1 else bmbit b j)"
proof -
  have "\<exists>b'. fold_option (\<lambda>i b. bitmap_set b i val) is b = Some b' \<and> bitmap_wf b' \<and>
    btmp_bytes_len b' = btmp_bytes_len b \<and> length (bmap b') = length (bmap b) \<and>
    (\<forall>j < btmp_bytes_len b * 8. bmbit b' j = (if j \<in> set is then val = 1 else bmbit b j))"
    for "is" using assms(1)
  proof (induction "is" arbitrary: b)
    case (Cons i "is")
    obtain b1 where b1: "bitmap_set b i val = Some b1" "bitmap_wf b1"
        "btmp_bytes_len b1 = btmp_bytes_len b" "length (bmap b1) = length (bmap b)"
        "\<And>j. j < btmp_bytes_len b * 8 \<Longrightarrow> bmbit b1 j = (if j = i then val = 1 else bmbit b j)"
      by (rule bitmap_set_wf [OF Cons.prems assms(2), of i]) blast
    from Cons.IH [OF b1(2)] b1 show ?case by auto
  qed simp
  from this [of "[lo..<hi]"] show thesis using that by (auto simp: set_bits_def)
qed

text \<open>A change of the bits \<open>lo..<hi\<close>, on the state.\<close>

lemma free_set_set_bits:
  assumes "set_bits val lo hi (page_bitmap s) = Some b" and "phys_wf s" and "val = 0 \<or> val = 1"
  shows "phys_wf (s\<lparr>page_bitmap := b\<rparr>)" "page_limit (s\<lparr>page_bitmap := b\<rparr>) = page_limit s"
    "free_set (s\<lparr>page_bitmap := b\<rparr>) =
      (if val = 1 then free_set s \<union> {i. lo \<le> i \<and> i < hi \<and> i < page_limit s} else free_set s - {lo..<hi})"
proof -
  obtain b' where b': "set_bits val lo hi (page_bitmap s) = Some b'" "bitmap_wf b'"
      "btmp_bytes_len b' = btmp_bytes_len (page_bitmap s)"
      "\<And>j. j < btmp_bytes_len (page_bitmap s) * 8 \<Longrightarrow>
        bmbit b' j = (if lo \<le> j \<and> j < hi then val = 1 else bmbit (page_bitmap s) j)"
    by (rule set_bits_wf [OF conjunct1 [OF phys_wfD [OF assms(2)]] assms(3), of lo hi]) blast
  with assms show "phys_wf (s\<lparr>page_bitmap := b\<rparr>)" "page_limit (s\<lparr>page_bitmap := b\<rparr>) = page_limit s"
    by (auto simp: phys_wf_def page_limit_def)
  show "free_set (s\<lparr>page_bitmap := b\<rparr>) =
      (if val = 1 then free_set s \<union> {i. lo \<le> i \<and> i < hi \<and> i < page_limit s} else free_set s - {lo..<hi})"
    using b' assms(1,3) by (auto simp: free_set_def page_limit_def split: if_splits)
qed

lemma locked_phys_updates [simp]:
  "(locked l s)\<lparr>page_bitmap := b, free_pages := n\<rparr> = locked l (s\<lparr>page_bitmap := b, free_pages := n\<rparr>)"
  "page_bitmap (locked l s) = page_bitmap s" "free_pages (locked l s) = free_pages s"
  "lock_free l (s\<lparr>page_bitmap := b, free_pages := n\<rparr>) = lock_free l s"
  by (simp_all add: locked_def bump_preempt_def lock_free_def)

lemma run_at_free_set:
  "run_at (page_bitmap s) 1 n k \<longleftrightarrow> k + n \<le> page_limit s \<and> {k..<k + n} \<subseteq> free_set s"
proof -
  have "(\<forall>j < n. bmbit (page_bitmap s) (k + j)) \<longleftrightarrow> (\<forall>i \<in> {k..<k + n}. bmbit (page_bitmap s) i)"
    by (metis add_diff_inverse_nat atLeastLessThan_iff le_add1 nat_add_left_cancel_less not_less)
  then show ?thesis by (auto simp: run_at_def page_limit_def free_set_def)
qed

text \<open>The two outcomes of the part under the lock.\<close>

lemma alloc_sub_cases:
  assumes "phys_wf s" and n: "n \<noteq> 0"
  obtains (ok) k b where "alloc_physical_page_sub n s =
        Some (K_SUCCESS, Some (word_of_nat k * PG_SIZE), s\<lparr>page_bitmap := b, free_pages := free_pages s - n\<rparr>)"
      "k + unat n \<le> page_limit s" "{k..<k + unat n} \<subseteq> free_set s"
      "phys_wf (s\<lparr>page_bitmap := b\<rparr>)" "page_limit (s\<lparr>page_bitmap := b\<rparr>) = page_limit s"
      "free_set (s\<lparr>page_bitmap := b\<rparr>) = free_set s - {k..<k + unat n}"
  | (fail) "alloc_physical_page_sub n s = Some (K_NOMEM, None, s)"
      "\<nexists>k. k + unat n \<le> page_limit s \<and> {k..<k + unat n} \<subseteq> free_set s"
proof -
  note wf = phys_wfD [OF assms(1)]
  have n0: "0 < unat n" using n by (simp add: unat_gt_0)
  let ?run = "\<lambda>k. run_at (page_bitmap s) 1 (unat n) k"
  obtain st r where a: "bitmap_alloc (page_bitmap s) 1 (unat n) 1 = Some (st, r)"
    and res: "if \<exists>i. ?run i then st = K_SUCCESS \<and> r = Some (word_of_nat (LEAST i. ?run i))
      else (st = K_ERROR \<or> st = K_OUT_OF_RESOURCE) \<and> r = None"
    using bitmap_alloc_spec [of "page_bitmap s" 1 "unat n" 1] wf n0 by auto
  show thesis
  proof (cases "\<exists>i. ?run i")
    case False
    then have "ERROR st" "r = None" using res by auto
    then show thesis
      using a False n by (intro fail) (auto simp: alloc_physical_page_sub_def run_at_free_set)
  next
    case True
    define k where "k = (LEAST i. ?run i)"
    have "?run k" unfolding k_def using True by (rule LeastI_ex)
    then have k: "k + unat n \<le> page_limit s" "{k..<k + unat n} \<subseteq> free_set s"
      by (auto simp: run_at_free_set)
    then have kl: "k < 16384" "k + unat n < 2 ^ 64" using wf n0 by auto
    have idx: "unat (word_of_nat k :: u32) = k" using kl(1) by (intro unat_of_nat_lt) simp
    have "take_bit 32 (int k) = int k" using kl(1) by (intro take_bit_int_eq_self) auto
    then have ext: "ucast (word_of_nat k :: u32) = (word_of_nat k :: u64)"
      by transfer simp
    have "unat (word_of_nat k + n) = k + unat n"
      using kl by (subst unat_add_no_wrap) (simp_all add: unat_of_nat)
    moreover obtain b where b: "set_bits 0 k (k + unat n) (page_bitmap s) = Some b"
      using set_bits_wf [of "page_bitmap s" 0 k "k + unat n"] wf by auto
    ultimately show thesis
      using a res True n k free_set_set_bits [OF b assms(1)] idx ext
      by (intro ok [of k b]) (auto simp: alloc_physical_page_sub_def k_def [symmetric] Let_def)
  qed
qed

subsection \<open>Allocation and release as operations on the set of free pages\<close>

text \<open>
  The counter never undercounts: it is the number of free pages plus a slack that no operation
  changes (it is not 0 after start-up, which forgets to subtract the three reserved pages).
\<close>

definition slack :: "'a phys_state_scheme \<Rightarrow> nat" where
  "slack s = unat (free_pages s) - card (free_set s)"

definition phys_inv :: "'a phys_state_scheme \<Rightarrow> bool" where
  "phys_inv s \<longleftrightarrow> phys_wf s \<and> card (free_set s) \<le> unat (free_pages s) \<and> slack s < 2 ^ 32 \<and>
     0 \<notin> free_set s"

lemma finite_free_set [simp]: "finite (free_set s)"
  by (simp add: free_set_def)

lemma card_free_set: "phys_wf s \<Longrightarrow> card (free_set s) \<le> 16384"
proof -
  assume "phys_wf s"
  have "free_set s \<subseteq> {..<page_limit s}" by (auto simp: free_set_def)
  then have "card (free_set s) \<le> page_limit s" using card_mono [of "{..<page_limit s}"] by simp
  then show ?thesis using phys_wfD [OF \<open>phys_wf s\<close>] by simp
qed

text \<open>The state that only differs in the bitmap and the counter.\<close>

lemma free_set_free_pages [simp]:
  "free_set (s\<lparr>page_bitmap := b, free_pages := n\<rparr>) = free_set (s\<lparr>page_bitmap := b\<rparr>)"
  "phys_wf (s\<lparr>page_bitmap := b, free_pages := n\<rparr>) = phys_wf (s\<lparr>page_bitmap := b\<rparr>)"
  "page_limit (s\<lparr>page_bitmap := b, free_pages := n\<rparr>) = page_limit (s\<lparr>page_bitmap := b\<rparr>)"
  by (simp_all add: free_set_def phys_wf_def page_limit_def)

lemma free_set_locked [simp]:
  "free_set (locked l s) = free_set s" "phys_wf (locked l s) = phys_wf s"
  "page_limit (locked l s) = page_limit s"
  by (simp_all add: free_set_def phys_wf_def page_limit_def)

lemma alloc_physical_page_cases:
  assumes inv: "phys_inv s" and free: "lock_free MemLock s" and n: "n \<noteq> 0"
  obtains (ok) k b where "alloc_physical_page n s =
        Some (K_SUCCESS, Some (word_of_nat k * PG_SIZE), s\<lparr>page_bitmap := b, free_pages := free_pages s - n\<rparr>)"
      "k + unat n \<le> page_limit s" "{k..<k + unat n} \<subseteq> free_set s"
      "phys_inv (s\<lparr>page_bitmap := b, free_pages := free_pages s - n\<rparr>)"
      "slack (s\<lparr>page_bitmap := b, free_pages := free_pages s - n\<rparr>) = slack s"
      "page_limit (s\<lparr>page_bitmap := b\<rparr>) = page_limit s"
      "free_set (s\<lparr>page_bitmap := b\<rparr>) = free_set s - {k..<k + unat n}"
  | (fail) r where "alloc_physical_page n s = Some (K_NOMEM, r, s)"
      "\<nexists>k. k + unat n \<le> page_limit s \<and> {k..<k + unat n} \<subseteq> free_set s"
proof (cases "free_pages s < n")
  case True
  have "card (free_set s) < unat n"
    using True inv by (simp add: phys_inv_def word_less_nat_alt)
  then have "\<not> {k..<k + unat n} \<subseteq> free_set s" for k
    using card_mono [of "free_set s" "{k..<k + unat n}"] by auto
  then show thesis using True n by (intro fail [of "Some NULL"]) (auto simp: alloc_physical_page_def)
next
  case False
  have wf: "phys_wf (locked MemLock s)" using inv by (simp add: phys_inv_def)
  note alloc = alloc_physical_page_def [of n s] spinlock_lock_free [OF free]
  show thesis
  proof (cases rule: alloc_sub_cases [OF wf n, case_names ok fail])
    case (ok k b)
    let ?s = "s\<lparr>page_bitmap := b, free_pages := free_pages s - n\<rparr>"
    have fs: "free_set (s\<lparr>page_bitmap := b\<rparr>) = free_set s - {k..<k + unat n}"
      using ok(6) by (simp add: free_set_def page_limit_def)
    have run: "{k..<k + unat n} \<subseteq> free_set s" using ok(3) by simp
    have card: "card (free_set s - {k..<k + unat n}) = card (free_set s) - unat n"
      using card_Diff_subset [OF _ run] by simp
    have fp: "unat (free_pages s - n) = unat (free_pages s) - unat n"
      using False by (intro unat_sub_no_wrap) simp
    have "unat n \<le> card (free_set s)" using card_mono [OF _ run] by simp
    then have sl: "slack ?s = slack s" using inv fs card fp by (simp add: slack_def phys_inv_def)
    moreover have "alloc_physical_page n s = Some (K_SUCCESS, Some (word_of_nat k * PG_SIZE), ?s)"
      using False n ok(1) free by (simp add: alloc spinlock_unlock_locked)
    moreover have "phys_wf (s\<lparr>page_bitmap := b\<rparr>)" using ok(4) by (simp add: phys_wf_def)
    moreover have "0 \<notin> free_set s" "card (free_set s) - unat n \<le> unat (free_pages s) - unat n"
        "slack s < 2 ^ 32"
      using inv by (auto simp: phys_inv_def)
    ultimately have "phys_inv ?s" "slack ?s = slack s"
        "alloc_physical_page n s = Some (K_SUCCESS, Some (word_of_nat k * PG_SIZE), ?s)"
      unfolding phys_inv_def using fs card fp by simp_all
    then show thesis
      using that(1) [of k b] ok(2,5) run fs by (simp add: page_limit_def)
  next
    case fail
    then show thesis
      using False n free that(2) [of None] by (simp add: alloc spinlock_unlock_locked)
  qed
qed

text \<open>C14: \<^verbatim>\<open>alloc_physical_page\<close> hands out pages that were free and only those: it
  succeeds exactly when a run of \<open>n\<close> free pages exists, returns the address of such a run,
  removes exactly it from the free pages, and leaves the lock and the preemption counter as they
  were; otherwise it returns \<^verbatim>\<open>K_NOMEM\<close> and changes nothing.\<close>

theorem alloc_physical_page_correct:
  assumes "phys_inv s" and "lock_free MemLock s" and "n \<noteq> 0"
  shows "\<exists>st r s'. alloc_physical_page n s = Some (st, r, s') \<and> phys_inv s' \<and> slack s' = slack s \<and>
    locks s' = locks s \<and> preempt_count s' = preempt_count s \<and>
    (if \<exists>k. k + unat n \<le> page_limit s \<and> {k..<k + unat n} \<subseteq> free_set s
     then st = K_SUCCESS \<and> (\<exists>k. r = Some (word_of_nat k * PG_SIZE) \<and>
        {k..<k + unat n} \<subseteq> free_set s \<and> free_set s' = free_set s - {k..<k + unat n})
     else st = K_NOMEM \<and> s' = s)"
  using assms(1)
  by (cases rule: alloc_physical_page_cases [OF assms]) auto

definition example_phys :: phys_state where
  "example_phys = \<lparr>locks = \<lambda>_. 1, preempt_count = \<lambda>_. 0, running_pid = 1,
     page_bitmap = \<lparr>btmp_bytes_len = 2, bmap = [0xe8, 0x01]\<rparr>,
     mem_size = 0x2000000, total_pages = 16, total_free_pages = 5, free_pages = 8\<rparr>"

lemma example_phys_free_set: "free_set example_phys = {3, 5, 6, 7, 8}"
proof -
  have "free_set example_phys = set (filter (bmbit (page_bitmap example_phys)) [0..<16])"
    by (auto simp: free_set_def page_limit_def example_phys_def)
  also have "[0..<16] = [0, 1, 2, 3, 4, 5, 6, 7, 8, 9, 10, 11, 12, 13, 14, 15 :: nat]"
    by (simp add: upt_rec)
  finally show ?thesis by (simp add: example_phys_def bmbit_def)
qed

lemma example_phys_limit: "page_limit example_phys = 16"
  by (simp add: page_limit_def example_phys_def)

lemma example_phys_inv: "phys_inv example_phys" "lock_free MemLock example_phys"
  unfolding phys_inv_def slack_def example_phys_free_set
  by (simp_all add: example_phys_def phys_wf_def bitmap_wf_def PAGE_BITMAP_BYTES_LEN_def lock_free_def)

lemma alloc_physical_page_correct_witness:
  "\<exists>st r s'. alloc_physical_page 3 example_phys = Some (st, r, s') \<and> phys_inv s' \<and>
    slack s' = slack example_phys \<and>
    locks s' = locks example_phys \<and> preempt_count s' = preempt_count example_phys \<and>
    (if \<exists>k. k + unat (3 :: u64) \<le> page_limit example_phys \<and>
        {k..<k + unat (3 :: u64)} \<subseteq> free_set example_phys
     then st = K_SUCCESS \<and> (\<exists>k. r = Some (word_of_nat k * PG_SIZE) \<and>
        {k..<k + unat (3 :: u64)} \<subseteq> free_set example_phys \<and>
        free_set s' = free_set example_phys - {k..<k + unat (3 :: u64)})
     else st = K_NOMEM \<and> s' = example_phys)"
  by (rule alloc_physical_page_correct [OF example_phys_inv]) simp

text \<open>The address of a page, and the page of an address.\<close>

definition page_addr :: "nat \<Rightarrow> addr" where
  "page_addr k = word_of_nat k * PG_SIZE"

lemma page_addr_props:
  assumes "k < 2 ^ 32"
  shows "unat (page_addr k) = k * 2097152" "page_addr k div PG_SIZE = word_of_nat k"
    "page_addr k AND 0x1fffff = 0" "page_addr k = NULL \<longleftrightarrow> k = 0"
proof -
  have k: "unat (word_of_nat k :: u64) = k" using assms by (intro unat_of_nat_lt) simp
  show u: "unat (page_addr k) = k * 2097152"
    using assms k by (simp add: page_addr_def PG_SIZE_def unat_word_ariths)
  then show "page_addr k = NULL \<longleftrightarrow> k = 0" by (metis mult_eq_0_iff unat_eq_zero zero_neq_numeral)
  have "unat (page_addr k div PG_SIZE) = k" using u by (simp add: unat_div PG_SIZE_def)
  then show "page_addr k div PG_SIZE = word_of_nat k" using k by (simp add: word_unat_eq_iff)
  have "(0x1fffff :: u64) = mask 21" by (simp add: mask_eq_exp_minus_1)
  then have "page_addr k AND 0x1fffff = take_bit 21 (page_addr k)"
    by (simp only: take_bit_eq_mask)
  moreover have "unat (take_bit 21 (page_addr k)) = 0"
    unfolding take_bit_eq_mod by (simp add: unat_mod u)
  ultimately show "page_addr k AND 0x1fffff = 0" by (simp only: unat_eq_zero)
qed

lemma free_physical_page_ok:
  assumes inv: "phys_inv s" and free: "lock_free MemLock s" and n: "n \<noteq> 0" and k: "0 < k"
    and lim: "k + unat n \<le> page_limit s" and alloc: "{k..<k + unat n} \<inter> free_set s = {}"
  obtains b where "free_physical_page (page_addr k) n s =
      Some (s\<lparr>page_bitmap := b, free_pages := free_pages s + n\<rparr>)"
    and "phys_inv (s\<lparr>page_bitmap := b, free_pages := free_pages s + n\<rparr>)"
    and "slack (s\<lparr>page_bitmap := b, free_pages := free_pages s + n\<rparr>) = slack s"
    and "page_limit (s\<lparr>page_bitmap := b\<rparr>) = page_limit s"
    and "free_set (s\<lparr>page_bitmap := b\<rparr>) = free_set s \<union> {k..<k + unat n}"
proof -
  have wf: "phys_wf s" and lt: "page_limit s \<le> 16384" using inv phys_wfD by (auto simp: phys_inv_def)
  have k32: "k < 2 ^ 32" using lim lt by simp
  note pa = page_addr_props [OF k32]
  have uk: "unat (word_of_nat k :: u64) = k" using k32 by (intro unat_of_nat_lt) simp
  have "unat (word_of_nat k + n) = k + unat n"
    using lim lt uk by (subst unat_add_no_wrap) simp_all
  moreover obtain b where b: "set_bits 1 k (k + unat n) (page_bitmap s) = Some b"
    using set_bits_wf [of "page_bitmap s" 1 k "k + unat n"] phys_wfD [OF wf] by auto
  ultimately have eq: "free_physical_page (page_addr k) n s =
      Some (s\<lparr>page_bitmap := b, free_pages := free_pages s + n\<rparr>)"
    using n k pa uk free
    by (simp add: free_physical_page_def spinlock_lock_free spinlock_unlock_locked Let_def)
  note fs = free_set_set_bits [OF b wf, simplified]
  have run: "{i. k \<le> i \<and> i < k + unat n \<and> i < page_limit s} = {k..<k + unat n}" using lim by auto
  have fs3: "free_set (s\<lparr>page_bitmap := b\<rparr>) = free_set s \<union> {k..<k + unat n}"
    using fs(3) run by simp
  have card: "card (free_set s \<union> {k..<k + unat n}) = card (free_set s) + unat n"
    using card_Un_disjoint [of "free_set s" "{k..<k + unat n}"] alloc by (auto simp: Int_commute)
  have "unat (free_pages s) \<le> card (free_set s) + slack s" by (simp add: slack_def)
  then have "unat (free_pages s + n) = unat (free_pages s) + unat n"
    using inv card_free_set [OF wf] lim lt by (intro unat_add_no_wrap) (simp add: phys_inv_def)
  then show thesis
    using eq fs fs3 inv k card by (intro that [of b]) (auto simp: slack_def phys_inv_def)
qed

text \<open>\<^verbatim>\<open>free_physical_page\<close> gives back the pages it is given: when they were allocated
  (not free, inside the bitmap, not page 0) they become free, no other page changes, and the counter
  keeps its distance to the number of free pages.\<close>

theorem free_physical_page_correct:
  assumes "phys_inv s" and "lock_free MemLock s" and "n \<noteq> 0" and "0 < k"
    and "k + unat n \<le> page_limit s" and "{k..<k + unat n} \<inter> free_set s = {}"
  shows "\<exists>s'. free_physical_page (page_addr k) n s = Some s' \<and> phys_inv s' \<and> slack s' = slack s \<and>
    locks s' = locks s \<and> preempt_count s' = preempt_count s \<and>
    free_set s' = free_set s \<union> {k..<k + unat n}"
  by (rule free_physical_page_ok [OF assms]) auto

lemma free_physical_page_correct_witness:
  "\<exists>s'. free_physical_page (page_addr 1) 2 example_phys = Some s' \<and> phys_inv s' \<and>
    slack s' = slack example_phys \<and> locks s' = locks example_phys \<and>
    preempt_count s' = preempt_count example_phys \<and>
    free_set s' = free_set example_phys \<union> {1..<1 + unat (2 :: u64)}"
  by (rule free_physical_page_correct [OF example_phys_inv])
     (auto simp: example_phys_free_set example_phys_limit)

subsection \<open>The contract of the page frames\<close>

text \<open>What the block allocator and the page tables rely on: single page frames.\<close>

locale page_frames =
  fixes inv :: "'s \<Rightarrow> bool"
    and avail :: "'s \<Rightarrow> nat set"
    and limit :: "'s \<Rightarrow> nat"
    and alloc :: "'s \<Rightarrow> (status_t \<times> addr option \<times> 's) option"
    and release :: "addr \<Rightarrow> 's \<Rightarrow> 's option"
  assumes alloc_some: "\<lbrakk>inv s; avail s \<noteq> {}\<rbrakk> \<Longrightarrow>
      \<exists>p s'. alloc s = Some (K_SUCCESS, Some (page_addr p), s') \<and> p \<in> avail s \<and> inv s' \<and>
        limit s' = limit s \<and> avail s' = avail s - {p}"
    and alloc_none: "\<lbrakk>inv s; avail s = {}\<rbrakk> \<Longrightarrow> \<exists>r. alloc s = Some (K_NOMEM, r, s)"
    and release_ok: "\<lbrakk>inv s; p \<notin> avail s; 0 < p; p < limit s\<rbrakk> \<Longrightarrow>
      \<exists>s'. release (page_addr p) s = Some s' \<and> inv s' \<and> limit s' = limit s \<and>
        avail s' = insert p (avail s)"
    and frames: "inv s \<Longrightarrow> avail s \<subseteq> {0<..<limit s} \<and> finite (avail s)"
begin

text \<open>Take \<open>n\<close> frames one by one.\<close>

fun take_frames :: "nat \<Rightarrow> 's \<Rightarrow> (addr list \<times> 's) option" where
  "take_frames 0 s = Some ([], s)"
| "take_frames (Suc n) s = (case alloc s of
     Some (K_SUCCESS, Some a, s') \<Rightarrow> map_option (\<lambda>(as, s''). (a # as, s'')) (take_frames n s')
   | _ \<Rightarrow> None)"

lemma take_frames_distinct:
  assumes "inv s" and "n \<le> card (avail s)"
  shows "\<exists>ps s'. take_frames n s = Some (List.map page_addr ps, s') \<and> length ps = n \<and> distinct ps \<and>
    set ps \<subseteq> avail s \<and> inv s' \<and> limit s' = limit s \<and> avail s' = avail s - set ps"
  using assms
proof (induction n arbitrary: s)
  case (Suc n)
  then have ne: "avail s \<noteq> {}" by auto
  obtain p s1 where p: "alloc s = Some (K_SUCCESS, Some (page_addr p), s1)" "p \<in> avail s" "inv s1"
      "limit s1 = limit s" "avail s1 = avail s - {p}"
    using alloc_some [OF Suc.prems(1) ne] by auto
  have "n \<le> card (avail s1)" using Suc.prems p frames [OF Suc.prems(1)] by simp
  then obtain ps s' where ps: "take_frames n s1 = Some (List.map page_addr ps, s')" "length ps = n"
      "distinct ps" "set ps \<subseteq> avail s1" "inv s'" "limit s' = limit s1" "avail s' = avail s1 - set ps"
    using Suc.IH [OF p(3)] by blast
  show ?case
    using p ps by (intro exI [of _ "p # ps"] exI [of _ s']) auto
qed auto

lemma release_all:
  assumes "inv s" and "distinct ps" and "set ps \<inter> avail s = {}" and "set ps \<subseteq> {0<..<limit s}"
  shows "\<exists>s'. fold_option release (List.map page_addr ps) s = Some s' \<and> inv s' \<and>
    limit s' = limit s \<and> avail s' = avail s \<union> set ps"
  using assms
proof (induction ps arbitrary: s)
  case (Cons p ps)
  obtain s1 where s1: "release (page_addr p) s = Some s1" "inv s1" "limit s1 = limit s"
      "avail s1 = insert p (avail s)"
    using release_ok [OF Cons.prems(1), of p] Cons.prems by auto
  then show ?case using Cons.IH [OF s1(2)] Cons.prems by auto
qed simp

end

interpretation pf: page_frames "\<lambda>s. phys_inv s \<and> lock_free MemLock s" free_set page_limit
  "alloc_physical_page 1" "\<lambda>a. free_physical_page a 1"
proof (unfold_locales, goal_cases)
  case (1 s)
  then obtain q where "q \<in> free_set s" by blast
  then have run: "q + unat (1 :: u64) \<le> page_limit s \<and> {q..<q + unat (1 :: u64)} \<subseteq> free_set s"
    by (auto simp: free_set_def)
  from 1 have s: "phys_inv s" "lock_free MemLock s" by auto
  show ?case
  proof (cases rule: alloc_physical_page_cases [OF s one_neq_zero, case_names ok fail])
    case (ok k b)
    let ?s = "s\<lparr>page_bitmap := b, free_pages := free_pages s - 1\<rparr>"
    have "alloc_physical_page 1 s = Some (K_SUCCESS, Some (page_addr k), ?s)"
      using ok(1) by (simp add: page_addr_def)
    moreover have "{k..<k + unat (1 :: u64)} = {k}" by auto
    then have "k \<in> free_set s" "free_set ?s = free_set s - {k}" "page_limit ?s = page_limit s"
      using ok(3,6,7) by simp_all
    moreover have "phys_inv ?s \<and> lock_free MemLock ?s" using ok(4) s(2) by simp
    ultimately show ?thesis by blast
  next
    case (fail r)
    then show ?thesis using run by blast
  qed
next
  case (2 s)
  then have s: "phys_inv s" "lock_free MemLock s" by auto
  show ?case
  proof (cases rule: alloc_physical_page_cases [OF s one_neq_zero, case_names ok fail])
    case (ok k b)
    then show ?thesis using 2 by auto
  qed auto
next
  case (3 s p)
  then have "phys_inv s" "lock_free MemLock s" by auto
  then obtain b where "free_physical_page (page_addr p) 1 s =
      Some (s\<lparr>page_bitmap := b, free_pages := free_pages s + 1\<rparr>)"
    "phys_inv (s\<lparr>page_bitmap := b, free_pages := free_pages s + 1\<rparr>)"
    "page_limit (s\<lparr>page_bitmap := b\<rparr>) = page_limit s"
    "free_set (s\<lparr>page_bitmap := b\<rparr>) = free_set s \<union> {p..<p + unat (1 :: u64)}"
    by (rule free_physical_page_ok [of s 1 p]) (use 3 in simp_all)
  then show ?case using 3 by auto
next
  case (4 s)
  then show ?case by (auto simp: phys_inv_def free_set_def intro: gr0I)
qed

text \<open>Frames taken one by one from \<^verbatim>\<open>alloc_physical_page\<close> are pairwise different as long
  as there are enough of them, and giving them back with \<^verbatim>\<open>free_physical_page\<close> makes the same
  set of frames free again.\<close>

theorem frames_distinct_and_returned:
  assumes "phys_inv s" and "lock_free MemLock s" and "n \<le> card (free_set s)"
  shows "\<exists>ps s1 s2. pf.take_frames n s = Some (List.map page_addr ps, s1) \<and> length ps = n \<and>
    distinct ps \<and> set ps \<subseteq> free_set s \<and> free_set s1 = free_set s - set ps \<and>
    fold_option (\<lambda>a. free_physical_page a 1) (List.map page_addr ps) s1 = Some s2 \<and>
    free_set s2 = free_set s"
proof -
  obtain ps s1 where ps: "pf.take_frames n s = Some (List.map page_addr ps, s1)" "length ps = n"
      "distinct ps" "set ps \<subseteq> free_set s" "phys_inv s1 \<and> lock_free MemLock s1"
      "page_limit s1 = page_limit s" "free_set s1 = free_set s - set ps"
    using pf.take_frames_distinct [of s n] assms by blast
  moreover have "set ps \<inter> free_set s1 = {}" "set ps \<subseteq> {0<..<page_limit s1}"
    using ps pf.frames [of s] assms by auto
  ultimately show ?thesis using pf.release_all [of s1 ps] by (auto simp: Un_absorb2)
qed

lemma frames_distinct_and_returned_witness:
  "\<exists>ps s1 s2. pf.take_frames 4 example_phys = Some (List.map page_addr ps, s1) \<and> length ps = 4 \<and>
    distinct ps \<and> set ps \<subseteq> free_set example_phys \<and> free_set s1 = free_set example_phys - set ps \<and>
    fold_option (\<lambda>a. free_physical_page a 1) (List.map page_addr ps) s1 = Some s2 \<and>
    free_set s2 = free_set example_phys"
  by (rule frames_distinct_and_returned [OF example_phys_inv]) (simp add: example_phys_free_set)

subsection \<open>Start-up\<close>

text \<open>The regions of usable memory, merged as the start-up code merges them.\<close>

function usable_regions :: "efi_desc list \<Rightarrow> (u64 \<times> u64) list" where
  "usable_regions [] = []"
| "usable_regions (d # ds) =
     (let ty = memory_type (efi_type d);
          (sz, en, rest) = absorb ty (desc_size d) (physical_start d + desc_size d) ds
      in (if ty = FREE_MEMORY then [(physical_start d, en)] else []) @ usable_regions rest)"
  by pat_completeness auto
termination
  by (relation "measure length") (auto dest!: absorb_rest [OF sym])

definition in_regions :: "(u64 \<times> u64) list \<Rightarrow> nat \<Rightarrow> bool" where
  "in_regions rs i \<longleftrightarrow> (\<exists>(a, e) \<in> set rs.
     unat (page_size_round_up a) \<le> i \<and> i < unat (page_size_round_down e))"

lemma add_region_spec:
  assumes "phys_wf s"
  shows "\<exists>s'. add_region ty start en sz s = Some s' \<and> phys_wf s' \<and> locks s' = locks s \<and>
    length (bmap (page_bitmap s')) = length (bmap (page_bitmap s)) \<and>
    page_limit s' = page_limit s \<and> free_set s' = free_set s \<union>
      {i. i < page_limit s \<and> in_regions (if ty = FREE_MEMORY then [(start, en)] else []) i}"
proof (cases "ty = FREE_MEMORY")
  case True
  define lo hi where "lo = unat (page_size_round_up start)" and "hi = unat (page_size_round_down en)"
  obtain b where b: "set_bits 1 lo hi (page_bitmap s) = Some b"
      "length (bmap b) = length (bmap (page_bitmap s))"
    using set_bits_wf [of "page_bitmap s" 1 lo hi] phys_wfD [OF assms] by auto
  note fs = free_set_set_bits [OF b(1) assms, simplified]
  obtain s1 where s1: "add_region ty start en sz s = Some s1" "page_bitmap s1 = b" "locks s1 = locks s"
    using True b(1) by (cases "page_size_round_up start < page_size_round_down en")
      (auto simp: add_region_def lo_def hi_def Let_def)
  have eq: "free_set s1 = free_set (s\<lparr>page_bitmap := b\<rparr>)" "phys_wf s1 = phys_wf (s\<lparr>page_bitmap := b\<rparr>)"
      "page_limit s1 = page_limit (s\<lparr>page_bitmap := b\<rparr>)"
    using s1(2) by (simp_all add: free_set_def phys_wf_def page_limit_def)
  then show ?thesis using s1 b(2) fs True by (auto simp: in_regions_def lo_def hi_def)
next
  case False
  then show ?thesis using assms by (simp add: add_region_def in_regions_def)
qed

lemma in_regions_append: "in_regions (xs @ ys) i \<longleftrightarrow> in_regions xs i \<or> in_regions ys i"
  by (auto simp: in_regions_def)

lemma mem_regions_spec:
  "phys_wf s \<Longrightarrow> \<exists>s'. mem_regions ds s = Some s' \<and> phys_wf s' \<and> locks s' = locks s \<and>
    length (bmap (page_bitmap s')) = length (bmap (page_bitmap s)) \<and>
    page_limit s' = page_limit s \<and>
    free_set s' = free_set s \<union> {i. i < page_limit s \<and> in_regions (usable_regions ds) i}"
proof (induction "length ds" arbitrary: ds s rule: less_induct)
  case less
  show ?case
  proof (cases ds)
    case Nil
    then show ?thesis using less.prems by (simp add: in_regions_def)
  next
    case (Cons d ds')
    define ty where "ty = memory_type (efi_type d)"
    obtain sz en rest where ab: "absorb ty (desc_size d) (physical_start d + desc_size d) ds' = (sz, en, rest)"
      by (cases "absorb ty (desc_size d) (physical_start d + desc_size d) ds'") auto
    have len: "length rest < length ds" using absorb_rest [OF ab] Cons by simp
    obtain s1 where s1: "add_region ty (physical_start d) en sz s = Some s1" "phys_wf s1"
        "locks s1 = locks s" "page_limit s1 = page_limit s"
        "length (bmap (page_bitmap s1)) = length (bmap (page_bitmap s))"
        "free_set s1 = free_set s \<union> {i. i < page_limit s \<and>
          in_regions (if ty = FREE_MEMORY then [(physical_start d, en)] else []) i}"
      using add_region_spec [OF less.prems, of ty "physical_start d" en sz] by blast
    obtain s2 where s2: "mem_regions rest s1 = Some s2" "phys_wf s2" "locks s2 = locks s1"
        "page_limit s2 = page_limit s1"
        "length (bmap (page_bitmap s2)) = length (bmap (page_bitmap s1))"
        "free_set s2 = free_set s1 \<union> {i. i < page_limit s1 \<and> in_regions (usable_regions rest) i}"
      using less.hyps [OF len s1(2)] by blast
    have "mem_regions ds s = Some s2"
      using Cons ab s1(1) s2(1) by (simp add: ty_def [symmetric])
    moreover have "usable_regions ds =
        (if ty = FREE_MEMORY then [(physical_start d, en)] else []) @ usable_regions rest"
      using Cons ab by (simp add: ty_def [symmetric])
    moreover have "free_set s2 = free_set s \<union>
        {i. i < page_limit s \<and> in_regions (usable_regions ds) i}"
      unfolding calculation(2) s2(6) s1(6) s1(4) in_regions_append by blast
    ultimately show ?thesis using s1(2-5) s2(2-5) by (intro exI [of _ s2]) simp
  qed
qed

text \<open>After \<^verbatim>\<open>mem_page_init\<close> the allocator is well formed, its lock is free, and
  a page is only ever free if it lies wholly inside a region of usable memory of the firmware's map
  and above the three pages the kernel occupies: the first allocations cannot hand out the kernel,
  firmware tables or memory that is not there.\<close>

theorem mem_page_init_sound:
  assumes "length (bmap (page_bitmap s)) = PAGE_BITMAP_BYTES_LEN"
  shows "\<exists>s'. mem_page_init descs s = Some s' \<and> phys_wf s' \<and> lock_free MemLock s' \<and>
    (\<forall>i \<in> free_set s'. 3 \<le> i \<and> in_regions (usable_regions descs) i)"
proof -
  define b0 where "b0 = \<lparr>btmp_bytes_len = PAGE_BITMAP_BYTES_LEN, bmap = bmap (page_bitmap s)\<rparr>"
  have "bitmap_wf b0" using assms by (simp add: b0_def bitmap_wf_def PAGE_BITMAP_BYTES_LEN_def)
  then obtain b1 where b1: "init_bitmap b0 = Some b1" "bitmap_wf b1"
      "btmp_bytes_len b1 = btmp_bytes_len b0" "\<And>j. j < btmp_bytes_len b0 * 8 \<Longrightarrow> \<not> bmbit b1 j"
    by (rule init_bitmap_wf [of b0]) blast
  then have len1: "PAGE_BITMAP_BYTES_LEN \<le> length (bmap b1)"
    by (simp add: bitmap_wf_def b0_def)
  define s1 where "s1 = init_spinlock MemLock (s\<lparr>mem_size := 0, total_pages := 0, free_pages := 0,
    page_bitmap := b1\<rparr>)"
  have s1: "phys_wf s1" "lock_free MemLock s1" "free_set s1 = {}"
    using b1 by (auto simp: s1_def init_spinlock_def phys_wf_def lock_free_def free_set_def
        page_limit_def b0_def)
  obtain s2 where s2: "mem_regions descs s1 = Some s2" "phys_wf s2" "locks s2 = locks s1"
      "free_set s2 = {i. i < page_limit s1 \<and> in_regions (usable_regions descs) i}"
      "length (bmap (page_bitmap s2)) = length (bmap (page_bitmap s1))"
      "page_limit s2 = page_limit s1"
    using mem_regions_spec [OF s1(1), of descs] s1(3) by auto
  define s3 where "s3 = (if unat (total_pages s2 div 8) \<le> PAGE_BITMAP_BYTES_LEN
    then s2\<lparr>page_bitmap := (page_bitmap s2)\<lparr>btmp_bytes_len := unat (total_pages s2 div 8)\<rparr>\<rparr> else s2)"
  have "PAGE_BITMAP_BYTES_LEN \<le> length (bmap (page_bitmap s2))"
    using s2(5) len1 by (simp add: s1_def init_spinlock_def)
  moreover have "btmp_bytes_len (page_bitmap s2) = PAGE_BITMAP_BYTES_LEN"
    using s2(6) b1(3) by (simp add: page_limit_def s1_def init_spinlock_def b0_def)
  ultimately have s3: "phys_wf s3" "free_set s3 \<subseteq> free_set s2" "locks s3 = locks s2"
    using s2(2) by (auto simp: s3_def phys_wf_def bitmap_wf_def free_set_def page_limit_def bmbit_def
        PAGE_BITMAP_BYTES_LEN_def)
  obtain b3 where b3: "set_bits 0 0 3 (page_bitmap s3) = Some b3"
    using set_bits_wf [of "page_bitmap s3" 0 0 3] phys_wfD [OF s3(1)] by auto
  note fs = free_set_set_bits [OF b3 s3(1), simplified]
  let ?s = "s3\<lparr>page_bitmap := b3, total_free_pages := total_free_pages s3 - 3\<rparr>"
  have "mem_page_init descs s = Some ?s"
    using b1(1) s2(1) b3
    by (simp add: mem_page_init_def b0_def [symmetric] s1_def [symmetric] s3_def [symmetric] Let_def)
  moreover have "free_set ?s = free_set s3 - {0..<3}" "phys_wf ?s"
    using fs by (simp_all add: free_set_def page_limit_def phys_wf_def)
  moreover have "lock_free MemLock ?s"
    using s1(2) s2(3) s3(3) by (simp add: lock_free_def)
  ultimately show ?thesis using s3(2) s2(4) by (intro exI [of _ ?s]) auto
qed

definition example_map :: "efi_desc list" where
  "example_map = [\<lparr>efi_type = 7, physical_start = 0, number_of_pages = 0x1000\<rparr>,
     \<lparr>efi_type = 4, physical_start = 0x1000000, number_of_pages = 0x1000\<rparr>,
     \<lparr>efi_type = 6, physical_start = 0x2000000, number_of_pages = 0x1000\<rparr>]"

definition boot_phys :: phys_state where
  "boot_phys = \<lparr>locks = \<lambda>_. 0, preempt_count = \<lambda>_. 0, running_pid = 0,
     page_bitmap = \<lparr>btmp_bytes_len = 0, bmap = replicate PAGE_BITMAP_BYTES_LEN 0\<rparr>,
     mem_size = 0, total_pages = 0, total_free_pages = 0, free_pages = 0\<rparr>"

lemma mem_page_init_sound_witness:
  "\<exists>s'. mem_page_init example_map boot_phys = Some s' \<and> phys_wf s' \<and> lock_free MemLock s' \<and>
    (\<forall>i \<in> free_set s'. 3 \<le> i \<and> in_regions (usable_regions example_map) i)"
  by (rule mem_page_init_sound) (simp add: boot_phys_def)

end
