(* ===== verification/KMalloc.thy ===== *)
theory KMalloc
  imports PhysPages
begin

text \<open>
  The block allocator of \<^verbatim>\<open>src/mem/allocator.c\<close>: thirteen groups of blocks of 64 bytes to
  256 KiB, each with a free list and a lock; a group grows by one 2 MiB page, whose first block holds
  the header (\<^verbatim>\<open>mem_cache_t\<close>), and a page whose blocks are all free goes back to the page
  allocator. Free lists are lists of block addresses (the theory of intrusive lists gives the link
  from nodes to such lists); headers and magic numbers are maps from addresses. Touching a header
  that is not there is a fault.
\<close>

definition KERNEL_VMA_BASE :: u64 where "KERNEL_VMA_BASE = 0xffff800000000000"

definition PHYS_TO_VIRT :: "addr \<Rightarrow> addr" where "PHYS_TO_VIRT a = a + KERNEL_VMA_BASE"
definition VIRT_TO_PHYS :: "addr \<Rightarrow> addr" where "VIRT_TO_PHYS a = a - KERNEL_VMA_BASE"

definition MIN_ALLOCATE_MEMORY_SIZE :: u64 where "MIN_ALLOCATE_MEMORY_SIZE = 64"
definition MAX_ALLOCATE_MEMORY_SIZE :: u64 where "MAX_ALLOCATE_MEMORY_SIZE = 262144"
definition NUMBER_OF_MEMORY_BLOCK_TYPES :: nat where "NUMBER_OF_MEMORY_BLOCK_TYPES = 13"

record mem_group =
  block_size :: u64
  total_free :: u32
  free_block_list :: "addr list"

record mem_cache =
  cgroup :: nat
  number_of_blocks :: u64
  cnt :: u64

record alloc_state = phys_state +
  mem_groups :: "mem_group list"
  caches :: "addr \<Rightarrow> mem_cache option"
  magic :: "addr \<Rightarrow> u64"

subsection \<open>The operations\<close>

fun init_groups :: "nat \<Rightarrow> u64 \<Rightarrow> 'a alloc_state_scheme \<Rightarrow> 'a alloc_state_scheme" where
  "init_groups 0 bs s = s"
| "init_groups (Suc n) bs s =
     (let i = NUMBER_OF_MEMORY_BLOCK_TYPES - Suc n;
          g = \<lparr>block_size = bs, total_free = 0, free_block_list = []\<rparr> in
      init_groups n (push_bit 1 bs)
        (init_spinlock (MemGroupLock i) (s\<lparr>mem_groups := (mem_groups s)[i := g]\<rparr>)))"

definition mem_allocator_init :: "'a alloc_state_scheme \<Rightarrow> 'a alloc_state_scheme" where
  "mem_allocator_init s = init_groups NUMBER_OF_MEMORY_BLOCK_TYPES MIN_ALLOCATE_MEMORY_SIZE s"

definition group :: "'a alloc_state_scheme \<Rightarrow> nat \<Rightarrow> mem_group option" where
  "group s i = (if i < length (mem_groups s) then Some (mem_groups s ! i) else None)"

definition upd_group ::
  "nat \<Rightarrow> (mem_group \<Rightarrow> mem_group) \<Rightarrow> 'a alloc_state_scheme \<Rightarrow> 'a alloc_state_scheme" where
  "upd_group i f s = s\<lparr>mem_groups := (mem_groups s)[i := f (mem_groups s ! i)]\<rparr>"

definition cache2block :: "'a alloc_state_scheme \<Rightarrow> addr \<Rightarrow> u64 \<Rightarrow> addr option" where
  "cache2block s c idx = do {
     ch \<leftarrow> caches s c;
     g \<leftarrow> group s (cgroup ch);
     let a = c + block_size g;
     Some (a + idx * block_size g) }"

definition block2cache :: "addr \<Rightarrow> addr" where
  "block2cache b = b AND NOT (PG_SIZE - 1)"

definition block_index :: "'a alloc_state_scheme \<Rightarrow> addr \<Rightarrow> addr \<Rightarrow> u64 option" where
  "block_index s c b = do {
     ch \<leftarrow> caches s c;
     g \<leftarrow> group s (cgroup ch);
     let a = b - (c + block_size g);
     Some (a div block_size g) }"

text \<open>The search of the free list: \<open>Some None\<close> when no block fits.\<close>

fun find_block_loop ::
  "'a alloc_state_scheme \<Rightarrow> u64 \<Rightarrow> u64 \<Rightarrow> u64 \<Rightarrow> addr list \<Rightarrow> addr option option" where
  "find_block_loop s sz al bd [] = Some None"
| "find_block_loop s sz al bd (b # bs) = do {
     let c = block2cache b;
     idx \<leftarrow> block_index s c b;
     ch \<leftarrow> caches s c;
     assert (magic s b = idx + number_of_blocks ch);
     if b AND (al - 1) \<noteq> 0 then find_block_loop s sz al bd bs
     else if bd \<noteq> 0 \<and> b div bd \<noteq> (b + sz - 1) div bd then find_block_loop s sz al bd bs
     else Some (Some b) }"

text \<open>The block found is unlinked from the group's list.\<close>

definition kmalloc_find_block ::
  "nat \<Rightarrow> u64 \<Rightarrow> u64 \<Rightarrow> u64 \<Rightarrow> 'a alloc_state_scheme \<Rightarrow> (addr option \<times> 'a alloc_state_scheme) option" where
  "kmalloc_find_block i sz al bd s = do {
     g \<leftarrow> group s i;
     assert (free_block_list g \<noteq> []);
     r \<leftarrow> (if al \<le> sz \<and> bd = 0 then Some (Some (hd (free_block_list g)))
           else find_block_loop s sz al bd (free_block_list g));
     case r of
       None \<Rightarrow> Some (None, s)
     | Some b \<Rightarrow> Some (Some b,
         upd_group i (\<lambda>g. g\<lparr>free_block_list := remove1 b (free_block_list g)\<rparr>) s) }"

fun select_group :: "mem_group list \<Rightarrow> u64 \<Rightarrow> nat \<Rightarrow> nat option" where
  "select_group [] sz i = None"
| "select_group (g # gs) sz i =
     (if sz \<le> block_size g then Some i else select_group gs sz (Suc i))"

text \<open>A fresh page becomes a cache of group \<open>i\<close>: clear it, write the header, link the blocks.\<close>

definition link_block :: "nat \<Rightarrow> addr \<Rightarrow> nat \<Rightarrow> 'a alloc_state_scheme \<Rightarrow> 'a alloc_state_scheme option" where
  "link_block i c k s = do {
     b \<leftarrow> cache2block s c (word_of_nat k);
     ch \<leftarrow> caches s c;
     let s = upd_group i (\<lambda>g. g\<lparr>free_block_list := free_block_list g @ [b]\<rparr>) s;
     Some (s\<lparr>magic := (magic s)(b := word_of_nat k + number_of_blocks ch)\<rparr>) }"

definition new_cache :: "nat \<Rightarrow> addr \<Rightarrow> 'a alloc_state_scheme \<Rightarrow> 'a alloc_state_scheme option" where
  "new_cache i paddr s = do {
     let c = PHYS_TO_VIRT paddr;
     let s = s\<lparr>magic := (\<lambda>a. if block2cache a = c then 0 else magic s a)\<rparr>;
     g \<leftarrow> group s i;
     let n = PG_SIZE div block_size g - 1;
     let s = s\<lparr>caches := (caches s)(c \<mapsto> \<lparr>cgroup = i, number_of_blocks = n, cnt = n\<rparr>)\<rparr>;
     let s = upd_group i (\<lambda>g. g\<lparr>total_free := total_free g + ucast n\<rparr>) s;
     fold_option (link_block i c) [0..<unat n] s }"

definition upd_cnt :: "addr \<Rightarrow> (u64 \<Rightarrow> u64) \<Rightarrow> 'a alloc_state_scheme \<Rightarrow> 'a alloc_state_scheme option" where
  "upd_cnt c f s = do {
     ch \<leftarrow> caches s c;
     Some (s\<lparr>caches := (caches s)(c \<mapsto> ch\<lparr>cnt := f (cnt ch)\<rparr>)\<rparr>) }"

text \<open>
  The result is the status, the value stored at \<^verbatim>\<open>addr\<close> and the state. The early return
  with \<^verbatim>\<open>K_NOT_FOUND\<close> leaves the group's lock held, as the code does. Clearing the block
  clears its magic number.
\<close>

definition kmalloc ::
  "u64 \<Rightarrow> u64 \<Rightarrow> u64 \<Rightarrow> 'a alloc_state_scheme \<Rightarrow> (status_t \<times> addr option \<times> 'a alloc_state_scheme) option" where
  "kmalloc sz alignment boundary s =
     (let alignment = (if alignment < sz then sz else alignment) in
      if sz > MAX_ALLOCATE_MEMORY_SIZE then Some (K_ERROR, None, s)
      else do {
        i \<leftarrow> select_group (mem_groups s) sz 0;
        s \<leftarrow> spinlock_lock (MemGroupLock i) s;
        g \<leftarrow> group s i;
        (status, s) \<leftarrow>
          (if free_block_list g = [] then do {
             (status, r, s) \<leftarrow> alloc_physical_page 1 s;
             if ERROR status then Some (status, s)
             else do {
               paddr \<leftarrow> r;
               s \<leftarrow> new_cache i paddr s;
               Some (status, s) } }
           else Some (K_SUCCESS, s));
        if ERROR status then Some (status, None, spinlock_unlock (MemGroupLock i) s)
        else do {
          (r, s) \<leftarrow> kmalloc_find_block i sz alignment boundary s;
          case r of
            None \<Rightarrow> Some (K_NOT_FOUND, None, s)
          | Some b \<Rightarrow> do {
              let s = s\<lparr>magic := (magic s)(b := 0)\<rparr>;
              let c = block2cache b;
              s \<leftarrow> upd_cnt c (\<lambda>n. n - 1) s;
              ch \<leftarrow> caches s c;
              let s = upd_group (cgroup ch) (\<lambda>g. g\<lparr>total_free := total_free g - 1\<rparr>) s;
              Some (status, Some b, spinlock_unlock (MemGroupLock i) s) } } })"

text \<open>Unlinking a block checks its magic number; a block that is not in the list cannot be
  unlinked.\<close>

definition unlink_block :: "nat \<Rightarrow> addr \<Rightarrow> nat \<Rightarrow> 'a alloc_state_scheme \<Rightarrow> 'a alloc_state_scheme option" where
  "unlink_block i c k s = do {
     b \<leftarrow> cache2block s c (word_of_nat k);
     ch \<leftarrow> caches s c;
     assert (magic s b = word_of_nat k + number_of_blocks ch);
     g \<leftarrow> group s i;
     assert (b \<in> set (free_block_list g));
     Some (upd_group i (\<lambda>g. g\<lparr>free_block_list := remove1 b (free_block_list g)\<rparr>) s) }"

text \<open>The header is given up with its page.\<close>

definition kfree :: "addr \<Rightarrow> 'a alloc_state_scheme \<Rightarrow> 'a alloc_state_scheme option" where
  "kfree a s =
     (if a = NULL then Some s
      else do {
        let c = block2cache a;
        ch \<leftarrow> caches s c;
        idx \<leftarrow> block_index s c a;
        let s = s\<lparr>magic := (magic s)(a := idx + number_of_blocks ch)\<rparr>;
        let i = cgroup ch;
        g \<leftarrow> group s i;
        assert (a AND (block_size g - 1) = 0);
        s \<leftarrow> spinlock_lock (MemGroupLock i) s;
        let s = upd_group i (\<lambda>g. g\<lparr>free_block_list := free_block_list g @ [a],
                                  total_free := total_free g + 1\<rparr>) s;
        s \<leftarrow> upd_cnt c (\<lambda>n. n + 1) s;
        ch \<leftarrow> caches s c;
        s \<leftarrow> (if cnt ch = number_of_blocks ch then do {
                s \<leftarrow> fold_option (unlink_block i c) [0..<unat (number_of_blocks ch)] s;
                let s = upd_group i (\<lambda>g. g\<lparr>total_free := total_free g - ucast (number_of_blocks ch)\<rparr>) s;
                s \<leftarrow> free_physical_page (VIRT_TO_PHYS c) 1 s;
                Some (s\<lparr>caches := (caches s)(c := None)\<rparr>) }
              else Some s);
        Some (spinlock_unlock (MemGroupLock i) s) })"

text \<open>\<^verbatim>\<open>mem_init\<close> of \<^verbatim>\<open>mem.c\<close>.\<close>

definition mem_init :: "efi_desc list \<Rightarrow> 'a alloc_state_scheme \<Rightarrow> 'a alloc_state_scheme option" where
  "mem_init descs s = map_option mem_allocator_init (mem_page_init descs s)"

subsection \<open>Addresses of blocks\<close>

definition vma :: nat where "vma = 0xffff800000000000"

definition cache_addr :: "nat \<Rightarrow> addr" where
  "cache_addr p = word_of_nat (vma + p * 2097152)"

definition bsz :: "nat \<Rightarrow> nat" where "bsz i = 64 * 2 ^ i"
definition nbn :: "nat \<Rightarrow> nat" where "nbn i = 2097152 div bsz i - 1"

definition blk :: "nat \<Rightarrow> nat \<Rightarrow> nat \<Rightarrow> addr" where
  "blk p i j = word_of_nat (vma + p * 2097152 + (j + 1) * bsz i)"

lemma bsz_bounds: "i < 13 \<Longrightarrow> 64 \<le> bsz i \<and> bsz i \<le> 262144 \<and> (nbn i + 1) * bsz i = 2097152 \<and> 7 \<le> nbn i \<and> nbn i \<le> 32767"
proof -
  assume "i < 13"
  then have "i = 0 \<or> i = 1 \<or> i = 2 \<or> i = 3 \<or> i = 4 \<or> i = 5 \<or> i = 6 \<or> i = 7 \<or> i = 8 \<or>
      i = 9 \<or> i = 10 \<or> i = 11 \<or> i = 12" by presburger
  then show ?thesis by (elim disjE) (simp_all add: bsz_def nbn_def)
qed

lemma blk_bound: "i < 13 \<Longrightarrow> j < nbn i \<Longrightarrow> (j + 1) * bsz i + bsz i \<le> 2097152"
proof -
  assume "i < 13" "j < nbn i"
  then have "(j + 1 + 1) * bsz i \<le> (nbn i + 1) * bsz i" by (intro mult_le_mono1) simp
  then show ?thesis using bsz_bounds [OF \<open>i < 13\<close>] by (simp add: algebra_simps)
qed

lemma unat_cache_addr: "p < 16384 \<Longrightarrow> unat (cache_addr p) = vma + p * 2097152"
  unfolding cache_addr_def by (rule unat_of_nat_lt) (simp add: vma_def)

lemma unat_blk:
  assumes "p < 16384" "i < 13" "j < nbn i"
  shows "unat (blk p i j) = vma + p * 2097152 + (j + 1) * bsz i"
  unfolding blk_def using blk_bound [OF assms(2,3)] assms(1)
  by (intro unat_of_nat_lt) (simp add: vma_def)

lemma unat_block2cache: "unat (block2cache b) = unat b div 2097152 * 2097152"
proof -
  have "PG_SIZE - 1 = (mask 21 :: u64)" by (simp add: PG_SIZE_def mask_eq_exp_minus_1)
  then have "block2cache b = b AND NOT (mask 21)" by (simp add: block2cache_def)
  also have "\<dots> = push_bit 21 (drop_bit 21 b)"
    by (rule bit_word_eqI) (auto simp: bit_simps)
  also have "\<dots> = b div 2097152 * 2097152"
    by (simp add: push_bit_eq_mult drop_bit_eq_div)
  finally have "unat (block2cache b) = (unat b div 2097152 * 2097152) mod 2 ^ 64"
    by (simp add: unat_word_ariths unat_div mod_simps)
  moreover have "unat b < 2 ^ LENGTH(64)" by (rule unsigned_less)
  then have "unat b div 2097152 * 2097152 < 2 ^ 64"
    by (intro le_less_trans [OF div_times_less_eq_dividend]) simp
  ultimately show ?thesis by simp
qed

lemma vma_pages: "vma = 8796025913344 * 2097152"
  by (simp add: vma_def)

lemma block2cache_blk:
  assumes "p < 16384" "i < 13" "j < nbn i"
  shows "block2cache (blk p i j) = cache_addr p"
proof -
  have "(j + 1) * bsz i < 2097152"
    using blk_bound [OF assms(2,3)] bsz_bounds [OF assms(2)] by linarith
  then have "(8796025913344 * 2097152 + p * 2097152 + (j + 1) * bsz i) div 2097152 = 8796025913344 + p"
    by (simp only: add_mult_distrib [symmetric] div_mult_self3)
  then have "unat (block2cache (blk p i j)) = unat (cache_addr p)"
    unfolding unat_block2cache unat_cache_addr [OF assms(1)] unat_blk [OF assms] vma_pages
    by (simp only: add_mult_distrib)
  then show ?thesis by (simp only: word_unat_eq_iff)
qed

lemma cache_addr_inj: "p < 16384 \<Longrightarrow> q < 16384 \<Longrightarrow> cache_addr p = cache_addr q \<longleftrightarrow> p = q"
  by (metis add_left_cancel mult_cancel2 unat_cache_addr zero_neq_numeral)

lemma blk_inj:
  assumes "p < 16384" "q < 16384" "i < 13" "j < nbn i" "k < nbn i"
  shows "blk p i j = blk q i k \<longleftrightarrow> p = q \<and> j = k"
proof
  assume eq: "blk p i j = blk q i k"
  then have "cache_addr p = cache_addr q"
    using block2cache_blk [of p i j] block2cache_blk [of q i k] assms by simp
  then have "p = q" using assms cache_addr_inj by simp
  have "(j + 1) * bsz i = (k + 1) * bsz i"
    using unat_blk [OF assms(1,3,4)] unat_blk [OF assms(2,3,5)]
    unfolding eq by (metis add_left_cancel \<open>p = q\<close>)
  moreover have "bsz i \<noteq> 0" using bsz_bounds [OF assms(3)] by simp
  ultimately have "j + 1 = k + 1" by (simp only: mult_cancel2) simp
  then have "j = k" by simp
  with \<open>p = q\<close> show "p = q \<and> j = k" ..
qed simp

lemma cache_addr_page: "cache_addr p = PHYS_TO_VIRT (page_addr p)"
  by (simp add: cache_addr_def PHYS_TO_VIRT_def page_addr_def PG_SIZE_def KERNEL_VMA_BASE_def vma_def)

lemma blk_words:
  "cache_addr p + word_of_nat (bsz i) + word_of_nat j * word_of_nat (bsz i) = blk p i j"
  by (simp add: cache_addr_def blk_def algebra_simps)

lemma blk_aligned:
  assumes "p < 16384" "i < 13" "j < nbn i"
  shows "blk p i j AND (word_of_nat (bsz i) - 1) = 0"
proof -
  have "bsz i = 2 ^ (i + 6)" by (simp add: bsz_def power_add)
  then have m: "(word_of_nat (bsz i) - 1 :: u64) = mask (i + 6)"
    by (simp add: mask_eq_exp_minus_1)
  have "bsz i dvd 2097152" using bsz_bounds [OF assms(2)] by (metis dvd_triv_right)
  moreover have "(2097152 :: nat) dvd vma" by (simp add: vma_def)
  ultimately have "bsz i dvd unat (blk p i j)"
    unfolding unat_blk [OF assms] by (intro dvd_add dvd_mult dvd_triv_right) (auto intro: dvd_trans)
  then have "unat (take_bit (i + 6) (blk p i j)) = 0"
    unfolding unsigned_take_bit_eq using \<open>bsz i = 2 ^ (i + 6)\<close> by (simp add: take_bit_eq_mod)
  then have "take_bit (i + 6) (blk p i j) = 0" by (simp only: unat_eq_zero)
  then show ?thesis unfolding m by (simp add: take_bit_eq_mask)
qed

subsection \<open>The invariant\<close>

text \<open>The free list of a group, and the number of blocks of a cache in it.\<close>

abbreviation bl :: "'a alloc_state_scheme \<Rightarrow> nat \<Rightarrow> addr list" where
  "bl s i \<equiv> free_block_list (mem_groups s ! i)"

definition free_in :: "'a alloc_state_scheme \<Rightarrow> nat \<Rightarrow> addr \<Rightarrow> nat" where
  "free_in s i c = length (filter (\<lambda>b. block2cache b = c) (bl s i))"

definition cache_wf :: "'a alloc_state_scheme \<Rightarrow> addr \<Rightarrow> mem_cache \<Rightarrow> bool" where
  "cache_wf s c ch \<longleftrightarrow> (\<exists>p. c = cache_addr p \<and> 0 < p \<and> p < page_limit s \<and> p \<notin> free_set s) \<and>
     cgroup ch < 13 \<and> number_of_blocks ch = word_of_nat (nbn (cgroup ch)) \<and>
     cnt ch = word_of_nat (free_in s (cgroup ch) c)"

text \<open>\<open>b\<close> is block \<open>j\<close> of a cache of group \<open>i\<close> on page \<open>p\<close>.\<close>

definition is_block :: "'a alloc_state_scheme \<Rightarrow> nat \<Rightarrow> addr \<Rightarrow> nat \<Rightarrow> nat \<Rightarrow> bool" where
  "is_block s i b p j \<longleftrightarrow> b = blk p i j \<and> j < nbn i \<and> p < 16384 \<and>
     (\<exists>ch. caches s (cache_addr p) = Some ch \<and> cgroup ch = i)"

definition free_list_wf :: "'a alloc_state_scheme \<Rightarrow> nat \<Rightarrow> bool" where
  "free_list_wf s i \<longleftrightarrow> block_size (mem_groups s ! i) = word_of_nat (bsz i) \<and> distinct (bl s i) \<and>
     total_free (mem_groups s ! i) = word_of_nat (length (bl s i)) \<and>
     (\<forall>b \<in> set (bl s i). \<exists>p j. is_block s i b p j \<and> magic s b = word_of_nat j + word_of_nat (nbn i))"

definition kinv :: "'a alloc_state_scheme \<Rightarrow> bool" where
  "kinv s \<longleftrightarrow> phys_inv s \<and> lock_free MemLock s \<and> length (mem_groups s) = 13 \<and>
     (\<forall>i < 13. free_list_wf s i) \<and> (\<forall>c ch. caches s c = Some ch \<longrightarrow> cache_wf s c ch)"

text \<open>The blocks in use: the blocks of all caches that are in no free list.\<close>

definition live :: "'a alloc_state_scheme \<Rightarrow> addr set" where
  "live s = {b. \<exists>i p j. i < 13 \<and> is_block s i b p j \<and> b \<notin> set (bl s i)}"

lemma kinvD:
  assumes "kinv s"
  shows "phys_inv s" "lock_free MemLock s" "length (mem_groups s) = 13"
    "\<And>i. i < 13 \<Longrightarrow> free_list_wf s i" "\<And>c ch. caches s c = Some ch \<Longrightarrow> cache_wf s c ch"
  using assms by (auto simp: kinv_def)

lemma phys_inv_updates [simp]:
  "free_set (s\<lparr>mem_groups := g\<rparr>) = free_set s" "free_set (s\<lparr>caches := h\<rparr>) = free_set s"
  "free_set (s\<lparr>magic := m\<rparr>) = free_set s"
  "page_limit (s\<lparr>mem_groups := g\<rparr>) = page_limit s" "page_limit (s\<lparr>caches := h\<rparr>) = page_limit s"
  "page_limit (s\<lparr>magic := m\<rparr>) = page_limit s"
  "phys_wf (s\<lparr>mem_groups := g\<rparr>) = phys_wf s" "phys_wf (s\<lparr>caches := h\<rparr>) = phys_wf s"
  "phys_wf (s\<lparr>magic := m\<rparr>) = phys_wf s"
  "lock_free l (s\<lparr>mem_groups := g\<rparr>) = lock_free l s" "lock_free l (s\<lparr>caches := h\<rparr>) = lock_free l s"
  "lock_free l (s\<lparr>magic := m\<rparr>) = lock_free l s"
  by (simp_all add: free_set_def page_limit_def phys_wf_def lock_free_def)

lemma phys_inv_updates2 [simp]:
  "phys_inv (s\<lparr>mem_groups := g\<rparr>) = phys_inv s" "phys_inv (s\<lparr>caches := h\<rparr>) = phys_inv s"
  "phys_inv (s\<lparr>magic := m\<rparr>) = phys_inv s"
  by (simp_all add: phys_inv_def slack_def)

lemma upd_group_simps [simp]:
  "caches (upd_group i f s) = caches s" "magic (upd_group i f s) = magic s"
  "locks (upd_group i f s) = locks s" "preempt_count (upd_group i f s) = preempt_count s"
  "running_pid (upd_group i f s) = running_pid s"
  "free_set (upd_group i f s) = free_set s" "page_limit (upd_group i f s) = page_limit s"
  "phys_inv (upd_group i f s) = phys_inv s" "lock_free l (upd_group i f s) = lock_free l s"
  "length (mem_groups (upd_group i f s)) = length (mem_groups s)"
  by (simp_all add: upd_group_def)

lemma upd_group_nth:
  "i < length (mem_groups s) \<Longrightarrow>
    mem_groups (upd_group i f s) ! k = (if k = i then f (mem_groups s ! i) else mem_groups s ! k)"
  by (simp add: upd_group_def)

text \<open>Holding another lock does not matter to the invariant.\<close>

lemma locked_alloc_simps [simp]:
  "mem_groups (locked l s) = mem_groups s" "caches (locked l s) = caches s"
  "magic (locked l s) = magic s" "running_pid (locked l s) = running_pid s"
  "mem_groups (spinlock_unlock l s) = mem_groups s" "caches (spinlock_unlock l s) = caches s"
  "magic (spinlock_unlock l s) = magic s" "running_pid (spinlock_unlock l s) = running_pid s"
  "page_bitmap (spinlock_unlock l s) = page_bitmap s" "free_pages (spinlock_unlock l s) = free_pages s"
  by (simp_all add: locked_def spinlock_unlock_def bump_preempt_def)

lemma phys_inv_cong:
  "page_bitmap s' = page_bitmap s \<Longrightarrow> free_pages s' = free_pages s \<Longrightarrow> phys_inv s' = phys_inv s"
  "page_bitmap s' = page_bitmap s \<Longrightarrow> free_set s' = free_set s"
  "page_bitmap s' = page_bitmap s \<Longrightarrow> page_limit s' = page_limit s"
  by (simp_all add: phys_inv_def phys_wf_def slack_def free_set_def page_limit_def)

lemma live_cong:
  "mem_groups s' = mem_groups s \<Longrightarrow> caches s' = caches s \<Longrightarrow> live s' = live s"
  by (simp add: is_block_def live_def)

lemma kinv_cong:
  assumes "page_bitmap s' = page_bitmap s" "free_pages s' = free_pages s"
    and "lock_free MemLock s' = lock_free MemLock s" "mem_groups s' = mem_groups s"
    and "caches s' = caches s" "magic s' = magic s"
  shows "kinv s' = kinv s"
  using assms phys_inv_cong(1) [OF assms(1,2)] phys_inv_cong(2,3) [OF assms(1)]
  by (simp add: kinv_def free_list_wf_def cache_wf_def free_in_def is_block_def)

lemma live_locked [simp]: "live (locked l s) = live s" "live (spinlock_unlock l s) = live s"
  by (rule live_cong; simp)+

lemma kinv_locked [simp]:
  "l \<noteq> MemLock \<Longrightarrow> kinv (locked l s) = kinv s"
  "l \<noteq> MemLock \<Longrightarrow> kinv (spinlock_unlock l s) = kinv s"
  by (rule kinv_cong; simp add: lock_free_def locked_def spinlock_unlock_def bump_preempt_def)+

lemma cache_page:
  assumes "kinv s" and "caches s (cache_addr p) = Some ch" and "p < 16384"
  shows "0 < p \<and> p < page_limit s \<and> p \<notin> free_set s"
proof -
  have "phys_wf s" using kinvD(1) [OF assms(1)] by (simp add: phys_inv_def)
  then have lim: "page_limit s \<le> 16384" using phys_wfD by blast
  obtain q where q: "cache_addr p = cache_addr q" "0 < q" "q < page_limit s" "q \<notin> free_set s"
    using kinvD(5) [OF assms(1,2)] by (auto simp: cache_wf_def)
  then have "p = q" using cache_addr_inj [OF assms(3), of q] lim by simp
  with q show ?thesis by simp
qed

lemma is_block_cache: "is_block s i b p j \<Longrightarrow> i < 13 \<Longrightarrow> block2cache b = cache_addr p"
  using block2cache_blk by (auto simp: is_block_def)

lemma is_block_unique:
  assumes "is_block s i b p j" and "is_block s k b q m" and "i < 13" and "k < 13"
  shows "k = i \<and> q = p \<and> m = j"
proof -
  have pq: "cache_addr p = cache_addr q"
    using is_block_cache [OF assms(1,3)] is_block_cache [OF assms(2,4)] by simp
  then have "p = q" using assms(1,2) cache_addr_inj by (auto simp: is_block_def)
  moreover from this have "i = k" using assms(1,2) by (auto simp: is_block_def)
  ultimately show ?thesis using assms blk_inj by (auto simp: is_block_def)
qed

subsection \<open>Searching and taking a block\<close>

lemma block_index_block:
  assumes "kinv s" and "is_block s i b p j" and "i < 13"
  shows "block_index s (cache_addr p) b = Some (word_of_nat j)"
proof -
  obtain ch where ch: "caches s (cache_addr p) = Some ch" "cgroup ch = i" and b: "b = blk p i j" "j < nbn i"
    using assms(2) by (auto simp: is_block_def)
  have bs: "block_size (mem_groups s ! i) = word_of_nat (bsz i)"
    using kinvD(4) [OF assms(1,3)] by (simp add: free_list_wf_def)
  have b0: "0 < bsz i" "bsz i < 2 ^ 64" "j * bsz i < 2 ^ 64" "j < 2 ^ 64"
    using bsz_bounds [OF assms(3)] blk_bound [OF assms(3) b(2)] b(2) by auto
  have "b - (cache_addr p + word_of_nat (bsz i)) = word_of_nat (j * bsz i)"
    by (simp add: b(1) blk_words [symmetric])
  moreover have "(word_of_nat (j * bsz i) :: u64) div word_of_nat (bsz i) = word_of_nat j"
  proof -
    have "unat ((word_of_nat (j * bsz i) :: u64) div word_of_nat (bsz i)) = j"
      using b0 unat_of_nat_lt [of "j * bsz i", where 'a = 64] unat_of_nat_lt [of "bsz i", where 'a = 64]
      by (simp only: unat_div) simp
    moreover have "unat (word_of_nat j :: u64) = j" using b0(4) by (intro unat_of_nat_lt) simp
    ultimately show ?thesis by (simp only: word_unat_eq_iff)
  qed
  ultimately show ?thesis
    using ch bs kinvD(3) [OF assms(1)] assms(3) by (simp add: block_index_def group_def Let_def)
qed

definition fits :: "u64 \<Rightarrow> u64 \<Rightarrow> u64 \<Rightarrow> addr \<Rightarrow> bool" where
  "fits sz al bd b \<longleftrightarrow> b AND (al - 1) = 0 \<and> (bd = 0 \<or> b div bd = (b + sz - 1) div bd)"

lemma find_block_loop_spec:
  assumes "kinv s" and "i < 13" and "set bs \<subseteq> set (bl s i)"
  shows "\<exists>r. find_block_loop s sz al bd bs = Some r \<and>
    (case r of None \<Rightarrow> \<forall>b \<in> set bs. \<not> fits sz al bd b
     | Some b \<Rightarrow> b \<in> set bs \<and> fits sz al bd b)"
  using assms(3)
proof (induction bs)
  case (Cons b bs)
  then have b: "b \<in> set (bl s i)" by simp
  obtain p j where blk: "is_block s i b p j" "magic s b = word_of_nat j + word_of_nat (nbn i)"
    using kinvD(4) [OF assms(1,2)] b by (auto simp: free_list_wf_def)
  have c: "block2cache b = cache_addr p" by (rule is_block_cache [OF blk(1) assms(2)])
  obtain ch where ch: "caches s (cache_addr p) = Some ch" "cgroup ch = i"
    using blk(1) by (auto simp: is_block_def)
  then have n: "number_of_blocks ch = word_of_nat (nbn i)"
    using kinvD(5) [OF assms(1)] by (auto simp: cache_wf_def)
  have "find_block_loop s sz al bd (b # bs) =
      (if fits sz al bd b then Some (Some b) else find_block_loop s sz al bd bs)"
    using block_index_block [OF assms(1) blk(1) assms(2)] ch n blk(2)
    by (simp add: c fits_def)
  then show ?case using Cons by (auto split: option.splits)
qed simp

text \<open>What \<^verbatim>\<open>kmalloc\<close> does with the block it found.\<close>

definition take_block :: "nat \<Rightarrow> addr \<Rightarrow> 'a alloc_state_scheme \<Rightarrow> 'a alloc_state_scheme option" where
  "take_block i b s = do {
     let s = upd_group i (\<lambda>g. g\<lparr>free_block_list := remove1 b (free_block_list g)\<rparr>) s;
     let s = s\<lparr>magic := (magic s)(b := 0)\<rparr>;
     s \<leftarrow> upd_cnt (block2cache b) (\<lambda>n. n - 1) s;
     ch \<leftarrow> caches s (block2cache b);
     Some (upd_group (cgroup ch) (\<lambda>g. g\<lparr>total_free := total_free g - 1\<rparr>) s) }"

text \<open>Changes that keep which blocks there are.\<close>

lemma is_block_same_groups:
  assumes "\<And>c. map_option cgroup (caches s' c) = map_option cgroup (caches s c)"
  shows "is_block s' i b p j = is_block s i b p j"
  using assms [of "cache_addr p"] by (auto simp: is_block_def map_option_case split: option.splits)

lemma word_of_nat_minus_1: "0 < n \<Longrightarrow> word_of_nat n - 1 = word_of_nat (n - 1)"
  by (simp add: of_nat_diff)

lemma take_block_spec:
  assumes inv: "kinv s" and i: "i < 13" and b: "b \<in> set (bl s i)"
  obtains s' where "take_block i b s = Some s'" and "kinv s'" and "live s' = insert b (live s)"
    and "b \<notin> live s" and "locks s' = locks s" and "preempt_count s' = preempt_count s"
    and "running_pid s' = running_pid s" and "free_set s' = free_set s"
    and "\<exists>p j. is_block s' i b p j"
proof -
  note K = kinvD [OF inv]
  have len: "i < length (mem_groups s)" using K(3) i by simp
  note fl = K(4) [OF i, unfolded free_list_wf_def]
  obtain p j where blk: "is_block s i b p j" using fl b by blast
  define c where "c = cache_addr p"
  have c: "block2cache b = c" using is_block_cache [OF blk i] by (simp add: c_def)
  obtain ch where ch: "caches s c = Some ch" "cgroup ch = i" using blk by (auto simp: is_block_def c_def)
  let ?g = "\<lambda>g. g\<lparr>free_block_list := remove1 b (free_block_list g), total_free := total_free g - 1\<rparr>"
  define t where "t = s\<lparr>mem_groups := (mem_groups s)[i := ?g (mem_groups s ! i)],
    magic := (magic s)(b := 0), caches := (caches s)(c \<mapsto> ch\<lparr>cnt := cnt ch - 1\<rparr>)\<rparr>"
  have eq: "take_block i b s = Some t"
    using ch len by (simp add: take_block_def c upd_cnt_def upd_group_def Let_def t_def)
  have t: "mem_groups t ! k = (if k = i then ?g (mem_groups s ! i) else mem_groups s ! k)"
      "magic t = (magic s)(b := 0)" "caches t = (caches s)(c \<mapsto> ch\<lparr>cnt := cnt ch - 1\<rparr>)"
      "length (mem_groups t) = length (mem_groups s)" "phys_inv t = phys_inv s"
      "lock_free l t = lock_free l s" "locks t = locks s" "preempt_count t = preempt_count s"
      "running_pid t = running_pid s" "free_set t = free_set s" "page_limit t = page_limit s" for k l
    using len by (simp_all add: t_def)
  have same: "is_block t k d q m = is_block s k d q m" for k d q m
    using ch by (intro is_block_same_groups) (auto simp: t(3))
  have bl': "bl t k = (if k = i then remove1 b (bl s i) else bl s k)" for k
    by (simp add: t(1))
  have pos: "0 < length (bl s i)" using b by (cases "bl s i") auto
  have notin: "b \<notin> set (bl s k)" if "k < 13" "k \<noteq> i" for k
  proof
    assume "b \<in> set (bl s k)"
    moreover have "free_list_wf s k" using K(4) that(1) .
    ultimately obtain q m where "is_block s k b q m" by (auto simp: free_list_wf_def)
    from is_block_unique [OF blk this i that(1)] that(2) show False by simp
  qed
  have fw: "free_list_wf t k" if "k < 13" for k
  proof (cases "k = i")
    case True
    have "total_free (mem_groups s ! i) - 1 = word_of_nat (length (remove1 b (bl s i)))"
      using fl pos b by (simp add: word_of_nat_minus_1 length_remove1)
    then show ?thesis
      using fl True by (auto simp: free_list_wf_def same t(1,2))
  next
    case False
    then show ?thesis using K(4) [OF that] notin [OF that False]
      by (auto simp: free_list_wf_def same t(1,2))
  qed
  have fin: "free_in t k d = (if k = i \<and> d = c then free_in s i c - 1 else free_in s k d)" for k d
  proof (cases "k = i")
    case True
    then show ?thesis using c b
      by (simp add: free_in_def bl' filter_remove1 length_remove1)
  qed (simp add: free_in_def bl')
  have posc: "0 < free_in s i c"
    using b c by (auto simp: free_in_def filter_empty_conv)
  have cw: "cache_wf t d dh" if d: "caches t d = Some dh" for d dh
  proof (cases "d = c")
    case True
    then have dh: "dh = ch\<lparr>cnt := cnt ch - 1\<rparr>" using d by (simp add: t(3))
    have w: "cache_wf s c ch" using K(5) ch(1) .
    then have "cnt ch - 1 = word_of_nat (free_in s i c - 1)"
      using posc ch(2) word_of_nat_minus_1 [of "free_in s i c", where 'a = 64]
      unfolding cache_wf_def by (elim conjE) (simp only:)
    then have "cnt dh = word_of_nat (free_in t (cgroup dh) c)" using ch(2) by (simp add: dh fin)
    with w show ?thesis unfolding True cache_wf_def t(10,11) by (simp add: dh)
  next
    case False
    then have "cache_wf s d dh" using d K(5) by (simp add: t(3))
    then show ?thesis unfolding cache_wf_def fin t(10,11) using False by simp
  qed
  have "kinv t"
    unfolding kinv_def t(4-6) using fw cw K(1,2,3) by blast
  moreover have "live t = insert b (live s)"
  proof -
    have "x \<in> live t \<longleftrightarrow> x = b \<or> x \<in> live s" for x
    proof (cases "x = b")
      case True
      have "b \<notin> set (remove1 b (bl s i))" using fl by simp
      then have "x \<in> live t" unfolding live_def same True using i blk bl'
        by (intro CollectI exI [of _ i] exI [of _ p] exI [of _ j]) auto
      then show ?thesis using True by simp
    next
      case False
      then have "x \<in> set (bl t k) \<longleftrightarrow> x \<in> set (bl s k)" for k
        by (simp add: bl')
      then show ?thesis using False unfolding live_def same by simp
    qed
    then show ?thesis by blast
  qed
  moreover have "b \<notin> live s"
  proof
    assume "b \<in> live s"
    then obtain k q m where "k < 13" "is_block s k b q m" "b \<notin> set (bl s k)" by (auto simp: live_def)
    then show False using is_block_unique [OF blk _ i] b by blast
  qed
  moreover have "\<exists>p j. is_block t i b p j" using same blk by blast
  ultimately show thesis using eq by (intro that [of t]) (simp_all add: t)
qed

subsection \<open>A new cache\<close>

text \<open>Taking the page from the page allocator does not disturb the caches.\<close>

lemma kinv_alloc_page:
  assumes inv: "kinv s" and s': "phys_inv s'" "locks s' = locks s" "page_limit s' = page_limit s"
    "free_set s' \<subseteq> free_set s" "mem_groups s' = mem_groups s" "caches s' = caches s" "magic s' = magic s"
  shows "kinv s'" "live s' = live s"
proof -
  have "free_list_wf s' i = free_list_wf s i" for i
    by (simp add: free_list_wf_def is_block_def s')
  moreover have "cache_wf s c ch \<Longrightarrow> cache_wf s' c ch" for c ch
    unfolding cache_wf_def free_in_def s' using s'(4) by blast
  moreover have "lock_free MemLock s'" using kinvD(2) [OF inv] by (simp add: lock_free_def s')
  ultimately show "kinv s'" using inv s'(1) by (simp add: kinv_def s')
  show "live s' = live s" using s' by (intro live_cong) auto
qed

text \<open>The state while the blocks of a new cache are linked.\<close>

primrec linked_magic :: "nat \<Rightarrow> nat \<Rightarrow> (addr \<Rightarrow> u64) \<Rightarrow> nat \<Rightarrow> addr \<Rightarrow> u64" where
  "linked_magic i p m 0 = (\<lambda>a. if block2cache a = cache_addr p then 0 else m a)"
| "linked_magic i p m (Suc n) =
     (linked_magic i p m n)(blk p i n := word_of_nat n + word_of_nat (nbn i))"

lemma linked_magic_block:
  assumes "p < 16384" "i < 13" "j < n"
  shows "n \<le> nbn i \<Longrightarrow> linked_magic i p m n (blk p i j) = word_of_nat j + word_of_nat (nbn i)"
  using assms(3)
proof (induction n)
  case (Suc n)
  then show ?case using blk_inj [OF assms(1,1,2), of j n] by (cases "j = n") auto
qed simp

lemma linked_magic_other:
  assumes "p < 16384" "i < 13" "block2cache a \<noteq> cache_addr p"
  shows "n \<le> nbn i \<Longrightarrow> linked_magic i p m n a = m a"
proof (induction n)
  case (Suc n)
  then have "a \<noteq> blk p i n" using block2cache_blk [OF assms(1,2), of n] assms(3) by auto
  then show ?case using Suc by simp
qed (use assms(3) in simp)

definition linking :: "nat \<Rightarrow> nat \<Rightarrow> nat \<Rightarrow> 'a alloc_state_scheme \<Rightarrow> 'a alloc_state_scheme" where
  "linking i p n s =
     s\<lparr>magic := linked_magic i p (magic s) n,
       caches := (caches s)(cache_addr p \<mapsto>
         \<lparr>cgroup = i, number_of_blocks = word_of_nat (nbn i), cnt = word_of_nat (nbn i)\<rparr>),
       mem_groups := (mem_groups s)[i := (mem_groups s ! i)
         \<lparr>total_free := total_free (mem_groups s ! i) + word_of_nat (nbn i),
          free_block_list := bl s i @ List.map (blk p i) [0..<n]\<rparr>]\<rparr>"

lemma linking_fold:
  assumes i: "i < 13" "i < length (mem_groups s)" and bs: "block_size (mem_groups s ! i) = word_of_nat (bsz i)"
  shows "n \<le> nbn i \<Longrightarrow>
    fold_option (link_block i (cache_addr p)) [0..<n] (linking i p 0 s) = Some (linking i p n s)"
proof (induction n)
  case (Suc n)
  have "cache2block (linking i p n s) (cache_addr p) (word_of_nat n) = Some (blk p i n)"
    using i bs by (simp add: cache2block_def linking_def group_def blk_words)
  then have "link_block i (cache_addr p) n (linking i p n s) = Some (linking i p (Suc n) s)"
    using i by (simp add: link_block_def Let_def upd_group_def linking_def)
  then show ?case using Suc by simp
qed simp

lemma new_cache_linking:
  assumes inv: "kinv s" and i: "i < 13"
  shows "new_cache i (page_addr p) s = Some (linking i p (nbn i) s)"
proof -
  have len: "i < length (mem_groups s)" and fl: "block_size (mem_groups s ! i) = word_of_nat (bsz i)"
    using kinvD(3,4) [OF inv] i by (auto simp: free_list_wf_def)
  note bb = bsz_bounds [OF i]
  have "unat (PG_SIZE div word_of_nat (bsz i) - 1) = nbn i"
  proof -
    have "unat (PG_SIZE div word_of_nat (bsz i)) = 2097152 div bsz i"
      using bb unat_of_nat_lt [of "bsz i", where 'a = 64] by (simp add: unat_div PG_SIZE_def)
    moreover have "7 \<le> nbn i" using bb by simp
    then have "1 \<le> 2097152 div bsz i" unfolding nbn_def by linarith
    moreover have "(1 :: u64) \<le> PG_SIZE div word_of_nat (bsz i)"
      using calculation by (simp add: word_le_nat_alt)
    ultimately show ?thesis by (simp add: unat_sub_no_wrap nbn_def)
  qed
  moreover have "word_of_nat (unat x) = x" for x :: u64 by simp
  ultimately have n: "PG_SIZE div word_of_nat (bsz i) - 1 = (word_of_nat (nbn i) :: u64)"
      "unat (word_of_nat (nbn i) :: u64) = nbn i"
    by metis+
  have uc: "ucast (word_of_nat (nbn i) :: u64) = (word_of_nat (nbn i) :: u32)"
    by transfer (simp add: take_bit_take_bit)
  show ?thesis
    using linking_fold [OF i len fl, of "nbn i" p] len fl n uc
    by (simp add: new_cache_def Let_def group_def upd_group_def linking_def cache_addr_page [symmetric])
qed

lemma new_cache_spec:
  assumes inv: "kinv s" and i: "i < 13" and p: "0 < p" "p < page_limit s" "p \<notin> free_set s"
    and fresh: "caches s (cache_addr p) = None"
  obtains s' where "new_cache i (page_addr p) s = Some s'" and "kinv s'" and "live s' = live s"
    and "bl s' i \<noteq> []" and "locks s' = locks s" and "preempt_count s' = preempt_count s"
    and "running_pid s' = running_pid s" and "free_set s' = free_set s"
proof -
  note K = kinvD [OF inv]
  have len: "i < length (mem_groups s)" using K(3) i by simp
  have "phys_wf s" using K(1) by (simp add: phys_inv_def)
  then have pl: "p < 16384" using phys_wfD p(2) by (meson order_less_le_trans)
  define t where "t = linking i p (nbn i) s"
  have t: "bl t k = (if k = i then bl s i @ List.map (blk p i) [0..<nbn i] else bl s k)"
      "block_size (mem_groups t ! k) = block_size (mem_groups s ! k)"
      "total_free (mem_groups t ! k) =
        (if k = i then total_free (mem_groups s ! i) + word_of_nat (nbn i) else total_free (mem_groups s ! k))"
      "magic t = linked_magic i p (magic s) (nbn i)"
      "caches t = (caches s)(cache_addr p \<mapsto>
         \<lparr>cgroup = i, number_of_blocks = word_of_nat (nbn i), cnt = word_of_nat (nbn i)\<rparr>)"
      "length (mem_groups t) = length (mem_groups s)" "phys_inv t = phys_inv s"
      "lock_free l t = lock_free l s" "locks t = locks s" "preempt_count t = preempt_count s"
      "running_pid t = running_pid s" "free_set t = free_set s" "page_limit t = page_limit s" for k l
    using len by (simp_all add: t_def linking_def nth_list_update)
  have other: "q \<noteq> p" if "is_block s k b q m" for k b q m
    using that fresh by (auto simp: is_block_def)
  have isb: "is_block t k b q m \<longleftrightarrow> is_block s k b q m \<or>
      (k = i \<and> q = p \<and> b = blk p i m \<and> m < nbn i)" for k b q m
  proof (cases "q = p")
    case True
    then show ?thesis using fresh pl by (auto simp: is_block_def t(5))
  next
    case False
    then have "q < 16384 \<Longrightarrow> cache_addr q \<noteq> cache_addr p" using cache_addr_inj pl by simp
    then show ?thesis using False by (auto simp: is_block_def t(5))
  qed
  have mg: "magic t b = magic s b" if "is_block s k b q m" "k < 13" for k b q m
  proof -
    have "cache_addr q \<noteq> cache_addr p" using that other cache_addr_inj pl by (auto simp: is_block_def)
    then have "block2cache b \<noteq> cache_addr p" using is_block_cache [OF that] by simp
    then show ?thesis using linked_magic_other [OF pl i] by (simp add: t(4))
  qed
  have fl: "free_list_wf t k" if k: "k < 13" for k
  proof -
    have fk: "free_list_wf s k" using K(4) k .
    have old: "\<exists>q m. is_block t k b q m \<and> magic t b = word_of_nat m + word_of_nat (nbn k)"
      if "b \<in> set (bl s k)" for b
    proof -
      obtain q m where "is_block s k b q m" "magic s b = word_of_nat m + word_of_nat (nbn k)"
        using fk \<open>b \<in> set (bl s k)\<close> by (auto simp: free_list_wf_def)
      then show ?thesis using mg [OF _ k] isb by metis
    qed
    show ?thesis
    proof (cases "k = i")
      case True
      have dist: "distinct (List.map (blk p i) [0..<nbn i])"
        using blk_inj [OF pl pl i] by (auto simp: distinct_map inj_on_def)
      moreover have "set (bl s i) \<inter> set (List.map (blk p i) [0..<nbn i]) = {}"
      proof -
        have no: False if "b \<in> set (bl s i)" "b = blk p i m" "m < nbn i" for b m
        proof -
          obtain q n where ib: "is_block s i b q n"
            using fk True \<open>b \<in> set (bl s i)\<close> by (auto simp: free_list_wf_def)
          have "cache_addr q = cache_addr p"
            using is_block_cache [OF ib i] block2cache_blk [OF pl i that(3)] that(2) by simp
          then show False using ib other cache_addr_inj pl by (metis is_block_def)
        qed
        show ?thesis using no [OF _ refl] by auto
      qed
      moreover have "\<exists>q m. is_block t i b q m \<and> magic t b = word_of_nat m + word_of_nat (nbn i)"
        if "b \<in> set (List.map (blk p i) [0..<nbn i])" for b
      proof -
        obtain m where "m < nbn i" "b = blk p i m"
          using \<open>b \<in> set (List.map (blk p i) [0..<nbn i])\<close> by auto
        then show ?thesis using isb linked_magic_block [OF pl i, of m "nbn i"] by (auto simp: t(4))
      qed
      ultimately show ?thesis
        using fk old True unfolding free_list_wf_def t(1-3) by auto
    next
      case False
      then show ?thesis using fk old unfolding free_list_wf_def t(1-3) by auto
    qed
  qed
  have cw: "cache_wf t d dh" if d: "caches t d = Some dh" for d dh
  proof (cases "d = cache_addr p")
    case True
    have none: "filter (\<lambda>b. block2cache b = cache_addr p) (bl s i) = []"
    proof -
      have "block2cache b \<noteq> cache_addr p" if "b \<in> set (bl s i)" for b
      proof -
        have "free_list_wf s i" using K(4) i .
        then obtain q m where "is_block s i b q m"
          using \<open>b \<in> set (bl s i)\<close> by (auto simp: free_list_wf_def)
        then show ?thesis using is_block_cache [OF _ i] other cache_addr_inj pl by (metis is_block_def)
      qed
      then show ?thesis by (simp add: filter_empty_conv)
    qed
    have all: "filter (\<lambda>b. block2cache b = cache_addr p) (List.map (blk p i) [0..<nbn i]) =
        List.map (blk p i) [0..<nbn i]"
      using block2cache_blk [OF pl i] by (auto simp: filter_id_conv)
    have "free_in t i (cache_addr p) = nbn i"
      unfolding free_in_def t(1) by (simp add: none all del: filter_map)
    then show ?thesis using d True p i by (auto simp: cache_wf_def t(5,12,13))
  next
    case False
    then have d': "caches s d = Some dh" using d by (simp add: t(5))
    have "filter (\<lambda>b. block2cache b = d) (List.map (blk p i) [0..<nbn i]) = []"
      using block2cache_blk [OF pl i] False by (auto simp: filter_empty_conv)
    then have "free_in t k d = free_in s k d" for k
      by (simp add: free_in_def t(1) del: filter_map)
    then show ?thesis using K(5) [OF d'] by (simp add: cache_wf_def t(12,13))
  qed
  have "kinv t" unfolding kinv_def t(6-8) using fl cw K(1-3) by blast
  moreover have "live t = live s"
  proof -
    have nb: "blk p i m \<in> set (bl t i)" if "m < nbn i" for m using that by (simp add: t(1))
    have same: "b \<in> set (bl t k) \<longleftrightarrow> b \<in> set (bl s k)" if "is_block s k b q m" "k < 13" for k b q m
    proof -
      have "b \<noteq> blk p i n" if "n < nbn i" for n
        using is_block_cache [OF \<open>is_block s k b q m\<close> \<open>k < 13\<close>] block2cache_blk [OF pl i that]
          other [OF \<open>is_block s k b q m\<close>] cache_addr_inj [of q p] pl \<open>is_block s k b q m\<close>
        by (auto simp: is_block_def)
      then have "b \<notin> blk p i ` {0..<nbn i}" by (metis atLeastLessThan_iff imageE)
      then show ?thesis by (simp add: t(1))
    qed
    show ?thesis
    proof (intro set_eqI iffI)
      fix x assume "x \<in> live t"
      then obtain k q m where x: "k < 13" "x \<notin> set (bl t k)"
          "is_block s k x q m \<or> (k = i \<and> q = p \<and> x = blk p i m \<and> m < nbn i)"
        unfolding live_def isb by blast
      then have "is_block s k x q m" using nb by blast
      with x(1,2) same show "x \<in> live s" unfolding live_def by blast
    next
      fix x assume "x \<in> live s"
      then obtain k q m where "k < 13" "x \<notin> set (bl s k)" "is_block s k x q m"
        unfolding live_def by blast
      with same isb show "x \<in> live t" unfolding live_def by blast
    qed
  qed
  moreover have "bl t i \<noteq> []" using bsz_bounds [OF i] by (simp add: t(1))
  ultimately show thesis
    using new_cache_linking [OF inv i, of p] by (intro that [of t]) (simp_all add: t t_def [symmetric])
qed

subsection \<open>Allocation\<close>

lemma find_block_spec:
  assumes inv: "kinv s" and i: "i < 13" and ne: "bl s i \<noteq> []"
  obtains (found) b where "b \<in> set (bl s i)" "(al \<le> sz \<and> bd = 0) \<or> fits sz al bd b"
      "kmalloc_find_block i sz al bd s = Some (Some b,
         upd_group i (\<lambda>g. g\<lparr>free_block_list := remove1 b (free_block_list g)\<rparr>) s)"
  | (none) "kmalloc_find_block i sz al bd s = Some (None, s)"
      "\<forall>b \<in> set (bl s i). \<not> fits sz al bd b" "\<not> (al \<le> sz \<and> bd = 0)"
proof -
  have g: "group s i = Some (mem_groups s ! i)" using kinvD(3) [OF inv] i by (simp add: group_def)
  show thesis
  proof (cases "al \<le> sz \<and> bd = 0")
    case True
    then show thesis using g ne by (intro found [of "hd (bl s i)"]) (auto simp: kmalloc_find_block_def)
  next
    case False
    obtain r where r: "find_block_loop s sz al bd (bl s i) = Some r"
        "case r of None \<Rightarrow> \<forall>b \<in> set (bl s i). \<not> fits sz al bd b
         | Some b \<Rightarrow> b \<in> set (bl s i) \<and> fits sz al bd b"
      using find_block_loop_spec [OF inv i, of "bl s i" sz al bd] by auto
    show thesis
    proof (cases r)
      case None
      then show thesis using r g ne False by (intro none) (auto simp: kmalloc_find_block_def)
    next
      case (Some b)
      then show thesis using r g ne False by (intro found [of b]) (auto simp: kmalloc_find_block_def)
    qed
  qed
qed

lemma select_group_Some:
  assumes "j < length gs" and "sz \<le> block_size (gs ! j)"
  shows "\<exists>k \<le> j. select_group gs sz i = Some (i + k) \<and> sz \<le> block_size (gs ! k)"
  using assms
proof (induction gs arbitrary: i j)
  case (Cons g gs)
  show ?case
  proof (cases "sz \<le> block_size g")
    case False
    then obtain j' where j: "j = Suc j'" using Cons.prems by (cases j) auto
    then obtain k where "k \<le> j'" "select_group gs sz (Suc i) = Some (Suc i + k)" "sz \<le> block_size (gs ! k)"
      using Cons.IH [of j' "Suc i"] Cons.prems by auto
    then show ?thesis using False j by (intro exI [of _ "Suc k"]) auto
  qed auto
qed simp

lemma select_group_kinv:
  assumes inv: "kinv s" and sz: "sz \<le> MAX_ALLOCATE_MEMORY_SIZE"
  obtains i where "i < 13" and "select_group (mem_groups s) sz 0 = Some i" and "unat sz \<le> bsz i"
proof -
  have bs: "block_size (mem_groups s ! k) = word_of_nat (bsz k)" if "k < 13" for k
    using kinvD(4) [OF inv that] by (simp add: free_list_wf_def)
  have "sz \<le> block_size (mem_groups s ! 12)"
    using sz bs [of 12] by (simp add: bsz_def MAX_ALLOCATE_MEMORY_SIZE_def)
  then obtain k where k: "k \<le> 12" "select_group (mem_groups s) sz 0 = Some k"
      "sz \<le> block_size (mem_groups s ! k)"
    using select_group_Some [of 12 "mem_groups s" sz 0] kinvD(3) [OF inv] by auto
  have "unat (word_of_nat (bsz k) :: u64) = bsz k"
    using bsz_bounds [of k] k(1) by (intro unat_of_nat_lt) simp
  then have "unat sz \<le> bsz k" using k(1,3) bs [of k] by (simp add: word_le_nat_alt)
  with k show thesis by (intro that [of k]) auto
qed

text \<open>The part of \<^verbatim>\<open>kmalloc\<close> that makes sure the list is not empty.\<close>

definition refill :: "nat \<Rightarrow> 'a alloc_state_scheme \<Rightarrow> (status_t \<times> 'a alloc_state_scheme) option" where
  "refill i s =
     (if bl s i = [] then do {
        (status, r, s) \<leftarrow> alloc_physical_page 1 s;
        if ERROR status then Some (status, s)
        else do {
          paddr \<leftarrow> r;
          s \<leftarrow> new_cache i paddr s;
          Some (status, s) } }
      else Some (K_SUCCESS, s))"

lemma refill_spec:
  assumes inv: "kinv s" and i: "i < 13"
  obtains (ok) s' where "refill i s = Some (K_SUCCESS, s')" "kinv s'" "live s' = live s"
      "bl s' i \<noteq> []" "locks s' = locks s" "preempt_count s' = preempt_count s"
      "running_pid s' = running_pid s" "card (free_set s) \<le> Suc (card (free_set s'))"
  | (nomem) "refill i s = Some (K_NOMEM, s)" "free_set s = {}"
proof (cases "bl s i = []")
  case False
  then show thesis using inv by (intro ok [of s]) (auto simp: refill_def)
next
  case empty: True
  note K = kinvD [OF inv]
  show thesis
  proof (cases rule: alloc_physical_page_cases [OF K(1,2) one_neq_zero, case_names ok fail])
    case (fail r)
    have "free_set s = {}"
    proof (rule ccontr)
      assume "free_set s \<noteq> {}"
      then obtain q where "q \<in> free_set s" by blast
      then have "q + unat (1 :: u64) \<le> page_limit s \<and> {q..<q + unat (1 :: u64)} \<subseteq> free_set s"
        by (auto simp: free_set_def)
      then show False using fail(2) by blast
    qed
    then show thesis using fail(1) empty nomem by (simp add: refill_def)
  next
    case (ok p b)
    define s1 where "s1 = s\<lparr>page_bitmap := b, free_pages := free_pages s - 1\<rparr>"
    have run: "{p..<p + unat (1 :: u64)} = {p}" by auto
    have p: "p \<in> free_set s" using ok(3) unfolding run by simp
    have fs: "free_set s1 = free_set s - {p}" using ok(7) unfolding run s1_def by simp
    have s1: "alloc_physical_page 1 s = Some (K_SUCCESS, Some (page_addr p), s1)" "phys_inv s1"
        "locks s1 = locks s" "preempt_count s1 = preempt_count s" "running_pid s1 = running_pid s"
        "page_limit s1 = page_limit s" "mem_groups s1 = mem_groups s" "caches s1 = caches s"
        "magic s1 = magic s"
      using ok(1,4,6) by (simp_all add: s1_def page_addr_def)
    have inv1: "kinv s1" "live s1 = live s"
      using kinv_alloc_page [OF inv s1(2,3,6)] fs s1(7-9) by auto
    have lim: "p < page_limit s" using p by (simp add: free_set_def)
    have p0: "0 < p" using p K(1) by (auto simp: phys_inv_def intro: gr0I)
    have p16: "p < 16384"
    proof -
      have "phys_wf s" using K(1) by (simp add: phys_inv_def)
      then show ?thesis using phys_wfD lim by (meson order_less_le_trans)
    qed
    have fresh: "caches s1 (cache_addr p) = None"
      using cache_page [OF inv _ p16] p s1(8) by (cases "caches s (cache_addr p)") auto
    have pn: "p \<notin> free_set s1" "p < page_limit s1" using fs lim s1(6) by auto
    obtain s2 where s2: "new_cache i (page_addr p) s1 = Some s2" "kinv s2" "live s2 = live s1"
        "bl s2 i \<noteq> []" "locks s2 = locks s1" "preempt_count s2 = preempt_count s1"
        "running_pid s2 = running_pid s1" "free_set s2 = free_set s1"
      by (rule new_cache_spec [OF inv1(1) i p0 pn(2,1) fresh])
    have "card (free_set s) \<le> Suc (card (free_set s2))"
      using fs s2(8) card_Suc_Diff1 [of "free_set s" p] p by simp
    then show thesis
      using that(1) [of s2] s1 s2 inv1(2) empty by (simp add: refill_def)
  qed
qed

lemma kmalloc_steps:
  assumes sz: "sz \<le> MAX_ALLOCATE_MEMORY_SIZE" and sel: "select_group (mem_groups s) sz 0 = Some i"
    and lf: "lock_free (MemGroupLock i) s" and i: "i < length (mem_groups s)"
  shows "kmalloc sz al bd s = do {
    (status, s) \<leftarrow> refill i (locked (MemGroupLock i) s);
    if ERROR status then Some (status, None, spinlock_unlock (MemGroupLock i) s)
    else do {
      (r, s1) \<leftarrow> kmalloc_find_block i sz (if al < sz then sz else al) bd s;
      case r of
        None \<Rightarrow> Some (K_NOT_FOUND, None, s1)
      | Some b \<Rightarrow> do {
          let s = s1\<lparr>magic := (magic s1)(b := 0)\<rparr>;
          s \<leftarrow> upd_cnt (block2cache b) (\<lambda>n. n - 1) s;
          ch \<leftarrow> caches s (block2cache b);
          let s = upd_group (cgroup ch) (\<lambda>g. g\<lparr>total_free := total_free g - 1\<rparr>) s;
          Some (status, Some b, spinlock_unlock (MemGroupLock i) s) } } }"
proof -
  have "\<not> sz > MAX_ALLOCATE_MEMORY_SIZE" using sz by simp
  then show ?thesis
    unfolding kmalloc_def refill_def Let_def
    using sel spinlock_lock_free [OF lf] i by (simp add: group_def)
qed

text \<open>The bytes of a block.\<close>

definition extent :: "'a alloc_state_scheme \<Rightarrow> addr \<Rightarrow> nat set" where
  "extent s b = (case caches s (block2cache b) of
     Some ch \<Rightarrow> {unat b..<unat b + bsz (cgroup ch)} | None \<Rightarrow> {})"

lemma extent_block: "is_block s i b p j \<Longrightarrow> i < 13 \<Longrightarrow> extent s b = {unat b..<unat b + bsz i}"
  using is_block_cache [of s i b p j] by (auto simp: extent_def is_block_def)

lemma blocks_disjoint:
  assumes "is_block s i b p j" and "is_block s k d q m" and "i < 13" and "k < 13" and "b \<noteq> d"
  shows "extent s b \<inter> extent s d = {}"
proof -
  have b: "unat b = vma + p * 2097152 + (j + 1) * bsz i" "(j + 1) * bsz i + bsz i \<le> 2097152"
    using assms(1,3) unat_blk blk_bound by (auto simp: is_block_def)
  have d: "unat d = vma + q * 2097152 + (m + 1) * bsz k" "(m + 1) * bsz k + bsz k \<le> 2097152"
    using assms(2,4) unat_blk blk_bound by (auto simp: is_block_def)
  consider "p < q" | "q < p" | "p = q" by arith
  then have "unat b + bsz i \<le> unat d \<or> unat d + bsz k \<le> unat b"
  proof cases
    case 1
    then have "p * 2097152 + 2097152 \<le> q * 2097152" by simp
    then show ?thesis using b d by linarith
  next
    case 2
    then have "q * 2097152 + 2097152 \<le> p * 2097152" by simp
    then show ?thesis using b d by linarith
  next
    case 3
    then have ik: "i = k" using assms(1,2) by (auto simp: is_block_def)
    then have "j \<noteq> m" using assms(1,2,5) 3 by (auto simp: is_block_def)
    then consider "j < m" | "m < j" by arith
    then show ?thesis
    proof cases
      case 1
      then have "(j + 1 + 1) * bsz i \<le> (m + 1) * bsz i" by (intro mult_le_mono1) simp
      then show ?thesis using b d ik 3 by (simp add: add_mult_distrib)
    next
      case 2
      then have "(m + 1 + 1) * bsz i \<le> (j + 1) * bsz i" by (intro mult_le_mono1) simp
      then show ?thesis using b d ik 3 by (simp add: add_mult_distrib)
    qed
  qed
  then show ?thesis using extent_block [OF assms(1,3)] extent_block [OF assms(2,4)] by auto
qed

text \<open>All group locks are free.\<close>

definition groups_unlocked :: "'a alloc_state_scheme \<Rightarrow> bool" where
  "groups_unlocked s \<longleftrightarrow> (\<forall>i < 13. lock_free (MemGroupLock i) s)"

lemma live_blocks_disjoint:
  "b \<in> live s \<Longrightarrow> d \<in> live s \<Longrightarrow> b \<noteq> d \<Longrightarrow> extent s b \<inter> extent s d = {}"
  unfolding live_def using blocks_disjoint by blast

lemma locked_lock_fields:
  "locks s' = locks (locked l s) \<Longrightarrow> lock_free l s \<Longrightarrow> locks (spinlock_unlock l s') = locks s"
  "\<lbrakk>preempt_count s' = preempt_count (locked l s); running_pid s' = running_pid s\<rbrakk> \<Longrightarrow>
    preempt_count (spinlock_unlock l s') = preempt_count s"
  by (auto simp: locked_def spinlock_unlock_def bump_preempt_def lock_free_def fun_upd_idem)

text \<open>What the outcomes of \<^verbatim>\<open>kmalloc\<close> promise.\<close>

definition kmalloc_post ::
  "u64 \<Rightarrow> u64 \<Rightarrow> u64 \<Rightarrow> 'a alloc_state_scheme \<Rightarrow> status_t \<Rightarrow> addr option \<Rightarrow> 'a alloc_state_scheme \<Rightarrow> bool" where
  "kmalloc_post sz al bd s st r s' \<longleftrightarrow>
     (case st of
        K_SUCCESS \<Rightarrow> \<exists>b. r = Some b \<and> b \<notin> live s \<and> live s' = insert b (live s) \<and>
          unat sz \<le> card (extent s' b) \<and> (\<forall>d \<in> live s. extent s' b \<inter> extent s' d = {}) \<and>
          (al \<le> sz \<and> bd = 0 \<or> fits sz (if al < sz then sz else al) bd b) \<and>
          locks s' = locks s \<and> preempt_count s' = preempt_count s \<and> running_pid s' = running_pid s \<and>
          card (free_set s) \<le> Suc (card (free_set s'))
      | K_NOMEM \<Rightarrow> r = None \<and> s' = s \<and> free_set s = {}
      | K_NOT_FOUND \<Rightarrow> r = None \<and> live s' = live s \<and> (\<exists>i < 13. \<not> lock_free (MemGroupLock i) s') \<and>
          (\<exists>i p j. i < 13 \<and> unat sz \<le> bsz i \<and> p < 16384 \<and> j < nbn i \<and>
             \<not> fits sz (if al < sz then sz else al) bd (blk p i j)) \<and> \<not> (al \<le> sz \<and> bd = 0)
      | _ \<Rightarrow> False)"

lemma kmalloc_spec:
  assumes inv: "kinv s" and lf: "groups_unlocked s" and sz: "sz \<le> MAX_ALLOCATE_MEMORY_SIZE"
  obtains st r s' where "kmalloc sz al bd s = Some (st, r, s')" and "kinv s'"
    and "kmalloc_post sz al bd s st r s'"
proof -
  obtain i where i: "i < 13" "select_group (mem_groups s) sz 0 = Some i" "unat sz \<le> bsz i"
    by (rule select_group_kinv [OF inv sz])
  define l where "l = MemGroupLock i"
  have l: "lock_free l s" "l \<noteq> MemLock" using lf i(1) by (auto simp: groups_unlocked_def l_def)
  define a where "a = (if al < sz then sz else al)"
  have len: "i < length (mem_groups s)" using kinvD(3) [OF inv] i(1) by simp
  note steps = kmalloc_steps [OF sz i(2) l(1) [unfolded l_def] len, of al bd, folded l_def a_def]
  have inv1: "kinv (locked l s)" using inv l(2) by simp
  show thesis
  proof (cases rule: refill_spec [OF inv1 i(1), case_names ok nomem])
    case nomem
    then have "kmalloc sz al bd s = Some (K_NOMEM, None, s)"
      using spinlock_unlock_locked [OF l(1)] by (simp add: steps)
    moreover have "free_set s = {}" using nomem(2) by simp
    ultimately show thesis
      using inv by (intro that [of K_NOMEM None s]) (simp_all add: kmalloc_post_def)
  next
    case (ok s1)
    show thesis
    proof (cases rule: find_block_spec [OF ok(2) i(1) ok(4), of a sz bd, case_names found none])
      case none
      have "al \<le> sz \<longleftrightarrow> a \<le> sz" by (auto simp: a_def)
      moreover have "\<not> lock_free l s1"
        using ok(5) by (simp add: lock_free_def locked_def bump_preempt_def)
      moreover have "\<exists>i p j. i < 13 \<and> unat sz \<le> bsz i \<and> p < 16384 \<and> j < nbn i \<and>
          \<not> fits sz a bd (blk p i j)"
      proof -
        obtain b where b: "b \<in> set (bl s1 i)" using ok(4) by (cases "bl s1 i") auto
        have "free_list_wf s1 i" using kinvD(4) [OF ok(2) i(1)] .
        then obtain p j where "is_block s1 i b p j" using b by (auto simp: free_list_wf_def)
        then have "b = blk p i j" "j < nbn i" "p < 16384" by (auto simp: is_block_def)
        then show ?thesis using none(2) b i(1,3) by blast
      qed
      ultimately have "kmalloc_post sz al bd s K_NOT_FOUND None s1"
        using none(3) ok(3) i(1) unfolding kmalloc_post_def by (auto simp: l_def a_def [symmetric])
      moreover have "kmalloc sz al bd s = Some (K_NOT_FOUND, None, s1)"
        using ok(1) none(1) by (simp add: steps)
      ultimately show thesis using ok(2) that by blast
    next
      case (found b)
      obtain s2 where s2: "take_block i b s1 = Some s2" "kinv s2" "live s2 = insert b (live s1)"
          "b \<notin> live s1" "locks s2 = locks s1" "preempt_count s2 = preempt_count s1"
          "running_pid s2 = running_pid s1" "free_set s2 = free_set s1" "\<exists>p j. is_block s2 i b p j"
        by (rule take_block_spec [OF ok(2) i(1) found(1)])
      have eq: "kmalloc sz al bd s = Some (K_SUCCESS, Some b, spinlock_unlock l s2)"
        using ok(1) found(3) s2(1) by (auto simp: steps take_block_def Let_def split: Option.bind_splits)
      have live': "live s2 = insert b (live s)" "b \<notin> live s" using s2(3,4) ok(3) by simp_all
      have bl: "b \<in> live s2" using live' by simp
      from s2(9) have "unat sz \<le> card (extent s2 b)" using extent_block [OF _ i(1)] i(3) by fastforce
      moreover have "\<forall>d \<in> live s. extent s2 b \<inter> extent s2 d = {}"
        using live_blocks_disjoint [OF bl] live' by auto
      moreover have "extent (spinlock_unlock l s2) d = extent s2 d" for d by (simp add: extent_def)
      moreover have "al \<le> sz \<and> bd = 0 \<or> fits sz a bd b" using found(2) by (auto simp: a_def split: if_splits)
      moreover have "locks (spinlock_unlock l s2) = locks s"
          "preempt_count (spinlock_unlock l s2) = preempt_count s"
        using locked_lock_fields [of s2 l s] s2(5-7) ok(5-7) l(1) by simp_all
      moreover have "free_set (spinlock_unlock l s2) = free_set s2"
        by (rule phys_inv_cong(2)) simp
      ultimately have "kmalloc_post sz al bd s K_SUCCESS (Some b) (spinlock_unlock l s2)"
        using live' s2(7,8) ok(7,8) by (simp add: kmalloc_post_def a_def)
      then show thesis using eq s2(2) l(2) by (intro that) auto
    qed
  qed
qed

subsection \<open>Release\<close>

text \<open>The first half of \<^verbatim>\<open>kfree\<close>: the block goes to the end of the list.\<close>

definition put_block :: "nat \<Rightarrow> addr \<Rightarrow> u64 \<Rightarrow> 'a alloc_state_scheme \<Rightarrow> 'a alloc_state_scheme option" where
  "put_block i b m s = do {
     let s = upd_group i (\<lambda>g. g\<lparr>free_block_list := free_block_list g @ [b],
                               total_free := total_free g + 1\<rparr>) (s\<lparr>magic := (magic s)(b := m)\<rparr>);
     upd_cnt (block2cache b) (\<lambda>n. n + 1) s }"

lemma put_block_spec:
  assumes inv: "kinv s" and i: "i < 13" and blk: "is_block s i b p j" and nb: "b \<notin> set (bl s i)"
  obtains s' where "put_block i b (word_of_nat j + word_of_nat (nbn i)) s = Some s'" and "kinv s'"
    and "live s' = live s - {b}" and "locks s' = locks s" and "preempt_count s' = preempt_count s"
    and "running_pid s' = running_pid s" and "free_set s' = free_set s"
    and "\<And>k d q m. is_block s' k d q m = is_block s k d q m"
proof -
  note K = kinvD [OF inv]
  have len: "i < length (mem_groups s)" using K(3) i by simp
  note fl = K(4) [OF i, unfolded free_list_wf_def]
  define c where "c = cache_addr p"
  have c: "block2cache b = c" using is_block_cache [OF blk i] by (simp add: c_def)
  obtain ch where ch: "caches s c = Some ch" "cgroup ch = i" using blk by (auto simp: is_block_def c_def)
  define mb :: u64 where "mb = word_of_nat j + word_of_nat (nbn i)"
  let ?g = "\<lambda>g. g\<lparr>free_block_list := free_block_list g @ [b], total_free := total_free g + 1\<rparr>"
  define t where "t = s\<lparr>magic := (magic s)(b := mb),
    mem_groups := (mem_groups s)[i := ?g (mem_groups s ! i)],
    caches := (caches s)(c \<mapsto> ch\<lparr>cnt := cnt ch + 1\<rparr>)\<rparr>"
  have eq: "put_block i b mb s = Some t"
    using ch len by (simp add: put_block_def c upd_cnt_def upd_group_def Let_def t_def)
  have t: "mem_groups t ! k = (if k = i then ?g (mem_groups s ! i) else mem_groups s ! k)"
      "magic t = (magic s)(b := mb)" "caches t = (caches s)(c \<mapsto> ch\<lparr>cnt := cnt ch + 1\<rparr>)"
      "length (mem_groups t) = length (mem_groups s)" "phys_inv t = phys_inv s"
      "lock_free l t = lock_free l s" "locks t = locks s" "preempt_count t = preempt_count s"
      "running_pid t = running_pid s" "free_set t = free_set s" "page_limit t = page_limit s" for k l
    using len by (simp_all add: t_def)
  have same: "is_block t k d q m = is_block s k d q m" for k d q m
    using ch by (intro is_block_same_groups) (auto simp: t(3))
  have bl': "bl t k = (if k = i then bl s i @ [b] else bl s k)" for k
    by (simp add: t(1))
  have notin: "b \<notin> set (bl s k)" if "k < 13" for k
  proof
    assume b: "b \<in> set (bl s k)"
    have "free_list_wf s k" using K(4) that .
    then obtain q m where "is_block s k b q m" using b by (auto simp: free_list_wf_def)
    from is_block_unique [OF blk this i that] have "k = i" by simp
    with b nb show False by simp
  qed
  have fw: "free_list_wf t k" if "k < 13" for k
  proof (cases "k = i")
    case True
    have "total_free (mem_groups s ! i) + 1 = word_of_nat (length (bl s i @ [b]))" using fl by simp
    moreover have "\<exists>q m. is_block s i b q m \<and> mb = word_of_nat m + word_of_nat (nbn i)"
      using blk by (auto simp: mb_def)
    ultimately show ?thesis
      using fl True nb by (auto simp: free_list_wf_def same t(1,2))
  next
    case False
    then show ?thesis using K(4) [OF that] notin [OF that]
      by (auto simp: free_list_wf_def same t(1,2))
  qed
  have fin: "free_in t k d = (if k = i \<and> d = c then free_in s i c + 1 else free_in s k d)" for k d
    using c by (simp add: free_in_def bl')
  have cw: "cache_wf t d dh" if d: "caches t d = Some dh" for d dh
  proof (cases "d = c")
    case True
    then have dh: "dh = ch\<lparr>cnt := cnt ch + 1\<rparr>" using d by (simp add: t(3))
    have w: "cache_wf s c ch" using K(5) ch(1) .
    then have "cnt dh = word_of_nat (free_in t (cgroup dh) c)"
      using ch(2) by (auto simp: dh fin cache_wf_def)
    with w show ?thesis unfolding True cache_wf_def t(10,11) by (simp add: dh)
  next
    case False
    then have "cache_wf s d dh" using d K(5) by (simp add: t(3))
    then show ?thesis unfolding cache_wf_def fin t(10,11) using False by simp
  qed
  have "kinv t" unfolding kinv_def t(4-6) using fw cw K(1,2,3) by blast
  moreover have "live t = live s - {b}"
  proof (intro set_eqI iffI)
    fix x assume "x \<in> live t"
    then obtain k q m where x: "k < 13" "x \<notin> set (bl t k)" "is_block s k x q m"
      unfolding live_def same by blast
    have "x \<noteq> b"
    proof
      assume "x = b"
      then have "k = i" using is_block_unique [OF blk _ i x(1)] x(3) by blast
      then show False using x(2) \<open>x = b\<close> by (simp add: bl')
    qed
    moreover have "x \<notin> set (bl s k)" using x(2) by (auto simp: bl' split: if_splits)
    ultimately show "x \<in> live s - {b}" using x unfolding live_def by blast
  next
    fix x assume "x \<in> live s - {b}"
    then obtain k q m where x: "k < 13" "x \<notin> set (bl s k)" "is_block s k x q m" "x \<noteq> b"
      unfolding live_def by blast
    then have "x \<notin> set (bl t k)" by (auto simp: bl')
    with x show "x \<in> live t" unfolding live_def same by blast
  qed
  ultimately show thesis
    using eq same by (intro that [of t]) (simp_all add: t mb_def)
qed

text \<open>How many blocks of a cache are in the list: at most all of them, and only all of them when
  every block is.\<close>

lemma free_in_blocks:
  assumes inv: "kinv s" and i: "i < 13" and p: "p < 16384"
    and ch: "caches s (cache_addr p) = Some ch" "cgroup ch = i"
  shows "free_in s i (cache_addr p) \<le> nbn i"
    "free_in s i (cache_addr p) = nbn i \<Longrightarrow> blk p i ` {..<nbn i} \<subseteq> set (bl s i)"
proof -
  let ?F = "{b \<in> set (bl s i). block2cache b = cache_addr p}"
  have fl: "free_list_wf s i" using kinvD(4) [OF inv] i .
  then have card: "free_in s i (cache_addr p) = card ?F"
  proof -
    have "distinct (filter (\<lambda>b. block2cache b = cache_addr p) (bl s i))"
      using fl by (simp add: free_list_wf_def)
    from distinct_card [OF this] show ?thesis by (simp only: free_in_def set_filter)
  qed
  have sub: "?F \<subseteq> blk p i ` {..<nbn i}"
  proof
    fix b assume b: "b \<in> ?F"
    then obtain q m where ib: "is_block s i b q m" using fl by (auto simp: free_list_wf_def)
    have "cache_addr q = cache_addr p" using b is_block_cache [OF ib i] by simp
    moreover have "q < 16384" using ib by (simp add: is_block_def)
    ultimately have "q = p" using cache_addr_inj p by blast
    then show "b \<in> blk p i ` {..<nbn i}" using ib unfolding is_block_def by blast
  qed
  have inj: "inj_on (blk p i) {..<nbn i}" using blk_inj [OF p p i] by (auto simp: inj_on_def)
  then have cb: "card (blk p i ` {..<nbn i}) = nbn i" by (simp add: card_image)
  show "free_in s i (cache_addr p) \<le> nbn i"
    using card_mono [OF _ sub] card cb by simp
  assume "free_in s i (cache_addr p) = nbn i"
  then have "?F = blk p i ` {..<nbn i}"
    using card_subset_eq [OF _ sub] card cb by simp
  then show "blk p i ` {..<nbn i} \<subseteq> set (bl s i)" by blast
qed

text \<open>Unlinking every block of a cache leaves the blocks of the others.\<close>

lemma unlink_all:
  assumes i: "i < 13" "i < length (mem_groups s)" and bs: "block_size (mem_groups s ! i) = word_of_nat (bsz i)"
    and p: "p < 16384" and ch: "caches s (cache_addr p) = Some ch" "cgroup ch = i"
    and n: "number_of_blocks ch = word_of_nat (nbn i)"
    and m: "\<And>j. j < nbn i \<Longrightarrow> magic s (blk p i j) = word_of_nat j + word_of_nat (nbn i)"
    and dist: "distinct (bl s i)" and all: "blk p i ` {..<nbn i} \<subseteq> set (bl s i)"
  shows "k \<le> nbn i \<Longrightarrow> fold_option (unlink_block i (cache_addr p)) [0..<k] s =
    Some (upd_group i (\<lambda>g. g\<lparr>free_block_list :=
      filter (\<lambda>b. b \<notin> blk p i ` {..<k}) (bl s i)\<rparr>) s)"
proof (induction k)
  case 0
  then show ?case using i by (simp add: upd_group_def)
next
  case (Suc k)
  define L where "L = filter (\<lambda>b. b \<notin> blk p i ` {..<k}) (bl s i)"
  define t where "t = upd_group i (\<lambda>g. g\<lparr>free_block_list := L\<rparr>) s"
  have t: "mem_groups t ! i = (mem_groups s ! i)\<lparr>free_block_list := L\<rparr>" "caches t = caches s"
      "magic t = magic s" "length (mem_groups t) = length (mem_groups s)"
    using i(2) by (simp_all add: t_def upd_group_nth)
  have cb: "cache2block t (cache_addr p) (word_of_nat k) = Some (blk p i k)"
    using i ch bs by (simp add: cache2block_def t group_def blk_words)
  have "blk p i k \<notin> blk p i ` {..<k}" using blk_inj [OF p p i(1)] Suc.prems by auto
  then have inL: "blk p i k \<in> set L" using all Suc.prems by (auto simp: L_def)
  have rem: "remove1 (blk p i k) L = filter (\<lambda>b. b \<notin> blk p i ` {..<Suc k}) (bl s i)"
  proof -
    have "distinct L" using dist by (simp add: L_def)
    then have "remove1 (blk p i k) L = filter (\<lambda>b. b \<noteq> blk p i k) L"
      by (rule distinct_remove1_removeAll [unfolded removeAll_filter_not_eq, THEN trans]) (auto intro: filter_cong)
    then show ?thesis by (auto simp: L_def lessThan_Suc intro: filter_cong)
  qed
  have "unlink_block i (cache_addr p) k t =
      Some (upd_group i (\<lambda>g. g\<lparr>free_block_list := remove1 (blk p i k) L\<rparr>) s)"
    using cb ch n m [of k] Suc.prems inL i(2) t
    by (simp add: unlink_block_def group_def) (simp add: upd_group_def t_def)
  then show ?case using Suc by (simp add: rem L_def [symmetric] t_def [symmetric])
qed

lemma virt_phys [simp]: "VIRT_TO_PHYS (PHYS_TO_VIRT a) = a" "PHYS_TO_VIRT (VIRT_TO_PHYS a) = a"
  by (simp_all add: VIRT_TO_PHYS_def PHYS_TO_VIRT_def)

text \<open>The second half of \<^verbatim>\<open>kfree\<close>: a cache whose blocks are all free gives its page back.\<close>

definition reclaim :: "nat \<Rightarrow> addr \<Rightarrow> 'a alloc_state_scheme \<Rightarrow> 'a alloc_state_scheme option" where
  "reclaim i c s = do {
     ch \<leftarrow> caches s c;
     if cnt ch = number_of_blocks ch then do {
       s \<leftarrow> fold_option (unlink_block i c) [0..<unat (number_of_blocks ch)] s;
       let s = upd_group i (\<lambda>g. g\<lparr>total_free := total_free g - ucast (number_of_blocks ch)\<rparr>) s;
       s \<leftarrow> free_physical_page (VIRT_TO_PHYS c) 1 s;
       Some (s\<lparr>caches := (caches s)(c := None)\<rparr>) }
     else Some s }"

lemma reclaim_spec:
  assumes inv: "kinv s" and i: "i < 13" and p: "p < 16384"
    and ch: "caches s (cache_addr p) = Some ch" "cgroup ch = i"
  obtains s' where "reclaim i (cache_addr p) s = Some s'" and "kinv s'" and "live s' = live s"
    and "locks s' = locks s" and "preempt_count s' = preempt_count s" and "running_pid s' = running_pid s"
proof -
  note K = kinvD [OF inv]
  have len: "i < length (mem_groups s)" using K(3) i by simp
  have fl: "free_list_wf s i" using K(4) i .
  have cw: "cache_wf s (cache_addr p) ch" using K(5) ch(1) .
  have nb: "number_of_blocks ch = word_of_nat (nbn i)" "cnt ch = word_of_nat (free_in s i (cache_addr p))"
    using cw ch(2) by (auto simp: cache_wf_def)
  note fb = free_in_blocks [OF inv i p ch]
  have small: "unat (word_of_nat k :: u64) = k" if "k \<le> nbn i" for k
    using that bsz_bounds [OF i] by (intro unat_of_nat_lt) simp
  show thesis
  proof (cases "cnt ch = number_of_blocks ch")
    case False
    then show thesis using that [of s] inv ch by (simp add: reclaim_def)
  next
    case True
    then have "free_in s i (cache_addr p) = nbn i"
      using nb small [OF fb(1)] small [of "nbn i"] by (metis order_refl)
    note all = fb(2) [OF this]
    have mg: "magic s (blk p i j) = word_of_nat j + word_of_nat (nbn i)" if "j < nbn i" for j
    proof -
      have "blk p i j \<in> set (bl s i)" using all that by blast
      then obtain q m where ib: "is_block s i (blk p i j) q m"
          "magic s (blk p i j) = word_of_nat m + word_of_nat (nbn i)"
        using fl by (auto simp: free_list_wf_def)
      have "is_block s i (blk p i j) p j" using that p ch by (auto simp: is_block_def)
      from is_block_unique [OF this ib(1) i i] ib(2) show ?thesis by simp
    qed
    define L where "L = filter (\<lambda>b. b \<notin> blk p i ` {..<nbn i}) (bl s i)"
    have bsz: "block_size (mem_groups s ! i) = word_of_nat (bsz i)" "distinct (bl s i)"
        "total_free (mem_groups s ! i) = word_of_nat (length (bl s i))"
      using fl by (auto simp: free_list_wf_def)
    have unl: "fold_option (unlink_block i (cache_addr p)) [0..<nbn i] s =
        Some (upd_group i (\<lambda>g. g\<lparr>free_block_list := L\<rparr>) s)"
      unfolding L_def by (rule unlink_all [OF i len bsz(1) p ch nb(1) mg bsz(2) all order_refl])
    have inj: "inj_on (blk p i) {..<nbn i}" using blk_inj [OF p p i] by (auto simp: inj_on_def)
    have lenL: "length L = length (bl s i) - nbn i" "nbn i \<le> length (bl s i)"
    proof -
      have "length L = card (set (bl s i) - blk p i ` {..<nbn i})"
        using distinct_card [of L] bsz(2) by (simp add: L_def set_diff_eq)
      also have "\<dots> = card (set (bl s i)) - nbn i"
        using card_Diff_subset [OF _ all] card_image [OF inj] by simp
      finally show "length L = length (bl s i) - nbn i" using distinct_card [OF bsz(2)] by simp
      show "nbn i \<le> length (bl s i)"
        using card_mono [OF _ all] card_image [OF inj] distinct_card [OF bsz(2)] by simp
    qed
    have uc: "ucast (word_of_nat (nbn i) :: u64) = (word_of_nat (nbn i) :: u32)"
      by transfer (simp add: take_bit_take_bit)
    define s1 where "s1 = upd_group i (\<lambda>g. g\<lparr>free_block_list := L,
      total_free := total_free g - word_of_nat (nbn i)\<rparr>) s"
    have pg: "0 < p" "p < page_limit s" "p \<notin> free_set s" using cache_page [OF inv ch(1) p] by auto
    have "phys_inv s1" "lock_free MemLock s1" using K(1,2) by (simp_all add: s1_def)
    then obtain b where b: "free_physical_page (page_addr p) 1 s1 =
        Some (s1\<lparr>page_bitmap := b, free_pages := free_pages s1 + 1\<rparr>)"
      "phys_inv (s1\<lparr>page_bitmap := b, free_pages := free_pages s1 + 1\<rparr>)"
      "page_limit (s1\<lparr>page_bitmap := b\<rparr>) = page_limit s1"
      "free_set (s1\<lparr>page_bitmap := b\<rparr>) = free_set s1 \<union> {p..<p + unat (1 :: u64)}"
      by (rule free_physical_page_ok [where k = p and n = 1]) (use pg in \<open>simp_all add: s1_def\<close>)
    define t where "t = s1\<lparr>page_bitmap := b, free_pages := free_pages s1 + 1,
      caches := (caches s)(cache_addr p := None)\<rparr>"
    have eq: "reclaim i (cache_addr p) s = Some t"
      using ch True nb(1) unl small [of "nbn i"] b(1) uc len
      by (simp add: reclaim_def cache_addr_page [of p] s1_def [symmetric] t_def upd_group_def)
        (simp add: s1_def upd_group_def)
    have tg: "mem_groups t ! k = (if k = i then (mem_groups s ! i)\<lparr>free_block_list := L,
        total_free := total_free (mem_groups s ! i) - word_of_nat (nbn i)\<rparr> else mem_groups s ! k)"
        "magic t = magic s" "caches t = (caches s)(cache_addr p := None)"
        "length (mem_groups t) = length (mem_groups s)" "locks t = locks s"
        "preempt_count t = preempt_count s" "running_pid t = running_pid s" for k
      using len by (simp_all add: t_def s1_def upd_group_def nth_list_update)
    have tb: "page_bitmap t = page_bitmap (s1\<lparr>page_bitmap := b\<rparr>)"
        "page_bitmap t = page_bitmap (s1\<lparr>page_bitmap := b, free_pages := free_pages s1 + 1\<rparr>)"
        "free_pages t = free_pages (s1\<lparr>page_bitmap := b, free_pages := free_pages s1 + 1\<rparr>)"
      by (simp_all add: t_def)
    have t: "bl t k = (if k = i then L else bl s k)"
        "block_size (mem_groups t ! k) = block_size (mem_groups s ! k)"
        "total_free (mem_groups t ! k) =
          (if k = i then total_free (mem_groups s ! i) - word_of_nat (nbn i) else total_free (mem_groups s ! k))"
        "magic t = magic s" "caches t = (caches s)(cache_addr p := None)"
        "length (mem_groups t) = length (mem_groups s)" for k
      by (simp_all add: tg)
    have t7: "phys_inv t" using phys_inv_cong(1) [OF tb(2,3)] b(2) by simp
    have t8: "lock_free l t = lock_free l s" for l by (simp add: lock_free_def tg)
    have "{p..<p + unat (1 :: u64)} = {p}" by auto
    then have t12: "free_set t = insert p (free_set s)"
      using phys_inv_cong(2) [OF tb(1)] b(4) by (simp add: s1_def)
    have t13: "page_limit t = page_limit s"
      using phys_inv_cong(3) [OF tb(1)] b(3) by (simp add: s1_def)
    have pq: "cache_addr q = cache_addr p \<longleftrightarrow> q = p" if "q < 16384" for q
      using cache_addr_inj [OF that p] .
    have isb: "is_block t k d q m \<longleftrightarrow> is_block s k d q m \<and> q \<noteq> p" for k d q m
      using pq by (auto simp: is_block_def t(5))
    have onp: "d \<in> blk p i ` {..<nbn i}" if "is_block s k d p m" for k d m
      using that ch by (auto simp: is_block_def)
    have offp: "d \<notin> blk p i ` {..<nbn i}" if "is_block s k d q m" "q \<noteq> p" "k < 13" for k d q m
    proof
      assume "d \<in> blk p i ` {..<nbn i}"
      then obtain n where n: "d = blk p i n" "n < nbn i" by auto
      then have "is_block s i d p n" using p ch by (simp add: is_block_def)
      from is_block_unique [OF this that(1) i that(3)] that(2) show False by simp
    qed
    have fw: "free_list_wf t k" if k: "k < 13" for k
    proof -
      have fk: "free_list_wf s k" using K(4) k .
      have blocks: "\<exists>q m. is_block t k d q m \<and> magic t d = word_of_nat m + word_of_nat (nbn k)"
        if "d \<in> set (bl t k)" for d
      proof -
        have ds: "d \<in> set (bl s k)" "k = i \<Longrightarrow> d \<notin> blk p i ` {..<nbn i}"
          using that by (auto simp: t(1) L_def split: if_splits)
        then obtain q m where ib: "is_block s k d q m" "magic s d = word_of_nat m + word_of_nat (nbn k)"
          using fk by (auto simp: free_list_wf_def)
        have "q \<noteq> p"
        proof
          assume "q = p"
          then have "k = i" "d \<in> blk p i ` {..<nbn i}" using ib(1) ch onp by (auto simp: is_block_def)
          with ds(2) show False by simp
        qed
        with ib show ?thesis using isb by (auto simp: t(4))
      qed
      have "distinct (bl t k)" using fk by (cases "k = i") (simp_all add: t(1) L_def free_list_wf_def)
      moreover have "total_free (mem_groups t ! k) = word_of_nat (length (bl t k))"
        using fk lenL bsz(3) by (simp add: t(1,3) free_list_wf_def of_nat_diff)
      ultimately show ?thesis using fk blocks unfolding free_list_wf_def t(2) by blast
    qed
    have cwt: "cache_wf t d dh" if d: "caches t d = Some dh" for d dh
    proof -
      have ds: "d \<noteq> cache_addr p" "caches s d = Some dh" using d by (auto simp: t(5) split: if_splits)
      have cs: "cache_wf s d dh" using K(5) ds(2) .
      have "filter (\<lambda>b. block2cache b = d) L = filter (\<lambda>b. block2cache b = d) (bl s i)"
      proof -
        have "block2cache x \<noteq> d" if "x \<in> blk p i ` {..<nbn i}" for x
          using that block2cache_blk [OF p i] ds(1) by auto
        then show ?thesis unfolding L_def filter_filter by (intro filter_cong) auto
      qed
      then have fin: "free_in t k d = free_in s k d" for k by (simp add: free_in_def t(1))
      obtain q where q: "d = cache_addr q" "0 < q" "q < page_limit s" "q \<notin> free_set s"
        using cs by (auto simp: cache_wf_def)
      with ds(1) have "q \<noteq> p" by auto
      then show ?thesis using cs q unfolding cache_wf_def fin t12 t13 by blast
    qed
    have "kinv t" unfolding kinv_def t(6) t8 using fw cwt K(2,3) t7 by blast
    moreover have "live t = live s"
    proof (intro set_eqI iffI)
      fix x assume "x \<in> live t"
      then obtain k q m where x: "k < 13" "x \<notin> set (bl t k)" "is_block s k x q m" "q \<noteq> p"
        unfolding live_def isb by blast
      have "x \<notin> blk p i ` {..<nbn i}" using offp x by blast
      then have "x \<notin> set (bl s k)" using x(2) by (auto simp: t(1) L_def split: if_splits)
      with x show "x \<in> live s" unfolding live_def by blast
    next
      fix x assume "x \<in> live s"
      then obtain k q m where x: "k < 13" "x \<notin> set (bl s k)" "is_block s k x q m"
        unfolding live_def by blast
      have "q \<noteq> p"
      proof
        assume "q = p"
        then have "k = i" "x \<in> set (bl s i)" using x(3) ch onp all by (auto simp: is_block_def)
        with x(2) show False by simp
      qed
      moreover have "x \<notin> set (bl t k)" using x(2) by (auto simp: t(1) L_def)
      ultimately show "x \<in> live t" using x unfolding live_def isb by blast
    qed
    ultimately show thesis using eq by (intro that [of t]) (simp_all add: tg)
  qed
qed

lemma kfree_spec:
  assumes inv: "kinv s" and lf: "groups_unlocked s" and live: "b \<in> live s"
  obtains s' where "kfree b s = Some s'" and "kinv s'" and "live s' = live s - {b}"
    and "locks s' = locks s" and "preempt_count s' = preempt_count s"
proof -
  obtain i p j where ib: "i < 13" "is_block s i b p j" "b \<notin> set (bl s i)"
    using live by (auto simp: live_def)
  have p: "p < 16384" and bj: "b = blk p i j" "j < nbn i" using ib(2) by (auto simp: is_block_def)
  obtain ch where ch: "caches s (cache_addr p) = Some ch" "cgroup ch = i"
    using ib(2) by (auto simp: is_block_def)
  have len: "i < length (mem_groups s)" using kinvD(3) [OF inv] ib(1) by simp
  have bsz: "block_size (mem_groups s ! i) = word_of_nat (bsz i)"
    using kinvD(4) [OF inv ib(1)] by (simp add: free_list_wf_def)
  have nb: "number_of_blocks ch = word_of_nat (nbn i)"
    using kinvD(5) [OF inv ch(1)] ch(2) by (simp add: cache_wf_def)
  define l where "l = MemGroupLock i"
  have l: "lock_free l s" "l \<noteq> MemLock" using lf ib(1) by (auto simp: groups_unlocked_def l_def)
  have c: "block2cache b = cache_addr p" using is_block_cache [OF ib(2,1)] .
  have nz: "b \<noteq> NULL"
  proof
    assume "b = NULL"
    then have "unat b = 0" by simp
    then show False using unat_blk [OF p ib(1) bj(2)] bj(1) by (simp add: vma_def)
  qed
  have inv1: "kinv (locked l s)" using inv l(2) by simp
  have ib1: "is_block (locked l s) i b p j" using ib(2) by (simp add: is_block_def)
  have nb1: "b \<notin> set (bl (locked l s) i)" using ib(3) by simp
  obtain s1 where s1: "put_block i b (word_of_nat j + word_of_nat (nbn i)) (locked l s) = Some s1"
      "kinv s1" "live s1 = live (locked l s) - {b}" "locks s1 = locks (locked l s)"
      "preempt_count s1 = preempt_count (locked l s)" "running_pid s1 = running_pid (locked l s)"
      "is_block s1 i b p j"
    using put_block_spec [OF inv1 ib(1) ib1 nb1] ib1 by metis
  obtain ch1 where ch1: "caches s1 (cache_addr p) = Some ch1" "cgroup ch1 = i"
    using s1(7) by (auto simp: is_block_def)
  obtain s2 where s2: "reclaim i (cache_addr p) s1 = Some s2" "kinv s2" "live s2 = live s1"
      "locks s2 = locks s1" "preempt_count s2 = preempt_count s1" "running_pid s2 = running_pid s1"
    by (rule reclaim_spec [OF s1(2) ib(1) p ch1])
  have al: "b AND (word_of_nat (bsz i) - 1) = 0" using blk_aligned [OF p ib(1) bj(2)] bj(1) by simp
  have lock: "spinlock_lock l (s\<lparr>magic := m\<rparr>) = Some ((locked l s)\<lparr>magic := m\<rparr>)" for m
    using spinlock_lock_free [of l "s\<lparr>magic := m\<rparr>"] l(1)
    by (simp add: locked_def bump_preempt_def)
  define mb :: u64 where "mb = word_of_nat j + word_of_nat (nbn i)"
  have pb: "upd_cnt (cache_addr p) (\<lambda>n. n + 1) (upd_group i (\<lambda>g. g\<lparr>free_block_list := free_block_list g @ [b],
      total_free := total_free g + 1\<rparr>) ((locked l s)\<lparr>magic := (magic s)(b := mb)\<rparr>)) = Some s1"
    using s1(1) by (simp add: put_block_def Let_def c mb_def)
  have "kfree b s = Option.bind (reclaim i (cache_addr p) s1) (\<lambda>s. Some (spinlock_unlock l s))"
    unfolding kfree_def reclaim_def Let_def
    using nz ch block_index_block [OF inv ib(2,1)] nb len bsz al ch1
    by (simp add: c group_def l_def [symmetric] lock mb_def [symmetric] pb)
  then have "kfree b s = Some (spinlock_unlock l s2)" using s2(1) by simp
  moreover have "locks (spinlock_unlock l s2) = locks s"
      "preempt_count (spinlock_unlock l s2) = preempt_count s"
    using locked_lock_fields [of s2 l s] s2(4-6) s1(4-6) l(1) by simp_all
  ultimately show thesis
    using s1(3) s2(2,3) l(2) by (intro that [of "spinlock_unlock l s2"]) simp_all
qed

subsection \<open>The contract of the allocator\<close>

text \<open>
  What the rest of the kernel relies on. The locale is the interface of a memory allocator with
  free locks; its client lemmas speak of sequences of allocations.
\<close>

locale allocator =
  fixes inv :: "'s \<Rightarrow> bool"
    and used :: "'s \<Rightarrow> addr set"
    and bytes :: "'s \<Rightarrow> addr \<Rightarrow> nat set"
    and alloc :: "u64 \<Rightarrow> 's \<Rightarrow> (status_t \<times> addr option \<times> 's) option"
    and dealloc :: "addr \<Rightarrow> 's \<Rightarrow> 's option"
    and okay :: "u64 \<Rightarrow> bool"
  assumes alloc_total: "\<lbrakk>inv s; okay n\<rbrakk> \<Longrightarrow>
      (\<exists>b s'. alloc n s = Some (K_SUCCESS, Some b, s') \<and> inv s' \<and> b \<notin> used s \<and>
        used s' = insert b (used s) \<and> unat n \<le> card (bytes s' b)) \<or>
      alloc n s = Some (K_NOMEM, None, s)"
    and disjoint: "\<lbrakk>inv s; b \<in> used s; d \<in> used s; b \<noteq> d\<rbrakk> \<Longrightarrow> bytes s b \<inter> bytes s d = {}"
    and dealloc_used: "\<lbrakk>inv s; b \<in> used s\<rbrakk> \<Longrightarrow>
      \<exists>s'. dealloc b s = Some s' \<and> inv s' \<and> used s' = used s - {b}"
begin

text \<open>Allocating and giving back leaves the blocks in use as they were.\<close>

lemma alloc_dealloc:
  assumes "inv s" and "okay n" and "alloc n s = Some (K_SUCCESS, Some b, s1)"
  shows "\<exists>s2. dealloc b s1 = Some s2 \<and> inv s2 \<and> used s2 = used s"
  using alloc_total [OF assms(1,2)] assms(3) dealloc_used [of s1 b] by auto

fun alloc_list :: "u64 list \<Rightarrow> 's \<Rightarrow> (addr list \<times> 's) option" where
  "alloc_list [] s = Some ([], s)"
| "alloc_list (n # ns) s = (case alloc n s of
     Some (K_SUCCESS, Some b, s') \<Rightarrow> map_option (\<lambda>(bs, s''). (b # bs, s'')) (alloc_list ns s')
   | _ \<Rightarrow> None)"

lemma alloc_list_distinct:
  assumes "inv s" and "\<forall>n \<in> set ns. okay n" and "alloc_list ns s = Some (bs, s')"
  shows "inv s' \<and> distinct bs \<and> set bs \<inter> used s = {} \<and> used s' = used s \<union> set bs"
  using assms
proof (induction ns arbitrary: s bs)
  case (Cons n ns)
  have "okay n" using Cons.prems(2) by simp
  from alloc_total [OF Cons.prems(1) this] show ?case
  proof (elim disjE)
    assume "\<exists>b s'. alloc n s = Some (K_SUCCESS, Some b, s') \<and> inv s' \<and> b \<notin> used s \<and>
        used s' = insert b (used s) \<and> unat n \<le> card (bytes s' b)"
    then obtain b s1 where b: "alloc n s = Some (K_SUCCESS, Some b, s1)" "inv s1" "b \<notin> used s"
        "used s1 = insert b (used s)" by blast
    then obtain bs' where "bs = b # bs'" "alloc_list ns s1 = Some (bs', s')"
      using Cons.prems(3) by auto
    then show ?thesis using Cons.IH [OF b(2), of bs'] Cons.prems(2) b by auto
  qed (use Cons.prems in auto)
qed auto

end

text \<open>Requests that fit every block of their group: no alignment beyond the size, no boundary.\<close>

interpretation km: allocator "\<lambda>s. kinv s \<and> groups_unlocked s" live extent
  "\<lambda>n. kmalloc n 0 0" kfree "\<lambda>n. n \<le> MAX_ALLOCATE_MEMORY_SIZE"
proof (unfold_locales, goal_cases)
  case (1 s n)
  then have s: "kinv s" "groups_unlocked s" by auto
  obtain st r s' where k: "kmalloc n 0 0 s = Some (st, r, s')" "kinv s'" "kmalloc_post n 0 0 s st r s'"
    by (rule kmalloc_spec [OF s 1(2)])
  have lf: "groups_unlocked s'" if "locks s' = locks s"
    using s(2) that by (simp add: groups_unlocked_def lock_free_def)
  show ?case
  proof (cases st)
    case K_SUCCESS
    then obtain b where "r = Some b" "b \<notin> live s" "live s' = insert b (live s)"
        "unat n \<le> card (extent s' b)" "locks s' = locks s"
      using k(3) by (auto simp: kmalloc_post_def)
    then show ?thesis using k(1,2) lf K_SUCCESS by blast
  qed (use k in \<open>auto simp: kmalloc_post_def\<close>)
next
  case (2 s b d)
  then show ?case using live_blocks_disjoint by blast
next
  case (3 s b)
  then have s: "kinv s" "groups_unlocked s" by auto
  obtain s' where "kfree b s = Some s'" "kinv s'" "live s' = live s - {b}" "locks s' = locks s"
    by (rule kfree_spec [OF s 3(2)])
  then show ?case using s(2) by (auto simp: groups_unlocked_def lock_free_def)
qed

subsection \<open>The allocator leaves the rest of the state alone\<close>

lemma more_simps [simp]:
  "alloc_state.more (upd_group i f s) = alloc_state.more s"
  "alloc_state.more (spinlock_unlock l s) = alloc_state.more s"
  "alloc_state.more (locked l s) = alloc_state.more s"
  by (simp_all add: upd_group_def spinlock_unlock_def bump_preempt_def locked_def)

lemma spinlock_lock_more: "spinlock_lock l s = Some s' \<Longrightarrow> alloc_state.more s' = alloc_state.more s"
  by (auto simp: spinlock_lock_def bump_preempt_def Let_def split: if_splits)

lemma alloc_physical_page_more:
  "alloc_physical_page n s = Some (st, r, s') \<Longrightarrow> alloc_state.more s' = alloc_state.more s"
  by (auto simp: alloc_physical_page_def alloc_physical_page_sub_def Let_def
      split: if_splits dest!: spinlock_lock_more elim!: bind_eq_SomeE)

lemma free_physical_page_more:
  "free_physical_page a n s = Some s' \<Longrightarrow> alloc_state.more s' = alloc_state.more s"
  by (auto simp: free_physical_page_def Let_def split: if_splits dest!: spinlock_lock_more elim!: bind_eq_SomeE)

lemma fold_option_more:
  assumes "fold_option f xs s = Some s'"
    and "\<And>x s s'. f x s = Some s' \<Longrightarrow> alloc_state.more s' = alloc_state.more s"
  shows "alloc_state.more s' = alloc_state.more s"
  using fold_option_invariant [OF assms(1), of "\<lambda>t. alloc_state.more t = alloc_state.more s"] assms(2)
  by auto

lemma new_cache_more: "new_cache i a s = Some s' \<Longrightarrow> alloc_state.more s' = alloc_state.more s"
  by (auto simp: new_cache_def Let_def link_block_def elim!: bind_eq_SomeE dest!: fold_option_more)

lemma upd_cnt_more: "upd_cnt c f s = Some s' \<Longrightarrow> alloc_state.more s' = alloc_state.more s"
  by (auto simp: upd_cnt_def elim!: bind_eq_SomeE)

lemma find_block_more:
  "kmalloc_find_block i sz al bd s = Some (r, s') \<Longrightarrow> alloc_state.more s' = alloc_state.more s"
  by (auto simp: kmalloc_find_block_def elim!: bind_eq_SomeE split: if_splits option.splits)

lemma kmalloc_more:
  "kmalloc sz al bd s = Some (st, r, s') \<Longrightarrow> alloc_state.more s' = alloc_state.more s"
  unfolding kmalloc_def Let_def
  by (auto elim!: bind_eq_SomeE split: if_splits option.splits prod.splits
      dest!: spinlock_lock_more alloc_physical_page_more new_cache_more find_block_more upd_cnt_more)

lemma kfree_more: "kfree a s = Some s' \<Longrightarrow> alloc_state.more s' = alloc_state.more s"
  unfolding kfree_def Let_def
  by (auto elim!: bind_eq_SomeE split: if_splits option.splits prod.splits simp: unlink_block_def
      dest!: spinlock_lock_more free_physical_page_more upd_cnt_more fold_option_more)

subsection \<open>The properties\<close>

text \<open>After \<^verbatim>\<open>mem_allocator_init\<close>: no cache, empty lists, free locks.\<close>

lemma init_groups_other:
  "page_bitmap (init_groups n bs s) = page_bitmap s" "free_pages (init_groups n bs s) = free_pages s"
  "caches (init_groups n bs s) = caches s" "magic (init_groups n bs s) = magic s"
  "length (mem_groups (init_groups n bs s)) = length (mem_groups s)"
  by (induction n bs s rule: init_groups.induct) (simp_all add: init_spinlock_def Let_def)

lemma init_groups_nth:
  assumes "n \<le> 13" and "length (mem_groups s) = 13" and "bs = word_of_nat (bsz (13 - n))"
    and "\<forall>i < 13 - n. mem_groups s ! i = \<lparr>block_size = word_of_nat (bsz i), total_free = 0, free_block_list = []\<rparr> \<and>
      locks s (MemGroupLock i) = 1"
  shows "(\<forall>i < 13. mem_groups (init_groups n bs s) ! i =
      \<lparr>block_size = word_of_nat (bsz i), total_free = 0, free_block_list = []\<rparr> \<and>
      locks (init_groups n bs s) (MemGroupLock i) = 1) \<and>
    locks (init_groups n bs s) MemLock = locks s MemLock"
  using assms
proof (induction n bs s rule: init_groups.induct)
  case (2 n bs s)
  let ?i = "12 - n"
  let ?s = "init_spinlock (MemGroupLock ?i) (s\<lparr>mem_groups := (mem_groups s)[?i :=
    \<lparr>block_size = bs, total_free = 0, free_block_list = []\<rparr>]\<rparr>)"
  have step: "init_groups (Suc n) bs s = init_groups n (push_bit 1 bs) ?s"
    by (simp add: Let_def NUMBER_OF_MEMORY_BLOCK_TYPES_def)
  have i: "13 - Suc n = ?i" "13 - n = Suc ?i" using "2.prems"(1) by auto
  have bs: "push_bit 1 bs = word_of_nat (bsz (13 - n))"
    using "2.prems"(3) unfolding i by (simp add: bsz_def push_bit_eq_mult)
  have done_: "\<forall>k < 13 - n. mem_groups ?s ! k =
      \<lparr>block_size = word_of_nat (bsz k), total_free = 0, free_block_list = []\<rparr> \<and>
      locks ?s (MemGroupLock k) = 1"
    using "2.prems" unfolding i by (auto simp: init_spinlock_def less_Suc_eq)
  have len: "length (mem_groups ?s) = 13" using "2.prems"(2) by (simp add: init_spinlock_def)
  note IH = "2.IH" [OF refl refl, unfolded NUMBER_OF_MEMORY_BLOCK_TYPES_def i(1)]
  have n: "n \<le> 13" using "2.prems"(1) by simp
  have "locks ?s MemLock = locks s MemLock" by (simp add: init_spinlock_def)
  with IH [OF n len bs done_] show ?case unfolding step by simp
qed simp_all

lemma mem_allocator_init_kinv:
  assumes "phys_inv s" and "lock_free MemLock s" and "length (mem_groups s) = 13" and "caches s = (\<lambda>_. None)"
  shows "kinv (mem_allocator_init s)" "groups_unlocked (mem_allocator_init s)"
    "live (mem_allocator_init s) = {}"
proof -
  define t where "t = mem_allocator_init s"
  have t: "\<forall>i < 13. mem_groups t ! i =
      \<lparr>block_size = word_of_nat (bsz i), total_free = 0, free_block_list = []\<rparr> \<and>
      locks t (MemGroupLock i) = 1" "locks t MemLock = locks s MemLock"
    using init_groups_nth [of 13 s MIN_ALLOCATE_MEMORY_SIZE] assms(3)
    by (simp_all add: t_def mem_allocator_init_def NUMBER_OF_MEMORY_BLOCK_TYPES_def
        MIN_ALLOCATE_MEMORY_SIZE_def bsz_def)
  note other = init_groups_other [of 13 MIN_ALLOCATE_MEMORY_SIZE s,
      folded mem_allocator_init_def [unfolded NUMBER_OF_MEMORY_BLOCK_TYPES_def], folded t_def]
  show "kinv (mem_allocator_init s)"
    unfolding t_def [symmetric] using t other assms phys_inv_cong(1) [OF other(1,2)]
    by (simp add: kinv_def free_list_wf_def lock_free_def)
  show "groups_unlocked (mem_allocator_init s)"
    unfolding t_def [symmetric] using t by (simp add: groups_unlocked_def lock_free_def)
  show "live (mem_allocator_init s) = {}"
    unfolding t_def [symmetric] using other assms(4) by (simp add: live_def is_block_def)
qed

definition example_raw :: alloc_state where
  "example_raw = phys_state.extend example_phys
     \<lparr>mem_groups = replicate 13 \<lparr>block_size = 0, total_free = 0, free_block_list = []\<rparr>,
      caches = (\<lambda>_. None), magic = (\<lambda>_. 0)\<rparr>"

definition example_alloc :: alloc_state where
  "example_alloc = mem_allocator_init example_raw"

lemma example_alloc_inv: "kinv example_alloc" "groups_unlocked example_alloc" "live example_alloc = {}"
proof -
  have pb: "page_bitmap example_raw = page_bitmap example_phys"
      "free_pages example_raw = free_pages example_phys" "locks example_raw = locks example_phys"
    by (simp_all add: example_raw_def phys_state.extend_def)
  have "phys_inv example_raw"
    using example_phys_inv(1) pb
    by (simp add: phys_inv_def phys_wf_def slack_def free_set_def page_limit_def)
  moreover have "lock_free MemLock example_raw"
    using example_phys_inv(2) pb(3) by (simp add: lock_free_def)
  moreover have "length (mem_groups example_raw) = 13" "caches example_raw = (\<lambda>_. None)"
    by (simp_all add: example_raw_def phys_state.extend_def)
  ultimately show "kinv example_alloc" "groups_unlocked example_alloc" "live example_alloc = {}"
    unfolding example_alloc_def by (rule mem_allocator_init_kinv)+
qed

text \<open>C3: \<^verbatim>\<open>kmalloc\<close> is safe: from any state that satisfies the allocator's invariant with
  its locks free, a request of at most 256 KiB never faults and keeps the invariant. On success the
  block was not in use, is large enough, overlaps no block in use, meets the requested alignment and
  boundary, and the lock is free again; \<^verbatim>\<open>K_NOMEM\<close> changes nothing; \<^verbatim>\<open>K_NOT_FOUND\<close>
  leaves the blocks in use alone but a group lock held.\<close>

theorem kmalloc_correct:
  assumes "kinv s" and "groups_unlocked s" and "sz \<le> MAX_ALLOCATE_MEMORY_SIZE"
  shows "\<exists>st r s'. kmalloc sz al bd s = Some (st, r, s') \<and> kinv s' \<and> kmalloc_post sz al bd s st r s'"
  by (rule kmalloc_spec [OF assms, of al bd]) blast

lemma kmalloc_correct_witness:
  "\<exists>st r s'. kmalloc 0x1000 0 0x1000 example_alloc = Some (st, r, s') \<and> kinv s' \<and>
    kmalloc_post 0x1000 0 0x1000 example_alloc st r s'"
  by (rule kmalloc_correct [OF example_alloc_inv(1,2)]) (simp add: MAX_ALLOCATE_MEMORY_SIZE_def)

text \<open>C27: Every block that \<^verbatim>\<open>kmalloc\<close> hands out can be given back: \<^verbatim>\<open>kfree\<close>
  then succeeds, also when it returns the page to the page allocator, and exactly the blocks that
  were in use before are in use again.\<close>

theorem kmalloc_kfree_roundtrip:
  assumes "kinv s" and "groups_unlocked s" and "sz \<le> MAX_ALLOCATE_MEMORY_SIZE"
  shows "(\<exists>b s1 s2. kmalloc sz 0 0 s = Some (K_SUCCESS, Some b, s1) \<and> kfree b s1 = Some s2 \<and>
      kinv s2 \<and> groups_unlocked s2 \<and> live s2 = live s) \<or>
    kmalloc sz 0 0 s = Some (K_NOMEM, None, s)"
proof (cases "kmalloc sz 0 0 s = Some (K_NOMEM, None, s)")
  case False
  then obtain b s1 where b: "kmalloc sz 0 0 s = Some (K_SUCCESS, Some b, s1)"
    using km.alloc_total [of s sz] assms by blast
  obtain s2 where "kfree b s1 = Some s2" "kinv s2 \<and> groups_unlocked s2" "live s2 = live s"
    using km.alloc_dealloc [of s sz b s1] b assms by blast
  with b show ?thesis by blast
qed simp

lemma kmalloc_kfree_roundtrip_witness:
  "(\<exists>b s1 s2. kmalloc 100 0 0 example_alloc = Some (K_SUCCESS, Some b, s1) \<and> kfree b s1 = Some s2 \<and>
      kinv s2 \<and> groups_unlocked s2 \<and> live s2 = live example_alloc) \<or>
    kmalloc 100 0 0 example_alloc = Some (K_NOMEM, None, example_alloc)"
  by (rule kmalloc_kfree_roundtrip [OF example_alloc_inv(1,2)]) (simp add: MAX_ALLOCATE_MEMORY_SIZE_def)

end
