(* ===== verification/PageTable.thy ===== *)
theory PageTable
  imports KMalloc
begin

text \<open>
  The page tables of \<^verbatim>\<open>src/arch/x86_64/mem/page.c\<close>: three levels of tables with 512 entries
  over 2 MiB pages, walked through the kernel's window on physical memory. Tables are blocks of the
  allocator; their entries are the map \<open>pt_mem\<close> from (virtual) addresses to 64-bit words.
\<close>

record pt_state = alloc_state +
  pt_mem :: "addr \<Rightarrow> u64"
  cr3 :: addr

definition PT_SIZE :: u64 where "PT_SIZE = 0x1000"
definition KERNEL_PAGE_DIR_TABLE_POS :: addr where "KERNEL_PAGE_DIR_TABLE_POS = 0x510000"
definition PG_P :: u64 where "PG_P = 1"
definition PG_RW_W :: u64 where "PG_RW_W = 2"
definition PG_US_U :: u64 where "PG_US_U = 4"
definition PG_SIZE_2M :: u64 where "PG_SIZE_2M = 0x80"
definition PG_DEFAULT_FLAGS :: u64 where
  "PG_DEFAULT_FLAGS = PG_US_U OR PG_RW_W OR PG_P OR PG_SIZE_2M"

definition pml4t_index :: "addr \<Rightarrow> u64" where "pml4t_index v = drop_bit 39 v AND 0x1ff"
definition pdpt_index :: "addr \<Rightarrow> u64" where "pdpt_index v = drop_bit 30 v AND 0x1ff"
definition pdt_index :: "addr \<Rightarrow> u64" where "pdt_index v = drop_bit 21 v AND 0x1ff"
definition addr_offset :: "addr \<Rightarrow> u64" where "addr_offset v = v AND 0x1fffff"

definition tbl :: "u64 \<Rightarrow> addr" where "tbl e = e AND NOT 0xfff"
definition present :: "u64 \<Rightarrow> bool" where "present e \<longleftrightarrow> e AND PG_P \<noteq> 0"

text \<open>Entry \<open>i\<close> of the table at physical address \<open>t\<close>, through the kernel's window.\<close>

definition entry :: "addr \<Rightarrow> u64 \<Rightarrow> addr" where "entry t i = PHYS_TO_VIRT (t + 8 * i)"

definition rd :: "'a pt_state_scheme \<Rightarrow> addr \<Rightarrow> u64 \<Rightarrow> u64" where
  "rd s t i = pt_mem s (entry t i)"

definition wr :: "addr \<Rightarrow> u64 \<Rightarrow> u64 \<Rightarrow> 'a pt_state_scheme \<Rightarrow> 'a pt_state_scheme" where
  "wr t i x s = s\<lparr>pt_mem := (pt_mem s)(entry t i := x)\<rparr>"

subsection \<open>Walking and changing the tables\<close>

definition pml4t_entry :: "addr \<Rightarrow> addr \<Rightarrow> addr" where
  "pml4t_entry pml4t v = pml4t + 8 * pml4t_index v"

definition pdpt_entry :: "'a pt_state_scheme \<Rightarrow> addr \<Rightarrow> addr \<Rightarrow> addr" where
  "pdpt_entry s pml4t v = tbl (pt_mem s (PHYS_TO_VIRT (pml4t_entry pml4t v))) + 8 * pdpt_index v"

definition pdt_entry :: "'a pt_state_scheme \<Rightarrow> addr \<Rightarrow> addr \<Rightarrow> addr" where
  "pdt_entry s pml4t v = tbl (pt_mem s (PHYS_TO_VIRT (pdpt_entry s pml4t v))) + 8 * pdt_index v"

definition to_physical_address :: "'a pt_state_scheme \<Rightarrow> addr \<Rightarrow> addr \<Rightarrow> addr" where
  "to_physical_address s pml4t v =
     (let pml4e = rd s pml4t (pml4t_index v) in
      if \<not> present pml4e then NULL
      else let pdpte = rd s (tbl pml4e) (pdpt_index v) in
      if \<not> present pdpte then NULL
      else let pde = rd s (tbl pdpte) (pdt_index v) in
      if \<not> present pde then NULL
      else tbl pde + addr_offset v)"

text \<open>Allocation of a cleared table: \<^verbatim>\<open>kmalloc\<close>, the \<^verbatim>\<open>ASSERT\<close>, and the
  \<^verbatim>\<open>memset\<close>. The result is its physical address.\<close>

definition in_table :: "addr \<Rightarrow> addr \<Rightarrow> bool" where
  "in_table b a \<longleftrightarrow> unat (a - b) < 4096"

definition clear_table :: "addr \<Rightarrow> 'a pt_state_scheme \<Rightarrow> 'a pt_state_scheme" where
  "clear_table b s = s\<lparr>pt_mem := (\<lambda>a. if in_table b a then 0 else pt_mem s a)\<rparr>"

definition new_table :: "'a pt_state_scheme \<Rightarrow> (addr \<times> 'a pt_state_scheme) option" where
  "new_table s = do {
     (status, r, s) \<leftarrow> kmalloc PT_SIZE 0 PT_SIZE s;
     assert (\<not> ERROR status);
     v \<leftarrow> r;
     Some (VIRT_TO_PHYS v, clear_table v s) }"

text \<open>An entry that is not present gets a new table.\<close>

definition ensure_entry :: "addr \<Rightarrow> u64 \<Rightarrow> 'a pt_state_scheme \<Rightarrow> 'a pt_state_scheme option" where
  "ensure_entry t i s =
     (if \<not> present (rd s t i) then do {
        (p, s) \<leftarrow> new_table s;
        Some (wr t i (p OR PG_US_U OR PG_RW_W OR PG_P) s) }
      else Some s)"

definition page_map :: "addr \<Rightarrow> addr \<Rightarrow> addr \<Rightarrow> 'a pt_state_scheme \<Rightarrow> 'a pt_state_scheme option" where
  "page_map pml4t paddr vaddr s = do {
     let paddr = paddr AND NOT (PG_SIZE - 1);
     let vaddr = vaddr AND NOT (PG_SIZE - 1);
     s \<leftarrow> ensure_entry pml4t (pml4t_index vaddr) s;
     let pdpt = tbl (rd s pml4t (pml4t_index vaddr));
     s \<leftarrow> ensure_entry pdpt (pdpt_index vaddr) s;
     let pdt = tbl (rd s pdpt (pdpt_index vaddr));
     Some (wr pdt (pdt_index vaddr) (paddr OR PG_DEFAULT_FLAGS) s) }"

text \<open>The walk with assertions shared by \<^verbatim>\<open>page_unmap\<close> and \<^verbatim>\<open>set_page_flags\<close>: the table and
  the entry.\<close>

definition walk_asserted :: "addr \<Rightarrow> addr \<Rightarrow> 'a pt_state_scheme \<Rightarrow> addr option" where
  "walk_asserted pml4t vaddr s = do {
     let pml4e = rd s pml4t (pml4t_index vaddr);
     assert (present pml4e);
     let pdpte = rd s (tbl pml4e) (pdpt_index vaddr);
     assert (present pdpte);
     assert (present (rd s (tbl pdpte) (pdt_index vaddr)));
     Some (tbl pdpte) }"

definition page_unmap :: "addr \<Rightarrow> addr \<Rightarrow> 'a pt_state_scheme \<Rightarrow> 'a pt_state_scheme option" where
  "page_unmap pml4t vaddr s = do {
     let vaddr = vaddr AND NOT (PG_SIZE - 1);
     pdt \<leftarrow> walk_asserted pml4t vaddr s;
     Some (wr pdt (pdt_index vaddr) (rd s pdt (pdt_index vaddr) AND NOT PG_P) s) }"

definition set_page_flags ::
  "addr \<Rightarrow> addr \<Rightarrow> u64 \<Rightarrow> 'a pt_state_scheme \<Rightarrow> 'a pt_state_scheme option" where
  "set_page_flags pml4t vaddr flags s = do {
     let vaddr = vaddr AND NOT (PG_SIZE - 1);
     pdt \<leftarrow> walk_asserted pml4t vaddr s;
     Some (wr pdt (pdt_index vaddr) (tbl (rd s pdt (pdt_index vaddr)) OR flags) s) }"

definition set_page_table :: "addr \<Rightarrow> 'a pt_state_scheme \<Rightarrow> 'a pt_state_scheme" where
  "set_page_table t s = s\<lparr>cr3 := t\<rparr>"

subsection \<open>Freeing the tables of a process\<close>

definition free_pdt :: "addr \<Rightarrow> 'a pt_state_scheme \<Rightarrow> 'a pt_state_scheme option" where
  "free_pdt pdt s = do {
     s \<leftarrow> fold_option (\<lambda>i s.
       let e = rd s pdt (word_of_nat i) in
       if present e then free_physical_page (tbl e) 1 s else Some s) [0..<512] s;
     kfree (PHYS_TO_VIRT pdt) s }"

definition free_pdpt :: "addr \<Rightarrow> 'a pt_state_scheme \<Rightarrow> 'a pt_state_scheme option" where
  "free_pdpt pdpt s = do {
     s \<leftarrow> fold_option (\<lambda>i s.
       let e = rd s pdpt (word_of_nat i) in
       if present e then free_pdt (tbl e) s else Some s) [0..<512] s;
     kfree (PHYS_TO_VIRT pdpt) s }"

definition free_page_table :: "addr \<Rightarrow> 'a pt_state_scheme \<Rightarrow> 'a pt_state_scheme option" where
  "free_page_table pml4t s = do {
     s \<leftarrow> fold_option (\<lambda>i s.
       let e = rd s pml4t (word_of_nat i) in
       if present e then free_pdpt (tbl e) s else Some s) [0..<256] s;
     kfree (PHYS_TO_VIRT pml4t) s }"

subsection \<open>Words of entries and tables\<close>

lemma mask12: "(0xfff :: u64) = mask 12" and mask21: "(0x1fffff :: u64) = mask 21"
  and mask9: "(0x1ff :: u64) = mask 9" and pg_mask: "PG_SIZE - 1 = (mask 21 :: u64)"
  by (simp_all add: mask_eq_exp_minus_1 PG_SIZE_def)

lemma present_bit: "present e \<longleftrightarrow> bit e 0"
  by (simp add: present_def PG_P_def and_one_eq bit_0 odd_iff_mod_2_eq_one)

lemma bit_tbl: "bit (tbl e) n \<longleftrightarrow> 12 \<le> n \<and> bit e n"
  by (auto simp: tbl_def mask12 bit_simps dest: bit_imp_le_length)

definition aligned :: "addr \<Rightarrow> bool" where
  "aligned t \<longleftrightarrow> tbl t = t"

lemma aligned_iff: "aligned t \<longleftrightarrow> take_bit 12 t = 0"
  by (auto simp: aligned_def bit_eq_iff bit_tbl bit_take_bit_iff not_le)

lemma aligned_virt: "aligned (PHYS_TO_VIRT p) = aligned p"
proof -
  have un: "unat (take_bit 12 x) = unat x mod 4096" for x :: u64
    by (simp add: take_bit_eq_mod unat_mod)
  have "unat (PHYS_TO_VIRT p) mod 4096 = (unat p + unat KERNEL_VMA_BASE) mod 2 ^ 64 mod 4096"
    by (simp add: PHYS_TO_VIRT_def unat_word_ariths)
  also have "\<dots> = (unat p + unat KERNEL_VMA_BASE) mod 4096" by (rule mod_mod_cancel) simp
  also have "\<dots> = unat p mod 4096" by (simp add: KERNEL_VMA_BASE_def mod_add_eq [symmetric])
  finally have "unat (take_bit 12 (PHYS_TO_VIRT p)) = unat (take_bit 12 p)" by (simp only: un)
  then show ?thesis by (simp add: aligned_iff word_unat_eq_iff)
qed

lemma tbl_aligned [simp]: "aligned (tbl e)"
  by (auto simp: aligned_def bit_eq_iff bit_tbl)

lemma aligned_bits: "aligned t \<Longrightarrow> bit t n \<Longrightarrow> 12 \<le> n"
  by (metis aligned_def bit_tbl)

text \<open>Flags live in the low twelve bits, the address above them.\<close>

lemma tbl_or_low:
  assumes "aligned p" and "take_bit 12 f = f"
  shows "tbl (p OR f) = p"
proof (rule bit_word_eqI)
  fix n
  have "bit f n \<Longrightarrow> n < 12" using assms(2) by (metis bit_take_bit_iff)
  then show "bit (tbl (p OR f)) n = bit p n"
    using aligned_bits [OF assms(1), of n] by (auto simp: bit_tbl bit_or_iff)
qed

lemma flags_val: "PG_US_U OR PG_RW_W OR PG_P = (7 :: u64)" "PG_DEFAULT_FLAGS = (0x87 :: u64)"
  by (simp_all add: PG_US_U_def PG_RW_W_def PG_P_def PG_DEFAULT_FLAGS_def PG_SIZE_2M_def)

lemma table_entry [simp]:
  assumes "aligned p"
  shows "tbl (p OR PG_US_U OR PG_RW_W OR PG_P) = p" "present (p OR PG_US_U OR PG_RW_W OR PG_P)"
proof -
  have "p OR PG_US_U OR PG_RW_W OR PG_P = p OR 7"
    using flags_val(1) by (simp add: or.assoc)
  then show "tbl (p OR PG_US_U OR PG_RW_W OR PG_P) = p" "present (p OR PG_US_U OR PG_RW_W OR PG_P)"
    using tbl_or_low [OF assms, of 7] by (simp_all add: present_bit bit_or_iff)
qed

definition page_base :: "addr \<Rightarrow> addr" where
  "page_base a = a AND NOT (PG_SIZE - 1)"

lemma bit_page_base: "bit (page_base a) n \<longleftrightarrow> 21 \<le> n \<and> bit a n"
  by (auto simp: page_base_def pg_mask bit_simps dest: bit_imp_le_length)

lemma page_base_aligned [simp]: "aligned (page_base a)"
  by (auto simp: aligned_def bit_eq_iff bit_tbl bit_page_base)

lemma page_entry [simp]:
  "tbl (page_base a OR PG_DEFAULT_FLAGS) = page_base a" "present (page_base a OR PG_DEFAULT_FLAGS)"
  using tbl_or_low [of "page_base a" "0x87"] by (simp_all add: flags_val present_bit bit_or_iff)

text \<open>The indices of an address are those of its page.\<close>

lemma index_page_base [simp]:
  "pml4t_index (page_base v) = pml4t_index v" "pdpt_index (page_base v) = pdpt_index v"
  "pdt_index (page_base v) = pdt_index v"
  by (auto simp: pml4t_index_def pdpt_index_def pdt_index_def bit_eq_iff bit_simps bit_page_base)

lemma index_less:
  "unat (pml4t_index v) < 512" "unat (pdpt_index v) < 512" "unat (pdt_index v) < 512"
proof -
  have "unat (x AND mask 9) < 512" for x :: u64
  proof -
    have "x AND mask 9 < 2 ^ 9" by (rule and_mask_less') simp
    then show ?thesis by (simp add: word_less_nat_alt)
  qed
  then show "unat (pml4t_index v) < 512" "unat (pdpt_index v) < 512" "unat (pdt_index v) < 512"
    unfolding pml4t_index_def pdpt_index_def pdt_index_def mask9 by blast+
qed

text \<open>Entries of tables do not overlap.\<close>

lemma tbl_plus:
  assumes t: "aligned t" and x: "unat x < 4096"
  shows "tbl (t + x) = t"
proof -
  have "unat (take_bit 12 x) = unat x"
    using x by (simp add: unsigned_take_bit_eq take_bit_nat_eq_self)
  then have tx: "take_bit 12 x = x" by (simp only: word_unat_eq_iff)
  then have "bit x n \<Longrightarrow> n < 12" for n by (metis bit_take_bit_iff)
  then have "t AND x = 0"
    using aligned_bits [OF t] by (auto simp: bit_eq_iff bit_and_iff not_less [symmetric])
  then show ?thesis using tbl_or_low [OF t tx] by (simp add: disjunctive_add_eq_or)
qed

lemma unat_8: "unat i < 512 \<Longrightarrow> unat (8 * i :: u64) = 8 * unat i"
  by (simp add: unat_word_ariths)

lemma entry_inj:
  assumes "aligned t" "aligned u" "unat i < 512" "unat j < 512"
  shows "entry t i = entry u j \<longleftrightarrow> t = u \<and> i = j"
proof
  assume "entry t i = entry u j"
  then have eq: "t + 8 * i = u + 8 * j" by (simp add: entry_def PHYS_TO_VIRT_def)
  have "tbl (t + 8 * i) = t" "tbl (u + 8 * j) = u"
    using assms unat_8 by (auto intro!: tbl_plus)
  then have "t = u" using eq by metis
  then have "8 * i = 8 * j" using eq by simp
  then have "unat i = unat j" using unat_8 [OF assms(3)] unat_8 [OF assms(4)] by simp
  then show "t = u \<and> i = j" using \<open>t = u\<close> by (simp add: word_unat_eq_iff)
qed simp

lemma in_table_entry:
  assumes "aligned t" "aligned p" "unat j < 512"
  shows "in_table (PHYS_TO_VIRT p) (entry t j) \<longleftrightarrow> t = p"
proof -
  have eq: "entry t j - PHYS_TO_VIRT p = t + 8 * j - p"
    by (simp add: entry_def PHYS_TO_VIRT_def)
  show ?thesis
  proof
    assume "in_table (PHYS_TO_VIRT p) (entry t j)"
    then have "unat (t + 8 * j - p) < 4096" by (simp add: in_table_def eq)
    from tbl_plus [OF assms(2) this] have "tbl (t + 8 * j) = p" by simp
    moreover have "tbl (t + 8 * j) = t" using assms unat_8 by (auto intro!: tbl_plus)
    ultimately show "t = p" by simp
  next
    assume "t = p"
    then show "in_table (PHYS_TO_VIRT p) (entry t j)"
      unfolding in_table_def eq using unat_8 [OF assms(3)] assms(3) by simp
  qed
qed

lemma rd_wr:
  assumes "aligned t" "aligned u" "unat i < 512" "unat j < 512"
  shows "rd (wr t i x s) u j = (if u = t \<and> j = i then x else rd s u j)"
  using entry_inj [OF assms] by (auto simp: rd_def wr_def)

lemma rd_clear:
  assumes "aligned p" "aligned u" "unat j < 512"
  shows "rd (clear_table (PHYS_TO_VIRT p) s) u j = (if u = p then 0 else rd s u j)"
  using in_table_entry [OF assms(2,1,3)] by (auto simp: rd_def clear_table_def)

lemma not_present_0 [simp]: "\<not> present 0"
  by (simp add: present_def)

subsection \<open>Trees of tables\<close>

text \<open>
  A process's tables. The user half of the root (256 entries) has its own second-level tables, and
  these their own third-level tables; no table is shared, and every one is a block in use.
\<close>

text \<open>The tables below the root that the user half reaches: entries \<open>(t, i)\<close> that point to tables.\<close>

definition user_index :: "u64 \<Rightarrow> bool" where "user_index i \<longleftrightarrow> unat i < 256"

definition table_slots :: "'a pt_state_scheme \<Rightarrow> addr \<Rightarrow> (addr \<times> u64) set" where
  "table_slots s r =
     {(r, i) | i. user_index i \<and> present (rd s r i)} \<union>
     {(tbl (rd s r i), j) | i j. user_index i \<and> present (rd s r i) \<and> unat j < 512 \<and>
        present (rd s (tbl (rd s r i)) j)}"

definition pointee :: "'a pt_state_scheme \<Rightarrow> addr \<times> u64 \<Rightarrow> addr" where
  "pointee s x = tbl (rd s (fst x) (snd x))"

definition pt_wf :: "'a pt_state_scheme \<Rightarrow> addr \<Rightarrow> bool" where
  "pt_wf s r \<longleftrightarrow> aligned r \<and> PHYS_TO_VIRT r \<in> live s \<and>
     inj_on (pointee s) (table_slots s r) \<and>
     (\<forall>x \<in> table_slots s r. pointee s x \<noteq> r \<and> PHYS_TO_VIRT (pointee s x) \<in> live s)"

text \<open>A place for a table: an entry of the root's user half, or of a second-level table.\<close>

definition slot_place :: "'a pt_state_scheme \<Rightarrow> addr \<Rightarrow> addr \<Rightarrow> u64 \<Rightarrow> bool" where
  "slot_place s r t i \<longleftrightarrow> (t = r \<and> user_index i) \<or>
     (\<exists>k. user_index k \<and> present (rd s r k) \<and> t = tbl (rd s r k) \<and> unat i < 512)"

lemma slots_iff:
  "(t, i) \<in> table_slots s r \<longleftrightarrow> slot_place s r t i \<and> present (rd s t i)"
  by (auto simp: table_slots_def slot_place_def)

lemma user_index_512: "user_index i \<Longrightarrow> unat i < 512"
  by (simp add: user_index_def)

lemma pt_wfD:
  assumes "pt_wf s r"
  shows "aligned r" "PHYS_TO_VIRT r \<in> live s" "inj_on (pointee s) (table_slots s r)"
    "\<And>x. x \<in> table_slots s r \<Longrightarrow> pointee s x \<noteq> r"
    "\<And>x. x \<in> table_slots s r \<Longrightarrow> PHYS_TO_VIRT (pointee s x) \<in> live s"
  using assms by (auto simp: pt_wf_def)

lemma slot_place_table:
  assumes "pt_wf s r" and "slot_place s r t i"
  shows "aligned t" "unat i < 512" "PHYS_TO_VIRT t \<in> live s"
  using assms(2) pt_wfD(1,2) [OF assms(1)] pt_wfD(5) [OF assms(1), of "(r, k)" for k]
  by (auto simp: slot_place_def user_index_512 slots_iff pointee_def)

text \<open>A new table.\<close>

definition pt_inv :: "'a pt_state_scheme \<Rightarrow> bool" where
  "pt_inv s \<longleftrightarrow> kinv s \<and> groups_unlocked s"

lemma new_table_spec:
  assumes inv: "pt_inv s" and nt: "new_table s = Some (p, s')"
  obtains s1 where "s' = clear_table (PHYS_TO_VIRT p) s1" and "pt_mem s1 = pt_mem s" and "cr3 s1 = cr3 s"
    and "pt_inv s'" and "aligned p" and "PHYS_TO_VIRT p \<notin> live s"
    and "live s' = insert (PHYS_TO_VIRT p) (live s)"
proof -
  have k: "kinv s" "groups_unlocked s" using inv by (auto simp: pt_inv_def)
  have sz: "PT_SIZE \<le> MAX_ALLOCATE_MEMORY_SIZE" by (simp add: PT_SIZE_def MAX_ALLOCATE_MEMORY_SIZE_def)
  obtain st r s1 where km: "kmalloc PT_SIZE 0 PT_SIZE s = Some (st, r, s1)" "kinv s1"
      "kmalloc_post PT_SIZE 0 PT_SIZE s st r s1"
    by (rule kmalloc_spec [OF k sz])
  have st: "st = K_SUCCESS" using nt km(1) by (auto simp: new_table_def ERROR_def split: if_splits)
  then obtain b where b: "r = Some b" "b \<notin> live s" "live s1 = insert b (live s)"
      "fits PT_SIZE PT_SIZE PT_SIZE b" "locks s1 = locks s"
    using km(3) by (auto simp: kmalloc_post_def PT_SIZE_def)
  have p: "p = VIRT_TO_PHYS b" "s' = clear_table b s1"
    using nt km(1) st b(1) by (auto simp: new_table_def)
  have more: "alloc_state.more s1 = alloc_state.more s" using kmalloc_more [OF km(1)] .
  have mem: "pt_mem s1 = pt_mem s" "cr3 s1 = cr3 s"
    using more by (cases s1; cases s; simp)+
  have "b AND mask 12 = 0" using b(4) by (simp add: fits_def PT_SIZE_def mask_eq_exp_minus_1)
  then have "aligned b" by (simp add: aligned_iff take_bit_eq_mask)
  then have al: "aligned p" using aligned_virt [of p] p(1) by simp
  have "kinv s'"
    unfolding p(2) using km(2) by (subst kinv_cong [of _ s1]) (simp_all add: clear_table_def lock_free_def)
  moreover have "groups_unlocked s'"
    using k(2) b(5) by (simp add: p(2) clear_table_def groups_unlocked_def lock_free_def)
  moreover have "live s' = insert b (live s)"
    using b(3) live_cong [of s' s1] by (simp add: p(2) clear_table_def)
  ultimately show thesis
    using that [of s1] p mem al b(2) by (simp add: pt_inv_def)
qed

lemma wr_simps [simp]:
  "live (wr t i x s) = live s" "pt_inv (wr t i x s) = pt_inv s" "cr3 (wr t i x s) = cr3 s"
proof -
  show "live (wr t i x s) = live s" by (rule live_cong) (simp_all add: wr_def)
  have "kinv (wr t i x s) = kinv s" by (rule kinv_cong) (simp_all add: wr_def lock_free_def)
  then show "pt_inv (wr t i x s) = pt_inv s"
    by (simp add: pt_inv_def groups_unlocked_def) (simp add: wr_def lock_free_def)
qed (simp add: wr_def)

text \<open>The state after a table was made and linked, entry by entry.\<close>

lemma ensure_entry_spec:
  assumes inv: "pt_inv s" and wf: "pt_wf s r" and pl: "slot_place s r t i"
    and en: "ensure_entry t i s = Some s'"
  shows "pt_inv s'" and "pt_wf s' r" and "present (rd s' t i)" and "slot_place s' r t i"
    and "\<And>v. user_index (pml4t_index v) \<Longrightarrow> to_physical_address s' r v = to_physical_address s r v"
    and "cr3 s' = cr3 s"
    and "\<And>u j. slot_place s r u j \<Longrightarrow> present (rd s u j) \<Longrightarrow> rd s' u j = rd s u j"
proof -
  note W = pt_wfD [OF wf]
  note T = slot_place_table [OF wf]
  have "pt_inv s' \<and> pt_wf s' r \<and> present (rd s' t i) \<and> slot_place s' r t i \<and>
    (\<forall>v. user_index (pml4t_index v) \<longrightarrow> to_physical_address s' r v = to_physical_address s r v) \<and>
    cr3 s' = cr3 s \<and> (\<forall>u j. slot_place s r u j \<longrightarrow> present (rd s u j) \<longrightarrow> rd s' u j = rd s u j)"
  proof (cases "present (rd s t i)")
    case True
    then show ?thesis using assms by (simp add: ensure_entry_def)
  next
    case False
    then obtain p s2 where nt: "new_table s = Some (p, s2)"
      and s': "s' = wr t i (p OR PG_US_U OR PG_RW_W OR PG_P) s2"
      using en by (auto simp: ensure_entry_def elim!: bind_eq_SomeE)
    obtain s1 where s1: "s2 = clear_table (PHYS_TO_VIRT p) s1" "pt_mem s1 = pt_mem s" "cr3 s1 = cr3 s"
        "pt_inv s2" "aligned p" "PHYS_TO_VIRT p \<notin> live s" "live s2 = insert (PHYS_TO_VIRT p) (live s)"
      by (rule new_table_spec [OF inv nt])
    have rd2: "rd s2 u j = (if u = p then 0 else rd s u j)" if "aligned u" "unat j < 512" for u j
      using rd_clear [OF s1(5) that, of s1] s1(1,2) by (simp add: rd_def)
    have rd': "rd s' u j = (if u = t \<and> j = i then p OR PG_US_U OR PG_RW_W OR PG_P
        else if u = p then 0 else rd s u j)" if "aligned u" "unat j < 512" for u j
      unfolding s' using rd2 [OF that]
        rd_wr [OF T(1) [OF pl] that(1) T(2) [OF pl] that(2), of "p OR PG_US_U OR PG_RW_W OR PG_P" s2]
      by auto
    have pt: "t \<noteq> p" using T(3) [OF pl] s1(6) by auto
    have old: "u \<noteq> p" "aligned u" "unat j < 512" if "slot_place s r u j" for u j
      using T [OF that] s1(6) by auto
    have rdo: "rd s' u j = rd s u j" if "slot_place s r u j" "(u, j) \<noteq> (t, i)" for u j
      using rd' [OF old(2,3)] old(1) that by auto
    have rdn: "tbl (rd s' t i) = p" "present (rd s' t i)"
      using rd' [OF T(1) [OF pl] T(2) [OF pl]] s1(5) by simp_all
    have place: "slot_place s' r u j \<longleftrightarrow> slot_place s r u j \<or> (t = r \<and> u = p \<and> unat j < 512)" for u j
    proof -
      have root: "slot_place s r r k" if "user_index k" for k using that by (simp add: slot_place_def)
      show ?thesis
      proof (cases "t = r")
        case True
        have "tbl (rd s r k) \<noteq> r" if "user_index k" "present (rd s r k)" for k
          using W(4) [of "(r, k)"] root [OF that(1)] that by (simp add: slots_iff pointee_def)
        then have "user_index i" using pl True unfolding slot_place_def by metis
        then show ?thesis
          using True rdo [OF root] rdn False by (auto simp: slot_place_def) metis+
      next
        case False
        then show ?thesis using rdo [OF root] by (auto simp: slot_place_def)
      qed
    qed
    have zero: "\<not> present (rd s' p j)" if "unat j < 512" for j
      using rd' [OF s1(5) that] pt by simp
    have slots: "x \<in> table_slots s' r \<longleftrightarrow> x \<in> table_slots s r \<or> x = (t, i)" for x
    proof -
      obtain u j where x: "x = (u, j)" by (cases x)
      show ?thesis
      proof (cases "(u, j) = (t, i)")
        case True
        then show ?thesis using x place pl rdn(2) by (simp add: slots_iff)
      next
        case False
        then have "slot_place s r u j \<Longrightarrow> rd s' u j = rd s u j" using rdo by blast
        then show ?thesis using False x place zero by (auto simp: slots_iff)
      qed
    qed
    have new: "(t, i) \<notin> table_slots s r" using False by (simp add: slots_iff)
    have po: "pointee s' x = (if x = (t, i) then p else pointee s x)" if "x \<in> table_slots s' r" for x
    proof (cases "x = (t, i)")
      case neq: False
      then have "x \<in> table_slots s r" using that slots by simp
      then show ?thesis using rdo [of "fst x" "snd x"] neq
        by (cases x) (auto simp: pointee_def slots_iff)
    qed (simp add: pointee_def rdn)
    have pfresh: "pointee s x \<noteq> p" if "x \<in> table_slots s r" for x
      using W(5) [OF that] s1(6) by auto
    have live': "live s' = insert (PHYS_TO_VIRT p) (live s)" using s1(7) by (simp add: s')
    have "inj_on (pointee s') (table_slots s' r)"
    proof (rule inj_onI)
      fix x y assume "x \<in> table_slots s' r" "y \<in> table_slots s' r" "pointee s' x = pointee s' y"
      then show "x = y"
        using po slots pfresh inj_onD [OF W(3)] by (metis (full_types))
    qed
    moreover have "pointee s' x \<noteq> r \<and> PHYS_TO_VIRT (pointee s' x) \<in> live s'"
      if "x \<in> table_slots s' r" for x
      using po [OF that] that slots [of x] W(2) W(4) [of x] W(5) [of x] s1(6) live' by auto
    ultimately have wf': "pt_wf s' r" using W(1,2) live' by (simp add: pt_wf_def)
    have phys: "to_physical_address s' r v = to_physical_address s r v"
      if uv: "user_index (pml4t_index v)" for v
    proof -
      define a b c where "a = pml4t_index v" and "b = pdpt_index v" and "c = pdt_index v"
      have idx: "unat b < 512" "unat c < 512" using index_less by (auto simp: b_def c_def)
      have ra: "slot_place s r r a" using uv by (simp add: slot_place_def a_def)
      note tp = to_physical_address_def Let_def a_def [symmetric] b_def [symmetric] c_def [symmetric]
      show ?thesis
      proof (cases "(r, a) = (t, i)")
        case True
        then show ?thesis using False rdn zero [OF idx(1)] by (simp add: tp)
      next
        case ra_old: False
        have a': "rd s' r a = rd s r a" using rdo [OF ra ra_old] .
        define P where "P = tbl (rd s r a)"
        show ?thesis
        proof (cases "present (rd s r a)")
          case pa: True
          have pb: "slot_place s r P b" using pa uv idx by (auto simp: slot_place_def P_def a_def)
          show ?thesis
          proof (cases "(P, b) = (t, i)")
            case True
            then show ?thesis using False a' rdn zero [OF idx(2)] P_def by (simp add: tp)
          next
            case pb_old: False
            have b': "rd s' P b = rd s P b" using rdo [OF pb pb_old] .
            show ?thesis
            proof (cases "present (rd s P b)")
              case True
              define D where "D = tbl (rd s P b)"
              have sl: "(P, b) \<in> table_slots s r" "(r, a) \<in> table_slots s r"
                using True pa pb ra by (simp_all add: slots_iff)
              have D: "D = pointee s (P, b)" by (simp add: D_def pointee_def)
              have "P \<noteq> r" using W(4) [OF sl(2)] by (simp add: pointee_def P_def)
              have "D \<noteq> t"
              proof
                assume "D = t"
                have "t \<noteq> r" using W(4) [OF sl(1)] D \<open>D = t\<close> by simp
                then obtain k where k: "user_index k" "present (rd s r k)" "t = tbl (rd s r k)"
                  using pl by (auto simp: slot_place_def)
                then have "(r, k) \<in> table_slots s r" "pointee s (r, k) = t"
                  by (auto simp: slots_iff slot_place_def pointee_def)
                then have "(r, k) = (P, b)" using inj_onD [OF W(3)] sl(1) D \<open>D = t\<close> by metis
                with \<open>P \<noteq> r\<close> show False by simp
              qed
              moreover have "D \<noteq> p" using pfresh [OF sl(1)] D by simp
              ultimately have "rd s' D c = rd s D c" using rd' [of D c] idx by (simp add: D_def)
              then show ?thesis using a' b' by (simp add: tp P_def [symmetric] D_def [symmetric])
            qed (use a' b' in \<open>simp add: tp P_def [symmetric]\<close>)
          qed
        qed (use a' in \<open>simp add: tp\<close>)
      qed
    qed
    have "rd s' u j = rd s u j" if "slot_place s r u j" "present (rd s u j)" for u j
      using rdo [OF that(1)] that(2) False by auto
    then show ?thesis
      using wf' phys rdn(2) place pl s1(3,4) by (simp add: s' s1(1) clear_table_def)
  qed
  then show "pt_inv s'" and "pt_wf s' r" and "present (rd s' t i)" and "slot_place s' r t i"
    and "\<And>v. user_index (pml4t_index v) \<Longrightarrow> to_physical_address s' r v = to_physical_address s r v"
    and "cr3 s' = cr3 s"
    and "\<And>u j. slot_place s r u j \<Longrightarrow> present (rd s u j) \<Longrightarrow> rd s' u j = rd s u j"
    by blast+
qed


subsection \<open>A table can always be made while a page is free\<close>

lemma table_fits:
  assumes "p < 16384" "i < 13" "j < nbn i" "4096 \<le> bsz i"
  shows "fits PT_SIZE PT_SIZE PT_SIZE (blk p i j)"
proof -
  define b where "b = blk p i j"
  have "bsz i = 2 ^ (i + 6)" by (simp add: bsz_def power_add)
  then have pw: "(2 :: nat) ^ 12 \<le> 2 ^ (i + 6)" using assms(4) by simp
  then have "12 \<le> i + 6" by (rule power_le_imp_le_exp [rotated]) simp
  then have "(4096 :: nat) dvd bsz i"
    using \<open>bsz i = 2 ^ (i + 6)\<close> le_imp_power_dvd [of 12 "i + 6" "2 :: nat"] by simp
  moreover have "bsz i dvd 2097152" using bsz_bounds [OF assms(2)] by (metis dvd_triv_right)
  moreover have "(4096 :: nat) dvd vma" "(4096 :: nat) dvd 2097152" by (simp_all add: vma_def)
  ultimately have d: "4096 dvd unat b"
    unfolding b_def unat_blk [OF assms(1-3)] by (intro dvd_add dvd_mult) auto
  then have "unat b mod 4096 = 0" by simp
  then have "unat (take_bit 12 b) = 0" by (simp add: take_bit_eq_mod unat_mod)
  then have "take_bit 12 b = 0" by (simp only: unat_eq_zero)
  then have al: "b AND (4096 - 1) = 0" by (simp add: take_bit_eq_mask mask_eq_exp_minus_1)
  obtain q where q: "unat b = 4096 * q" using d by (elim dvdE)
  have "unat b < 2 ^ 64" using unsigned_less [of b] by simp
  then have "q < 4503599627370496" using q by simp
  then have "unat b + 4095 < 2 ^ 64" using q by simp
  then have "unat (b + 4095) = unat b + 4095"
    using unat_add_no_wrap [of b 4095] by simp
  then have "unat ((b + 4095) div 4096) = unat (b div 4096)"
    unfolding unat_div using q by simp
  then have "b div 4096 = (b + 4095) div 4096" by (simp add: word_unat_eq_iff)
  then show ?thesis using al by (simp add: fits_def PT_SIZE_def b_def add.commute)
qed

lemma kmalloc_free_set: "kmalloc_post PT_SIZE 0 PT_SIZE s st r s' \<Longrightarrow> free_set s \<noteq> {} \<Longrightarrow> st = K_SUCCESS"
proof (rule ccontr)
  assume post: "kmalloc_post PT_SIZE 0 PT_SIZE s st r s'" and ne: "free_set s \<noteq> {}" and "st \<noteq> K_SUCCESS"
  then have "st = K_NOT_FOUND" by (cases st) (auto simp: kmalloc_post_def)
  then obtain i p j where "i < 13" "unat PT_SIZE \<le> bsz i" "p < 16384" "j < nbn i"
      "\<not> fits PT_SIZE (if 0 < PT_SIZE then PT_SIZE else 0) PT_SIZE (blk p i j)"
    using post by (auto simp: kmalloc_post_def)
  then show False using table_fits [of p i j] by (simp add: PT_SIZE_def)
qed

lemma new_table_total:
  assumes inv: "pt_inv s" and ne: "free_set s \<noteq> {}"
  obtains p s' where "new_table s = Some (p, s')" and "card (free_set s) \<le> Suc (card (free_set s'))"
proof -
  have k: "kinv s" "groups_unlocked s" using inv by (auto simp: pt_inv_def)
  have sz: "PT_SIZE \<le> MAX_ALLOCATE_MEMORY_SIZE" by (simp add: PT_SIZE_def MAX_ALLOCATE_MEMORY_SIZE_def)
  obtain st r s1 where km: "kmalloc PT_SIZE 0 PT_SIZE s = Some (st, r, s1)"
      "kmalloc_post PT_SIZE 0 PT_SIZE s st r s1"
    by (rule kmalloc_spec [OF k sz])
  have st: "st = K_SUCCESS" by (rule kmalloc_free_set [OF km(2) ne])
  then obtain b where b: "r = Some b" "card (free_set s) \<le> Suc (card (free_set s1))"
    using km(2) by (auto simp: kmalloc_post_def)
  have "free_set (clear_table b s1) = free_set s1" by (simp add: free_set_def page_limit_def clear_table_def)
  then show thesis
    using that [of "VIRT_TO_PHYS b" "clear_table b s1"] km(1) st b
    by (simp add: new_table_def assert_def)
qed

lemma ensure_entry_total:
  assumes inv: "pt_inv s" and n: "Suc n \<le> card (free_set s)"
  obtains s' where "ensure_entry t i s = Some s'" and "n \<le> card (free_set s')"
proof (cases "present (rd s t i)")
  case True
  then show thesis using that n by (simp add: ensure_entry_def)
next
  case False
  have "free_set s \<noteq> {}" using n by auto
  then obtain p s1 where nt: "new_table s = Some (p, s1)" "card (free_set s) \<le> Suc (card (free_set s1))"
    using new_table_total [OF inv] by blast
  have "free_set (wr t i x s1) = free_set s1" for x by (simp add: free_set_def page_limit_def wr_def)
  then show thesis
    using that [of "wr t i (p OR PG_US_U OR PG_RW_W OR PG_P) s1"] False nt n
    by (simp add: ensure_entry_def)
qed

subsection \<open>Changing a leaf\<close>

text \<open>The third-level table of an address is no other table of the tree.\<close>

lemma leaf_table:
  assumes wf: "pt_wf s r" and a: "user_index a" "present (rd s r a)"
    and P: "P = tbl (rd s r a)" and b: "unat b < 512" "present (rd s P b)" and D: "D = tbl (rd s P b)"
  shows "D \<noteq> r" and "\<And>k. user_index k \<Longrightarrow> present (rd s r k) \<Longrightarrow> tbl (rd s r k) \<noteq> D"
    and "\<And>k j. user_index k \<Longrightarrow> present (rd s r k) \<Longrightarrow> unat j < 512 \<Longrightarrow>
      present (rd s (tbl (rd s r k)) j) \<Longrightarrow> tbl (rd s (tbl (rd s r k)) j) = D \<longleftrightarrow> k = a \<and> j = b"
proof -
  note W = pt_wfD [OF wf]
  have root: "(r, k) \<in> table_slots s r" if "user_index k" "present (rd s r k)" for k
    using that by (simp add: slots_iff slot_place_def)
  have sl: "(tbl (rd s r k), j) \<in> table_slots s r"
    if "user_index k" "present (rd s r k)" "unat j < 512" "present (rd s (tbl (rd s r k)) j)" for k j
    using that by (auto simp: slots_iff slot_place_def)
  have PD: "(P, b) \<in> table_slots s r" "pointee s (P, b) = D"
    using sl [OF a] b P D by (simp_all add: pointee_def)
  show "D \<noteq> r" using W(4) [OF PD(1)] PD(2) by simp
  have Pr: "tbl (rd s r k) \<noteq> r" if "user_index k" "present (rd s r k)" for k
    using W(4) [OF root [OF that]] by (simp add: pointee_def)
  show "tbl (rd s r k) \<noteq> D" if k: "user_index k" "present (rd s r k)" for k
  proof
    assume "tbl (rd s r k) = D"
    then have "pointee s (r, k) = pointee s (P, b)" using PD(2) by (simp add: pointee_def)
    then have "(r, k) = (P, b)" by (rule inj_onD [OF W(3) _ root [OF k] PD(1)])
    then show False using Pr [OF a] P by simp
  qed
  show "tbl (rd s (tbl (rd s r k)) j) = D \<longleftrightarrow> k = a \<and> j = b"
    if k: "user_index k" "present (rd s r k)" "unat j < 512" "present (rd s (tbl (rd s r k)) j)" for k j
  proof
    assume "tbl (rd s (tbl (rd s r k)) j) = D"
    then have "pointee s (tbl (rd s r k), j) = pointee s (P, b)" using PD(2) by (simp add: pointee_def)
    then have "(tbl (rd s r k), j) = (P, b)" by (rule inj_onD [OF W(3) _ sl [OF k] PD(1)])
    then have jb: "j = b" "tbl (rd s r k) = tbl (rd s r a)" using P by auto
    then have "pointee s (r, k) = pointee s (r, a)" by (simp add: pointee_def)
    then have "(r, k) = (r, a)" by (rule inj_onD [OF W(3) _ root [OF k(1,2)] root [OF a]])
    with jb show "k = a \<and> j = b" by simp
  qed (use P D in simp)
qed

text \<open>The translation of an address, by its three indices.\<close>

definition translate :: "'a pt_state_scheme \<Rightarrow> addr \<Rightarrow> u64 \<Rightarrow> u64 \<Rightarrow> u64 \<Rightarrow> u64 option" where
  "translate s r a b c =
     (let e1 = rd s r a; e2 = rd s (tbl e1) b; e3 = rd s (tbl e2) c in
      if present e1 \<and> present e2 \<and> present e3 then Some e3 else None)"

lemma to_physical_translate:
  "to_physical_address s r v =
     (case translate s r (pml4t_index v) (pdpt_index v) (pdt_index v) of
        None \<Rightarrow> NULL | Some e \<Rightarrow> tbl e + addr_offset v)"
  by (simp add: to_physical_address_def translate_def Let_def)

lemma leaf_write:
  assumes wf: "pt_wf s r" and a: "user_index a" "present (rd s r a)"
    and P: "P = tbl (rd s r a)" and b: "unat b < 512" "present (rd s P b)" and D: "D = tbl (rd s P b)"
    and c: "unat c < 512"
  shows "pt_wf (wr D c x s) r"
    and "\<And>a' b' c'. user_index a' \<Longrightarrow> unat b' < 512 \<Longrightarrow> unat c' < 512 \<Longrightarrow>
      translate (wr D c x s) r a' b' c' =
        (if (a', b', c') = (a, b, c) then if present x then Some x else None else translate s r a' b' c')"
proof -
  note W = pt_wfD [OF wf] and L = leaf_table [OF wf a P b D]
  have aD: "aligned D" "aligned P" by (simp_all add: D P)
  have rdr: "rd (wr D c x s) r k = rd s r k" if "user_index k" for k
    using rd_wr [OF aD(1) W(1) c user_index_512 [OF that]] L(1) by simp
  have rd2: "rd (wr D c x s) (tbl (rd s r k)) j = rd s (tbl (rd s r k)) j"
    if "user_index k" "present (rd s r k)" "unat j < 512" for k j
    using rd_wr [OF aD(1) tbl_aligned c that(3), of x s "rd s r k"] L(2) [OF that(1,2)] by simp
  have sp: "slot_place (wr D c x s) r t i = slot_place s r t i" for t i
    using rdr by (auto simp: slot_place_def)
  have same: "rd (wr D c x s) t i = rd s t i" if "slot_place s r t i" for t i
    using that rdr rd2 by (auto simp: slot_place_def)
  have slots: "table_slots (wr D c x s) r = table_slots s r"
    using sp same by (auto simp: slots_iff)
  have po: "pointee (wr D c x s) y = pointee s y" if "y \<in> table_slots s r" for y
    using that same by (cases y) (simp add: pointee_def slots_iff)
  have "inj_on (pointee (wr D c x s)) (table_slots s r)"
    using W(3) po by (simp cong: inj_on_cong)
  then show "pt_wf (wr D c x s) r"
    using W po by (simp add: pt_wf_def slots)
  fix a' b' c' :: u64 assume u: "user_index a'" "unat b' < 512" "unat c' < 512"
  show "translate (wr D c x s) r a' b' c' =
    (if (a', b', c') = (a, b, c) then if present x then Some x else None else translate s r a' b' c')"
  proof (cases "present (rd s r a') \<and> present (rd s (tbl (rd s r a')) b')")
    case True
    have leaf: "rd (wr D c x s) (tbl (rd s (tbl (rd s r a')) b')) c' =
        (if (a', b', c') = (a, b, c) then x else rd s (tbl (rd s (tbl (rd s r a')) b')) c')"
      using rd_wr [OF aD(1) tbl_aligned c u(3), of x s "rd s (tbl (rd s r a')) b'"]
        L(3) [OF u(1) _ u(2)] True by auto
    show ?thesis using True rdr [OF u(1)] rd2 [OF u(1) _ u(2)] leaf by (auto simp: translate_def Let_def)
  next
    case False
    then have "(a', b') \<noteq> (a, b)" using a b P by auto
    then show ?thesis using False rdr [OF u(1)] rd2 [OF u(1) _ u(2)] by (auto simp: translate_def Let_def)
  qed
qed


definition user_addr :: "addr \<Rightarrow> bool" where "user_addr v \<longleftrightarrow> user_index (pml4t_index v)"

definition same_page :: "addr \<Rightarrow> addr \<Rightarrow> bool" where
  "same_page v w \<longleftrightarrow> pml4t_index v = pml4t_index w \<and> pdpt_index v = pdpt_index w \<and>
     pdt_index v = pdt_index w"

lemma leaf_write_phys:
  assumes wf: "pt_wf s r" and v: "user_addr v"
    and e1: "present (rd s r (pml4t_index v))" and P: "P = tbl (rd s r (pml4t_index v))"
    and e2: "present (rd s P (pdpt_index v))" and D: "D = tbl (rd s P (pdpt_index v))"
    and w: "user_addr w"
  shows "to_physical_address (wr D (pdt_index v) x s) r w =
    (if same_page v w then if present x then tbl x + addr_offset w else NULL else to_physical_address s r w)"
proof -
  have u: "user_index (pml4t_index v)" "user_index (pml4t_index w)"
    using v w by (simp_all add: user_addr_def)
  show ?thesis
    unfolding to_physical_translate
      leaf_write(2) [OF wf u(1) e1 P index_less(2) e2 D index_less(3) u(2) index_less(2) index_less(3)]
    by (auto simp: same_page_def)
qed

lemma page_map_steps:
  assumes inv: "pt_inv s" and wf: "pt_wf s r" and v: "user_addr v" and n: "2 \<le> card (free_set s)"
  obtains s2 P D where "page_map r pa v s = Some (wr D (pdt_index v) (page_base pa OR PG_DEFAULT_FLAGS) s2)"
    and "pt_inv s2" and "pt_wf s2 r" and "cr3 s2 = cr3 s"
    and "present (rd s2 r (pml4t_index v))" and "P = tbl (rd s2 r (pml4t_index v))"
    and "present (rd s2 P (pdpt_index v))" and "D = tbl (rd s2 P (pdpt_index v))"
    and "\<And>w. user_addr w \<Longrightarrow> to_physical_address s2 r w = to_physical_address s r w"
proof -
  define a b where "a = pml4t_index v" and "b = pdpt_index v"
  have ua: "user_index a" using v by (simp add: a_def user_addr_def)
  have ra: "slot_place s r r a" using ua by (simp add: slot_place_def)
  obtain s1 where s1: "ensure_entry r a s = Some s1" "Suc 0 \<le> card (free_set s1)"
    using ensure_entry_total [OF inv, of 1 r a] n by (auto simp: numeral_2_eq_2)
  note E = ensure_entry_spec [OF inv wf ra s1(1)]
  define P where "P = tbl (rd s1 r a)"
  have Pb: "slot_place s1 r P b"
    using E(3) ua index_less(2) by (auto simp: slot_place_def P_def b_def)
  obtain s2 where s2: "ensure_entry P b s1 = Some s2"
    using ensure_entry_total [OF E(1) s1(2)] by blast
  note F = ensure_entry_spec [OF E(1,2) Pb s2]
  have ra1: "slot_place s1 r r a" using ua by (simp add: slot_place_def)
  have keep: "rd s2 r a = rd s1 r a" by (rule F(7) [OF ra1 E(3)])
  have "page_map r pa v s =
      Some (wr (tbl (rd s2 P b)) (pdt_index v) (page_base pa OR PG_DEFAULT_FLAGS) s2)"
    using s1(1) s2 unfolding page_map_def page_base_def [symmetric] Let_def index_page_base
      a_def [symmetric] b_def [symmetric] P_def by simp
  then show thesis
    using that [of "tbl (rd s2 P b)" s2 P] E F keep
    by (simp add: a_def [symmetric] b_def [symmetric] P_def user_addr_def)
qed

text \<open>A fresh tree: a cleared root.\<close>

lemma pt_wf_cleared:
  assumes "aligned r" and "PHYS_TO_VIRT r \<in> live s" and "\<And>i. user_index i \<Longrightarrow> rd s r i = 0"
  shows "pt_wf s r"
proof -
  have "table_slots s r = {}" using assms(3) by (auto simp: table_slots_def)
  then show ?thesis using assms by (simp add: pt_wf_def)
qed

definition example_memory :: pt_state where
  "example_memory = alloc_state.extend example_alloc \<lparr>pt_mem = (\<lambda>_. 0), cr3 = 0\<rparr>"

definition example_root :: addr where "example_root = fst (the (new_table example_memory))"
definition example_tables :: pt_state where "example_tables = snd (the (new_table example_memory))"

lemma init_groups_locks: "(\<And>l. locks s l = 1) \<Longrightarrow> locks (init_groups n bs s) l = 1"
  by (induction n arbitrary: bs s) (simp_all add: Let_def init_spinlock_def)

lemma example_memory:
  "kinv example_memory" "groups_unlocked example_memory" "free_set example_memory = {3, 5, 6, 7, 8}"
  "locks example_memory l = 1" "live example_memory = {}"
proof -
  show "kinv example_memory" "groups_unlocked example_memory" "live example_memory = {}"
    using example_alloc_inv kinv_cong [of example_memory example_alloc]
    by (simp_all add: example_memory_def alloc_state.extend_def kinv_def free_list_wf_def
        cache_wf_def free_in_def is_block_def phys_inv_def phys_wf_def slack_def free_set_def
        page_limit_def groups_unlocked_def lock_free_def live_def)
  show "free_set example_memory = {3, 5, 6, 7, 8}"
  proof -
    have "page_bitmap example_memory = page_bitmap example_raw"
      using init_groups_other [of 13 MIN_ALLOCATE_MEMORY_SIZE example_raw]
      by (simp add: example_memory_def alloc_state.extend_def example_alloc_def mem_allocator_init_def
          NUMBER_OF_MEMORY_BLOCK_TYPES_def)
    then have "page_bitmap example_memory = page_bitmap example_phys"
      by (simp add: example_raw_def phys_state.extend_def)
    then show ?thesis using example_phys_free_set by (simp add: free_set_def page_limit_def)
  qed
  have "locks example_raw l = 1" for l by (simp add: example_raw_def phys_state.extend_def example_phys_def)
  then have "locks example_alloc l = 1"
    unfolding example_alloc_def mem_allocator_init_def by (rule init_groups_locks)
  then show "locks example_memory l = 1" by (simp add: example_memory_def alloc_state.extend_def)
qed

lemma example_tables:
  "pt_inv example_tables" "pt_wf example_tables example_root" "2 \<le> card (free_set example_tables)"
  "4 \<le> card (free_set example_tables)"
proof -
  note inv = example_memory(1,2) and fs = example_memory(3)
  have pi: "pt_inv example_memory" using inv by (simp add: pt_inv_def)
  have "free_set example_memory \<noteq> {}" using fs by simp
  then obtain p s' where nt: "new_table example_memory = Some (p, s')"
      "card (free_set example_memory) \<le> Suc (card (free_set s'))"
    using new_table_total [OF pi] by blast
  then have ex: "example_root = p" "example_tables = s'"
    by (simp_all add: example_root_def example_tables_def)
  show "2 \<le> card (free_set example_tables)" "4 \<le> card (free_set example_tables)"
    using nt(2) fs ex by simp_all
  obtain s1 where s1: "s' = clear_table (PHYS_TO_VIRT p) s1" "pt_inv s'" "aligned p"
      "live s' = insert (PHYS_TO_VIRT p) (live example_memory)"
    by (rule new_table_spec [OF pi nt(1)])
  show "pt_inv example_tables" using s1(2) ex by simp
  show "pt_wf example_tables example_root"
    unfolding ex using s1 rd_clear [OF s1(3,3), of _ s1] user_index_512
    by (intro pt_wf_cleared) auto
qed

lemma example_user: "user_addr 0x40123456" "same_page 0x40123456 0x40000010" "\<not> same_page 0x40123456 0x40200000"
  by (simp_all add: user_addr_def user_index_def same_page_def pml4t_index_def pdpt_index_def pdt_index_def)

subsection \<open>Properties\<close>

lemma page_map_effect:
  assumes "pt_inv s" and "pt_wf s r" and "user_addr v" and "2 \<le> card (free_set s)"
  shows "\<exists>s'. page_map r pa v s = Some s' \<and> pt_inv s' \<and> pt_wf s' r \<and> cr3 s' = cr3 s \<and>
    (\<forall>w. user_addr w \<longrightarrow> to_physical_address s' r w =
       (if same_page v w then page_base pa + addr_offset w else to_physical_address s r w))"
proof -
  obtain s2 P D where S: "page_map r pa v s = Some (wr D (pdt_index v) (page_base pa OR PG_DEFAULT_FLAGS) s2)"
      "pt_inv s2" "pt_wf s2 r" "cr3 s2 = cr3 s" "present (rd s2 r (pml4t_index v))"
      "P = tbl (rd s2 r (pml4t_index v))" "present (rd s2 P (pdpt_index v))" "D = tbl (rd s2 P (pdpt_index v))"
      "\<And>w. user_addr w \<Longrightarrow> to_physical_address s2 r w = to_physical_address s r w"
    by (rule page_map_steps [OF assms]) blast
  have u: "user_index (pml4t_index v)" using assms(3) by (simp add: user_addr_def)
  have "pt_wf (wr D (pdt_index v) x s2) r" for x
    by (rule leaf_write(1) [OF S(3) u S(5,6) index_less(2) S(7,8) index_less(3)])
  moreover have "to_physical_address (wr D (pdt_index v) (page_base pa OR PG_DEFAULT_FLAGS) s2) r w =
      (if same_page v w then page_base pa + addr_offset w else to_physical_address s r w)"
    if "user_addr w" for w
    using leaf_write_phys [OF S(3) assms(3) S(5-8) that] S(9) [OF that] by simp
  ultimately show ?thesis using S(1,2,4) by auto
qed

text \<open>C6: \<^verbatim>\<open>page_map\<close> is correct: for a user address, on a well-formed tree of tables and with
  two free pages, it does not fail an \<^verbatim>\<open>ASSERT\<close>, keeps the invariants of the allocator and of the
  tree, maps the whole 2 MiB page of the address to the page frame, and changes the translation of no other
  user address.\<close>

theorem page_map_correct:
  assumes "pt_inv s" and "pt_wf s r" and "user_addr v" and "2 \<le> card (free_set s)"
  shows "\<exists>s'. page_map r pa v s = Some s' \<and> pt_inv s' \<and> pt_wf s' r \<and> cr3 s' = cr3 s \<and>
    (\<forall>w. user_addr w \<longrightarrow> to_physical_address s' r w =
       (if same_page v w then page_base pa + addr_offset w else to_physical_address s r w))"
  by (rule page_map_effect [OF assms])

lemma page_map_correct_witness:
  "\<exists>s'. page_map example_root 0x600000 0x40123456 example_tables = Some s' \<and> pt_inv s' \<and>
    pt_wf s' example_root \<and> to_physical_address s' example_root 0x40000010 = 0x600010"
proof -
  have "page_base 0x600000 + addr_offset 0x40000010 = 0x600010"
    by (simp add: page_base_def addr_offset_def PG_SIZE_def)
  moreover have "user_addr 0x40000010" by (simp add: user_addr_def user_index_def pml4t_index_def)
  ultimately show ?thesis
    using page_map_correct [OF example_tables(1,2) example_user(1) example_tables(3), of "0x600000"]
      example_user(2) by auto
qed

lemma page_unmap_effect:
  assumes "pt_wf s r" and "user_addr v" and "to_physical_address s r v \<noteq> NULL"
  obtains D c x where "page_unmap r v s = Some (wr D c x s)" and "pt_wf (wr D c x s) r"
    and "\<And>w. user_addr w \<Longrightarrow> to_physical_address (wr D c x s) r w =
       (if same_page v w then NULL else to_physical_address s r w)"
proof -
  define a b c where "a = pml4t_index v" and "b = pdpt_index v" and "c = pdt_index v"
  define P where "P = tbl (rd s r a)"
  define D where "D = tbl (rd s P b)"
  have pr: "present (rd s r a)" "present (rd s P b)" "present (rd s D c)"
    using assms(3) unfolding to_physical_address_def Let_def D_def P_def a_def b_def c_def
    by (auto split: if_splits)
  have u: "user_index a" using assms(2) by (simp add: user_addr_def a_def)
  define x where "x = rd s D c AND NOT PG_P"
  have np: "\<not> present x" by (simp add: x_def present_bit PG_P_def bit_simps)
  have run: "page_unmap r v s = Some (wr D c x s)"
    using pr unfolding page_unmap_def walk_asserted_def page_base_def [symmetric] Let_def index_page_base
      a_def [symmetric] b_def [symmetric] c_def [symmetric] P_def [symmetric] D_def [symmetric] x_def
    by (simp add: assert_def)
  have "pt_wf (wr D c x s) r"
    by (rule leaf_write(1) [OF assms(1) u pr(1) P_def _ pr(2) D_def]) (simp_all add: b_def c_def index_less)
  moreover have "to_physical_address (wr D c x s) r w = (if same_page v w then NULL else to_physical_address s r w)"
    if "user_addr w" for w
    using leaf_write_phys [OF assms(1,2), folded a_def b_def c_def, OF pr(1) P_def pr(2) D_def that, of x] np
    by simp
  ultimately show thesis using that [OF run] by blast
qed


text \<open>\<^verbatim>\<open>page_unmap\<close> is correct: on an address that is mapped it does not fail an
  \<^verbatim>\<open>ASSERT\<close>; afterwards no address of the 2 MiB page is mapped, every other user address
  translates as before, and the tree is still well-formed.\<close>

theorem page_unmap_correct:
  assumes "pt_inv s" and "pt_wf s r" and "user_addr v" and "to_physical_address s r v \<noteq> NULL"
  shows "\<exists>s'. page_unmap r v s = Some s' \<and> pt_inv s' \<and> pt_wf s' r \<and>
    (\<forall>w. user_addr w \<longrightarrow> to_physical_address s' r w =
       (if same_page v w then NULL else to_physical_address s r w))"
proof -
  obtain D c x where "page_unmap r v s = Some (wr D c x s)" "pt_wf (wr D c x s) r"
      "\<And>w. user_addr w \<Longrightarrow> to_physical_address (wr D c x s) r w =
         (if same_page v w then NULL else to_physical_address s r w)"
    by (rule page_unmap_effect [OF assms(2-4)]) (rule that)
  then show ?thesis using assms(1) by auto
qed

lemma page_unmap_correct_witness:
  "\<exists>(s :: pt_state) s'. to_physical_address s example_root 0x40123456 \<noteq> NULL \<and>
    page_unmap example_root 0x40123456 s = Some s' \<and> pt_wf s' example_root \<and>
    to_physical_address s' example_root 0x40123456 = NULL"
proof -
  obtain s P D where run: "page_map example_root 0x600000 0x40123456 example_tables =
        Some (wr D (pdt_index 0x40123456) (page_base 0x600000 OR PG_DEFAULT_FLAGS) s)"
      and S: "pt_inv s" "pt_wf s example_root" "cr3 s = cr3 example_tables"
      "present (rd s example_root (pml4t_index 0x40123456))"
      "P = tbl (rd s example_root (pml4t_index 0x40123456))" "present (rd s P (pdpt_index 0x40123456))"
      "D = tbl (rd s P (pdpt_index 0x40123456))"
      and old: "\<And>w. user_addr w \<Longrightarrow>
        to_physical_address s example_root w = to_physical_address example_tables example_root w"
    by (rule page_map_steps [OF example_tables(1,2) example_user(1) example_tables(3), of "0x600000"], rule that)
  define m where "m = wr D (pdt_index 0x40123456) (page_base 0x600000 OR PG_DEFAULT_FLAGS) s"
  have "page_base 0x600000 + addr_offset 0x40123456 = 0x723456"
    by (simp add: page_base_def addr_offset_def PG_SIZE_def)
  then have m: "to_physical_address m example_root 0x40123456 = 0x723456"
    using leaf_write_phys [OF S(2) example_user(1) S(4-7) example_user(1)]
    by (simp add: m_def same_page_def)
  have "user_index (pml4t_index 0x40123456)" using example_user(1) by (simp add: user_addr_def)
  then have "pt_wf m example_root"
    unfolding m_def by (intro leaf_write(1) [OF S(2) _ S(4,5) index_less(2) S(6,7) index_less(3)])
  moreover have "pt_inv m" using S(1) by (simp add: m_def)
  ultimately obtain s' where s': "page_unmap example_root 0x40123456 m = Some s'" "pt_wf s' example_root"
      "\<forall>w. user_addr w \<longrightarrow> to_physical_address s' example_root w =
         (if same_page 0x40123456 w then NULL else to_physical_address m example_root w)"
    using page_unmap_correct [OF _ _ example_user(1), of m example_root] m by auto
  then have "to_physical_address s' example_root 0x40123456 = NULL"
    using example_user(1) by (simp add: same_page_def)
  with s' m show ?thesis by (intro exI [of _ m] exI [of _ s']) simp
qed

end
