(* ===== verification/HeapUse.thy ===== *)
theory HeapUse
  imports KMalloc
begin

text \<open>
  What the clients of the heap use: when its invariant is that of another state, that a request whose
  alignment and boundary suit its size is served whenever there is memory, and releases of several blocks.
\<close>

lemma alloc_fields_cong:
  assumes "page_bitmap s' = page_bitmap s" "free_pages s' = free_pages s"
    and "locks s' MemLock = locks s MemLock" "\<And>i. locks s' (MemGroupLock i) = locks s (MemGroupLock i)"
    and "mem_groups s' = mem_groups s" "caches s' = caches s" "magic s' = magic s"
  shows "kinv s' = kinv s" "groups_unlocked s' = groups_unlocked s" "live s' = live s"
    "free_set s' = free_set s"
proof -
  show "kinv s' = kinv s" using assms by (intro kinv_cong) (auto simp: lock_free_def)
  show "groups_unlocked s' = groups_unlocked s" using assms by (simp add: groups_unlocked_def lock_free_def)
  show "live s' = live s" using assms by (intro live_cong)
  show "free_set s' = free_set s" using assms(1) by (simp add: free_set_def page_limit_def)
qed

definition heap_ok :: "'a alloc_state_scheme \<Rightarrow> bool" where
  "heap_ok s \<longleftrightarrow> kinv s \<and> groups_unlocked s"

text \<open>
  Requests that every block of sufficient size can serve: the alignment is at most the size or that of
  the smallest blocks, and the boundary is a power of two that is no smaller than the size.
\<close>

definition fair :: "u64 \<Rightarrow> u64 \<Rightarrow> u64 \<Rightarrow> bool" where
  "fair sz al bd \<longleftrightarrow> 0 < sz \<and> sz \<le> MAX_ALLOCATE_MEMORY_SIZE \<and> (al \<le> 64 \<or> al \<le> sz) \<and>
     (bd = 0 \<or> (\<exists>k < 64. bd = 2 ^ k \<and> sz \<le> bd))"

lemma unat_power_2: "n < 64 \<Longrightarrow> unat (2 ^ n :: u64) = 2 ^ n"
proof -
  assume "n < 64"
  then have "(2 :: nat) ^ n < 2 ^ LENGTH(64)" by (intro power_strict_increasing) simp_all
  then have "unat (word_of_nat (2 ^ n) :: u64) = 2 ^ n" by (rule unat_of_nat_lt)
  then show ?thesis by simp
qed

lemma block_fits:
  assumes f: "fair sz al bd" and b: "i < 13" "unat sz \<le> bsz i" "p < 16384" "j < nbn i"
  shows "fits sz (if al < sz then sz else al) bd (blk p i j)"
proof -
  define a where "a = (if al < sz then sz else al)"
  define x where "x = blk p i j"
  define n where "n = i + 6"
  have n: "bsz i = 2 ^ n" "n < 64" using b(1) by (simp_all add: bsz_def power_add n_def)
  have s0: "0 < unat sz" using f by (simp add: fair_def unat_gt_0 word_gt_0)
  have "unat al \<le> 64 \<or> unat al \<le> unat sz" using f by (auto simp: fair_def word_le_nat_alt)
  moreover have "unat a = unat sz \<or> (unat sz \<le> unat al \<and> unat a = unat al)"
    by (auto simp: a_def word_less_nat_alt)
  moreover have "64 \<le> bsz i" using bsz_bounds [OF b(1)] by simp
  ultimately have a: "0 < unat a" "unat a \<le> 2 ^ n" using s0 b(2) unfolding n(1) by linarith+
  have xa: "x AND mask n = 0" using blk_aligned [OF b(3,1,4)] n by (simp add: x_def mask_eq_exp_minus_1)
  have "unat (a - 1) < 2 ^ n" using a by (simp add: unat_sub_no_wrap word_le_nat_alt)
  moreover have "unat (2 ^ n :: u64) = 2 ^ n" using n(2) by (rule unat_power_2)
  ultimately have "a - 1 < 2 ^ n" by (simp only: word_less_nat_alt)
  then have m: "(a - 1) AND mask n = a - 1" by (rule less_mask_eq)
  have "x AND (a - 1) = x AND ((a - 1) AND mask n)" by (simp only: m)
  also have "\<dots> = (x AND mask n) AND (a - 1)" by (simp only: ac_simps)
  finally have al: "x AND (a - 1) = 0" by (simp add: xa)
  have bd: "bd = 0 \<or> x div bd = (x + sz - 1) div bd"
  proof (cases "bd = 0")
    case False
    then obtain k where k: "k < 64" "bd = 2 ^ k" "sz \<le> bd" using f by (auto simp: fair_def)
    have ub: "unat bd = 2 ^ k" using unat_power_2 [OF k(1)] k(2) by simp
    have ux: "unat x = vma + p * 2097152 + (j + 1) * bsz i" using unat_blk [OF b(3,1,4)] by (simp add: x_def)
    have dv: "2 ^ n dvd unat x"
    proof -
      have "bsz i dvd 2097152" using bsz_bounds [OF b(1)] by (metis dvd_triv_right)
      moreover have "(2097152 :: nat) dvd vma" by (simp add: vma_def)
      ultimately show ?thesis
        unfolding ux n(1) [symmetric] by (intro dvd_add dvd_mult dvd_triv_right) (auto intro: dvd_trans)
    qed
    have s0: "0 < unat sz" "unat sz \<le> 2 ^ n" "unat sz \<le> 2 ^ k"
      using s0 b(2) n(1) k(3) ub by (simp_all add: word_le_nat_alt)
    have "unat x + bsz i < 2 ^ 64" using blk_bound [OF b(1,4)] b(3) ux by (simp add: vma_def)
    then have us: "unat (x + sz - 1) = unat x + (unat sz - 1)"
      using s0 n(1) by (simp add: unat_word_ariths unat_sub_no_wrap word_le_nat_alt)
    obtain q where q: "q = unat sz - 1" "q < 2 ^ n" "q < 2 ^ k" using s0 by simp
    have "unat x div 2 ^ k = (unat x + q) div 2 ^ k"
    proof (cases "n \<le> k")
      case True
      obtain m where m: "unat x = 2 ^ n * m" using dv by (auto elim: dvdE)
      have p: "(2 :: nat) ^ k = 2 ^ n * 2 ^ (k - n)" using True by (simp flip: power_add)
      have "(2 ^ n * m + q) div 2 ^ n = m" using q(2) by simp
      then show ?thesis unfolding m p by (simp add: div_mult2_eq)
    next
      case False
      then have "(2 :: nat) ^ k dvd unat x" using dv by (meson dvd_trans le_imp_power_dvd nat_le_linear)
      then show ?thesis using q(3) by (auto elim!: dvdE)
    qed
    then show ?thesis using us ub q(1) by (simp add: word_unat_eq_iff unat_div)
  qed simp
  show ?thesis using al bd by (auto simp: fits_def a_def x_def)
qed

lemma kmalloc_fair:
  assumes h: "heap_ok s" and f: "fair sz al bd"
  shows "(\<exists>b s'. kmalloc sz al bd s = Some (K_SUCCESS, Some b, s') \<and> heap_ok s' \<and> b \<notin> live s \<and> b \<noteq> NULL \<and>
      live s' = insert b (live s) \<and> alloc_state.more s' = alloc_state.more s) \<or>
    kmalloc sz al bd s = Some (K_NOMEM, None, s)"
proof -
  have k: "kinv s" "groups_unlocked s" "sz \<le> MAX_ALLOCATE_MEMORY_SIZE" using h f by (simp_all add: heap_ok_def fair_def)
  obtain st r s' where run: "kmalloc sz al bd s = Some (st, r, s')" "kinv s'" "kmalloc_post sz al bd s st r s'"
    by (rule kmalloc_spec [OF k])
  have nf: "st \<noteq> K_NOT_FOUND" using run(3) block_fits [OF f] by (auto simp: kmalloc_post_def)
  show ?thesis
  proof (cases "st = K_SUCCESS")
    case True
    then obtain b where b: "r = Some b" "b \<notin> live s" "live s' = insert b (live s)" "locks s' = locks s"
      using run(3) by (auto simp: kmalloc_post_def)
    have "groups_unlocked s'" using k(2) b(4) by (simp add: groups_unlocked_def lock_free_def)
    moreover have "b \<noteq> NULL"
    proof
      assume "b = NULL"
      moreover have "b \<in> live s'" using b(3) by simp
      ultimately obtain i p j where "i < 13" "is_block s' i 0 p j" by (auto simp: live_def)
      then show False using unat_blk [of p i j] by (auto simp: is_block_def vma_def)
    qed
    ultimately show ?thesis using run True b kmalloc_more [OF run(1)] by (auto simp: heap_ok_def)
  next
    case False
    then show ?thesis using run nf by (cases st) (auto simp: kmalloc_post_def)
  qed
qed

lemma kfree_live:
  assumes "heap_ok s" and "b \<in> live s"
  shows "\<exists>s'. kfree b s = Some s' \<and> heap_ok s' \<and> live s' = live s - {b} \<and> alloc_state.more s' = alloc_state.more s"
proof -
  obtain s' where s': "kfree b s = Some s'" "kinv s'" "live s' = live s - {b}" "locks s' = locks s"
    using kfree_spec [of s b] assms by (auto simp: heap_ok_def)
  then have "groups_unlocked s'" using assms(1) by (simp add: heap_ok_def groups_unlocked_def lock_free_def)
  then show ?thesis using s' kfree_more [OF s'(1)] by (auto simp: heap_ok_def)
qed

text \<open>Releasing blocks, of which some may be the null pointer.\<close>

definition nonnull :: "addr list \<Rightarrow> addr list" where
  "nonnull as = List.filter (\<lambda>a. a \<noteq> NULL) as"

lemma nonnull_simps [simp]:
  "nonnull [] = []" "nonnull (a # as) = (if a = NULL then nonnull as else a # nonnull as)"
  "nonnull (as @ bs) = nonnull as @ nonnull bs" "nonnull (rev as) = rev (nonnull as)"
  "nonnull (List.map (\<lambda>_. NULL) xs) = []"
  by (simp_all add: nonnull_def rev_filter)

lemma kfree_nonnull:
  assumes "heap_ok s" and "distinct (nonnull as)" and "set (nonnull as) \<subseteq> live s"
  shows "\<exists>s'. fold_option kfree as s = Some s' \<and> heap_ok s' \<and> live s' = live s - set (nonnull as) \<and>
    alloc_state.more s' = alloc_state.more s"
  using assms
proof (induction as arbitrary: s)
  case (Cons a as)
  show ?case
  proof (cases "a = NULL")
    case True
    then show ?thesis using Cons.IH [of s] Cons.prems by (simp add: kfree_def)
  next
    case False
    then obtain s1 where s1: "kfree a s = Some s1" "heap_ok s1" "live s1 = live s - {a}" "alloc_state.more s1 = alloc_state.more s"
      using kfree_live [of s a] Cons.prems by auto
    moreover obtain s2 where "fold_option kfree as s1 = Some s2" "heap_ok s2" "live s2 = live s1 - set (nonnull as)"
        "alloc_state.more s2 = alloc_state.more s1"
      using Cons.IH [OF s1(2)] Cons.prems False s1(3) by auto
    ultimately show ?thesis using False by auto
  qed
qed auto

end
