(* ===== verification/Tasks.thy ===== *)
theory Tasks
  imports PageTable VmmRanges "HOL-Library.Multiset" HeapUse
begin

text \<open>
  The task table of \<^verbatim>\<open>src/arch/x86_64/task/task.c\<close> and \<^verbatim>\<open>include/task/task.h\<close>, and the run
  queue of \<^verbatim>\<open>schedule.c\<close>. A pointer to a task structure is the index of the task in the table. The
  intrusive lists of tasks (\<^verbatim>\<open>sender_list\<close>, \<^verbatim>\<open>exited_child_list\<close>, \<^verbatim>\<open>task_list\<close>, \<^verbatim>\<open>waiting_list\<close>) are
  lists of process ids: what the list operations do to the list of nodes is the refinement proved in
  theory \<^verbatim>\<open>DList\<close>. Locks and the preemption counters are fields of the lock state.
\<close>

subsection \<open>Data\<close>

definition TASKS :: pid where "TASKS = 4096"
definition MIN_PID :: pid where "MIN_PID = 0"
definition MAX_PID :: pid where "MAX_PID = TASKS - 1"
definition PID_NO_TASK :: pid where "PID_NO_TASK = TASKS"
definition NR_CPUS :: nat where "NR_CPUS = 256"

definition NICE_TO_PRIO :: "int \<Rightarrow> u64" where "NICE_TO_PRIO nice = word_of_int (nice + 20)"
definition DEFAULT_PRIORITY :: u64 where "DEFAULT_PRIORITY = NICE_TO_PRIO 0"
definition SERVICE_PRIORITY :: u64 where "SERVICE_PRIORITY = NICE_TO_PRIO (-10)"
definition IDLE_PRIORITY :: u64 where "IDLE_PRIORITY = NICE_TO_PRIO 20"

lemmas pid_defs = TASKS_def MIN_PID_def MAX_PID_def PID_NO_TASK_def

text \<open>\<open>STATUS_ZERO\<close> is the value 0 that \<^verbatim>\<open>memset\<close> leaves, which the enumeration does not name.\<close>

datatype task_status =
    STATUS_ZERO
  | TASK_READY
  | TASK_RUNNING
  | TASK_BLOCKED
  | TASK_SENDING
  | TASK_RECEIVING
  | TASK_WAITING
  | TASK_DIED

record message =
  src :: pid
  mtype :: u32
  m :: "u64 list"

record task_struct =
  tcontext :: addr
  kstack_base :: addr
  kstack_size :: u64
  ustack_base :: addr
  ustack_size :: u64
  tpid :: pid
  ppid :: pid
  task_name :: "u8 list"
  status :: task_status
  cpu_id :: nat
  page_dir :: addr
  priority :: u64
  run_time :: u64
  vrun_time :: u64
  vmm_free :: vmm_struct
  vmm_using :: vmm_struct
  msg :: message
  send_to :: pid
  recv_from :: pid
  send_flag :: atomic
  recv_flag :: atomic
  has_intr_msg :: u32
  sender_list :: "pid list"
  childs :: atomic
  exited_child_list :: "pid list"
  return_status :: int
  fxsave_region :: addr

record task_man =
  task_list :: "pid list"
  waiting_list :: "pid list"
  min_vrun_time :: u64
  running_tasks :: u64
  total_weight :: u64
  main_task :: "pid option"
  idle_task :: "pid option"

text \<open>
  The kernel: memory, the task table, one task manager for each processor, the interrupt flag of the
  running processor, the ticks, two things fixed by the linker (the address of
  \<^verbatim>\<open>kernel_task\<close> and the words behind the weight table), the table of the services'
  process ids, and the ring-0 stack pointers of the processors' task state segments.
\<close>

record kernel_state = pt_state +
  tasks :: "pid \<Rightarrow> task_struct"
  cpus :: "nat \<Rightarrow> task_man"
  intr_on :: bool
  ticks :: u64
  kernel_task_addr :: addr
  beyond_weights :: "nat \<Rightarrow> u64"
  service_pid_table :: "pid list"
  tss_rsp0 :: "nat \<Rightarrow> addr"

definition zero_vmm :: vmm_struct where
  "zero_vmm = \<lparr>blocks = [], total_blocks = 0, using_blocks = 0\<rparr>"

definition zero_message :: message where
  "zero_message = \<lparr>src = 0, mtype = 0, m = replicate 8 0\<rparr>"

definition zero_task :: task_struct where
  "zero_task = \<lparr>tcontext = 0, kstack_base = 0, kstack_size = 0, ustack_base = 0, ustack_size = 0,
     tpid = 0, ppid = 0, task_name = replicate 32 0, status = STATUS_ZERO, cpu_id = 0, page_dir = 0,
     priority = 0, run_time = 0, vrun_time = 0, vmm_free = zero_vmm, vmm_using = zero_vmm,
     msg = zero_message, send_to = 0, recv_from = 0, send_flag = 0, recv_flag = 0, has_intr_msg = 0,
     sender_list = [], childs = 0, exited_child_list = [], return_status = 0, fxsave_region = 0\<rparr>"

subsection \<open>The table\<close>

definition task_exist :: "pid \<Rightarrow> 'a kernel_state_scheme \<Rightarrow> bool" where
  "task_exist pid s \<longleftrightarrow> (if pid \<ge> 0 \<and> pid \<le> MAX_PID then tpid (tasks s pid) \<noteq> PID_NO_TASK else False)"

definition pid_to_task :: "pid \<Rightarrow> 'a kernel_state_scheme \<Rightarrow> task_struct option" where
  "pid_to_task pid s = (if pid > MAX_PID \<or> \<not> task_exist pid s then None else Some (tasks s pid))"

definition task_to_pid :: "pid \<Rightarrow> pid" where
  "task_to_pid task = (if task > MAX_PID then PID_NO_TASK else task)"

definition get_task_man :: "nat \<Rightarrow> 'a kernel_state_scheme \<Rightarrow> task_man option" where
  "get_task_man cpu s = (if cpu < NR_CPUS then Some (cpus s cpu) else None)"

definition running_task :: "'a kernel_state_scheme \<Rightarrow> task_struct" where
  "running_task s = tasks s (running_pid s)"

definition upd_task :: "pid \<Rightarrow> (task_struct \<Rightarrow> task_struct) \<Rightarrow> 'a kernel_state_scheme \<Rightarrow> 'a kernel_state_scheme" where
  "upd_task p f s = s\<lparr>tasks := (tasks s)(p := f (tasks s p))\<rparr>"

definition upd_cpu :: "nat \<Rightarrow> (task_man \<Rightarrow> task_man) \<Rightarrow> 'a kernel_state_scheme \<Rightarrow> 'a kernel_state_scheme" where
  "upd_cpu c f s = s\<lparr>cpus := (cpus s)(c := f (cpus s c))\<rparr>"

text \<open>\<^verbatim>\<open>memset(task, 0, sizeof(*task))\<close>: the counter and the two locks of the structure too.\<close>

definition clear_task :: "pid \<Rightarrow> 'a kernel_state_scheme \<Rightarrow> 'a kernel_state_scheme" where
  "clear_task p s =
     s\<lparr>locks := (locks s)(SendLock p := 0, ChildListLock p := 0),
       preempt_count := (preempt_count s)(p := 0),
       tasks := (tasks s)(p := zero_task)\<rparr>"

definition free_slot :: "'a kernel_state_scheme \<Rightarrow> pid option" where
  "free_slot s = List.find (\<lambda>i. tpid (tasks s i) = PID_NO_TASK) (map int [0..<nat TASKS])"

definition task_alloc :: "'a kernel_state_scheme \<Rightarrow> (pid option \<times> 'a kernel_state_scheme) option" where
  "task_alloc s = do {
     s \<leftarrow> spinlock_lock TasksLock s;
     (case free_slot s of
        None \<Rightarrow> Some (None, spinlock_unlock TasksLock s)
      | Some i \<Rightarrow>
          let s = upd_task i (tpid_update (\<lambda>_. i)) (clear_task i s)
          in Some (Some i, spinlock_unlock TasksLock s)) }"

definition task_free :: "pid option \<Rightarrow> 'a kernel_state_scheme \<Rightarrow> 'a kernel_state_scheme option" where
  "task_free task s =
     (case task of
        None \<Rightarrow> Some s
      | Some p \<Rightarrow> do {
          s \<leftarrow> spinlock_lock TasksLock s;
          let s = upd_task p (tpid_update (\<lambda>_. PID_NO_TASK)) s;
          Some (spinlock_unlock TasksLock s) })"

subsection \<open>Initialising a task\<close>

text \<open>
  \<^verbatim>\<open>strncpy(task->name, name, 31)\<close> with a shorter name; a longer one makes \<^verbatim>\<open>strncpy\<close> clear
  memory (theory \<^verbatim>\<open>CString\<close>), which is a fault here.
\<close>

definition name_field :: "u8 list \<Rightarrow> u8 list option" where
  "name_field nm = do {
     assert (length nm < 31 \<and> 0 \<notin> set nm);
     Some (nm @ replicate (32 - length nm) 0) }"

definition FXSAVE_SIZE :: u64 where "FXSAVE_SIZE = 512"

definition init_task_struct ::
  "pid \<Rightarrow> u8 list \<Rightarrow> u64 \<Rightarrow> addr \<Rightarrow> u64 \<Rightarrow> 'a kernel_state_scheme \<Rightarrow>
    (status_t \<times> 'a kernel_state_scheme) option" where
  "init_task_struct task nm prio kbase ksize s = do {
     let s = clear_task task s;
     let s = upd_task task (\<lambda>t. t\<lparr>tcontext := kbase + ksize, kstack_base := kbase, kstack_size := ksize,
       ustack_base := 0, ustack_size := 0, tpid := task_to_pid task\<rparr>) s;
     let s = upd_task task (ppid_update (\<lambda>_. tpid (running_task s))) s;
     nm \<leftarrow> name_field nm;
     let s = upd_task task (\<lambda>t. t\<lparr>task_name := nm, status := TASK_READY\<rparr>) s;
     let s = s\<lparr>preempt_count := (preempt_count s)(task := 0)\<rparr>;
     let s = upd_task task (cpu_id_update (\<lambda>_. cpu_id (running_task s))) s;
     let s = upd_task task (\<lambda>t. t\<lparr>page_dir := NULL, priority := prio, run_time := 0, vrun_time := 0,
       send_to := PID_NO_TASK, recv_from := PID_NO_TASK, send_flag := 0, recv_flag := 0,
       has_intr_msg := 0\<rparr>) s;
     let s = init_spinlock (SendLock task) s;
     let s = upd_task task (\<lambda>t. t\<lparr>sender_list := [], childs := 0\<rparr>) s;
     let s = init_spinlock (ChildListLock task) s;
     let s = upd_task task (\<lambda>t. t\<lparr>exited_child_list := [], return_status := 0\<rparr>) s;
     (st, r, s) \<leftarrow> kmalloc FXSAVE_SIZE 0 0 s;
     if ERROR st then Some (st, s)
     else do { a \<leftarrow> r; Some (K_SUCCESS, upd_task task (fxsave_region_update (\<lambda>_. a)) s) } }"

text \<open>The first frame of a kernel task: the context, whose \<^verbatim>\<open>rsi\<close> and \<^verbatim>\<open>rdi\<close> are at
  offsets 48 and 56, and above it the return address.\<close>

definition create_task_struct ::
  "pid \<Rightarrow> u64 \<Rightarrow> u64 \<Rightarrow> 'a kernel_state_scheme \<Rightarrow> 'a kernel_state_scheme option" where
  "create_task_struct task func arg s = do {
     assert (tcontext (tasks s task) \<noteq> NULL);
     let kstack = tcontext (tasks s task) - 8;
     let s = s\<lparr>pt_mem := (pt_mem s)(kstack := kernel_task_addr s)\<rparr>;
     let kstack = kstack - 64;
     let s = upd_task task (tcontext_update (\<lambda>_. kstack)) s;
     Some (s\<lparr>pt_mem := (pt_mem s)(kstack + 48 := arg, kstack + 56 := func)\<rparr>) }"

subsection \<open>The run queue\<close>

definition task_prio_to_weight :: "u64 list" where
  "task_prio_to_weight =
    [88761, 71755, 56483, 46273, 36291,
     29154, 23254, 18705, 14949, 11916,
     9548, 7620, 6100, 4904, 3906,
     3121, 2501, 1991, 1586, 1277,
     1024, 820, 655, 526, 423,
     335, 272, 215, 172, 137,
     110, 87, 70, 56, 45,
     36, 29, 23, 18, 15]"

text \<open>An index outside the table reads the words behind it.\<close>

definition weight :: "'a kernel_state_scheme \<Rightarrow> u64 \<Rightarrow> u64" where
  "weight s p =
     (if unat p < length task_prio_to_weight then task_prio_to_weight ! unat p
      else beyond_weights s (unat p - length task_prio_to_weight))"

text \<open>The place in the queue: before the first task whose virtual run time is larger, compared by
  the sign of the difference.\<close>

fun insert_by_vrun :: "('k \<Rightarrow> u64) \<Rightarrow> 'k \<Rightarrow> 'k list \<Rightarrow> 'k list" where
  "insert_by_vrun v x [] = [x]"
| "insert_by_vrun v x (y # ys) =
     (if v x - v y <s 0 then x # y # ys else y # insert_by_vrun v x ys)"

definition task_list_insert :: "nat \<Rightarrow> pid \<Rightarrow> 'a kernel_state_scheme \<Rightarrow> 'a kernel_state_scheme option" where
  "task_list_insert cpu task s = do {
     tm \<leftarrow> get_task_man cpu s;
     if task \<in> set (task_list tm) then Some s
     else do {
       let s = upd_cpu cpu (\<lambda>tm. tm\<lparr>
         task_list := insert_by_vrun (\<lambda>p. vrun_time (tasks s p)) task (task_list tm),
         running_tasks := running_tasks tm + 1,
         total_weight := total_weight tm + weight s (priority (tasks s task))\<rparr>) s;
       Some (upd_task task (status_update (\<lambda>_. TASK_READY)) s) } }"

subsection \<open>Starting a task\<close>

definition task_start ::
  "u8 list \<Rightarrow> u64 \<Rightarrow> u64 \<Rightarrow> u64 \<Rightarrow> u64 \<Rightarrow> 'a kernel_state_scheme \<Rightarrow>
    (pid option \<times> 'a kernel_state_scheme) option" where
  "task_start nm prio ksize func arg s =
     (if ksize AND (ksize - 1) \<noteq> 0 then Some (None, s)
      else do {
        (task, s) \<leftarrow> task_alloc s;
        (case task of
           None \<Rightarrow> Some (None, s)
         | Some p \<Rightarrow> do {
             (st, kbase, s) \<leftarrow> kmalloc ksize 0 0 s;
             if ERROR st then do { s \<leftarrow> task_free (Some p) s; Some (None, s) }
             else do {
               kbase \<leftarrow> kbase;
               (_, s) \<leftarrow> init_task_struct p nm prio kbase ksize s;
               s \<leftarrow> create_task_struct p func arg s;
               parent \<leftarrow> pid_to_task (ppid (tasks s p)) s;
               let s = upd_task (ppid (tasks s p)) (childs_update atomic_inc) s;
               let cpu = cpu_id (tasks s p);
               _ \<leftarrow> get_task_man cpu s;
               s \<leftarrow> spinlock_lock (TaskListLock cpu) s;
               s \<leftarrow> task_list_insert cpu p s;
               Some (Some p, spinlock_unlock (TaskListLock cpu) s) } }) })"

subsection \<open>The end of a task\<close>

definition adopt_one :: "pid \<Rightarrow> pid \<Rightarrow> 'a kernel_state_scheme \<Rightarrow> 'a kernel_state_scheme option" where
  "adopt_one parent i s =
     (case pid_to_task i s of
        None \<Rightarrow> Some s
      | Some c \<Rightarrow>
          if ppid c = parent then do {
            tm \<leftarrow> get_task_man (cpu_id c) s;
            mt \<leftarrow> main_task tm;
            Some (upd_task i (ppid_update (\<lambda>_. tpid (tasks s mt))) s) }
          else Some s)"

text \<open>One round of the loop that hands the exited children over.\<close>

definition hand_over :: "pid \<Rightarrow> pid \<Rightarrow> 'a kernel_state_scheme \<Rightarrow> 'a kernel_state_scheme option" where
  "hand_over parent child s = do {
     let s = upd_task parent (exited_child_list_update tl) s;
     tm \<leftarrow> get_task_man (cpu_id (tasks s child)) s;
     mt \<leftarrow> main_task tm;
     s \<leftarrow> spinlock_lock (ChildListLock mt) s;
     let s = upd_task mt (exited_child_list_update (\<lambda>l. l @ [child])) s;
     Some (spinlock_unlock (ChildListLock mt) s) }"

definition main_task_adopt_child :: "pid \<Rightarrow> 'a kernel_state_scheme \<Rightarrow> 'a kernel_state_scheme option" where
  "main_task_adopt_child parent s = do {
     _ \<leftarrow> pid_to_task parent s;
     s \<leftarrow> spinlock_lock (ChildListLock parent) s;
     s \<leftarrow> fold_option (adopt_one parent) (map int [0..<nat TASKS]) s;
     s \<leftarrow> fold_option (hand_over parent) (exited_child_list (tasks s parent)) s;
     Some (spinlock_unlock (ChildListLock parent) s) }"

text \<open>\<^verbatim>\<open>task_exit\<close> up to its \<^verbatim>\<open>task_block(TASK_DIED)\<close>.\<close>

definition task_exit :: "int \<Rightarrow> 'a kernel_state_scheme \<Rightarrow> 'a kernel_state_scheme option" where
  "task_exit st s = do {
     let s = upd_task (running_pid s) (return_status_update (\<lambda>_. st)) s;
     s \<leftarrow> main_task_adopt_child (tpid (running_task s)) s;
     Some s }"

definition task_has_exited_child :: "pid \<Rightarrow> 'a kernel_state_scheme \<Rightarrow> (bool \<times> 'a kernel_state_scheme) option" where
  "task_has_exited_child pid s = do {
     task \<leftarrow> pid_to_task pid s;
     s \<leftarrow> spinlock_lock (ChildListLock pid) s;
     let ret = (exited_child_list (tasks s pid) \<noteq> []);
     Some (ret, spinlock_unlock (ChildListLock pid) s) }"

definition task_release_resource :: "pid \<Rightarrow> 'a kernel_state_scheme \<Rightarrow> (int \<times> 'a kernel_state_scheme) option" where
  "task_release_resource pid s = do {
     task \<leftarrow> pid_to_task pid s;
     parent \<leftarrow> pid_to_task (ppid task) s;
     assert (tpid parent = tpid (running_task s));
     s \<leftarrow> kfree (fxsave_region task) s;
     s \<leftarrow> kfree (kstack_base task) s;
     let s = upd_task (ppid task) (childs_update atomic_dec) s;
     s \<leftarrow> task_free (Some pid) s;
     Some (return_status task, s) }"


subsection \<open>Locks, counters and task updates\<close>

lemma locked_kernel [simp]:
  "tasks (locked l s) = tasks s" "cpus (locked l s) = cpus s" "running_pid (locked l s) = running_pid s"
  "beyond_weights (locked l s) = beyond_weights s"
  "tasks (spinlock_unlock l s) = tasks s" "cpus (spinlock_unlock l s) = cpus s"
  "running_pid (spinlock_unlock l s) = running_pid s"
  by (simp_all add: locked_def spinlock_unlock_def bump_preempt_def)

lemma unlock_locked_upd [simp]:
  assumes "lock_free l s"
  shows "spinlock_unlock l (locked l s) = s"
    "spinlock_unlock l (upd_task p f (locked l s)) = upd_task p f s"
    "spinlock_unlock l (upd_cpu c g (locked l s)) = upd_cpu c g s"
    "spinlock_unlock l (upd_task p f (upd_cpu c g (locked l s))) = upd_task p f (upd_cpu c g s)"
  using assms
  by (simp_all add: spinlock_unlock_locked)
     (simp_all add: spinlock_unlock_def locked_def bump_preempt_def lock_free_def upd_task_def upd_cpu_def
       fun_upd_idem)

lemma upd_simps [simp]:
  "tasks (upd_task p f s) = (tasks s)(p := f (tasks s p))" "cpus (upd_task p f s) = cpus s"
  "locks (upd_task p f s) = locks s" "preempt_count (upd_task p f s) = preempt_count s"
  "running_pid (upd_task p f s) = running_pid s" "beyond_weights (upd_task p f s) = beyond_weights s"
  "tasks (upd_cpu c g s) = tasks s" "cpus (upd_cpu c g s) = (cpus s)(c := g (cpus s c))"
  "locks (upd_cpu c g s) = locks s" "preempt_count (upd_cpu c g s) = preempt_count s"
  "running_pid (upd_cpu c g s) = running_pid s" "beyond_weights (upd_cpu c g s) = beyond_weights s"
  "lock_free l (upd_task p f s) = lock_free l s" "lock_free l (upd_cpu c g s) = lock_free l s"
  by (simp_all add: upd_task_def upd_cpu_def lock_free_def)

lemma get_task_man_simps [simp]:
  "get_task_man c (upd_task p f s) = get_task_man c s"
  "get_task_man c (locked l s) = get_task_man c s"
  by (simp_all add: get_task_man_def)

lemma weight_cong: "beyond_weights s' = beyond_weights s \<Longrightarrow> weight s' p = weight s p"
  by (simp add: weight_def)

lemma task_exist_range: "task_exist p s \<Longrightarrow> 0 \<le> p \<and> p \<le> MAX_PID"
  by (auto simp: task_exist_def split: if_splits)

lemma pid_to_task_exist: "task_exist p s \<Longrightarrow> pid_to_task p s = Some (tasks s p)"
  using task_exist_range [of p s] by (simp add: pid_to_task_def)

lemma pid_to_task_Some: "pid_to_task p s = Some t \<longleftrightarrow> task_exist p s \<and> t = tasks s p"
  using task_exist_range [of p s] by (auto simp: pid_to_task_def)

subsection \<open>The table allocates like a table\<close>

lemma find_first:
  "List.find P (map int [0..<n]) = None \<longleftrightarrow> (\<forall>i. 0 \<le> i \<longrightarrow> i < int n \<longrightarrow> \<not> P i)"
  "List.find P (map int [0..<n]) = Some i \<Longrightarrow> 0 \<le> i \<and> i < int n \<and> P i \<and> (\<forall>j. 0 \<le> j \<longrightarrow> j < i \<longrightarrow> \<not> P j)"
proof -
  show "List.find P (map int [0..<n]) = None \<longleftrightarrow> (\<forall>i. 0 \<le> i \<longrightarrow> i < int n \<longrightarrow> \<not> P i)"
    unfolding find_None_iff set_map set_upt image_int_atLeastLessThan by auto
  assume "List.find P (map int [0..<n]) = Some i"
  then obtain k where k: "k < n" "P (int k)" "i = int k" "\<And>j. j < k \<Longrightarrow> \<not> P (map int [0..<n] ! j)"
    unfolding find_Some_iff by fastforce
  have "\<not> P j" if j: "0 \<le> j" "j < i" for j
  proof -
    have "nat j < k" using j k(3) by linarith
    moreover have "map int [0..<n] ! nat j = j" using \<open>nat j < k\<close> k(1) j by simp
    ultimately show ?thesis using k(4) [of "nat j"] by simp
  qed
  then show "0 \<le> i \<and> i < int n \<and> P i \<and> (\<forall>j. 0 \<le> j \<longrightarrow> j < i \<longrightarrow> \<not> P j)"
    using k(1-3) by simp
qed

lemma free_slot_iff:
  "free_slot s = None \<longleftrightarrow> (\<forall>i. 0 \<le> i \<longrightarrow> i \<le> MAX_PID \<longrightarrow> task_exist i s)"
  "free_slot s = Some i \<Longrightarrow> 0 \<le> i \<and> i \<le> MAX_PID \<and> \<not> task_exist i s \<and>
     (\<forall>j. 0 \<le> j \<longrightarrow> j < i \<longrightarrow> task_exist j s)"
proof -
  have n: "int (nat TASKS) = MAX_PID + 1" by (simp add: pid_defs)
  show "free_slot s = None \<longleftrightarrow> (\<forall>i. 0 \<le> i \<longrightarrow> i \<le> MAX_PID \<longrightarrow> task_exist i s)"
    unfolding free_slot_def find_first(1) n by (auto simp: task_exist_def)
  assume "free_slot s = Some i"
  then show "0 \<le> i \<and> i \<le> MAX_PID \<and> \<not> task_exist i s \<and> (\<forall>j. 0 \<le> j \<longrightarrow> j < i \<longrightarrow> task_exist j s)"
    using find_first(2) [of "\<lambda>i. tpid (tasks s i) = PID_NO_TASK" "nat TASKS" i] unfolding free_slot_def n
    by (auto simp: task_exist_def)
qed

text \<open>The slot after \<^verbatim>\<open>task_alloc\<close>.\<close>

definition fresh_slot :: "pid \<Rightarrow> 'a kernel_state_scheme \<Rightarrow> 'a kernel_state_scheme" where
  "fresh_slot i s = upd_task i (tpid_update (\<lambda>_. i)) (clear_task i s)"

lemma clear_task_simps [simp]:
  "tasks (clear_task i s) = (tasks s)(i := zero_task)" "cpus (clear_task i s) = cpus s"
  "running_pid (clear_task i s) = running_pid s" "beyond_weights (clear_task i s) = beyond_weights s"
  "locks (clear_task i s) = (locks s)(SendLock i := 0, ChildListLock i := 0)"
  by (simp_all add: clear_task_def)

lemma task_alloc_eq:
  assumes lk: "lock_free TasksLock s" and run: "task_exist (running_pid s) s"
  shows "task_alloc s = Some (free_slot s, case free_slot s of None \<Rightarrow> s | Some i \<Rightarrow> fresh_slot i s)"
proof -
  have fs: "free_slot (locked TasksLock s) = free_slot s" by (simp add: free_slot_def)
  show ?thesis
  proof (cases "free_slot s")
    case None
    then show ?thesis using lk fs by (simp add: task_alloc_def spinlock_lock_free)
  next
    case (Some i)
    then have "i \<noteq> running_pid s" using free_slot_iff(2) [OF Some] run by auto
    then have "spinlock_unlock TasksLock (fresh_slot i (locked TasksLock s)) = fresh_slot i s"
      using lk by (auto simp: fresh_slot_def spinlock_unlock_def locked_def bump_preempt_def lock_free_def
          upd_task_def clear_task_def fun_upd_twist fun_upd_idem)
    then show ?thesis using lk fs Some
      by (simp add: task_alloc_def spinlock_lock_free fresh_slot_def)
  qed
qed

lemma task_free_eq:
  "lock_free TasksLock s \<Longrightarrow> task_free (Some p) s = Some (upd_task p (tpid_update (\<lambda>_. PID_NO_TASK)) s)"
  by (simp add: task_free_def spinlock_lock_free)

text \<open>The task table: \<^verbatim>\<open>task_alloc\<close> hands out the smallest free process id with a cleared
  structure and touches no other task, or finds all 4096 in use and changes nothing; \<^verbatim>\<open>task_free\<close> of
  the result makes exactly the tasks exist that existed before, and the table's lock is free again.\<close>

theorem task_alloc_smallest_and_free:
  assumes "lock_free TasksLock s" and "task_exist (running_pid s) s"
  shows "\<exists>r s1 s2. task_alloc s = Some (r, s1) \<and> task_free r s1 = Some s2 \<and>
    (case r of
       None \<Rightarrow> s1 = s \<and> (\<forall>i. 0 \<le> i \<longrightarrow> i \<le> MAX_PID \<longrightarrow> task_exist i s)
     | Some i \<Rightarrow> \<not> task_exist i s \<and> task_exist i s1 \<and> (\<forall>j. 0 \<le> j \<longrightarrow> j < i \<longrightarrow> task_exist j s) \<and>
         tasks s1 = (tasks s)(i := zero_task\<lparr>tpid := i\<rparr>)) \<and>
    lock_free TasksLock s1 \<and> lock_free TasksLock s2 \<and> (\<forall>j. task_exist j s2 = task_exist j s)"
proof (cases "free_slot s")
  case None
  then show ?thesis using task_alloc_eq [OF assms] assms free_slot_iff(1) [of s]
    by (intro exI [of _ None] exI [of _ s]) (simp add: task_free_def)
next
  case (Some i)
  note i = free_slot_iff(2) [OF Some]
  have lf: "lock_free TasksLock (fresh_slot i s)"
    using assms(1) by (simp add: fresh_slot_def lock_free_def)
  define s2 where "s2 = upd_task i (tpid_update (\<lambda>_. PID_NO_TASK)) (fresh_slot i s)"
  have t: "tasks (fresh_slot i s) = (tasks s)(i := zero_task\<lparr>tpid := i\<rparr>)" "lock_free TasksLock s2"
    using lf by (simp_all add: fresh_slot_def s2_def)
  have "task_exist i (fresh_slot i s)" using i by (simp add: task_exist_def t pid_defs)
  moreover have "task_exist j s2 = task_exist j s" for j
    using i by (auto simp: task_exist_def s2_def t)
  ultimately show ?thesis
    using task_alloc_eq [OF assms] Some task_free_eq [OF lf, of i, folded s2_def] i t lf
    by (intro exI [of _ "Some i"] exI [of _ "fresh_slot i s"] exI [of _ s2]) simp
qed


subsection \<open>The run queue is ordered\<close>

text \<open>
  Virtual run times are compared by the sign of their difference, so the order is that of the distance
  from a base as long as all of them lie within half of the word range above the base.
\<close>

definition vdist :: "u64 \<Rightarrow> u64 \<Rightarrow> nat" where "vdist b v = unat (v - b)"
definition in_window :: "u64 \<Rightarrow> u64 \<Rightarrow> bool" where "in_window b v \<longleftrightarrow> vdist b v < 2 ^ 63"

lemma sless_0_iff: "(w :: u64) <s 0 \<longleftrightarrow> 2 ^ 63 \<le> unat w"
proof -
  have "w <s 0 \<longleftrightarrow> bit w 63"
    using bit_last_iff [of w] by (simp add: word_sless_alt)
  also have "\<dots> \<longleftrightarrow> odd (unat w div 2 ^ 63)"
    unfolding bit_iff_odd [symmetric] by (simp add: bit_unsigned_iff)
  also have "\<dots> \<longleftrightarrow> 2 ^ 63 \<le> unat w"
  proof -
    have "unat w < 2 ^ 64" using unsigned_less [of w] by simp
    then have "unat w div 2 ^ 63 < 2" by (intro less_mult_imp_div_less) simp
    then have "odd (unat w div 2 ^ 63) \<longleftrightarrow> unat w div 2 ^ 63 = 1" by (auto elim: oddE)
    also have "\<dots> \<longleftrightarrow> 2 ^ 63 \<le> unat w" using \<open>unat w div 2 ^ 63 < 2\<close>
      by (metis One_nat_def div_greater_zero_iff less_2_cases_iff nat_neq_iff not_less_zero zero_less_one
          zero_less_numeral zero_less_power)
    finally show ?thesis .
  qed
  finally show ?thesis .
qed

lemma sless_window:
  assumes "in_window b x" and "in_window b y"
  shows "x - y <s 0 \<longleftrightarrow> vdist b x < vdist b y"
proof -
  define u v where "u = x - b" and "v = y - b"
  have "x - y = u - v" by (simp add: u_def v_def)
  moreover have "unat u < 2 ^ 63" "unat v < 2 ^ 63"
    using assms by (simp_all add: u_def v_def in_window_def vdist_def)
  ultimately show ?thesis
    unfolding vdist_def u_def [symmetric] v_def [symmetric] sless_0_iff
    by (auto simp: unat_sub_if_size word_size)
qed

lemma set_insert_by_vrun [simp]: "set (insert_by_vrun v x ys) = insert x (set ys)"
  by (induction ys) auto

lemma length_insert_by_vrun [simp]: "length (insert_by_vrun v x ys) = Suc (length ys)"
  by (induction ys) auto

lemma mset_insert_by_vrun [simp]: "mset (insert_by_vrun v x ys) = add_mset x (mset ys)"
  by (induction ys) auto

lemma distinct_insert_by_vrun [simp]: "distinct (insert_by_vrun v x ys) \<longleftrightarrow> x \<notin> set ys \<and> distinct ys"
  by (induction ys) auto

definition vsorted :: "u64 \<Rightarrow> ('k \<Rightarrow> u64) \<Rightarrow> 'k list \<Rightarrow> bool" where
  "vsorted b v xs \<longleftrightarrow> sorted_wrt (\<lambda>p q. vdist b (v p) \<le> vdist b (v q)) xs"

lemma insert_by_vrun_sorted:
  assumes "\<forall>y \<in> insert x (set ys). in_window b (v y)" and "vsorted b v ys"
  shows "vsorted b v (insert_by_vrun v x ys)"
  using assms
proof (induction ys)
  case (Cons y ys)
  then have IH: "vsorted b v (insert_by_vrun v x ys)" by (simp add: vsorted_def)
  have le: "v x - v y <s 0 \<longleftrightarrow> vdist b (v x) < vdist b (v y)"
    using Cons.prems(1) by (intro sless_window) simp_all
  show ?case
    using Cons.prems(2) IH le by (auto simp: vsorted_def intro: order_trans)
qed (simp add: vsorted_def)

text \<open>The queue of a processor: in order, without duplicates, of tasks that exist; the counters are the
  number of tasks and the sum of their weights.\<close>

definition queue_ok :: "'a kernel_state_scheme \<Rightarrow> nat \<Rightarrow> u64 \<Rightarrow> bool" where
  "queue_ok s cpu b \<longleftrightarrow>
     (let tm = cpus s cpu; v = (\<lambda>p. vrun_time (tasks s p)) in
      distinct (task_list tm) \<and> vsorted b v (task_list tm) \<and>
      (\<forall>p \<in> set (task_list tm). task_exist p s \<and> in_window b (v p)) \<and>
      running_tasks tm = word_of_nat (length (task_list tm)) \<and>
      total_weight tm = (\<Sum>p \<leftarrow> task_list tm. weight s (priority (tasks s p))))"

lemma sum_list_insert_by_vrun:
  "(\<Sum>p \<leftarrow> insert_by_vrun v x ys. (f p :: u64)) = f x + (\<Sum>p \<leftarrow> ys. f p)"
  by (induction ys) (auto simp: algebra_simps)

lemma task_list_insert_ok:
  assumes "queue_ok s cpu b" and "cpu < NR_CPUS" and "task_exist p s"
    and "in_window b (vrun_time (tasks s p))" and "p \<notin> set (task_list (cpus s cpu))"
  obtains g s' where "task_list_insert cpu p s = Some s'"
    and "s' = upd_task p (status_update (\<lambda>_. TASK_READY)) (upd_cpu cpu g s)" and "queue_ok s' cpu b"
    and "mset (task_list (cpus s' cpu)) = add_mset p (mset (task_list (cpus s cpu)))"
proof -
  define v where "v = (\<lambda>p. vrun_time (tasks s p))"
  define l where "l = task_list (cpus s cpu)"
  define g :: "task_man \<Rightarrow> task_man" where "g = (\<lambda>tm. tm\<lparr>
      task_list := insert_by_vrun v p l, running_tasks := running_tasks (cpus s cpu) + 1,
      total_weight := total_weight (cpus s cpu) + weight s (priority (tasks s p))\<rparr>)"
  define s' where "s' = upd_task p (status_update (\<lambda>_. TASK_READY)) (upd_cpu cpu g s)"
  have run: "task_list_insert cpu p s = Some s'"
    using assms(2,5) by (simp add: task_list_insert_def get_task_man_def s'_def g_def v_def l_def upd_cpu_def)
  have q: "distinct l" "vsorted b v l" "\<forall>q \<in> set l. task_exist q s \<and> in_window b (v q)"
      "running_tasks (cpus s cpu) = word_of_nat (length l)"
      "total_weight (cpus s cpu) = (\<Sum>q \<leftarrow> l. weight s (priority (tasks s q)))"
    using assms(1) by (simp_all add: queue_ok_def Let_def v_def l_def)
  have l': "task_list (cpus s' cpu) = insert_by_vrun v p l" by (simp add: s'_def g_def)
  have v': "vrun_time (tasks s' q) = v q" "priority (tasks s' q) = priority (tasks s q)"
    "task_exist q s' = task_exist q s" "weight s' w = weight s w" for q w
    by (simp_all add: s'_def v_def task_exist_def weight_def)
  have "vsorted b v (insert_by_vrun v p l)"
    using q(2,3) assms(4) by (intro insert_by_vrun_sorted) (simp_all add: v_def)
  then have "queue_ok s' cpu b"
    unfolding queue_ok_def Let_def l' v' sum_list_insert_by_vrun
    using q assms by (simp add: s'_def g_def v_def l_def)
  then show thesis using that [OF run s'_def] l' by (simp add: l_def)
qed

lemma task_list_insert_cpus:
  assumes "task_list_insert cpu p s = Some s'"
  shows "\<exists>tm. cpus s' = (cpus s)(cpu := tm) \<and> waiting_list tm = waiting_list (cpus s cpu) \<and>
    main_task tm = main_task (cpus s cpu) \<and> idle_task tm = idle_task (cpus s cpu)"
proof (cases "p \<in> set (task_list (cpus s cpu))")
  case True
  then have "s' = s" using assms by (auto simp: task_list_insert_def get_task_man_def split: if_splits)
  then show ?thesis by (intro exI [of _ "cpus s cpu"]) simp
next
  case False
  then show ?thesis using assms by (auto simp: task_list_insert_def get_task_man_def Let_def split: if_splits)
qed

text \<open>C12: \<^verbatim>\<open>task_list_insert\<close> keeps the run queue of a processor correct: the queue stays sorted by
  virtual run time (with wrap-around, while the run times lie within half of the word range), the task
  is in it exactly once and \<^verbatim>\<open>TASK_READY\<close>, no other task is lost or added, and the counters
  \<^verbatim>\<open>running_tasks\<close> and \<^verbatim>\<open>total_weight\<close> are those of the new queue.\<close>

theorem task_list_insert_queue:
  assumes "queue_ok s cpu b" and "cpu < NR_CPUS" and "task_exist p s"
    and "in_window b (vrun_time (tasks s p))" and "p \<notin> set (task_list (cpus s cpu))"
  shows "\<exists>s'. task_list_insert cpu p s = Some s' \<and> queue_ok s' cpu b \<and> status (tasks s' p) = TASK_READY \<and>
    mset (task_list (cpus s' cpu)) = add_mset p (mset (task_list (cpus s cpu)))"
proof -
  obtain g s' where "task_list_insert cpu p s = Some s'"
      "s' = upd_task p (status_update (\<lambda>_. TASK_READY)) (upd_cpu cpu g s)" "queue_ok s' cpu b"
      "mset (task_list (cpus s' cpu)) = add_mset p (mset (task_list (cpus s cpu)))"
    by (rule task_list_insert_ok [OF assms])
  then show ?thesis by (intro exI [of _ s']) simp
qed

subsection \<open>Starting a task\<close>

lemma kmalloc_some:
  fixes s :: "'a kernel_state_scheme"
  assumes "kinv s" and "groups_unlocked s" and "sz \<le> MAX_ALLOCATE_MEMORY_SIZE" and "free_set s \<noteq> {}"
  obtains b s' where "kmalloc sz 0 0 s = Some (K_SUCCESS, Some b, s')" and "kinv s'" and "groups_unlocked s'"
    and "b \<notin> live s" and "live s' = insert b (live s)" and "locks s' = locks s"
    and "running_pid s' = running_pid s" and "tasks s' = tasks s" and "cpus s' = cpus s"
    and "pt_mem s' = pt_mem s" and "kernel_task_addr s' = kernel_task_addr s"
    and "beyond_weights s' = beyond_weights s" and "card (free_set s) \<le> Suc (card (free_set s'))"
proof -
  obtain st r s' where km: "kmalloc sz 0 0 s = Some (st, r, s')" "kinv s'" "kmalloc_post sz 0 0 s st r s'"
    by (rule kmalloc_spec [OF assms(1-3)])
  have "st = K_SUCCESS"
    using km(3) assms(4) by (cases st) (auto simp: kmalloc_post_def)
  then obtain b where b: "r = Some b" "b \<notin> live s" "live s' = insert b (live s)" "locks s' = locks s"
      "running_pid s' = running_pid s" "card (free_set s) \<le> Suc (card (free_set s'))"
    using km(3) by (auto simp: kmalloc_post_def)
  have more: "alloc_state.more s' = alloc_state.more s" using kmalloc_more [OF km(1)] .
  have same: "tasks s' = tasks s" "cpus s' = cpus s" "pt_mem s' = pt_mem s"
      "kernel_task_addr s' = kernel_task_addr s" "beyond_weights s' = beyond_weights s"
    using more by (cases s'; cases s; simp)+
  have gu: "groups_unlocked s'" using assms(2) b(4) by (simp add: groups_unlocked_def lock_free_def)
  show thesis
    by (rule that [of b s']) (use km b \<open>st = K_SUCCESS\<close> same gu in simp_all)
qed

text \<open>Blocks are in the kernel's window on physical memory.\<close>

lemma live_range:
  assumes "b \<in> live s"
  shows "vma \<le> unat b" and "unat b < vma + 2 ^ 36"
proof -
  obtain i p j where b: "i < 13" "j < nbn i" "p < 16384" "b = blk p i j"
    using assms by (auto simp: live_def is_block_def)
  have eq: "unat b = vma + p * 2097152 + (j + 1) * bsz i" using unat_blk b by simp
  have "(j + 1) * bsz i < 2097152" using blk_bound [OF b(1,2)] bsz_bounds [OF b(1)] by linarith
  moreover have "p * 2097152 \<le> 16383 * 2097152" using b(3) by simp
  ultimately show "vma \<le> unat b" "unat b < vma + 2 ^ 36" unfolding eq by simp_all
qed

text \<open>The structure that \<^verbatim>\<open>init_task_struct\<close> writes, before the allocation in it.\<close>

definition fresh_record ::
  "pid \<Rightarrow> u8 list \<Rightarrow> u64 \<Rightarrow> addr \<Rightarrow> u64 \<Rightarrow> pid \<Rightarrow> nat \<Rightarrow> task_struct" where
  "fresh_record p nm prio kbase ksize parent cpu = zero_task\<lparr>tcontext := kbase + ksize,
     kstack_base := kbase, kstack_size := ksize, tpid := p, ppid := parent, task_name := nm,
     status := TASK_READY, cpu_id := cpu, priority := prio, send_to := PID_NO_TASK,
     recv_from := PID_NO_TASK\<rparr>"

definition with_record :: "pid \<Rightarrow> task_struct \<Rightarrow> 'a kernel_state_scheme \<Rightarrow> 'a kernel_state_scheme" where
  "with_record p t s = s\<lparr>preempt_count := (preempt_count s)(p := 0),
     locks := (locks s)(SendLock p := 1, ChildListLock p := 1), tasks := (tasks s)(p := t)\<rparr>"

lemma init_task_struct_eq:
  assumes "p \<noteq> running_pid s" and "p \<le> MAX_PID" and "name_field nm = Some nm'"
  shows "init_task_struct p nm prio kbase ksize s = do {
     (st, r, s) \<leftarrow> kmalloc FXSAVE_SIZE 0 0 (with_record p
       (fresh_record p nm' prio kbase ksize (tpid (running_task s)) (cpu_id (running_task s))) s);
     if ERROR st then Some (st, s)
     else do { a \<leftarrow> r; Some (K_SUCCESS, upd_task p (fxsave_region_update (\<lambda>_. a)) s) } }"
proof -
  have l: "(locks s)(SendLock p := 0, ChildListLock p := 0, SendLock p := 1, ChildListLock p := 1) =
     (locks s)(SendLock p := 1, ChildListLock p := 1)" by (auto simp: fun_eq_iff)
  show ?thesis
    unfolding init_task_struct_def Let_def assms(3) bind.simps
    using assms(1,2) l
    by (simp add: upd_task_def clear_task_def init_spinlock_def with_record_def fresh_record_def
        running_task_def task_to_pid_def zero_task_def)
qed


text \<open>What the life of tasks needs of the kernel.\<close>

definition kernel_ok :: "'a kernel_state_scheme \<Rightarrow> bool" where
  "kernel_ok s \<longleftrightarrow> kinv s \<and> groups_unlocked s \<and> lock_free TasksLock s \<and>
     (\<forall>c < NR_CPUS. lock_free (TaskListLock c) s) \<and> task_exist (running_pid s) s \<and>
     (\<forall>p. task_exist p s \<longrightarrow> tpid (tasks s p) = p \<and> cpu_id (tasks s p) < NR_CPUS)"

lemma kernel_okD:
  assumes "kernel_ok s"
  shows "kinv s" "groups_unlocked s" "lock_free TasksLock s"
    "\<And>c. c < NR_CPUS \<Longrightarrow> lock_free (TaskListLock c) s" "task_exist (running_pid s) s"
    "\<And>p. task_exist p s \<Longrightarrow> tpid (tasks s p) = p" "\<And>p. task_exist p s \<Longrightarrow> cpu_id (tasks s p) < NR_CPUS"
  using assms by (auto simp: kernel_ok_def)

lemma task_updates_alloc [simp]:
  "kinv (upd_task p f s) = kinv s" "groups_unlocked (upd_task p f s) = groups_unlocked s"
  "live (upd_task p f s) = live s" "free_set (upd_task p f s) = free_set s"
  "kinv (upd_cpu c g s) = kinv s" "groups_unlocked (upd_cpu c g s) = groups_unlocked s"
  "live (upd_cpu c g s) = live s" "free_set (upd_cpu c g s) = free_set s"
  "kinv (fresh_slot p s) = kinv s" "groups_unlocked (fresh_slot p s) = groups_unlocked s"
  "live (fresh_slot p s) = live s" "free_set (fresh_slot p s) = free_set s"
  "kinv (with_record p t s) = kinv s" "groups_unlocked (with_record p t s) = groups_unlocked s"
  "live (with_record p t s) = live s" "free_set (with_record p t s) = free_set s"
  by (rule alloc_fields_cong; simp add: upd_task_def upd_cpu_def fresh_slot_def clear_task_def with_record_def)+


lemma name_field_Some:
  "length nm < 31 \<Longrightarrow> 0 \<notin> set nm \<Longrightarrow> name_field nm = Some (nm @ replicate (32 - length nm) 0)"
  by (simp add: name_field_def)

lemma insert_locked:
  assumes "lock_free l s"
  shows "map_option (spinlock_unlock l) (task_list_insert c p (locked l s)) = task_list_insert c p s"
proof -
  have "weight (locked l s) x = weight s x" for x by (rule weight_cong) simp
  then show ?thesis using assms
    by (simp add: task_list_insert_def get_task_man_def Let_def)
qed

lemma queue_ok_absent: "queue_ok s c b \<Longrightarrow> \<not> task_exist p s \<Longrightarrow> p \<notin> set (task_list (cpus s c))"
  by (auto simp: queue_ok_def Let_def)

text \<open>A queue does not depend on tasks that are not in it.\<close>

lemma queue_ok_cong:
  assumes "queue_ok s c b" and "cpus s' c = cpus s c" and "beyond_weights s' = beyond_weights s"
    and "\<And>p. p \<in> set (task_list (cpus s c)) \<Longrightarrow> vrun_time (tasks s' p) = vrun_time (tasks s p) \<and>
      priority (tasks s' p) = priority (tasks s p) \<and> task_exist p s'"
  shows "queue_ok s' c b"
proof -
  have w: "weight s' x = weight s x" for x by (rule weight_cong [OF assms(3)])
  have "vsorted b (\<lambda>p. vrun_time (tasks s' p)) (task_list (cpus s c))"
    using assms(1,4) by (auto simp: queue_ok_def Let_def vsorted_def elim!: sorted_wrt_mono_rel [rotated])
  moreover have "(\<Sum>p \<leftarrow> task_list (cpus s c). weight s (priority (tasks s' p))) =
      (\<Sum>p \<leftarrow> task_list (cpus s c). weight s (priority (tasks s p)))"
    using assms(4) by (intro arg_cong [where f = sum_list] map_cong) simp_all
  ultimately show ?thesis
    using assms by (simp add: queue_ok_def Let_def w)
qed

text \<open>The state after \<^verbatim>\<open>task_start\<close> built the task, before it is queued.\<close>

definition built_task :: "pid \<Rightarrow> task_struct \<Rightarrow> u64 \<Rightarrow> u64 \<Rightarrow> addr \<Rightarrow> 'a kernel_state_scheme \<Rightarrow> 'a kernel_state_scheme" where
  "built_task p t func arg fx s =
     (let ctx = tcontext t - 72; s = upd_task p (\<lambda>_. t\<lparr>tcontext := ctx, fxsave_region := fx\<rparr>) s in
      upd_task (ppid t) (childs_update atomic_inc)
        (s\<lparr>pt_mem := (pt_mem s)(ctx + 64 := kernel_task_addr s, ctx + 48 := arg, ctx + 56 := func)\<rparr>))"

lemma create_task_struct_eq:
  assumes "tcontext (tasks s p) \<noteq> NULL" and "ppid (tasks s p) \<noteq> p"
  shows "map_option (upd_task (ppid (tasks s p)) (childs_update atomic_inc)) (create_task_struct p func arg s) =
    Some (built_task p (tasks s p) func arg (fxsave_region (tasks s p)) s)"
proof -
  have a: "tcontext (tasks s p) - 8 - 64 = tcontext (tasks s p) - 72"
    "tcontext (tasks s p) - 8 = tcontext (tasks s p) - 72 + 64" by simp_all
  show ?thesis
    using assms unfolding create_task_struct_def built_task_def Let_def a
    by (simp add: upd_task_def)
qed

lemma with_record_simps [simp]:
  "tasks (with_record p t s) = (tasks s)(p := t)" "cpus (with_record p t s) = cpus s"
  "running_pid (with_record p t s) = running_pid s" "beyond_weights (with_record p t s) = beyond_weights s"
  "pt_mem (with_record p t s) = pt_mem s" "kernel_task_addr (with_record p t s) = kernel_task_addr s"
  "locks (with_record p t s) = (locks s)(SendLock p := 1, ChildListLock p := 1)"
  by (simp_all add: with_record_def)

lemma fresh_slot_simps [simp]:
  "tasks (fresh_slot p s) = (tasks s)(p := zero_task\<lparr>tpid := p\<rparr>)" "cpus (fresh_slot p s) = cpus s"
  "running_pid (fresh_slot p s) = running_pid s" "beyond_weights (fresh_slot p s) = beyond_weights s"
  "pt_mem (fresh_slot p s) = pt_mem s" "kernel_task_addr (fresh_slot p s) = kernel_task_addr s"
  "locks (fresh_slot p s) = (locks s)(SendLock p := 0, ChildListLock p := 0)"
  by (simp_all add: fresh_slot_def clear_task_def upd_task_def)

text \<open>The allocation in the structure.\<close>

lemma allocate_record:
  fixes s :: "'a kernel_state_scheme"
  assumes ok: "kinv s" "groups_unlocked s" and fs: "free_set s \<noteq> {}"
  obtains fx s1 where "do {
       (st, r, s) \<leftarrow> kmalloc FXSAVE_SIZE 0 0 (with_record p r s);
       if ERROR st then Some (st, s)
       else do { a \<leftarrow> r; Some (K_SUCCESS, upd_task p (fxsave_region_update (\<lambda>_. a)) s) } } = Some (K_SUCCESS, s1)"
    and "kinv s1" and "groups_unlocked s1" and "fx \<notin> live s" and "live s1 = insert fx (live s)"
    and "locks s1 = (locks s)(SendLock p := 1, ChildListLock p := 1)" and "running_pid s1 = running_pid s"
    and "tasks s1 = (tasks s)(p := r\<lparr>fxsave_region := fx\<rparr>)" and "cpus s1 = cpus s" and "pt_mem s1 = pt_mem s"
    and "kernel_task_addr s1 = kernel_task_addr s" and "beyond_weights s1 = beyond_weights s"
    and "card (free_set s) \<le> Suc (card (free_set s1))"
proof -
  define s0 where "s0 = with_record p r s"
  have s0: "kinv s0" "groups_unlocked s0" "live s0 = live s" "free_set s0 \<noteq> {}"
    using ok fs by (simp_all add: s0_def)
  have sz: "FXSAVE_SIZE \<le> MAX_ALLOCATE_MEMORY_SIZE" by (simp add: FXSAVE_SIZE_def MAX_ALLOCATE_MEMORY_SIZE_def)
  obtain fx s1 where K: "kmalloc FXSAVE_SIZE 0 0 s0 = Some (K_SUCCESS, Some fx, s1)" "kinv s1"
      "groups_unlocked s1" "fx \<notin> live s0" "live s1 = insert fx (live s0)" "locks s1 = locks s0"
      "running_pid s1 = running_pid s0" "tasks s1 = tasks s0" "cpus s1 = cpus s0" "pt_mem s1 = pt_mem s0"
      "kernel_task_addr s1 = kernel_task_addr s0" "beyond_weights s1 = beyond_weights s0"
      "card (free_set s0) \<le> Suc (card (free_set s1))"
    by (rule kmalloc_some [OF s0(1,2) sz s0(4)])
  define s2 where "s2 = upd_task p (fxsave_region_update (\<lambda>_. fx)) s1"
  have "tasks s2 = (tasks s)(p := r\<lparr>fxsave_region := fx\<rparr>)" using K(8) by (simp add: s2_def s0_def)
  moreover have "kinv s2" "groups_unlocked s2" "fx \<notin> live s" "live s2 = insert fx (live s)"
      "locks s2 = (locks s)(SendLock p := 1, ChildListLock p := 1)" "running_pid s2 = running_pid s"
      "cpus s2 = cpus s" "pt_mem s2 = pt_mem s" "kernel_task_addr s2 = kernel_task_addr s"
      "beyond_weights s2 = beyond_weights s" "card (free_set s) \<le> Suc (card (free_set s2))"
    using K s0(3) by (simp_all add: s2_def s0_def) (simp_all add: upd_task_def s0_def)
  ultimately show thesis
    using K(1) by (intro that [of s2 fx]) (simp_all add: s0_def [symmetric] s2_def)
qed

text \<open>Building a task in a free slot of the table.\<close>

lemma init_and_create:
  fixes s :: "'a kernel_state_scheme"
  assumes ok: "kinv s" "groups_unlocked s" and p: "p \<noteq> running_pid s" "0 \<le> p" "p \<le> MAX_PID"
    and run: "tpid (running_task s) = running_pid s"
    and nm: "length nm < 31" "0 \<notin> set nm" and fs: "free_set s \<noteq> {}" and ctx: "kbase + ksize \<noteq> NULL"
  obtains fx s1 t where "init_task_struct p nm prio kbase ksize s = Some (K_SUCCESS, s1)"
    and "map_option (upd_task (running_pid s) (childs_update atomic_inc)) (create_task_struct p func arg s1) =
      Some (built_task p t func arg fx s1)"
    and "t = (fresh_record p (nm @ replicate (32 - length nm) 0) prio kbase ksize (running_pid s)
      (cpu_id (running_task s)))\<lparr>fxsave_region := fx\<rparr>"
    and "kinv s1" and "groups_unlocked s1" and "fx \<notin> live s" and "live s1 = insert fx (live s)"
    and "locks s1 = (locks s)(SendLock p := 1, ChildListLock p := 1)" and "running_pid s1 = running_pid s"
    and "tasks s1 = (tasks s)(p := t)" and "cpus s1 = cpus s" and "pt_mem s1 = pt_mem s"
    and "kernel_task_addr s1 = kernel_task_addr s" and "beyond_weights s1 = beyond_weights s"
    and "card (free_set s) \<le> Suc (card (free_set s1))"
proof -
  define r where "r = fresh_record p (nm @ replicate (32 - length nm) 0) prio kbase ksize (running_pid s)
      (cpu_id (running_task s))"
  obtain fx s1 where A: "do {
       (st, r, s) \<leftarrow> kmalloc FXSAVE_SIZE 0 0 (with_record p r s);
       if ERROR st then Some (st, s)
       else do { a \<leftarrow> r; Some (K_SUCCESS, upd_task p (fxsave_region_update (\<lambda>_. a)) s) } } = Some (K_SUCCESS, s1)"
    "kinv s1" "groups_unlocked s1" "fx \<notin> live s" "live s1 = insert fx (live s)"
    "locks s1 = (locks s)(SendLock p := 1, ChildListLock p := 1)" "running_pid s1 = running_pid s"
    "tasks s1 = (tasks s)(p := r\<lparr>fxsave_region := fx\<rparr>)" "cpus s1 = cpus s" "pt_mem s1 = pt_mem s"
    "kernel_task_addr s1 = kernel_task_addr s" "beyond_weights s1 = beyond_weights s"
    "card (free_set s) \<le> Suc (card (free_set s1))"
    by (rule allocate_record [OF ok fs])
  define t where "t = r\<lparr>fxsave_region := fx\<rparr>"
  have i: "init_task_struct p nm prio kbase ksize s = Some (K_SUCCESS, s1)"
    unfolding init_task_struct_eq [OF p(1,3) name_field_Some [OF nm]] run r_def [symmetric] using A(1) .
  have ts: "tasks s1 = (tasks s)(p := t)" using A(8) by (simp add: t_def)
  have ne: "tcontext (tasks s1 p) \<noteq> NULL" "ppid (tasks s1 p) \<noteq> p" "ppid (tasks s1 p) = running_pid s"
    "tasks s1 p = t" "fxsave_region t = fx"
    using ctx p(1) unfolding ts by (auto simp: t_def r_def fresh_record_def)
  have "map_option (upd_task (running_pid s) (childs_update atomic_inc)) (create_task_struct p func arg s1) =
      Some (built_task p t func arg fx s1)"
    using create_task_struct_eq [OF ne(1,2), of func arg] ne(3-5) by simp
  then show thesis
    by (rule that [OF i _ _ A(2-7) ts A(9-13)]) (simp add: t_def r_def)
qed


lemma built_task_simps [simp]:
  "cpus (built_task p t func arg fx s) = cpus s" "running_pid (built_task p t func arg fx s) = running_pid s"
  "locks (built_task p t func arg fx s) = locks s"
  "beyond_weights (built_task p t func arg fx s) = beyond_weights s"
  "kinv (built_task p t func arg fx s) = kinv s" "groups_unlocked (built_task p t func arg fx s) = groups_unlocked s"
  "live (built_task p t func arg fx s) = live s"
  "ppid t \<noteq> p \<Longrightarrow> tasks (built_task p t func arg fx s) = (tasks s)(p := t\<lparr>tcontext := tcontext t - 72, fxsave_region := fx\<rparr>,
     ppid t := childs_update atomic_inc (tasks s (ppid t)))"
  by (simp_all add: built_task_def Let_def)
     (rule alloc_fields_cong; simp add: upd_task_def)+

lemma task_exist_upd:
  "tasks s' = (tasks s)(p := t) \<Longrightarrow> 0 \<le> p \<Longrightarrow> p \<le> MAX_PID \<Longrightarrow>
    task_exist q s' \<longleftrightarrow> (if q = p then tpid t \<noteq> PID_NO_TASK else task_exist q s)"
  by (auto simp: task_exist_def)

text \<open>What \<^verbatim>\<open>task_start\<close> leaves alone.\<close>

definition started :: "pid \<Rightarrow> 'a kernel_state_scheme \<Rightarrow> 'a kernel_state_scheme \<Rightarrow> bool" where
  "started p s s' \<longleftrightarrow> (let cpu = cpu_id (running_task s) in
     running_pid s' = running_pid s \<and> beyond_weights s' = beyond_weights s \<and>
     locks s' = (locks s)(SendLock p := 1, ChildListLock p := 1) \<and>
     (\<forall>q. task_exist q s' \<longleftrightarrow> q = p \<or> task_exist q s) \<and>
     (\<forall>q. q \<noteq> p \<longrightarrow> q \<noteq> running_pid s \<longrightarrow> tasks s' q = tasks s q) \<and>
     running_task s' = childs_update atomic_inc (running_task s) \<and>
     cpu_id (tasks s' p) = cpu \<and> vrun_time (tasks s' p) = 0 \<and> exited_child_list (tasks s' p) = [] \<and>
     (\<exists>tm. cpus s' = (cpus s)(cpu := tm) \<and> waiting_list tm = waiting_list (cpus s cpu) \<and>
        main_task tm = main_task (cpus s cpu) \<and> idle_task tm = idle_task (cpus s cpu) \<and>
        mset (task_list tm) = add_mset p (mset (task_list (cpus s cpu)))) \<and>
     card (free_set s) \<le> Suc (Suc (card (free_set s'))))"

lemma task_start_spec:
  fixes s :: "'a kernel_state_scheme"
  assumes ok: "kernel_ok s" and slot: "free_slot s = Some p" and fs: "2 \<le> card (free_set s)"
    and size: "ksize AND (ksize - 1) = 0" "ksize \<le> MAX_ALLOCATE_MEMORY_SIZE"
    and nm: "length nm < 31" "0 \<notin> set nm"
    and q: "queue_ok s (cpu_id (running_task s)) b" "in_window b 0"
  shows "\<exists>s' kbase fx ctx. task_start nm prio ksize func arg s = Some (Some p, s') \<and>
    kernel_ok s' \<and> queue_ok s' (cpu_id (running_task s)) b \<and>
    \<not> task_exist p s \<and> task_exist p s' \<and> p \<in> set (task_list (cpus s' (cpu_id (running_task s)))) \<and>
    status (tasks s' p) = TASK_READY \<and> ppid (tasks s' p) = running_pid s \<and>
    childs (running_task s') = childs (running_task s) + 1 \<and>
    kbase \<notin> live s \<and> fx \<notin> insert kbase (live s) \<and> live s' = insert fx (insert kbase (live s)) \<and>
    kstack_base (tasks s' p) = kbase \<and> fxsave_region (tasks s' p) = fx \<and>
    ctx = kbase + ksize - 72 \<and> tcontext (tasks s' p) = ctx \<and>
    pt_mem s' (ctx + 48) = arg \<and> pt_mem s' (ctx + 56) = func \<and> pt_mem s' (ctx + 64) = kernel_task_addr s \<and>
    started p s s'"
proof -
  note K = kernel_okD [OF ok] and P = free_slot_iff(2) [OF slot]
  define cpu where "cpu = cpu_id (running_task s)"
  have run: "tpid (running_task s) = running_pid s" "cpu < NR_CPUS"
    using K(5-7) by (auto simp: running_task_def cpu_def)
  have pr: "p \<noteq> running_pid s" using P K(5) by auto
  define s1 where "s1 = fresh_slot p s"
  have al: "task_alloc s = Some (Some p, s1)" using task_alloc_eq [OF K(3,5)] slot by (simp add: s1_def)
  have s1: "kinv s1" "groups_unlocked s1" "free_set s1 \<noteq> {}" "live s1 = live s"
    using K(1,2) fs by (auto simp: s1_def)
  obtain kb s2 where k1: "kmalloc ksize 0 0 s1 = Some (K_SUCCESS, Some kb, s2)" "kinv s2" "groups_unlocked s2"
      "kb \<notin> live s1" "live s2 = insert kb (live s1)" "locks s2 = locks s1" "running_pid s2 = running_pid s1"
      "tasks s2 = tasks s1" "cpus s2 = cpus s1" "pt_mem s2 = pt_mem s1"
      "kernel_task_addr s2 = kernel_task_addr s1" "beyond_weights s2 = beyond_weights s1"
      "card (free_set s1) \<le> Suc (card (free_set s2))"
    using kmalloc_some [OF s1(1,2) size(2) s1(3)] by metis
  have fs2: "free_set s2 \<noteq> {}" using k1(13) fs by (auto simp: s1_def)
  have run2: "tpid (running_task s2) = running_pid s2" "cpu_id (running_task s2) = cpu" "running_pid s2 = running_pid s"
    using k1(7,8) run pr by (simp_all add: running_task_def s1_def cpu_def)
  have "kb \<in> live s2" using k1(5) by simp
  from live_range [OF this] have "unat (kb + ksize) = unat kb + unat ksize" "0 < unat kb"
  proof -
    have "unat ksize \<le> 262144" using size(2) by (simp add: MAX_ALLOCATE_MEMORY_SIZE_def word_le_nat_alt)
    then show "unat (kb + ksize) = unat kb + unat ksize"
      using live_range [OF \<open>kb \<in> live s2\<close>] by (intro unat_add_no_wrap) (simp add: vma_def)
    show "0 < unat kb" using live_range [OF \<open>kb \<in> live s2\<close>] by (simp add: vma_def)
  qed
  then have ctx: "kb + ksize \<noteq> NULL" by (metis add_is_0 not_gr_zero unat_0)
  have pr2: "p \<noteq> running_pid s2" "0 \<le> p" "p \<le> MAX_PID" using pr run2(3) P by simp_all
  obtain fx s3 t where I: "init_task_struct p nm prio kb ksize s2 = Some (K_SUCCESS, s3)"
      "map_option (upd_task (running_pid s2) (childs_update atomic_inc)) (create_task_struct p func arg s3) =
        Some (built_task p t func arg fx s3)"
      "t = (fresh_record p (nm @ replicate (32 - length nm) 0) prio kb ksize (running_pid s2)
        (cpu_id (running_task s2)))\<lparr>fxsave_region := fx\<rparr>"
      "kinv s3" "groups_unlocked s3" "fx \<notin> live s2" "live s3 = insert fx (live s2)"
      "locks s3 = (locks s2)(SendLock p := 1, ChildListLock p := 1)" "running_pid s3 = running_pid s2"
      "tasks s3 = (tasks s2)(p := t)" "cpus s3 = cpus s2" "pt_mem s3 = pt_mem s2"
      "kernel_task_addr s3 = kernel_task_addr s2" "beyond_weights s3 = beyond_weights s2"
      "card (free_set s2) \<le> Suc (card (free_set s3))"
    by (rule init_and_create [OF k1(2,3) pr2 run2(1) nm fs2 ctx])
  obtain s4 where s4: "create_task_struct p func arg s3 = Some s4"
      "upd_task (running_pid s) (childs_update atomic_inc) s4 = built_task p t func arg fx s3"
    using I(2) run2(3) by auto
  define s5 where "s5 = built_task p t func arg fx s3"
  have t: "tpid t = p" "ppid t = running_pid s" "cpu_id t = cpu" "vrun_time t = 0" "kstack_base t = kb"
      "fxsave_region t = fx" "tcontext t = kb + ksize" "priority t = prio"
    unfolding I(3) using run2 by (simp_all add: fresh_record_def zero_task_def)
  have s5: "running_pid s5 = running_pid s" "cpus s5 = cpus s" "beyond_weights s5 = beyond_weights s"
      "locks s5 = (locks s)(SendLock p := 1, ChildListLock p := 1)" "kinv s5" "groups_unlocked s5"
      "live s5 = insert fx (insert kb (live s))"
      "tasks s5 = (tasks s)(p := t\<lparr>tcontext := kb + ksize - 72, fxsave_region := fx\<rparr>,
         running_pid s := childs_update atomic_inc (running_task s))"
    using I(4,5,7-11,14) k1(5-9,12) s1(4) t(2,6,7) pr
    by (simp_all add: s5_def s1_def running_task_def fun_upd_twist)
  have mem5: "pt_mem s5 (kb + ksize - 72 + 48) = arg" "pt_mem s5 (kb + ksize - 72 + 56) = func"
      "pt_mem s5 (kb + ksize - 72 + 64) = kernel_task_addr s"
    using I(13) k1(11) t(7) by (simp_all add: s5_def built_task_def Let_def s1_def upd_task_def)
  have up4: "tasks s4 q = tasks s5 q" if "q \<noteq> running_pid s" for q
    using arg_cong [OF s4(2), of tasks] that by (simp add: s5_def fun_eq_iff) metis
  have "childs_update atomic_inc (tasks s4 (running_pid s)) = childs_update atomic_inc (running_task s)"
    using arg_cong [OF s4(2), of "\<lambda>s'. tasks s' (running_pid s)"] s5(8) by (simp add: s5_def)
  from arg_cong [OF this, of tpid] have "tpid (tasks s4 (running_pid s)) = tpid (running_task s)" by simp
  then have parent: "pid_to_task (running_pid s) s4 = Some (tasks s4 (running_pid s))"
    using K(5) by (simp add: pid_to_task_Some task_exist_def running_task_def split: if_splits)
  have tp4: "ppid (tasks s4 p) = running_pid s"
    using up4 [of p] pr s5(8) t(2) by simp
  have t5: "tasks s5 p = t\<lparr>tcontext := kb + ksize - 72, fxsave_region := fx\<rparr>" using s5(8) pr by simp
  have nt: "p \<noteq> PID_NO_TASK" "tpid (running_task s) \<noteq> PID_NO_TASK"
    using P K(5) by (auto simp: task_exist_def running_task_def MAX_PID_def PID_NO_TASK_def split: if_splits)
  have ex5: "task_exist q s5 = (q = p \<or> task_exist q s)" for q
  proof (cases "q = running_pid s")
    case True
    then show ?thesis using K(5) nt(2) pr by (auto simp: task_exist_def s5(8) split: if_splits)
  next
    case False
    then show ?thesis using P t(1) nt(1) by (simp add: task_exist_def s5(8))
  qed
  have q5: "queue_ok s5 cpu b"
  proof (rule queue_ok_cong)
    show "queue_ok s cpu b" using q(1) by (simp add: cpu_def)
    fix r assume "r \<in> set (task_list (cpus s cpu))"
    then have r: "task_exist r s" using q(1) by (auto simp: queue_ok_def Let_def cpu_def)
    then have "r \<noteq> p" using P by auto
    then show "vrun_time (tasks s5 r) = vrun_time (tasks s r) \<and> priority (tasks s5 r) = priority (tasks s r) \<and>
        task_exist r s5"
      using r ex5 by (simp add: s5(8) running_task_def)
  qed (simp_all add: s5)
  have np: "p \<notin> set (task_list (cpus s5 cpu))"
    using queue_ok_absent [OF q(1)] P s5(2) by (simp add: cpu_def)
  have pe: "task_exist p s5" using ex5 by simp
  have win: "in_window b (vrun_time (tasks s5 p))" using t5 t(4) q(2) by simp
  obtain g s6 where S: "task_list_insert cpu p s5 = Some s6"
      "s6 = upd_task p (status_update (\<lambda>_. TASK_READY)) (upd_cpu cpu g s5)" "queue_ok s6 cpu b"
      "mset (task_list (cpus s6 cpu)) = add_mset p (mset (task_list (cpus s5 cpu)))"
    by (rule task_list_insert_ok [OF q5 run(2) pe win np])
  have lf: "lock_free (TaskListLock cpu) s5" using K(4) [OF run(2)] s5(4) by (simp add: lock_free_def)
  obtain s6' where ins: "task_list_insert cpu p (locked (TaskListLock cpu) s5) = Some s6'"
      "spinlock_unlock (TaskListLock cpu) s6' = s6"
    using insert_locked [OF lf, of cpu p] S(1) by auto
  have c4: "cpu_id (tasks s4 p) = cpu" using up4 [of p] pr t5 t(3) by simp
  have gm: "get_task_man cpu s4 = Some (cpus s4 cpu)" using run(2) by (simp add: get_task_man_def)
  have "task_start nm prio ksize func arg s = Some (Some p, s6)"
    unfolding task_start_def
    using size(1) al k1(1) I(1) s4 tp4 parent gm ins lf c4 pr
    by (simp add: s5_def [symmetric] spinlock_lock_free Let_def)
  moreover have "kernel_ok s6"
  proof -
    have "task_exist q s6 = task_exist q s5" for q by (simp add: S(2) task_exist_def)
    moreover have "tpid (tasks s6 q) = q" "cpu_id (tasks s6 q) < NR_CPUS" if "task_exist q s5" for q
    proof -
      have "q = p \<or> task_exist q s" using that ex5 by simp
      then show "tpid (tasks s6 q) = q" "cpu_id (tasks s6 q) < NR_CPUS"
        using K(6) [of q] K(7) [of q] K(5) K(6) [of "running_pid s"] K(7) [of "running_pid s"] t(1,3) run(2) pr
        by (auto simp: S(2) s5(8) running_task_def)
    qed
    moreover have "lock_free TasksLock s6" "\<forall>c < NR_CPUS. lock_free (TaskListLock c) s6"
      using K(3,4) s5(4) by (simp_all add: S(2) lock_free_def)
    ultimately show ?thesis
      using s5(1,5,6) ex5 K(5) by (simp add: kernel_ok_def S(2))
  qed
  moreover have "p \<in> set (task_list (cpus s6 cpu))" using S(4) by (metis set_mset_mset union_single_eq_member)
  moreover have "status (tasks s6 p) = TASK_READY" "ppid (tasks s6 p) = running_pid s"
      "kstack_base (tasks s6 p) = kb" "fxsave_region (tasks s6 p) = fx" "tcontext (tasks s6 p) = kb + ksize - 72"
      "task_exist p s6" "live s6 = insert fx (insert kb (live s))"
    using t5 t s5(7) P nt(1) by (simp_all add: S(2) task_exist_def)
  moreover have "childs (running_task s6) = childs (running_task s) + 1"
    using s5(1,8) pr by (simp add: S(2) running_task_def atomic_inc_def)
  moreover have "pt_mem s6 = pt_mem s5" by (simp add: S(2) upd_task_def upd_cpu_def)
  moreover have "kb \<notin> live s" "fx \<notin> insert kb (live s)" using k1(4,5) I(6) s1(4) by auto
  moreover have "\<not> task_exist p s" using P by simp
  moreover have "started p s s6"
  proof -
    obtain tm where tm: "cpus s6 = (cpus s5)(cpu := tm)" "waiting_list tm = waiting_list (cpus s5 cpu)"
        "main_task tm = main_task (cpus s5 cpu)" "idle_task tm = idle_task (cpus s5 cpu)"
      using task_list_insert_cpus [OF S(1)] by auto
    have "mset (task_list tm) = add_mset p (mset (task_list (cpus s cpu)))" using S(4) by (simp add: tm(1) s5(2))
    moreover have "free_set s6 = free_set s3"
      by (simp add: S(2) s5_def built_task_def Let_def)
        (rule phys_inv_cong(2), simp add: upd_task_def)
    then have "card (free_set s) \<le> Suc (Suc (card (free_set s6)))" using k1(13) I(15) by (simp add: s1_def)
    moreover have "exited_child_list t = []" unfolding I(3) by (simp add: fresh_record_def zero_task_def)
    moreover have "task_exist q s6 = (q = p \<or> task_exist q s)" for q
      unfolding ex5 [of q, symmetric] by (simp add: S(2) task_exist_def)
    moreover have "tasks s6 q = tasks s q" if "q \<noteq> p" "q \<noteq> running_pid s" for q
      using that by (simp add: S(2) s5(8))
    moreover have "running_task s6 = childs_update atomic_inc (running_task s)"
      using pr by (simp add: S(2) s5(1,8) running_task_def)
    ultimately show ?thesis
      using tm t t5 s5(1-4) unfolding started_def Let_def cpu_def [symmetric]
      by (intro conjI exI [of _ tm]) (simp_all add: S(2))
  qed
  ultimately show ?thesis
    using S(3) mem5 unfolding cpu_def [symmetric]
    by (intro exI [of _ s6] exI [of _ kb] exI [of _ fx] exI [of _ "kb + ksize - 72"]) simp
qed



subsection \<open>An example kernel\<close>

text \<open>One processor's main task with process id 1 is running; slot 0 is free.\<close>

definition example_main :: task_struct where
  "example_main = zero_task\<lparr>tpid := 1, ppid := 1, status := TASK_RUNNING, priority := DEFAULT_PRIORITY,
     vrun_time := 7\<rparr>"

definition example_man :: task_man where
  "example_man = \<lparr>task_list = [], waiting_list = [], min_vrun_time = 7, running_tasks = 0, total_weight = 0,
     main_task = Some 1, idle_task = None\<rparr>"

definition example_kernel :: kernel_state where
  "example_kernel = pt_state.extend example_memory
     \<lparr>tasks = (\<lambda>p. if p = 1 then example_main else zero_task\<lparr>tpid := PID_NO_TASK\<rparr>),
      cpus = (\<lambda>_. example_man), intr_on = False, ticks = 0,
      kernel_task_addr = 0xffff800000123450, beyond_weights = (\<lambda>_. 0),
      service_pid_table = [PID_NO_TASK, 0, 0, 0, 0],
      tss_rsp0 = (\<lambda>_. 0)\<rparr>"

lemma example_kernel_fields:
  "locks example_kernel l = 1" "running_pid example_kernel = 1"
  "tasks example_kernel p = (if p = 1 then example_main else zero_task\<lparr>tpid := PID_NO_TASK\<rparr>)"
  "cpus example_kernel c = example_man" "free_set example_kernel = {3, 5, 6, 7, 8}"
  "live example_kernel = {}" "kinv example_kernel" "groups_unlocked example_kernel"
proof -
  have f: "page_bitmap example_kernel = page_bitmap example_memory"
    "free_pages example_kernel = free_pages example_memory" "locks example_kernel = locks example_memory"
    "mem_groups example_kernel = mem_groups example_memory" "caches example_kernel = caches example_memory"
    "magic example_kernel = magic example_memory"
    by (simp_all add: example_kernel_def pt_state.extend_def)
  have "kinv example_kernel = kinv example_memory"
    using f by (intro kinv_cong) (simp_all add: lock_free_def)
  then show "kinv example_kernel" using example_memory(1) by simp
  show "groups_unlocked example_kernel"
    using example_memory(2) f(3) by (simp add: groups_unlocked_def lock_free_def)
  show "live example_kernel = {}" using example_memory(5) live_cong [OF f(4,5)] by simp
  show "free_set example_kernel = {3, 5, 6, 7, 8}"
    using example_memory(3) f(1) by (simp add: free_set_def page_limit_def)
  show "locks example_kernel l = 1" using f(3) example_memory(4) by simp
  show "running_pid example_kernel = 1"
  proof -
    have "running_pid (init_groups n bs s) = running_pid s" for n bs and s :: alloc_state
      by (induction n arbitrary: bs s) (simp_all add: Let_def init_spinlock_def)
    then show ?thesis
      by (simp add: example_kernel_def pt_state.extend_def example_memory_def alloc_state.extend_def
          example_alloc_def mem_allocator_init_def example_raw_def phys_state.extend_def example_phys_def)
  qed
qed (simp_all add: example_kernel_def pt_state.extend_def)

lemma example_kernel_tasks: "task_exist p example_kernel \<longleftrightarrow> p = 1"
  by (simp add: task_exist_def example_kernel_fields example_main_def pid_defs)

lemma example_kernel_ok: "kernel_ok example_kernel"
  using example_kernel_tasks
  by (simp add: kernel_ok_def example_kernel_fields lock_free_def example_main_def zero_task_def NR_CPUS_def)

lemma example_kernel_slot: "free_slot example_kernel = Some 0"
proof -
  have "[0..<nat TASKS] = 0 # [Suc 0..<nat TASKS]" by (rule upt_conv_Cons) (simp add: TASKS_def)
  then show ?thesis by (simp add: free_slot_def example_kernel_fields zero_task_def)
qed

lemma example_kernel_queue: "queue_ok example_kernel c 0"
  by (simp add: queue_ok_def example_kernel_fields example_man_def vsorted_def)

lemma task_alloc_smallest_and_free_witness:
  "\<exists>r s1 s2. task_alloc example_kernel = Some (r, s1) \<and> task_free r s1 = Some s2 \<and>
    (case r of
       None \<Rightarrow> s1 = example_kernel \<and> (\<forall>i. 0 \<le> i \<longrightarrow> i \<le> MAX_PID \<longrightarrow> task_exist i example_kernel)
     | Some i \<Rightarrow> \<not> task_exist i example_kernel \<and> task_exist i s1 \<and>
         (\<forall>j. 0 \<le> j \<longrightarrow> j < i \<longrightarrow> task_exist j example_kernel) \<and>
         tasks s1 = (tasks example_kernel)(i := zero_task\<lparr>tpid := i\<rparr>)) \<and>
    lock_free TasksLock s1 \<and> lock_free TasksLock s2 \<and> (\<forall>j. task_exist j s2 = task_exist j example_kernel)"
  by (rule task_alloc_smallest_and_free)
     (simp_all add: lock_free_def example_kernel_fields example_kernel_tasks)

lemma task_list_insert_queue_witness:
  "\<exists>s'. task_list_insert 0 1 example_kernel = Some s' \<and> queue_ok s' 0 0 \<and>
    status (tasks s' 1) = TASK_READY \<and>
    mset (task_list (cpus s' 0)) = add_mset 1 (mset (task_list (cpus example_kernel 0)))"
  by (rule task_list_insert_queue [OF example_kernel_queue])
     (simp_all add: NR_CPUS_def example_kernel_tasks example_kernel_fields example_man_def example_main_def
       in_window_def vdist_def)



subsection \<open>Orphans\<close>

text \<open>The main task of a task's processor.\<close>

definition main_of :: "'a kernel_state_scheme \<Rightarrow> pid \<Rightarrow> pid" where
  "main_of s p = the (main_task (cpus s (cpu_id (tasks s p))))"

text \<open>Every task that exists sits on a processor whose main task exists and is not \<open>parent\<close>.\<close>

definition mains_ok :: "'a kernel_state_scheme \<Rightarrow> pid \<Rightarrow> bool" where
  "mains_ok s parent \<longleftrightarrow> (\<forall>p. task_exist p s \<longrightarrow> cpu_id (tasks s p) < NR_CPUS \<and>
     main_task (cpus s (cpu_id (tasks s p))) \<noteq> None \<and> main_of s p \<noteq> parent \<and>
     task_exist (main_of s p) s \<and> tpid (tasks s (main_of s p)) = main_of s p)"

lemma adopt_one_eq:
  assumes "mains_ok s parent"
  shows "adopt_one parent i s =
    Some (if task_exist i s \<and> ppid (tasks s i) = parent then upd_task i (ppid_update (\<lambda>_. main_of s i)) s else s)"
proof (cases "task_exist i s")
  case True
  then have "cpu_id (tasks s i) < NR_CPUS" "main_task (cpus s (cpu_id (tasks s i))) = Some (main_of s i)"
      "tpid (tasks s (main_of s i)) = main_of s i"
    using assms by (auto simp: mains_ok_def main_of_def)
  then show ?thesis using True by (simp add: adopt_one_def pid_to_task_exist get_task_man_def)
next
  case False
  then show ?thesis by (simp add: adopt_one_def pid_to_task_def)
qed

lemma mains_ok_cong:
  assumes "cpus s' = cpus s" and "\<And>p. tpid (tasks s' p) = tpid (tasks s p) \<and> cpu_id (tasks s' p) = cpu_id (tasks s p)"
  shows "mains_ok s' parent = mains_ok s parent" "main_of s' p = main_of s p" "task_exist p s' = task_exist p s"
  using assms by (simp_all add: mains_ok_def main_of_def task_exist_def)

lemma adopt_fold:
  assumes "mains_ok s parent" and "distinct xs"
  shows "\<exists>s'. fold_option (adopt_one parent) xs s = Some s' \<and> cpus s' = cpus s \<and> locks s' = locks s \<and>
    running_pid s' = running_pid s \<and> preempt_count s' = preempt_count s \<and>
    (\<forall>p. tasks s' p = (if p \<in> set xs \<and> task_exist p s \<and> ppid (tasks s p) = parent
       then ppid_update (\<lambda>_. main_of s p) (tasks s p) else tasks s p))"
  using assms
proof (induction xs arbitrary: s)
  case (Cons x xs)
  define s1 where "s1 = (if task_exist x s \<and> ppid (tasks s x) = parent
    then upd_task x (ppid_update (\<lambda>_. main_of s x)) s else s)"
  have f: "cpus s1 = cpus s" "locks s1 = locks s" "running_pid s1 = running_pid s"
      "preempt_count s1 = preempt_count s"
      "tasks s1 p = (if p = x \<and> task_exist p s \<and> ppid (tasks s p) = parent
         then ppid_update (\<lambda>_. main_of s p) (tasks s p) else tasks s p)" for p
    by (auto simp: s1_def)
  have c: "tpid (tasks s1 p) = tpid (tasks s p) \<and> cpu_id (tasks s1 p) = cpu_id (tasks s p)" for p
    by (simp add: f)
  note M = mains_ok_cong [of s1 s, OF f(1) c]
  obtain s2 where s2: "fold_option (adopt_one parent) xs s1 = Some s2" "cpus s2 = cpus s1" "locks s2 = locks s1"
      "running_pid s2 = running_pid s1" "preempt_count s2 = preempt_count s1"
      "\<forall>p. tasks s2 p = (if p \<in> set xs \<and> task_exist p s1 \<and> ppid (tasks s1 p) = parent
         then ppid_update (\<lambda>_. main_of s1 p) (tasks s1 p) else tasks s1 p)"
    using Cons.IH [of s1] Cons.prems M(1) [of parent] by auto
  have "tasks s2 p = (if p \<in> set (x # xs) \<and> task_exist p s \<and> ppid (tasks s p) = parent
       then ppid_update (\<lambda>_. main_of s p) (tasks s p) else tasks s p)" for p
    using s2(6) [rule_format, of p] Cons.prems(2) unfolding f(5) M(2,3) by auto
  then show ?case
    using s2(1-5) f(1-4) adopt_one_eq [OF Cons.prems(1), of x, folded s1_def] by simp
qed simp

lemma hand_over_eq:
  assumes "mains_ok s parent" and "task_exist c s" and "lock_free (ChildListLock (main_of s c)) s"
  shows "hand_over parent c s = Some (upd_task (main_of s c) (exited_child_list_update (\<lambda>l. l @ [c]))
    (upd_task parent (exited_child_list_update tl) s))"
proof -
  have c: "cpu_id (tasks s c) < NR_CPUS" "main_task (cpus s (cpu_id (tasks s c))) = Some (main_of s c)"
    using assms(1,2) by (auto simp: mains_ok_def main_of_def)
  have "cpu_id (if c = parent then exited_child_list_update tl (tasks s parent) else tasks s c) = cpu_id (tasks s c)"
    by simp
  then show ?thesis
    using c assms(3) by (simp add: hand_over_def get_task_man_def Let_def spinlock_lock_free)
qed

lemma hand_over_fold:
  assumes "mains_ok s parent" and "\<And>c. c \<in> set cs \<Longrightarrow> task_exist c s"
    and "\<And>c. c \<in> set cs \<Longrightarrow> lock_free (ChildListLock (main_of s c)) s"
    and "exited_child_list (tasks s parent) = cs"
  shows "\<exists>s'. fold_option (hand_over parent) cs s = Some s' \<and> cpus s' = cpus s \<and> locks s' = locks s \<and>
    running_pid s' = running_pid s \<and> preempt_count s' = preempt_count s \<and>
    exited_child_list (tasks s' parent) = [] \<and>
    (\<forall>p. p \<noteq> parent \<longrightarrow> tasks s' p =
       exited_child_list_update (\<lambda>l. l @ filter (\<lambda>c. main_of s c = p) cs) (tasks s p)) \<and>
    (\<forall>p. ppid (tasks s' p) = ppid (tasks s p) \<and> tpid (tasks s' p) = tpid (tasks s p) \<and>
       return_status (tasks s' p) = return_status (tasks s p))"
  using assms
proof (induction cs arbitrary: s)
  case Nil
  then show ?case by simp
next
  case (Cons c cs)
  have ex: "task_exist c s" "lock_free (ChildListLock (main_of s c)) s" using Cons.prems(2,3) by simp_all
  have mp: "main_of s c \<noteq> parent" using Cons.prems(1) ex(1) by (simp add: mains_ok_def)
  define s1 where "s1 = upd_task (main_of s c) (exited_child_list_update (\<lambda>l. l @ [c]))
    (upd_task parent (exited_child_list_update tl) s)"
  have run: "hand_over parent c s = Some s1"
    using hand_over_eq [OF Cons.prems(1) ex] by (simp add: s1_def)
  have f: "cpus s1 = cpus s" "locks s1 = locks s" "running_pid s1 = running_pid s"
      "preempt_count s1 = preempt_count s" by (simp_all add: s1_def)
  have t1: "tasks s1 parent = exited_child_list_update tl (tasks s parent)"
      "p \<noteq> parent \<Longrightarrow> tasks s1 p = exited_child_list_update (\<lambda>l. l @ (if main_of s c = p then [c] else [])) (tasks s p)" for p
    using mp by (simp_all add: s1_def)
  have same: "tpid (tasks s1 p) = tpid (tasks s p) \<and> cpu_id (tasks s1 p) = cpu_id (tasks s p)"
    "ppid (tasks s1 p) = ppid (tasks s p)" "return_status (tasks s1 p) = return_status (tasks s p)" for p
    by (cases "p = parent"; simp add: t1)+
  note M = mains_ok_cong [of s1 s, OF f(1) same(1)]
  have lf: "lock_free l s1 = lock_free l s" for l by (simp add: s1_def)
  have p1: "mains_ok s1 parent" "\<And>d. d \<in> set cs \<Longrightarrow> task_exist d s1"
      "\<And>d. d \<in> set cs \<Longrightarrow> lock_free (ChildListLock (main_of s1 d)) s1" "exited_child_list (tasks s1 parent) = cs"
    using Cons.prems M lf t1(1) by simp_all
  obtain s2 where s2: "fold_option (hand_over parent) cs s1 = Some s2" "cpus s2 = cpus s1" "locks s2 = locks s1"
      "running_pid s2 = running_pid s1" "preempt_count s2 = preempt_count s1" "exited_child_list (tasks s2 parent) = []"
      "\<forall>p. p \<noteq> parent \<longrightarrow> tasks s2 p = exited_child_list_update (\<lambda>l. l @ filter (\<lambda>c. main_of s1 c = p) cs) (tasks s1 p)"
      "\<forall>p. ppid (tasks s2 p) = ppid (tasks s1 p) \<and> tpid (tasks s2 p) = tpid (tasks s1 p) \<and>
        return_status (tasks s2 p) = return_status (tasks s1 p)"
    using Cons.IH [OF p1] by blast
  have "tasks s2 p = exited_child_list_update (\<lambda>l. l @ filter (\<lambda>c. main_of s c = p) (c # cs)) (tasks s p)"
    if "p \<noteq> parent" for p
    using s2(7) that t1(2) [OF that] by (simp add: M(2) o_def)
  then show ?case
    using run s2(1-6,8) f same by (intro exI [of _ s2]) simp
qed


text \<open>C11: A task that exits leaves no orphans: \<^verbatim>\<open>task_exit\<close> records the status, every child that
  still runs gets the main task of its processor as parent, the exited children that nobody waited for
  are appended in order to the lists of the main tasks of their processors, and the locks and the
  preemption counter are as before.\<close>

theorem task_exit_no_orphans:
  assumes run: "task_exist (running_pid s) s" "tpid (running_task s) = running_pid s"
    and mains: "mains_ok s (running_pid s)" and lf: "\<And>p. lock_free (ChildListLock p) s"
    and ex: "\<And>c. c \<in> set (exited_child_list (running_task s)) \<Longrightarrow> task_exist c s"
  shows "\<exists>s'. task_exit st s = Some s' \<and> return_status (running_task s') = st \<and>
    (\<forall>p. task_exist p s' = task_exist p s) \<and>
    (\<forall>p. task_exist p s \<longrightarrow> ppid (tasks s' p) =
       (if ppid (tasks s p) = running_pid s then main_of s p else ppid (tasks s p))) \<and>
    exited_child_list (running_task s') = [] \<and>
    (\<forall>p. p \<noteq> running_pid s \<longrightarrow> exited_child_list (tasks s' p) = exited_child_list (tasks s p) @
       filter (\<lambda>c. main_of s c = p) (exited_child_list (running_task s))) \<and>
    locks s' = locks s \<and> preempt_count s' = preempt_count s"
proof -
  define me where "me = running_pid s"
  define s0 where "s0 = upd_task me (return_status_update (\<lambda>_. st)) s"
  define s1 where "s1 = locked (ChildListLock me) s0"
  have f1: "cpus s1 = cpus s" "running_pid s1 = me" "tasks s1 = (tasks s)(me := return_status_update (\<lambda>_. st) (tasks s me))"
      "locks s1 = (locks s)(ChildListLock me := 0)"
      "preempt_count s1 = (preempt_count s)(me := preempt_count s me + 1)"
    by (simp_all add: s1_def s0_def me_def) (simp_all add: locked_def bump_preempt_def)
  have same1: "tpid (tasks s1 p) = tpid (tasks s p) \<and> cpu_id (tasks s1 p) = cpu_id (tasks s p)"
    "ppid (tasks s1 p) = ppid (tasks s p)" "exited_child_list (tasks s1 p) = exited_child_list (tasks s p)" for p
    by (simp_all add: f1)
  note M1 = mains_ok_cong [of s1 s, OF f1(1) same1(1)]
  have m1: "mains_ok s1 me" using mains M1(1) by (simp add: me_def)
  obtain s2 where s2: "fold_option (adopt_one me) (map int [0..<nat TASKS]) s1 = Some s2" "cpus s2 = cpus s1"
      "locks s2 = locks s1" "running_pid s2 = running_pid s1" "preempt_count s2 = preempt_count s1"
      "\<forall>p. tasks s2 p = (if p \<in> set (map int [0..<nat TASKS]) \<and> task_exist p s1 \<and> ppid (tasks s1 p) = me
         then ppid_update (\<lambda>_. main_of s1 p) (tasks s1 p) else tasks s1 p)"
    using adopt_fold [OF m1, of "map int [0..<nat TASKS]"] by (auto simp: distinct_map)
  have range: "p \<in> set (map int [0..<nat TASKS])" if "task_exist p s" for p
    using task_exist_range [OF that]
    by (simp only: set_map set_upt image_int_atLeastLessThan) (simp add: MAX_PID_def TASKS_def)
  have t2: "tasks s2 p = (if task_exist p s \<and> ppid (tasks s p) = me
      then ppid_update (\<lambda>_. main_of s p) (tasks s1 p) else tasks s1 p)" for p
    using s2(6) [rule_format, of p] range [of p] unfolding M1 same1(2) by auto
  have same2: "tpid (tasks s2 p) = tpid (tasks s p) \<and> cpu_id (tasks s2 p) = cpu_id (tasks s p)"
    "exited_child_list (tasks s2 p) = exited_child_list (tasks s p)" for p
    using same1 [of p] by (simp_all add: t2)
  have c2: "cpus s2 = cpus s" using s2(2) f1(1) by simp
  note M2 = mains_ok_cong [of s2 s, OF c2 same2(1)]
  define cs where "cs = exited_child_list (tasks s me)"
  have ex': "task_exist c s2" if "c \<in> set cs" for c
    using ex that M2(3) by (simp add: cs_def running_task_def me_def)
  have free2: "lock_free (ChildListLock (main_of s2 c)) s2" if "c \<in> set cs" for c
  proof -
    have "main_of s c \<noteq> me" using mains ex that by (simp add: mains_ok_def me_def cs_def running_task_def)
    then show ?thesis using lf [of "main_of s c"] s2(3) f1(4) M2(2) by (simp add: lock_free_def)
  qed
  have m2: "mains_ok s2 me" using mains M2(1) by (simp add: me_def)
  have cs2: "exited_child_list (tasks s2 me) = cs" by (simp add: same2(2) cs_def)
  obtain s3 where s3: "fold_option (hand_over me) cs s2 = Some s3" "cpus s3 = cpus s2" "locks s3 = locks s2"
      "running_pid s3 = running_pid s2" "preempt_count s3 = preempt_count s2" "exited_child_list (tasks s3 me) = []"
      "\<forall>p. p \<noteq> me \<longrightarrow> tasks s3 p = exited_child_list_update (\<lambda>l. l @ filter (\<lambda>c. main_of s2 c = p) cs) (tasks s2 p)"
      "\<forall>p. ppid (tasks s3 p) = ppid (tasks s2 p) \<and> tpid (tasks s3 p) = tpid (tasks s2 p) \<and>
        return_status (tasks s3 p) = return_status (tasks s2 p)"
    using hand_over_fold [OF m2 ex' free2 cs2] by blast
  define s' where "s' = spinlock_unlock (ChildListLock me) s3"
  have t': "tasks s' = tasks s3" "running_pid s' = me" using s3(4) s2(4) f1(2) by (simp_all add: s'_def)
  have "locks s' = locks s" "preempt_count s' = preempt_count s"
    using s3(3-5) s2(3-5) f1(2,4,5) lf [of me]
    by (simp_all add: s'_def spinlock_unlock_def bump_preempt_def lock_free_def fun_upd_idem)
  moreover have "task_exit st s = Some s'"
  proof -
    have "pid_to_task me s0 = Some (tasks s0 me)"
      using run(1) by (simp add: pid_to_task_Some task_exist_def s0_def me_def split: if_splits)
    moreover have "spinlock_lock (ChildListLock me) s0 = Some s1"
      using lf [of me] by (simp add: spinlock_lock_free s1_def s0_def)
    moreover have "tpid (running_task s0) = me" using run(2) by (simp add: running_task_def s0_def me_def)
    ultimately show ?thesis
      using s2(1) s3(1) same2(2) [of me]
      by (simp add: task_exit_def main_task_adopt_child_def s0_def [symmetric] me_def [symmetric] s'_def cs_def)
  qed
  moreover have "return_status (running_task s') = st"
    using s3(8) by (simp add: running_task_def t' t2 f1)
  moreover have "task_exist p s' = task_exist p s" for p
    using s3(8) same2 by (simp add: task_exist_def t')
  moreover have "ppid (tasks s' p) = (if ppid (tasks s p) = me then main_of s p else ppid (tasks s p))"
    if "task_exist p s" for p
    using s3(8) that same1(2) [of p] by (simp add: t' t2)
  moreover have "exited_child_list (tasks s' p) = exited_child_list (tasks s p) @ filter (\<lambda>c. main_of s c = p) cs"
    if "p \<noteq> me" for p
    using s3(7) that same2(2) [of p] M2(2) by (simp add: t')
  ultimately show ?thesis
    using s3(6) unfolding me_def [symmetric]
    by (intro exI [of _ s']) (simp add: running_task_def t' cs_def me_def)
qed


text \<open>Task 2 exits; task 3 is its running child, task 4 its exited one.\<close>

definition example_family :: kernel_state where
  "example_family = example_kernel\<lparr>running_pid := 2,
     tasks := (tasks example_kernel)(2 := zero_task\<lparr>tpid := 2, ppid := 1, exited_child_list := [4]\<rparr>,
       3 := zero_task\<lparr>tpid := 3, ppid := 2\<rparr>, 4 := zero_task\<lparr>tpid := 4, ppid := 2\<rparr>)\<rparr>"

lemma task_exit_no_orphans_witness:
  "\<exists>s'. task_exit 7 example_family = Some s' \<and> return_status (running_task s') = 7 \<and>
    ppid (tasks s' 3) = 1 \<and> exited_child_list (tasks s' 1) = [4] \<and> exited_child_list (running_task s') = []"
proof -
  have t: "tasks example_family p = (if p = 2 then zero_task\<lparr>tpid := 2, ppid := 1, exited_child_list := [4]\<rparr>
      else if p = 3 then zero_task\<lparr>tpid := 3, ppid := 2\<rparr> else if p = 4 then zero_task\<lparr>tpid := 4, ppid := 2\<rparr>
      else if p = 1 then example_main else zero_task\<lparr>tpid := PID_NO_TASK\<rparr>)" for p
    by (simp add: example_family_def example_kernel_fields)
  have f: "running_pid example_family = 2" "cpus example_family c = example_man" "locks example_family l = 1" for c l
    by (simp_all add: example_family_def example_kernel_fields)
  have e: "task_exist p example_family \<longleftrightarrow> p \<in> {1, 2, 3, 4}" for p
    by (auto simp: task_exist_def t example_main_def pid_defs)
  have m: "main_of example_family p = 1" for p by (simp add: main_of_def f example_man_def)
  have "mains_ok example_family 2"
    by (auto simp: mains_ok_def e m f t NR_CPUS_def example_man_def example_main_def zero_task_def)
  then show ?thesis
    using task_exit_no_orphans [of example_family 7]
    by (auto simp: f e m t running_task_def lock_free_def example_main_def zero_task_def)
qed


end
