(* ===== verification/Ipc.thy ===== *)
theory Ipc
  imports Tasks
begin

text \<open>
  Message passing: \<^verbatim>\<open>src/arch/x86_64/syscall/ipc.c\<close> and the service ids of
  \<^verbatim>\<open>src/service/service.c\<close>. A call that blocks is split at its \<^verbatim>\<open>task_block\<close>; the parts in
  between are operations of the kernel state, and a step relation runs the parts of any number of
  tasks interleaved, one access to shared state at a time. A section under a spinlock is one step.
\<close>

subsection \<open>Service ids\<close>

definition SERVICE_ID_BASE :: int where "SERVICE_ID_BASE = 0x80000000"
definition SERVICES :: int where "SERVICES = 5"

definition SEND_TO_KERNEL :: pid where "SEND_TO_KERNEL = -1"
definition RECV_FROM_INT :: pid where "RECV_FROM_INT = -2"
definition RECV_FROM_ANY :: pid where "RECV_FROM_ANY = -3"

text \<open>A process id is converted to \<^verbatim>\<open>uint32_t\<close> when it is passed.\<close>

definition is_service_id :: "int \<Rightarrow> bool" where
  "is_service_id sid \<longleftrightarrow>
     (let sid = sid mod 2 ^ 32 in sid \<ge> SERVICE_ID_BASE \<and> sid < SERVICE_ID_BASE + SERVICES)"

definition service_id_to_pid :: "int \<Rightarrow> 'a kernel_state_scheme \<Rightarrow> pid option" where
  "service_id_to_pid sid s =
     (if is_service_id sid then
        (let i = nat (sid mod 2 ^ 32 - SERVICE_ID_BASE) in
         if i < length (service_pid_table s) then Some (service_pid_table s ! i) else None)
      else Some PID_NO_TASK)"

subsection \<open>Status codes\<close>

datatype syscall_status =
    SYSCALL_SUCCESS
  | SYSCALL_ERROR
  | SYSCALL_NO_SYSCALL
  | SYSCALL_DEADLOCK
  | SYSCALL_DEST_NOT_EXIST
  | SYSCALL_SRC_NOT_EXIST

subsection \<open>Interrupt messages\<close>

definition inform_intr :: "pid \<Rightarrow> 'a kernel_state_scheme \<Rightarrow> 'a kernel_state_scheme option" where
  "inform_intr dst s = do {
     dst \<leftarrow> (if is_service_id dst then service_id_to_pid dst s else Some dst);
     if \<not> task_exist dst s then Some s
     else Some (upd_task dst (has_intr_msg_update (\<lambda>_. 1)) s) }"

subsection \<open>Sending\<close>

text \<open>\<^verbatim>\<open>msg_send\<close> up to the call of \<^verbatim>\<open>wait_receviced\<close>.\<close>

definition send_prepare :: "pid \<Rightarrow> message \<Rightarrow> 'a kernel_state_scheme \<Rightarrow> syscall_status + 'a kernel_state_scheme" where
  "send_prepare dst mg s =
     (let me = running_pid s; s = upd_task me (send_to_update (\<lambda>_. PID_NO_TASK)) s in
      if \<not> task_exist dst s then Inl SYSCALL_DEST_NOT_EXIST
      else Inr (upd_task me (\<lambda>t. t\<lparr>msg := mg\<lparr>src := tpid t\<rparr>, send_to := dst\<rparr>) s))"

text \<open>\<^verbatim>\<open>wait_receviced\<close>: joining the receiver's list, raising the flag, and blocking.\<close>

definition send_enqueue :: "'a kernel_state_scheme \<Rightarrow> 'a kernel_state_scheme option" where
  "send_enqueue s = do {
     let me = running_pid s;
     let dst = send_to (running_task s);
     receiver \<leftarrow> pid_to_task dst s;
     s \<leftarrow> spinlock_lock (SendLock dst) s;
     let s = upd_task dst (sender_list_update (\<lambda>l. l @ [me])) s;
     Some (spinlock_unlock (SendLock dst) s) }"

definition raise_send_flag :: "'a kernel_state_scheme \<Rightarrow> 'a kernel_state_scheme" where
  "raise_send_flag s = upd_task (running_pid s) (send_flag_update atomic_inc) s"

definition wait_receviced :: "'a kernel_state_scheme \<Rightarrow> 'a kernel_state_scheme option" where
  "wait_receviced s = do {
     s \<leftarrow> send_enqueue s;
     let s = raise_send_flag s;
     Some (upd_task (running_pid s) (status_update (\<lambda>_. TASK_SENDING)) s) }"

text \<open>\<^verbatim>\<open>msg_send\<close> up to the block; after it the call returns \<open>SYSCALL_SUCCESS\<close>.\<close>

definition msg_send ::
  "pid \<Rightarrow> message \<Rightarrow> 'a kernel_state_scheme \<Rightarrow> (syscall_status + 'a kernel_state_scheme) option" where
  "msg_send dst mg s =
     (case send_prepare dst mg s of
        Inl e \<Rightarrow> Some (Inl e)
      | Inr s \<Rightarrow> map_option Inr (wait_receviced s))"

subsection \<open>Receiving\<close>

definition clear_send_to :: "pid \<Rightarrow> 'a kernel_state_scheme \<Rightarrow> 'a kernel_state_scheme option" where
  "clear_send_to pid s = do {
     _ \<leftarrow> pid_to_task pid s;
     Some (upd_task pid (send_to_update (\<lambda>_. PID_NO_TASK)) s) }"

definition lower_send_flag :: "pid \<Rightarrow> 'a kernel_state_scheme \<Rightarrow> 'a kernel_state_scheme" where
  "lower_send_flag pid s = upd_task pid (send_flag_update atomic_dec) s"

definition inform_received :: "pid \<Rightarrow> 'a kernel_state_scheme \<Rightarrow> 'a kernel_state_scheme option" where
  "inform_received pid s = map_option (lower_send_flag pid) (clear_send_to pid s)"

definition received_from_any_task :: "pid \<Rightarrow> 'a kernel_state_scheme \<Rightarrow> (bool \<times> 'a kernel_state_scheme) option" where
  "received_from_any_task pid s = do {
     _ \<leftarrow> pid_to_task pid s;
     s \<leftarrow> spinlock_lock (SendLock pid) s;
     let ret = (sender_list (tasks s pid) \<noteq> []);
     Some (ret, spinlock_unlock (SendLock pid) s) }"

definition received_from_intr :: "pid \<Rightarrow> 'a kernel_state_scheme \<Rightarrow> u32 option" where
  "received_from_intr pid s = map_option has_intr_msg (pid_to_task pid s)"

definition received_any_message :: "pid \<Rightarrow> 'a kernel_state_scheme \<Rightarrow> (bool \<times> 'a kernel_state_scheme) option" where
  "received_any_message pid s = do {
     i \<leftarrow> received_from_intr pid s;
     if i \<noteq> 0 then Some (True, s) else received_from_any_task pid s }"

text \<open>The address of the tag of a task that does not exist is in no list.\<close>

definition received_from :: "pid \<Rightarrow> pid \<Rightarrow> 'a kernel_state_scheme \<Rightarrow> (bool \<times> 'a kernel_state_scheme) option" where
  "received_from pid sr s = do {
     _ \<leftarrow> pid_to_task pid s;
     s \<leftarrow> spinlock_lock (SendLock pid) s;
     let ret = (task_exist sr s \<and> sr \<in> set (sender_list (tasks s pid)));
     Some (ret, spinlock_unlock (SendLock pid) s) }"

text \<open>\<^verbatim>\<open>msg_recv\<close> up to its \<^verbatim>\<open>task_block(TASK_RECEIVING)\<close>.\<close>

definition recv_prepare :: "pid \<Rightarrow> 'a kernel_state_scheme \<Rightarrow> syscall_status + 'a kernel_state_scheme" where
  "recv_prepare sr s =
     (let me = running_pid s; s = upd_task me (recv_from_update (\<lambda>_. PID_NO_TASK)) s in
      if sr \<noteq> RECV_FROM_ANY \<and> sr \<noteq> RECV_FROM_INT \<and> \<not> task_exist sr s then Inl SYSCALL_SRC_NOT_EXIST
      else Inr (upd_task me (\<lambda>t. t\<lparr>recv_from := sr, recv_flag := snd (atomic_set (recv_flag t) 1),
        status := TASK_RECEIVING\<rparr>) s))"

text \<open>After the block: the test for an interrupt message, and its result.\<close>

definition recv_intr :: "pid \<Rightarrow> 'a kernel_state_scheme \<Rightarrow> (message \<Rightarrow> message \<times> 'a kernel_state_scheme) option option" where
  "recv_intr sr s =
     (if sr = RECV_FROM_ANY \<or> sr = RECV_FROM_INT then do {
        i \<leftarrow> received_from_intr (tpid (running_task s)) s;
        Some (if i \<noteq> 0 then Some (\<lambda>mg.
          (mg\<lparr>src := RECV_FROM_INT, mtype := word_of_int RECV_FROM_INT\<rparr>,
           upd_task (running_pid s) (\<lambda>t. t\<lparr>recv_from := PID_NO_TASK, has_intr_msg := 0\<rparr>) s))
        else None) }
      else Some None)"

text \<open>Taking the sender out of the list. \<^verbatim>\<open>list_pop\<close> of an empty list dereferences null, and so does
  \<^verbatim>\<open>list_remove\<close> of a node that is in no list.\<close>

definition recv_take :: "pid \<Rightarrow> 'a kernel_state_scheme \<Rightarrow> (pid \<times> 'a kernel_state_scheme) option" where
  "recv_take sr s = do {
     let me = running_pid s;
     if sr = RECV_FROM_ANY \<or> sr = RECV_FROM_INT then do {
       s \<leftarrow> spinlock_lock (SendLock me) s;
       (case sender_list (tasks s me) of
          [] \<Rightarrow> None
        | x # xs \<Rightarrow> Some (x, spinlock_unlock (SendLock me) (upd_task me (sender_list_update (\<lambda>_. xs)) s))) }
     else do {
       _ \<leftarrow> pid_to_task sr s;
       s \<leftarrow> spinlock_lock (SendLock me) s;
       assert (sr \<in> set (sender_list (tasks s me)));
       Some (sr, spinlock_unlock (SendLock me) (upd_task me (sender_list_update (remove1 sr)) s)) } }"

definition recv_copy :: "pid \<Rightarrow> 'a kernel_state_scheme \<Rightarrow> message \<times> 'a kernel_state_scheme" where
  "recv_copy sender s =
     (msg (tasks s sender), upd_task (running_pid s) (recv_from_update (\<lambda>_. PID_NO_TASK)) s)"

text \<open>\<^verbatim>\<open>msg_recv\<close> from the block to its return; the argument is the caller's message.\<close>

definition msg_recv_resumed ::
  "pid \<Rightarrow> message \<Rightarrow> 'a kernel_state_scheme \<Rightarrow> (syscall_status \<times> message \<times> 'a kernel_state_scheme) option" where
  "msg_recv_resumed sr mg s = do {
     i \<leftarrow> recv_intr sr s;
     (case i of
        Some f \<Rightarrow> (let (mg, s) = f mg in Some (SYSCALL_SUCCESS, mg, s))
      | None \<Rightarrow> do {
          (sender, s) \<leftarrow> recv_take sr s;
          let (mg, s) = recv_copy sender s;
          s \<leftarrow> inform_received (tpid (tasks s sender)) s;
          Some (SYSCALL_SUCCESS, mg, s) }) }"

subsection \<open>The scheduler's test\<close>

definition task_ipc_check :: "pid \<Rightarrow> 'a kernel_state_scheme \<Rightarrow> (bool \<times> 'a kernel_state_scheme) option" where
  "task_ipc_check pid s = do {
     task \<leftarrow> pid_to_task pid s;
     if atomic_read (recv_flag task) = 1 then do {
       (any, s) \<leftarrow> received_any_message (tpid task) s;
       if \<not> any then Some (False, s)
       else do {
         i \<leftarrow> received_from_intr (tpid task) s;
         if recv_from task = RECV_FROM_INT \<and> i = 0 then Some (False, s)
         else do {
           (fr, s) \<leftarrow> (if recv_from task \<ge> MIN_PID \<and> recv_from task \<le> MAX_PID
             then received_from (tpid task) (recv_from task) s else Some (True, s));
           if \<not> fr then Some (False, s)
           else Some (True, upd_task pid (\<lambda>t. t\<lparr>recv_flag := snd (atomic_set (recv_flag t) 0)\<rparr>) s) } } }
     else Some (\<not> (0 <s atomic_read (send_flag task)), s) }"

end
