(* ===== verification/IpcSystem.thy ===== *)
theory IpcSystem
  imports Ipc
begin

text \<open>
  Any number of tasks sending and receiving at the same time, on any number of processors. Each task
  has a program counter in \<^verbatim>\<open>msg_send\<close> or \<^verbatim>\<open>msg_recv\<close>; a step of the relation runs the next part of
  one task's call (an operation of theory \<^verbatim>\<open>Ipc\<close>), wakes a blocked task after \<^verbatim>\<open>task_ipc_check\<close>, or
  delivers an interrupt. Two logs record the messages sent and received. Tasks neither start nor exit
  here: an exit in the middle of a rendezvous is a known gap of the code (a \<^verbatim>\<open>TODO\<close> in \<^verbatim>\<open>task_exit\<close>).
\<close>

subsection \<open>The system\<close>

datatype ipc_pc =
    Running
  | Prepared pid message
  | Enqueued pid message
  | SendBlocked pid message
  | RecvBlocked pid
  | Woken pid
  | Taking pid
  | Copying pid
  | Informing pid
  | Lowering pid

record ipc_sys =
  kern :: kernel_state
  pc :: "pid \<Rightarrow> ipc_pc"
  sent :: "(pid \<times> pid \<times> message) list"
  received :: "(pid \<times> pid \<times> message) list"

text \<open>The kernel as task \<open>p\<close> runs on it.\<close>

definition as_task :: "pid \<Rightarrow> ipc_sys \<Rightarrow> kernel_state" where
  "as_task p s = (kern s)\<lparr>running_pid := p\<rparr>"

definition goto :: "pid \<Rightarrow> ipc_pc \<Rightarrow> kernel_state \<Rightarrow> ipc_sys \<Rightarrow> ipc_sys" where
  "goto p q k s = s\<lparr>kern := k, pc := (pc s)(p := q)\<rparr>"

inductive ipc_step :: "ipc_sys \<Rightarrow> ipc_sys \<Rightarrow> bool" where
  send_call: "\<lbrakk>pc s p = Running; task_exist p (kern s); send_prepare dst mg (as_task p s) = Inr k\<rbrakk> \<Longrightarrow>
    ipc_step s ((goto p (Prepared dst mg) k s)\<lparr>sent := sent s @ [(p, dst, mg\<lparr>src := p\<rparr>)]\<rparr>)"
| send_list: "\<lbrakk>pc s p = Prepared dst mg; send_enqueue (as_task p s) = Some k\<rbrakk> \<Longrightarrow>
    ipc_step s (goto p (Enqueued dst mg) k s)"
| send_flag: "\<lbrakk>pc s p = Enqueued dst mg; k = upd_task p (status_update (\<lambda>_. TASK_SENDING)) (raise_send_flag (as_task p s))\<rbrakk> \<Longrightarrow>
    ipc_step s (goto p (SendBlocked dst mg) k s)"
| send_wake: "\<lbrakk>pc s p = SendBlocked dst mg; task_ipc_check p (kern s) = Some (True, k)\<rbrakk> \<Longrightarrow>
    ipc_step s (goto p Running k s)"
| recv_call: "\<lbrakk>pc s p = Running; task_exist p (kern s); recv_prepare sr (as_task p s) = Inr k\<rbrakk> \<Longrightarrow>
    ipc_step s (goto p (RecvBlocked sr) k s)"
| recv_wake: "\<lbrakk>pc s p = RecvBlocked sr; task_ipc_check p (kern s) = Some (True, k)\<rbrakk> \<Longrightarrow>
    ipc_step s (goto p (Woken sr) k s)"
| recv_int: "\<lbrakk>pc s p = Woken sr; recv_intr sr (as_task p s) = Some (Some f); f mg = (mg', k)\<rbrakk> \<Longrightarrow>
    ipc_step s (goto p Running k s)"
| recv_no_int: "\<lbrakk>pc s p = Woken sr; recv_intr sr (as_task p s) = Some None\<rbrakk> \<Longrightarrow>
    ipc_step s (goto p (Taking sr) (kern s) s)"
| recv_list: "\<lbrakk>pc s p = Taking sr; recv_take sr (as_task p s) = Some (x, k)\<rbrakk> \<Longrightarrow>
    ipc_step s (goto p (Copying x) k s)"
| recv_msg: "\<lbrakk>pc s p = Copying x; recv_copy x (as_task p s) = (mg, k)\<rbrakk> \<Longrightarrow>
    ipc_step s ((goto p (Informing x) k s)\<lparr>received := received s @ [(x, p, mg)]\<rparr>)"
| recv_inform: "\<lbrakk>pc s p = Informing x; clear_send_to x (as_task p s) = Some k\<rbrakk> \<Longrightarrow>
    ipc_step s (goto p (Lowering x) k s)"
| recv_lower: "\<lbrakk>pc s p = Lowering x; k = lower_send_flag x (as_task p s)\<rbrakk> \<Longrightarrow>
    ipc_step s (goto p Running k s)"
| interrupt: "inform_intr dst (kern s) = Some k \<Longrightarrow> ipc_step s (s\<lparr>kern := k\<rparr>)"

inductive_cases ipc_stepE: "ipc_step s s'"

text \<open>At the start no call is under way.\<close>

definition ipc_init :: "ipc_sys \<Rightarrow> bool" where
  "ipc_init s \<longleftrightarrow> pc s = (\<lambda>_. Running) \<and> sent s = [] \<and> received s = [] \<and>
     (\<forall>p. lock_free (SendLock p) (kern s)) \<and>
     (\<forall>p. task_exist p (kern s) \<longrightarrow> tpid (tasks (kern s) p) = p) \<and>
     (\<forall>p. send_flag (tasks (kern s) p) = 0 \<and> recv_flag (tasks (kern s) p) = 0 \<and>
        sender_list (tasks (kern s) p) = [])"

inductive ipc_reachable :: "ipc_sys \<Rightarrow> ipc_sys \<Rightarrow> bool" for s0 where
  ipc_start: "ipc_init s0 \<Longrightarrow> ipc_reachable s0 s0"
| ipc_next: "ipc_reachable s0 s \<Longrightarrow> ipc_step s s' \<Longrightarrow> ipc_reachable s0 s'"

subsection \<open>The invariant\<close>

text \<open>Task \<open>x\<close> has a message on its way: in the receiver's list, or being taken by the receiver.\<close>

definition in_list :: "ipc_sys \<Rightarrow> pid \<Rightarrow> pid \<Rightarrow> bool" where
  "in_list s x y \<longleftrightarrow> x \<in> set (sender_list (tasks (kern s) y))"

definition held_by :: "ipc_sys \<Rightarrow> pid \<Rightarrow> pid \<Rightarrow> bool" where
  "held_by s x y \<longleftrightarrow> pc s y \<in> {Copying x, Informing x, Lowering x}"

definition unfinished :: "ipc_sys \<Rightarrow> pid \<Rightarrow> bool" where
  "unfinished s x \<longleftrightarrow> (\<exists>y. in_list s x y \<or> held_by s x y)"

text \<open>The destination and message of a send under way, from the call and after joining the list.\<close>

fun sending :: "ipc_pc \<Rightarrow> (pid \<times> message) option" where
  "sending (Prepared d mg) = Some (d, mg)"
| "sending (Enqueued d mg) = Some (d, mg)"
| "sending (SendBlocked d mg) = Some (d, mg)"
| "sending _ = None"

fun posted :: "ipc_pc \<Rightarrow> (pid \<times> message) option" where
  "posted (Enqueued d mg) = Some (d, mg)"
| "posted (SendBlocked d mg) = Some (d, mg)"
| "posted _ = None"

fun raised :: "ipc_pc \<Rightarrow> u64" where
  "raised (SendBlocked _ _) = 1"
| "raised _ = 0"

text \<open>What a woken receiver can rely on.\<close>

definition can_take :: "ipc_sys \<Rightarrow> pid \<Rightarrow> pid \<Rightarrow> bool" where
  "can_take s p sr \<longleftrightarrow>
     (if sr = RECV_FROM_ANY then sender_list (tasks (kern s) p) \<noteq> []
      else sr \<noteq> RECV_FROM_INT \<and> task_exist sr (kern s) \<and> in_list s sr p)"

definition can_go :: "ipc_sys \<Rightarrow> pid \<Rightarrow> pid \<Rightarrow> bool" where
  "can_go s p sr \<longleftrightarrow> (sr \<in> {RECV_FROM_ANY, RECV_FROM_INT} \<and> has_intr_msg (tasks (kern s) p) \<noteq> 0) \<or> can_take s p sr"

fun recv_ok :: "ipc_sys \<Rightarrow> pid \<Rightarrow> ipc_pc \<Rightarrow> bool" where
  "recv_ok s p (RecvBlocked sr) \<longleftrightarrow> recv_flag (tasks (kern s) p) = 1 \<and> recv_from (tasks (kern s) p) = sr \<and>
     (sr \<in> {RECV_FROM_ANY, RECV_FROM_INT} \<or> task_exist sr (kern s))"
| "recv_ok s p (Woken sr) \<longleftrightarrow> recv_flag (tasks (kern s) p) = 0 \<and> can_go s p sr"
| "recv_ok s p (Taking sr) \<longleftrightarrow> recv_flag (tasks (kern s) p) = 0 \<and> can_take s p sr"
| "recv_ok s p _ \<longleftrightarrow> recv_flag (tasks (kern s) p) = 0"

text \<open>What holds of the task \<open>x\<close> as a sender.\<close>

definition send_ok :: "ipc_sys \<Rightarrow> pid \<Rightarrow> bool" where
  "send_ok s x \<longleftrightarrow>
     (case sending (pc s x) of
        None \<Rightarrow> True
      | Some (d, mg) \<Rightarrow> task_exist d (kern s) \<and> msg (tasks (kern s) x) = mg\<lparr>src := x\<rparr> \<and>
          (posted (pc s x) = None \<longrightarrow> send_to (tasks (kern s) x) = d)) \<and>
     (\<forall>y. in_list s x y \<or> held_by s x y \<longrightarrow> (\<exists>mg. posted (pc s x) = Some (y, mg))) \<and>
     (\<forall>y. \<not> (in_list s x y \<and> held_by s x y)) \<and>
     send_flag (tasks (kern s) x) = raised (pc s x) -
       (if posted (pc s x) \<noteq> None \<and> \<not> unfinished s x then 1 else 0)"

definition ipc_inv :: "ipc_sys \<Rightarrow> bool" where
  "ipc_inv s \<longleftrightarrow> (\<forall>p. lock_free (SendLock p) (kern s)) \<and>
     (\<forall>p. task_exist p (kern s) \<longrightarrow> tpid (tasks (kern s) p) = p) \<and>
     (\<forall>p. pc s p \<noteq> Running \<longrightarrow> task_exist p (kern s)) \<and>
     (\<forall>p. distinct (sender_list (tasks (kern s) p))) \<and>
     (\<forall>p. recv_ok s p (pc s p)) \<and> (\<forall>x. send_ok s x)"


subsection \<open>The operations when locks are free\<close>

lemma as_task_simps [simp]:
  "tasks (as_task p s) = tasks (kern s)" "running_pid (as_task p s) = p" "cpus (as_task p s) = cpus (kern s)"
  "lock_free l (as_task p s) = lock_free l (kern s)" "task_exist q (as_task p s) = task_exist q (kern s)"
  by (simp_all add: as_task_def lock_free_def task_exist_def)

lemma goto_simps [simp]:
  "kern (goto p q k s) = k" "pc (goto p q k s) = (pc s)(p := q)" "sent (goto p q k s) = sent s"
  "received (goto p q k s) = received s"
  by (simp_all add: goto_def)

lemma task_exist_upd_task:
  "(\<And>t. tpid (f t) = tpid t) \<Longrightarrow> task_exist q (upd_task p f s) = task_exist q s"
  by (simp add: task_exist_def)

lemma task_exist_locked [simp]: "task_exist p (locked l s) = task_exist p s"
  by (simp add: task_exist_def)

lemma send_enqueue_eq:
  assumes "lock_free (SendLock (send_to (running_task s))) s" and "task_exist (send_to (running_task s)) s"
  shows "send_enqueue s =
    Some (upd_task (send_to (running_task s)) (sender_list_update (\<lambda>l. l @ [running_pid s])) s)"
  using assms by (simp add: send_enqueue_def pid_to_task_exist spinlock_lock_free Let_def)

lemma recv_take_any:
  assumes "lock_free (SendLock (running_pid s)) s" and "sr = RECV_FROM_ANY \<or> sr = RECV_FROM_INT"
    and "sender_list (running_task s) = x # xs"
  shows "recv_take sr s = Some (x, upd_task (running_pid s) (sender_list_update (\<lambda>_. xs)) s)"
  using assms by (simp add: recv_take_def spinlock_lock_free Let_def running_task_def)

lemma recv_take_from:
  assumes "lock_free (SendLock (running_pid s)) s" and "sr \<noteq> RECV_FROM_ANY" "sr \<noteq> RECV_FROM_INT"
    and "task_exist sr s" and "sr \<in> set (sender_list (running_task s))"
  shows "recv_take sr s = Some (sr, upd_task (running_pid s) (sender_list_update (remove1 sr)) s)"
  using assms by (simp add: recv_take_def pid_to_task_exist spinlock_lock_free Let_def running_task_def)

definition ipc_ready :: "pid \<Rightarrow> 'a kernel_state_scheme \<Rightarrow> bool" where
  "ipc_ready p s \<longleftrightarrow>
     (let t = tasks s p in
      if recv_flag t = 1 then
        (has_intr_msg t \<noteq> 0 \<or> sender_list t \<noteq> []) \<and> (recv_from t = RECV_FROM_INT \<longrightarrow> has_intr_msg t \<noteq> 0) \<and>
        (MIN_PID \<le> recv_from t \<and> recv_from t \<le> MAX_PID \<longrightarrow>
           task_exist (recv_from t) s \<and> recv_from t \<in> set (sender_list t))
      else \<not> (0 <s send_flag t))"

lemma task_ipc_check_eq:
  assumes "task_exist p s" and "tpid (tasks s p) = p" and "lock_free (SendLock p) s"
  shows "task_ipc_check p s = Some (ipc_ready p s,
    if recv_flag (tasks s p) = 1 \<and> ipc_ready p s then upd_task p (recv_flag_update (\<lambda>_. 0)) s else s)"
  using assms
  by (simp add: task_ipc_check_def ipc_ready_def Let_def pid_to_task_exist atomic_read_def atomic_set_def
      asm_atomic_xchg_def received_any_message_def received_from_intr_def received_from_any_task_def
      received_from_def spinlock_lock_free)

subsection \<open>The invariant is kept\<close>

lemma ipc_invD:
  assumes "ipc_inv s"
  shows "lock_free (SendLock p) (kern s)" "task_exist p (kern s) \<Longrightarrow> tpid (tasks (kern s) p) = p"
    "pc s p \<noteq> Running \<Longrightarrow> task_exist p (kern s)" "distinct (sender_list (tasks (kern s) p))"
    "recv_ok s p (pc s p)" "send_ok s x"
  using assms by (auto simp: ipc_inv_def)

lemma RECV_codes: "RECV_FROM_ANY \<noteq> RECV_FROM_INT" "\<not> task_exist RECV_FROM_ANY k" "\<not> task_exist RECV_FROM_INT k"
  by (simp_all add: RECV_FROM_ANY_def RECV_FROM_INT_def task_exist_def)

text \<open>A receiver's part of the invariant survives when its own fields stay and senders only join.\<close>

lemma recv_ok_mono:
  assumes "recv_ok s p q" and "recv_flag (tasks (kern s') p) = recv_flag (tasks (kern s) p)"
    and "recv_from (tasks (kern s') p) = recv_from (tasks (kern s) p)"
    and "has_intr_msg (tasks (kern s) p) \<noteq> 0 \<longrightarrow> has_intr_msg (tasks (kern s') p) \<noteq> 0"
    and "set (sender_list (tasks (kern s) p)) \<subseteq> set (sender_list (tasks (kern s') p))"
    and "\<And>x. task_exist x (kern s') = task_exist x (kern s)"
  shows "recv_ok s' p q"
  using assms by (cases q) (auto simp: can_go_def can_take_def in_list_def split: if_splits)

text \<open>A sender's part, when nothing it looks at changes.\<close>

lemma send_ok_cong:
  assumes "send_ok s x" and "sending (pc s' x) = sending (pc s x)" "posted (pc s' x) = posted (pc s x)"
    "raised (pc s' x) = raised (pc s x)" and "msg (tasks (kern s') x) = msg (tasks (kern s) x)"
    and "posted (pc s x) = None \<longrightarrow> send_to (tasks (kern s') x) = send_to (tasks (kern s) x)"
    and "send_flag (tasks (kern s') x) = send_flag (tasks (kern s) x)"
    and "\<And>y. in_list s' x y = in_list s x y" and "\<And>y. held_by s' x y = held_by s x y"
    and "\<And>x. task_exist x (kern s') = task_exist x (kern s)"
  shows "send_ok s' x"
proof -
  have u: "unfinished s' x = unfinished s x" using assms(8,9) by (simp add: unfinished_def)
  show ?thesis
    using assms(1,6) unfolding send_ok_def u assms(2-5,7-10) by (auto split: option.splits)
qed

lemma ipc_invI:
  assumes "ipc_inv s"
    and "\<And>p. lock_free (SendLock p) (kern s') = lock_free (SendLock p) (kern s)"
    and "\<And>p. tpid (tasks (kern s') p) = tpid (tasks (kern s) p)"
    and "\<And>p. pc s' p \<noteq> Running \<Longrightarrow> task_exist p (kern s)"
    and "\<And>p. distinct (sender_list (tasks (kern s') p))"
    and "\<And>p. recv_ok s' p (pc s' p)" and "\<And>x. send_ok s' x"
  shows "ipc_inv s'"
proof -
  have "task_exist p (kern s') = task_exist p (kern s)" for p using assms(3) by (simp add: task_exist_def)
  then show ?thesis using assms by (simp add: ipc_inv_def)
qed

text \<open>Nobody holds or lists a task that has posted nothing.\<close>

lemma unposted:
  assumes "send_ok s x" and "posted (pc s x) = None"
  shows "\<not> in_list s x y" "\<not> held_by s x y" "\<not> unfinished s x" "send_flag (tasks (kern s) x) = raised (pc s x)"
  using assms by (auto simp: send_ok_def unfinished_def)

lemma raised_unposted: "posted q = None \<Longrightarrow> raised q = 0"
  by (cases q) auto

lemma inv_send_call:
  assumes inv: "ipc_inv s" and pc: "pc s p = Running" and ex: "task_exist p (kern s)"
    and pr: "send_prepare dst mg (as_task p s) = Inr k"
  shows "ipc_inv ((goto p (Prepared dst mg) k s)\<lparr>sent := l\<rparr>)" (is "ipc_inv ?s'")
proof -
  note I = ipc_invD [OF inv]
  define s' where "s' = ?s'"
  have k: "task_exist dst (kern s)" "k = upd_task p (\<lambda>t. t\<lparr>msg := mg\<lparr>src := tpid t\<rparr>, send_to := dst\<rparr>)
      (upd_task p (send_to_update (\<lambda>_. PID_NO_TASK)) (as_task p s))"
    using pr by (auto simp: send_prepare_def Let_def task_exist_upd_task split: if_splits)
  have t: "tasks (kern s') = (tasks (kern s))(p := (tasks (kern s) p)\<lparr>msg := mg\<lparr>src := p\<rparr>, send_to := dst\<rparr>)"
    "lock_free l (kern s') = lock_free l (kern s)" "pc s' = (pc s)(p := Prepared dst mg)" for l
    using I(2) [OF ex] by (simp_all add: s'_def k(2))
  have e: "task_exist x (kern s') = task_exist x (kern s)" for x by (simp add: task_exist_def t)
  have il: "in_list s' x y = in_list s x y" for x y by (simp add: in_list_def t)
  have hb: "held_by s' x y = held_by s x y" for x y using pc by (simp add: held_by_def t)
  show ?thesis unfolding s'_def [symmetric]
  proof (rule ipc_invI [OF inv])
    show "recv_ok s' q (pc s' q)" for q
    proof (cases "q = p")
      case True
      then show ?thesis using I(5) [of p] pc by (simp add: t)
    next
      case False
      then show ?thesis using e by (simp add: t(3)) (rule recv_ok_mono [OF I(5)], simp_all add: t)
    qed
    show "send_ok s' x" for x
    proof (cases "x = p")
      case True
      have "\<not> in_list s p y" "\<not> held_by s p y" for y using unposted(1,2) [OF I(6)] pc by simp_all
      then show ?thesis
        using True k(1) I(6) [of p] pc e
        by (simp add: send_ok_def il hb unfinished_def) (simp add: t)
    next
      case False
      then show ?thesis by (intro send_ok_cong [OF I(6) [of x]]) (simp_all add: t il hb e)
    qed
    show "task_exist q (kern s)" if "pc s' q \<noteq> Running" for q
      using that ex I(3) [of q] by (cases "q = p") (simp_all add: t)
  qed (use I(1,4) in \<open>simp_all add: t\<close>)
qed

lemma inv_send_list:
  assumes inv: "ipc_inv s" and pc: "pc s p = Prepared dst mg" and en: "send_enqueue (as_task p s) = Some k"
  shows "ipc_inv (goto p (Enqueued dst mg) k s)" (is "ipc_inv ?s'")
proof -
  note I = ipc_invD [OF inv]
  define s' where "s' = ?s'"
  have ok: "task_exist dst (kern s)" "msg (tasks (kern s) p) = mg\<lparr>src := p\<rparr>" "send_to (tasks (kern s) p) = dst"
    using I(6) [of p] pc by (simp_all add: send_ok_def)
  have ex: "task_exist p (kern s)" using I(3) [of p] pc by simp
  have k: "k = upd_task dst (sender_list_update (\<lambda>l. l @ [p])) (as_task p s)"
    using send_enqueue_eq [of "as_task p s"] en ok I(1) by (simp add: running_task_def)
  have t: "tasks (kern s') = (tasks (kern s))(dst := sender_list_update (\<lambda>l. l @ [p]) (tasks (kern s) dst))"
    "lock_free l (kern s') = lock_free l (kern s)" "pc s' = (pc s)(p := Enqueued dst mg)" for l
    by (simp_all add: s'_def k)
  have e: "task_exist x (kern s') = task_exist x (kern s)" for x by (simp add: task_exist_def t)
  have il: "in_list s' x y = (in_list s x y \<or> (x = p \<and> y = dst))" for x y by (auto simp: in_list_def t)
  have hb: "held_by s' x y = held_by s x y" for x y using pc by (simp add: held_by_def t)
  have none: "\<not> in_list s p y" "\<not> held_by s p y" for y using unposted(1,2) [OF I(6)] pc by simp_all
  show ?thesis unfolding s'_def [symmetric]
  proof (rule ipc_invI [OF inv])
    show "recv_ok s' q (pc s' q)" for q
    proof (cases "q = p")
      case True
      then show ?thesis using I(5) [of p] pc by (auto simp: t)
    next
      case False
      then show ?thesis using e by (simp add: t(3)) (rule recv_ok_mono [OF I(5)], auto simp: t)
    qed
    show "send_ok s' x" for x
    proof (cases "x = p")
      case True
      have "unfinished s' p" using il by (auto simp: unfinished_def)
      then show ?thesis
        using True ok I(6) [of p] pc none e
        by (auto simp: send_ok_def il hb) (simp_all add: t)
    next
      case False
      then show ?thesis by (intro send_ok_cong [OF I(6) [of x]]) (simp_all add: t il hb e)
    qed
    show "task_exist q (kern s)" if "pc s' q \<noteq> Running" for q
      using that ex I(3) [of q] by (cases "q = p") (simp_all add: t)
    show "distinct (sender_list (tasks (kern s') q))" for q
      using I(4) [of q] I(4) [of dst] none(1) [of dst] by (simp add: t in_list_def)
  qed (simp_all add: t)
qed


lemma inv_send_flag:
  assumes inv: "ipc_inv s" and pc: "pc s p = Enqueued dst mg"
    and k: "k = upd_task p (status_update (\<lambda>_. TASK_SENDING)) (raise_send_flag (as_task p s))"
  shows "ipc_inv (goto p (SendBlocked dst mg) k s)" (is "ipc_inv ?s'")
proof -
  note I = ipc_invD [OF inv]
  define s' where "s' = ?s'"
  have ex: "task_exist p (kern s)" using I(3) [of p] pc by simp
  have t: "tasks (kern s') = (tasks (kern s))(p := (send_flag_update atomic_inc (tasks (kern s) p))\<lparr>status := TASK_SENDING\<rparr>)"
    "lock_free l (kern s') = lock_free l (kern s)" "pc s' = (pc s)(p := SendBlocked dst mg)" for l
    by (simp_all add: s'_def k raise_send_flag_def)
  have e: "task_exist x (kern s') = task_exist x (kern s)" for x by (simp add: task_exist_def t)
  have il: "in_list s' x y = in_list s x y" for x y by (simp add: in_list_def t)
  have hb: "held_by s' x y = held_by s x y" for x y using pc by (simp add: held_by_def t)
  have u: "unfinished s' x = unfinished s x" for x by (simp add: unfinished_def il hb)
  show ?thesis unfolding s'_def [symmetric]
  proof (rule ipc_invI [OF inv])
    show "recv_ok s' q (pc s' q)" for q
    proof (cases "q = p")
      case True
      then show ?thesis using I(5) [of p] pc by (simp add: t)
    next
      case False
      then show ?thesis using e by (simp add: t(3)) (rule recv_ok_mono [OF I(5)], simp_all add: t)
    qed
    show "send_ok s' x" for x
    proof (cases "x = p")
      case True
      then show ?thesis using I(6) [of p] pc e u by (simp add: send_ok_def il hb) (simp add: t atomic_inc_def)
    next
      case False
      then show ?thesis by (intro send_ok_cong [OF I(6) [of x]]) (simp_all add: t il hb e)
    qed
    show "task_exist q (kern s)" if "pc s' q \<noteq> Running" for q
      using that ex I(3) [of q] by (cases "q = p") (simp_all add: t)
  qed (use I(1,4) in \<open>simp_all add: t\<close>)
qed

lemma one_sless: "0 <s (1 :: u64)"
  by (simp add: word_sless_alt)

text \<open>A sender that is woken has been served.\<close>

lemma send_wake_served:
  assumes inv: "ipc_inv s" and pc: "pc s p = SendBlocked dst mg" and ck: "task_ipc_check p (kern s) = Some (True, k)"
  shows "k = kern s" "\<not> unfinished s p" "send_flag (tasks (kern s) p) = 0"
proof -
  note I = ipc_invD [OF inv]
  have ex: "task_exist p (kern s)" using I(3) [of p] pc by simp
  have rf: "recv_flag (tasks (kern s) p) = 0" using I(5) [of p] pc by simp
  have r: "ipc_ready p (kern s)" "k = kern s"
    using task_ipc_check_eq [OF ex I(2) [OF ex] I(1)] ck rf by auto
  have fl: "send_flag (tasks (kern s) p) = 1 - (if unfinished s p then 0 else 1)"
    using I(6) [of p] pc by (simp add: send_ok_def)
  have "\<not> 0 <s send_flag (tasks (kern s) p)" using r(1) rf by (simp add: ipc_ready_def Let_def)
  then show "k = kern s" "\<not> unfinished s p" "send_flag (tasks (kern s) p) = 0"
    using fl r(2) one_sless by (auto split: if_splits)
qed

lemma inv_send_wake:
  assumes inv: "ipc_inv s" and pc: "pc s p = SendBlocked dst mg" and ck: "task_ipc_check p (kern s) = Some (True, k)"
  shows "ipc_inv (goto p Running k s)" (is "ipc_inv ?s'")
proof -
  note I = ipc_invD [OF inv] and W = send_wake_served [OF inv pc ck]
  define s' where "s' = ?s'"
  have t: "kern s' = kern s" "pc s' = (pc s)(p := Running)" by (simp_all add: s'_def W(1))
  have il: "in_list s' x y = in_list s x y" for x y by (simp add: in_list_def t)
  have hb: "held_by s' x y = held_by s x y" for x y using pc by (simp add: held_by_def t)
  show ?thesis unfolding s'_def [symmetric]
  proof (rule ipc_invI [OF inv])
    show "recv_ok s' q (pc s' q)" for q
    proof (cases "q = p")
      case True
      then show ?thesis using I(5) [of p] pc by (simp add: t)
    next
      case False
      then show ?thesis by (simp add: t(2)) (rule recv_ok_mono [OF I(5)], simp_all add: t)
    qed
    show "send_ok s' x" for x
    proof (cases "x = p")
      case True
      have "\<not> in_list s p y" "\<not> held_by s p y" for y using W(2) by (auto simp: unfinished_def)
      then show ?thesis using True W(3) by (simp add: send_ok_def il hb t)
    next
      case False
      then show ?thesis by (intro send_ok_cong [OF I(6) [of x]]) (simp_all add: t il hb)
    qed
    show "task_exist q (kern s)" if "pc s' q \<noteq> Running" for q
      using that I(3) [of q] by (cases "q = p") (simp_all add: t)
  qed (use I(1,4) in \<open>simp_all add: t\<close>)
qed

lemma inv_recv_call:
  assumes inv: "ipc_inv s" and pc: "pc s p = Running" and ex: "task_exist p (kern s)"
    and pr: "recv_prepare sr (as_task p s) = Inr k"
  shows "ipc_inv (goto p (RecvBlocked sr) k s)" (is "ipc_inv ?s'")
proof -
  note I = ipc_invD [OF inv]
  define s' where "s' = ?s'"
  have k: "sr \<in> {RECV_FROM_ANY, RECV_FROM_INT} \<or> task_exist sr (kern s)"
      "k = upd_task p (\<lambda>t. t\<lparr>recv_from := sr, recv_flag := 1, status := TASK_RECEIVING\<rparr>)
        (upd_task p (recv_from_update (\<lambda>_. PID_NO_TASK)) (as_task p s))"
    using pr by (auto simp: recv_prepare_def Let_def task_exist_upd_task atomic_set_def asm_atomic_xchg_def
        split: if_splits)
  have t: "tasks (kern s') = (tasks (kern s))(p := (tasks (kern s) p)\<lparr>recv_from := sr, recv_flag := 1,
      status := TASK_RECEIVING\<rparr>)"
    "lock_free l (kern s') = lock_free l (kern s)" "pc s' = (pc s)(p := RecvBlocked sr)" for l
    by (simp_all add: s'_def k(2))
  have e: "task_exist x (kern s') = task_exist x (kern s)" for x by (simp add: task_exist_def t)
  have il: "in_list s' x y = in_list s x y" for x y by (simp add: in_list_def t)
  have hb: "held_by s' x y = held_by s x y" for x y using pc by (simp add: held_by_def t)
  show ?thesis unfolding s'_def [symmetric]
  proof (rule ipc_invI [OF inv])
    show "recv_ok s' q (pc s' q)" for q
    proof (cases "q = p")
      case True
      then show ?thesis using k(1) e by (simp add: t(3)) (simp add: t)
    next
      case False
      then show ?thesis using e by (simp add: t(3)) (rule recv_ok_mono [OF I(5)], simp_all add: t)
    qed
    show "send_ok s' x" for x
      using pc by (intro send_ok_cong [OF I(6) [of x]]) (simp_all add: t il hb e)
    show "task_exist q (kern s)" if "pc s' q \<noteq> Running" for q
      using that ex I(3) [of q] by (cases "q = p") (simp_all add: t)
  qed (use I(1,4) in \<open>simp_all add: t\<close>)
qed

lemma inv_recv_wake:
  assumes inv: "ipc_inv s" and pc: "pc s p = RecvBlocked sr" and ck: "task_ipc_check p (kern s) = Some (True, k)"
  shows "ipc_inv (goto p (Woken sr) k s)" (is "ipc_inv ?s'")
proof -
  note I = ipc_invD [OF inv]
  define s' where "s' = ?s'"
  have ex: "task_exist p (kern s)" using I(3) [of p] pc by simp
  have rf: "recv_flag (tasks (kern s) p) = 1" "recv_from (tasks (kern s) p) = sr"
      "sr \<in> {RECV_FROM_ANY, RECV_FROM_INT} \<or> task_exist sr (kern s)" using I(5) [of p] pc by simp_all
  have r: "ipc_ready p (kern s)" "k = upd_task p (recv_flag_update (\<lambda>_. 0)) (kern s)"
    using task_ipc_check_eq [OF ex I(2) [OF ex] I(1)] ck rf by auto
  have t: "tasks (kern s') = (tasks (kern s))(p := (tasks (kern s) p)\<lparr>recv_flag := 0\<rparr>)"
    "lock_free l (kern s') = lock_free l (kern s)" "pc s' = (pc s)(p := Woken sr)" for l
    by (simp_all add: s'_def r(2))
  have e: "task_exist x (kern s') = task_exist x (kern s)" for x by (simp add: task_exist_def t)
  have il: "in_list s' x y = in_list s x y" for x y by (simp add: in_list_def t)
  have hb: "held_by s' x y = held_by s x y" for x y using pc by (simp add: held_by_def t)
  have go: "can_go s p sr"
  proof -
    have rd: "has_intr_msg (tasks (kern s) p) \<noteq> 0 \<or> sender_list (tasks (kern s) p) \<noteq> []"
      "sr = RECV_FROM_INT \<longrightarrow> has_intr_msg (tasks (kern s) p) \<noteq> 0"
      "MIN_PID \<le> sr \<and> sr \<le> MAX_PID \<longrightarrow> task_exist sr (kern s) \<and> sr \<in> set (sender_list (tasks (kern s) p))"
      using r(1) rf by (simp_all add: ipc_ready_def Let_def)
    show ?thesis
    proof (cases "task_exist sr (kern s)")
      case True
      then have "MIN_PID \<le> sr \<and> sr \<le> MAX_PID" using task_exist_range by (simp add: MIN_PID_def)
      then show ?thesis using rd(3) True RECV_codes(1) RECV_codes(2,3) [of "kern s"]
        by (auto simp: can_go_def can_take_def in_list_def)
    next
      case False
      then show ?thesis using rf(3) rd RECV_codes(1) by (auto simp: can_go_def can_take_def)
    qed
  qed
  then have go': "can_go s' p sr" using e by (auto simp: can_go_def can_take_def il t split: if_splits)
  show ?thesis unfolding s'_def [symmetric]
  proof (rule ipc_invI [OF inv])
    show "recv_ok s' q (pc s' q)" for q
    proof (cases "q = p")
      case True
      then show ?thesis using go' by (simp add: t(3)) (simp add: t)
    next
      case False
      then show ?thesis using e by (simp add: t(3)) (rule recv_ok_mono [OF I(5)], simp_all add: t)
    qed
    show "send_ok s' x" for x
      using pc by (intro send_ok_cong [OF I(6) [of x]]) (simp_all add: t il hb e)
    show "task_exist q (kern s)" if "pc s' q \<noteq> Running" for q
      using that ex I(3) [of q] by (cases "q = p") (simp_all add: t)
  qed (use I(1,4) in \<open>simp_all add: t\<close>)
qed


lemma inv_recv_int:
  assumes inv: "ipc_inv s" and pc: "pc s p = Woken sr" and ri: "recv_intr sr (as_task p s) = Some (Some f)"
    and f: "f mg = (mg', k)"
  shows "ipc_inv (goto p Running k s)" (is "ipc_inv ?s'")
proof -
  note I = ipc_invD [OF inv]
  define s' where "s' = ?s'"
  have ex: "task_exist p (kern s)" using I(3) [of p] pc by simp
  have k: "k = upd_task p (\<lambda>t. t\<lparr>recv_from := PID_NO_TASK, has_intr_msg := 0\<rparr>) (as_task p s)"
    using ri f by (auto simp: recv_intr_def elim!: bind_eq_SomeE split: if_splits)
  have t: "tasks (kern s') = (tasks (kern s))(p := (tasks (kern s) p)\<lparr>recv_from := PID_NO_TASK, has_intr_msg := 0\<rparr>)"
    "lock_free l (kern s') = lock_free l (kern s)" "pc s' = (pc s)(p := Running)" for l
    by (simp_all add: s'_def k)
  have e: "task_exist x (kern s') = task_exist x (kern s)" for x by (simp add: task_exist_def t)
  have il: "in_list s' x y = in_list s x y" for x y by (simp add: in_list_def t)
  have hb: "held_by s' x y = held_by s x y" for x y using pc by (simp add: held_by_def t)
  show ?thesis unfolding s'_def [symmetric]
  proof (rule ipc_invI [OF inv])
    show "recv_ok s' q (pc s' q)" for q
    proof (cases "q = p")
      case True
      then show ?thesis using I(5) [of p] pc by (simp add: t)
    next
      case False
      then show ?thesis using e by (simp add: t(3)) (rule recv_ok_mono [OF I(5)], simp_all add: t)
    qed
    show "send_ok s' x" for x
      using pc by (intro send_ok_cong [OF I(6) [of x]]) (simp_all add: t il hb e)
    show "task_exist q (kern s)" if "pc s' q \<noteq> Running" for q
      using that I(3) [of q] by (cases "q = p") (simp_all add: t)
  qed (use I(1,4) in \<open>simp_all add: t\<close>)
qed

lemma inv_recv_no_int:
  assumes inv: "ipc_inv s" and pc: "pc s p = Woken sr" and ri: "recv_intr sr (as_task p s) = Some None"
  shows "ipc_inv (goto p (Taking sr) (kern s) s)" (is "ipc_inv ?s'")
proof -
  note I = ipc_invD [OF inv]
  define s' where "s' = ?s'"
  have ex: "task_exist p (kern s)" using I(3) [of p] pc by simp
  have t: "kern s' = kern s" "pc s' = (pc s)(p := Taking sr)" by (simp_all add: s'_def)
  have il: "in_list s' x y = in_list s x y" for x y by (simp add: in_list_def t)
  have hb: "held_by s' x y = held_by s x y" for x y using pc by (simp add: held_by_def t)
  have "can_go s p sr" using I(5) [of p] pc by simp
  moreover have "\<not> (sr \<in> {RECV_FROM_ANY, RECV_FROM_INT} \<and> has_intr_msg (tasks (kern s) p) \<noteq> 0)"
    using ri I(2) [OF ex] ex
    by (auto simp: recv_intr_def received_from_intr_def running_task_def pid_to_task_exist split: if_splits)
  ultimately have "can_take s p sr" by (auto simp: can_go_def)
  then have ct: "can_take s' p sr" by (simp add: can_take_def il t)
  show ?thesis unfolding s'_def [symmetric]
  proof (rule ipc_invI [OF inv])
    show "recv_ok s' q (pc s' q)" for q
    proof (cases "q = p")
      case True
      then show ?thesis using I(5) [of p] pc ct by (simp add: t)
    next
      case False
      then show ?thesis by (simp add: t(2)) (rule recv_ok_mono [OF I(5)], simp_all add: t)
    qed
    show "send_ok s' x" for x
      using pc by (intro send_ok_cong [OF I(6) [of x]]) (simp_all add: t il hb)
    show "task_exist q (kern s)" if "pc s' q \<noteq> Running" for q
      using that ex I(3) [of q] by (cases "q = p") (simp_all add: t)
  qed (use I(1,4) in \<open>simp_all add: t\<close>)
qed

text \<open>A receiver that takes finds the sender it looks for.\<close>

lemma recv_take_works:
  assumes inv: "ipc_inv s" and pc: "pc s p = Taking sr"
  obtains x where "recv_take sr (as_task p s) =
      Some (x, upd_task p (sender_list_update (remove1 x)) (as_task p s))" and "in_list s x p"
proof -
  note I = ipc_invD [OF inv]
  have ct: "can_take s p sr" using I(5) [of p] pc by simp
  show thesis
  proof (cases "sr = RECV_FROM_ANY")
    case True
    then obtain x xs where l: "sender_list (tasks (kern s) p) = x # xs"
      using ct by (auto simp: can_take_def neq_Nil_conv)
    have "upd_task p (sender_list_update (\<lambda>_. xs)) (as_task p s) = upd_task p (sender_list_update (remove1 x)) (as_task p s)"
      using l by (cases "tasks (kern s) p") (simp add: upd_task_def)
    then show thesis
      using that [of x] recv_take_any [of "as_task p s" sr x xs] True I(1) l
      by (simp add: running_task_def in_list_def)
  next
    case False
    then have "sr \<noteq> RECV_FROM_INT" "task_exist sr (kern s)" "in_list s sr p"
      using ct by (simp_all add: can_take_def)
    then show thesis
      using that [of sr] recv_take_from [of "as_task p s" sr] False I(1)
      by (simp add: running_task_def in_list_def)
  qed
qed

lemma inv_recv_list:
  assumes inv: "ipc_inv s" and pc: "pc s p = Taking sr" and tk: "recv_take sr (as_task p s) = Some (x, k)"
  shows "ipc_inv (goto p (Copying x) k s)" (is "ipc_inv ?s'")
proof -
  note I = ipc_invD [OF inv]
  define s' where "s' = ?s'"
  have ex: "task_exist p (kern s)" using I(3) [of p] pc by simp
  have x: "in_list s x p" "k = upd_task p (sender_list_update (remove1 x)) (as_task p s)"
    by (rule recv_take_works [OF inv pc]; use tk in auto)+
  have t: "tasks (kern s') = (tasks (kern s))(p := sender_list_update (remove1 x) (tasks (kern s) p))"
    "lock_free l (kern s') = lock_free l (kern s)" "pc s' = (pc s)(p := Copying x)" for l
    by (simp_all add: s'_def x(2))
  have e: "task_exist y (kern s') = task_exist y (kern s)" for y by (simp add: task_exist_def t)
  have il: "in_list s' y q = (in_list s y q \<and> \<not> (y = x \<and> q = p))" for y q
    using I(4) [of p] by (auto simp: in_list_def t)
  have hb: "held_by s' y q = (held_by s y q \<or> (y = x \<and> q = p))" for y q using pc by (auto simp: held_by_def t)
  have nh: "\<not> held_by s y p" for y using pc by (simp add: held_by_def)
  have u: "unfinished s' y = unfinished s y" for y
    using il hb x(1) by (auto simp: unfinished_def)
  have xp: "x \<noteq> p"
    using I(6) [of x] x(1) pc by (auto simp: send_ok_def)
  show ?thesis unfolding s'_def [symmetric]
  proof (rule ipc_invI [OF inv])
    show "recv_ok s' q (pc s' q)" for q
    proof (cases "q = p")
      case True
      then show ?thesis using I(5) [of p] pc by (simp add: t)
    next
      case False
      then show ?thesis using e by (simp add: t(3)) (rule recv_ok_mono [OF I(5)], simp_all add: t)
    qed
    show "send_ok s' y" for y
    proof (cases "y = x")
      case True
      have "posted (pc s x) = posted (pc s' x)" "sending (pc s x) = sending (pc s' x)" "raised (pc s x) = raised (pc s' x)"
        using xp by (simp_all add: t)
      then show ?thesis
        using I(6) [of x] x(1) nh xp u e unfolding True send_ok_def il hb
        by (auto simp: t split: option.splits)
    next
      case False
      then show ?thesis
        using pc by (intro send_ok_cong [OF I(6) [of y]]) (simp_all add: t il hb e)
    qed
    show "task_exist q (kern s)" if "pc s' q \<noteq> Running" for q
      using that ex I(3) [of q] by (cases "q = p") (simp_all add: t)
    show "distinct (sender_list (tasks (kern s') q))" for q
      using I(4) [of q] I(4) [of p] by (simp add: t distinct_remove1)
  qed (simp_all add: t)
qed


lemma inv_recv_msg:
  assumes inv: "ipc_inv s" and pc: "pc s p = Copying x" and cp: "recv_copy x (as_task p s) = (mg, k)"
  shows "ipc_inv ((goto p (Informing x) k s)\<lparr>received := l\<rparr>)" (is "ipc_inv ?s'")
proof -
  note I = ipc_invD [OF inv]
  define s' where "s' = ?s'"
  have ex: "task_exist p (kern s)" using I(3) [of p] pc by simp
  have t: "tasks (kern s') = (tasks (kern s))(p := (tasks (kern s) p)\<lparr>recv_from := PID_NO_TASK\<rparr>)"
    "lock_free l (kern s') = lock_free l (kern s)" "pc s' = (pc s)(p := Informing x)" for l
    using cp by (auto simp: s'_def recv_copy_def)
  have e: "task_exist y (kern s') = task_exist y (kern s)" for y by (simp add: task_exist_def t)
  have il: "in_list s' y q = in_list s y q" for y q by (simp add: in_list_def t)
  have hb: "held_by s' y q = held_by s y q" for y q using pc by (auto simp: held_by_def t)
  show ?thesis unfolding s'_def [symmetric]
  proof (rule ipc_invI [OF inv])
    show "recv_ok s' q (pc s' q)" for q
    proof (cases "q = p")
      case True
      then show ?thesis using I(5) [of p] pc by (simp add: t)
    next
      case False
      then show ?thesis using e by (simp add: t(3)) (rule recv_ok_mono [OF I(5)], simp_all add: t)
    qed
    show "send_ok s' y" for y
      using pc by (intro send_ok_cong [OF I(6) [of y]]) (simp_all add: t il hb e)
    show "task_exist q (kern s)" if "pc s' q \<noteq> Running" for q
      using that ex I(3) [of q] by (cases "q = p") (simp_all add: t)
  qed (use I(1,4) in \<open>simp_all add: t\<close>)
qed

text \<open>The sender that a receiver has taken is still in its call.\<close>

lemma held_posted:
  assumes "ipc_inv s" and "held_by s x p"
  obtains mg where "posted (pc s x) = Some (p, mg)" and "x \<noteq> p" and "task_exist x (kern s)"
proof -
  note I = ipc_invD [OF assms(1)]
  obtain mg where m: "posted (pc s x) = Some (p, mg)" using I(6) [of x] assms(2) by (auto simp: send_ok_def)
  moreover have "x \<noteq> p" using m assms(2) by (auto simp: held_by_def)
  moreover have "task_exist x (kern s)" using I(3) [of x] m by (cases "pc s x") auto
  ultimately show thesis using that by blast
qed

lemma held_not_listed:
  assumes "ipc_inv s" and "held_by s x p"
  shows "\<not> in_list s x q"
proof
  assume l: "in_list s x q"
  have ok: "\<And>y. in_list s x y \<or> held_by s x y \<Longrightarrow> \<exists>mg. posted (pc s x) = Some (y, mg)"
    "\<not> (in_list s x p \<and> held_by s x p)"
    using ipc_invD(6) [OF assms(1), of x] unfolding send_ok_def by blast+
  obtain m1 m2 where "posted (pc s x) = Some (q, m1)" "posted (pc s x) = Some (p, m2)"
    using ok(1) [of q] ok(1) [of p] l assms(2) by blast
  then show False using ok(2) l assms(2) by simp
qed

lemma inv_recv_inform:
  assumes inv: "ipc_inv s" and pc: "pc s p = Informing x" and cl: "clear_send_to x (as_task p s) = Some k"
  shows "ipc_inv (goto p (Lowering x) k s)" (is "ipc_inv ?s'")
proof -
  note I = ipc_invD [OF inv]
  define s' where "s' = ?s'"
  have ex: "task_exist p (kern s)" using I(3) [of p] pc by simp
  have h: "held_by s x p" using pc by (simp add: held_by_def)
  obtain mg where x: "posted (pc s x) = Some (p, mg)" "x \<noteq> p" "task_exist x (kern s)"
    by (rule held_posted [OF inv h])
  have t: "tasks (kern s') = (tasks (kern s))(x := (tasks (kern s) x)\<lparr>send_to := PID_NO_TASK\<rparr>)"
    "lock_free l (kern s') = lock_free l (kern s)" "pc s' = (pc s)(p := Lowering x)" for l
    using cl x(3) by (auto simp: s'_def clear_send_to_def pid_to_task_exist)
  have e: "task_exist y (kern s') = task_exist y (kern s)" for y by (simp add: task_exist_def t)
  have il: "in_list s' y q = in_list s y q" for y q by (simp add: in_list_def t)
  have hb: "held_by s' y q = held_by s y q" for y q using pc by (auto simp: held_by_def t)
  show ?thesis unfolding s'_def [symmetric]
  proof (rule ipc_invI [OF inv])
    show "recv_ok s' q (pc s' q)" for q
    proof (cases "q = p")
      case True
      then show ?thesis using I(5) [of p] pc x(2) by (simp add: t)
    next
      case False
      then show ?thesis using e by (simp add: t(3)) (rule recv_ok_mono [OF I(5)], simp_all add: t)
    qed
    show "send_ok s' y" for y
      using pc x(1) by (intro send_ok_cong [OF I(6) [of y]]) (auto simp: t il hb e)
    show "task_exist q (kern s)" if "pc s' q \<noteq> Running" for q
      using that ex I(3) [of q] by (cases "q = p") (simp_all add: t)
  qed (use I(1) I(4) I(4) [of x] in \<open>simp_all add: t\<close>)
qed

lemma inv_recv_lower:
  assumes inv: "ipc_inv s" and pc: "pc s p = Lowering x" and k: "k = lower_send_flag x (as_task p s)"
  shows "ipc_inv (goto p Running k s)" (is "ipc_inv ?s'")
proof -
  note I = ipc_invD [OF inv]
  define s' where "s' = ?s'"
  have ex: "task_exist p (kern s)" using I(3) [of p] pc by simp
  have h: "held_by s x p" using pc by (simp add: held_by_def)
  obtain mg where x: "posted (pc s x) = Some (p, mg)" "x \<noteq> p" "task_exist x (kern s)"
    by (rule held_posted [OF inv h])
  have t: "tasks (kern s') = (tasks (kern s))(x := send_flag_update atomic_dec (tasks (kern s) x))"
    "lock_free l (kern s') = lock_free l (kern s)" "pc s' = (pc s)(p := Running)" for l
    using k by (simp_all add: s'_def lower_send_flag_def)
  have e: "task_exist y (kern s') = task_exist y (kern s)" for y by (simp add: task_exist_def t)
  have il: "in_list s' y q = in_list s y q" for y q by (simp add: in_list_def t)
  have hb: "held_by s' y q = (held_by s y q \<and> \<not> (y = x \<and> q = p))" for y q using pc by (auto simp: held_by_def t)
  show ?thesis unfolding s'_def [symmetric]
  proof (rule ipc_invI [OF inv])
    show "recv_ok s' q (pc s' q)" for q
    proof (cases "q = p")
      case True
      then show ?thesis using I(5) [of p] pc x(2) by (simp add: t)
    next
      case False
      then show ?thesis using e by (simp add: t(3)) (rule recv_ok_mono [OF I(5)], auto simp: t)
    qed
    show "send_ok s' y" for y
    proof (cases "y = x")
      case True
      have only: "q = p" if "in_list s x q \<or> held_by s x q" for q
        using I(6) [of x] that x(1) by (auto simp: send_ok_def)
      have "\<not> in_list s x p" using I(6) [of x] h by (auto simp: send_ok_def)
      then have no: "\<not> in_list s' x q" "\<not> held_by s' x q" for q using only [of q] by (auto simp: il hb)
      have "unfinished s x" "\<not> unfinished s' x" using h no by (auto simp: unfinished_def)
      then show ?thesis
        using I(6) [of x] x(1,2) no e unfolding True send_ok_def
        by (auto simp: t atomic_dec_def split: option.splits)
    next
      case False
      then show ?thesis
        using pc by (intro send_ok_cong [OF I(6) [of y]]) (simp_all add: t il hb e)
    qed
    show "task_exist q (kern s)" if "pc s' q \<noteq> Running" for q
      using that ex I(3) [of q] by (cases "q = p") (simp_all add: t)
  qed (use I(1) I(4) I(4) [of x] in \<open>simp_all add: t\<close>)
qed

lemma inv_interrupt:
  assumes inv: "ipc_inv s" and ii: "inform_intr dst (kern s) = Some k"
  shows "ipc_inv (s\<lparr>kern := k\<rparr>)" (is "ipc_inv ?s'")
proof -
  note I = ipc_invD [OF inv]
  define s' where "s' = ?s'"
  have "k = kern s \<or> (\<exists>d. k = upd_task d (has_intr_msg_update (\<lambda>_. 1)) (kern s))"
    using ii by (auto simp: inform_intr_def elim!: bind_eq_SomeE split: if_splits)
  then consider "k = kern s" | d where "k = upd_task d (has_intr_msg_update (\<lambda>_. 1)) (kern s)" by blast
  then show ?thesis
  proof cases
    case 1
    then show ?thesis using inv by simp
  next
    case 2
    have t: "tasks (kern s') = (tasks (kern s))(d := (tasks (kern s) d)\<lparr>has_intr_msg := 1\<rparr>)"
      "lock_free l (kern s') = lock_free l (kern s)" "pc s' = pc s" for l
      by (simp_all add: s'_def 2)
    have e: "task_exist y (kern s') = task_exist y (kern s)" for y by (simp add: task_exist_def t)
    have il: "in_list s' y q = in_list s y q" for y q by (simp add: in_list_def t)
    have hb: "held_by s' y q = held_by s y q" for y q by (simp add: held_by_def t)
    show ?thesis unfolding s'_def [symmetric]
    proof (rule ipc_invI [OF inv])
      show "recv_ok s' q (pc s' q)" for q
        using e by (simp add: t(3)) (rule recv_ok_mono [OF I(5)], simp_all add: t)
      show "send_ok s' y" for y
        by (intro send_ok_cong [OF I(6) [of y]]) (simp_all add: t il hb e)
      show "task_exist q (kern s)" if "pc s' q \<noteq> Running" for q using that I(3) [of q] by (simp add: t)
    qed (use I(1) I(4) I(4) [of d] in \<open>simp_all add: t\<close>)
  qed
qed

lemma ipc_inv_step: "ipc_step s s' \<Longrightarrow> ipc_inv s \<Longrightarrow> ipc_inv s'"
  by (induction rule: ipc_step.induct)
     (auto intro: inv_send_call inv_send_list inv_send_flag inv_send_wake inv_recv_call inv_recv_wake
       inv_recv_int inv_recv_no_int inv_recv_list inv_recv_msg inv_recv_inform inv_recv_lower inv_interrupt)

lemma ipc_inv_init: "ipc_init s \<Longrightarrow> ipc_inv s"
  by (auto simp: ipc_init_def ipc_inv_def send_ok_def in_list_def held_by_def)

lemma ipc_reachable_inv: "ipc_reachable s0 s \<Longrightarrow> ipc_inv s"
  by (induction rule: ipc_reachable.induct) (auto intro: ipc_inv_init ipc_inv_step)


subsection \<open>The logs\<close>

text \<open>A message is on its way until the receiver has copied it.\<close>

definition on_the_way :: "ipc_sys \<Rightarrow> pid \<Rightarrow> bool" where
  "on_the_way s x \<longleftrightarrow> sending (pc s x) \<noteq> None \<and>
     (posted (pc s x) = None \<or> (\<exists>y. in_list s x y \<or> pc s y = Copying x))"

definition entry_of :: "ipc_sys \<Rightarrow> pid \<Rightarrow> pid \<times> pid \<times> message" where
  "entry_of s x = (case sending (pc s x) of Some (d, mg) \<Rightarrow> (x, d, mg\<lparr>src := x\<rparr>) | None \<Rightarrow> undefined)"

definition pending :: "ipc_sys \<Rightarrow> (pid \<times> pid \<times> message) multiset" where
  "pending s = (\<Sum>x \<in> {0..MAX_PID}. if on_the_way s x then {#entry_of s x#} else {#})"

lemma pending_cong:
  assumes "\<And>x. on_the_way s' x = on_the_way s x" and "\<And>x. on_the_way s x \<Longrightarrow> sending (pc s' x) = sending (pc s x)"
  shows "pending s' = pending s"
  unfolding pending_def using assms by (intro sum.cong) (auto simp: entry_of_def)

lemma pending_add:
  assumes "x \<in> {0..MAX_PID}" and "on_the_way s' x" and "\<not> on_the_way s x"
    and "\<And>y. y \<noteq> x \<Longrightarrow> on_the_way s' y = on_the_way s y" and "\<And>y. y \<noteq> x \<Longrightarrow> sending (pc s' y) = sending (pc s y)"
  shows "pending s' = add_mset (entry_of s' x) (pending s)"
proof -
  have "(\<Sum>y \<in> {0..MAX_PID} - {x}. if on_the_way s' y then {#entry_of s' y#} else {#}) =
      (\<Sum>y \<in> {0..MAX_PID} - {x}. if on_the_way s y then {#entry_of s y#} else {#})"
    using assms(4,5) by (intro sum.cong) (auto simp: entry_of_def)
  then show ?thesis
    unfolding pending_def using assms(1-3)
    by (simp add: sum.remove [OF finite_atLeastAtMost_int assms(1)])
qed

definition log_ok :: "ipc_sys \<Rightarrow> bool" where
  "log_ok s \<longleftrightarrow> mset (sent s) = mset (received s) + pending s"

text \<open>Steps that neither start nor end the way of a message.\<close>

lemma log_ok_cong:
  assumes "log_ok s" and "sent s' = sent s" "received s' = received s"
    and "\<And>x. on_the_way s' x = on_the_way s x" and "\<And>x. on_the_way s x \<Longrightarrow> sending (pc s' x) = sending (pc s x)"
  shows "log_ok s'"
  using assms(1-3) pending_cong [OF assms(4,5)] by (simp add: log_ok_def)

lemma on_the_way_goto:
  assumes "sending q = sending (pc s p)" "posted q = posted (pc s p)" "\<And>x. q = Copying x \<longleftrightarrow> pc s p = Copying x"
    and "\<And>y. sender_list (tasks k y) = sender_list (tasks (kern s) y)"
  shows "on_the_way (goto p q k s) x = on_the_way s x" "sending (pc (goto p q k s) x) = sending (pc s x)"
proof -
  have il: "in_list (goto p q k s) x y = in_list s x y" for y using assms(4) by (simp add: in_list_def)
  have "pc (goto p q k s) y = Copying x \<longleftrightarrow> pc s y = Copying x" for y using assms(3) by simp
  then show "on_the_way (goto p q k s) x = on_the_way s x"
    unfolding on_the_way_def il using assms(1,2) by simp
  show "sending (pc (goto p q k s) x) = sending (pc s x)" using assms(1) by simp
qed

lemma log_ok_goto:
  assumes "log_ok s" and "sending q = sending (pc s p)" "posted q = posted (pc s p)"
    "\<And>x. q = Copying x \<longleftrightarrow> pc s p = Copying x" "\<And>y. sender_list (tasks k y) = sender_list (tasks (kern s) y)"
  shows "log_ok (goto p q k s)"
  by (rule log_ok_cong [OF assms(1)]) (simp_all only: goto_simps on_the_way_goto [OF assms(2-5)] on_the_way_goto(2) [OF assms(2-5), simplified goto_simps])


lemma exist_range: "task_exist p k \<Longrightarrow> p \<in> {0..MAX_PID}"
  using task_exist_range by auto

lemma log_ok_step:
  assumes step: "ipc_step s s'" and inv: "ipc_inv s" and lg: "log_ok s"
  shows "log_ok s'"
  using step
proof cases
  case (send_call p dst mg k)
  note I = ipc_invD [OF inv]
  have no: "\<not> in_list s p y" "\<not> held_by s p y" for y using unposted(1,2) [OF I(6)] send_call(2) by simp_all
  have il: "in_list s' x y = in_list s x y" for x y
    using send_call(4) unfolding send_call(1)
    by (auto simp: in_list_def send_prepare_def Let_def split: if_splits)
  have pc': "pc s' = (pc s)(p := Prepared dst mg)" by (simp add: send_call(1))
  have "pending s' = add_mset (entry_of s' p) (pending s)"
  proof (rule pending_add)
    show "p \<in> {0..MAX_PID}" using exist_range send_call(3) .
    show "on_the_way s' p" "\<not> on_the_way s p" using send_call(2) by (simp_all add: on_the_way_def pc')
    show "on_the_way s' y = on_the_way s y" if "y \<noteq> p" for y
    proof -
      have "pc s' z = Copying y \<longleftrightarrow> pc s z = Copying y" for z using send_call(2) by (simp add: pc')
      then show ?thesis using that il by (simp add: on_the_way_def) (simp add: pc')
    qed
  qed (simp add: pc')
  moreover have "entry_of s' p = (p, dst, mg\<lparr>src := p\<rparr>)" by (simp add: entry_of_def pc')
  ultimately show ?thesis using lg by (simp add: log_ok_def send_call(1))
next
  case (send_list p dst mg k)
  note I = ipc_invD [OF inv]
  have ok: "task_exist dst (kern s)" "send_to (tasks (kern s) p) = dst"
    using I(6) [of p] send_list(2) by (simp_all add: send_ok_def)
  have k: "k = upd_task dst (sender_list_update (\<lambda>l. l @ [p])) (as_task p s)"
    using send_enqueue_eq [of "as_task p s"] send_list(3) ok I(1) by (simp add: running_task_def)
  have il: "in_list s' x y = (in_list s x y \<or> (x = p \<and> y = dst))" for x y
    unfolding send_list(1) by (auto simp: in_list_def k)
  have pc': "pc s' = (pc s)(p := Enqueued dst mg)" by (simp add: send_list(1))
  have cp: "pc s' z = Copying y \<longleftrightarrow> pc s z = Copying y" for y z using send_list(2) by (simp add: pc')
  show ?thesis
  proof (rule log_ok_cong [OF lg])
    show "on_the_way s' x = on_the_way s x" for x
    proof (cases "x = p")
      case True
      have "in_list s' p dst" using il by simp
      moreover have "sending (pc s' p) \<noteq> None" by (simp add: pc')
      ultimately have "on_the_way s' p" unfolding on_the_way_def by blast
      moreover have "on_the_way s p" using send_list(2) by (simp add: on_the_way_def)
      ultimately show ?thesis using True by simp
    next
      case False
      then show ?thesis by (simp add: on_the_way_def il cp) (simp add: pc')
    qed
    show "sending (pc s' x) = sending (pc s x)" for x using send_list(2) by (simp add: pc')
  qed (simp_all add: send_list(1))
next
  case (send_wake p dst mg k)
  note W = send_wake_served [OF inv send_wake(2,3)]
  have pc': "pc s' = (pc s)(p := Running)" by (simp add: send_wake(1))
  have cp: "pc s' z = Copying y \<longleftrightarrow> pc s z = Copying y" for y z using send_wake(2) by (simp add: pc')
  have il: "in_list s' x y = in_list s x y" for x y by (simp add: in_list_def send_wake(1) W(1))
  have np: "\<not> on_the_way s p" using W(2) send_wake(2) by (auto simp: on_the_way_def unfinished_def held_by_def)
  show ?thesis
  proof (rule log_ok_cong [OF lg])
    show "on_the_way s' x = on_the_way s x" for x
    proof (cases "x = p")
      case True
      then show ?thesis using np by (simp add: on_the_way_def pc')
    next
      case False
      then show ?thesis by (simp add: on_the_way_def il cp) (simp add: pc')
    qed
    show "sending (pc s' x) = sending (pc s x)" if "on_the_way s x" for x
      using that np by (cases "x = p") (simp_all add: pc')
  qed (simp_all add: send_wake(1))
next
  case (recv_list p sr x k)
  note I = ipc_invD [OF inv]
  have x: "in_list s x p" "k = upd_task p (sender_list_update (remove1 x)) (as_task p s)"
    by (rule recv_take_works [OF inv recv_list(2)]; use recv_list(3) in auto)+
  have pc': "pc s' = (pc s)(p := Copying x)" by (simp add: recv_list(1))
  have il: "in_list s' y q = (in_list s y q \<and> \<not> (y = x \<and> q = p))" for y q
    using I(4) [of p] by (auto simp: in_list_def recv_list(1) x(2))
  have cp: "pc s' z = Copying y \<longleftrightarrow> pc s z = Copying y \<or> (z = p \<and> y = x)" for y z
    using recv_list(2) by (auto simp: pc')
  have sd: "sending (pc s' y) = sending (pc s y)" "posted (pc s' y) = posted (pc s y)" for y
    using recv_list(2) by (simp_all add: pc')
  have "(\<exists>q. in_list s' y q \<or> pc s' q = Copying y) = (\<exists>q. in_list s y q \<or> pc s q = Copying y)" for y
    using il cp x(1) by auto
  then have "on_the_way s' y = on_the_way s y" for y by (simp add: on_the_way_def sd)
  then show ?thesis using lg sd(1) by (intro log_ok_cong [OF lg]) (simp_all add: recv_list(1))
next
  case (recv_msg p x mg k)
  note I = ipc_invD [OF inv]
  have h: "held_by s x p" using recv_msg(2) by (simp add: held_by_def)
  obtain mx where x: "posted (pc s x) = Some (p, mx)" "x \<noteq> p" "task_exist x (kern s)"
    by (rule held_posted [OF inv h])
  have sx: "sending (pc s x) = Some (p, mx)" using x(1) by (cases "pc s x") simp_all
  have mg: "mg = mx\<lparr>src := x\<rparr>" using I(6) [of x] sx recv_msg(3) by (simp add: send_ok_def recv_copy_def)
  have pc': "pc s' = (pc s)(p := Informing x)" by (simp add: recv_msg(1))
  have il: "in_list s' y q = in_list s y q" for y q
    using recv_msg(3) unfolding recv_msg(1) by (auto simp: in_list_def recv_copy_def split: if_splits)
  have cp: "pc s' z = Copying y \<longleftrightarrow> pc s z = Copying y \<and> z \<noteq> p" for y z
    using recv_msg(2) by (auto simp: pc')
  have sd: "sending (pc s' y) = sending (pc s y)" "posted (pc s' y) = posted (pc s y)" for y
    using recv_msg(2) by (simp_all add: pc')
  have only: "q = p" if "held_by s x q" for q using held_posted [OF inv that] x(1) by fastforce
  have "pending s = add_mset (entry_of s x) (pending s')"
  proof (rule pending_add)
    show "x \<in> {0..MAX_PID}" using exist_range x(3) .
    show "on_the_way s x" using sx recv_msg(2) by (auto simp: on_the_way_def)
    have "\<not> in_list s x q" for q by (rule held_not_listed [OF inv h])
    moreover have "pc s' q \<noteq> Copying x" for q using only [of q] cp by (auto simp: held_by_def)
    ultimately show "\<not> on_the_way s' x" using x(1) by (simp add: on_the_way_def sd il)
    show "on_the_way s y = on_the_way s' y" if "y \<noteq> x" for y
    proof -
      have "pc s' z = Copying y \<longleftrightarrow> pc s z = Copying y" for z using that recv_msg(2) by (simp add: pc')
      then show ?thesis by (simp add: on_the_way_def sd il)
    qed
  qed (simp add: sd)
  moreover have "entry_of s x = (x, p, mg)" by (simp add: entry_of_def sx mg)
  ultimately show ?thesis using lg by (simp add: log_ok_def recv_msg(1))
next
  case (interrupt dst k)
  have "\<And>y. sender_list (tasks k y) = sender_list (tasks (kern s) y)"
    using interrupt(2) by (auto simp: inform_intr_def elim!: bind_eq_SomeE split: if_splits)
  then have "in_list s' x y = in_list s x y" for x y by (simp add: in_list_def interrupt(1))
  then show ?thesis
    using lg by (intro log_ok_cong [OF lg]) (simp_all add: interrupt(1) on_the_way_def)
next
  case (recv_wake p sr k)
  note I = ipc_invD [OF inv]
  have ex: "task_exist p (kern s)" using I(3) [of p] recv_wake(2) by simp
  have "sender_list (tasks k y) = sender_list (tasks (kern s) y)" for y
    using task_ipc_check_eq [OF ex I(2) [OF ex] I(1)] recv_wake(3) by (auto split: if_splits)
  then show ?thesis unfolding recv_wake(1) using recv_wake(2) by (intro log_ok_goto [OF lg]) simp_all
next
  case (send_flag p dst mg k)
  then show ?thesis unfolding send_flag(1)
    by (intro log_ok_goto [OF lg]) (simp_all add: raise_send_flag_def)
next
  case (recv_call p sr k)
  then show ?thesis unfolding recv_call(1)
    by (intro log_ok_goto [OF lg]) (auto simp: recv_prepare_def Let_def split: if_splits)
next
  case (recv_int p sr f mg mg' k)
  then show ?thesis unfolding recv_int(1)
    by (intro log_ok_goto [OF lg]) (auto simp: recv_intr_def elim!: bind_eq_SomeE split: if_splits)
next
  case (recv_no_int p sr)
  then show ?thesis unfolding recv_no_int(1) by (intro log_ok_goto [OF lg]) simp_all
next
  case (recv_inform p x k)
  then show ?thesis unfolding recv_inform(1)
    by (intro log_ok_goto [OF lg]) (auto simp: clear_send_to_def elim!: bind_eq_SomeE)
next
  case (recv_lower p x k)
  then show ?thesis unfolding recv_lower(1)
    by (intro log_ok_goto [OF lg]) (simp_all add: lower_send_flag_def)
qed

lemma log_ok_init: "ipc_init s \<Longrightarrow> log_ok s"
  by (simp add: ipc_init_def log_ok_def pending_def on_the_way_def)

lemma ipc_reachable_log: "ipc_reachable s0 s \<Longrightarrow> log_ok s"
  by (induction rule: ipc_reachable.induct) (auto intro: log_ok_init log_ok_step ipc_reachable_inv)


subsection \<open>Properties\<close>

text \<open>C10: Message passing never faults: whatever the interleaving of the senders, receivers and
  interrupts, every part of a call that is due can run. A sender finds the task it sends to, a woken
  receiver finds the sender it waits for in its list (or an interrupt), and the scheduler's test
  always has a result.\<close>

theorem ipc_never_faults:
  assumes "ipc_reachable s0 s"
  shows "(pc s p = Prepared dst mg \<longrightarrow> send_enqueue (as_task p s) \<noteq> None) \<and>
    (pc s p = SendBlocked dst mg \<or> pc s p = RecvBlocked sr \<longrightarrow> task_ipc_check p (kern s) \<noteq> None) \<and>
    (pc s p = Woken sr \<longrightarrow> recv_intr sr (as_task p s) \<noteq> None) \<and>
    (pc s p = Taking sr \<longrightarrow> (\<exists>x k. recv_take sr (as_task p s) = Some (x, k) \<and> in_list s x p \<and>
       (sr = RECV_FROM_ANY \<or> x = sr))) \<and>
    (pc s p = Informing x \<longrightarrow> clear_send_to x (as_task p s) \<noteq> None)"
proof -
  have inv: "ipc_inv s" using ipc_reachable_inv assms .
  note I = ipc_invD [OF inv]
  have "send_enqueue (as_task p s) \<noteq> None" if "pc s p = Prepared dst mg"
    using send_enqueue_eq [of "as_task p s"] I(6) [of p] I(1) that by (simp add: send_ok_def running_task_def)
  moreover have "task_ipc_check p (kern s) \<noteq> None" if "pc s p = SendBlocked dst mg \<or> pc s p = RecvBlocked sr"
  proof -
    have "task_exist p (kern s)" using I(3) [of p] that by auto
    then show ?thesis using task_ipc_check_eq [OF _ I(2) I(1)] by blast
  qed
  moreover have "recv_intr sr (as_task p s) \<noteq> None" if "pc s p = Woken sr"
    using I(2,3) [of p] that by (simp add: recv_intr_def received_from_intr_def running_task_def pid_to_task_exist)
  moreover have "\<exists>x k. recv_take sr (as_task p s) = Some (x, k) \<and> in_list s x p \<and> (sr = RECV_FROM_ANY \<or> x = sr)"
    if tk: "pc s p = Taking sr"
  proof -
    obtain x where x: "recv_take sr (as_task p s) = Some (x, upd_task p (sender_list_update (remove1 x)) (as_task p s))"
        "in_list s x p" by (rule recv_take_works [OF inv tk])
    have "can_take s p sr" using I(5) [of p] tk by simp
    then have "sr = RECV_FROM_ANY \<or> x = sr"
      using x(1) by (auto simp: can_take_def recv_take_def elim!: bind_eq_SomeE split: if_splits)
    with x show ?thesis by blast
  qed
  moreover have "clear_send_to x (as_task p s) \<noteq> None" if "pc s p = Informing x"
  proof -
    have "held_by s x p" using that by (simp add: held_by_def)
    then obtain mx where "task_exist x (kern s)" using held_posted [OF inv] by metis
    then show ?thesis by (simp add: clear_send_to_def pid_to_task_exist)
  qed
  ultimately show ?thesis by blast
qed

text \<open>C1: Every message is delivered exactly once and unaltered: at any moment the messages sent are
  those received plus, for each sender whose message has not been copied yet, that one message. So
  once a task is back from its calls, the messages it sent are the ones that were received from it.\<close>

theorem ipc_exactly_once:
  assumes "ipc_reachable s0 s"
  shows "mset (sent s) = mset (received s) + pending s \<and>
    (pc s x = Running \<longrightarrow> filter_mset (\<lambda>e. fst e = x) (mset (sent s)) = filter_mset (\<lambda>e. fst e = x) (mset (received s)))"
proof -
  have lg: "mset (sent s) = mset (received s) + pending s"
    using ipc_reachable_log [OF assms] by (simp add: log_ok_def)
  have "filter_mset (\<lambda>e. fst e = x) (pending s) = {#}" if "pc s x = Running"
  proof -
    have "\<not> on_the_way s x" using that by (simp add: on_the_way_def)
    then have "fst e \<noteq> x" if "e \<in># pending s" for e
      using that by (auto simp: pending_def set_mset_sum on_the_way_def entry_of_def split: if_splits)
    then have "filter_mset (\<lambda>e. fst e = x) (pending s) = filter_mset (\<lambda>_. False) (pending s)"
      by (intro filter_mset_cong) auto
    then show ?thesis by simp
  qed
  then show ?thesis using lg by simp
qed

text \<open>A message that a task posted to itself stays in its list.\<close>

definition self_inv :: "ipc_sys \<Rightarrow> bool" where
  "self_inv s \<longleftrightarrow> (\<forall>x mg. posted (pc s x) = Some (x, mg) \<longrightarrow> in_list s x x)"

lemma self_inv_goto:
  assumes "self_inv s" and "posted q = None \<or> posted q = posted (pc s p)"
    and "\<And>y. y \<noteq> p \<or> posted q \<noteq> None \<Longrightarrow> sender_list (tasks k y) = sender_list (tasks (kern s) y)"
  shows "self_inv (goto p q k s)"
proof -
  have "in_list (goto p q k s) x x" if "posted (pc (goto p q k s) x) = Some (x, mg)" for x mg
  proof -
    have q: "posted (pc s x) = Some (x, mg)" "x \<noteq> p \<or> posted q \<noteq> None"
      using that assms(2) by (cases "x = p"; simp; metis option.distinct(1))+
    then have "in_list s x x" using assms(1) by (auto simp: self_inv_def)
    then show ?thesis using assms(3) [OF q(2)] by (simp add: in_list_def)
  qed
  then show ?thesis by (simp add: self_inv_def)
qed

lemma self_inv_step:
  assumes step: "ipc_step s s'" and inv: "ipc_inv s" and sf: "self_inv s"
  shows "self_inv s'"
  using step
proof cases
  case (send_call p dst mg k)
  have "self_inv (goto p (Prepared dst mg) k s)"
    using send_call(4) by (intro self_inv_goto [OF sf]) (auto simp: send_prepare_def Let_def split: if_splits)
  then show ?thesis by (simp add: send_call(1) self_inv_def in_list_def)
next
  case (send_list p dst mg k)
  note I = ipc_invD [OF inv]
  have ok: "task_exist dst (kern s)" "send_to (tasks (kern s) p) = dst"
    using I(6) [of p] send_list(2) by (simp_all add: send_ok_def)
  have k: "k = upd_task dst (sender_list_update (\<lambda>l. l @ [p])) (as_task p s)"
    using send_enqueue_eq [of "as_task p s"] send_list(3) ok I(1) by (simp add: running_task_def)
  have il: "in_list s' x y = (in_list s x y \<or> (x = p \<and> y = dst))" for x y
    unfolding send_list(1) by (auto simp: in_list_def k)
  have "in_list s' x x" if "posted (pc s' x) = Some (x, m)" for x m
    using that sf il by (cases "x = p") (auto simp: send_list(1) self_inv_def)
  then show ?thesis by (simp add: self_inv_def)
next
  case (recv_list p sr x k)
  have x: "k = upd_task p (sender_list_update (remove1 x)) (as_task p s)"
    by (rule recv_take_works [OF inv recv_list(2)]; use recv_list(3) in auto)
  show ?thesis unfolding recv_list(1) by (intro self_inv_goto [OF sf]) (simp_all add: x)
next
  case (recv_msg p x mg k)
  have "self_inv (goto p (Informing x) k s)"
    using recv_msg(3) by (intro self_inv_goto [OF sf]) (auto simp: recv_copy_def)
  then show ?thesis by (simp add: recv_msg(1) self_inv_def in_list_def)
next
  case (interrupt dst k)
  have "sender_list (tasks k y) = sender_list (tasks (kern s) y)" for y
    using interrupt(2) by (auto simp: inform_intr_def elim!: bind_eq_SomeE split: if_splits)
  then show ?thesis using sf by (simp add: interrupt(1) self_inv_def in_list_def)
next
  case (send_wake p dst mg k)
  then show ?thesis unfolding send_wake(1) using send_wake_served(1) [OF inv send_wake(2,3)]
    by (intro self_inv_goto [OF sf]) simp_all
next
  case (recv_wake p sr k)
  note I = ipc_invD [OF inv]
  have ex: "task_exist p (kern s)" using I(3) [of p] recv_wake(2) by simp
  have "sender_list (tasks k y) = sender_list (tasks (kern s) y)" for y
    using task_ipc_check_eq [OF ex I(2) [OF ex] I(1)] recv_wake(3) by (auto split: if_splits)
  then show ?thesis unfolding recv_wake(1) by (intro self_inv_goto [OF sf]) simp_all
next
  case (send_flag p dst mg k)
  then show ?thesis unfolding send_flag(1)
    by (intro self_inv_goto [OF sf]) (simp_all add: raise_send_flag_def)
next
  case (recv_call p sr k)
  then show ?thesis unfolding recv_call(1)
    by (intro self_inv_goto [OF sf]) (auto simp: recv_prepare_def Let_def split: if_splits)
next
  case (recv_int p sr f mg mg' k)
  then show ?thesis unfolding recv_int(1)
    by (intro self_inv_goto [OF sf]) (auto simp: recv_intr_def elim!: bind_eq_SomeE split: if_splits)
next
  case (recv_no_int p sr)
  then show ?thesis unfolding recv_no_int(1) by (intro self_inv_goto [OF sf]) simp_all
next
  case (recv_inform p x k)
  then show ?thesis unfolding recv_inform(1)
    by (intro self_inv_goto [OF sf]) (auto simp: clear_send_to_def elim!: bind_eq_SomeE)
next
  case (recv_lower p x k)
  then show ?thesis unfolding recv_lower(1)
    by (intro self_inv_goto [OF sf]) (simp_all add: lower_send_flag_def)
qed

lemma ipc_reachable_self: "ipc_reachable s0 s \<Longrightarrow> self_inv s"
proof (induction rule: ipc_reachable.induct)
  case ipc_start
  then show ?case by (simp add: self_inv_def ipc_init_def)
next
  case (ipc_next s s')
  then show ?case using self_inv_step ipc_reachable_inv by blast
qed

lemma ipc_step_pc:
  "ipc_step s s' \<Longrightarrow> pc s x = SendBlocked d mg \<Longrightarrow>
    pc s' x = SendBlocked d mg \<or> (\<exists>k. task_ipc_check x (kern s) = Some (True, k))"
  by (erule ipc_stepE) (auto simp: goto_def)



subsection \<open>Witnesses\<close>

definition example_ipc :: ipc_sys where
  "example_ipc = \<lparr>kern = example_family, pc = (\<lambda>_. Running), sent = [], received = []\<rparr>"

definition hello :: message where "hello = \<lparr>src = 0, mtype = 7, m = [1, 2, 3, 4, 5, 6, 7, 8]\<rparr>"

lemma example_family_tasks:
  "task_exist p example_family \<longleftrightarrow> p \<in> {1, 2, 3, 4}" "locks example_family l = 1"
  "tpid (tasks example_family p) = (if p \<in> {1, 2, 3, 4} then p else PID_NO_TASK)"
  "send_flag (tasks example_family p) = 0" "recv_flag (tasks example_family p) = 0"
  "sender_list (tasks example_family p) = []" "has_intr_msg (tasks example_family p) = 0"
  by (auto simp: example_family_def example_kernel_fields example_main_def zero_task_def task_exist_def pid_defs)

lemma example_ipc_init: "ipc_init example_ipc"
  by (simp add: ipc_init_def example_ipc_def example_family_tasks lock_free_def)

text \<open>Task 2 has called \<^verbatim>\<open>msg_send\<close>.\<close>

lemma example_send:
  assumes "d \<in> {2, 3}"
  shows "\<exists>s. ipc_reachable example_ipc s \<and> pc s 2 = Prepared d hello \<and> pc s 3 = Running \<and>
    task_exist 3 (kern s)"
proof -
  have "pc example_ipc 2 = Running" "task_exist 2 (kern example_ipc)" "task_exist d (as_task 2 example_ipc)"
    using assms by (auto simp: example_ipc_def example_family_tasks)
  then obtain k where k: "send_prepare d hello (as_task 2 example_ipc) = Inr k"
      "task_exist 3 k = task_exist 3 (kern example_ipc)"
    by (simp add: send_prepare_def Let_def task_exist_upd_task)
  define s1 where "s1 = (goto 2 (Prepared d hello) k example_ipc)\<lparr>sent := sent example_ipc @ [(2, d, hello\<lparr>src := 2\<rparr>)]\<rparr>"
  have "ipc_step example_ipc s1"
    unfolding s1_def
    by (rule send_call [OF \<open>pc example_ipc 2 = Running\<close> \<open>task_exist 2 (kern example_ipc)\<close> k(1)])
  then have "ipc_reachable example_ipc s1" using ipc_start [OF example_ipc_init] ipc_next by blast
  moreover have "task_exist 3 (kern s1)" using k(2) by (simp add: s1_def example_ipc_def example_family_tasks)
  moreover have "pc s1 2 = Prepared d hello" "pc s1 3 = Running" by (simp_all add: s1_def example_ipc_def)
  ultimately show ?thesis by blast
qed

lemma ipc_never_faults_witness:
  "\<exists>s. ipc_reachable example_ipc s \<and> pc s 2 = Prepared 3 hello \<and> send_enqueue (as_task 2 s) \<noteq> None"
  using example_send [of 3] ipc_never_faults by blast

lemma ipc_exactly_once_witness:
  "\<exists>s. ipc_reachable example_ipc s \<and> pc s 2 = Prepared 3 hello \<and> mset (sent s) = mset (received s) + pending s"
  using example_send [of 3] ipc_exactly_once by blast


subsection \<open>One rendezvous, call by call\<close>

text \<open>A rendezvous from start to end: a sender that finds an idle receiver without messages blocks
  and is not runnable; the receiver's call makes the receiver runnable at once; its resumption
  returns the sender's message with the sender's process id in it; after that the sender is runnable
  and its call returns. A destination that does not exist is refused and nothing is queued.\<close>

theorem rendezvous:
  fixes s :: "'a kernel_state_scheme"
  assumes ex: "task_exist p s" "task_exist q s" "p \<noteq> q" and id: "tpid (tasks s p) = p" "tpid (tasks s q) = q"
    and lf: "lock_free (SendLock q) s" "lock_free (SendLock p) s"
    and q: "sender_list (tasks s q) = []" "has_intr_msg (tasks s q) = 0"
    and fl: "send_flag (tasks s p) = 0" "recv_flag (tasks s p) = 0"
    and sr: "sr \<in> {RECV_FROM_ANY, p}"
  shows "\<exists>s1 s2 s3 s4. msg_send q mg (s\<lparr>running_pid := p\<rparr>) = Some (Inr s1) \<and>
    task_ipc_check p s1 = Some (False, s1) \<and>
    recv_prepare sr (s1\<lparr>running_pid := q\<rparr>) = Inr s2 \<and> task_ipc_check q s2 = Some (True, s3) \<and>
    msg_recv_resumed sr mg' (s3\<lparr>running_pid := q\<rparr>) = Some (SYSCALL_SUCCESS, mg\<lparr>src := p\<rparr>, s4) \<and>
    task_ipc_check p s4 = Some (True, s4) \<and> sender_list (tasks s4 q) = [] \<and> send_to (tasks s4 p) = PID_NO_TASK"
proof -
  have pr: "\<And>f t. tasks (t\<lparr>running_pid := f\<rparr>) = tasks (t :: 'a kernel_state_scheme)"
    "\<And>f t. lock_free l (t\<lparr>running_pid := f\<rparr>) = lock_free l (t :: 'a kernel_state_scheme)"
    "\<And>f t. task_exist r (t\<lparr>running_pid := f\<rparr>) = task_exist r (t :: 'a kernel_state_scheme)" for l r
    by (simp_all add: lock_free_def task_exist_def)
  define s0 where "s0 = s\<lparr>running_pid := p\<rparr>"
  define s1a where "s1a = upd_task p (\<lambda>t. t\<lparr>msg := mg\<lparr>src := tpid t\<rparr>, send_to := q\<rparr>)
    (upd_task p (send_to_update (\<lambda>_. PID_NO_TASK)) s0)"
  define s1 where "s1 = upd_task p (status_update (\<lambda>_. TASK_SENDING))
    (raise_send_flag (upd_task q (sender_list_update (\<lambda>l. l @ [p])) s1a))"
  have t1: "tasks s1 q = (tasks s q)\<lparr>sender_list := [p]\<rparr>" "running_pid s1 = p"
    "tasks s1 p = (tasks s p)\<lparr>msg := mg\<lparr>src := p\<rparr>, send_to := q, send_flag := 1, status := TASK_SENDING\<rparr>"
    "\<And>l. lock_free l s1 = lock_free l s" "\<And>r. task_exist r s1 = task_exist r s"
    using ex(3) id fl q(1)
    by (simp_all add: s1_def s1a_def s0_def raise_send_flag_def task_exist_upd_task pr)
       (simp_all add: upd_task_def atomic_inc_def)
  have send: "msg_send q mg s0 = Some (Inr s1)"
  proof -
    have "send_prepare q mg s0 = Inr s1a"
      using ex(2) by (simp add: send_prepare_def Let_def s1a_def s0_def task_exist_upd_task pr)
    moreover have "send_enqueue s1a = Some (upd_task q (sender_list_update (\<lambda>l. l @ [p])) s1a)"
      using send_enqueue_eq [of s1a] ex lf
      by (simp add: s1a_def s0_def running_task_def task_exist_upd_task pr)
    ultimately show ?thesis
      by (simp add: msg_send_def wait_receviced_def s1_def raise_send_flag_def) (simp add: s1a_def s0_def)
  qed
  have ck1: "task_ipc_check p s1 = Some (False, s1)"
    using task_ipc_check_eq [of p s1] ex id lf fl(2) t1 one_sless by (simp add: ipc_ready_def Let_def)
  define s2 where "s2 = upd_task q (\<lambda>t. t\<lparr>recv_from := sr, recv_flag := snd (atomic_set (recv_flag t) 1),
      status := TASK_RECEIVING\<rparr>) (upd_task q (recv_from_update (\<lambda>_. PID_NO_TASK)) (s1\<lparr>running_pid := q\<rparr>))"
  have recv: "recv_prepare sr (s1\<lparr>running_pid := q\<rparr>) = Inr s2"
    using sr ex(1) by (auto simp: recv_prepare_def Let_def s2_def task_exist_upd_task pr t1)
  have t2: "tasks s2 q = (tasks s q)\<lparr>sender_list := [p], recv_from := sr, recv_flag := 1, status := TASK_RECEIVING\<rparr>"
    "tasks s2 p = tasks s1 p" "\<And>l. lock_free l s2 = lock_free l s" "\<And>r. task_exist r s2 = task_exist r s"
    "running_pid s2 = q"
    using ex(3) t1 by (simp_all add: s2_def task_exist_upd_task pr atomic_set_def asm_atomic_xchg_def)
  define s3 where "s3 = upd_task q (recv_flag_update (\<lambda>_. 0)) s2"
  have "sr \<noteq> RECV_FROM_INT" "MIN_PID \<le> sr \<and> sr \<le> MAX_PID \<longrightarrow> sr = p"
    using sr task_exist_range [OF ex(1)] by (auto simp: RECV_FROM_ANY_def RECV_FROM_INT_def MIN_PID_def)
  then have "ipc_ready q s2" using ex(1) t2 by (auto simp: ipc_ready_def Let_def)
  then have ck2: "task_ipc_check q s2 = Some (True, s3)"
    using task_ipc_check_eq [of q s2] ex id lf t2 by (simp add: s3_def)
  define s3' where "s3' = s3\<lparr>running_pid := q\<rparr>"
  have t3: "tasks s3' q = (tasks s q)\<lparr>sender_list := [p], recv_from := sr, recv_flag := 0, status := TASK_RECEIVING\<rparr>"
    "tasks s3' p = tasks s1 p" "\<And>l. lock_free l s3' = lock_free l s" "\<And>r. task_exist r s3' = task_exist r s"
    "running_pid s3' = q"
    using ex(3) t2 by (simp_all add: s3'_def s3_def task_exist_upd_task pr)
  define s4a where "s4a = upd_task q (recv_from_update (\<lambda>_. PID_NO_TASK)) (upd_task q (sender_list_update (\<lambda>_. [])) s3')"
  define s4 where "s4 = lower_send_flag p (upd_task p (send_to_update (\<lambda>_. PID_NO_TASK)) s4a)"
  have "recv_intr sr s3' = Some None"
    using id(2) q(2) ex t3 by (auto simp: recv_intr_def received_from_intr_def running_task_def pid_to_task_exist)
  moreover have "recv_take sr s3' = Some (p, upd_task q (sender_list_update (\<lambda>_. [])) s3')"
  proof (cases "sr = RECV_FROM_ANY")
    case True
    then show ?thesis using recv_take_any [of s3' sr p "[]"] t3 lf by (simp add: running_task_def)
  next
    case False
    then have sp: "sr = p" "p \<noteq> RECV_FROM_ANY" "p \<noteq> RECV_FROM_INT"
      using sr RECV_codes(2,3) [of s] ex(1) by auto
    have "upd_task q (sender_list_update (remove1 p)) s3' = upd_task q (sender_list_update (\<lambda>_. [])) s3'"
      using t3(1) by (simp add: upd_task_def o_def)
    then show ?thesis using recv_take_from [of s3' p] t3 lf ex(1) sp by (simp add: running_task_def)
  qed
  moreover have "recv_copy p (upd_task q (sender_list_update (\<lambda>_. [])) s3') = (mg\<lparr>src := p\<rparr>, s4a)"
    using ex(3) t3 t1(3) by (simp add: recv_copy_def s4a_def)
  moreover have "inform_received (tpid (tasks s4a p)) s4a = Some s4"
  proof -
    have "task_exist p s4a" using ex(1) t3(4) by (simp add: s4a_def task_exist_upd_task)
    moreover have "tpid (tasks s4a p) = p" using ex(3) t3(2) t1(3) id(1) by (simp add: s4a_def)
    ultimately show ?thesis by (simp add: inform_received_def clear_send_to_def pid_to_task_exist s4_def)
  qed
  ultimately have res: "msg_recv_resumed sr mg' s3' = Some (SYSCALL_SUCCESS, mg\<lparr>src := p\<rparr>, s4)"
    by (simp add: msg_recv_resumed_def)
  have t4: "tpid (tasks s4 p) = p" "recv_flag (tasks s4 p) = 0" "send_flag (tasks s4 p) = 0"
    "send_to (tasks s4 p) = PID_NO_TASK" "sender_list (tasks s4 q) = []" "lock_free (SendLock p) s4" "task_exist p s4"
    using ex t3 t1(3) id fl lf
    by (simp_all add: s4_def s4a_def lower_send_flag_def atomic_dec_def task_exist_upd_task)
  then have "task_ipc_check p s4 = Some (True, s4)"
    using task_ipc_check_eq [of p s4] by (simp add: ipc_ready_def Let_def)
  then show ?thesis
    using send ck1 recv ck2 res t4 unfolding s0_def s3'_def by blast
qed


lemma rendezvous_witness:
  "\<exists>s1 s2 s3 s4. msg_send 3 hello (example_family\<lparr>running_pid := 2\<rparr>) = Some (Inr s1) \<and>
    task_ipc_check 2 s1 = Some (False, s1) \<and>
    recv_prepare RECV_FROM_ANY (s1\<lparr>running_pid := 3\<rparr>) = Inr s2 \<and> task_ipc_check 3 s2 = Some (True, s3) \<and>
    msg_recv_resumed RECV_FROM_ANY hello (s3\<lparr>running_pid := 3\<rparr>) = Some (SYSCALL_SUCCESS, hello\<lparr>src := 2\<rparr>, s4) \<and>
    task_ipc_check 2 s4 = Some (True, s4) \<and> sender_list (tasks s4 3) = [] \<and> send_to (tasks s4 2) = PID_NO_TASK"
  by (rule rendezvous) (simp_all add: example_family_tasks lock_free_def)


end
