(* ===== verification/Scheduler.thy ===== *)
theory Scheduler
  imports Ipc
begin

text \<open>
  The scheduler of \<^verbatim>\<open>src/arch/x86_64/task/schedule.c\<close>: virtual run times, the waiting list of a
  processor, the choice of the next task, and the switch to it. The switch of stacks
  (\<^verbatim>\<open>asm_switch_to\<close>) is the change of the running task; what a switched-out task does when it runs
  again is to restore its interrupt flag. The registers and the FPU state are not modelled.
\<close>

subsection \<open>Interrupt flag\<close>

definition intr_disable :: "'a kernel_state_scheme \<Rightarrow> bool \<times> 'a kernel_state_scheme" where
  "intr_disable s = (intr_on s, if intr_on s then s\<lparr>intr_on := False\<rparr> else s)"

definition intr_enable :: "'a kernel_state_scheme \<Rightarrow> bool \<times> 'a kernel_state_scheme" where
  "intr_enable s = (intr_on s, if intr_on s then s else s\<lparr>intr_on := True\<rparr>)"

definition intr_set_status :: "bool \<Rightarrow> 'a kernel_state_scheme \<Rightarrow> bool \<times> 'a kernel_state_scheme" where
  "intr_set_status st s = (if st then intr_enable s else intr_disable s)"

subsection \<open>Virtual run time\<close>

definition MAX_VRUNTIME :: "u64 \<Rightarrow> u64 \<Rightarrow> u64" where
  "MAX_VRUNTIME a b = (if 0 <s a - b then a else b)"

definition get_min_vrun_time :: "nat \<Rightarrow> 'a kernel_state_scheme \<Rightarrow> u64 option" where
  "get_min_vrun_time cpu s = map_option min_vrun_time (get_task_man cpu s)"

definition update_min_vrun_time :: "nat \<Rightarrow> u64 \<Rightarrow> 'a kernel_state_scheme \<Rightarrow> 'a kernel_state_scheme" where
  "update_min_vrun_time cpu v s = upd_cpu cpu (\<lambda>tm. tm\<lparr>min_vrun_time := MAX_VRUNTIME (min_vrun_time tm) v\<rparr>) s"

text \<open>A weight of zero, which only the words behind the table can have, is a division fault.\<close>

definition update_vrun_time :: "pid \<Rightarrow> 'a kernel_state_scheme \<Rightarrow> 'a kernel_state_scheme option" where
  "update_vrun_time task s = do {
     let nice0_weight = weight s DEFAULT_PRIORITY;
     let cur_weight = weight s (priority (tasks s task));
     assert (cur_weight \<noteq> 0);
     let vrun = run_time (tasks s task) * nice0_weight div cur_weight;
     minv \<leftarrow> get_min_vrun_time (cpu_id (tasks s task)) s;
     let s = upd_task task (vrun_time_update (\<lambda>_. MAX_VRUNTIME vrun minv)) s;
     let s = (if vrun_time (tasks s task) \<noteq> vrun
       then upd_task task (\<lambda>t. t\<lparr>run_time := vrun_time t * cur_weight div nice0_weight\<rparr>) s else s);
     Some (update_min_vrun_time (cpu_id (tasks s task)) (vrun_time (tasks s task)) s) }"

definition task_update :: "'a kernel_state_scheme \<Rightarrow> 'a kernel_state_scheme option" where
  "task_update s = do {
     assert (\<not> intr_on s);
     let cur = running_pid s;
     let s = upd_task cur (\<lambda>t. t\<lparr>run_time := run_time t + 1\<rparr>) s;
     update_vrun_time cur s }"

subsection \<open>Blocking and waking\<close>

definition inform_exit :: "pid \<Rightarrow> 'a kernel_state_scheme \<Rightarrow> 'a kernel_state_scheme option" where
  "inform_exit exited s = do {
     task \<leftarrow> pid_to_task exited s;
     let parent = ppid task;
     _ \<leftarrow> pid_to_task parent s;
     s \<leftarrow> spinlock_lock (ChildListLock parent) s;
     let s = upd_task parent (exited_child_list_update (\<lambda>l. l @ [exited])) s;
     Some (spinlock_unlock (ChildListLock parent) s) }"

definition task_unblock_sub :: "pid \<Rightarrow> 'a kernel_state_scheme \<Rightarrow> 'a kernel_state_scheme option" where
  "task_unblock_sub pid s = do {
     task \<leftarrow> pid_to_task pid s;
     task_list_insert (cpu_id task) pid s }"

definition task_unblock :: "pid \<Rightarrow> 'a kernel_state_scheme \<Rightarrow> 'a kernel_state_scheme option" where
  "task_unblock pid s = do {
     let (st, s) = intr_disable s;
     task \<leftarrow> pid_to_task pid s;
     _ \<leftarrow> get_task_man (cpu_id task) s;
     s \<leftarrow> spinlock_lock (TaskListLock (cpu_id task)) s;
     s \<leftarrow> task_unblock_sub pid s;
     let s = spinlock_unlock (TaskListLock (cpu_id task)) s;
     Some (snd (intr_set_status st s)) }"

text \<open>One task of the waiting list, and the whole list. Waking moves a task to a run queue, so the walk
  sees the list as it was.\<close>

definition check_waiting :: "nat \<Rightarrow> pid \<Rightarrow> 'a kernel_state_scheme \<Rightarrow> 'a kernel_state_scheme option" where
  "check_waiting cpu p s = do {
     let stat = status (tasks s p);
     (ipc_check, s) \<leftarrow> task_ipc_check (tpid (tasks s p)) s;
     (has_exited_child, s) \<leftarrow> task_has_exited_child (tpid (tasks s p)) s;
     if (stat = TASK_SENDING \<or> stat = TASK_RECEIVING) \<and> \<not> ipc_check then Some s
     else if status (tasks s p) = TASK_WAITING \<and> \<not> has_exited_child then Some s
     else do {
       let s = upd_cpu cpu (waiting_list_update (remove1 p)) s;
       task_unblock (tpid (tasks s p)) s } }"

definition check_waiting_list :: "nat \<Rightarrow> 'a kernel_state_scheme \<Rightarrow> 'a kernel_state_scheme option" where
  "check_waiting_list cpu s = fold_option (check_waiting cpu) (waiting_list (cpus s cpu)) s"

subsection \<open>Choosing and switching\<close>

definition get_next_task :: "nat \<Rightarrow> 'a kernel_state_scheme \<Rightarrow> (pid \<times> 'a kernel_state_scheme) option" where
  "get_next_task cpu s = do {
     (nxt, s) \<leftarrow>
       (case task_list (cpus s cpu) of
          p # ps \<Rightarrow> Some (p, upd_cpu cpu (task_list_update (\<lambda>_. ps)) s)
        | [] \<Rightarrow> do {
            idle \<leftarrow> idle_task (cpus s cpu);
            s \<leftarrow> task_unblock_sub (tpid (tasks s idle)) s;
            Some (idle, upd_cpu (cpu_id (tasks s idle)) (task_list_update (remove1 idle)) s) });
     Some (nxt, upd_cpu cpu (\<lambda>tm. tm\<lparr>running_tasks := running_tasks tm - 1,
       total_weight := total_weight tm - weight s (priority (tasks s nxt))\<rparr>) s) }"

definition page_table_activate :: "pid \<Rightarrow> 'a kernel_state_scheme \<Rightarrow> 'a kernel_state_scheme" where
  "page_table_activate task s =
     set_page_table (if page_dir (tasks s task) \<noteq> NULL then page_dir (tasks s task) else 0x510000) s"

definition update_tss_rsp0 :: "pid \<Rightarrow> 'a kernel_state_scheme \<Rightarrow> 'a kernel_state_scheme option" where
  "update_tss_rsp0 task s = do {
     let cpu = cpu_id (running_task s);
     assert (cpu < NR_CPUS);
     Some (s\<lparr>tss_rsp0 := (tss_rsp0 s)(cpu := kstack_base (tasks s task) + kstack_size (tasks s task))\<rparr>) }"

definition proc_activate :: "pid \<Rightarrow> 'a kernel_state_scheme \<Rightarrow> 'a kernel_state_scheme option" where
  "proc_activate task s = do {
     let s = page_table_activate task s;
     s \<leftarrow> (if page_dir (tasks s task) \<noteq> NULL then update_tss_rsp0 task s else Some s);
     Some (s\<lparr>running_pid := task\<rparr>) }"

text \<open>Where the task that gives up the processor goes.\<close>

definition park :: "nat \<Rightarrow> pid \<Rightarrow> 'a kernel_state_scheme \<Rightarrow> 'a kernel_state_scheme option" where
  "park cpu cur s =
     (case status (tasks s cur) of
        TASK_RUNNING \<Rightarrow> do {
          s \<leftarrow> spinlock_lock (TaskListLock cpu) s;
          s \<leftarrow> task_list_insert cpu cur s;
          Some (spinlock_unlock (TaskListLock cpu) s) }
      | TASK_SENDING \<Rightarrow> Some (upd_cpu cpu (waiting_list_update (\<lambda>l. l @ [cur])) s)
      | TASK_RECEIVING \<Rightarrow> Some (upd_cpu cpu (waiting_list_update (\<lambda>l. l @ [cur])) s)
      | TASK_WAITING \<Rightarrow> Some (upd_cpu cpu (waiting_list_update (\<lambda>l. l @ [cur])) s)
      | TASK_DIED \<Rightarrow> inform_exit (tpid (tasks s cur)) s
      | _ \<Rightarrow> Some s)"

text \<open>\<^verbatim>\<open>schedule\<close> up to the switch. The task switched to resumes behind its own switch with
  \<^verbatim>\<open>intr_set_status\<close>, or starts in \<^verbatim>\<open>kernel_task\<close>.\<close>

definition schedule :: "'a kernel_state_scheme \<Rightarrow> 'a kernel_state_scheme option" where
  "schedule s = do {
     let cur = running_pid s;
     let cpu = cpu_id (running_task s);
     _ \<leftarrow> get_task_man cpu s;
     if preempt_count s cur > 0 then Some s
     else do {
       let (intr_status, s) = intr_disable s;
       s \<leftarrow> park cpu cur s;
       s \<leftarrow> check_waiting_list cpu s;
       s \<leftarrow> spinlock_lock (TaskListLock cpu) s;
       (nxt, s) \<leftarrow> get_next_task cpu s;
       let s = spinlock_unlock (TaskListLock cpu) s;
       let s = upd_task nxt (status_update (\<lambda>_. TASK_RUNNING)) s;
       s \<leftarrow> proc_activate nxt s;
       Some (upd_task nxt (cpu_id_update (\<lambda>_. cpu)) s) } }"

definition task_block :: "task_status \<Rightarrow> 'a kernel_state_scheme \<Rightarrow> 'a kernel_state_scheme option" where
  "task_block st s = do {
     let (intr_status, s) = intr_disable s;
     assert (preempt_count s (running_pid s) = 0);
     schedule (upd_task (running_pid s) (status_update (\<lambda>_. st)) s) }"

definition task_yield :: "'a kernel_state_scheme \<Rightarrow> 'a kernel_state_scheme option" where
  "task_yield s = schedule (snd (intr_disable s))"

text \<open>The deadline of \<^verbatim>\<open>task_msleep\<close> is a 32-bit number; the task yields while the test holds.\<close>

definition MS_TO_TICKS :: "u32 \<Rightarrow> u64" where "MS_TO_TICKS ms = ucast (ms * 1000) div 1000"

definition msleep_deadline :: "u32 \<Rightarrow> u64 \<Rightarrow> u32" where
  "msleep_deadline ms now = ucast (now + MS_TO_TICKS ms)"

definition msleep_waits :: "u32 \<Rightarrow> u64 \<Rightarrow> bool" where
  "msleep_waits deadline now \<longleftrightarrow> now - ucast deadline <s 0"

end
