(* ===== verification/SchedProps.thy ===== *)
theory SchedProps
  imports Scheduler IpcSystem
begin

text \<open>
  The scheduler keeps every task that can run: the invariant of a processor's run queue and waiting
  list, the walk over the waiting list, the choice of the next task, and time (virtual run times and the
  deadline of a sleep).
\<close>

subsection \<open>What waking a task leaves alone\<close>

text \<open>The part of a task structure that the scheduler does not write before the switch.\<close>

definition core :: "task_struct \<Rightarrow> task_struct" where
  "core t = t\<lparr>status := TASK_READY, recv_flag := 0, exited_child_list := []\<rparr>"

lemma core_eqD:
  assumes "core t = core u"
  shows "tpid t = tpid u" "cpu_id t = cpu_id u" "vrun_time t = vrun_time u" "priority t = priority u"
    "ppid t = ppid u" "sender_list t = sender_list u" "page_dir t = page_dir u"
  using arg_cong [OF assms, of tpid] arg_cong [OF assms, of cpu_id] arg_cong [OF assms, of vrun_time]
    arg_cong [OF assms, of priority] arg_cong [OF assms, of ppid] arg_cong [OF assms, of sender_list] arg_cong [OF assms, of page_dir]
  by (simp_all add: core_def)

lemma core_simps [simp]:
  "core (status_update f t) = core t" "core (recv_flag_update g t) = core t"
  "core (exited_child_list_update h t) = core t"
  by (simp_all add: core_def)

lemma weight_upd [simp]:
  "weight (upd_cpu c f s) x = weight s x" "weight (upd_task p g s) x = weight s x"
  by (rule weight_cong; simp)+

definition wake_frame :: "nat \<Rightarrow> pid set \<Rightarrow> 'a kernel_state_scheme \<Rightarrow> 'a kernel_state_scheme \<Rightarrow> bool" where
  "wake_frame cpu P s s' \<longleftrightarrow>
     locks s' = locks s \<and> preempt_count s' = preempt_count s \<and> running_pid s' = running_pid s \<and>
     beyond_weights s' = beyond_weights s \<and> intr_on s' = intr_on s \<and>
     (\<forall>q. core (tasks s' q) = core (tasks s q)) \<and> (\<forall>q. q \<notin> P \<longrightarrow> tasks s' q = tasks s q) \<and>
     (\<forall>c. c \<noteq> cpu \<longrightarrow> cpus s' c = cpus s c) \<and> idle_task (cpus s' cpu) = idle_task (cpus s cpu)"

lemma wake_frame_refl: "wake_frame cpu P s s"
  by (simp add: wake_frame_def)

lemma wake_frame_trans:
  "wake_frame cpu P s s' \<Longrightarrow> wake_frame cpu Q s' s'' \<Longrightarrow> wake_frame cpu (P \<union> Q) s s''"
  by (simp add: wake_frame_def)

lemma wake_frameD:
  assumes "wake_frame cpu P s s'"
  shows "task_exist q s' = task_exist q s" "tpid (tasks s' q) = tpid (tasks s q)"
    "cpu_id (tasks s' q) = cpu_id (tasks s q)" "vrun_time (tasks s' q) = vrun_time (tasks s q)"
    "priority (tasks s' q) = priority (tasks s q)" "weight s' w = weight s w" "lock_free l s' = lock_free l s"
    "ppid (tasks s' q) = ppid (tasks s q)" "page_dir (tasks s' q) = page_dir (tasks s q)"
proof -
  have c: "core (tasks s' q) = core (tasks s q)" for q using assms by (simp add: wake_frame_def)
  show "tpid (tasks s' q) = tpid (tasks s q)" "cpu_id (tasks s' q) = cpu_id (tasks s q)"
    "vrun_time (tasks s' q) = vrun_time (tasks s q)" "priority (tasks s' q) = priority (tasks s q)"
    "ppid (tasks s' q) = ppid (tasks s q)" "page_dir (tasks s' q) = page_dir (tasks s q)"
    by (rule core_eqD [OF c])+
  then show "task_exist q s' = task_exist q s" by (simp add: task_exist_def)
  show "weight s' w = weight s w" using assms by (intro weight_cong) (simp add: wake_frame_def)
  show "lock_free l s' = lock_free l s" using assms by (simp add: wake_frame_def lock_free_def)
qed

subsection \<open>The invariant of a processor\<close>

definition wake_ready :: "pid \<Rightarrow> 'a kernel_state_scheme \<Rightarrow> bool" where
  "wake_ready p s \<longleftrightarrow>
     (if status (tasks s p) = TASK_WAITING then exited_child_list (tasks s p) \<noteq> [] else ipc_ready p s)"

definition parked :: "task_status \<Rightarrow> bool" where
  "parked st \<longleftrightarrow> st = TASK_SENDING \<or> st = TASK_RECEIVING \<or> st = TASK_WAITING"

definition sched_ok :: "'a kernel_state_scheme \<Rightarrow> nat \<Rightarrow> u64 \<Rightarrow> bool" where
  "sched_ok s cpu b \<longleftrightarrow>
     cpu < NR_CPUS \<and> queue_ok s cpu b \<and> lock_free (TaskListLock cpu) s \<and>
     (\<forall>p. task_exist p s \<longrightarrow> tpid (tasks s p) = p \<and> lock_free (SendLock p) s \<and> lock_free (ChildListLock p) s) \<and>
     distinct (waiting_list (cpus s cpu)) \<and>
     set (waiting_list (cpus s cpu)) \<inter> set (task_list (cpus s cpu)) = {} \<and>
     (\<forall>p \<in> set (waiting_list (cpus s cpu)). task_exist p s \<and> cpu_id (tasks s p) = cpu \<and>
        in_window b (vrun_time (tasks s p)) \<and> parked (status (tasks s p))) \<and>
     (\<exists>idle. idle_task (cpus s cpu) = Some idle \<and> task_exist idle s \<and> cpu_id (tasks s idle) = cpu \<and>
        in_window b (vrun_time (tasks s idle)) \<and> idle \<notin> set (waiting_list (cpus s cpu)))"

lemma sched_okD:
  assumes "sched_ok s cpu b"
  shows "cpu < NR_CPUS" "queue_ok s cpu b" "lock_free (TaskListLock cpu) s"
    "task_exist p s \<Longrightarrow> tpid (tasks s p) = p" "task_exist p s \<Longrightarrow> lock_free (SendLock p) s"
    "task_exist p s \<Longrightarrow> lock_free (ChildListLock p) s"
    "distinct (waiting_list (cpus s cpu))" "set (waiting_list (cpus s cpu)) \<inter> set (task_list (cpus s cpu)) = {}"
    "p \<in> set (waiting_list (cpus s cpu)) \<Longrightarrow> task_exist p s"
    "p \<in> set (waiting_list (cpus s cpu)) \<Longrightarrow> cpu_id (tasks s p) = cpu"
    "p \<in> set (waiting_list (cpus s cpu)) \<Longrightarrow> in_window b (vrun_time (tasks s p))"
    "p \<in> set (waiting_list (cpus s cpu)) \<Longrightarrow> parked (status (tasks s p))"
  using assms by (auto simp: sched_ok_def)

lemma sched_ok_idle:
  assumes "sched_ok s cpu b"
  obtains idle where "idle_task (cpus s cpu) = Some idle" "task_exist idle s" "cpu_id (tasks s idle) = cpu"
    "in_window b (vrun_time (tasks s idle))" "idle \<notin> set (waiting_list (cpus s cpu))"
  using assms by (auto simp: sched_ok_def)

text \<open>What is left to show when only the lists of the processor and the written fields change.\<close>

lemma sched_ok_frame:
  assumes ok: "sched_ok s cpu b" and fr: "wake_frame cpu P s s'" and q: "queue_ok s' cpu b"
    and w: "distinct (waiting_list (cpus s' cpu))" "set (waiting_list (cpus s' cpu)) \<subseteq> set (waiting_list (cpus s cpu))"
    and t: "set (waiting_list (cpus s' cpu)) \<inter> set (task_list (cpus s' cpu)) = {}"
    and st: "\<And>p. p \<in> set (waiting_list (cpus s' cpu)) \<Longrightarrow> parked (status (tasks s' p))"
  shows "sched_ok s' cpu b"
proof -
  note f = wake_frameD [OF fr]
  obtain idle where i: "idle_task (cpus s cpu) = Some idle" "task_exist idle s" "cpu_id (tasks s idle) = cpu"
      "in_window b (vrun_time (tasks s idle))" "idle \<notin> set (waiting_list (cpus s cpu))"
    by (rule sched_ok_idle [OF ok])
  have "idle_task (cpus s' cpu) = Some idle" using fr i(1) by (simp add: wake_frame_def)
  then show ?thesis
    unfolding sched_ok_def f using sched_okD(1,3-) [OF ok] q w t st i by blast
qed

subsection \<open>Waking\<close>

lemma task_has_exited_child_eq:
  "task_exist p s \<Longrightarrow> lock_free (ChildListLock p) s \<Longrightarrow>
    task_has_exited_child p s = Some (exited_child_list (tasks s p) \<noteq> [], s)"
  by (simp add: task_has_exited_child_def pid_to_task_exist spinlock_lock_free Let_def)

lemma task_unblock_eq:
  assumes "task_exist p s" and "cpu_id (tasks s p) < NR_CPUS"
    and "lock_free (TaskListLock (cpu_id (tasks s p))) s" and "\<not> intr_on s"
  shows "task_unblock p s = task_list_insert (cpu_id (tasks s p)) p s"
proof -
  have e: "task_list_insert (cpu_id (tasks s p)) p s = None \<or>
     (\<exists>s'. task_list_insert (cpu_id (tasks s p)) p s = Some s' \<and> \<not> intr_on s')"
    using assms(4) by (auto simp: task_list_insert_def get_task_man_def upd_task_def upd_cpu_def Let_def)
  have "map_option (spinlock_unlock (TaskListLock (cpu_id (tasks s p))))
      (task_list_insert (cpu_id (tasks s p)) p (locked (TaskListLock (cpu_id (tasks s p))) s)) =
     task_list_insert (cpu_id (tasks s p)) p s"
    by (rule insert_locked [OF assms(3)])
  then have "task_unblock p s = map_option (\<lambda>s. snd (intr_set_status False s))
      (task_list_insert (cpu_id (tasks s p)) p s)"
    using assms
    by (simp add: task_unblock_def intr_disable_def pid_to_task_exist get_task_man_def spinlock_lock_free
        task_unblock_sub_def task_exist_locked map_option_case split: option.splits)
       (metis option.inject)
  then show ?thesis using e by (auto simp: intr_set_status_def intr_disable_def)
qed

lemma task_list_insert_frame:
  assumes "task_list_insert cpu p s = Some s'"
  shows "wake_frame cpu {p} s s'" "waiting_list (cpus s' cpu) = waiting_list (cpus s cpu)"
    "tasks s' p = tasks s p \<or> tasks s' p = tasks s p\<lparr>status := TASK_READY\<rparr>"
  using assms
  by (auto simp: task_list_insert_def get_task_man_def Let_def wake_frame_def upd_task_def upd_cpu_def
      split: if_splits)

text \<open>One task of the waiting list.\<close>

lemma check_waiting_spec:
  fixes s :: "'a kernel_state_scheme"
  assumes ok: "sched_ok s cpu b" and p: "p \<in> set (waiting_list (cpus s cpu))" and i: "\<not> intr_on s"
  obtains s' where "check_waiting cpu p s = Some s'" and "sched_ok s' cpu b" and "wake_frame cpu {p} s s'"
    and "waiting_list (cpus s' cpu) =
      (if wake_ready p s then remove1 p (waiting_list (cpus s cpu)) else waiting_list (cpus s cpu))"
    and "mset (task_list (cpus s' cpu)) =
      (if wake_ready p s then {#p#} else {#}) + mset (task_list (cpus s cpu))"
proof -
  note d = sched_okD [OF ok]
  have e: "task_exist p s" "cpu_id (tasks s p) = cpu" "in_window b (vrun_time (tasks s p))"
      "parked (status (tasks s p))" "tpid (tasks s p) = p"
    using d(9-12) [OF p] d(4) by auto
  define s1 where "s1 =
    (if recv_flag (tasks s p) = 1 \<and> ipc_ready p s then upd_task p (recv_flag_update (\<lambda>_. 0)) s else s)"
  have ipc: "task_ipc_check p s = Some (ipc_ready p s, s1)"
    unfolding s1_def by (rule task_ipc_check_eq) (use e(1,5) d(5) in auto)
  have s1: "wake_frame cpu {p} s s1" "cpus s1 = cpus s" "status (tasks s1 q) = status (tasks s q)"
      "exited_child_list (tasks s1 q) = exited_child_list (tasks s q)" "\<not> intr_on s1" for q
    using i by (auto simp: s1_def wake_frame_def upd_task_def)
  note f1 = wake_frameD [OF s1(1)]
  have q1: "queue_ok s1 cpu b"
    by (rule queue_ok_cong [OF d(2)]) (use s1 f1 d(2) in \<open>auto simp: wake_frame_def queue_ok_def Let_def\<close>)
  have ok1: "sched_ok s1 cpu b"
    by (rule sched_ok_frame [OF ok s1(1) q1]) (use d(7,8,12) in \<open>simp_all add: s1\<close>)
  have ch: "task_has_exited_child p s1 = Some (exited_child_list (tasks s p) \<noteq> [], s1)"
    using task_has_exited_child_eq [of p s1] f1 e(1) d(6) [of p] s1(4) by simp
  show thesis
  proof (cases "wake_ready p s")
    case False
    then have "check_waiting cpu p s = Some s1"
      using e(4,5) ipc ch s1 f1
      by (auto simp: check_waiting_def Let_def wake_ready_def parked_def)
    then show thesis using that [of s1] ok1 s1 False by simp
  next
    case True
    define s2 where "s2 = upd_cpu cpu (waiting_list_update (remove1 p)) s1"
    have s2: "wake_frame cpu {} s1 s2" "tasks s2 = tasks s1" "task_list (cpus s2 cpu) = task_list (cpus s cpu)"
        "waiting_list (cpus s2 cpu) = remove1 p (waiting_list (cpus s cpu))" "\<not> intr_on s2"
      using s1(2,5) by (auto simp: s2_def wake_frame_def upd_cpu_def)
    note f2 = wake_frameD [OF s2(1)]
    have q2: "queue_ok s2 cpu b"
      using q1 unfolding queue_ok_def Let_def f2 by (simp add: s2_def)
    have run: "check_waiting cpu p s = task_unblock p s2"
      using True e(4,5) ipc ch s1(1,3) f1
      by (auto simp: check_waiting_def Let_def wake_ready_def parked_def s2_def)
    also have "\<dots> = task_list_insert cpu p s2"
      using task_unblock_eq [of p s2] f2 f1 e d(1,3) s2(5) by simp
    finally have run: "check_waiting cpu p s = task_list_insert cpu p s2" .
    have nq: "p \<notin> set (task_list (cpus s2 cpu))" using p d(8) s2(3) by auto
    obtain g s' where s': "task_list_insert cpu p s2 = Some s'" "queue_ok s' cpu b"
        "mset (task_list (cpus s' cpu)) = add_mset p (mset (task_list (cpus s2 cpu)))"
      by (rule task_list_insert_ok [OF q2 d(1) _ _ nq]) (use f2 f1 e in auto)
    note f' = task_list_insert_frame [OF s'(1)]
    have fr: "wake_frame cpu {p} s s'"
      using wake_frame_trans [OF s1(1) wake_frame_trans [OF s2(1) f'(1)]] by simp
    have w: "waiting_list (cpus s' cpu) = remove1 p (waiting_list (cpus s cpu))" using f'(2) s2(4) by simp
    have same: "tasks s' q = tasks s q" if "q \<noteq> p" for q using fr that by (simp add: wake_frame_def)
    have tl: "set (task_list (cpus s' cpu)) = insert p (set (task_list (cpus s cpu)))"
      using arg_cong [OF s'(3), of set_mset] s2(3) by simp
    have "sched_ok s' cpu b"
    proof (rule sched_ok_frame [OF ok fr s'(2)])
      show "distinct (waiting_list (cpus s' cpu))" using d(7) w by (simp add: distinct_remove1)
      show "set (waiting_list (cpus s' cpu)) \<subseteq> set (waiting_list (cpus s cpu))"
        unfolding w by (rule set_remove1_subset)
      show "set (waiting_list (cpus s' cpu)) \<inter> set (task_list (cpus s' cpu)) = {}"
        using d(7,8) w tl by auto
      show "parked (status (tasks s' q))" if "q \<in> set (waiting_list (cpus s' cpu))" for q
        using that d(7) [THEN set_remove1_eq, of p] w same d(12) by auto
    qed
    then show thesis using that [of s'] run s' fr w s2(3) True by simp
  qed
qed

text \<open>Readiness of one task does not depend on the other tasks being woken.\<close>

lemma wake_ready_cong:
  assumes "wake_frame cpu P s s'" and "q \<notin> P"
  shows "wake_ready q s' = wake_ready q s"
proof -
  have "tasks s' q = tasks s q" using assms by (simp add: wake_frame_def)
  then show ?thesis using wake_frameD(1) [OF assms(1)] by (simp add: wake_ready_def ipc_ready_def)
qed

lemma check_fold:
  fixes s :: "'a kernel_state_scheme"
  assumes "sched_ok s cpu b" and "distinct xs" and "set xs \<subseteq> set (waiting_list (cpus s cpu))" and "\<not> intr_on s"
  shows "\<exists>s'. fold_option (check_waiting cpu) xs s = Some s' \<and> sched_ok s' cpu b \<and> wake_frame cpu (set xs) s s' \<and>
    waiting_list (cpus s' cpu) = filter (\<lambda>p. \<not> (p \<in> set xs \<and> wake_ready p s)) (waiting_list (cpus s cpu)) \<and>
    mset (task_list (cpus s' cpu)) = mset (filter (\<lambda>p. wake_ready p s) xs) + mset (task_list (cpus s cpu))"
  using assms
proof (induction xs arbitrary: s)
  case Nil
  then show ?case by (simp add: wake_frame_refl)
next
  case (Cons p xs)
  obtain s1 where s1: "check_waiting cpu p s = Some s1" "sched_ok s1 cpu b" "wake_frame cpu {p} s s1"
      "waiting_list (cpus s1 cpu) =
        (if wake_ready p s then remove1 p (waiting_list (cpus s cpu)) else waiting_list (cpus s cpu))"
      "mset (task_list (cpus s1 cpu)) =
        (if wake_ready p s then {#p#} else {#}) + mset (task_list (cpus s cpu))"
    by (rule check_waiting_spec [OF Cons.prems(1) _ Cons.prems(4), of p]) (use Cons.prems(3) in auto)
  note dw = sched_okD(7) [OF Cons.prems(1)]
  have sub: "set xs \<subseteq> set (waiting_list (cpus s1 cpu))"
    using Cons.prems(2,3) dw s1(4) by auto
  have i1: "\<not> intr_on s1" using s1(3) Cons.prems(4) by (simp add: wake_frame_def)
  have r: "wake_ready q s1 = wake_ready q s" if "q \<in> set xs" for q
    by (rule wake_ready_cong [OF s1(3)]) (use that Cons.prems(2) in auto)
  have "distinct xs" using Cons.prems(2) by simp
  then obtain s' where s': "fold_option (check_waiting cpu) xs s1 = Some s'" "sched_ok s' cpu b"
      "wake_frame cpu (set xs) s1 s'"
      "waiting_list (cpus s' cpu) = filter (\<lambda>p. \<not> (p \<in> set xs \<and> wake_ready p s1)) (waiting_list (cpus s1 cpu))"
      "mset (task_list (cpus s' cpu)) = mset (filter (\<lambda>p. wake_ready p s1) xs) + mset (task_list (cpus s1 cpu))"
    using Cons.IH [OF s1(2) _ sub i1] by blast
  have "waiting_list (cpus s' cpu) =
      filter (\<lambda>q. \<not> (q \<in> set (p # xs) \<and> wake_ready q s)) (waiting_list (cpus s cpu))"
  proof -
    have "waiting_list (cpus s1 cpu) = filter (\<lambda>q. \<not> (q = p \<and> wake_ready p s)) (waiting_list (cpus s cpu))"
      using s1(4) dw by (auto simp: distinct_remove1_removeAll removeAll_filter_not_eq intro!: filter_cong)
    then show ?thesis unfolding s'(4) using r by (auto simp: filter_filter intro!: filter_cong)
  qed
  moreover have "filter (\<lambda>p. wake_ready p s1) xs = filter (\<lambda>p. wake_ready p s) xs"
    using r by (auto intro: filter_cong)
  ultimately show ?case
    using s1 s' wake_frame_trans [OF s1(3) s'(3)] by (intro exI [of _ s']) simp
qed

lemma check_waiting_list_spec:
  fixes s :: "'a kernel_state_scheme"
  assumes "sched_ok s cpu b" and "\<not> intr_on s"
  obtains s' where "check_waiting_list cpu s = Some s'" and "sched_ok s' cpu b"
    and "wake_frame cpu (set (waiting_list (cpus s cpu))) s s'"
    and "waiting_list (cpus s' cpu) = filter (\<lambda>p. \<not> wake_ready p s) (waiting_list (cpus s cpu))"
    and "mset (task_list (cpus s' cpu)) =
      mset (filter (\<lambda>p. wake_ready p s) (waiting_list (cpus s cpu))) + mset (task_list (cpus s cpu))"
proof -
  obtain s' where s': "fold_option (check_waiting cpu) (waiting_list (cpus s cpu)) s = Some s'" "sched_ok s' cpu b"
      "wake_frame cpu (set (waiting_list (cpus s cpu))) s s'"
      "waiting_list (cpus s' cpu) =
        filter (\<lambda>p. \<not> (p \<in> set (waiting_list (cpus s cpu)) \<and> wake_ready p s)) (waiting_list (cpus s cpu))"
      "mset (task_list (cpus s' cpu)) =
        mset (filter (\<lambda>p. wake_ready p s) (waiting_list (cpus s cpu))) + mset (task_list (cpus s cpu))"
    using check_fold [OF assms(1) sched_okD(7) [OF assms(1)] order_refl assms(2)] by blast
  have "waiting_list (cpus s' cpu) = filter (\<lambda>p. \<not> wake_ready p s) (waiting_list (cpus s cpu))"
    unfolding s'(4) by (auto intro: filter_cong)
  then show thesis using that [of s'] s' by (simp add: check_waiting_list_def)
qed

subsection \<open>Choosing the next task\<close>

lemma queue_ok_pop:
  assumes "queue_ok s cpu b" and "task_list (cpus s cpu) = p # ps"
    and "s' = upd_cpu cpu (\<lambda>tm. tm\<lparr>running_tasks := running_tasks tm - 1,
       total_weight := total_weight tm - weight s (priority (tasks s p))\<rparr>)
       (upd_cpu cpu (task_list_update (\<lambda>_. ps)) s)"
  shows "queue_ok s' cpu b"
proof -
  have w: "weight s' x = weight s x" for x by (rule weight_cong) (simp add: assms(3))
  have e: "task_exist q s' = task_exist q s" for q by (simp add: assms(3) task_exist_def)
  show ?thesis using assms(1,2) unfolding queue_ok_def Let_def w e by (simp add: assms(3) vsorted_def)
qed

lemma get_next_task_spec:
  fixes s :: "'a kernel_state_scheme"
  assumes ok: "sched_ok s cpu b"
  obtains nxt s' where "get_next_task cpu s = Some (nxt, s')" and "sched_ok s' cpu b"
    and "wake_frame cpu {nxt} s s'" and "task_exist nxt s'" and "in_window b (vrun_time (tasks s' nxt))"
    and "waiting_list (cpus s' cpu) = waiting_list (cpus s cpu)"
    and "nxt \<notin> set (task_list (cpus s' cpu))" "nxt \<notin> set (waiting_list (cpus s' cpu))"
    and "if task_list (cpus s cpu) = [] then Some nxt = idle_task (cpus s cpu) \<and> task_list (cpus s' cpu) = []
      else task_list (cpus s cpu) = nxt # task_list (cpus s' cpu)"
    and "\<forall>q \<in> set (task_list (cpus s' cpu)). vdist b (vrun_time (tasks s nxt)) \<le> vdist b (vrun_time (tasks s q))"
proof -
  note d = sched_okD [OF ok]
  show thesis
  proof (cases "task_list (cpus s cpu)")
    case (Cons p ps)
    define s' where "s' = upd_cpu cpu (\<lambda>tm. tm\<lparr>running_tasks := running_tasks tm - 1,
       total_weight := total_weight tm - weight s (priority (tasks s p))\<rparr>)
       (upd_cpu cpu (task_list_update (\<lambda>_. ps)) s)"
    have run: "get_next_task cpu s = Some (p, s')"
      using Cons by (simp add: get_next_task_def s'_def)
    have fr: "wake_frame cpu {p} s s'" by (simp add: wake_frame_def s'_def upd_cpu_def)
    have q': "queue_ok s' cpu b" by (rule queue_ok_pop [OF d(2) Cons s'_def])
    have l: "task_list (cpus s' cpu) = ps" "waiting_list (cpus s' cpu) = waiting_list (cpus s cpu)"
        "tasks s' = tasks s" by (simp_all add: s'_def)
    have ok': "sched_ok s' cpu b"
      by (rule sched_ok_frame [OF ok fr q']) (use d(7,8,12) Cons in \<open>auto simp: l\<close>)
    have p: "p \<notin> set ps" "task_exist p s" "in_window b (vrun_time (tasks s p))"
        "\<forall>q \<in> set ps. vdist b (vrun_time (tasks s p)) \<le> vdist b (vrun_time (tasks s q))"
        "p \<notin> set (waiting_list (cpus s cpu))"
      using d(2,8) Cons by (auto simp: queue_ok_def Let_def vsorted_def)
    show thesis
      by (rule that [OF run ok' fr]) (use p Cons in \<open>simp_all add: l wake_frameD [OF fr]\<close>)
  next
    case Nil
    obtain idle where i: "idle_task (cpus s cpu) = Some idle" "task_exist idle s" "cpu_id (tasks s idle) = cpu"
        "in_window b (vrun_time (tasks s idle))" "idle \<notin> set (waiting_list (cpus s cpu))"
      by (rule sched_ok_idle [OF ok])
    have q: "running_tasks (cpus s cpu) = 0" "total_weight (cpus s cpu) = 0"
      using d(2) Nil by (auto simp: queue_ok_def Let_def)
    define s1 where "s1 = upd_task idle (status_update (\<lambda>_. TASK_READY)) (upd_cpu cpu (\<lambda>tm. tm\<lparr>
         task_list := [idle], running_tasks := running_tasks tm + 1,
         total_weight := total_weight tm + weight s (priority (tasks s idle))\<rparr>) s)"
    have ins: "task_unblock_sub (tpid (tasks s idle)) s = Some s1"
      using Nil i d(1,4) by (simp add: task_unblock_sub_def pid_to_task_exist task_list_insert_def
          get_task_man_def Let_def s1_def upd_cpu_def)
    define s' where "s' = upd_cpu cpu (\<lambda>tm. tm\<lparr>running_tasks := running_tasks tm - 1,
       total_weight := total_weight tm - weight s (priority (tasks s idle))\<rparr>)
       (upd_cpu cpu (task_list_update (remove1 idle)) s1)"
    have run: "get_next_task cpu s = Some (idle, s')"
      using Nil i ins by (simp add: get_next_task_def s'_def) (simp add: s1_def)
    have fr: "wake_frame cpu {idle} s s'"
      by (simp add: wake_frame_def s'_def s1_def upd_cpu_def upd_task_def)
    have l: "task_list (cpus s' cpu) = []" "waiting_list (cpus s' cpu) = waiting_list (cpus s cpu)"
        "running_tasks (cpus s' cpu) = 0" "total_weight (cpus s' cpu) = 0"
      using q by (simp_all add: s'_def s1_def)
    have q': "queue_ok s' cpu b" by (simp add: queue_ok_def l vsorted_def)
    have same: "tasks s' q = tasks s q" if "q \<noteq> idle" for q using that by (simp add: s'_def s1_def)
    have ok': "sched_ok s' cpu b"
    proof (rule sched_ok_frame [OF ok fr q'])
      fix p assume "p \<in> set (waiting_list (cpus s' cpu))"
      then show "parked (status (tasks s' p))" using l(2) i(5) same [of p] d(12) [of p] by (cases "p = idle") auto
    qed (use d(7) l in simp_all)
    show thesis
      by (rule that [OF run ok' fr]) (use i Nil in \<open>simp_all add: l wake_frameD [OF fr]\<close>)
  qed
qed

subsection \<open>Switching\<close>

definition runner_ok :: "'a kernel_state_scheme \<Rightarrow> nat \<Rightarrow> u64 \<Rightarrow> bool" where
  "runner_ok s cpu b \<longleftrightarrow>
     task_exist (running_pid s) s \<and> cpu_id (running_task s) = cpu \<and> in_window b (vrun_time (running_task s)) \<and>
     running_pid s \<notin> set (task_list (cpus s cpu)) \<and> running_pid s \<notin> set (waiting_list (cpus s cpu))"

definition may_park :: "'a kernel_state_scheme \<Rightarrow> nat \<Rightarrow> bool" where
  "may_park s cpu \<longleftrightarrow>
     (if parked (status (running_task s)) then idle_task (cpus s cpu) \<noteq> Some (running_pid s)
      else if status (running_task s) = TASK_DIED then task_exist (ppid (running_task s)) s else True)"

definition blocks :: "'a kernel_state_scheme \<Rightarrow> pid list" where
  "blocks s = (if parked (status (running_task s)) then [running_pid s] else [])"

definition yields :: "'a kernel_state_scheme \<Rightarrow> pid list" where
  "yields s = (if status (running_task s) = TASK_RUNNING then [running_pid s] else [])"

lemma parked_simps [simp]:
  "parked TASK_SENDING" "parked TASK_RECEIVING" "parked TASK_WAITING" "\<not> parked TASK_RUNNING"
  "\<not> parked TASK_DIED" "\<not> parked TASK_READY" "\<not> parked TASK_BLOCKED" "\<not> parked STATUS_ZERO"
  by (simp_all add: parked_def)

lemma inform_exit_eq:
  assumes "task_exist p s" and "task_exist (ppid (tasks s p)) s" and "lock_free (ChildListLock (ppid (tasks s p))) s"
  shows "inform_exit p s = Some (upd_task (ppid (tasks s p)) (exited_child_list_update (\<lambda>l. l @ [p])) s)"
  using assms by (simp add: inform_exit_def pid_to_task_exist spinlock_lock_free Let_def)

lemma park_spec:
  fixes s :: "'a kernel_state_scheme"
  assumes ok: "sched_ok s cpu b" and r: "runner_ok s cpu b" and m: "may_park s cpu"
  obtains s1 P where "park cpu (running_pid s) s = Some s1" and "sched_ok s1 cpu b" and "wake_frame cpu P s s1"
    and "waiting_list (cpus s1 cpu) = waiting_list (cpus s cpu) @ blocks s"
    and "mset (task_list (cpus s1 cpu)) = mset (yields s) + mset (task_list (cpus s cpu))"
proof -
  define p where "p = running_pid s"
  note d = sched_okD [OF ok]
  have p: "task_exist p s" "cpu_id (tasks s p) = cpu" "in_window b (vrun_time (tasks s p))"
      "p \<notin> set (task_list (cpus s cpu))" "p \<notin> set (waiting_list (cpus s cpu))"
    using r by (simp_all add: runner_ok_def p_def running_task_def)
  have rt: "running_task s = tasks s p" by (simp add: running_task_def p_def)
  consider (wait) "parked (status (tasks s p))" | (run) "status (tasks s p) = TASK_RUNNING"
    | (died) "status (tasks s p) = TASK_DIED" | (other) "status (tasks s p) \<in> {STATUS_ZERO, TASK_READY, TASK_BLOCKED}"
    unfolding parked_def by (cases "status (tasks s p)") auto
  then show thesis
  proof cases
    case wait
    define s1 where "s1 = upd_cpu cpu (waiting_list_update (\<lambda>l. l @ [p])) s"
    have run: "park cpu p s = Some s1" using wait by (auto simp: park_def s1_def parked_def)
    have fr: "wake_frame cpu {} s s1" by (simp add: wake_frame_def s1_def upd_cpu_def)
    have t: "tasks s1 = tasks s" "task_list (cpus s1 cpu) = task_list (cpus s cpu)"
        "waiting_list (cpus s1 cpu) = waiting_list (cpus s cpu) @ [p]" "idle_task (cpus s1 cpu) = idle_task (cpus s cpu)"
      by (simp_all add: s1_def)
    note f = wake_frameD [OF fr]
    have "queue_ok s1 cpu b" using d(2) unfolding queue_ok_def Let_def f by (simp add: s1_def)
    moreover have "idle_task (cpus s cpu) \<noteq> Some p" using m wait by (simp add: may_park_def rt p_def)
    ultimately have "sched_ok s1 cpu b"
      using ok p wait unfolding sched_ok_def f t by auto
    moreover have "blocks s = [p]" "yields s = []"
      using wait by (auto simp: blocks_def yields_def rt p_def)
    ultimately show thesis using that [OF run [unfolded p_def] _ fr] t by simp
  next
    case run
    obtain g s1 where s1: "task_list_insert cpu p s = Some s1" "queue_ok s1 cpu b"
        "mset (task_list (cpus s1 cpu)) = add_mset p (mset (task_list (cpus s cpu)))"
      by (rule task_list_insert_ok [OF d(2,1) p(1,3,4)])
    note f = task_list_insert_frame [OF s1(1)]
    have tl: "set (task_list (cpus s1 cpu)) = insert p (set (task_list (cpus s cpu)))"
      using arg_cong [OF s1(3), of set_mset] by simp
    have "sched_ok s1 cpu b"
    proof (rule sched_ok_frame [OF ok f(1) s1(2)])
      show "parked (status (tasks s1 q))" if "q \<in> set (waiting_list (cpus s1 cpu))" for q
      proof -
        have "q \<in> set (waiting_list (cpus s cpu))" using that f(2) by simp
        moreover from this have "tasks s1 q = tasks s q" using f(1) p(5) by (auto simp: wake_frame_def)
        ultimately show ?thesis using d(12) by simp
      qed
    qed (use d(7,8) f(2) p(5) tl in auto)
    moreover have "park cpu p s = Some s1"
      using run d(3) insert_locked [OF d(3), of cpu p] s1(1)
      by (auto simp: park_def spinlock_lock_free map_option_case split: option.splits)
    ultimately show thesis using that [of s1 "{p}"] f run s1(3) by (simp add: blocks_def yields_def rt p_def [symmetric])
  next
    case died
    define s1 where "s1 = upd_task (ppid (tasks s p)) (exited_child_list_update (\<lambda>l. l @ [p])) s"
    have e: "task_exist (ppid (tasks s p)) s" using m died by (simp add: may_park_def rt)
    have "park cpu p s = Some s1"
      using died inform_exit_eq [OF p(1) e d(6) [OF e]] d(4) [OF p(1)] by (simp add: park_def s1_def)
    moreover have fr: "wake_frame cpu {ppid (tasks s p)} s s1"
      by (simp add: wake_frame_def s1_def upd_task_def)
    moreover have "sched_ok s1 cpu b"
    proof (rule sched_ok_frame [OF ok fr])
      show "queue_ok s1 cpu b"
        by (rule queue_ok_cong [OF d(2)])
           (use fr wake_frameD [OF fr] d(2) in \<open>auto simp: wake_frame_def queue_ok_def Let_def s1_def\<close>)
    qed (use d(7,8,12) in \<open>auto simp: s1_def\<close>)
    ultimately show thesis using that [of s1] died by (simp add: blocks_def yields_def rt p_def [symmetric] s1_def)
  next
    case other
    then have "park cpu p s = Some s" by (auto simp: park_def)
    moreover have "blocks s = []" "yields s = []" using other by (auto simp: blocks_def yields_def rt p_def)
    ultimately show thesis using that [of s "{}"] ok wake_frame_refl [of cpu "{}" s] by (simp add: p_def)
  qed
qed

lemma sched_ok_switch:
  assumes ok: "sched_ok s cpu b" and nw: "nxt \<notin> set (waiting_list (cpus s cpu))"
    and s': "cpus s' = cpus s" "locks s' = locks s" "beyond_weights s' = beyond_weights s"
    and t: "tasks s' = (tasks s)(nxt := (tasks s nxt)\<lparr>status := TASK_RUNNING, cpu_id := cpu\<rparr>)"
  shows "sched_ok s' cpu b"
proof -
  note d = sched_okD [OF ok]
  have e: "task_exist q s' = task_exist q s" for q by (simp add: task_exist_def t)
  have l: "lock_free k s' = lock_free k s" for k by (simp add: lock_free_def s')
  have f: "tpid (tasks s' q) = tpid (tasks s q)" "vrun_time (tasks s' q) = vrun_time (tasks s q)"
    "priority (tasks s' q) = priority (tasks s q)" for q by (simp_all add: t)
  have "queue_ok s' cpu b"
    by (rule queue_ok_cong [OF d(2)]) (use s' e f d(2) in \<open>auto simp: queue_ok_def Let_def\<close>)
  moreover obtain idle where i: "idle_task (cpus s cpu) = Some idle" "task_exist idle s" "cpu_id (tasks s idle) = cpu"
      "in_window b (vrun_time (tasks s idle))" "idle \<notin> set (waiting_list (cpus s cpu))"
    by (rule sched_ok_idle [OF ok])
  moreover have "cpu_id (tasks s' idle) = cpu" using i(3) by (simp add: t)
  moreover have "tasks s' q = tasks s q" if "q \<in> set (waiting_list (cpus s cpu))" for q
    using that nw by (auto simp: t)
  ultimately show ?thesis
    unfolding sched_ok_def e l f s'(1) using d by auto
qed

lemma get_next_task_locked:
  assumes "get_next_task cpu s = Some (nxt, s')"
  shows "get_next_task cpu (locked l s) = Some (nxt, locked l s')"
proof -
  have w: "weight (locked l t) x = weight t x" for t x by (rule weight_cong) simp
  have c: "upd_cpu k f (locked l t) = locked l (upd_cpu k f t)" "upd_task p g (locked l t) = locked l (upd_task p g t)"
    for k f p g and t :: "'a kernel_state_scheme"
    by (simp_all add: upd_cpu_def upd_task_def locked_def bump_preempt_def)
  have i: "task_list_insert k p (locked l t) = map_option (locked l) (task_list_insert k p t)"
    for k p and t :: "'a kernel_state_scheme"
    by (simp add: task_list_insert_def get_task_man_def Let_def c w)
  show ?thesis using assms
    by (auto simp: get_next_task_def task_unblock_sub_def pid_to_task_def w c i
        split: list.splits option.splits if_splits elim!: bind_eq_SomeE)
qed

lemma proc_activate_eq:
  assumes "cpu_id (running_task s) < NR_CPUS"
  obtains c r where "proc_activate p s = Some (s\<lparr>cr3 := c, tss_rsp0 := r, running_pid := p\<rparr>)"
proof (cases "page_dir (tasks s p) = NULL")
  case True
  have "proc_activate p s = Some (s\<lparr>cr3 := 0x510000, tss_rsp0 := tss_rsp0 s, running_pid := p\<rparr>)"
    using True by (simp add: proc_activate_def page_table_activate_def set_page_table_def)
  then show thesis by (rule that)
next
  case False
  then show thesis using assms
    by (intro that) (simp add: proc_activate_def page_table_activate_def set_page_table_def update_tss_rsp0_def
       running_task_def Let_def)
qed

text \<open>C2: Scheduling: \<^verbatim>\<open>schedule\<close> never faults, keeps the invariant of the processor, and neither loses nor
  duplicates a task. The tasks of the waiting list that are ready (a sender whose message was taken, a
  receiver that has a message from whom it waits for, a parent with an exited child) and only those move
  to the run queue, and the others keep their order; a running task goes back to the queue, a blocking
  one to the end of the waiting list. The task that runs next is one with the smallest virtual run time
  of all that can run, or the idle task when there is none; other processors are not touched.\<close>

theorem schedule_correct:
  fixes s :: "'a kernel_state_scheme"
  assumes ok: "sched_ok s cpu b" and r: "runner_ok s cpu b" and m: "may_park s cpu"
    and pc: "preempt_count s (running_pid s) = 0"
  shows "\<exists>s1 s' :: 'a kernel_state_scheme. park cpu (running_pid s) (snd (intr_disable s)) = Some s1 \<and>
    schedule s = Some s' \<and> sched_ok s' cpu b \<and> runner_ok s' cpu b \<and> status (running_task s') = TASK_RUNNING \<and>
    waiting_list (cpus s' cpu) =
      filter (\<lambda>p. \<not> wake_ready p s1) (waiting_list (cpus s cpu) @ blocks s) \<and>
    (let runnable = mset (yields s) + mset (task_list (cpus s cpu)) +
         mset (filter (\<lambda>p. wake_ready p s1) (waiting_list (cpus s cpu) @ blocks s))
     in if runnable = {#}
        then Some (running_pid s') = idle_task (cpus s cpu) \<and> task_list (cpus s' cpu) = []
        else runnable = add_mset (running_pid s') (mset (task_list (cpus s' cpu)))) \<and>
    (\<forall>q \<in> set (task_list (cpus s' cpu)).
       vdist b (vrun_time (running_task s')) \<le> vdist b (vrun_time (tasks s' q))) \<and>
    (\<forall>c. c \<noteq> cpu \<longrightarrow> cpus s' c = cpus s c)"
proof -
  define s0 where "s0 = snd (intr_disable s)"
  have s0: "s0 = s\<lparr>intr_on := False\<rparr>" by (cases s) (simp add: s0_def intr_disable_def)
  have intr0: "intr_disable s = (intr_on s, s0)" by (simp add: s0_def intr_disable_def)
  have f0: "tasks s0 = tasks s" "cpus s0 = cpus s" "locks s0 = locks s" "beyond_weights s0 = beyond_weights s"
      "running_pid s0 = running_pid s" "\<not> intr_on s0"
    by (simp_all add: s0)
  have rt: "running_task s0 = running_task s" "task_exist q s0 = task_exist q s" "lock_free l s0 = lock_free l s"
    for q l
    by (simp_all add: running_task_def task_exist_def lock_free_def f0)
  have w0: "weight s0 w = weight s w" for w by (rule weight_cong) (rule f0)
  have ok0: "sched_ok s0 cpu b" "runner_ok s0 cpu b" "may_park s0 cpu"
    using ok r m by (simp_all add: sched_ok_def runner_ok_def may_park_def queue_ok_def Let_def f0 rt w0)
  have by0: "blocks s0 = blocks s" "yields s0 = yields s" by (simp_all add: blocks_def yields_def rt f0)
  obtain s1 P where s1: "park cpu (running_pid s0) s0 = Some s1" "sched_ok s1 cpu b" "wake_frame cpu P s0 s1"
      "waiting_list (cpus s1 cpu) = waiting_list (cpus s0 cpu) @ blocks s0"
      "mset (task_list (cpus s1 cpu)) = mset (yields s0) + mset (task_list (cpus s0 cpu))"
    by (rule park_spec [OF ok0])
  have i1: "\<not> intr_on s1" using s1(3) f0 by (simp add: wake_frame_def)
  obtain s2 where s2: "check_waiting_list cpu s1 = Some s2" "sched_ok s2 cpu b"
      "wake_frame cpu (set (waiting_list (cpus s1 cpu))) s1 s2"
      "waiting_list (cpus s2 cpu) = filter (\<lambda>p. \<not> wake_ready p s1) (waiting_list (cpus s1 cpu))"
      "mset (task_list (cpus s2 cpu)) =
        mset (filter (\<lambda>p. wake_ready p s1) (waiting_list (cpus s1 cpu))) + mset (task_list (cpus s1 cpu))"
    by (rule check_waiting_list_spec [OF s1(2) i1])
  obtain nxt s3 where s3: "get_next_task cpu s2 = Some (nxt, s3)" "sched_ok s3 cpu b" "wake_frame cpu {nxt} s2 s3"
      "task_exist nxt s3" "in_window b (vrun_time (tasks s3 nxt))"
      "waiting_list (cpus s3 cpu) = waiting_list (cpus s2 cpu)"
      "nxt \<notin> set (task_list (cpus s3 cpu))" "nxt \<notin> set (waiting_list (cpus s3 cpu))"
      "if task_list (cpus s2 cpu) = [] then Some nxt = idle_task (cpus s2 cpu) \<and> task_list (cpus s3 cpu) = []
        else task_list (cpus s2 cpu) = nxt # task_list (cpus s3 cpu)"
      "\<forall>q \<in> set (task_list (cpus s3 cpu)). vdist b (vrun_time (tasks s2 nxt)) \<le> vdist b (vrun_time (tasks s2 q))"
    by (rule get_next_task_spec [OF s2(2)])
  note fr = wake_frame_trans [OF s1(3) wake_frame_trans [OF s2(3) s3(3)]]
  note d = sched_okD [OF ok]
  have cpu0: "cpu_id (running_task s) = cpu" using r by (simp add: runner_ok_def)
  have lk: "lock_free (TaskListLock cpu) s2" "lock_free (TaskListLock cpu) s3"
    using sched_okD(3) [OF s2(2)] sched_okD(3) [OF s3(2)] .
  define s4 where "s4 = upd_task nxt (status_update (\<lambda>_. TASK_RUNNING)) s3"
  have c4: "cpu_id (running_task s4) = cpu"
    using wake_frameD(3) [OF fr] cpu0 f0 fr by (auto simp: s4_def running_task_def wake_frame_def)
  obtain c t where s5: "proc_activate nxt s4 = Some (s4\<lparr>cr3 := c, tss_rsp0 := t, running_pid := nxt\<rparr>)"
    by (rule proc_activate_eq [of s4 nxt]) (use c4 d(1) in simp)
  define s' where "s' = upd_task nxt (cpu_id_update (\<lambda>_. cpu)) (s4\<lparr>cr3 := c, tss_rsp0 := t, running_pid := nxt\<rparr>)"
  have run: "schedule s = Some s'"
    using pc cpu0 d(1) s1(1) s2(1) s5 spinlock_lock_free [OF lk(1)] get_next_task_locked [OF s3(1)] lk
      spinlock_unlock_locked [OF lk(2)]
    by (simp add: schedule_def get_task_man_def intr0 Let_def split_beta s'_def s4_def f0)
  have s': "cpus s' = cpus s3" "locks s' = locks s3" "beyond_weights s' = beyond_weights s3" "running_pid s' = nxt"
      "tasks s' = (tasks s3)(nxt := (tasks s3 nxt)\<lparr>status := TASK_RUNNING, cpu_id := cpu\<rparr>)"
    by (simp_all add: s'_def s4_def upd_task_def)
  have "sched_ok s' cpu b" by (rule sched_ok_switch [OF s3(2,8) s'(1-3,5)])
  moreover have "runner_ok s' cpu b"
    using s3(4,5,7,8) by (auto simp: runner_ok_def running_task_def s' task_exist_def split: if_splits)
  moreover have "vrun_time (tasks s' q) = vrun_time (tasks s2 q)" for q
    using wake_frameD(4) [OF s3(3)] by (simp add: s'(5))
  moreover have "idle_task (cpus s2 cpu) = idle_task (cpus s cpu)"
    using wake_frame_trans [OF s1(3) s2(3)] f0 by (simp add: wake_frame_def)
  moreover have "\<forall>c. c \<noteq> cpu \<longrightarrow> cpus s' c = cpus s c" using fr f0 s'(1) by (simp add: wake_frame_def)
  moreover have "mset (yields s) + mset (task_list (cpus s cpu)) +
      mset (filter (\<lambda>p. wake_ready p s1) (waiting_list (cpus s cpu) @ blocks s)) = mset (task_list (cpus s2 cpu))"
    using s2(5) s1(4,5) by (simp add: by0 f0 ac_simps)
  ultimately show ?thesis
    using run s1(1) s2(4) s3 s' s1(4)
    by - (rule exI [of _ s1], rule exI [of _ s'],
      simp add: s0_def [symmetric] f0 by0 Let_def running_task_def wake_frameD(4) [OF s3(3)] split: if_splits)
qed

definition example_sched :: kernel_state where
  "example_sched = example_kernel\<lparr>
     tasks := (\<lambda>p. if 1 \<le> p \<and> p \<le> 4 then example_main\<lparr>tpid := p, vrun_time := word_of_int p,
         status := (if p = 2 then TASK_RUNNING else if p = 4 then TASK_WAITING else TASK_READY)\<rparr>
       else zero_task\<lparr>tpid := PID_NO_TASK\<rparr>),
     cpus := (\<lambda>_. example_man\<lparr>task_list := [3], waiting_list := [4], running_tasks := 1, total_weight := 1024,
       idle_task := Some 1\<rparr>),
     running_pid := 2, preempt_count := (\<lambda>_. 0)\<rparr>"

lemma example_sched_tasks: "task_exist p example_sched \<longleftrightarrow> 1 \<le> p \<and> p \<le> 4"
  by (auto simp: task_exist_def example_sched_def example_main_def pid_defs)

lemma example_sched_ok: "sched_ok example_sched 0 0" "runner_ok example_sched 0 0" "may_park example_sched 0"
proof -
  have l: "lock_free l example_sched" for l
    using example_kernel_fields(1) by (simp add: lock_free_def example_sched_def)
  have w: "in_window 0 1" "in_window 0 2" "in_window 0 3" "in_window 0 4" by (simp_all add: in_window_def vdist_def)
  have "queue_ok example_sched 0 0"
    unfolding queue_ok_def Let_def example_sched_tasks
    by (simp add: example_sched_def example_main_def example_man_def vsorted_def w weight_def
        task_prio_to_weight_def DEFAULT_PRIORITY_def NICE_TO_PRIO_def)
  then show "sched_ok example_sched 0 0"
    unfolding sched_ok_def example_sched_tasks using l
    by (auto simp: example_sched_def example_main_def example_man_def w NR_CPUS_def zero_task_def)
  show "runner_ok example_sched 0 0"
    unfolding runner_ok_def example_sched_tasks
    by (simp add: example_sched_def example_main_def example_man_def w running_task_def zero_task_def)
  show "may_park example_sched 0"
    by (simp add: may_park_def running_task_def example_sched_def example_main_def)
qed

lemma schedule_correct_witness:
  "\<exists>s'. schedule example_sched = Some s' \<and> status (running_task s') = TASK_RUNNING \<and> sched_ok s' 0 0"
proof -
  have "preempt_count example_sched (running_pid example_sched) = 0" by (simp add: example_sched_def)
  from schedule_correct [OF example_sched_ok this] show ?thesis by blast
qed

subsection \<open>Time\<close>

lemma vdist_inj [simp]: "vdist b x = vdist b y \<longleftrightarrow> x = y"
  by (simp add: vdist_def flip: word_unat_eq_iff)

lemma MAX_VRUNTIME_window:
  assumes "in_window b x" and "in_window b y"
  shows "MAX_VRUNTIME x y = (if vdist b y < vdist b x then x else y)"
proof -
  have "0 <s x - y \<longleftrightarrow> y - x <s 0" if "x \<noteq> y"
  proof -
    have "unat (x - y) \<noteq> 0" using that by (simp add: unat_eq_0)
    moreover have "\<not> (x - y <s 0 \<and> y - x <s 0)" "x - y <s 0 \<or> y - x <s 0"
      using that sless_window [OF assms] sless_window [OF assms(2,1)] vdist_inj [of b x y] by linarith+
    moreover have "0 <s x - y \<longleftrightarrow> \<not> x - y <s 0"
      using that by (metis eq_iff_diff_eq_0 signed.less_irrefl signed.linorder_cases signed.not_less_iff_gr_or_eq)
    ultimately show ?thesis by blast
  qed
  then show ?thesis using sless_window [OF assms(2,1)] by (auto simp: MAX_VRUNTIME_def)
qed

text \<open>The tick: \<^verbatim>\<open>task_update\<close> charges one tick to the running task and scales it by its weight; the
  virtual run time of the task and the smallest one of the processor both become the larger of the two,
  so the latter never runs backwards, and no task can hoard time by sleeping.\<close>

theorem task_update_monotone:
  fixes s :: "'a kernel_state_scheme"
  defines "cpu \<equiv> cpu_id (running_task s)"
  defines "v \<equiv> (run_time (running_task s) + 1) * weight s DEFAULT_PRIORITY div weight s (priority (running_task s))"
  assumes "\<not> intr_on s" and "cpu < NR_CPUS" and "weight s (priority (running_task s)) \<noteq> 0"
    and "in_window b (min_vrun_time (cpus s cpu))" and "in_window b v"
  shows "\<exists>s' :: 'a kernel_state_scheme. task_update s = Some s' \<and>
    vrun_time (running_task s') = min_vrun_time (cpus s' cpu) \<and>
    vdist b (min_vrun_time (cpus s' cpu)) = max (vdist b (min_vrun_time (cpus s cpu))) (vdist b v) \<and>
    (vdist b (min_vrun_time (cpus s cpu)) \<le> vdist b v \<longrightarrow> run_time (running_task s') = run_time (running_task s) + 1) \<and>
    (\<forall>q. q \<noteq> running_pid s \<longrightarrow> tasks s' q = tasks s q) \<and> (\<forall>c. c \<noteq> cpu \<longrightarrow> cpus s' c = cpus s c)"
proof -
  define p where "p = running_pid s"
  define mv where "mv = min_vrun_time (cpus s cpu)"
  define vt where "vt = MAX_VRUNTIME v mv"
  have vt: "vt = (if vdist b mv < vdist b v then v else mv)" "in_window b vt"
    using MAX_VRUNTIME_window [OF assms(7) assms(6) [folded mv_def]] assms(6,7)
    by (auto simp: vt_def mv_def)
  have mx: "MAX_VRUNTIME mv vt = vt"
    using MAX_VRUNTIME_window [OF assms(6) [folded mv_def] vt(2)] vt(1) by auto
  define rt where "rt = (if vt \<noteq> v then vt * weight s (priority (tasks s p)) div weight s DEFAULT_PRIORITY
     else run_time (tasks s p) + 1)"
  define s' where "s' = upd_cpu cpu (\<lambda>tm. tm\<lparr>min_vrun_time := vt\<rparr>)
     (upd_task p (\<lambda>t. t\<lparr>run_time := rt, vrun_time := vt\<rparr>) s)"
  have c: "cpu = cpu_id (tasks s p)" by (simp add: cpu_def running_task_def p_def)
  have u: "upd_task p f (upd_task p g s) = upd_task p (\<lambda>t. f (g t)) s" for f g
    by (simp add: upd_task_def)
  have comm: "t\<lparr>run_time := a, vrun_time := b\<rparr> = t\<lparr>vrun_time := b, run_time := a\<rparr>" for t :: task_struct and a b
    by simp
  have vv: "(run_time (tasks s p) + 1) * weight s DEFAULT_PRIORITY div weight s (priority (tasks s p)) = v"
    by (simp add: v_def running_task_def p_def)
  have "task_update s = Some s'"
    using assms(3-5) mx
    by (cases "vt = v")
       (simp_all add: task_update_def update_vrun_time_def Let_def get_min_vrun_time_def get_task_man_def
        p_def [symmetric] c [symmetric] running_task_def update_min_vrun_time_def u s'_def rt_def vv
        mv_def [symmetric] vt_def [symmetric],
        simp_all add: upd_cpu_def upd_task_def comm mv_def)
  then show ?thesis
    using vt mx
    by (intro exI [of _ s']) (auto simp: s'_def running_task_def p_def [symmetric] mv_def [symmetric] rt_def max_def)
qed

lemma task_update_monotone_witness:
  "\<exists>s'. task_update example_sched = Some s' \<and> vrun_time (running_task s') = 7 \<and> min_vrun_time (cpus s' 0) = 7"
proof -
  have c: "cpu_id (running_task example_sched) = 0"
    by (simp add: running_task_def example_sched_def example_main_def zero_task_def)
  have w: "weight example_sched DEFAULT_PRIORITY = 1024" "priority (running_task example_sched) = DEFAULT_PRIORITY"
      "run_time (running_task example_sched) = 0" "min_vrun_time (cpus example_sched 0) = 7"
    by (simp_all add: weight_def task_prio_to_weight_def DEFAULT_PRIORITY_def NICE_TO_PRIO_def running_task_def
        example_sched_def example_main_def example_man_def zero_task_def)
  have "\<not> intr_on example_sched" by (simp add: example_sched_def example_kernel_def pt_state.extend_def)
  from task_update_monotone [of example_sched 0, unfolded c w, OF this]
  obtain s' where s': "task_update example_sched = Some s'" "vrun_time (running_task s') = min_vrun_time (cpus s' 0)"
      "vdist 0 (min_vrun_time (cpus s' 0)) = 7"
    by (auto simp: NR_CPUS_def in_window_def vdist_def max_def)
  have "vdist 0 (7 :: u64) = 7" by (simp add: vdist_def)
  then have "min_vrun_time (cpus s' 0) = 7" using s'(3) vdist_inj by metis
  then show ?thesis using s'(1,2) by simp
qed

text \<open>The idle task has priority 40, one more than the last index of the table of weights: its weight is
  whatever word the linker put behind the table, and the first tick that it is running divides by zero
  when that word is 0.\<close>

theorem idle_priority_outside_table:
  "weight s IDLE_PRIORITY = beyond_weights s 0 \<and>
    (\<not> intr_on s \<longrightarrow> priority (running_task s) = IDLE_PRIORITY \<longrightarrow> beyond_weights s 0 = 0 \<longrightarrow> task_update s = None)"
proof -
  have w: "weight s IDLE_PRIORITY = beyond_weights s 0" for s :: "'a kernel_state_scheme"
    by (simp add: weight_def IDLE_PRIORITY_def NICE_TO_PRIO_def task_prio_to_weight_def)
  have "task_update s = None" if "\<not> intr_on s" "priority (running_task s) = IDLE_PRIORITY" "beyond_weights s 0 = 0"
    using that by (simp add: task_update_def update_vrun_time_def Let_def running_task_def w)
  then show ?thesis using w by blast
qed

lemma idle_priority_outside_table_witness:
  "task_update (example_sched\<lparr>tasks := \<lambda>_. example_main\<lparr>priority := IDLE_PRIORITY\<rparr>\<rparr>) = None"
  by (rule idle_priority_outside_table [THEN conjunct2, rule_format])
     (simp_all add: running_task_def example_sched_def example_kernel_def pt_state.extend_def)

text \<open>\<^verbatim>\<open>task_msleep\<close> keeps its deadline in 32 bits: until the counter of ticks passes \<open>2 ^ 32\<close> it
  waits until the deadline and no longer; afterwards it returns at once.\<close>

theorem msleep_until_deadline:
  assumes "unat now < 2 ^ 63" and "unat t < 2 ^ 63"
  shows "(unat now + unat (MS_TO_TICKS ms) < 2 ^ 32 \<longrightarrow>
      msleep_waits (msleep_deadline ms now) t \<longleftrightarrow> unat t < unat now + unat (MS_TO_TICKS ms)) \<and>
    (2 ^ 32 \<le> unat now \<longrightarrow> \<not> msleep_waits (msleep_deadline ms now) now)"
proof -
  define d where "d = (ucast (msleep_deadline ms now) :: u64)"
  have d32: "unat d < 2 ^ 32"
  proof -
    have "unat (msleep_deadline ms now) < 2 ^ 32" using unsigned_less [of "msleep_deadline ms now"] by simp
    then show ?thesis by (simp add: d_def unsigned_ucast_eq take_bit_nat_eq_self)
  qed
  have lt: "t' - d <s 0 \<longleftrightarrow> unat t' < unat d" if "unat t' < 2 ^ 63" for t' :: u64
    using sless_window [of 0 t' d] that d32 by (simp add: in_window_def vdist_def)
  have eq: "unat d = unat now + unat (MS_TO_TICKS ms)" if "unat now + unat (MS_TO_TICKS ms) < 2 ^ 32"
  proof -
    have "unat (now + MS_TO_TICKS ms) = unat now + unat (MS_TO_TICKS ms)"
      using that by (intro unat_add_no_wrap) simp
    then show ?thesis using that
      by (simp add: d_def msleep_deadline_def unsigned_ucast_eq unsigned_take_bit_eq take_bit_nat_eq_self)
  qed
  show ?thesis using lt [OF assms(2)] lt [OF assms(1)] eq d32
    by (auto simp: msleep_waits_def d_def [symmetric])
qed

lemma msleep_until_deadline_witness:
  "\<not> msleep_waits (msleep_deadline 1000 0x100000000) 0x100000000 \<and> msleep_waits (msleep_deadline 1000 5) 1004"
proof -
  have u: "unat (5 :: u64) + unat (MS_TO_TICKS 1000) = 1005" by (simp add: MS_TO_TICKS_def)
  show ?thesis
    using msleep_until_deadline [where now = "0x100000000" and t = "0x100000000" and ms = 1000]
      msleep_until_deadline [where now = 5 and t = 1004 and ms = 1000] u by auto
qed

end
