(* ===== verification/Semaphore.thy ===== *)
theory Semaphore
  imports SchedProps
begin

text \<open>
  Semaphores: \<^verbatim>\<open>src/sync/semaphore.c\<close>. \<^verbatim>\<open>sema_down\<close> is split at its \<^verbatim>\<open>task_block\<close>: each
  round of its loop either takes a unit or joins the waiters and blocks, and runs again when woken.
\<close>

record semaphore =
  sema_value :: u64
  holder :: "pid option"
  holder_repeat_nr :: u32
  waiters :: "pid list"

definition init_semaphore :: "semaphore \<Rightarrow> u32 \<Rightarrow> semaphore" where
  "init_semaphore sema v = \<lparr>sema_value = ucast v, holder = None, holder_repeat_nr = 0, waiters = []\<rparr>"

datatype 's down_result = Taken semaphore 's | Sleeps semaphore 's

text \<open>A round of the loop, with interrupts off. \<open>Sleeps\<close> is the state before the \<^verbatim>\<open>schedule\<close> of
  \<^verbatim>\<open>task_block(TASK_BLOCKED)\<close>.\<close>

definition sema_down :: "semaphore \<Rightarrow> 'a kernel_state_scheme \<Rightarrow> 'a kernel_state_scheme down_result option" where
  "sema_down sema s = do {
     let me = running_pid s;
     let (intr_status, s) = intr_disable s;
     if sema_value sema = 0 then do {
       assert (me \<notin> set (waiters sema));
       assert (preempt_count s me = 0);
       Some (Sleeps (sema\<lparr>waiters := waiters sema @ [me]\<rparr>) (upd_task me (status_update (\<lambda>_. TASK_BLOCKED)) s)) }
     else Some (Taken (sema\<lparr>sema_value := atomic_dec (sema_value sema)\<rparr>) (snd (intr_set_status intr_status s))) }"

definition sema_up :: "semaphore \<Rightarrow> 'a kernel_state_scheme \<Rightarrow> (semaphore \<times> 'a kernel_state_scheme) option" where
  "sema_up sema s = do {
     let (intr_status, s) = intr_disable s;
     (sema, s) \<leftarrow>
       (case waiters sema of
          [] \<Rightarrow> Some (sema, s)
        | p # ps \<Rightarrow> do {
            s \<leftarrow> task_unblock (tpid (tasks s p)) s;
            Some (sema\<lparr>waiters := ps\<rparr>, s) });
     Some (sema\<lparr>sema_value := atomic_inc (sema_value sema)\<rparr>, snd (intr_set_status intr_status s)) }"

lemma task_unblock_queue:
  fixes s :: "'a kernel_state_scheme"
  assumes "queue_ok s cpu b" and "cpu < NR_CPUS" and "task_exist p s" and "cpu_id (tasks s p) = cpu"
    and "in_window b (vrun_time (tasks s p))" and "p \<notin> set (task_list (cpus s cpu))"
    and "lock_free (TaskListLock cpu) s" and "\<not> intr_on s"
  obtains s' where "task_unblock p s = Some s'" and "queue_ok s' cpu b" and "wake_frame cpu {p} s s'"
    and "mset (task_list (cpus s' cpu)) = add_mset p (mset (task_list (cpus s cpu)))"
proof -
  obtain g s' where s': "task_list_insert cpu p s = Some s'" "queue_ok s' cpu b"
      "mset (task_list (cpus s' cpu)) = add_mset p (mset (task_list (cpus s cpu)))"
    by (rule task_list_insert_ok [OF assms(1,2,3,5,6)])
  have "task_unblock p s = task_list_insert cpu p s"
    using task_unblock_eq [of p s] assms by simp
  then show thesis using that [of s'] s' task_list_insert_frame [OF s'(1)] by simp
qed

text \<open>\<^verbatim>\<open>sema_up\<close> wakes the task that has waited longest, and only it: the task moves from the head of
  the waiters to its run queue, which stays in order, and finds the semaphore's value positive, so that
  its next round of \<^verbatim>\<open>sema_down\<close> takes the unit.\<close>

theorem sema_up_wakes_first:
  fixes s :: "'a kernel_state_scheme"
  assumes w: "waiters sema = p # ps" and q: "queue_ok s cpu b" "cpu < NR_CPUS" "task_exist p s" "cpu_id (tasks s p) = cpu"
    "in_window b (vrun_time (tasks s p))" "p \<notin> set (task_list (cpus s cpu))" "lock_free (TaskListLock cpu) s"
    "tpid (tasks s p) = p" "\<not> intr_on s" and v: "sema_value sema \<noteq> - 1"
  shows "\<exists>sema' (s' :: 'a kernel_state_scheme). sema_up sema s = Some (sema', s') \<and> waiters sema' = ps \<and>
    sema_value sema' = sema_value sema + 1 \<and> queue_ok s' cpu b \<and>
    mset (task_list (cpus s' cpu)) = add_mset p (mset (task_list (cpus s cpu))) \<and>
    (\<forall>t. t \<noteq> p \<longrightarrow> tasks s' t = tasks s t) \<and>
    (\<exists>s''. sema_down sema' (s'\<lparr>running_pid := p\<rparr>) = Some (Taken (sema'\<lparr>sema_value := sema_value sema\<rparr>) s''))"
proof -
  obtain s' where s': "task_unblock p s = Some s'" "queue_ok s' cpu b" "wake_frame cpu {p} s s'"
      "mset (task_list (cpus s' cpu)) = add_mset p (mset (task_list (cpus s cpu)))"
    by (rule task_unblock_queue [OF q(1-7) q(9)])
  define sema' where "sema' = sema\<lparr>waiters := ps, sema_value := sema_value sema + 1\<rparr>"
  have i: "\<not> intr_on s'" using s'(3) q(9) by (simp add: wake_frame_def)
  have "sema_up sema s = Some (sema', s')"
    using w q(8,9) s'(1) i
    by (simp add: sema_up_def intr_disable_def intr_set_status_def atomic_inc_def sema'_def)
  moreover have "sema_value sema' \<noteq> 0"
    using v unfolding eq_neg_iff_add_eq_0 by (simp add: sema'_def)
  then have "\<exists>s''. sema_down sema' (s'\<lparr>running_pid := p\<rparr>) = Some (Taken (sema'\<lparr>sema_value := sema_value sema\<rparr>) s'')"
    by (simp add: sema_down_def intr_disable_def atomic_dec_def sema'_def split: prod.splits)
  ultimately show ?thesis
    using s' by (intro exI [of _ sema'] exI [of _ s']) (simp add: sema'_def wake_frame_def)
qed

lemma sema_up_wakes_first_witness:
  "\<exists>sema' s'. sema_up \<lparr>sema_value = 0, holder = None, holder_repeat_nr = 0, waiters = [1]\<rparr> example_sched = Some (sema', s') \<and>
    waiters sema' = [] \<and> sema_value sema' = 1 \<and> mset (task_list (cpus s' 0)) = {#1, 3#}"
proof -
  have q: "queue_ok example_sched 0 0" "lock_free (TaskListLock 0) example_sched"
    using sched_okD(2,3) [OF example_sched_ok(1)] .
  have e: "task_exist 1 example_sched" using example_sched_tasks by simp
  have f: "cpu_id (tasks example_sched 1) = 0" "in_window 0 (vrun_time (tasks example_sched 1))"
      "1 \<notin> set (task_list (cpus example_sched 0))" "tpid (tasks example_sched 1) = 1" "task_list (cpus example_sched 0) = [3]"
    by (simp_all add: example_sched_def example_main_def example_man_def zero_task_def in_window_def vdist_def)
  have i: "\<not> intr_on example_sched" by (simp add: example_sched_def example_kernel_def pt_state.extend_def)
  have c: "(0 :: nat) < NR_CPUS" by (simp add: NR_CPUS_def)
  define sema where "sema = \<lparr>sema_value = 0, holder = None, holder_repeat_nr = 0, waiters = [1]\<rparr>"
  have m: "waiters sema = [1]" "sema_value sema \<noteq> - 1" "sema_value sema = 0" by (simp_all add: sema_def)
  show ?thesis
    using sema_up_wakes_first [OF m(1) q(1) c e f(1-3) q(2) f(4) i m(2)]
    unfolding f(5) m(3) sema_def [symmetric] by (elim exE conjE, intro exI conjI) simp_all
qed

end
