(* ===== verification/Proc.thy ===== *)
theory Proc
  imports Scheduler CString
begin

text \<open>
  User processes: \<^verbatim>\<open>src/arch/x86_64/task/proc.c\<close> and the page fault handler of
  \<^verbatim>\<open>src/arch/x86_64/mem/page.c\<close>. The state is that of the kernel, and: the addresses of
  \<^verbatim>\<open>start_process\<close> and \<^verbatim>\<open>proc_start\<close>, fixed by the linker; for each task the
  addresses of the arrays of its two range tables (the pointers \<^verbatim>\<open>blocks\<close>; the contents are the
  fields \<open>vmm_free\<close> and \<open>vmm_using\<close> of the task); and the bytes of memory as the running task sees
  them, which the kernel reads and writes for it.
\<close>

record proc_state = kernel_state +
  start_process_addr :: addr
  proc_start_addr :: addr
  vmm_free_ptr :: "pid \<Rightarrow> addr"
  vmm_using_ptr :: "pid \<Rightarrow> addr"
  bytes :: mem

definition USER_STACK_VADDR_BASE :: addr where "USER_STACK_VADDR_BASE = 0x0000800000000000 - PG_SIZE"
definition USER_VADDR_START :: addr where "USER_VADDR_START = 0x800000"

subsection \<open>Address spaces\<close>

text \<open>The upper half of the kernel's table is copied into the new one.\<close>

definition copy_kernel_half :: "addr \<Rightarrow> 'a pt_state_scheme \<Rightarrow> 'a pt_state_scheme" where
  "copy_kernel_half v s =
     fold (\<lambda>i s. s\<lparr>pt_mem := (pt_mem s)(v + 8 * word_of_nat i :=
        pt_mem s (PHYS_TO_VIRT KERNEL_PAGE_DIR_TABLE_POS + 8 * word_of_nat i))\<rparr>) [256..<512] s"

definition create_page_dir :: "'a pt_state_scheme \<Rightarrow> (addr \<times> 'a pt_state_scheme) option" where
  "create_page_dir s = do {
     (status, r, s) \<leftarrow> kmalloc PT_SIZE 0 PT_SIZE s;
     if ERROR status then Some (NULL, s)
     else do {
       v \<leftarrow> r;
       Some (VIRT_TO_PHYS v, copy_kernel_half v (clear_table v s)) } }"

text \<open>A new array of ranges holds what is in memory.\<close>

definition blocks_at :: "'a pt_state_scheme \<Rightarrow> addr \<Rightarrow> nat \<Rightarrow> vmm_block list" where
  "blocks_at s a n =
     map (\<lambda>i. \<lparr>vb_start = pt_mem s (a + 16 * word_of_nat i), vb_size = pt_mem s (a + 16 * word_of_nat i + 8)\<rparr>) [0..<n]"

definition user_vaddr_table_init :: "pid \<Rightarrow> 'a proc_state_scheme \<Rightarrow> (status_t \<times> 'a proc_state_scheme) option" where
  "user_vaddr_table_init task s = do {
     (status, r, s) \<leftarrow> kmalloc (16 * 1024) 0 0 s;
     if ERROR status then Some (status, s)
     else do {
       a \<leftarrow> r;
       let s = s\<lparr>vmm_free_ptr := (vmm_free_ptr s)(task := a)\<rparr>;
       let v = vmm_struct_init (blocks_at s a 1024) 1024;
       (_, v) \<leftarrow> vmm_add_range v USER_VADDR_START (USER_STACK_VADDR_BASE - USER_VADDR_START);
       let s = upd_task task (vmm_free_update (\<lambda>_. v)) s;
       (status, r, s) \<leftarrow> kmalloc (16 * 1024) 0 0 s;
       if ERROR status then Some (status, s)
       else do {
         a \<leftarrow> r;
         let s = s\<lparr>vmm_using_ptr := (vmm_using_ptr s)(task := a)\<rparr>;
         Some (K_SUCCESS, upd_task task (vmm_using_update (\<lambda>_. vmm_struct_init (blocks_at s a 1024) 1024)) s) } } }"

definition free_user_vaddr_table :: "pid \<Rightarrow> 'a proc_state_scheme \<Rightarrow> 'a proc_state_scheme option" where
  "free_user_vaddr_table task s = do {
     s \<leftarrow> kfree (vmm_free_ptr s task) s;
     kfree (vmm_using_ptr s task) s }"

subsection \<open>The life of a process\<close>

text \<open>When no slot is free the code goes to the cleanup with a null task and dereferences it; the other
  failures are caught by assertions before their cleanup.\<close>

definition proc_execute ::
  "u8 list \<Rightarrow> u64 \<Rightarrow> u64 \<Rightarrow> u64 \<Rightarrow> 'a proc_state_scheme \<Rightarrow> (pid \<times> 'a proc_state_scheme) option" where
  "proc_execute nm prio ksize proc s = do {
     assert (ksize AND (ksize - 1) = 0);
     (task, s) \<leftarrow> task_alloc s;
     task \<leftarrow> task;
     (status, kbase, s) \<leftarrow> kmalloc ksize 0 0 s;
     assert (\<not> ERROR status);
     kbase \<leftarrow> kbase;
     (_, s) \<leftarrow> init_task_struct task nm prio kbase ksize s;
     s \<leftarrow> create_task_struct task (start_process_addr s) proc s;
     (dir, s) \<leftarrow> create_page_dir s;
     let s = upd_task task (page_dir_update (\<lambda>_. dir)) s;
     assert (dir \<noteq> NULL);
     (status, s) \<leftarrow> user_vaddr_table_init task s;
     assert (\<not> ERROR status);
     let cpu = cpu_id (tasks s task);
     _ \<leftarrow> get_task_man cpu s;
     s \<leftarrow> spinlock_lock (TaskListLock cpu) s;
     s \<leftarrow> task_list_insert cpu task s;
     Some (task, spinlock_unlock (TaskListLock cpu) s) }"

text \<open>Up to the \<^verbatim>\<open>task_block(TASK_DIED)\<close> of \<^verbatim>\<open>task_exit\<close>.\<close>

definition proc_exit :: "int \<Rightarrow> 'a proc_state_scheme \<Rightarrow> 'a proc_state_scheme option" where
  "proc_exit st s = do {
     let task = running_pid s;
     let pg_dir = page_dir (tasks s task);
     s \<leftarrow> free_physical_page (ustack_base (tasks s task)) 1 s;
     let s = upd_task task (page_dir_update (\<lambda>_. NULL)) s;
     let s = page_table_activate task s;
     s \<leftarrow> free_page_table pg_dir s;
     s \<leftarrow> free_user_vaddr_table task s;
     task_exit st s }"

text \<open>How a process enters user mode: the arguments of \<^verbatim>\<open>asm_switch_to_user\<close>. \<open>Died\<close> is the state of a
  task that ended itself.\<close>

record user_entry =
  ue_rip :: addr
  ue_arg :: addr
  ue_kstack :: addr
  ue_ustack :: addr

datatype 's outcome = Runs 's | Died 's

definition start_process :: "addr \<Rightarrow> 'a proc_state_scheme \<Rightarrow> (user_entry \<times> 'a proc_state_scheme) outcome option" where
  "start_process proc s = do {
     let cur = running_pid s;
     (status, ustack, s) \<leftarrow> alloc_physical_page 1 s;
     if ERROR status then do {
       s \<leftarrow> proc_exit (-1) s;
       Some (Died (\<lparr>ue_rip = 0, ue_arg = 0, ue_kstack = 0, ue_ustack = 0\<rparr>, s)) }
     else do {
       ustack \<leftarrow> ustack;
       let s = upd_task cur (\<lambda>t. t\<lparr>ustack_base := ustack, ustack_size := PG_SIZE\<rparr>) s;
       s \<leftarrow> page_map (page_dir (tasks s cur)) ustack USER_STACK_VADDR_BASE s;
       let s = page_table_activate cur s;
       Some (Runs (\<lparr>ue_rip = proc_start_addr s, ue_arg = proc, ue_kstack = tcontext (tasks s cur) + 64,
         ue_ustack = USER_STACK_VADDR_BASE + PG_SIZE\<rparr>, s)) } }"

text \<open>In user mode \<^verbatim>\<open>proc_start\<close> passes the result of the program to the kernel.\<close>

definition KERN_EXIT :: u32 where "KERN_EXIT = 0"

definition proc_start_message :: "int \<Rightarrow> message" where
  "proc_start_message st = zero_message\<lparr>mtype := KERN_EXIT, m := (replicate 8 0)[0 := word_of_int st]\<rparr>"

subsection \<open>Page faults\<close>

text \<open>\<^verbatim>\<open>default_irq_handler\<close> for a fault: a process ends, a kernel task never continues.\<close>

definition unhandled_fault :: "'a proc_state_scheme \<Rightarrow> 'a proc_state_scheme outcome option" where
  "unhandled_fault s =
     (if page_dir (running_task s) \<noteq> NULL then map_option Died (proc_exit (-1) s) else None)"

definition do_page_fault :: "addr \<Rightarrow> 'a proc_state_scheme \<Rightarrow> 'a proc_state_scheme outcome option" where
  "do_page_fault fault_address s = do {
     let task = running_pid s;
     let fault_page = fault_address AND NOT (PG_SIZE - 1);
     if cr3 s = KERNEL_PAGE_DIR_TABLE_POS then unhandled_fault s
     else do {
       found \<leftarrow> vmm_find (vmm_using (tasks s task)) fault_page;
       if found = 0 then unhandled_fault s
       else do {
         (status, paddr, s) \<leftarrow> alloc_physical_page 1 s;
         if ERROR status then unhandled_fault s
         else do {
           paddr \<leftarrow> paddr;
           s \<leftarrow> page_map (page_dir (tasks s task)) paddr fault_page s;
           Some (Runs (page_table_activate task s)) } } } }"

end
