(* ===== verification/KernServices.thy ===== *)
theory KernServices
  imports Proc
begin

text \<open>
  The system calls: the entry \<^verbatim>\<open>sys_send_recv\<close> of \<^verbatim>\<open>src/arch/x86_64/syscall/syscall.c\<close>, the dispatch of
  \<^verbatim>\<open>src/kernel/service/kernel.c\<close>, the services of \<^verbatim>\<open>kern_task.c\<close> and \<^verbatim>\<open>kern_mem.c\<close>, and the start
  of the service tasks (\<^verbatim>\<open>src/service/service.c\<close>). A call that blocks ends with the state before the
  block; what follows is the second part, named \<open>_resumed\<close>.
\<close>

text \<open>\<open>Returns\<close>: the call returns. \<open>Exits\<close>: the task ends. \<open>Waits\<close>: it blocks for a child.\<close>

datatype 's service_result = Returns syscall_status message 's | Exits 's | Waits 's

subsection \<open>Message words\<close>

text \<open>A word as \<^verbatim>\<open>int\<close> or \<^verbatim>\<open>pid_t\<close>, and the store of one in the low half of a word.\<close>

definition int_arg :: "message \<Rightarrow> nat \<Rightarrow> int" where
  "int_arg mg i = sint (ucast (m mg ! i) :: u32)"

definition set_int :: "nat \<Rightarrow> int \<Rightarrow> message \<Rightarrow> message" where
  "set_int i x mg =
     mg\<lparr>m := (m mg)[i := (m mg ! i AND 0xffffffff00000000) OR ucast (word_of_int x :: u32)]\<rparr>"

definition set_word :: "nat \<Rightarrow> u64 \<Rightarrow> message \<Rightarrow> message" where
  "set_word i x mg = mg\<lparr>m := (m mg)[i := x]\<rparr>"

subsection \<open>Tasks\<close>

definition kern_exit :: "message \<Rightarrow> 'a proc_state_scheme \<Rightarrow> 'a proc_state_scheme service_result option" where
  "kern_exit mg s = map_option Exits (proc_exit (int_arg mg 0) s)"

definition kern_get_pid :: "message \<Rightarrow> 'a proc_state_scheme \<Rightarrow> 'a proc_state_scheme service_result option" where
  "kern_get_pid mg s = Some (Returns SYSCALL_SUCCESS (set_int 0 (tpid (running_task s)) mg) s)"

definition kern_get_ppid :: "message \<Rightarrow> 'a proc_state_scheme \<Rightarrow> 'a proc_state_scheme service_result option" where
  "kern_get_ppid mg s = Some (Returns SYSCALL_SUCCESS (set_int 0 (ppid (running_task s)) mg) s)"

text \<open>The name is the string in the first 31 bytes at the caller's address.\<close>

definition kern_create_proc :: "message \<Rightarrow> 'a proc_state_scheme \<Rightarrow> 'a proc_state_scheme service_result option" where
  "kern_create_proc mg s = do {
     let name = takeWhile (\<lambda>c. c \<noteq> 0) (bytes_at (bytes s) (m mg ! 0) 31);
     let task = running_task s;
     (new_task, s) \<leftarrow> proc_execute name (priority task) (kstack_size task) (m mg ! 1) s;
     Some (Returns SYSCALL_SUCCESS (set_int 0 (tpid (tasks s new_task)) mg) s) }"

definition WNOHANG :: u32 where "WNOHANG = 1"

text \<open>\<^verbatim>\<open>kern_waitpid\<close> from its test for an exited child on. With \<open>WNOHANG\<close> and no exited child the code
  loops forever, which is no result.\<close>

definition kern_waitpid_resumed :: "message \<Rightarrow> 'a proc_state_scheme \<Rightarrow> 'a proc_state_scheme service_result option" where
  "kern_waitpid_resumed mg s = do {
     let in_pid = int_arg mg 0;
     let me = running_pid s;
     (has, s) \<leftarrow> task_has_exited_child (tpid (running_task s)) s;
     if \<not> has then Some (Waits (upd_task me (status_update (\<lambda>_. TASK_WAITING)) s))
     else do {
       s \<leftarrow> spinlock_lock (ChildListLock me) s;
       (child, s) \<leftarrow>
         (if in_pid = -1 then
            (case exited_child_list (tasks s me) of
               [] \<Rightarrow> None
             | c # cs \<Rightarrow> Some (Some c, upd_task me (exited_child_list_update (\<lambda>_. cs)) s))
          else Some (List.find (\<lambda>c. tpid (tasks s c) = tpid (tasks s me)) (exited_child_list (tasks s me)), s));
       let s = spinlock_unlock (ChildListLock me) s;
       (case child of
          None \<Rightarrow> Some (Returns SYSCALL_SUCCESS mg s)
        | Some c \<Rightarrow> do {
            let mg = set_int 1 (tpid (tasks s c)) mg;
            (st, s) \<leftarrow> task_release_resource (tpid (tasks s c)) s;
            Some (Returns SYSCALL_SUCCESS (set_int 0 st mg) s) }) } }"

definition kern_waitpid :: "message \<Rightarrow> 'a proc_state_scheme \<Rightarrow> 'a proc_state_scheme service_result option" where
  "kern_waitpid mg s = do {
     if atomic_read (childs (running_task s)) = 0 then Some (Returns SYSCALL_ERROR mg s)
     else do {
       (has, s) \<leftarrow> task_has_exited_child (tpid (running_task s)) s;
       assert (has \<or> ucast (m mg ! 1) AND WNOHANG = 0);
       kern_waitpid_resumed mg s } }"

subsection \<open>Memory\<close>

definition kern_allocate_page :: "message \<Rightarrow> 'a proc_state_scheme \<Rightarrow> 'a proc_state_scheme service_result option" where
  "kern_allocate_page mg s = do {
     let me = running_pid s;
     (status, vaddr, v) \<leftarrow> vmm_alloc (vmm_free (tasks s me)) PG_SIZE;
     let s = upd_task me (vmm_free_update (\<lambda>_. v)) s;
     if ERROR status then Some (Returns SYSCALL_ERROR mg s)
     else do {
       vaddr \<leftarrow> vaddr;
       (status, u) \<leftarrow> vmm_add_range (vmm_using (tasks s me)) vaddr PG_SIZE;
       let s = upd_task me (vmm_using_update (\<lambda>_. u)) s;
       if ERROR status then do {
         (_, v) \<leftarrow> vmm_add_range (vmm_free (tasks s me)) vaddr PG_SIZE;
         Some (Returns SYSCALL_ERROR mg (upd_task me (vmm_free_update (\<lambda>_. v)) s)) }
       else Some (Returns SYSCALL_SUCCESS (set_word 0 vaddr mg) s) } }"

definition kern_free_page :: "message \<Rightarrow> 'a proc_state_scheme \<Rightarrow> 'a proc_state_scheme service_result option" where
  "kern_free_page mg s = do {
     let vaddr = m mg ! 0;
     let me = running_pid s;
     let dir = page_dir (tasks s me);
     let paddr = to_physical_address s dir vaddr;
     (_, u) \<leftarrow> vmm_remove_range (vmm_using (tasks s me)) vaddr PG_SIZE;
     let s = upd_task me (vmm_using_update (\<lambda>_. u)) s;
     (_, v) \<leftarrow> vmm_add_range (vmm_free (tasks s me)) vaddr PG_SIZE;
     let s = upd_task me (vmm_free_update (\<lambda>_. v)) s;
     s \<leftarrow> free_physical_page paddr 1 s;
     s \<leftarrow> page_unmap dir vaddr s;
     Some (Returns SYSCALL_SUCCESS mg (page_table_activate me s)) }"

definition kern_read_task_mem :: "message \<Rightarrow> 'a proc_state_scheme \<Rightarrow> 'a proc_state_scheme service_result option" where
  "kern_read_task_mem mg s = do {
     task \<leftarrow> pid_to_task (int_arg mg 0) s;
     let in_addr = to_physical_address s (page_dir task) (m mg ! 1);
     if in_addr = NULL then Some (Returns SYSCALL_ERROR mg s)
     else Some (Returns SYSCALL_SUCCESS mg
       (s\<lparr>bytes := memcpy (bytes s) (m mg ! 3) (PHYS_TO_VIRT in_addr) (m mg ! 2)\<rparr>)) }"

subsection \<open>Dispatch\<close>

definition kern_syscalls :: "(message \<Rightarrow> 'a proc_state_scheme \<Rightarrow> 'a proc_state_scheme service_result option) list" where
  "kern_syscalls = [kern_exit, kern_get_pid, kern_get_ppid, kern_create_proc,
     kern_waitpid, kern_allocate_page, kern_free_page, kern_read_task_mem]"

definition KERN_SYSCALLS :: u32 where "KERN_SYSCALLS = 8"

definition kernel_services :: "message \<Rightarrow> 'a proc_state_scheme \<Rightarrow> 'a proc_state_scheme service_result option" where
  "kernel_services mg s =
     (if mtype mg < KERN_SYSCALLS then (kern_syscalls ! unat (mtype mg)) mg s
      else Some (Returns SYSCALL_ERROR mg s))"

definition FUNC_SEND :: u32 where "FUNC_SEND = 1"
definition FUNC_RECV :: u32 where "FUNC_RECV = 2"

text \<open>Where a call stands when it returns or blocks: after a blocked send the receiving half follows
  (\<open>recv_half\<close>), after a blocked receive \<open>msg_recv_resumed\<close> of theory Ipc.\<close>

datatype 's call_state = CallReturns syscall_status message 's | CallExits 's | CallWaits 's
  | SendBlocked message 's | RecvBlocked message 's

definition recv_half ::
  "u32 \<Rightarrow> pid \<Rightarrow> syscall_status \<Rightarrow> message \<Rightarrow> 'a proc_state_scheme \<Rightarrow> 'a proc_state_scheme call_state" where
  "recv_half fn src_dst ret mg s =
     (if fn AND FUNC_RECV \<noteq> 0 \<and> ret = SYSCALL_SUCCESS then
        (case recv_prepare src_dst s of
           Inl e \<Rightarrow> CallReturns e mg (upd_task (running_pid s) (recv_from_update (\<lambda>_. PID_NO_TASK)) s)
         | Inr s \<Rightarrow> RecvBlocked mg s)
      else CallReturns ret mg s)"

definition sys_send_recv ::
  "u32 \<Rightarrow> pid \<Rightarrow> message \<Rightarrow> 'a proc_state_scheme \<Rightarrow> 'a proc_state_scheme call_state option" where
  "sys_send_recv fn src_dst mg s = do {
     src_dst \<leftarrow> (if is_service_id src_dst then service_id_to_pid src_dst s else Some src_dst);
     if fn AND 0x7ffffffc \<noteq> 0 then Some (CallReturns SYSCALL_NO_SYSCALL mg s)
     else if fn AND FUNC_SEND \<noteq> 0 then
       (if src_dst = SEND_TO_KERNEL then do {
          r \<leftarrow> kernel_services mg s;
          Some (case r of
              Returns ret mg s \<Rightarrow> recv_half fn src_dst ret mg s
            | Exits s \<Rightarrow> CallExits s
            | Waits s \<Rightarrow> CallWaits s) }
        else do {
          r \<leftarrow> msg_send src_dst mg s;
          Some (case r of
              Inl e \<Rightarrow> recv_half fn src_dst e mg (upd_task (running_pid s) (send_to_update (\<lambda>_. PID_NO_TASK)) s)
            | Inr s \<Rightarrow> SendBlocked (mg\<lparr>src := tpid (running_task s)\<rparr>) s) })
     else Some (recv_half fn src_dst SYSCALL_SUCCESS mg s) }"

subsection \<open>Starting the services\<close>

record service_entry =
  kernel_task :: bool
  service_id :: int
  service_name :: "u8 list"
  service_kstack :: u64

text \<open>The table \<^verbatim>\<open>services\<close>; the entry points are fixed by the linker. The names are \<^verbatim>\<open>TICK\<close>,
  \<^verbatim>\<open>MM\<close>, \<^verbatim>\<open>VIEW\<close>, \<^verbatim>\<open>USB Service\<close> and \<^verbatim>\<open>Keyboard Services\<close>.\<close>

definition services :: "service_entry list" where
  "services =
    [\<lparr>kernel_task = False, service_id = SERVICE_ID_BASE, service_name = [84, 73, 67, 75], service_kstack = 4096\<rparr>,
     \<lparr>kernel_task = True, service_id = SERVICE_ID_BASE + 1, service_name = [77, 77], service_kstack = 4096\<rparr>,
     \<lparr>kernel_task = False, service_id = SERVICE_ID_BASE + 2, service_name = [86, 73, 69, 87], service_kstack = 4096\<rparr>,
     \<lparr>kernel_task = True, service_id = SERVICE_ID_BASE + 3,
       service_name = [85, 83, 66, 32, 83, 101, 114, 118, 105, 99, 101], service_kstack = 4096\<rparr>,
     \<lparr>kernel_task = True, service_id = SERVICE_ID_BASE + 4,
       service_name = [75, 101, 121, 98, 111, 97, 114, 100, 32, 83, 101, 114, 118, 105, 99, 101, 115],
       service_kstack = 4096\<rparr>]"

text \<open>A service that could not be started is a null pointer that is dereferenced.\<close>

definition start_service :: "service_entry \<times> addr \<Rightarrow> 'a proc_state_scheme \<Rightarrow> 'a proc_state_scheme option" where
  "start_service e s = (let (e, func) = e in do {
     (task, s) \<leftarrow>
       (if kernel_task e then task_start (service_name e) SERVICE_PRIORITY (service_kstack e) func 0 s
        else map_option (\<lambda>(p, s). (Some p, s)) (proc_execute (service_name e) SERVICE_PRIORITY (service_kstack e) func s));
     task \<leftarrow> task;
     Some (s\<lparr>service_pid_table :=
       (service_pid_table s)[nat (service_id e - SERVICE_ID_BASE) := tpid (tasks s task)]\<rparr>) })"

definition service_init :: "addr list \<Rightarrow> 'a proc_state_scheme \<Rightarrow> 'a proc_state_scheme option" where
  "service_init funcs s = fold_option start_service (zip services funcs) s"

subsection \<open>The tick service\<close>

text \<open>One round of \<^verbatim>\<open>tick_main\<close>: the message received, the count, and the answer to the sender.\<close>

definition TICK_GET_TICKS :: u32 where "TICK_GET_TICKS = 1"

definition tick_round :: "message \<Rightarrow> u64 \<Rightarrow> u64 \<times> (pid \<times> message) option" where
  "tick_round mg n =
     (if mtype mg = word_of_int RECV_FROM_INT then (n + 1, None)
      else if mtype mg = TICK_GET_TICKS then (n, Some (src mg, set_word 0 n mg))
      else (n, None))"

end
