(* ===== verification/Frames.thy ===== *)
theory Frames
  imports PageTable
begin

text \<open>
  Page frames between the allocators: a frame that neither \<^verbatim>\<open>src/arch/x86_64/mem/page.c\<close> has free nor
  \<^verbatim>\<open>src/mem/allocator.c\<close> uses for its blocks belongs to a client. This theory shows that the
  operations on memory and page tables leave such a frame alone, and that it can be given back.
\<close>

definition owned :: "nat \<Rightarrow> 'a alloc_state_scheme \<Rightarrow> bool" where
  "owned k s \<longleftrightarrow> 0 < k \<and> k < page_limit s \<and> k \<notin> free_set s \<and> caches s (cache_addr k) = None"

definition frames_kept :: "'a alloc_state_scheme \<Rightarrow> 'a alloc_state_scheme \<Rightarrow> bool" where
  "frames_kept s s' \<longleftrightarrow> page_limit s' = page_limit s \<and> free_set s' \<subseteq> free_set s \<and>
     running_pid s' = running_pid s \<and> (\<forall>k. k < 16384 \<longrightarrow> owned k s \<longrightarrow> owned k s')"

lemma frames_kept_refl [simp, intro]: "frames_kept s s"
  by (simp add: frames_kept_def)

lemma frames_kept_trans [trans]: "frames_kept s t \<Longrightarrow> frames_kept t u \<Longrightarrow> frames_kept s u"
  by (auto simp: frames_kept_def)

text \<open>A step that touches neither the bitmap nor the set of caches.\<close>

definition same_frames :: "'a alloc_state_scheme \<Rightarrow> 'a alloc_state_scheme \<Rightarrow> bool" where
  "same_frames s s' \<longleftrightarrow> page_bitmap s' = page_bitmap s \<and> running_pid s' = running_pid s \<and>
     (\<forall>c. caches s' c = None \<longleftrightarrow> caches s c = None)"

lemma same_frames_owned: "same_frames s s' \<Longrightarrow> owned k s' = owned k s"
  unfolding same_frames_def owned_def using phys_inv_cong(2,3) [of s' s] by simp

lemma same_frames_kept: "same_frames s s' \<Longrightarrow> frames_kept s s'"
  using same_frames_owned [of s s'] phys_inv_cong(2,3) [of s' s]
  by (simp add: frames_kept_def same_frames_def)

lemma same_frames_trans [trans]: "same_frames s t \<Longrightarrow> same_frames t u \<Longrightarrow> same_frames s u"
  by (simp add: same_frames_def)

lemma same_frames_simps [simp]:
  "same_frames s s" "same_frames s (t\<lparr>magic := m\<rparr>) = same_frames s t"
  "same_frames (s\<lparr>magic := m\<rparr>) t = same_frames s t"
  "same_frames s (upd_group i f t) = same_frames s t"
  "same_frames s (locked l t) = same_frames s t" "same_frames s (spinlock_unlock l t) = same_frames s t"
  by (simp_all add: same_frames_def upd_group_def locked_def bump_preempt_def)

lemma upd_cnt_frames: "upd_cnt c f s = Some s' \<Longrightarrow> same_frames s s'"
  by (auto simp: upd_cnt_def same_frames_def elim!: bind_eq_SomeE split: if_splits)

lemma find_block_frames: "kmalloc_find_block i sz al bd s = Some (r, s') \<Longrightarrow> same_frames s s'"
  by (auto simp: kmalloc_find_block_def elim!: bind_eq_SomeE split: if_splits option.splits)

lemma link_block_frames: "link_block i c k s = Some s' \<Longrightarrow> same_frames s s'"
  by (auto simp: link_block_def Let_def same_frames_def upd_group_def elim!: bind_eq_SomeE)

lemma spinlock_lock_frames: "spinlock_lock l s = Some s' \<Longrightarrow> same_frames s s'"
  by (auto simp: spinlock_lock_def bump_preempt_def Let_def same_frames_def split: if_splits)

lemma new_cache_frames:
  assumes "new_cache i a s = Some s'"
  shows "page_bitmap s' = page_bitmap s \<and> running_pid s' = running_pid s \<and>
    (\<forall>c. c \<noteq> PHYS_TO_VIRT a \<longrightarrow> (caches s' c = None \<longleftrightarrow> caches s c = None))"
proof -
  obtain g where g: "group (s\<lparr>magic := \<lambda>x. if block2cache x = PHYS_TO_VIRT a then 0 else magic s x\<rparr>) i = Some g"
    using assms by (auto simp: new_cache_def Let_def elim!: bind_eq_SomeE)
  then obtain xs t where f: "fold_option (link_block i (PHYS_TO_VIRT a)) xs t = Some s'"
      and t: "page_bitmap t = page_bitmap s" "running_pid t = running_pid s" "\<And>c. c \<noteq> PHYS_TO_VIRT a \<Longrightarrow> caches t c = caches s c"
    using assms by (auto simp: new_cache_def Let_def upd_group_def elim!: bind_eq_SomeE)
  have "same_frames t s'"
    by (rule fold_option_invariant [OF f]) (auto intro: same_frames_trans link_block_frames)
  then show ?thesis using t by (simp add: same_frames_def)
qed

text \<open>Taking a single frame.\<close>

lemma alloc_frame:
  assumes inv: "kinv s"
  obtains (ok) p s' where "alloc_physical_page 1 s = Some (K_SUCCESS, Some (page_addr p), s')"
      "p \<in> free_set s" "free_set s' = free_set s - {p}" "kinv s'" "live s' = live s" "frames_kept s s'"
      "owned p s'" "p < 16384" "locks s' = locks s" "alloc_state.more s' = alloc_state.more s"
      "running_pid s' = running_pid s"
  | (fail) r where "alloc_physical_page 1 s = Some (K_NOMEM, r, s)" "free_set s = {}"
proof -
  note K = kinvD [OF inv]
  show thesis
  proof (cases rule: alloc_physical_page_cases [OF K(1,2) one_neq_zero, case_names ok fail])
    case (fail r)
    have "free_set s = {}"
    proof (rule ccontr)
      assume "free_set s \<noteq> {}"
      then obtain q where "q \<in> free_set s" by blast
      then have "q + unat (1 :: u64) \<le> page_limit s \<and> {q..<q + unat (1 :: u64)} \<subseteq> free_set s"
        by (auto simp: free_set_def)
      then show False using fail(2) by blast
    qed
    then show thesis using fail(1) that(2) by blast
  next
    case (ok p b)
    define s1 where "s1 = s\<lparr>page_bitmap := b, free_pages := free_pages s - 1\<rparr>"
    have run: "{p..<p + unat (1 :: u64)} = {p}" by auto
    have p: "p \<in> free_set s" using ok(3) unfolding run by simp
    have fs: "free_set s1 = free_set s - {p}" using ok(7) unfolding run s1_def by simp
    have s1: "alloc_physical_page 1 s = Some (K_SUCCESS, Some (page_addr p), s1)" "phys_inv s1"
        "locks s1 = locks s" "page_limit s1 = page_limit s" "mem_groups s1 = mem_groups s"
        "caches s1 = caches s" "magic s1 = magic s" "running_pid s1 = running_pid s"
      using ok(1,4,6) by (simp_all add: s1_def page_addr_def)
    have lim: "p < page_limit s" using p by (simp add: free_set_def)
    have p0: "0 < p" using p K(1) by (auto simp: phys_inv_def intro: gr0I)
    have "phys_wf s" using K(1) by (simp add: phys_inv_def)
    then have p16: "p < 16384" using phys_wfD lim by (meson order_less_le_trans)
    have fresh: "caches s (cache_addr p) = None"
      using cache_page [OF inv _ p16] p by (cases "caches s (cache_addr p)") auto
    have own: "owned p s1" using p0 lim fs fresh by (simp add: owned_def s1(4,6))
    have kept: "frames_kept s s1"
      using fs by (auto simp: frames_kept_def owned_def s1(4,6,8))
    show thesis
      using that(1) [OF s1(1) p fs] kinv_alloc_page [OF inv s1(2-4) _ s1(5-7)] fs kept own p16 s1(3,8)
      by (auto simp: s1_def)
  qed
qed

text \<open>A new cache takes a frame that was free.\<close>

lemma new_cache_kept:
  assumes nc: "new_cache i (page_addr p) s = Some s'" and p: "free_set s0 = insert p (free_set s)"
    and k: "frames_kept s0 s" "p < 16384" "kinv s0"
  shows "frames_kept s0 s'"
proof -
  note F = new_cache_frames [OF nc, folded cache_addr_page]
  have "owned q s'" if q: "q < 16384" "owned q s0" for q
  proof -
    have "q \<noteq> p" using p q by (auto simp: owned_def)
    then have "cache_addr q \<noteq> cache_addr p" using cache_addr_inj [OF q(1) k(2)] by simp
    moreover have "owned q s" using k(1) q by (simp add: frames_kept_def)
    ultimately show ?thesis using F phys_inv_cong(2,3) [of s' s] by (simp add: owned_def)
  qed
  then show ?thesis using k(1) F phys_inv_cong(2,3) [of s' s] by (simp add: frames_kept_def)
qed

lemma refill_kept:
  assumes inv: "kinv s" and rf: "refill i s = Some (st, s')"
  shows "frames_kept s s'"
proof (cases "bl s i = []")
  case False
  then show ?thesis using rf by (simp add: refill_def)
next
  case True
  show ?thesis
  proof (cases rule: alloc_frame [OF inv, case_names ok fail])
    case (ok p t)
    then have "new_cache i (page_addr p) t = Some s'"
      using rf True by (auto simp: refill_def ERROR_def elim!: bind_eq_SomeE)
    moreover have "free_set s = insert p (free_set t)" using ok(2,3) by auto
    ultimately show ?thesis using ok inv by (intro new_cache_kept [of i p t s' s]) auto
  next
    case (fail r)
    then show ?thesis using rf True by (simp add: refill_def ERROR_def)
  qed
qed

lemma kmalloc_kept:
  assumes inv: "kinv s" and lf: "groups_unlocked s" and sz: "sz \<le> MAX_ALLOCATE_MEMORY_SIZE"
    and km: "kmalloc sz al bd s = Some (st, r, s')"
  shows "frames_kept s s'"
proof -
  obtain i where i: "select_group (mem_groups s) sz 0 = Some i" "i < 13"
    using select_group_kinv [OF inv sz] by blast
  have len: "i < length (mem_groups s)" using kinvD(3) [OF inv] i(2) by simp
  have l: "lock_free (MemGroupLock i) s" using lf i(2) by (simp add: groups_unlocked_def)
  let ?s = "locked (MemGroupLock i) s"
  obtain st1 t where t: "refill i ?s = Some (st1, t)"
    using km unfolding kmalloc_steps [OF sz i(1) l len] by (auto elim!: bind_eq_SomeE)
  have "kinv ?s" using inv by simp
  from refill_kept [OF this t] have k: "frames_kept s t"
    using frames_kept_trans same_frames_kept [of s ?s] by simp
  have "same_frames t s'"
    using km t unfolding kmalloc_steps [OF sz i(1) l len] Let_def
    by (auto elim!: bind_eq_SomeE split: if_splits option.splits dest!: find_block_frames upd_cnt_frames)
      (auto simp: same_frames_def)
  then show ?thesis using k frames_kept_trans same_frames_kept by blast
qed

text \<open>Page tables.\<close>

lemma new_table_kept:
  assumes inv: "pt_inv s" and nt: "new_table s = Some (p, s')"
  shows "frames_kept s s'"
proof -
  obtain st r s1 where km: "kmalloc PT_SIZE 0 PT_SIZE s = Some (st, r, s1)" "s' = clear_table (the r) s1"
    using nt by (auto simp: new_table_def elim!: bind_eq_SomeE split: if_splits)
  have "frames_kept s s1"
    using inv km(1) by (intro kmalloc_kept) (auto simp: pt_inv_def PT_SIZE_def MAX_ALLOCATE_MEMORY_SIZE_def)
  moreover have "same_frames s1 s'" by (simp add: km(2) clear_table_def same_frames_def)
  ultimately show ?thesis using frames_kept_trans same_frames_kept by blast
qed

lemma wr_frames [simp]: "same_frames s (wr t i x u) = same_frames s u"
  by (simp add: wr_def same_frames_def)

lemma ensure_entry_kept:
  assumes inv: "pt_inv s" and en: "ensure_entry t i s = Some s'"
  shows "frames_kept s s'" and "pt_inv s'"
proof -
  have "frames_kept s s' \<and> pt_inv s'"
  proof (cases "present (rd s t i)")
    case True
    then show ?thesis using en inv by (simp add: ensure_entry_def)
  next
    case False
    then obtain p s1 where nt: "new_table s = Some (p, s1)" "s' = wr t i (p OR PG_US_U OR PG_RW_W OR PG_P) s1"
      using en by (auto simp: ensure_entry_def elim!: bind_eq_SomeE)
    have "pt_inv s1" by (rule new_table_spec [OF inv nt(1)])
    moreover have "frames_kept s1 s'" by (rule same_frames_kept) (simp add: nt(2))
    ultimately show ?thesis using new_table_kept [OF inv nt(1)] frames_kept_trans nt(2) by auto
  qed
  then show "frames_kept s s'" "pt_inv s'" by simp_all
qed

lemma page_map_kept:
  assumes inv: "pt_inv s" and pm: "page_map r pa v s = Some s'"
  shows "frames_kept s s'"
proof -
  obtain s1 s2 t where s1: "ensure_entry r (pml4t_index (v AND NOT (PG_SIZE - 1))) s = Some s1"
      "ensure_entry t (pdpt_index (v AND NOT (PG_SIZE - 1))) s1 = Some s2" "same_frames s2 s'"
    using pm by (auto simp: page_map_def Let_def elim!: bind_eq_SomeE)
  note E = ensure_entry_kept [OF inv s1(1)]
  have "frames_kept s1 s2" by (rule ensure_entry_kept(1) [OF E(2) s1(2)])
  then show ?thesis using E(1) same_frames_kept [OF s1(3)] frames_kept_trans by blast
qed

text \<open>\<^verbatim>\<open>page_map\<close> and \<^verbatim>\<open>page_unmap\<close>, with their effect on the frames.\<close>

lemma page_map_spec:
  assumes "pt_inv s" and "pt_wf s r" and "user_addr v" and "2 \<le> card (free_set s)"
  obtains s' where "page_map r pa v s = Some s'" and "pt_inv s'" and "pt_wf s' r" and "cr3 s' = cr3 s"
    and "frames_kept s s'"
    and "\<And>w. user_addr w \<Longrightarrow> to_physical_address s' r w =
       (if same_page v w then page_base pa + addr_offset w else to_physical_address s r w)"
  using page_map_effect [OF assms, of pa] page_map_kept [OF assms(1)] by blast

text \<open>Giving back a frame of a client changes nothing else.\<close>

lemma release_frame:
  assumes inv: "kinv s" and own: "owned k s"
  obtains s' where "free_physical_page (page_addr k) 1 s = Some s'" and "kinv s'" and "live s' = live s"
    and "free_set s' = insert k (free_set s)" and "locks s' = locks s"
    and "page_limit s' = page_limit s" and "alloc_state.more s' = alloc_state.more s"
    and "caches s' = caches s" and "running_pid s' = running_pid s"
proof -
  note K = kinvD [OF inv]
  have run: "{k..<k + unat (1 :: u64)} = {k}" by auto
  have kk: "0 < k" "k + unat (1 :: u64) \<le> page_limit s" "{k..<k + unat (1 :: u64)} \<inter> free_set s = {}"
    using own by (auto simp: owned_def)
  obtain b where b: "free_physical_page (page_addr k) 1 s = Some (s\<lparr>page_bitmap := b, free_pages := free_pages s + 1\<rparr>)"
      "phys_inv (s\<lparr>page_bitmap := b, free_pages := free_pages s + 1\<rparr>)"
      "page_limit (s\<lparr>page_bitmap := b\<rparr>) = page_limit s"
      "free_set (s\<lparr>page_bitmap := b\<rparr>) = free_set s \<union> {k..<k + unat (1 :: u64)}"
    by (rule free_physical_page_ok [OF K(1,2) one_neq_zero kk]) blast
  define t where "t = s\<lparr>page_bitmap := b, free_pages := free_pages s + 1\<rparr>"
  have t: "phys_inv t" "page_limit t = page_limit s" "free_set t = insert k (free_set s)" "locks t = locks s"
      "mem_groups t = mem_groups s" "caches t = caches s" "magic t = magic s"
    using b(2-4) unfolding run by (simp_all add: t_def page_limit_def free_set_def)
  have "cache_wf t c ch" if c: "caches s c = Some ch" for c ch
  proof -
    have "cache_wf s c ch" by (rule K(5) [OF c])
    moreover have "c \<noteq> cache_addr k" using c own by (auto simp: owned_def)
    ultimately show ?thesis unfolding cache_wf_def free_in_def t by blast
  qed
  moreover have "free_list_wf t i = free_list_wf s i" for i
    by (simp add: free_list_wf_def is_block_def t)
  ultimately have "kinv t" using K t(1) by (simp add: kinv_def t lock_free_def)
  moreover have "live t = live s" by (rule live_cong) (simp_all add: t)
  ultimately show thesis using that [of t] b(1) t by (simp add: t_def)
qed

end
