(* ===== verification/UserPages.thy ===== *)
theory UserPages
  imports Frames KernServices
begin

text \<open>
  The pages of a process, from the request to the release: \<^verbatim>\<open>kern_allocate_page\<close> and
  \<^verbatim>\<open>kern_free_page\<close> of \<^verbatim>\<open>src/kernel/service/kern_mem.c\<close>, and the page fault handler of
  \<^verbatim>\<open>src/arch/x86_64/mem/page.c\<close>, which gives a page its frame when it is first touched. The proofs
  rest on those of the range tables, the frames and the page tables.
\<close>

subsection \<open>Pages\<close>

definition page_no :: "nat \<Rightarrow> nat" where "page_no a = a div 2097152"

text \<open>A set of whole pages.\<close>

definition paged :: "nat set \<Rightarrow> bool" where
  "paged X \<longleftrightarrow> (\<forall>a b. page_no a = page_no b \<longrightarrow> a \<in> X \<longrightarrow> b \<in> X)"

lemma paged_ops: "paged X \<Longrightarrow> paged Y \<Longrightarrow> paged (X \<union> Y)" "paged X \<Longrightarrow> paged Y \<Longrightarrow> paged (X - Y)"
  unfolding paged_def by (blast, metis DiffE DiffI)

lemma page_range: "unat v mod 2097152 = 0 \<Longrightarrow> range_of v PG_SIZE = {a. page_no a = page_no (unat v)}"
  by (auto simp: range_of_def page_no_def PG_SIZE_def div_nat_eqI elim!: dvdE dest!: mod_0_imp_dvd)

lemma paged_range: "unat v mod 2097152 = 0 \<Longrightarrow> paged (range_of v PG_SIZE)"
  by (simp add: page_range paged_def)

lemma unat_page_base: "unat (page_base a) = page_no (unat a) * 2097152"
proof -
  have "page_base a = block2cache a"
    by (simp add: page_base_def block2cache_def PG_SIZE_def)
  then show ?thesis by (simp add: unat_block2cache page_no_def)
qed

lemma page_base_base [simp]: "page_base (page_base a) = page_base a"
  by (simp add: word_unat_eq_iff unat_page_base page_no_def)

text \<open>The indices of an address of the lower half.\<close>

lemma unat_index:
  "unat (pml4t_index a) = unat a div 2 ^ 39 mod 512" "unat (pdpt_index a) = unat a div 2 ^ 30 mod 512"
  "unat (pdt_index a) = unat a div 2 ^ 21 mod 512"
proof -
  have m: "unat (drop_bit n a AND 0x1ff) = unat a div 2 ^ n mod 512" for n
  proof -
    have "drop_bit n a AND 0x1ff = take_bit 9 (drop_bit n a)"
      by (simp add: take_bit_eq_mask mask_eq_exp_minus_1)
    then have "unat (drop_bit n a AND 0x1ff) = take_bit 9 (unat (drop_bit n a))"
      by (simp add: unsigned_take_bit_eq)
    moreover have "unat (drop_bit n a) = drop_bit n (unat a)"
      using take_bit_nat_eq_self [OF unsigned_less [of a]] by (simp add: unsigned_drop_bit_eq)
    ultimately have "unat (drop_bit n a AND 0x1ff) = take_bit 9 (drop_bit n (unat a))" by simp
    then show ?thesis by (simp add: take_bit_eq_mod drop_bit_eq_div)
  qed
  show "unat (pml4t_index a) = unat a div 2 ^ 39 mod 512" "unat (pdpt_index a) = unat a div 2 ^ 30 mod 512"
    "unat (pdt_index a) = unat a div 2 ^ 21 mod 512"
    unfolding pml4t_index_def pdpt_index_def pdt_index_def by (rule m)+
qed

lemma low_user: "unat a < 2 ^ 47 \<Longrightarrow> user_addr a"
  by (simp add: user_addr_def user_index_def unat_index div_less_iff_less_mult less_mult_imp_div_less)

lemma low_same_page:
  assumes "unat a < 2 ^ 47" and "unat b < 2 ^ 47"
  shows "same_page a b \<longleftrightarrow> page_no (unat a) = page_no (unat b)"
proof -
  have d: "unat x div 2 ^ 39 = page_no (unat x) div 2 ^ 18" "unat x div 2 ^ 30 = page_no (unat x) div 2 ^ 9"
    "unat x div 2 ^ 21 = page_no (unat x)" for x :: addr
    by (simp_all add: page_no_def div_mult2_eq [symmetric])
  have l: "page_no (unat x) < 2 ^ 26" if "unat x < 2 ^ 47" for x :: addr
    using that by (simp add: page_no_def less_mult_imp_div_less)
  have split: "n = (n div 2 ^ 18 mod 512) * 262144 + (n div 2 ^ 9 mod 512) * 512 + n mod 512"
    if "n < 2 ^ 26" for n :: nat
  proof -
    have "n div 512 div 512 mod 512 = n div 512 div 512"
      using that by (simp add: div_mult2_eq [symmetric] less_mult_imp_div_less)
    moreover have "n = n div 512 * 512 + n mod 512" "n div 512 = n div 512 div 512 * 512 + n div 512 mod 512"
      by simp_all
    ultimately have "n = (n div 512 div 512 mod 512) * 262144 + (n div 512 mod 512) * 512 + n mod 512"
      by linarith
    moreover have "n div 2 ^ 18 = n div 512 div 512" "n div 2 ^ 9 = n div 512"
      by (simp_all add: div_mult2_eq [symmetric])
    ultimately show ?thesis by (simp only:)
  qed
  show ?thesis
    unfolding same_page_def word_unat_eq_iff unat_index d
    using split [OF l [OF assms(1)]] split [OF l [OF assms(2)]] by metis
qed

subsection \<open>Address spaces\<close>

definition user_space :: "nat set" where
  "user_space = {unat USER_VADDR_START..<unat USER_STACK_VADDR_BASE}"

lemma user_space_low: "a \<in> user_space \<Longrightarrow> a < 2 ^ 47"
  by (simp add: user_space_def USER_STACK_VADDR_BASE_def PG_SIZE_def)

abbreviation unused :: "pid \<Rightarrow> 'a proc_state_scheme \<Rightarrow> nat set" where
  "unused p s \<equiv> addrs (vmm_free (tasks s p))"

abbreviation in_use :: "pid \<Rightarrow> 'a proc_state_scheme \<Rightarrow> nat set" where
  "in_use p s \<equiv> addrs (vmm_using (tasks s p))"

definition space_ok :: "pid \<Rightarrow> 'a proc_state_scheme \<Rightarrow> bool" where
  "space_ok p s \<longleftrightarrow> pt_inv s \<and> pt_wf s (page_dir (tasks s p)) \<and>
     vmm_inv (vmm_free (tasks s p)) \<and> vmm_inv (vmm_using (tasks s p)) \<and>
     paged (unused p s) \<and> paged (in_use p s) \<and> unused p s \<inter> in_use p s = {} \<and>
     unused p s \<union> in_use p s \<subseteq> user_space"

lemma space_okD:
  assumes "space_ok p s"
  shows "pt_inv s" "pt_wf s (page_dir (tasks s p))" "vmm_inv (vmm_free (tasks s p))"
    "vmm_inv (vmm_using (tasks s p))" "paged (unused p s)" "paged (in_use p s)"
    "unused p s \<inter> in_use p s = {}" "unused p s \<union> in_use p s \<subseteq> user_space"
  using assms by (auto simp: space_ok_def)

text \<open>What the tables of pages depend on.\<close>

lemma pt_cong:
  assumes "pt_mem s' = pt_mem s"
  shows "to_physical_address s' r v = to_physical_address s r v"
    and "live s' = live s \<Longrightarrow> pt_wf s' r = pt_wf s r"
proof -
  have rd: "rd s' t i = rd s t i" for t i using assms by (simp add: rd_def)
  show "to_physical_address s' r v = to_physical_address s r v"
    by (simp add: to_physical_translate translate_def rd)
  show "live s' = live s \<Longrightarrow> pt_wf s' r = pt_wf s r"
    by (simp add: pt_wf_def table_slots_def pointee_def [abs_def] rd)
qed

lemma upd_task_simps [simp]:
  "pt_mem (upd_task p f s) = pt_mem s" "cr3 (upd_task p f s) = cr3 s"
  by (simp_all add: upd_task_def)

lemma upd_task_frames [simp]: "same_frames s (upd_task p f t) = same_frames s t"
  by (simp add: same_frames_def upd_task_def)

lemma upd_task_tables [simp]:
  "pt_inv (upd_task p f s) = pt_inv s"
  "to_physical_address (upd_task p f s) r v = to_physical_address s r v"
  "pt_wf (upd_task p f s) r = pt_wf s r"
  by (simp_all add: pt_inv_def pt_cong [of "upd_task p f s" s])

lemma activate_simps [simp]:
  "pt_mem (page_table_activate p s) = pt_mem s" "tasks (page_table_activate p s) = tasks s"
  "running_pid (page_table_activate p s) = running_pid s" "locks (page_table_activate p s) = locks s"
  by (simp_all add: page_table_activate_def set_page_table_def)

lemma activate_tables [simp]:
  "pt_inv (page_table_activate p s) = pt_inv s" "live (page_table_activate p s) = live s"
  "to_physical_address (page_table_activate p s) r v = to_physical_address s r v"
  "pt_wf (page_table_activate p s) r = pt_wf s r" "same_frames s (page_table_activate p s)"
  "free_set (page_table_activate p s) = free_set s"
proof -
  note A = page_table_activate_def set_page_table_def
  have k: "kinv (page_table_activate p s) = kinv s" "groups_unlocked (page_table_activate p s) = groups_unlocked s"
    "live (page_table_activate p s) = live s" "free_set (page_table_activate p s) = free_set s"
    by (rule alloc_fields_cong; simp add: A)+
  then show "pt_inv (page_table_activate p s) = pt_inv s" "live (page_table_activate p s) = live s"
    "free_set (page_table_activate p s) = free_set s"
    by (simp_all add: pt_inv_def)
  show "to_physical_address (page_table_activate p s) r v = to_physical_address s r v"
    "pt_wf (page_table_activate p s) r = pt_wf s r"
    using k(3) by (auto intro!: pt_cong)
  show "same_frames s (page_table_activate p s)" by (simp add: same_frames_def A)
qed

text \<open>Page tables are no part of the tasks.\<close>

lemma new_table_more:
  assumes "new_table s = Some (p, s')"
  shows "pt_state.more s' = pt_state.more s"
proof -
  obtain st r s1 where km: "kmalloc PT_SIZE 0 PT_SIZE s = Some (st, r, s1)" "s' = clear_table (the r) s1"
    using assms by (auto simp: new_table_def elim!: bind_eq_SomeE split: if_splits)
  have "pt_state.more s1 = pt_state.more s" using kmalloc_more [OF km(1)] by (cases s1; cases s) simp
  then show ?thesis by (simp add: km(2) clear_table_def)
qed

lemma ensure_entry_more: "ensure_entry t i s = Some s' \<Longrightarrow> pt_state.more s' = pt_state.more s"
  by (auto simp: ensure_entry_def wr_def dest!: new_table_more elim!: bind_eq_SomeE split: if_splits)

lemma page_map_more: "page_map r pa v s = Some s' \<Longrightarrow> pt_state.more s' = pt_state.more s"
  by (auto simp: page_map_def Let_def wr_def dest!: ensure_entry_more elim!: bind_eq_SomeE)

lemma more_tasks:
  "pt_state.more s' = pt_state.more s \<Longrightarrow> tasks s' = tasks s"
  "alloc_state.more t' = alloc_state.more t \<Longrightarrow> tasks t' = tasks t \<and> pt_mem t' = pt_mem t \<and> cr3 t' = cr3 t"
  by (cases s'; cases s; simp) (cases t'; cases t; simp)

subsection \<open>Taking a range of whole pages\<close>

lemma paged_start:
  assumes inv: "vmm_inv v" and pg: "paged (addrs v)" and b: "b \<in> set (active v)"
  shows "rs b mod 2097152 = 0"
proof (rule ccontr)
  assume m: "rs b mod 2097152 \<noteq> 0"
  have "rs b < re b" using inv b ranges_okD [of "active v" b] by (simp add: vmm_inv_def)
  then have "rs b \<in> addrs v" using b by (auto simp: addrs_def covers_def)
  moreover have "page_no (rs b) = page_no (rs b - 1)"
    using m unfolding page_no_def by (cases "rs b") (auto simp: div_Suc)
  ultimately have "rs b - 1 \<in> addrs v" using pg unfolding paged_def by blast
  moreover have "0 < rs b" using m by (cases "rs b = 0") simp_all
  ultimately show False using block_start_gap [OF inv b] by blast
qed

text \<open>A table of pages has a block of a page unless it is empty.\<close>

lemma paged_block:
  assumes inv: "vmm_inv v" and pg: "paged (addrs v)" and ne: "addrs v \<noteq> {}"
  shows "\<exists>b \<in> set (active v). unat PG_SIZE \<le> unat (vb_size b)"
proof -
  obtain a where a: "a \<in> addrs v" using ne by blast
  define P where "P = {page_no a * 2097152..<page_no a * 2097152 + 2097152}"
  have "x \<in> addrs v" if "x \<in> P" for x
  proof -
    have "page_no x = page_no a"
      using that by (auto simp: P_def page_no_def intro!: div_nat_eqI)
    then show ?thesis using pg a unfolding paged_def by metis
  qed
  then have "P \<subseteq> covers (active v)" by (auto simp: addrs_def)
  moreover have "ranges_ok (active v)" using inv by (simp add: vmm_inv_def)
  ultimately obtain b where "b \<in> set (active v)" "rs b \<le> page_no a * 2097152" "page_no a * 2097152 + 2097152 \<le> re b"
    using range_in_one_block [of "active v" "page_no a * 2097152" "page_no a * 2097152 + 2097152"]
    unfolding P_def by auto
  then show ?thesis by (intro bexI [of _ b]) (auto simp: re_def rs_def PG_SIZE_def)
qed

lemma take_page:
  assumes inv: "vmm_inv v" and pg: "paged (addrs v)" and us: "addrs v \<subseteq> user_space"
  obtains (taken) a v' where "vmm_alloc v PG_SIZE = Some (K_SUCCESS, Some a, v')" "vmm_inv v'"
      "unat a mod 2097152 = 0" "range_of a PG_SIZE \<subseteq> addrs v" "addrs v' = addrs v - range_of a PG_SIZE"
      "unat a + unat PG_SIZE < 2 ^ 64"
      "using_blocks v' < total_blocks v' \<or> unat a + unat PG_SIZE \<in> addrs v'"
  | (empty) "vmm_alloc v PG_SIZE = Some (K_OUT_OF_RESOURCE, None, v)" "addrs v = {}"
proof (cases "\<exists>b \<in> set (active v). unat PG_SIZE \<le> unat (vb_size b)")
  case True
  have "0 < unat PG_SIZE" by (simp add: PG_SIZE_def)
  from vmm_alloc_spec [OF inv this] True obtain a v' b where a: "vmm_alloc v PG_SIZE = Some (K_SUCCESS, Some a, v')"
      "vmm_inv v'" "range_of a PG_SIZE \<subseteq> addrs v" "addrs v' = addrs v - range_of a PG_SIZE"
      "b \<in> set (active v)" "unat a = rs b" "using_blocks v' < total_blocks v' \<or> unat a + unat PG_SIZE \<in> addrs v'"
    by auto
  have "unat a \<in> range_of a PG_SIZE" by (simp add: range_of_def PG_SIZE_def)
  then have "unat a < 2 ^ 47" using a(3) us user_space_low by blast
  then show thesis
    using taken [OF a(1,2) _ a(3,4) _ a(7)] paged_start [OF inv pg a(5)] a(6) by (simp add: PG_SIZE_def)
next
  case False
  have "0 < unat PG_SIZE" by (simp add: PG_SIZE_def)
  from vmm_alloc_spec [OF inv this] False show thesis
    using empty paged_block [OF inv pg] by auto
qed

lemma put_page:
  assumes inv: "vmm_inv v" and a: "range_of a PG_SIZE \<inter> addrs v = {}" "unat a + unat PG_SIZE < 2 ^ 64"
  obtains (put) v' where "vmm_add_range v a PG_SIZE = Some (K_SUCCESS, v')" "vmm_inv v'"
      "addrs v' = addrs v \<union> range_of a PG_SIZE"
  | (full) "vmm_add_range v a PG_SIZE = Some (K_ERROR, v)" "using_blocks v = total_blocks v"
      "unat a + unat PG_SIZE \<notin> addrs v"
proof -
  have "0 < unat PG_SIZE" by (simp add: PG_SIZE_def)
  from vmm_add_range_spec [OF inv this a(2,1)] show thesis using that by blast
qed

subsection \<open>Requests\<close>

text \<open>C8: \<^verbatim>\<open>kern_allocate_page\<close> moves one whole page from the unused to the used addresses of the
  process and returns its address; it maps nothing. It fails only when no address is unused or the table of
  used ranges is full, and then every set is as before, also when the page had already been taken out.\<close>

theorem kern_allocate_page_correct:
  fixes s :: "'a proc_state_scheme"
  assumes ok: "space_ok me s" and me: "running_pid s = me"
  shows "\<exists>st mg' (s' :: 'a proc_state_scheme). kern_allocate_page mg s = Some (Returns st mg' s') \<and> space_ok me s' \<and>
    (\<forall>r w. to_physical_address s' r w = to_physical_address s r w) \<and>
    (if st = SYSCALL_SUCCESS then \<exists>a. mg' = set_word 0 a mg \<and> unat a mod 2097152 = 0 \<and>
       range_of a PG_SIZE \<subseteq> unused me s \<and> unused me s' = unused me s - range_of a PG_SIZE \<and>
       in_use me s' = in_use me s \<union> range_of a PG_SIZE
     else st = SYSCALL_ERROR \<and> mg' = mg \<and> unused me s' = unused me s \<and> in_use me s' = in_use me s \<and>
       (unused me s = {} \<or> using_blocks (vmm_using (tasks s me)) = total_blocks (vmm_using (tasks s me))))"
proof -
  note S = space_okD [OF ok]
  have us: "unused me s \<subseteq> user_space" using S(8) by simp
  show ?thesis
  proof (cases rule: take_page [OF S(3,5) us, case_names taken empty])
    case empty
    define s' where "s' = upd_task me (vmm_free_update (\<lambda>_. vmm_free (tasks s me))) s"
    have "kern_allocate_page mg s = Some (Returns SYSCALL_ERROR mg s')"
      using empty by (simp add: kern_allocate_page_def me s'_def ERROR_def Let_def)
    moreover have "space_ok me s'" using ok by (simp add: s'_def space_ok_def)
    ultimately show ?thesis using empty(2) by (simp add: s'_def)
  next
    case (taken a v)
    note T = taken
    have dis: "range_of a PG_SIZE \<inter> in_use me s = {}" using T(4) S(7) by blast
    show ?thesis
    proof (cases rule: put_page [OF S(4) dis T(6), case_names put full])
      case (put u)
      define s' where "s' = upd_task me (vmm_using_update (\<lambda>_. u)) (upd_task me (vmm_free_update (\<lambda>_. v)) s)"
      have "kern_allocate_page mg s = Some (Returns SYSCALL_SUCCESS (set_word 0 a mg) s')"
        using T(1) put(1) by (simp add: kern_allocate_page_def me s'_def ERROR_def Let_def)
      moreover have "space_ok me s'"
        using S T put us paged_ops paged_range [OF T(3)] by (auto simp: s'_def space_ok_def)
      ultimately show ?thesis using T put by (auto simp: s'_def)
    next
      case full
      have dis2: "range_of a PG_SIZE \<inter> addrs v = {}" using T(5) by blast
      show ?thesis
      proof (cases rule: put_page [OF T(2) dis2 T(6), case_names put2 full2])
        case (put2 w)
        define s' where "s' = upd_task me (vmm_free_update (\<lambda>_. w))
          (upd_task me (vmm_using_update (\<lambda>_. vmm_using (tasks s me))) (upd_task me (vmm_free_update (\<lambda>_. v)) s))"
        have "kern_allocate_page mg s = Some (Returns SYSCALL_ERROR mg s')"
          using T(1) full(1) put2(1) by (simp add: kern_allocate_page_def me s'_def ERROR_def Let_def)
        moreover have "addrs w = unused me s" using put2(3) T(4,5) by blast
        ultimately show ?thesis
          using S put2(2) full(2) by (auto simp: s'_def space_ok_def)
      next
        case full2
        then show ?thesis using T(7) by auto
      qed
    qed
  qed
qed

text \<open>A page fault of a process. An address is served when its page is in use; because \<^verbatim>\<open>vmm_find\<close>
  includes the end of a range, so is the page behind one.\<close>

definition served :: "pid \<Rightarrow> 'a proc_state_scheme \<Rightarrow> addr \<Rightarrow> bool" where
  "served p s a \<longleftrightarrow> unat a \<in> in_use p s \<or>
     (0 < unat (page_base a) \<and> unat (page_base a) - 1 \<in> in_use p s)"

lemma page_base_frame: "p < 16384 \<Longrightarrow> page_base (page_addr p) = page_addr p"
  using page_addr_props(1) [of p] by (simp add: word_unat_eq_iff unat_page_base page_no_def)

lemma vmm_find_served:
  assumes "space_ok me s"
  shows "vmm_find (vmm_using (tasks s me)) (page_base a) = Some (if served me s a then 1 else 0)"
proof -
  note S = space_okD [OF assms]
  have "page_no (unat (page_base a)) = page_no (unat a)" by (simp add: unat_page_base page_no_def)
  then have "unat (page_base a) \<in> in_use me s \<longleftrightarrow> unat a \<in> in_use me s"
    using S(6) unfolding paged_def by metis
  then show ?thesis unfolding vmm_find_set [OF S(4)] served_def by simp
qed

text \<open>A table in use is not at address 0.\<close>

lemma root_not_null:
  assumes "pt_wf s r" shows "r \<noteq> NULL"
proof
  assume "r = NULL"
  then have "PHYS_TO_VIRT NULL \<in> live s" using assms pt_wfD(2) by blast
  then obtain i p j where b: "i < 13" "PHYS_TO_VIRT NULL = blk p i j" "j < nbn i" "p < 16384"
    by (auto simp: live_def is_block_def)
  have "unat (blk p i j) = vma" using b(2) [symmetric] by (simp add: PHYS_TO_VIRT_def KERNEL_VMA_BASE_def vma_def)
  then have "(j + 1) * bsz i = 0" using unat_blk [OF b(4,1,3)] by simp
  then show False using bsz_bounds [OF b(1)] by simp
qed

lemma page_fault_served:
  fixes s :: "'a proc_state_scheme"
  assumes ok: "space_ok me s" and me: "running_pid s = me" and c: "cr3 s \<noteq> KERNEL_PAGE_DIR_TABLE_POS"
    and sv: "served me s a" and low: "unat a < 2 ^ 47" and n: "3 \<le> card (free_set s)"
  obtains p s' where "do_page_fault a s = Some (Runs s')" and "space_ok me s'" and "p \<in> free_set s"
    and "p < 16384" and "owned p s'" and "tasks s' = tasks s" and "running_pid s' = running_pid s"
    and "\<And>w. unat w < 2 ^ 47 \<Longrightarrow> to_physical_address s' (page_dir (tasks s me)) w =
          (if page_no (unat w) = page_no (unat a) then page_addr p + addr_offset w
           else to_physical_address s (page_dir (tasks s me)) w)"
proof -
  note S = space_okD [OF ok]
  define r where "r = page_dir (tasks s me)"
  have k: "kinv s" "groups_unlocked s" using S(1) by (simp_all add: pt_inv_def)
  have "free_set s \<noteq> {}" using n by auto
  then obtain p s1 where A: "alloc_physical_page 1 s = Some (K_SUCCESS, Some (page_addr p), s1)"
      "p \<in> free_set s" "free_set s1 = free_set s - {p}" "kinv s1" "live s1 = live s" "frames_kept s s1"
      "owned p s1" "p < 16384" "locks s1 = locks s" "alloc_state.more s1 = alloc_state.more s"
    using alloc_frame [OF k(1)] by metis
  note M = more_tasks(2) [OF A(10)]
  have i1: "pt_inv s1" using A(4,9) k(2) by (simp add: pt_inv_def groups_unlocked_def lock_free_def)
  have w1: "pt_wf s1 r" using pt_cong(2) [of s1 s r] M A(5) S(2) by (simp add: r_def)
  have c1: "2 \<le> card (free_set s1)" using n A(2,3) by simp
  obtain s2 where B: "page_map r (page_addr p) (page_base a) s1 = Some s2" "pt_inv s2" "pt_wf s2 r" "frames_kept s1 s2"
      "\<And>w. user_addr w \<Longrightarrow> to_physical_address s2 r w =
         (if same_page (page_base a) w then page_base (page_addr p) + addr_offset w else to_physical_address s1 r w)"
  proof -
    have "unat (page_base a) < 2 ^ 47"
      using low by (simp add: unat_page_base page_no_def le_less_trans [OF div_times_less_eq_dividend])
    from page_map_spec [OF i1 w1 low_user [OF this] c1] that show thesis by metis
  qed
  define s' where "s' = page_table_activate me s2"
  have t: "tasks s2 = tasks s" using more_tasks(1) [OF page_map_more [OF B(1)]] M by simp
  have run: "do_page_fault a s = Some (Runs s')"
    using c sv A(1) M B(1) vmm_find_served [OF ok, of a]
    by (simp add: do_page_fault_def unhandled_fault_def running_task_def me s'_def r_def ERROR_def Let_def
        flip: page_base_def)
  have "to_physical_address s' r w =
      (if page_no (unat w) = page_no (unat a) then page_addr p + addr_offset w else to_physical_address s r w)"
    if w: "unat w < 2 ^ 47" for w
  proof -
    have "unat (page_base a) < 2 ^ 47" "page_no (unat (page_base a)) = page_no (unat a)"
      using low by (simp_all add: unat_page_base page_no_def le_less_trans [OF div_times_less_eq_dividend])
    then have "same_page (page_base a) w \<longleftrightarrow> page_no (unat w) = page_no (unat a)"
      using low_same_page [OF _ w, of "page_base a"] by auto
    then show ?thesis
      using B(5) [OF low_user [OF w]] page_base_frame [OF A(8)] pt_cong(1) [of s1 s r w] M
      by (simp add: s'_def)
  qed
  note tr = this
  have own: "owned p s'"
    using A(7,8) B(4) same_frames_owned [of s2 s' p] by (simp add: frames_kept_def s'_def)
  have sp: "space_ok me s'"
    using S(3-) B(2,3) by (simp add: space_ok_def s'_def t r_def)
  have rp: "running_pid s' = running_pid s" using A(6) B(4) by (simp add: s'_def frames_kept_def)
  show thesis
    by (rule that [OF run sp A(2,8) own]) (use t tr rp in \<open>simp_all add: s'_def r_def\<close>)
qed


text \<open>C9: \<^verbatim>\<open>kern_free_page\<close> on a page in use that has been touched: the page is unused again, its frame is
  free, no address of it translates, and every other page is as before. Both tables must have a free entry,
  since the service does not look at the results of the updates.\<close>

theorem kern_free_page_correct:
  fixes s :: "'a proc_state_scheme"
  assumes ok: "space_ok me s" and me: "running_pid s = me" and a: "a = m mg ! 0"
    and pg: "unat a mod 2097152 = 0" "range_of a PG_SIZE \<subseteq> in_use me s"
    and frame: "to_physical_address s (page_dir (tasks s me)) a = page_addr k" "owned k s" "k < 16384"
    and room: "using_blocks (vmm_using (tasks s me)) < total_blocks (vmm_using (tasks s me))"
      "using_blocks (vmm_free (tasks s me)) < total_blocks (vmm_free (tasks s me))"
  shows "\<exists>s' :: 'a proc_state_scheme. kern_free_page mg s = Some (Returns SYSCALL_SUCCESS mg s') \<and> space_ok me s' \<and>
    in_use me s' = in_use me s - range_of a PG_SIZE \<and> unused me s' = unused me s \<union> range_of a PG_SIZE \<and>
    free_set s' = insert k (free_set s) \<and>
    (\<forall>w. unat w < 2 ^ 47 \<longrightarrow> to_physical_address s' (page_dir (tasks s me)) w =
      (if page_no (unat w) = page_no (unat a) then NULL
       else to_physical_address s (page_dir (tasks s me)) w))"
proof -
  note S = space_okD [OF ok]
  define r where "r = page_dir (tasks s me)"
  have "unat a \<in> range_of a PG_SIZE" by (simp add: range_of_def PG_SIZE_def)
  then have low: "unat a < 2 ^ 47" using pg(2) S(8) user_space_low by blast
  have sz: "0 < unat PG_SIZE" "unat a + unat PG_SIZE < 2 ^ 64" using low by (simp_all add: PG_SIZE_def)
  obtain u where u: "vmm_remove_range (vmm_using (tasks s me)) a PG_SIZE = Some (K_SUCCESS, u)" "vmm_inv u"
      "addrs u = in_use me s - range_of a PG_SIZE"
    using vmm_remove_range_spec [OF S(4) sz] pg(2) room(1) by auto
  have dis: "range_of a PG_SIZE \<inter> unused me s = {}" using pg(2) S(7) by blast
  obtain v where v: "vmm_add_range (vmm_free (tasks s me)) a PG_SIZE = Some (K_SUCCESS, v)" "vmm_inv v"
      "addrs v = unused me s \<union> range_of a PG_SIZE"
    using room(2) by (cases rule: put_page [OF S(3) dis sz(2)]) auto
  define t where "t = upd_task me (vmm_free_update (\<lambda>_. v)) (upd_task me (vmm_using_update (\<lambda>_. u)) s)"
  have T: "kinv t" "groups_unlocked t" "pt_wf t r" "tasks t = (tasks s)(me := (tasks s me)\<lparr>vmm_using := u, vmm_free := v\<rparr>)"
      "to_physical_address t r w = to_physical_address s r w" "free_set t = free_set s" "owned k t" for w
    using S(1,2) frame(2) same_frames_owned [of s t k] by (simp_all add: t_def r_def pt_inv_def)
  obtain t1 where F: "free_physical_page (page_addr k) 1 t = Some t1" "kinv t1" "live t1 = live t"
      "free_set t1 = insert k (free_set t)" "locks t1 = locks t" "alloc_state.more t1 = alloc_state.more t"
    by (rule release_frame [OF T(1,7)]) blast
  note M = more_tasks(2) [OF F(6)]
  have i1: "pt_inv t1" using F(2,5) T(2) by (simp add: pt_inv_def groups_unlocked_def lock_free_def)
  have w1: "pt_wf t1 r" using pt_cong(2) [of t1 t r] M F(3) T(3) by simp
  have tr1: "to_physical_address t1 r w = to_physical_address s r w" for w
    using pt_cong(1) [of t1 t r w] M T(5) by simp
  have nn: "to_physical_address t1 r a \<noteq> NULL"
    using frame page_addr_props(4) [of k] unfolding tr1 r_def [symmetric] by (auto simp: owned_def r_def)
  obtain D c x where B: "page_unmap r a t1 = Some (wr D c x t1)" "pt_wf (wr D c x t1) r"
      "\<And>w. user_addr w \<Longrightarrow> to_physical_address (wr D c x t1) r w =
         (if same_page a w then NULL else to_physical_address t1 r w)"
    by (rule page_unmap_effect [OF w1 low_user [OF low] nn]) (rule that)
  define s' where "s' = page_table_activate me (wr D c x t1)"
  have tk: "tasks (wr D c x t1) = tasks t" using M by (simp add: wr_def)
  have "kern_free_page mg s = Some (Returns SYSCALL_SUCCESS mg s')"
    using u(1) v(1) F(1) B(1) frame(1)
    by (simp add: kern_free_page_def me a [symmetric] s'_def Let_def t_def r_def)
  moreover have "free_set s' = insert k (free_set s)"
    using F(4) T(6) phys_inv_cong(2) [of "wr D c x t1" t1] by (simp add: s'_def wr_def)
  moreover have "space_ok me s'"
    using S u v B(2) i1 pg paged_ops paged_range [OF pg(1)] tk T(4)
    by (auto simp: space_ok_def s'_def r_def)
  moreover have "to_physical_address s' r w =
      (if page_no (unat w) = page_no (unat a) then NULL else to_physical_address s r w)" if "unat w < 2 ^ 47" for w
    using B(3) [OF low_user [OF that]] low_same_page [OF low that] tr1 by (auto simp: s'_def)
  ultimately show ?thesis using u(3) v(3) tk T(4) by (auto simp: s'_def r_def)
qed

subsection \<open>An example\<close>

text \<open>A process with one page in use, on the tables of the example.\<close>

definition example_ranges :: "u64 \<Rightarrow> u64 \<Rightarrow> vmm_struct" where
  "example_ranges a n = \<lparr>blocks = [\<lparr>vb_start = a, vb_size = n\<rparr>, \<lparr>vb_start = 0, vb_size = 0\<rparr>],
     total_blocks = 2, using_blocks = 1\<rparr>"

definition example_space :: proc_state where
  "example_space = kernel_state.extend (pt_state.extend (example_tables\<lparr>cr3 := 0x600000, running_pid := 1\<rparr>)
     \<lparr>tasks = (\<lambda>_. zero_task\<lparr>page_dir := example_root, vmm_free := example_ranges 0xa00000 0x400000,
        vmm_using := example_ranges 0x800000 0x200000\<rparr>),
      cpus = (\<lambda>_. example_man), intr_on = False, ticks = 0, kernel_task_addr = 0, beyond_weights = (\<lambda>_. 0),
      service_pid_table = [], tss_rsp0 = (\<lambda>_. 0)\<rparr>)
     \<lparr>start_process_addr = 0, proc_start_addr = 0, vmm_free_ptr = (\<lambda>_. 0), vmm_using_ptr = (\<lambda>_. 0), bytes = (\<lambda>_. 0)\<rparr>"

lemma example_space_fields:
  "cr3 example_space = 0x600000" "running_pid example_space = 1"
  "page_dir (tasks example_space p) = example_root"
  "vmm_free (tasks example_space p) = example_ranges 0xa00000 0x400000"
  "vmm_using (tasks example_space p) = example_ranges 0x800000 0x200000"
  "pt_mem example_space = pt_mem example_tables" "free_set example_space = free_set example_tables"
  "pt_inv example_space" "pt_wf example_space example_root"
proof -
  have f: "page_bitmap example_space = page_bitmap example_tables"
    "free_pages example_space = free_pages example_tables" "locks example_space = locks example_tables"
    "mem_groups example_space = mem_groups example_tables" "caches example_space = caches example_tables"
    "magic example_space = magic example_tables" "pt_mem example_space = pt_mem example_tables"
    by (simp_all add: example_space_def kernel_state.extend_def pt_state.extend_def)
  note A = alloc_fields_cong [of example_space example_tables]
  have k: "kinv example_space = kinv example_tables" "groups_unlocked example_space = groups_unlocked example_tables"
    "live example_space = live example_tables" "free_set example_space = free_set example_tables"
    using A f by simp_all
  show "pt_inv example_space" using example_tables(1) k by (simp add: pt_inv_def)
  have rd: "rd example_space t i = rd example_tables t i" for t i using f(7) by (simp add: rd_def)
  show "pt_wf example_space example_root"
    using example_tables(2) k(3) by (simp add: pt_wf_def table_slots_def pointee_def [abs_def] rd)
  show "free_set example_space = free_set example_tables" by (rule k(4))
qed (simp_all add: example_space_def kernel_state.extend_def pt_state.extend_def)

lemma example_addrs:
  "addrs (example_ranges 0xa00000 0x400000) = {0xa00000..<0xe00000}"
  "addrs (example_ranges 0x800000 0x200000) = {0x800000..<0xa00000}"
  by (simp_all add: addrs_def active_def example_ranges_def covers_def rs_def re_def)

lemma paged_interval: "paged {k * 2097152..<n * 2097152}"
proof -
  have "a \<in> {k * 2097152..<n * 2097152} \<longleftrightarrow> page_no a \<in> {k..<n}" for a
    by (simp add: page_no_def less_eq_div_iff_mult_less_eq div_less_iff_less_mult)
  then show ?thesis unfolding paged_def by simp
qed

lemma example_space_ok: "space_ok 1 example_space"
proof -
  have "vmm_inv (example_ranges 0xa00000 0x400000)" "vmm_inv (example_ranges 0x800000 0x200000)"
    by (simp_all add: vmm_inv_def active_def example_ranges_def rs_def re_def)
  moreover have "paged {0xa00000..<0xe00000}" "paged {0x800000..<0xa00000}"
    using paged_interval [of 5 7] paged_interval [of 4 5] by simp_all
  ultimately show ?thesis
    by (simp add: space_ok_def example_space_fields example_addrs)
       (auto simp: user_space_def USER_VADDR_START_def USER_STACK_VADDR_BASE_def PG_SIZE_def)
qed

lemma kern_allocate_page_correct_witness:
  "\<exists>a mg' s'. kern_allocate_page zero_message example_space = Some (Returns SYSCALL_SUCCESS mg' s') \<and> space_ok 1 s' \<and>
    mg' = set_word 0 a zero_message \<and> range_of a PG_SIZE \<subseteq> {0xa00000..<0xe00000}"
proof -
  have "unused 1 example_space \<noteq> {}" by (simp add: example_space_fields example_addrs)
  moreover have "using_blocks (vmm_using (tasks example_space 1)) \<noteq> total_blocks (vmm_using (tasks example_space 1))"
    by (simp add: example_space_fields example_ranges_def)
  ultimately show ?thesis
    using kern_allocate_page_correct [OF example_space_ok example_space_fields(2), of zero_message]
    by (force simp: example_space_fields example_addrs split: if_splits)
qed


lemma kern_free_page_correct_witness:
  "\<exists>(s :: proc_state) s' p. to_physical_address s example_root 0x800000 = page_addr p \<and>
    kern_free_page (zero_message\<lparr>m := [0x800000]\<rparr>) s = Some (Returns SYSCALL_SUCCESS (zero_message\<lparr>m := [0x800000]\<rparr>) s') \<and>
    space_ok 1 s' \<and> in_use 1 s' = {} \<and> p \<in> free_set s' \<and> to_physical_address s' example_root 0x800000 = NULL"
proof -
  have c: "cr3 example_space \<noteq> KERNEL_PAGE_DIR_TABLE_POS"
    by (simp add: example_space_fields KERNEL_PAGE_DIR_TABLE_POS_def)
  have sv: "served 1 example_space 0x800000" by (simp add: served_def example_space_fields example_addrs)
  have n: "3 \<le> card (free_set example_space)" using example_tables(4) by (simp add: example_space_fields)
  have l: "unat (0x800000 :: addr) < 2 ^ 47" "addr_offset 0x800000 = 0" by (simp_all add: addr_offset_def)
  obtain p s where f0: "do_page_fault 0x800000 example_space = Some (Runs s)" and f1: "space_ok 1 s"
      and f2: "p \<in> free_set example_space" and f3: "p < 16384" and f4: "owned p s"
      and f5: "tasks s = tasks example_space" and f6: "running_pid s = running_pid example_space"
      and f7: "\<And>w. unat w < 2 ^ 47 \<Longrightarrow> to_physical_address s (page_dir (tasks example_space 1)) w =
          (if page_no (unat w) = page_no (unat (0x800000 :: addr)) then page_addr p + addr_offset w
           else to_physical_address example_space (page_dir (tasks example_space 1)) w)"
    by (rule page_fault_served [OF example_space_ok example_space_fields(2) c sv l(1) n]) (rule that)
  have s: "space_ok 1 s" "p < 16384" "owned p s" "tasks s = tasks example_space" "running_pid s = 1"
      "to_physical_address s example_root 0x800000 = page_addr p"
    using f1 f3 f4 f5 f6 f7 [OF l(1)] l(2) by (simp_all add: example_space_fields)
  define mg where "mg = zero_message\<lparr>m := [0x800000]\<rparr>"
  have a: "(0x800000 :: addr) = m mg ! 0" by (simp add: mg_def)
  have pg: "unat (0x800000 :: addr) mod 2097152 = 0" "range_of 0x800000 PG_SIZE = {0x800000..<0xa00000}"
    by (simp_all add: range_of_def PG_SIZE_def)
  have f: "in_use 1 s = {0x800000..<0xa00000}" "page_dir (tasks s 1) = example_root"
    by (simp_all add: s(4) example_space_fields example_addrs)
  have room: "using_blocks (vmm_using (tasks s 1)) < total_blocks (vmm_using (tasks s 1))"
    "using_blocks (vmm_free (tasks s 1)) < total_blocks (vmm_free (tasks s 1))"
    by (simp_all add: s(4) example_space_fields example_ranges_def)
  have sub: "range_of 0x800000 PG_SIZE \<subseteq> in_use 1 s" using pg f by simp
  from kern_free_page_correct [OF s(1,5) a pg(1) sub _ s(3,2) room] s(6) f pg(2) l(1)
  have "\<exists>s'. kern_free_page mg s = Some (Returns SYSCALL_SUCCESS mg s') \<and> space_ok 1 s' \<and> in_use 1 s' = {} \<and>
      p \<in> free_set s' \<and> to_physical_address s' example_root 0x800000 = NULL"
    by auto
  then show ?thesis using s(6) unfolding mg_def by blast
qed

end
