(* ===== verification/SoftIrq.thy ===== *)
theory SoftIrq
  imports SyncLocks
begin

text \<open>
  Software interrupts: \<^verbatim>\<open>src/softirq/softirq.c\<close>. The status word is a bitmap of the raised interrupts,
  and every interrupt has an action with an argument; what an action does to the rest of the kernel is
  a parameter, as are its effects on the software interrupts themselves (an action may raise others).
\<close>

definition MAX_SOFTIRQ :: nat where "MAX_SOFTIRQ = 64"

text \<open>\<open>actions\<close>: the function pointer (\<open>None\<close> is null) and the data of each interrupt.
  \<open>irq_intr_on\<close>: the interrupt flag of the processor.\<close>

record 'a softirq =
  irq_status :: atomic
  actions :: "('a option \<times> addr) list"
  irq_intr_on :: bool

definition softirq_init :: "'a softirq \<Rightarrow> 'a softirq" where
  "softirq_init s = s\<lparr>irq_status := snd (atomic_set (irq_status s) 0),
     actions := replicate MAX_SOFTIRQ (None, 0)\<rparr>"

definition register_softirq :: "u8 \<Rightarrow> 'a \<Rightarrow> addr \<Rightarrow> 'a softirq \<Rightarrow> 'a softirq option" where
  "register_softirq irq action d s = do {
     assert (unat irq < MAX_SOFTIRQ);
     Some (s\<lparr>actions := (actions s)[unat irq := (Some action, d)]\<rparr>) }"

definition unregister_softirq :: "u8 \<Rightarrow> 'a softirq \<Rightarrow> 'a softirq option" where
  "unregister_softirq irq s = do {
     assert (unat irq < MAX_SOFTIRQ);
     Some (s\<lparr>actions := (actions s)[unat irq := (None, 0)]\<rparr>) }"

definition raise_softirq :: "u8 \<Rightarrow> 'a softirq \<Rightarrow> 'a softirq option" where
  "raise_softirq irq s = do {
     assert (unat irq < MAX_SOFTIRQ);
     (_, st) \<leftarrow> atomic_bts (irq_status s) (ucast irq);
     Some (s\<lparr>irq_status := st\<rparr>) }"

text \<open>The loop over the 64 bits, from an index on, with its two \<^verbatim>\<open>break\<close>s. \<open>run\<close> is the call of an action;
  \<open>w\<close> is the rest of the kernel.\<close>

fun softirq_from ::
  "('a \<Rightarrow> addr \<Rightarrow> 'a softirq \<times> 'w \<Rightarrow> 'a softirq \<times> 'w) \<Rightarrow> nat list \<Rightarrow> 'a softirq \<times> 'w \<Rightarrow> ('a softirq \<times> 'w) option" where
  "softirq_from run [] (s, w) = Some (s, w)"
| "softirq_from run (i # is) (s, w) =
     (if atomic_read (irq_status s) = 0 then Some (s, w)
      else do {
        (b, st) \<leftarrow> atomic_btr (irq_status s) (word_of_nat i);
        let s = s\<lparr>irq_status := st\<rparr>;
        if b = 1 then
          (case actions s ! i of
             (None, _) \<Rightarrow> Some (s, w)
           | (Some a, d) \<Rightarrow> softirq_from run is (run a d (s, w)))
        else softirq_from run is (s, w) })"

definition do_softirq ::
  "('a \<Rightarrow> addr \<Rightarrow> 'a softirq \<times> 'w \<Rightarrow> 'a softirq \<times> 'w) \<Rightarrow> 'a softirq \<times> 'w \<Rightarrow> ('a softirq \<times> 'w) option" where
  "do_softirq run sw = do {
     let intr_status = irq_intr_on (fst sw);
     (s, w) \<leftarrow> softirq_from run [0..<64] ((fst sw)\<lparr>irq_intr_on := True\<rparr>, snd sw);
     Some (s\<lparr>irq_intr_on := intr_status\<rparr>, w) }"

subsection \<open>What runs\<close>

text \<open>An action that leaves the software interrupts alone.\<close>

definition plain :: "('a \<Rightarrow> addr \<Rightarrow> 'w \<Rightarrow> 'w) \<Rightarrow> 'a \<Rightarrow> addr \<Rightarrow> 'a softirq \<times> 'w \<Rightarrow> 'a softirq \<times> 'w" where
  "plain f a d sw = (fst sw, f a d (snd sw))"

definition act :: "('a \<Rightarrow> addr \<Rightarrow> 'w \<Rightarrow> 'w) \<Rightarrow> 'a softirq \<Rightarrow> nat \<Rightarrow> 'w \<Rightarrow> 'w" where
  "act f s i w = f (the (fst (actions s ! i))) (snd (actions s ! i)) w"

lemma btr_word:
  "i < 64 \<Longrightarrow> atomic_btr a (word_of_nat i) = Some (if bit a i then 1 else 0, a AND NOT (push_bit i 1))"
proof -
  assume i: "i < 64"
  have u: "unat (word_of_nat i :: u64) = i" using i by (intro unat_of_nat_lt) simp
  then have "(word_of_nat i :: u64) < 64" using i by (simp add: word_less_nat_alt)
  then show ?thesis by (simp add: atomic_btr_def old_bit_def u)
qed

lemma softirq_from_all:
  assumes "sorted_wrt (<) is" and "set is \<subseteq> {..<64}"
    and "\<And>k. bit (irq_status s) k \<Longrightarrow> k \<in> set is"
    and "\<And>k. bit (irq_status s) k \<Longrightarrow> fst (actions s ! k) \<noteq> None"
  shows "softirq_from (plain f) is (s, w) =
    Some (s\<lparr>irq_status := 0\<rparr>, fold (act f s) (filter (bit (irq_status s)) is) w)"
  using assms
proof (induction "is" arbitrary: s w)
  case Nil
  have "\<not> bit (irq_status s) k" for k using Nil(3) by auto
  then have "irq_status s = 0" by (intro bit_word_eqI) simp
  then show ?case by simp
next
  case (Cons i xs)
  define st where "st = irq_status s AND NOT (push_bit i 1)"
  have b: "bit st k \<longleftrightarrow> bit (irq_status s) k \<and> k \<noteq> i" for k
    using Cons.prems(2) by (auto simp: st_def bit_simps dest: bit_imp_le_length)
  have i: "i < 64" using Cons.prems(2) by simp
  note r = btr_word [OF i, of "irq_status s", folded st_def]
  have IH: "softirq_from (plain f) xs (s\<lparr>irq_status := st\<rparr>, w') =
      Some (s\<lparr>irq_status := 0\<rparr>, fold (act f s) (filter (bit (irq_status s)) xs) w')" for w'
  proof -
    have "softirq_from (plain f) xs (s\<lparr>irq_status := st\<rparr>, w') =
        Some (s\<lparr>irq_status := st\<rparr>\<lparr>irq_status := 0\<rparr>,
          fold (act f (s\<lparr>irq_status := st\<rparr>)) (filter (bit (irq_status (s\<lparr>irq_status := st\<rparr>))) xs) w')"
      by (rule Cons.IH) (use Cons.prems b in auto)
    moreover have "filter (bit st) xs = filter (bit (irq_status s)) xs"
      using Cons.prems(1) b by (auto intro!: filter_cong)
    moreover have "act f (s\<lparr>irq_status := st\<rparr>) = act f s" by (simp add: act_def fun_eq_iff)
    ultimately show ?thesis by simp
  qed
  show ?case
  proof (cases "irq_status s = 0")
    case True
    then show ?thesis by (simp add: atomic_read_def)
  next
    case False
    show ?thesis
    proof (cases "bit (irq_status s) i")
      case True
      then obtain a d where "actions s ! i = (Some a, d)" using Cons.prems(4) [OF True] by (cases "actions s ! i") auto
      then have "plain f a d (t, w) = (t, act f s i w)" "actions s ! i = (Some a, d)" for t
        by (simp_all add: plain_def act_def)
      then show ?thesis using False True r IH by (simp add: atomic_read_def Let_def)
    next
      case nb: False
      then show ?thesis using False r IH by (simp add: atomic_read_def Let_def)
    qed
  qed
qed

text \<open>When every raised interrupt has an action, \<^verbatim>\<open>do_softirq\<close> runs exactly the actions of the raised
  interrupts, each once, with its data and in ascending order; afterwards nothing is pending, and the
  interrupt flag is as before.\<close>

theorem do_softirq_runs_raised:
  assumes "\<forall>i. bit (irq_status s) i \<longrightarrow> fst (actions s ! i) \<noteq> None"
  shows "do_softirq (plain f) (s, w) =
    Some (s\<lparr>irq_status := 0\<rparr>, fold (act f s) (filter (bit (irq_status s)) [0..<64]) w)"
proof -
  have "softirq_from (plain f) [0..<64] (s\<lparr>irq_intr_on := True\<rparr>, w) =
      Some (s\<lparr>irq_intr_on := True\<rparr>\<lparr>irq_status := 0\<rparr>,
        fold (act f (s\<lparr>irq_intr_on := True\<rparr>)) (filter (bit (irq_status (s\<lparr>irq_intr_on := True\<rparr>))) [0..<64]) w)"
    by (rule softirq_from_all) (use assms in \<open>auto dest: bit_imp_le_length\<close>)
  moreover have "act f (s\<lparr>irq_intr_on := True\<rparr>) = act f s" by (simp add: act_def fun_eq_iff)
  ultimately show ?thesis by (cases s) (simp add: do_softirq_def)
qed

text \<open>A raised interrupt without an action stops the loop: it is dropped, and every interrupt above it
  stays pending until the next call.\<close>

theorem do_softirq_stops_at_null:
  assumes "bit (irq_status s) i" and "fst (actions s ! i) = None" and "\<forall>k < i. \<not> bit (irq_status s) k"
  shows "do_softirq run (s, w) = Some (s\<lparr>irq_status := irq_status s AND NOT (push_bit i 1)\<rparr>, w)"
proof -
  have i: "i < 64" using assms(1) bit_imp_le_length [of "irq_status s" i] by simp
  have "softirq_from run [k..<64] (t, w) = Some (t\<lparr>irq_status := irq_status t AND NOT (push_bit i 1)\<rparr>, w)"
    if "k \<le> i" and t: "bit (irq_status t) i" "fst (actions t ! i) = None" "\<forall>k < i. \<not> bit (irq_status t) k" for k t
    using that(1)
  proof (induction k rule: inc_induct)
    case base
    obtain d where "actions t ! i = (None, d)" using t(2) by (cases "actions t ! i") auto
    moreover have "irq_status t \<noteq> 0" using t(1) by auto
    ultimately show ?case using i t(1) btr_word [OF i] by (simp add: upt_conv_Cons atomic_read_def Let_def)
  next
    case (step k)
    have k: "k < 64" "\<not> bit (irq_status t) k" using step i t(3) by auto
    have "irq_status t AND NOT (push_bit k 1) = irq_status t"
      using k(2) by (auto intro!: bit_word_eqI simp: bit_simps)
    moreover have "irq_status t \<noteq> 0" using t(1) by auto
    ultimately show ?case using step k btr_word [OF k(1)] by (simp add: upt_conv_Cons atomic_read_def Let_def)
  qed
  from this [of 0 "s\<lparr>irq_intr_on := True\<rparr>"] assms
  show ?thesis by (cases s) (simp add: do_softirq_def)
qed

definition example_softirq :: "nat softirq" where
  "example_softirq = \<lparr>irq_status = 0x5, actions = (replicate MAX_SOFTIRQ (None, 0))[0 := (Some 10, 1), 2 := (Some 20, 2)],
     irq_intr_on = False\<rparr>"

lemma example_softirq_bits: "bit (5 :: u64) i \<longleftrightarrow> i = 0 \<or> i = 2"
proof -
  have eq: "(5 :: u64) = push_bit 2 1 OR 1" by simp
  show ?thesis unfolding eq bit_or_iff bit_push_bit_iff bit_1_iff by auto
qed

lemma do_softirq_runs_raised_witness:
  "\<exists>s. do_softirq (plain (\<lambda>a d w. w @ [(a, d)])) (example_softirq, []) = Some (s, [(10, 1), (20, 2)]) \<and> irq_status s = 0"
proof -
  have "\<forall>i. bit (irq_status example_softirq) i \<longrightarrow> fst (actions example_softirq ! i) \<noteq> None"
  proof (intro allI impI)
    fix i assume "bit (irq_status example_softirq) i"
    then have "i = 0 \<or> i = 2" unfolding example_softirq_bits [symmetric] by (simp add: example_softirq_def)
    then show "fst (actions example_softirq ! i) \<noteq> None" by (auto simp: example_softirq_def MAX_SOFTIRQ_def)
  qed
  moreover have "filter (bit (irq_status example_softirq)) [0..<64] = [0, 2]"
  proof -
    have b: "bit (irq_status example_softirq) = (\<lambda>i. i = 0 \<or> i = 2)"
      by (rule ext) (simp only: example_softirq_def softirq.simps example_softirq_bits)
    have "filter (bit (irq_status example_softirq)) [0..<64] = filter (\<lambda>i. i = 0 \<or> i = 2) [0..<64]"
      unfolding b ..
    also have "\<dots> = [0, 2]" by (simp add: upt_rec)
    finally show ?thesis .
  qed
  ultimately show ?thesis
    using do_softirq_runs_raised [of example_softirq "\<lambda>a d w. w @ [(a, d)]" "[]"]
    by (simp add: act_def) (simp add: example_softirq_def MAX_SOFTIRQ_def)
qed

lemma do_softirq_stops_at_null_witness:
  "do_softirq (plain (\<lambda>a d w. w @ [(a, d)])) (example_softirq\<lparr>irq_status := 6\<rparr>, []) =
    Some (example_softirq\<lparr>irq_status := 4\<rparr>, [])"
proof -
  have b: "bit (6 :: u64) 1" "\<not> bit (6 :: u64) 0" by (simp_all add: bit_numeral_rec)
  have "(6 :: u64) AND NOT (push_bit 1 1) = 4" by simp
  then show ?thesis
    using do_softirq_stops_at_null [of "example_softirq\<lparr>irq_status := 6\<rparr>" 1 "plain (\<lambda>a d w. w @ [(a, d)])" "[]"] b
    by (simp add: example_softirq_def MAX_SOFTIRQ_def)
qed

end
