(* ===== verification/RamFs.thy ===== *)
theory RamFs
  imports CString
begin

text \<open>
  The initial file system: \<^verbatim>\<open>src/ramfs/ramfs.c\<close> reads in memory the image that the build tool
  \<^verbatim>\<open>tools/imgcopy.c\<close> writes. Both are modelled on bytes; the tool's files are a function from
  names to contents, and the byte of its stack that it writes without setting it is a parameter.
\<close>

definition rd64 :: "mem \<Rightarrow> addr \<Rightarrow> u64" where
  "rd64 mm a = word_of_nat (le_value (bytes_at mm a 8))"

subsection \<open>The tool\<close>

definition MAX_NAME_LEN :: nat where "MAX_NAME_LEN = 63"
definition ramfs_magic :: u64 where "ramfs_magic = 0xffaaffaaffaaffaa"
definition copy_flag :: "u8 list" where "copy_flag = [45, 99, 111, 112, 121]"
definition trailer :: "u8 list" where "trailer = [84, 82, 65, 73, 76, 69, 82, 33, 33, 33]"

text \<open>The loop over the arguments; \<open>Inl\<close> is the exit status of a usage error.\<close>

fun file_list :: "u8 list list \<Rightarrow> int + (u8 list \<times> u8 list) list" where
  "file_list (flag # file # name # rest) =
     (if flag \<noteq> copy_flag then Inl 0
      else if length name > MAX_NAME_LEN then Inl (-1)
      else (case file_list rest of Inl r \<Rightarrow> Inl r | Inr fs \<Rightarrow> Inr ((file, name) # fs)))"
| "file_list _ = Inr []"

definition file_meta_data :: "u8 \<Rightarrow> u8 list \<Rightarrow> u8 list \<Rightarrow> u8 list" where
  "file_meta_data junk name data =
     le_bytes 8 (length data) @ name @ replicate (MAX_NAME_LEN - length name) 0 @ [junk]"

definition imgcopy :: "(u8 list \<Rightarrow> u8 list option) \<Rightarrow> u8 \<Rightarrow> u8 list list \<Rightarrow> int \<times> u8 list" where
  "imgcopy fopen junk argv =
     (let argc = length argv + 1 in
      if argc < 4 \<or> argc mod 3 \<noteq> 1 then (-1, [])
      else (case file_list argv of
          Inl r \<Rightarrow> (r, [])
        | Inr fs \<Rightarrow> (0, le_bytes 8 (unat ramfs_magic) @ le_bytes 8 (length fs) @
            concat (map (\<lambda>(file, name). case fopen file of
                None \<Rightarrow> []
              | Some data \<Rightarrow> file_meta_data junk name data @ data) fs) @ trailer)))"

subsection \<open>The kernel\<close>

record ramfs_file =
  rf_name :: "u8 list"
  rf_size :: u64
  rf_data :: addr

fun ramfs_find :: "nat \<Rightarrow> mem \<Rightarrow> addr \<Rightarrow> addr \<Rightarrow> (status_t \<times> ramfs_file option) option" where
  "ramfs_find 0 mm name fdata = Some (K_NOT_FOUND, None)"
| "ramfs_find (Suc n) mm name fdata = do {
     c \<leftarrow> strcmp mm (fdata + 8) name;
     if c = 0 then Some (K_SUCCESS, Some \<lparr>rf_name = bytes_at mm (fdata + 8) MAX_NAME_LEN,
       rf_size = rd64 mm fdata, rf_data = fdata + 72\<rparr>)
     else ramfs_find n mm name (fdata + (72 + rd64 mm fdata)) }"

definition ramfs_open :: "mem \<Rightarrow> addr \<Rightarrow> addr \<Rightarrow> (status_t \<times> ramfs_file option) option" where
  "ramfs_open mm ramfs_addr name = do {
     if name = NULL then Some (K_NOT_FOUND, None)
     else do {
       len \<leftarrow> strlen mm name;
       if unat len > MAX_NAME_LEN then Some (K_NOT_FOUND, None)
       else if rd64 mm ramfs_addr \<noteq> ramfs_magic then Some (K_ERROR, None)
       else ramfs_find (unat (rd64 mm (ramfs_addr + 8))) mm name (ramfs_addr + 16) } }"

text \<open>\<^verbatim>\<open>ramfs_check\<close>: the variables of its loop are \<^verbatim>\<open>data\<close>, \<^verbatim>\<open>offset\<close> and \<^verbatim>\<open>fdata\<close>; the string it
  compares with is at \<open>lit\<close>.\<close>

fun check_files :: "nat \<Rightarrow> mem \<Rightarrow> addr \<Rightarrow> u64 \<Rightarrow> addr \<Rightarrow> addr" where
  "check_files 0 mm data offset fdata = data"
| "check_files (Suc n) mm data offset fdata =
     (let data = data + offset; offset = 72 + rd64 mm fdata
      in check_files n mm data offset (data + offset))"

definition ramfs_check :: "mem \<Rightarrow> addr \<Rightarrow> addr \<Rightarrow> status_t" where
  "ramfs_check mm ramfs_addr lit =
     (if rd64 mm ramfs_addr \<noteq> ramfs_magic then K_ERROR
      else
        let data = check_files (unat (rd64 mm (ramfs_addr + 8))) mm (ramfs_addr + 16) 0 (ramfs_addr + 16)
        in if strncmp mm data lit 10 = 0 then K_ERROR else K_SUCCESS)"

subsection \<open>An image in memory\<close>

lemma bytes_at_append:
  "bytes_at mm a (i + j) = bytes_at mm a i @ bytes_at mm (a + word_of_nat i) j"
proof -
  have "[0..<i + j] = [0..<i] @ [i..<i + j]" by (rule upt_add_eq_append) simp
  also have "[i..<i + j] = map (\<lambda>k. k + i) [0..<j]" by (simp only: map_add_upt add.commute)
  finally show ?thesis by (simp add: bytes_at_def comp_def ac_simps)
qed

definition stored :: "mem \<Rightarrow> addr \<Rightarrow> u8 list \<Rightarrow> bool" where
  "stored mm a bs \<longleftrightarrow> bytes_at mm a (length bs) = bs"

lemma stored_append [simp]:
  "stored mm a (xs @ ys) \<longleftrightarrow> stored mm a xs \<and> stored mm (a + word_of_nat (length xs)) ys"
  by (simp add: stored_def bytes_at_append)

lemma stored_Cons [simp]: "stored mm a (x # xs) \<longleftrightarrow> mm a = x \<and> stored mm (a + 1) xs"
  by (auto simp: stored_def bytes_at_Suc)

lemma stored_Nil [simp]: "stored mm a []"
  by (simp add: stored_def bytes_at_def)

lemma stored_le: "stored mm a (le_bytes 8 x) \<Longrightarrow> x < 2 ^ 64 \<Longrightarrow> rd64 mm a = word_of_nat x"
  using le_round [of x 8] by (simp add: stored_def rd64_def)

lemma stored_name:
  assumes "stored mm a (name @ replicate (MAX_NAME_LEN - length name) 0 @ [junk])"
    and "0 \<notin> set name" and "length name < MAX_NAME_LEN"
  shows "cstr mm a name"
proof -
  have "MAX_NAME_LEN - length name = Suc (MAX_NAME_LEN - length name - 1)" using assms(3) by simp
  then have "replicate (MAX_NAME_LEN - length name) (0 :: u8) = [0] @ replicate (MAX_NAME_LEN - length name - 1) 0"
    by (metis append_Cons append_Nil replicate_Suc)
  then have "stored mm a (name @ [0])" using assms(1) by simp
  then show ?thesis using assms(2,3) by (simp add: cstr_iff stored_def MAX_NAME_LEN_def)
qed

definition file_entry :: "u8 \<Rightarrow> u8 list \<times> u8 list \<Rightarrow> u8 list" where
  "file_entry junk nd = file_meta_data junk (fst nd) (snd nd) @ snd nd"

definition file_ok :: "u8 list \<times> u8 list \<Rightarrow> bool" where
  "file_ok nd \<longleftrightarrow> 0 \<notin> set (fst nd) \<and> length (fst nd) < MAX_NAME_LEN \<and> length (snd nd) < 2 ^ 64"

lemma length_file_meta_data: "length name \<le> MAX_NAME_LEN \<Longrightarrow> length (file_meta_data junk name data) = 72"
  by (simp add: file_meta_data_def MAX_NAME_LEN_def)

text \<open>What a successful \<^verbatim>\<open>ramfs_open\<close> gives for a file.\<close>

definition opened :: "mem \<Rightarrow> u8 list \<times> u8 list \<Rightarrow> ramfs_file \<Rightarrow> bool" where
  "opened mm nd file \<longleftrightarrow> cstr mm (rf_data file - 64) (fst nd) \<and> take (length (fst nd)) (rf_name file) = fst nd \<and>
     rf_size file = word_of_nat (length (snd nd)) \<and> stored mm (rf_data file) (snd nd)"

lemma ramfs_find_files:
  assumes "stored mm a (concat (map (file_entry junk) fs))" and "\<forall>nd \<in> set fs. file_ok nd" and "cstr mm name nm"
  shows "\<exists>r. ramfs_find (length fs) mm name a = Some r \<and>
    (case List.find (\<lambda>nd. fst nd = nm) fs of
       None \<Rightarrow> r = (K_NOT_FOUND, None)
     | Some nd \<Rightarrow> \<exists>file. r = (K_SUCCESS, Some file) \<and> opened mm nd file)"
  using assms
proof (induction fs arbitrary: a)
  case (Cons nd fs)
  obtain n d where nd: "nd = (n, d)" by force
  have ok: "0 \<notin> set n" "length n < MAX_NAME_LEN" "length d < 2 ^ 64" using Cons.prems(2) by (auto simp: file_ok_def nd)
  have e: "file_entry junk nd = file_meta_data junk n d @ d" by (simp add: file_entry_def nd)
  have l: "length (file_meta_data junk n d) = 72" using ok(2) by (intro length_file_meta_data) simp
  have st: "stored mm a (file_meta_data junk n d)" "stored mm (a + 72) d"
      "stored mm (a + 72 + word_of_nat (length d)) (concat (map (file_entry junk) fs))"
    using Cons.prems(1) l by (simp_all add: e add.assoc)
  have sz: "rd64 mm a = word_of_nat (length d)"
    using st(1) ok(3) by (intro stored_le) (simp_all add: file_meta_data_def)
  have sn: "stored mm (a + 8) (n @ replicate (MAX_NAME_LEN - length n) 0 @ [junk])"
    using st(1) by (simp add: file_meta_data_def add.assoc)
  have cs: "cstr mm (a + 8) n" by (rule stored_name [OF sn ok(1,2)])
  have cmp: "strcmp mm (a + 8) name = Some (str_diff n nm)" by (rule strcmp_cstr [OF cs Cons.prems(3)])
  have z: "str_diff n nm = 0 \<longleftrightarrow> n = nm"
    using str_diff_0 [of n nm] ok(1) Cons.prems(3) by (simp add: cstr_def)
  show ?case
  proof (cases "n = nm")
    case True
    define h where "h = \<lparr>rf_name = bytes_at mm (a + 8) MAX_NAME_LEN, rf_size = rd64 mm a, rf_data = a + 72\<rparr>"
    have "bytes_at mm (a + 8) MAX_NAME_LEN =
        bytes_at mm (a + 8) (length n) @ bytes_at mm (a + 8 + word_of_nat (length n)) (MAX_NAME_LEN - length n)"
      using bytes_at_append [of mm "a + 8" "length n" "MAX_NAME_LEN - length n"] ok(2) by simp
    then have "take (length n) (rf_name h) = n" using cs by (simp add: h_def cstr_def)
    then have "opened mm nd h" using cs sz st(2) by (simp add: opened_def h_def nd add.commute)
    moreover have "ramfs_find (length (nd # fs)) mm name a = Some (K_SUCCESS, Some h)"
      using cmp z True by (simp add: h_def)
    ultimately show ?thesis using True by (simp add: nd)
  next
    case False
    have "ramfs_find (length (nd # fs)) mm name a = ramfs_find (length fs) mm name (a + 72 + word_of_nat (length d))"
      using cmp z False sz by (simp add: add.assoc)
    moreover have "List.find (\<lambda>nd. fst nd = nm) (nd # fs) = List.find (\<lambda>nd. fst nd = nm) fs"
      using False by (simp add: nd)
    ultimately show ?thesis
      using Cons.IH [OF st(3) _ Cons.prems(3)] Cons.prems(2) by simp
  qed
qed simp

lemma file_list_args:
  assumes "\<forall>(file, name) \<in> set fs. length name \<le> MAX_NAME_LEN"
  shows "file_list (concat (map (\<lambda>(file, name). [copy_flag, file, name]) fs)) = Inr fs"
  using assms by (induction fs) (auto split: prod.splits)

lemma args_length: "length (concat (map (\<lambda>(file, name). [copy_flag, file, name]) fs)) = 3 * length fs"
  by (induction fs) (auto split: prod.splits)

text \<open>C31: The image that \<^verbatim>\<open>imgcopy\<close> builds from files that all open, \<^verbatim>\<open>ramfs_open\<close> reads
  back, at whatever address it is loaded: for a name in the list it returns the size and the contents of
  the first file of that name, for any other name \<^verbatim>\<open>K_NOT_FOUND\<close>. Names must be shorter than 63
  characters.\<close>

theorem ramfs_roundtrip:
  assumes img: "imgcopy fopen junk (concat (map (\<lambda>(file, name). [copy_flag, file, name]) fs)) = (r, img)"
    and fs: "fs \<noteq> []" "length fs < 2 ^ 64"
    and files: "\<forall>(file, name) \<in> set fs. \<exists>data. fopen file = Some data \<and> file_ok (name, data)"
    and loaded: "stored mm a img" and nm: "cstr mm p name" "p \<noteq> NULL"
  shows "r = 0 \<and> (\<exists>st file. ramfs_open mm a p = Some (st, file) \<and>
    (case List.find (\<lambda>fn. snd fn = name) fs of
       None \<Rightarrow> st = K_NOT_FOUND \<and> file = None
     | Some (f, n) \<Rightarrow> st = K_SUCCESS \<and> (\<exists>h. file = Some h \<and>
         rf_size h = word_of_nat (length (the (fopen f))) \<and> stored mm (rf_data h) (the (fopen f)))))"
proof -
  define ds where "ds = map (\<lambda>(file, n). (n, the (fopen file))) fs"
  have small: "\<forall>(file, n) \<in> set fs. length n \<le> MAX_NAME_LEN"
    using files by (auto simp: file_ok_def)
  have ok: "\<forall>nd \<in> set ds. file_ok nd" using files by (auto simp: ds_def)
  have body: "concat (map (\<lambda>(file, n). case fopen file of None \<Rightarrow> [] | Some d \<Rightarrow> file_meta_data junk n d @ d) fs) =
      concat (map (file_entry junk) ds)"
    using files unfolding ds_def map_map
    by (intro arg_cong [where f = concat] map_cong) (auto simp: file_entry_def)
  have c: "\<not> length (concat (map (\<lambda>(file, name). [copy_flag, file, name]) fs)) + 1 < 4"
    "(length (concat (map (\<lambda>(file, name). [copy_flag, file, name]) fs)) + 1) mod 3 = 1"
    unfolding args_length using fs(1) by (cases fs; simp) presburger
  have "r = 0" and im: "img = le_bytes 8 (unat ramfs_magic) @ le_bytes 8 (length fs) @
      concat (map (file_entry junk) ds) @ trailer"
    using img unfolding imgcopy_def Let_def file_list_args [OF small] body
    by (simp_all only: c simp_thms if_False sum.case prod.inject body)
  have st: "rd64 mm a = ramfs_magic" "rd64 mm (a + 8) = word_of_nat (length fs)"
      "stored mm (a + 16) (concat (map (file_entry junk) ds))"
    using loaded fs(2) stored_le [of mm a "unat ramfs_magic"] stored_le [of mm "a + 8" "length fs"]
    by (simp_all add: im add.assoc ramfs_magic_def)
  have len: "unat (rd64 mm (a + 8)) = length ds" using st(2) fs(2) by (simp add: ds_def unat_of_nat)
  have sl: "strlen mm p = Some (word_of_nat (length name))"
    using strlen_from_cstr [OF nm(1), of p] by (simp add: strlen_def)
  have ul: "unat (word_of_nat (length name) :: u64) = length name"
    using nm(1) by (simp add: cstr_def unat_of_nat)
  have find: "List.find (\<lambda>nd. fst nd = name) ds =
      map_option (\<lambda>(file, n). (n, the (fopen file))) (List.find (\<lambda>fn. snd fn = name) fs)"
    unfolding ds_def by (induction fs) auto
  have "\<exists>st file. ramfs_open mm a p = Some (st, file) \<and>
    (case List.find (\<lambda>fn. snd fn = name) fs of
       None \<Rightarrow> st = K_NOT_FOUND \<and> file = None
     | Some (f, n) \<Rightarrow> st = K_SUCCESS \<and> (\<exists>h. file = Some h \<and>
         rf_size h = word_of_nat (length (the (fopen f))) \<and> stored mm (rf_data h) (the (fopen f))))"
  proof (cases "length name > MAX_NAME_LEN")
    case True
    have "List.find (\<lambda>fn. snd fn = name) fs = None"
      using small True by (auto simp: find_None_iff)
    then show ?thesis using True sl ul nm(2) by (simp add: ramfs_open_def)
  next
    case False
    have run: "ramfs_open mm a p = ramfs_find (length ds) mm p (a + 16)"
      using False sl ul nm(2) st(1) len by (simp add: ramfs_open_def)
    show ?thesis
      using ramfs_find_files [OF st(3) ok nm(1)] unfolding run find
      by (cases "List.find (\<lambda>fn. snd fn = name) fs") (auto simp: opened_def)
  qed
  then show ?thesis using \<open>r = 0\<close> by simp
qed

text \<open>Loading a list of bytes at an address.\<close>

definition load :: "u8 list \<Rightarrow> addr \<Rightarrow> mem \<Rightarrow> mem" where
  "load bs base mm = (\<lambda>a. if unat (a - base) < length bs then bs ! unat (a - base) else mm a)"

lemma load_stored:
  assumes "length bs < 2 ^ 64"
  shows "stored (load bs base mm) base bs"
proof -
  have "unat (word_of_nat i :: addr) = i" if "i < length bs" for i
    using that assms by (intro unat_of_nat_lt) simp
  then show ?thesis by (auto simp: stored_def bytes_at_def load_def intro!: nth_equalityI)
qed

definition example_image :: "u8 list" where
  "example_image = snd (imgcopy (\<lambda>_. Some [1, 2, 3]) 0xAA [copy_flag, [102], [97]])"

definition example_rom :: mem where
  "example_rom = load example_image 0x1000 (load [97, 0] 0x10 (\<lambda>_. 0))"

lemma example_image_length: "length example_image = 101"
  by (simp add: example_image_def imgcopy_def copy_flag_def MAX_NAME_LEN_def file_meta_data_def trailer_def)

lemma ramfs_roundtrip_witness:
  "\<exists>h. ramfs_open example_rom 0x1000 0x10 = Some (K_SUCCESS, Some h) \<and> rf_size h = 3 \<and>
    stored example_rom (rf_data h) [1, 2, 3]"
proof -
  have img: "imgcopy (\<lambda>_. Some [1, 2, 3]) 0xAA (concat (map (\<lambda>(file, name). [copy_flag, file, name]) [([102], [97])])) =
      (0, example_image)"
    by (simp add: example_image_def) (simp add: imgcopy_def copy_flag_def MAX_NAME_LEN_def)
  have st: "stored example_rom 0x1000 example_image"
    unfolding example_rom_def by (rule load_stored) (simp add: example_image_length)
  have b: "example_rom 0x10 = 97" "example_rom 0x11 = 0"
    by (simp_all add: example_rom_def load_def example_image_length)
  have nm: "cstr example_rom 0x10 [97]" using b by (simp add: cstr_Cons)
  have ok: "\<forall>(file, name) \<in> set [([102], [97])]. \<exists>data. (\<lambda>_ :: u8 list. Some [1, 2, 3]) (file :: u8 list) = Some data \<and>
      file_ok (name, data)"
    by (simp add: file_ok_def MAX_NAME_LEN_def)
  show ?thesis
    using ramfs_roundtrip [OF img _ _ ok st nm] by auto
qed

end
