(* ===== verification/ElfLoad.thy ===== *)
theory ElfLoad
  imports RamFs
begin

text \<open>
  Loading of position-independent programs: \<^verbatim>\<open>src/elf/elf.c\<close>. The file is in memory; the structures
  \<^verbatim>\<open>Elf64_Ehdr\<close> and \<^verbatim>\<open>Elf64_Phdr\<close> are read from their bytes.
\<close>

definition rd32 :: "mem \<Rightarrow> addr \<Rightarrow> u32" where
  "rd32 mm a = word_of_nat (le_value (bytes_at mm a 4))"

definition rd16 :: "mem \<Rightarrow> addr \<Rightarrow> u16" where
  "rd16 mm a = word_of_nat (le_value (bytes_at mm a 2))"

definition e_type :: "mem \<Rightarrow> addr \<Rightarrow> u16" where "e_type mm ehdr = rd16 mm (ehdr + 16)"
definition e_version :: "mem \<Rightarrow> addr \<Rightarrow> u32" where "e_version mm ehdr = rd32 mm (ehdr + 20)"
definition e_phoff :: "mem \<Rightarrow> addr \<Rightarrow> u64" where "e_phoff mm ehdr = rd64 mm (ehdr + 32)"
definition e_phnum :: "mem \<Rightarrow> addr \<Rightarrow> u16" where "e_phnum mm ehdr = rd16 mm (ehdr + 56)"

definition EV_CURRENT :: u32 where "EV_CURRENT = 1"
definition ET_DYN :: u16 where "ET_DYN = 3"
definition PT_LOAD :: u32 where "PT_LOAD = 1"

record elf_phdr =
  p_type :: u32
  p_offset :: u64
  p_vaddr :: u64
  p_filesz :: u64
  p_memsz :: u64

definition phdr_size :: nat where "phdr_size = 56"

definition phdr_at :: "mem \<Rightarrow> addr \<Rightarrow> nat \<Rightarrow> elf_phdr" where
  "phdr_at mm phdr i =
     (let p = phdr + word_of_nat (phdr_size * i) in
      \<lparr>p_type = rd32 mm p, p_offset = rd64 mm (p + 8), p_vaddr = rd64 mm (p + 16),
       p_filesz = rd64 mm (p + 32), p_memsz = rd64 mm (p + 40)\<rparr>)"

text \<open>The test of the magic number is a call of \<^verbatim>\<open>memcpy\<close>, which stores the number that it should
  compare with and returns its first argument.\<close>

definition put_magic :: "mem \<Rightarrow> addr \<Rightarrow> mem" where
  "put_magic mm ehdr = mm(ehdr := 0x7f, ehdr + 1 := 0x45, ehdr + 2 := 0x4c, ehdr + 3 := 0x46)"

definition check_elf :: "mem \<Rightarrow> addr \<Rightarrow> int \<times> mem" where
  "check_elf mm data =
     (let mm = put_magic mm data in
      if data = NULL then (0, mm)
      else if e_version mm data \<noteq> EV_CURRENT then (0, mm)
      else if e_type mm data \<noteq> ET_DYN then (0, mm)
      else (1, mm))"

text \<open>The address range of the loaded segments.\<close>

definition widen :: "elf_phdr \<Rightarrow> u64 \<times> u64 \<Rightarrow> u64 \<times> u64" where
  "widen ph r =
     (let (p_lo, p_hi) = r; s = p_vaddr ph; e = s + p_memsz ph in
      if p_type ph = PT_LOAD then (if p_lo > s then s else p_lo, if p_hi < e then e else p_hi) else (p_lo, p_hi))"

definition elf_pt_load_addr :: "mem \<Rightarrow> addr \<Rightarrow> u64 \<times> u64" where
  "elf_pt_load_addr mm fp =
     fold widen (map (phdr_at mm (fp + e_phoff mm fp)) [0..<unat (e_phnum mm fp)]) (0xffffffffffffffff, 0)"

text \<open>A failed check is only logged.\<close>

definition elf_load_size :: "mem \<Rightarrow> addr \<Rightarrow> u64 \<times> mem" where
  "elf_load_size mm fp =
     (let (_, mm) = check_elf mm fp; (lo, hi) = elf_pt_load_addr mm fp in (hi - lo, mm))"

definition load_one :: "addr \<Rightarrow> addr \<Rightarrow> u64 \<Rightarrow> elf_phdr \<Rightarrow> mem \<Rightarrow> mem" where
  "load_one fp addr addr_lo ph mm =
     (if p_type ph = PT_LOAD then
        (let offset = p_vaddr ph - addr_lo; relocate_addr = addr + offset; source_addr = fp + p_offset ph
         in memcpy (memset mm relocate_addr 0 (p_memsz ph)) relocate_addr source_addr (p_filesz ph))
      else mm)"

definition elf_load_segment :: "mem \<Rightarrow> addr \<Rightarrow> addr \<Rightarrow> mem" where
  "elf_load_segment mm fp addr =
     (let (_, mm) = check_elf mm fp;
          phdr = fp + e_phoff mm fp;
          (lo, hi) = elf_pt_load_addr mm fp
      in fold (\<lambda>i mm. load_one fp addr lo (phdr_at mm phdr i) mm) [0..<unat (e_phnum mm fp)] mm)"

subsection \<open>The range\<close>

lemma fold_widen:
  "fst (fold widen phs (lo, hi)) \<le> lo \<and> hi \<le> snd (fold widen phs (lo, hi)) \<and>
   (\<forall>ph \<in> set phs. p_type ph = PT_LOAD \<longrightarrow>
      fst (fold widen phs (lo, hi)) \<le> p_vaddr ph \<and> p_vaddr ph + p_memsz ph \<le> snd (fold widen phs (lo, hi)))"
proof (induction phs arbitrary: lo hi)
  case (Cons ph phs)
  obtain lo' hi' where w: "widen ph (lo, hi) = (lo', hi')" by force
  have "lo' \<le> lo" "hi \<le> hi'" "p_type ph = PT_LOAD \<Longrightarrow> lo' \<le> p_vaddr ph \<and> p_vaddr ph + p_memsz ph \<le> hi'"
    using w by (auto simp: widen_def Let_def split: if_splits)
  then show ?case using Cons.IH [of lo' hi'] by (auto simp: w intro: order_trans)
qed simp

subsection \<open>Loading\<close>

definition disjoint_blocks :: "addr \<Rightarrow> nat \<Rightarrow> addr \<Rightarrow> nat \<Rightarrow> bool" where
  "disjoint_blocks p n q k \<longleftrightarrow> (\<forall>a. in_block a p n \<longrightarrow> \<not> in_block a q k)"

definition dest :: "addr \<Rightarrow> u64 \<Rightarrow> elf_phdr \<Rightarrow> addr" where
  "dest addr lo ph = addr + (p_vaddr ph - lo)"

definition segment_byte :: "mem \<Rightarrow> addr \<Rightarrow> addr \<Rightarrow> u64 \<Rightarrow> elf_phdr \<Rightarrow> addr \<Rightarrow> u8" where
  "segment_byte mm fp addr lo ph a =
     (if in_block a (dest addr lo ph) (unat (p_filesz ph)) then mm (fp + p_offset ph + (a - dest addr lo ph)) else 0)"

lemma load_one_spec:
  assumes t: "p_type ph = PT_LOAD" and sz: "p_filesz ph \<le> p_memsz ph"
    and src: "disjoint_blocks (fp + p_offset ph) (unat (p_filesz ph)) (dest addr lo ph) (unat (p_memsz ph))"
  shows "load_one fp addr lo ph mm a =
    (if in_block a (dest addr lo ph) (unat (p_memsz ph)) then segment_byte mm fp addr lo ph a else mm a)"
proof -
  define d where "d = dest addr lo ph"
  define s where "s = fp + p_offset ph"
  define n where "n = unat (p_filesz ph)"
  define m1 where "m1 = memset mm d 0 (p_memsz ph)"
  have m1: "m1 x = (if in_block x d (unat (p_memsz ph)) then 0 else mm x)" for x
    by (simp add: m1_def memset_spec)
  have n: "n \<le> 2 ^ 64" using unat_le_64 [of "p_filesz ph"] by (simp only: n_def)
  have nm: "n \<le> unat (p_memsz ph)" using sz by (simp add: n_def word_le_nat_alt)
  have dj: "in_block x s n \<Longrightarrow> \<not> in_block x d n" for x
    using src nm unfolding disjoint_blocks_def s_def [symmetric] d_def [symmetric] n_def [symmetric]
    by (auto simp: in_block_def)
  have run: "load_one fp addr lo ph mm = memcpy_loop n m1 d s"
    using t by (simp add: load_one_def Let_def memcpy_def n_def m1_def d_def dest_def s_def)
  show ?thesis
  proof (cases "in_block a d n")
    case False
    then have "memcpy_loop n m1 d s a = m1 a" by (rule memcpy_loop_frame [OF n])
    then show ?thesis using False m1 [of a]
      by (simp add: run segment_byte_def d_def [symmetric] n_def [symmetric])
  next
    case True
    obtain i where i: "i < n" "a = d + word_of_nat i" by (rule in_blockE [OF True])
    have "bytes_at (memcpy_loop n m1 d s) d n = bytes_at m1 s n"
      by (rule memcpy_loop_bytes [OF n]) (use dj in blast)
    then have "bytes_at (memcpy_loop n m1 d s) d n ! i = bytes_at m1 s n ! i" by simp
    then have v: "memcpy_loop n m1 d s a = m1 (s + word_of_nat i)" using i by simp
    have "in_block (s + word_of_nat i) s n" using in_block_offset [OF i(1) n] .
    then have "m1 (s + word_of_nat i) = mm (s + word_of_nat i)"
      using src m1 unfolding disjoint_blocks_def s_def [symmetric] d_def [symmetric] n_def [symmetric] by simp
    moreover have "in_block a d (unat (p_memsz ph))" using True nm by (simp add: in_block_def)
    ultimately show ?thesis using True v i(2)
      by (simp add: run segment_byte_def d_def [symmetric] n_def [symmetric] s_def [symmetric])
  qed
qed

lemma in_block_sub:
  assumes "in_block a (p + word_of_nat c) k" and "c + k \<le> n" and "n \<le> 2 ^ 64"
  shows "in_block a p n"
proof -
  obtain i where i: "i < k" "a = p + word_of_nat c + word_of_nat i" by (rule in_blockE [OF assms(1)])
  then have "a = p + word_of_nat (c + i)" by (simp add: add.assoc)
  moreover have "c + i < n" using i(1) assms(2) by simp
  ultimately show ?thesis using in_block_offset [OF _ assms(3), of "c + i" p] by (simp only:)
qed

lemma phdr_at_cong:
  assumes "\<And>a. in_block a (phdr + word_of_nat (phdr_size * i)) phdr_size \<Longrightarrow> mm' a = mm a"
  shows "phdr_at mm' phdr i = phdr_at mm phdr i"
proof -
  define p where "p = phdr + word_of_nat (phdr_size * i)"
  have b: "bytes_at mm' (p + word_of_nat c) k = bytes_at mm (p + word_of_nat c) k" if "c + k \<le> 56" for c k
  proof (rule bytes_at_cong)
    show "mm' a = mm a" if "in_block a (p + word_of_nat c) k" for a
      using assms in_block_sub [OF that] \<open>c + k \<le> 56\<close> by (simp add: p_def phdr_size_def)
  qed (use that in simp)
  show ?thesis
    using b [of 0 4] b [of 8 8] b [of 16 8] b [of 32 8] b [of 40 8]
    unfolding phdr_at_def Let_def rd32_def rd64_def p_def [symmetric] by simp
qed

text \<open>The layout that a loader can rely on: the program headers and the file contents of the segments lie
  outside the memory that segments are loaded to, segments do not overlap, and none is larger in the
  file than in memory or wraps around the end of the address space.\<close>

definition elf_layout :: "mem \<Rightarrow> addr \<Rightarrow> addr \<Rightarrow> bool" where
  "elf_layout mm fp addr \<longleftrightarrow>
     (let phdr = fp + e_phoff mm fp; ph = phdr_at mm phdr; (lo, hi) = elf_pt_load_addr mm fp;
          D = (\<lambda>i. dest addr lo (ph i)); N = (\<lambda>i. unat (p_memsz (ph i)))
      in \<forall>i < unat (e_phnum mm fp). p_type (ph i) = PT_LOAD \<longrightarrow>
           p_filesz (ph i) \<le> p_memsz (ph i) \<and> unat (p_vaddr (ph i)) + N i < 2 ^ 64 \<and>
           (\<forall>j < unat (e_phnum mm fp).
             disjoint_blocks (phdr + word_of_nat (phdr_size * j)) phdr_size (D i) (N i) \<and>
             (p_type (ph j) = PT_LOAD \<longrightarrow>
                disjoint_blocks (fp + p_offset (ph j)) (unat (p_filesz (ph j))) (D i) (N i) \<and>
                (i \<noteq> j \<longrightarrow> disjoint_blocks (D j) (N j) (D i) (N i)))))"

lemma load_fold:
  fixes mm :: mem and phdr :: addr
  defines "ph \<equiv> phdr_at mm phdr"
  assumes "distinct xs"
    and sz: "\<And>i. i \<in> set xs \<Longrightarrow> p_type (ph i) = PT_LOAD \<Longrightarrow> p_filesz (ph i) \<le> p_memsz (ph i)"
    and hd: "\<And>i j. i \<in> set xs \<Longrightarrow> j \<in> set xs \<Longrightarrow> p_type (ph i) = PT_LOAD \<Longrightarrow>
      disjoint_blocks (phdr + word_of_nat (phdr_size * j)) phdr_size (dest addr lo (ph i)) (unat (p_memsz (ph i)))"
    and src: "\<And>i j. i \<in> set xs \<Longrightarrow> j \<in> set xs \<Longrightarrow> p_type (ph i) = PT_LOAD \<Longrightarrow> p_type (ph j) = PT_LOAD \<Longrightarrow>
      disjoint_blocks (fp + p_offset (ph j)) (unat (p_filesz (ph j))) (dest addr lo (ph i)) (unat (p_memsz (ph i)))"
    and dst: "\<And>i j. i \<in> set xs \<Longrightarrow> j \<in> set xs \<Longrightarrow> i \<noteq> j \<Longrightarrow> p_type (ph i) = PT_LOAD \<Longrightarrow> p_type (ph j) = PT_LOAD \<Longrightarrow>
      disjoint_blocks (dest addr lo (ph j)) (unat (p_memsz (ph j))) (dest addr lo (ph i)) (unat (p_memsz (ph i)))"
  shows "(\<forall>i \<in> set xs. p_type (ph i) = PT_LOAD \<longrightarrow> (\<forall>a. in_block a (dest addr lo (ph i)) (unat (p_memsz (ph i))) \<longrightarrow>
      fold (\<lambda>i mm. load_one fp addr lo (phdr_at mm phdr i) mm) xs mm a = segment_byte mm fp addr lo (ph i) a)) \<and>
    (\<forall>a. (\<forall>i \<in> set xs. p_type (ph i) = PT_LOAD \<longrightarrow> \<not> in_block a (dest addr lo (ph i)) (unat (p_memsz (ph i)))) \<longrightarrow>
      fold (\<lambda>i mm. load_one fp addr lo (phdr_at mm phdr i) mm) xs mm a = mm a)"
  using assms(2-)
proof (induction xs rule: rev_induct)
  case (snoc k ks)
  define m1 where "m1 = fold (\<lambda>i mm. load_one fp addr lo (phdr_at mm phdr i) mm) ks mm"
  have IH: "\<forall>i \<in> set ks. p_type (ph i) = PT_LOAD \<longrightarrow> (\<forall>a. in_block a (dest addr lo (ph i)) (unat (p_memsz (ph i))) \<longrightarrow>
      m1 a = segment_byte mm fp addr lo (ph i) a)"
    "\<And>a. (\<forall>i \<in> set ks. p_type (ph i) = PT_LOAD \<longrightarrow> \<not> in_block a (dest addr lo (ph i)) (unat (p_memsz (ph i)))) \<Longrightarrow>
      m1 a = mm a"
    using snoc.IH snoc.prems unfolding m1_def by simp_all
  have k: "phdr_at m1 phdr k = ph k"
    unfolding ph_def
  proof (rule phdr_at_cong, rule IH(2), intro ballI impI notI)
    fix a i assume "in_block a (phdr + word_of_nat (phdr_size * k)) phdr_size" "i \<in> set ks"
      "p_type (ph i) = PT_LOAD" "in_block a (dest addr lo (ph i)) (unat (p_memsz (ph i)))"
    then show False using snoc.prems(3) [of i k] by (auto simp: disjoint_blocks_def)
  qed
  have f: "fold (\<lambda>i mm. load_one fp addr lo (phdr_at mm phdr i) mm) (ks @ [k]) mm = load_one fp addr lo (ph k) m1"
    by (simp add: m1_def [symmetric] k)
  show ?case
  proof (cases "p_type (ph k) = PT_LOAD")
    case False
    then have "load_one fp addr lo (ph k) m1 = m1" by (simp add: load_one_def)
    then show ?thesis using IH False unfolding f by auto
  next
    case True
    have sb: "in_block a (dest addr lo (ph k)) (unat (p_memsz (ph k))) \<Longrightarrow>
        segment_byte m1 fp addr lo (ph k) a = segment_byte mm fp addr lo (ph k) a" for a
    proof -
      have "m1 (fp + p_offset (ph k) + (a - dest addr lo (ph k))) = mm (fp + p_offset (ph k) + (a - dest addr lo (ph k)))"
        if "in_block a (dest addr lo (ph k)) (unat (p_filesz (ph k)))"
      proof (rule IH(2), intro ballI impI notI)
        fix i assume i: "i \<in> set ks" "p_type (ph i) = PT_LOAD"
          "in_block (fp + p_offset (ph k) + (a - dest addr lo (ph k))) (dest addr lo (ph i)) (unat (p_memsz (ph i)))"
        have "in_block (fp + p_offset (ph k) + (a - dest addr lo (ph k))) (fp + p_offset (ph k)) (unat (p_filesz (ph k)))"
          using that by (simp add: in_block_def)
        then show False using snoc.prems(4) [of i k] i True by (auto simp: disjoint_blocks_def)
      qed
      then show ?thesis by (simp add: segment_byte_def)
    qed
    have one: "load_one fp addr lo (ph k) m1 a =
        (if in_block a (dest addr lo (ph k)) (unat (p_memsz (ph k))) then segment_byte mm fp addr lo (ph k) a else m1 a)" for a
      using load_one_spec [OF True, where fp = fp and addr = addr and lo = lo and mm = m1 and a = a]
        snoc.prems(2) [of k] snoc.prems(4) [of k k] True sb by simp
    have apart: "in_block a (dest addr lo (ph i)) (unat (p_memsz (ph i))) \<Longrightarrow> i \<in> set ks \<Longrightarrow> p_type (ph i) = PT_LOAD \<Longrightarrow>
        \<not> in_block a (dest addr lo (ph k)) (unat (p_memsz (ph k)))" for a i
      using snoc.prems(1) snoc.prems(5) [of k i] True by (auto simp: disjoint_blocks_def)
    show ?thesis unfolding f one using IH apart True by auto
  qed
qed simp


subsection \<open>An example\<close>

lemma stored_le_32: "stored mm a (le_bytes 4 x) \<Longrightarrow> x < 2 ^ 32 \<Longrightarrow> rd32 mm a = word_of_nat x"
  using le_round [of x 4] by (simp add: stored_def rd32_def)

lemma stored_le_16: "stored mm a (le_bytes 2 x) \<Longrightarrow> x < 2 ^ 16 \<Longrightarrow> rd16 mm a = word_of_nat x"
  using le_round [of x 2] by (simp add: stored_def rd16_def)

lemma disjoint_far:
  assumes "k \<le> unat (p - q)" and "unat (p - q) + n \<le> 2 ^ 64"
  shows "disjoint_blocks p n q k"
  unfolding disjoint_blocks_def
proof (intro allI impI)
  fix a assume "in_block a p n"
  then obtain i where i: "i < n" "a = p + word_of_nat i" by (rule in_blockE)
  then have ui: "unat (word_of_nat i :: addr) = i" using assms(2) by (intro unat_of_nat_lt) simp
  have "unat (p - q + word_of_nat i) = unat (p - q) + i"
    using i(1) assms(2) ui by (subst unat_add_no_wrap) simp_all
  then show "\<not> in_block a q k" using i(2) assms(1) by (simp add: in_block_def algebra_simps)
qed

text \<open>A file with one segment of four bytes that takes eight in memory.\<close>

definition example_elf :: "u8 list" where
  "example_elf =
     [0x7f, 0x45, 0x4c, 0x46] @ replicate 12 0 @ le_bytes 2 3 @ le_bytes 2 0x3e @ le_bytes 4 1 @ le_bytes 8 0 @
     le_bytes 8 64 @ replicate 16 0 @ le_bytes 2 1 @ replicate 6 0 @
     le_bytes 4 1 @ le_bytes 4 0 @ le_bytes 8 120 @ le_bytes 8 0x40 @ le_bytes 8 0 @ le_bytes 8 4 @ le_bytes 8 8 @
     le_bytes 8 0 @ [0x11, 0x22, 0x33, 0x44]"

definition example_elf_mem :: mem where
  "example_elf_mem = load example_elf 0x1000 (\<lambda>_. 0xAA)"

lemma example_elf_stored: "stored example_elf_mem 0x1000 example_elf"
  unfolding example_elf_mem_def by (rule load_stored) (simp add: example_elf_def)

lemma example_elf_parts:
  "put_magic example_elf_mem 0x1000 = example_elf_mem" "e_phoff example_elf_mem 0x1000 = 64"
  "e_phnum example_elf_mem 0x1000 = 1" "example_elf_mem 0x1079 = 0x22"
  "phdr_at example_elf_mem 0x1040 0 = \<lparr>p_type = 1, p_offset = 120, p_vaddr = 0x40, p_filesz = 4, p_memsz = 8\<rparr>"
proof -
  note st = example_elf_stored [unfolded example_elf_def stored_append stored_Cons stored_Nil, simplified]
  show "put_magic example_elf_mem 0x1000 = example_elf_mem"
    using st by (auto simp: put_magic_def fun_eq_iff)
  show "e_phoff example_elf_mem 0x1000 = 64"
    using st stored_le [of example_elf_mem "0x1020" 64] by (simp add: e_phoff_def)
  show "e_phnum example_elf_mem 0x1000 = 1"
    using st stored_le_16 [of example_elf_mem "0x1038" 1] by (simp add: e_phnum_def)
  show "example_elf_mem 0x1079 = 0x22" using st by simp
  show "phdr_at example_elf_mem 0x1040 0 = \<lparr>p_type = 1, p_offset = 120, p_vaddr = 0x40, p_filesz = 4, p_memsz = 8\<rparr>"
    using st stored_le_32 [of example_elf_mem "0x1040" 1] stored_le [of example_elf_mem "0x1048" 120]
      stored_le [of example_elf_mem "0x1050" 64] stored_le [of example_elf_mem "0x1060" 4] stored_le [of example_elf_mem "0x1068" 8]
    by (simp add: phdr_at_def Let_def)
qed


text \<open>\<^verbatim>\<open>check_elf\<close> accepts a file whatever its first four bytes are, and replaces them by the magic number.\<close>

theorem check_elf_ignores_magic:
  "check_elf (mm(ehdr := a, ehdr + 1 := b, ehdr + 2 := c, ehdr + 3 := d)) ehdr = check_elf mm ehdr \<and>
    snd (check_elf mm ehdr) ehdr = 0x7f"
proof -
  have ne: "ehdr \<noteq> ehdr + 1" "ehdr \<noteq> ehdr + 2" "ehdr \<noteq> ehdr + 3" "ehdr + 1 \<noteq> ehdr + 2" "ehdr + 1 \<noteq> ehdr + 3"
    "ehdr + 2 \<noteq> ehdr + 3" by simp_all
  have "put_magic (mm(ehdr := a, ehdr + 1 := b, ehdr + 2 := c, ehdr + 3 := d)) ehdr = put_magic mm ehdr"
    using ne by (auto simp: put_magic_def fun_eq_iff)
  then show ?thesis using ne by (auto simp: check_elf_def Let_def put_magic_def)
qed

end
