(* ===== verification/ConfigFile.thy ===== *)
theory ConfigFile
  imports CString
begin

text \<open>
  The configuration file, \<^verbatim>\<open>src/kernel/config.c\<close>: lines of the form \<open>name = [ value ]\<close> and
  comments. The parser walks over the bytes of the file in memory; like the code it looks at the
  byte behind the file before it compares with the end.
\<close>

definition IS_SPACE :: "u8 \<Rightarrow> bool" where
  "IS_SPACE x \<longleftrightarrow> x = 32 \<or> x = 10 \<or> x = 13 \<or> x = 9"

definition IS_KEY_NAME :: "u8 \<Rightarrow> bool" where
  "IS_KEY_NAME x \<longleftrightarrow> (97 \<le> x \<and> x \<le> 122) \<or> (65 \<le> x \<and> x \<le> 90) \<or> x = 95"

record conf_item =
  item_name :: "u8 list"
  item_val :: "u8 list"

text \<open>The scanning loops: how far they go while a test of the byte holds, and at most \<open>n\<close> bytes.\<close>

function skip_while :: "(u8 \<Rightarrow> bool) \<Rightarrow> mem \<Rightarrow> addr \<Rightarrow> addr \<Rightarrow> addr" where
  "skip_while P mm src fin = (if P (mm src) \<and> src < fin then skip_while P mm (src + 1) fin else src)"
  by auto
termination
  by (relation "measure (\<lambda>(P, mm, src, fin). unat fin - unat src)")
     (auto simp: unat_Suc_less word_less_nat_alt)

declare skip_while.simps [simp del]

definition skip_space :: "mem \<Rightarrow> addr \<Rightarrow> addr \<Rightarrow> addr" where
  "skip_space mm src fin = skip_while IS_SPACE mm src fin"

definition skip_line :: "mem \<Rightarrow> addr \<Rightarrow> addr \<Rightarrow> addr" where
  "skip_line mm src fin = skip_while (\<lambda>c. c \<noteq> 10) mm src fin"

fun read_field :: "nat \<Rightarrow> (u8 \<Rightarrow> bool) \<Rightarrow> mem \<Rightarrow> addr \<Rightarrow> addr \<Rightarrow> u8 list \<times> addr" where
  "read_field 0 P mm src fin = ([], src)"
| "read_field (Suc n) P mm src fin =
     (if P (mm src) \<and> src < fin
      then (let (s, src') = read_field n P mm (src + 1) fin in (mm src # s, src'))
      else ([], src))"

definition read_item :: "mem \<Rightarrow> addr \<Rightarrow> addr \<Rightarrow> status_t \<times> addr \<times> conf_item" where
  "read_item mm src fin =
     (let src = skip_space mm src fin;
          (name, src) = read_field 63 IS_KEY_NAME mm src fin;
          src = skip_space mm src fin;
          item = \<lparr>item_name = name, item_val = []\<rparr>
      in if mm src \<noteq> 61 then (K_ERROR, src + 1, item)
      else let src = skip_space mm (src + 1) fin
      in if mm src \<noteq> 91 then (K_ERROR, src + 1, item)
      else let src = skip_space mm (src + 1) fin;
               (val, src) = read_field 63 (\<lambda>c. c \<noteq> 93) mm src fin
      in (K_SUCCESS, src + 1, item\<lparr>item_val := val\<rparr>))"

text \<open>The main loop; \<open>configures\<close> has room for 64 items, and a further one is written behind the array.\<close>

partial_function (option) parse_loop :: "mem \<Rightarrow> addr \<Rightarrow> addr \<Rightarrow> conf_item list \<Rightarrow> conf_item list option" where
  "parse_loop mm src fin items =
     (if \<not> src < fin then Some items
      else let src = skip_space mm src fin in
      if src \<ge> fin then Some items
      else if mm src = 35 then parse_loop mm (skip_line mm src fin + 1) fin items
      else let (status, src, item) = read_item mm src fin in
      if ERROR status then parse_loop mm (skip_line mm src fin + 1) fin items
      else if length items < 64 then parse_loop mm (src + 1) fin (items @ [item])
      else None)"

definition parse_config :: "mem \<Rightarrow> addr \<Rightarrow> u64 \<Rightarrow> conf_item list option" where
  "parse_config mm data sz = parse_loop mm data (data + sz) []"

text \<open>The result: the bytes written to the caller's buffer, and the new \<^verbatim>\<open>value_len\<close>.\<close>

definition c_string :: "u8 list \<Rightarrow> u8 list" where "c_string s = takeWhile (\<lambda>c. c \<noteq> 0) s"

fun read_config :: "conf_item list \<Rightarrow> u8 list \<Rightarrow> u64 \<Rightarrow> u8 list \<times> u64" where
  "read_config [] name value_len = ([], 0)"
| "read_config (item # items) name value_len =
     (if name = c_string (item_name item) then
        (if unat value_len < length (item_val item) then ([], 0)
         else (c_string (item_val item) @ [0], word_of_nat (length (item_val item))))
      else read_config items name value_len)"

subsection \<open>Scanning a stored text\<close>

definition text_at :: "mem \<Rightarrow> addr \<Rightarrow> u8 list \<Rightarrow> bool" where
  "text_at mm a s \<longleftrightarrow> (\<forall>i < length s. mm (a + word_of_nat i) = s ! i)"

lemma text_at_Cons [simp]: "text_at mm a (c # s) \<longleftrightarrow> mm a = c \<and> text_at mm (a + 1) s"
proof -
  have "(\<forall>i < Suc (length s). mm (a + word_of_nat i) = (c # s) ! i) \<longleftrightarrow>
      mm a = c \<and> (\<forall>i < length s. mm (a + 1 + word_of_nat i) = s ! i)"
    by (auto simp: less_Suc_eq_0_disj ac_simps)
  then show ?thesis by (simp add: text_at_def)
qed

lemma text_at_Nil [simp]: "text_at mm a []" by (simp add: text_at_def)

lemma text_at_append [simp]:
  "text_at mm a (xs @ ys) \<longleftrightarrow> text_at mm a xs \<and> text_at mm (a + word_of_nat (length xs)) ys"
  by (induction xs arbitrary: a) (auto simp: ac_simps)

text \<open>The text that is left is never as long as the address space.\<close>

definition rest_at :: "mem \<Rightarrow> addr \<Rightarrow> addr \<Rightarrow> u8 list \<Rightarrow> bool" where
  "rest_at mm src fin s \<longleftrightarrow> text_at mm src s \<and> unat src + length s = unat fin"

lemma rest_at_Cons:
  "rest_at mm src fin (c # s) \<Longrightarrow> mm src = c \<and> src < fin \<and> rest_at mm (src + 1) fin s"
proof -
  assume r: "rest_at mm src fin (c # s)"
  then have lt: "src < fin" by (auto simp: rest_at_def word_less_nat_alt)
  have "unat (src + 1) = Suc (unat src)" by (rule unat_Suc_less [OF lt])
  then show ?thesis using r lt by (simp add: rest_at_def)
qed

lemma rest_at_Nil: "rest_at mm src fin [] \<Longrightarrow> src = fin"
  by (simp add: rest_at_def word_unat_eq_iff)

lemma rest_at_append:
  "rest_at mm src fin (xs @ ys) \<Longrightarrow> rest_at mm (src + word_of_nat (length xs)) fin ys"
proof (induction xs arbitrary: src)
  case (Cons x xs)
  have "rest_at mm (src + 1) fin (xs @ ys)"
    using rest_at_Cons [of mm src fin x "xs @ ys"] Cons.prems by simp
  from Cons.IH [OF this] show ?case by (simp add: add.assoc)
qed simp

lemma skip_while_stop: "rest_at mm src fin s \<Longrightarrow> s = [] \<or> \<not> P (hd s) \<Longrightarrow> skip_while P mm src fin = src"
  by (cases s) (auto simp: skip_while.simps [of P mm src fin] dest: rest_at_Cons rest_at_Nil)

lemma skip_while_all:
  assumes "rest_at mm src fin (xs @ ys)" and "\<forall>x \<in> set xs. P x" and "ys = [] \<or> \<not> P (hd ys)"
  shows "skip_while P mm src fin = src + word_of_nat (length xs)"
  using assms
proof (induction xs arbitrary: src)
  case Nil
  then show ?case using skip_while_stop [of mm src fin ys P] by simp
next
  case (Cons x xs)
  then have "mm src = x" "src < fin" "rest_at mm (src + 1) fin (xs @ ys)" "P x"
    using rest_at_Cons [of mm src fin x "xs @ ys"] by auto
  then show ?case using Cons.IH [of "src + 1"] Cons.prems
    by (simp add: skip_while.simps [of P mm src fin] ac_simps)
qed

lemma read_field_all:
  assumes "rest_at mm src fin (xs @ c # ys)" and "\<forall>x \<in> set xs. P x" and "\<not> P c" and "length xs \<le> n"
  shows "read_field n P mm src fin = (xs, src + word_of_nat (length xs))"
  using assms
proof (induction xs arbitrary: src n)
  case Nil
  then show ?case using rest_at_Cons [of mm src fin c ys] by (cases n) simp_all
next
  case (Cons x xs)
  obtain k where n: "n = Suc k" "length xs \<le> k" using Cons.prems(4) by (cases n) auto
  have "mm src = x" "src < fin" "rest_at mm (src + 1) fin (xs @ c # ys)" "P x"
    using rest_at_Cons [of mm src fin x "xs @ c # ys"] Cons.prems by auto
  then show ?case using Cons.IH [of "src + 1" k] Cons.prems n by (simp add: ac_simps)
qed

subsection \<open>Reading back a printed configuration\<close>

definition item_text :: "u8 list \<times> u8 list \<Rightarrow> u8 list" where
  "item_text kv = fst kv @ [32, 61, 32, 91] @ snd kv @ [93, 10]"

definition item_ok :: "u8 list \<times> u8 list \<Rightarrow> bool" where
  "item_ok kv \<longleftrightarrow> fst kv \<noteq> [] \<and> length (fst kv) \<le> 63 \<and> (\<forall>c \<in> set (fst kv). IS_KEY_NAME c) \<and>
     length (snd kv) \<le> 63 \<and> 93 \<notin> set (snd kv) \<and> (snd kv \<noteq> [] \<longrightarrow> \<not> IS_SPACE (hd (snd kv)))"

definition to_item :: "u8 list \<times> u8 list \<Rightarrow> conf_item" where
  "to_item kv = \<lparr>item_name = fst kv, item_val = snd kv\<rparr>"

lemma key_not_special: "IS_KEY_NAME c \<Longrightarrow> \<not> IS_SPACE c \<and> c \<noteq> 35 \<and> c \<noteq> 61 \<and> c \<noteq> 0"
  by (auto simp: IS_KEY_NAME_def IS_SPACE_def)

lemma char_classes [simp]:
  "IS_SPACE 32" "IS_SPACE 10" "\<not> IS_SPACE 61" "\<not> IS_SPACE 91" "\<not> IS_SPACE 93" "\<not> IS_KEY_NAME 32"
  by (simp_all add: IS_SPACE_def IS_KEY_NAME_def)

lemma read_item_text:
  assumes r: "rest_at mm src fin (item_text kv @ s)" and ok: "item_ok kv"
  shows "read_item mm src fin = (K_SUCCESS, src + word_of_nat (length (item_text kv) - 1), to_item kv)"
    and "rest_at mm (src + word_of_nat (length (item_text kv) - 1)) fin (10 # s)"
proof -
  obtain k v where kv: "kv = (k, v)" by force
  note ok' = ok [unfolded item_ok_def kv fst_conv snd_conv]
  define p1 where "p1 = src + word_of_nat (length k)"
  have r0: "rest_at mm src fin (k @ 32 # [61, 32, 91] @ v @ [93, 10] @ s)" using r by (simp add: item_text_def kv)
  then have r1: "rest_at mm p1 fin ([32] @ [61, 32, 91] @ v @ [93, 10] @ s)"
    using rest_at_append [of mm src fin k] by (simp add: p1_def)
  have r2: "rest_at mm (p1 + 1) fin (61 # [32] @ [91] @ v @ [93, 10] @ s)" using rest_at_Cons [OF r1 [simplified]] by simp
  then have m2: "mm (p1 + 1) = 61" "rest_at mm (p1 + 2) fin ([32] @ 91 # v @ [93, 10] @ s)"
    using rest_at_Cons [OF r2] by (simp_all add: add.assoc)
  have m3: "rest_at mm (p1 + 3) fin (91 # v @ [93, 10] @ s)"
    using rest_at_Cons [OF m2(2) [simplified]] by (simp add: add.assoc)
  have m4: "mm (p1 + 3) = 91" "rest_at mm (p1 + 4) fin (v @ 93 # [10] @ s)"
    using rest_at_Cons [OF m3] by (simp_all add: add.assoc)
  have m5: "rest_at mm (p1 + 4 + word_of_nat (length v)) fin (93 # 10 # s)"
    using rest_at_append [OF m4(2)] by simp
  obtain c k' where k: "k = c # k'" using ok' by (cases k) auto
  have sk0: "skip_space mm src fin = src"
    unfolding skip_space_def by (rule skip_while_stop [OF r0]) (use ok' k key_not_special in auto)
  have rf1: "read_field 63 IS_KEY_NAME mm src fin = (k, p1)"
    unfolding p1_def by (rule read_field_all [OF r0]) (use ok' in auto)
  have sk1: "skip_space mm p1 fin = p1 + 1"
    unfolding skip_space_def by (subst skip_while_all [OF r1]) simp_all
  have sk2: "skip_space mm (p1 + 2) fin = p1 + 3"
    unfolding skip_space_def by (subst skip_while_all [OF m2(2)]) (simp_all add: add.assoc)
  have sk3: "skip_space mm (p1 + 4) fin = p1 + 4"
    unfolding skip_space_def by (rule skip_while_stop [OF m4(2)]) (use ok' in \<open>cases v; auto\<close>)
  have rf2: "read_field 63 (\<lambda>c. c \<noteq> 93) mm (p1 + 4) fin = (v, p1 + 4 + word_of_nat (length v))"
    by (rule read_field_all [OF m4(2)]) (use ok' in auto)
  have len: "src + word_of_nat (length (item_text kv) - 1) = p1 + 4 + word_of_nat (length v) + 1"
    by (simp add: item_text_def kv p1_def ac_simps)
  show "read_item mm src fin = (K_SUCCESS, src + word_of_nat (length (item_text kv) - 1), to_item kv)"
    unfolding read_item_def Let_def sk0 rf1 prod.case sk1 len
    using m2(1) m4(1) sk2 sk3 rf2 by (simp add: add.assoc to_item_def kv)
  show "rest_at mm (src + word_of_nat (length (item_text kv) - 1)) fin (10 # s)"
    unfolding len using rest_at_Cons [OF m5] by simp
qed

lemma parse_loop_items:
  assumes "rest_at mm src fin (concat (map item_text kvs))" and "\<forall>kv \<in> set kvs. item_ok kv"
    and "length acc + length kvs \<le> 64"
  shows "parse_loop mm src fin acc = Some (acc @ map to_item kvs)"
  using assms
proof (induction kvs arbitrary: src acc)
  case Nil
  then have "src = fin" using rest_at_Nil by simp
  then show ?case by (subst parse_loop.simps) simp
next
  case (Cons kv kvs)
  have ok: "item_ok kv" using Cons.prems(2) by simp
  have r: "rest_at mm src fin (item_text kv @ concat (map item_text kvs))" using Cons.prems(1) by simp
  obtain c t where ct: "item_text kv = c # t" "IS_KEY_NAME c"
    using ok by (cases "fst kv") (auto simp: item_ok_def item_text_def)
  have hd: "mm src = c" "src < fin" using rest_at_Cons [of mm src fin c "t @ concat (map item_text kvs)"] r ct by simp_all
  note nk = key_not_special [OF ct(2)]
  have nle: "\<not> fin \<le> src" using hd(2) by (simp add: not_le)
  have sk: "skip_space mm src fin = src"
    unfolding skip_space_def by (rule skip_while_stop [OF r]) (use ct nk in simp)
  define p where "p = src + word_of_nat (length (item_text kv) - 1)"
  note it = read_item_text [OF r ok, folded p_def]
  have "rest_at mm (p + 1) fin (concat (map item_text kvs))" using rest_at_Cons [OF it(2)] by simp
  then have "parse_loop mm (p + 1) fin (acc @ [to_item kv]) = Some ((acc @ [to_item kv]) @ map to_item kvs)"
    by (rule Cons.IH) (use Cons.prems in auto)
  moreover have "parse_loop mm src fin acc = parse_loop mm (p + 1) fin (acc @ [to_item kv])"
    using hd sk nk it(1) Cons.prems(3) nle by (subst parse_loop.simps) (simp add: Let_def)
  ultimately show ?case by simp
qed

text \<open>C32: A configuration printed as lines \<open>name = [value]\<close> is read back: the parser yields exactly the
  items, in order, and \<^verbatim>\<open>read_config\<close> gives the value of the first item of the name, when the
  buffer is large enough, and the length 0 when there is none.\<close>

theorem config_roundtrip:
  assumes tx: "text_at mm data (concat (map item_text kvs))"
    and fit: "unat data + length (concat (map item_text kvs)) < 2 ^ 64"
    and ok: "\<forall>kv \<in> set kvs. item_ok kv \<and> 0 \<notin> set (snd kv)" and n: "length kvs \<le> 64"
  shows "\<exists>items. parse_config mm data (word_of_nat (length (concat (map item_text kvs)))) = Some items \<and>
    items = map to_item kvs \<and>
    read_config items name value_len =
      (case List.find (\<lambda>kv. fst kv = name) kvs of
         None \<Rightarrow> ([], 0)
       | Some (k, v) \<Rightarrow> if unat value_len < length v then ([], 0) else (v @ [0], word_of_nat (length v)))"
proof -
  define L where "L = length (concat (map item_text kvs))"
  have "unat (word_of_nat L :: u64) = L" using fit by (intro unat_of_nat_lt) (simp add: L_def)
  then have u: "unat (data + word_of_nat L) = unat data + L"
    using fit by (subst unat_add_no_wrap) (simp_all add: L_def)
  have "rest_at mm data (data + word_of_nat L) (concat (map item_text kvs))"
    using tx u by (simp add: rest_at_def L_def)
  then have p: "parse_config mm data (word_of_nat L) = Some (map to_item kvs)"
    unfolding parse_config_def using parse_loop_items [of mm data "data + word_of_nat L" kvs "[]"] ok n by simp
  have tw: "c_string s = s" if "0 \<notin> set s" for s
    using that unfolding c_string_def by (intro takeWhile_eq_all_conv [THEN iffD2]) auto
  have "read_config (map to_item kvs) name value_len =
      (case List.find (\<lambda>kv. fst kv = name) kvs of
         None \<Rightarrow> ([], 0)
       | Some (k, v) \<Rightarrow> if unat value_len < length v then ([], 0) else (v @ [0], word_of_nat (length v)))"
    using ok
  proof (induction kvs)
    case (Cons kv kvs)
    have "0 \<notin> set (fst kv)" "0 \<notin> set (snd kv)"
      using Cons.prems key_not_special by (auto simp: item_ok_def)
    then show ?case using Cons by (auto simp: to_item_def tw split: prod.splits)
  qed simp
  then show ?thesis using p by (simp add: L_def)
qed

definition example_conf :: "(u8 list \<times> u8 list) list" where
  "example_conf = [([97], [120, 121]), ([98], [])]"

definition example_conf_mem :: mem where
  "example_conf_mem = (\<lambda>a. if unat a < 16 then concat (map item_text example_conf) ! unat a else 0)"

lemma config_roundtrip_witness:
  "\<exists>items. parse_config example_conf_mem 0 16 = Some items \<and> read_config items [97] 8 = ([120, 121, 0], 2) \<and>
    read_config items [99] 8 = ([], 0)"
proof -
  have l: "length (concat (map item_text example_conf)) = 16" by (simp add: example_conf_def item_text_def)
  have tx: "text_at example_conf_mem 0 (concat (map item_text example_conf))"
    unfolding text_at_def l by (auto simp: example_conf_mem_def unat_of_nat)
  have ok: "\<forall>kv \<in> set example_conf. item_ok kv \<and> 0 \<notin> set (snd kv)" "length example_conf \<le> 64"
    by (simp_all add: example_conf_def item_ok_def IS_KEY_NAME_def IS_SPACE_def)
  have fit: "unat (0 :: addr) + length (concat (map item_text example_conf)) < 2 ^ 64" unfolding l by simp
  define its where "its = map to_item example_conf"
  have w: "(word_of_nat 16 :: u64) = 16" by simp
  have u: "unat (8 :: u64) = 8" by simp
  have p: "parse_config example_conf_mem 0 16 = Some its" and r: "read_config its [97] 8 = ([120, 121, 0], 2)"
    using config_roundtrip [OF tx fit ok, of "[97]" 8] unfolding l w its_def
    by (simp_all add: example_conf_def u)
  have "read_config its [99] 8 = ([], 0)"
    using config_roundtrip [OF tx fit ok, of "[99]" 8] unfolding l w its_def
    by (simp add: example_conf_def)
  with p r show ?thesis by blast
qed

end
