(* ===== verification/Symbols.thy ===== *)
theory Symbols
  imports Prelude
begin

text \<open>
  The kernel's symbol table, \<^verbatim>\<open>src/kernel/symbols.c\<close>, which the backtrace of a fault prints from. The
  tables are generated by \<^verbatim>\<open>tools/kallsyms.c\<close> from the sorted output of nm; \<open>beyond\<close> is the word that
  the linker put behind the array of addresses.
\<close>

record symbol_table =
  kallsyms_address :: "addr list"
  kallsyms_symbols :: "u8 list list"
  beyond :: addr
  kernel_start :: addr
  kernel_end :: addr

definition kallsyms_count :: "symbol_table \<Rightarrow> nat" where
  "kallsyms_count t = length (kallsyms_address t)"

definition address_word :: "symbol_table \<Rightarrow> nat \<Rightarrow> addr" where
  "address_word t i = (if i < kallsyms_count t then kallsyms_address t ! i else beyond t)"

definition is_available_symbol_address :: "symbol_table \<Rightarrow> addr \<Rightarrow> bool" where
  "is_available_symbol_address t a \<longleftrightarrow> a \<ge> kernel_start t \<and> a \<le> kernel_end t"

definition get_symbol_index_by_addr :: "symbol_table \<Rightarrow> addr \<Rightarrow> status_t \<times> nat option" where
  "get_symbol_index_by_addr t a =
     (case List.find (\<lambda>i. a \<ge> address_word t i \<and> a < address_word t (i + 1)) [0..<kallsyms_count t] of
        Some i \<Rightarrow> (K_SUCCESS, Some i)
      | None \<Rightarrow> (K_ERROR, None))"

definition invalid_symbol :: "u8 list" where "invalid_symbol = [73, 110, 118, 97, 108, 105, 100]"

definition index_to_symbol :: "symbol_table \<Rightarrow> nat \<Rightarrow> u8 list" where
  "index_to_symbol t i = (if i < kallsyms_count t then kallsyms_symbols t ! i else invalid_symbol)"

definition index_to_addr :: "symbol_table \<Rightarrow> nat \<Rightarrow> addr" where
  "index_to_addr t i = (if i < kallsyms_count t then kallsyms_address t ! i else NULL)"

definition addr_to_symbol :: "symbol_table \<Rightarrow> addr \<Rightarrow> u8 list" where
  "addr_to_symbol t a =
     (if \<not> is_available_symbol_address t a then invalid_symbol
      else (case get_symbol_index_by_addr t a of
          (status, Some i) \<Rightarrow> if ERROR status then invalid_symbol else kallsyms_symbols t ! i
        | (_, None) \<Rightarrow> invalid_symbol))"

lemma find_upt:
  assumes "List.find P [0..<n] = r"
  shows "case r of None \<Rightarrow> \<forall>i < n. \<not> P i | Some i \<Rightarrow> i < n \<and> P i \<and> (\<forall>j < i. \<not> P j)"
  using assms by (cases r) (auto simp: find_None_iff find_Some_iff)

text \<open>With a sorted table, the lookup finds the symbol that an address belongs to: the last one that
  starts at or before it. An address in the last symbol is found only as far as the word that happens to
  follow the table reaches, since the code reads one element past its end.\<close>

theorem symbol_lookup:
  assumes sorted: "sorted (kallsyms_address t)" and ne: "kallsyms_count t = Suc n"
  shows "(\<forall>i st. get_symbol_index_by_addr t a = (st, Some i) \<longrightarrow> st = K_SUCCESS \<and> i < kallsyms_count t \<and>
      kallsyms_address t ! i \<le> a \<and> (i < n \<longrightarrow> a < kallsyms_address t ! Suc i)) \<and>
    ((\<exists>i. get_symbol_index_by_addr t a = (K_SUCCESS, Some i)) \<longleftrightarrow>
      kallsyms_address t ! 0 \<le> a \<and> (kallsyms_address t ! n \<le> a \<longrightarrow> a < beyond t))"
proof -
  define P where "P i \<longleftrightarrow> a \<ge> address_word t i \<and> a < address_word t (i + 1)" for i
  have w: "i < n \<Longrightarrow> P i \<longleftrightarrow> kallsyms_address t ! i \<le> a \<and> a < kallsyms_address t ! Suc i" for i
    using ne by (simp add: P_def address_word_def)
  have wn: "P n \<longleftrightarrow> kallsyms_address t ! n \<le> a \<and> a < beyond t"
    using ne by (simp add: P_def address_word_def)
  have g: "get_symbol_index_by_addr t a = (case List.find P [0..<Suc n] of
      Some i \<Rightarrow> (K_SUCCESS, Some i) | None \<Rightarrow> (K_ERROR, None))"
    unfolding get_symbol_index_by_addr_def P_def ne ..
  have mono: "kallsyms_address t ! i \<le> kallsyms_address t ! j" if "i \<le> j" "j \<le> n" for i j
    using sorted that ne by (intro sorted_nth_mono) (simp_all add: kallsyms_count_def)
  have ex: "(\<exists>i < Suc n. P i) \<longleftrightarrow>
      kallsyms_address t ! 0 \<le> a \<and> (kallsyms_address t ! n \<le> a \<longrightarrow> a < beyond t)"
  proof
    assume "\<exists>i < Suc n. P i"
    then obtain i where i: "i < Suc n" "P i" by blast
    then show "kallsyms_address t ! 0 \<le> a \<and> (kallsyms_address t ! n \<le> a \<longrightarrow> a < beyond t)"
      using mono [of 0 i] mono [of "Suc i" n] w [of i] wn
      by (cases "i = n") (auto intro: order_trans dest: order_less_le_trans)
  next
    assume r: "kallsyms_address t ! 0 \<le> a \<and> (kallsyms_address t ! n \<le> a \<longrightarrow> a < beyond t)"
    define k where "k = Max {i. i \<le> n \<and> kallsyms_address t ! i \<le> a}"
    have fin: "finite {i. i \<le> n \<and> kallsyms_address t ! i \<le> a}" by (rule finite_subset [of _ "{..n}"]) auto
    have "{i. i \<le> n \<and> kallsyms_address t ! i \<le> a} \<noteq> {}" using r by auto
    from Max_in [OF fin this] have k: "k \<le> n" "kallsyms_address t ! k \<le> a" by (auto simp: k_def)
    have "\<not> kallsyms_address t ! Suc k \<le> a" if "k < n"
      using Max_ge [OF fin, of "Suc k"] that by (auto simp: k_def [symmetric])
    then have "P k" using w [of k] wn r k by (cases "k = n") (auto simp: not_le)
    then show "\<exists>i < Suc n. P i" using k(1) by (intro exI [of _ k]) simp
  qed
  show ?thesis
  proof (cases "List.find P [0..<Suc n]")
    case None
    then show ?thesis using find_upt [OF None] ex unfolding g None by auto
  next
    case (Some i)
    have i: "i < Suc n" "P i" using find_upt [OF Some] by auto
    have "kallsyms_address t ! i \<le> a \<and> (i < n \<longrightarrow> a < kallsyms_address t ! Suc i)"
      using i w [of i] wn by (cases "i = n") auto
    then show ?thesis using ex i ne unfolding g Some by auto
  qed
qed

definition example_symbols :: symbol_table where
  "example_symbols = \<lparr>kallsyms_address = [0x1000, 0x1200], kallsyms_symbols = [[102], [103]], beyond = 0,
     kernel_start = 0x1000, kernel_end = 0x2000\<rparr>"

lemma symbol_lookup_witness:
  "(\<exists>i. get_symbol_index_by_addr example_symbols 0x1100 = (K_SUCCESS, Some i)) \<and>
    \<not> (\<exists>i. get_symbol_index_by_addr example_symbols 0x1300 = (K_SUCCESS, Some i))"
proof -
  have s: "sorted (kallsyms_address example_symbols)" "kallsyms_count example_symbols = Suc 1"
    by (simp_all add: example_symbols_def kallsyms_count_def)
  show ?thesis
    using symbol_lookup [OF s, where a = "0x1100"] symbol_lookup [OF s, where a = "0x1300"]
    by (simp add: example_symbols_def)
qed

end
