(* ===== verification/Hardware.thy ===== *)
theory Hardware
  imports Prelude
begin

text \<open>
  The processor's doors to the devices: the instructions of \<^verbatim>\<open>include/io.h\<close> on
  ports and volatile accesses to memory-mapped registers. What a device answers is not part of the
  kernel, so the accesses are functions on an unknown state \<open>'h\<close> of the hardware. Both
  reads and writes change it.
\<close>

record 'h hardware =
  io_in8 :: "u32 \<Rightarrow> 'h \<Rightarrow> u32 \<times> 'h"
  io_out8 :: "u32 \<Rightarrow> u32 \<Rightarrow> 'h \<Rightarrow> 'h"
  io_in32 :: "u32 \<Rightarrow> 'h \<Rightarrow> u32 \<times> 'h"
  io_out32 :: "u32 \<Rightarrow> u32 \<Rightarrow> 'h \<Rightarrow> 'h"
  mmio_read :: "addr \<Rightarrow> 'h \<Rightarrow> u32 \<times> 'h"
  mmio_write :: "addr \<Rightarrow> u32 \<Rightarrow> 'h \<Rightarrow> 'h"

text \<open>\<^verbatim>\<open>GET_FIELD\<close> of \<^verbatim>\<open>kernel/def.h\<close> with the shift and the mask of a field.\<close>

definition GET_FIELD :: "'a::len word \<Rightarrow> nat \<Rightarrow> 'a word \<Rightarrow> 'a word" where
  "GET_FIELD x shift msk = drop_bit shift x AND msk"

definition SET_FIELD :: "'a::len word \<Rightarrow> nat \<Rightarrow> 'a word \<Rightarrow> 'a word \<Rightarrow> 'a word" where
  "SET_FIELD x shift msk v = (x AND NOT (push_bit shift msk)) OR push_bit shift (v AND msk)"

end
