(* ===== verification/Pci.thy ===== *)
theory Pci
  imports Hardware
begin

text \<open>
  The PCI bus, \<^verbatim>\<open>device/pci/pci.c\<close>: access to the configuration space through two ports,
  the recursive scan that fills the table of devices, and the lookups in it; and
  \<^verbatim>\<open>device/pci/pci_msi.c\<close>: message-signalled interrupts. The text that the code logs is
  left out. The scan calls itself for the bus behind a bridge; its first argument bounds the nesting,
  and \<open>None\<close> is a nesting that is deeper.
\<close>

definition PCI_CONFIG_ADDRESS :: u32 where "PCI_CONFIG_ADDRESS = 0x0cf8"
definition PCI_CONFIG_DATA :: u32 where "PCI_CONFIG_DATA = 0x0cfc"

record pci_msi_struct =
  msi_capable :: bool
  cap_addr :: u8
  msg_cnt :: u32
  configured_count :: u32
  start_vector :: u32
  msg_ctrl :: u16
  data_value :: u32
  address_value :: u64

record pci_device =
  bus :: u8
  device :: u8
  func :: u8
  header_type :: u8
  class_code :: u32
  msi :: pci_msi_struct

text \<open>
  The device table and its counter; \<open>stack_device\<close> is what the uninitialised local variable of
  \<^verbatim>\<open>scan_func\<close> happens to hold.
\<close>

record 'h pci_state =
  hw :: 'h
  pci_devices :: "pci_device list"
  number_of_pci_device :: u8
  stack_device :: pci_device

subsection \<open>Configuration space\<close>

definition config_address :: "u8 \<Rightarrow> u8 \<Rightarrow> u8 \<Rightarrow> u8 \<Rightarrow> u32" where
  "config_address b d f off =
     0x80000000 OR push_bit 16 (ucast b) OR push_bit 11 (ucast d) OR push_bit 8 (ucast f) OR ucast (off AND 0xfc)"

definition pci_config_read :: "'h hardware \<Rightarrow> u8 \<Rightarrow> u8 \<Rightarrow> u8 \<Rightarrow> u8 \<Rightarrow> 'h \<Rightarrow> u32 \<times> 'h" where
  "pci_config_read H b d f off h =
     io_in32 H PCI_CONFIG_DATA (io_out32 H PCI_CONFIG_ADDRESS (config_address b d f off) h)"

definition pci_config_write :: "'h hardware \<Rightarrow> u8 \<Rightarrow> u8 \<Rightarrow> u8 \<Rightarrow> u8 \<Rightarrow> u32 \<Rightarrow> 'h \<Rightarrow> 'h" where
  "pci_config_write H b d f off v h =
     io_out32 H PCI_CONFIG_DATA v (io_out32 H PCI_CONFIG_ADDRESS (config_address b d f off) h)"

definition pci_dev_config_read :: "'h hardware \<Rightarrow> pci_device \<Rightarrow> u8 \<Rightarrow> 'h \<Rightarrow> u32 \<times> 'h" where
  "pci_dev_config_read H dev off = pci_config_read H (bus dev) (device dev) (func dev) off"

definition pci_dev_config_write :: "'h hardware \<Rightarrow> pci_device \<Rightarrow> u8 \<Rightarrow> u32 \<Rightarrow> 'h \<Rightarrow> 'h" where
  "pci_dev_config_write H dev off v = pci_config_write H (bus dev) (device dev) (func dev) off v"

definition pci_read_header_type :: "'h hardware \<Rightarrow> u8 \<Rightarrow> u8 \<Rightarrow> u8 \<Rightarrow> 'h \<Rightarrow> u8 \<times> 'h" where
  "pci_read_header_type H b d f h =
     map_prod (\<lambda>x. ucast (drop_bit 16 x AND 0xff)) id (pci_config_read H b d f 0x0c h)"

definition pci_dev_read_header_type :: "'h hardware \<Rightarrow> pci_device \<Rightarrow> 'h \<Rightarrow> u8 \<times> 'h" where
  "pci_dev_read_header_type H dev = pci_read_header_type H (bus dev) (device dev) (func dev)"

definition pci_read_vendor_id :: "'h hardware \<Rightarrow> u8 \<Rightarrow> u8 \<Rightarrow> u8 \<Rightarrow> 'h \<Rightarrow> u16 \<times> 'h" where
  "pci_read_vendor_id H b d f h = map_prod (\<lambda>x. ucast (x AND 0xffff)) id (pci_config_read H b d f 0x00 h)"

definition pci_dev_read_vendor_id :: "'h hardware \<Rightarrow> pci_device \<Rightarrow> 'h \<Rightarrow> u16 \<times> 'h" where
  "pci_dev_read_vendor_id H dev = pci_read_vendor_id H (bus dev) (device dev) (func dev)"

definition pci_read_class_code :: "'h hardware \<Rightarrow> u8 \<Rightarrow> u8 \<Rightarrow> u8 \<Rightarrow> 'h \<Rightarrow> u32 \<times> 'h" where
  "pci_read_class_code H b d f = pci_config_read H b d f 0x08"

definition pci_dev_read_class_code :: "'h hardware \<Rightarrow> pci_device \<Rightarrow> 'h \<Rightarrow> u32 \<times> 'h" where
  "pci_dev_read_class_code H dev = pci_read_class_code H (bus dev) (device dev) (func dev)"

definition pci_read_base_class_code :: "'h hardware \<Rightarrow> u8 \<Rightarrow> u8 \<Rightarrow> u8 \<Rightarrow> 'h \<Rightarrow> u8 \<times> 'h" where
  "pci_read_base_class_code H b d f h =
     map_prod (\<lambda>x. ucast (drop_bit 24 x AND 0xff)) id (pci_read_class_code H b d f h)"

definition pci_dev_read_base_class_code :: "'h hardware \<Rightarrow> pci_device \<Rightarrow> 'h \<Rightarrow> u8 \<times> 'h" where
  "pci_dev_read_base_class_code H dev = pci_read_base_class_code H (bus dev) (device dev) (func dev)"

definition pci_read_sub_class_code :: "'h hardware \<Rightarrow> u8 \<Rightarrow> u8 \<Rightarrow> u8 \<Rightarrow> 'h \<Rightarrow> u8 \<times> 'h" where
  "pci_read_sub_class_code H b d f h =
     map_prod (\<lambda>x. ucast (drop_bit 16 x AND 0xff)) id (pci_read_class_code H b d f h)"

definition pci_dev_read_sub_class_code :: "'h hardware \<Rightarrow> pci_device \<Rightarrow> 'h \<Rightarrow> u8 \<times> 'h" where
  "pci_dev_read_sub_class_code H dev = pci_read_sub_class_code H (bus dev) (device dev) (func dev)"

definition pci_read_secondary_bus_number :: "'h hardware \<Rightarrow> u8 \<Rightarrow> u8 \<Rightarrow> u8 \<Rightarrow> 'h \<Rightarrow> u8 \<times> 'h" where
  "pci_read_secondary_bus_number H b d f h =
     map_prod (\<lambda>x. ucast (drop_bit 8 x AND 0xff)) id (pci_config_read H b d f 0x18 h)"

definition pci_dev_read_secondary_bus_number :: "'h hardware \<Rightarrow> pci_device \<Rightarrow> 'h \<Rightarrow> u8 \<times> 'h" where
  "pci_dev_read_secondary_bus_number H dev = pci_read_secondary_bus_number H (bus dev) (device dev) (func dev)"

definition pci_dev_read_bar :: "'h hardware \<Rightarrow> pci_device \<Rightarrow> u8 \<Rightarrow> 'h \<Rightarrow> u64 \<times> 'h" where
  "pci_dev_read_bar H dev bar_index h =
     (if bar_index > 5 then (0, h)
      else let off = bar_index * 4 + 0x10;
               (r, h) = pci_dev_config_read H dev off h;
               bar = ucast r :: u64;
               msk = (if bar AND 1 \<noteq> 0 then 0xfffffffc else 0xfffffff0) :: u32
           in if bar AND 0x4 = 0 then (bar AND ucast msk, h)
              else if bar_index > 4 then (0, h)
              else let (hi, h) = pci_dev_config_read H dev (off + 4) h
                   in (push_bit 32 (ucast hi) OR (bar AND ucast msk), h))"

definition pci_dev_read_cap_point :: "'h hardware \<Rightarrow> pci_device \<Rightarrow> 'h \<Rightarrow> u8 \<times> 'h" where
  "pci_dev_read_cap_point H dev h = map_prod (\<lambda>x. ucast (x AND 0xff)) id (pci_dev_config_read H dev 0x34 h)"

subsection \<open>Message-signalled interrupts\<close>

text \<open>The walk along the list of capabilities, up to the first one with id 5.\<close>

partial_function (option) find_msi_cap :: "'h hardware \<Rightarrow> pci_device \<Rightarrow> u8 \<Rightarrow> 'h \<Rightarrow> (u8 \<times> 'h) option" where
  "find_msi_cap H dev a h =
     (if a = 0 then Some (0, h)
      else let (header, h) = pci_dev_config_read H dev a h
           in if header AND 0xff = 5 then Some (a, h)
              else find_msi_cap H dev (ucast (drop_bit 8 (header AND 0xff00))) h)"

definition pci_dev_read_msi_info :: "'h hardware \<Rightarrow> pci_device \<Rightarrow> 'h \<Rightarrow> (pci_device \<times> 'h) option" where
  "pci_dev_read_msi_info H dev h = do {
     let (c, h) = pci_dev_read_cap_point H dev h;
     (a, h) \<leftarrow> find_msi_cap H dev c h;
     if a = 0 then Some (dev\<lparr>msi := (msi dev)\<lparr>msi_capable := False\<rparr>\<rparr>, h)
     else do {
       let (r, h) = pci_dev_config_read H dev a h;
       let ctrl = (ucast (drop_bit 16 r AND 0xffff) :: u16);
       let q = (msi dev)\<lparr>msi_capable := True, cap_addr := a, msg_ctrl := ctrl,
           msg_cnt := push_bit (unat (drop_bit 1 (ctrl AND 0x0e))) 1, start_vector := 0\<rparr>;
       Some (dev\<lparr>msi := q\<rparr>, h) } }"

text \<open>The walk of \<^verbatim>\<open>configure_msi\<close>, which remembers the last MSI and MSI-X capabilities.\<close>

partial_function (option) find_msi_caps ::
  "'h hardware \<Rightarrow> pci_device \<Rightarrow> u8 \<Rightarrow> u8 \<Rightarrow> u8 \<Rightarrow> 'h \<Rightarrow> (u8 \<times> u8 \<times> 'h) option" where
  "find_msi_caps H dev a m x h =
     (if a = 0 then Some (m, x, h)
      else let (header, h) = pci_dev_config_read H dev a h;
               m = (if header AND 0xff = 5 then a else m);
               x = (if header AND 0xff \<noteq> 5 \<and> header AND 0xff = 0x11 then a else x)
           in find_msi_caps H dev (ucast (drop_bit 8 (header AND 0xff00))) m x h)"

text \<open>The value for the capability: as many vectors as wanted or possible, and the enable bit.\<close>

definition msi_cap_value :: "u32 \<Rightarrow> u8 \<Rightarrow> u32" where
  "msi_cap_value msi_cap num_vector_exponent =
     (let msi_cap = (if drop_bit 17 msi_cap AND 7 \<le> ucast num_vector_exponent
        then let msi_cap = msi_cap AND 0x00700000 in msi_cap OR push_bit 20 (drop_bit 17 msi_cap AND 7)
        else (msi_cap AND 0x00700000) OR push_bit 20 (ucast num_vector_exponent))
      in msi_cap OR push_bit 16 1)"

definition configure_msi ::
  "'h hardware \<Rightarrow> u64 \<Rightarrow> u8 \<Rightarrow> pci_device \<Rightarrow> u8 \<Rightarrow> u32 \<Rightarrow> u8 \<Rightarrow> u8 \<Rightarrow> 'h \<Rightarrow> 'h option" where
  "configure_msi H local_apic_address lapic_id0 dev trigger_mode delivery_mode vector num_vector_exponent h = do {
     let msg_addr = (ucast (local_apic_address OR push_bit 12 (ucast lapic_id0)) :: u32);
     let msg_data = push_bit 8 delivery_mode OR ucast vector;
     let msg_data = (if trigger_mode = 1 then msg_data OR 0xc00 else msg_data);
     let (c, h) = pci_dev_read_cap_point H dev h;
     (m, x, h) \<leftarrow> find_msi_caps H dev c 0 0 h;
     if m \<noteq> 0 then do {
       let (msi_cap, h) = pci_dev_config_read H dev m h;
       let msi_cap = msi_cap_value msi_cap num_vector_exponent;
       let h = pci_dev_config_write H dev m msi_cap h;
       let h = pci_dev_config_write H dev (m + 4) msg_addr h;
       let (msg_data_addr, h) = (if msi_cap AND push_bit 23 1 \<noteq> 0
         then (m + 12, pci_dev_config_write H dev (m + 8) 0 h) else (m + 8, h));
       let h = pci_dev_config_write H dev msg_data_addr msg_data h;
       let (msi_mask_bits, h) = pci_dev_config_read H dev (m + 0x10) h;
       let (msi_pending_bits, h) = pci_dev_config_read H dev (m + 0x14) h;
       Some (if msi_cap AND push_bit 24 1 \<noteq> 0
         then pci_dev_config_write H dev (msg_data_addr + 8) msi_pending_bits
           (pci_dev_config_write H dev (msg_data_addr + 4) msi_mask_bits h)
         else h) }
     else Some h }"

definition pci_dev_configure_msi ::
  "'h hardware \<Rightarrow> u8 \<Rightarrow> pci_device \<Rightarrow> u32 \<Rightarrow> u32 \<Rightarrow> 'h \<Rightarrow> status_t \<times> pci_device \<times> 'h" where
  "pci_dev_configure_msi H lapic_id0 dev irq cnt h =
     (if \<not> msi_capable (msi dev) then (K_HW_NOSUPPORT, dev, h)
      else if configured_count (msi dev) \<noteq> 0 then (K_ERROR, dev, h)
      else let q = (msi dev)\<lparr>address_value := 0xfee00000 OR push_bit 12 (ucast lapic_id0), data_value := irq\<rparr>;
               h = pci_dev_config_write H dev (cap_addr q + 0x04) (ucast (address_value q AND 0xffffffff)) h;
               h = (if msg_ctrl q AND 0x0080 \<noteq> 0
                    then pci_dev_config_write H dev (cap_addr q + 0x0c) (data_value q)
                      (pci_dev_config_write H dev (cap_addr q + 0x08) (ucast (drop_bit 32 (address_value q))) h)
                    else pci_dev_config_write H dev (cap_addr q + 0x08) (data_value q) h);
               q = q\<lparr>msg_ctrl := msg_ctrl q AND NOT 0x0070\<rparr>;
               q = q\<lparr>msg_ctrl := msg_ctrl q OR ucast (push_bit 4 (cnt - 1))\<rparr>;
               (val, h) = pci_dev_config_read H dev (cap_addr q) h;
               h = pci_dev_config_write H dev (cap_addr q) (val OR push_bit 16 (ucast (msg_ctrl q))) h
           in (K_SUCCESS, dev\<lparr>msi := q\<lparr>configured_count := cnt\<rparr>\<rparr>, h))"

definition pci_dev_enable_msi :: "'h hardware \<Rightarrow> pci_device \<Rightarrow> 'h \<Rightarrow> status_t \<times> pci_device \<times> 'h" where
  "pci_dev_enable_msi H dev h =
     (if configured_count (msi dev) = 0 then (K_HW_NOSUPPORT, dev, h)
      else let (pci_command, h) = pci_dev_config_read H dev 0x04 h;
               h = pci_dev_config_write H dev 0x04 (pci_command AND NOT (push_bit 10 1)) h;
               q = (msi dev)\<lparr>msg_ctrl := msg_ctrl (msi dev) OR 0x01\<rparr>;
               h = pci_dev_config_write H dev (cap_addr q) (push_bit 16 (ucast (msg_ctrl q))) h
           in (K_SUCCESS, dev\<lparr>msi := q\<rparr>, h))"

subsection \<open>The scan\<close>

definition add_device :: "pci_device \<Rightarrow> 'h pci_state \<Rightarrow> 'h pci_state" where
  "add_device dev s = s\<lparr>pci_devices := (pci_devices s)[unat (number_of_pci_device s) := dev],
     number_of_pci_device := number_of_pci_device s + 1\<rparr>"

text \<open>\<open>next_bus\<close> is the scan of the bus behind a bridge.\<close>

definition scan_func ::
  "'h hardware \<Rightarrow> (u8 \<Rightarrow> 'h pci_state \<Rightarrow> 'h pci_state option) \<Rightarrow> u8 \<Rightarrow> u8 \<Rightarrow> u8 \<Rightarrow> 'h pci_state \<Rightarrow> 'h pci_state option" where
  "scan_func H next_bus b d f s = do {
     let (base_class, h) = pci_read_base_class_code H b d f (hw s);
     let (sub_class, h) = pci_read_sub_class_code H b d f h;
     let (ht, h) = pci_read_header_type H b d f h;
     let (cc, h) = pci_read_class_code H b d f h;
     let dev = (stack_device s)\<lparr>bus := b, device := d, func := f, header_type := ht, class_code := cc\<rparr>;
     (dev, h) \<leftarrow> pci_dev_read_msi_info H dev h;
     let s = add_device dev (s\<lparr>hw := h\<rparr>);
     if base_class = 0x06 \<and> sub_class = 0x04
     then let (secondary_bus, h) = pci_read_secondary_bus_number H b d f (hw s)
          in next_bus secondary_bus (s\<lparr>hw := h\<rparr>)
     else Some s }"

definition scan_device ::
  "'h hardware \<Rightarrow> (u8 \<Rightarrow> 'h pci_state \<Rightarrow> 'h pci_state option) \<Rightarrow> u8 \<Rightarrow> u8 \<Rightarrow> 'h pci_state \<Rightarrow> 'h pci_state option" where
  "scan_device H next_bus b d s =
     (let (vendor_id, h) = pci_read_vendor_id H b d 0 (hw s) in
      if vendor_id = 0xffff then Some (s\<lparr>hw := h\<rparr>)
      else let (ht, h) = pci_read_header_type H b d 0 h; s = s\<lparr>hw := h\<rparr> in
      if ht AND 0x80 = 0 then scan_func H next_bus b d 0 s
      else fold_option (\<lambda>f s.
          let (vendor_id, h) = pci_read_vendor_id H b d f (hw s); s = s\<lparr>hw := h\<rparr> in
          if vendor_id \<noteq> 0xffff then scan_func H next_bus b d f s else Some s)
        [0, 1, 2, 3, 4, 5, 6, 7] s)"

fun scan_bus :: "nat \<Rightarrow> 'h hardware \<Rightarrow> u8 \<Rightarrow> 'h pci_state \<Rightarrow> 'h pci_state option" where
  "scan_bus 0 H b s = None"
| "scan_bus (Suc n) H b s =
     fold_option (\<lambda>d. scan_device H (scan_bus n H) b (word_of_nat d)) [0..<32] s"

definition pci_scan_all_bus :: "nat \<Rightarrow> 'h hardware \<Rightarrow> 'h pci_state \<Rightarrow> 'h pci_state option" where
  "pci_scan_all_bus n H s =
     (let s = s\<lparr>number_of_pci_device := 0\<rparr>;
          (ht, h) = pci_read_header_type H 0 0 0 (hw s); s = s\<lparr>hw := h\<rparr> in
      if ht AND 0x80 = 0 then scan_bus n H 0 s
      else fold_option (\<lambda>f s.
          let (vendor_id, h) = pci_read_vendor_id H 0 0 f (hw s); s = s\<lparr>hw := h\<rparr> in
          if vendor_id = 0xffff then Some s else scan_bus n H f s)
        [0, 1, 2, 3, 4, 5, 6, 7] s)"

subsection \<open>Lookups\<close>

definition has_class :: "u8 \<Rightarrow> u8 \<Rightarrow> u8 \<Rightarrow> pci_device \<Rightarrow> bool" where
  "has_class base sub prog dev \<longleftrightarrow>
     push_bit 16 (ucast base) OR push_bit 8 (ucast sub) OR ucast prog = drop_bit 8 (class_code dev) AND 0x00ffffff"

definition pci_dev_count :: "'h pci_state \<Rightarrow> u8 \<Rightarrow> u8 \<Rightarrow> u8 \<Rightarrow> u32" where
  "pci_dev_count s base sub prog =
     foldl (\<lambda>ret i. if has_class base sub prog (pci_devices s ! i) then ret + 1 else ret) 0
       [0..<unat (number_of_pci_device s)]"

text \<open>The result is the index into the table, or \<open>None\<close> for the null pointer.\<close>

fun match_from :: "pci_device list \<Rightarrow> u8 \<Rightarrow> u8 \<Rightarrow> u8 \<Rightarrow> u32 \<Rightarrow> u32 \<Rightarrow> nat list \<Rightarrow> nat option" where
  "match_from ds base sub prog idx index [] = None"
| "match_from ds base sub prog idx index (i # is) =
     (if has_class base sub prog (ds ! i)
      then if idx = index then Some i else match_from ds base sub prog (idx + 1) index is
      else match_from ds base sub prog idx index is)"

definition pci_dev_match :: "'h pci_state \<Rightarrow> u8 \<Rightarrow> u8 \<Rightarrow> u8 \<Rightarrow> u32 \<Rightarrow> nat option" where
  "pci_dev_match s base sub prog index =
     match_from (pci_devices s) base sub prog 0 index [0..<unat (number_of_pci_device s)]"

definition pci_dev_type_str :: "'h hardware \<Rightarrow> pci_device \<Rightarrow> 'h \<Rightarrow> string \<times> 'h" where
  "pci_dev_type_str H dev h =
     (let (r, h) = pci_dev_read_class_code H dev h; c = drop_bit 8 r AND 0xffffff in
      (if c = 0x010100 then ''ISA Compatibility mode-only controller''
       else if c = 0x010105 then ''PCI native mode-only controller''
       else if c = 0x01010a then ''ISA Compatibility mode controller''
       else if c = 0x01010f then ''PCI native mode controller''
       else if c = 0x010180 then ''ISA Compatibility mode-only controller''
       else if c = 0x010185 then ''PCI native mode-only controller''
       else if c = 0x01018a then ''ISA Compatibility mode controller''
       else if c = 0x01018f then ''PCI native mode controller''
       else if c = 0x010520 then ''Single DMA''
       else if c = 0x010530 then ''Chained DMA''
       else if c = 0x010600 then ''Vendor Specific Interface''
       else if c = 0x010601 then ''AHCI 1.0''
       else if c = 0x010602 then ''Serial Storage Bus''
       else if c = 0x010701 then ''Serial Storage Bus''
       else if c = 0x010801 then ''NVMHCI''
       else if c = 0x010802 then ''NVM Express''
       else if c = 0x030000 then ''VGA Controller''
       else if c = 0x030001 then ''8514-Compatible Controller''
       else if c = 0x080010 then ''I/O APIC Interrupt Controller''
       else if c = 0x080020 then ''I/O(x) APIC Interrupt Controller''
       else if c = 0x080200 then ''Generic 8254-Compatible''
       else if c = 0x080203 then ''HPET''
       else if c = 0x0c0320 then ''EHCI Controller''
       else if c = 0x0c0330 then ''xHCI Controller''
       else if c = 0x0c03fe then ''USB device''
       else ''Unknow'', h))"

subsection \<open>What the configuration space promises\<close>

text \<open>
  Configuration mechanism 1: after the address has been written to the one port, the other port reads
  the addressed word of the configuration space, and reading changes none of its words.
\<close>

definition config_space :: "'h hardware \<Rightarrow> ('h \<Rightarrow> u32 \<Rightarrow> u32) \<Rightarrow> bool" where
  "config_space H cfg \<longleftrightarrow> (\<forall>h a. let r = io_in32 H PCI_CONFIG_DATA (io_out32 H PCI_CONFIG_ADDRESS a h)
     in fst r = cfg h a \<and> cfg (snd r) = cfg h)"

lemma read_config:
  assumes "config_space H cfg"
  shows "fst (pci_config_read H b d f off h) = cfg h (config_address b d f off)"
    "cfg (snd (pci_config_read H b d f off h)) = cfg h"
  using assms by (simp_all add: config_space_def pci_config_read_def Let_def)

text \<open>Every register of every function has an address of its own.\<close>

lemma address_fields:
  assumes "d < 32" and "f < 8"
  shows "ucast (drop_bit 16 (config_address b d f off)) = b"
    "ucast (take_bit 5 (drop_bit 11 (config_address b d f off))) = d"
    "ucast (take_bit 3 (drop_bit 8 (config_address b d f off))) = f"
    "ucast (config_address b d f off) = off AND 0xfc"
proof -
  have d: "n < 5" if "bit d n" for n
  proof -
    have "take_bit 5 d = d" using assms(1) less_mask_eq [of d 5] by (simp add: take_bit_eq_mask)
    then show ?thesis using that by (metis bit_take_bit_iff)
  qed
  have f: "n < 3" if "bit f n" for n
  proof -
    have "take_bit 3 f = f" using assms(2) less_mask_eq [of f 3] by (simp add: take_bit_eq_mask)
    then show ?thesis using that by (metis bit_take_bit_iff)
  qed
  have "bit (push_bit 31 (1 :: u32)) n \<longleftrightarrow> n = 31" for n
    by (auto simp only: bit_simps possible_bit_word) simp_all
  then have w: "bit (0x80000000 :: u32) n \<longleftrightarrow> n = 31" for n by simp
  obtain e :: u32 where e: "e = 0x80000000" by blast
  note simps = config_address_def e [symmetric] w [folded e] bit_simps
  show "ucast (drop_bit 16 (config_address b d f off)) = b"
    by (rule bit_word_eqI) (auto simp: simps dest: d f)
  show "ucast (take_bit 5 (drop_bit 11 (config_address b d f off))) = d"
    by (rule bit_word_eqI) (auto simp: simps dest: d f)
  show "ucast (take_bit 3 (drop_bit 8 (config_address b d f off))) = f"
    by (rule bit_word_eqI) (auto simp: simps dest: d f)
  show "ucast (config_address b d f off) = off AND 0xfc"
    by (rule bit_word_eqI) (auto simp: simps dest: d f)
qed

text \<open>Different functions, or different registers of one, have different addresses.\<close>

lemma config_address_inject:
  assumes "d < 32" "f < 8" "d' < 32" "f' < 8"
  shows "config_address b d f off = config_address b' d' f' off' \<longleftrightarrow>
    b = b' \<and> d = d' \<and> f = f' \<and> off AND 0xfc = off' AND 0xfc"
proof
  assume "config_address b d f off = config_address b' d' f' off'"
  then show "b = b' \<and> d = d' \<and> f = f' \<and> off AND 0xfc = off' AND 0xfc"
    using address_fields [OF assms(1,2), of b off] address_fields [OF assms(3,4), of b' off'] by metis
qed (simp add: config_address_def)

subsection \<open>The scan finds every function\<close>

lemma config_reads:
  assumes c: "config_space H cfg"
  shows "cfg (snd (pci_read_vendor_id H b d f h)) = cfg h" "cfg (snd (pci_read_header_type H b d f h)) = cfg h"
    "cfg (snd (pci_read_class_code H b d f h)) = cfg h" "cfg (snd (pci_read_base_class_code H b d f h)) = cfg h"
    "cfg (snd (pci_read_sub_class_code H b d f h)) = cfg h"
    "cfg (snd (pci_read_secondary_bus_number H b d f h)) = cfg h"
    "cfg (snd (pci_dev_read_cap_point H dev h)) = cfg h" "cfg (snd (pci_dev_config_read H dev off h)) = cfg h"
    "fst (pci_dev_config_read H dev off h) = cfg h (config_address (bus dev) (device dev) (func dev) off)"
  by (simp_all add: pci_read_vendor_id_def pci_read_header_type_def pci_read_class_code_def
      pci_read_base_class_code_def pci_read_sub_class_code_def pci_read_secondary_bus_number_def
      pci_dev_read_cap_point_def pci_dev_config_read_def read_config [OF c])

text \<open>The values of the fields in a configuration space \<open>c\<close>.\<close>

definition vendor :: "(u32 \<Rightarrow> u32) \<Rightarrow> u8 \<Rightarrow> u8 \<Rightarrow> u8 \<Rightarrow> u16" where
  "vendor c b d f = ucast (c (config_address b d f 0x00) AND 0xffff)"

definition multi_function :: "(u32 \<Rightarrow> u32) \<Rightarrow> u8 \<Rightarrow> u8 \<Rightarrow> bool" where
  "multi_function c b d \<longleftrightarrow> (ucast (drop_bit 16 (c (config_address b d 0 0x0c)) AND 0xff) :: u8) AND 0x80 \<noteq> 0"

definition bridge :: "(u32 \<Rightarrow> u32) \<Rightarrow> u8 \<Rightarrow> u8 \<Rightarrow> u8 \<Rightarrow> bool" where
  "bridge c b d f \<longleftrightarrow> (ucast (drop_bit 24 (c (config_address b d f 0x08)) AND 0xff) :: u8) = 0x06 \<and>
     (ucast (drop_bit 16 (c (config_address b d f 0x08)) AND 0xff) :: u8) = 0x04"

definition secondary :: "(u32 \<Rightarrow> u32) \<Rightarrow> u8 \<Rightarrow> u8 \<Rightarrow> u8 \<Rightarrow> u8" where
  "secondary c b d f = ucast (drop_bit 8 (c (config_address b d f 0x18)) AND 0xff)"

text \<open>The capability list of a function from \<open>a\<close> on ends, or reaches an MSI capability, in \<open>n\<close> steps.\<close>

fun caps_end :: "nat \<Rightarrow> (u32 \<Rightarrow> u32) \<Rightarrow> u8 \<Rightarrow> u8 \<Rightarrow> u8 \<Rightarrow> u8 \<Rightarrow> bool" where
  "caps_end 0 c b d f a = (a = 0)"
| "caps_end (Suc n) c b d f a = (a = 0 \<or> (let header = c (config_address b d f a) in
     header AND 0xff = 5 \<or> caps_end n c b d f (ucast (drop_bit 8 (header AND 0xff00)))))"

text \<open>The functions of a bus and of the buses behind its bridges, in the order of a depth-first walk.\<close>

definition funcs_of :: "(u32 \<Rightarrow> u32) \<Rightarrow> u8 \<Rightarrow> u8 \<Rightarrow> u8 list" where
  "funcs_of c b d = (if vendor c b d 0 = 0xffff then [] else if \<not> multi_function c b d then [0]
     else List.filter (\<lambda>f. vendor c b d f \<noteq> 0xffff) [0, 1, 2, 3, 4, 5, 6, 7])"

fun walk_bus :: "nat \<Rightarrow> (u32 \<Rightarrow> u32) \<Rightarrow> u8 \<Rightarrow> (u8 \<times> u8 \<times> u8) list" where
  "walk_bus 0 c b = []"
| "walk_bus (Suc n) c b =
     concat (List.map (\<lambda>d. concat (List.map (\<lambda>f.
       (b, word_of_nat d, f) # (if bridge c b (word_of_nat d) f then walk_bus n c (secondary c b (word_of_nat d) f) else []))
       (funcs_of c b (word_of_nat d)))) [0..<32])"

definition place :: "pci_device \<Rightarrow> u8 \<times> u8 \<times> u8" where
  "place dev = (bus dev, device dev, func dev)"

definition recorded :: "'h pci_state \<Rightarrow> (u8 \<times> u8 \<times> u8) list" where
  "recorded s = List.map place (take (unat (number_of_pci_device s)) (pci_devices s))"

text \<open>From \<open>s\<close> to \<open>s'\<close> the functions \<open>xs\<close> have been added to the table.\<close>

definition adds :: "('h \<Rightarrow> u32 \<Rightarrow> u32) \<Rightarrow> (u8 \<times> u8 \<times> u8) list \<Rightarrow> 'h pci_state \<Rightarrow> 'h pci_state \<Rightarrow> bool" where
  "adds cfg xs s s' \<longleftrightarrow> cfg (hw s') = cfg (hw s) \<and> length (pci_devices s') = length (pci_devices s) \<and>
     (unat (number_of_pci_device s) + length xs < 256 \<and> length (pci_devices s) = 256 \<longrightarrow>
       unat (number_of_pci_device s') = unat (number_of_pci_device s) + length xs \<and> recorded s' = recorded s @ xs)"

lemma adds_trans: "adds cfg xs s s1 \<Longrightarrow> adds cfg ys s1 s2 \<Longrightarrow> adds cfg (xs @ ys) s s2"
  by (auto simp: adds_def)

lemma adds_hw: "adds cfg [] s (s\<lparr>hw := h\<rparr>) \<longleftrightarrow> cfg h = cfg (hw s)"
  by (auto simp: adds_def recorded_def)

lemma adds_fold:
  assumes "\<And>x s. x \<in> set xs \<Longrightarrow> cfg (hw s) = c \<Longrightarrow> \<exists>s'. f x s = Some s' \<and> adds cfg (g x) s s'"
    and "cfg (hw s) = c"
  shows "\<exists>s'. fold_option f xs s = Some s' \<and> adds cfg (concat (List.map g xs)) s s'"
  using assms
proof (induction xs arbitrary: s)
  case Nil
  then show ?case by (simp add: adds_def)
next
  case (Cons x xs)
  obtain s1 where s1: "f x s = Some s1" "adds cfg (g x) s s1" using Cons.prems(1) [of x s] Cons.prems(2) by auto
  have "cfg (hw s1) = c" using s1(2) Cons.prems(2) by (simp add: adds_def)
  then obtain s2 where "fold_option f xs s1 = Some s2" "adds cfg (concat (List.map g xs)) s1 s2"
    using Cons.IH [of s1] Cons.prems(1) by auto
  then show ?case using s1 adds_trans by fastforce
qed

lemma find_msi_cap_ends:
  assumes "config_space H cfg" and "caps_end n (cfg h) (bus dev) (device dev) (func dev) a"
  shows "\<exists>a' h'. find_msi_cap H dev a h = Some (a', h') \<and> cfg h' = cfg h"
  using assms(2)
proof (induction n arbitrary: a h)
  case 0
  then show ?case by (simp add: find_msi_cap.simps)
next
  case (Suc n)
  note C = config_reads [OF assms(1)]
  define h1 where "h1 = snd (pci_dev_config_read H dev a h)"
  have h1: "cfg h1 = cfg h" by (simp add: h1_def C)
  obtain w where w: "w = cfg h (config_address (bus dev) (device dev) (func dev) a)" by blast
  have r: "pci_dev_config_read H dev a h = (w, h1)" by (simp add: prod_eq_iff w h1_def C)
  show ?case
  proof (cases "a = 0 \<or> w AND 0xff = 5")
    case True
    then show ?thesis using h1 by (subst find_msi_cap.simps) (auto simp: r)
  next
    case False
    then have "caps_end n (cfg h1) (bus dev) (device dev) (func dev) (ucast (drop_bit 8 (w AND 0xff00)))"
      using Suc.prems h1 by (simp only: caps_end.simps Let_def flip: w) simp
    then obtain a' h' where
        "find_msi_cap H dev (ucast (drop_bit 8 (w AND 0xff00))) h1 = Some (a', h')" "cfg h' = cfg h1"
      using Suc.IH [of h1] by blast
    then show ?thesis using False h1 by (subst find_msi_cap.simps) (simp add: r)
  qed
qed

lemma read_msi_info_ends:
  assumes c: "config_space H cfg"
    and e: "caps_end n (cfg h) (bus dev) (device dev) (func dev)
      (ucast (cfg h (config_address (bus dev) (device dev) (func dev) 0x34) AND 0xff))"
  shows "\<exists>dev' h'. pci_dev_read_msi_info H dev h = Some (dev', h') \<and> cfg h' = cfg h \<and> place dev' = place dev"
proof -
  note C = config_reads [OF c]
  define h1 where "h1 = snd (pci_dev_read_cap_point H dev h)"
  define a0 where "a0 = fst (pci_dev_read_cap_point H dev h)"
  have h1: "cfg h1 = cfg h" by (simp add: h1_def C)
  have "a0 = ucast (cfg h (config_address (bus dev) (device dev) (func dev) 0x34) AND 0xff)"
    by (simp add: a0_def pci_dev_read_cap_point_def C)
  then obtain a h2 where a: "find_msi_cap H dev a0 h1 = Some (a, h2)" "cfg h2 = cfg h"
    using find_msi_cap_ends [OF c, of n h1 dev a0] e h1 by auto
  have r: "pci_dev_read_cap_point H dev h = (a0, h1)" by (simp add: a0_def h1_def)
  show ?thesis by (auto simp: pci_dev_read_msi_info_def case_prod_unfold Let_def r a C place_def)
qed

text \<open>
  Where the configuration space is sane: buses behind bridges have higher numbers than the bus of the
  bridge, as the firmware numbers them, and capability lists end.
\<close>

definition ascending :: "(u32 \<Rightarrow> u32) \<Rightarrow> bool" where
  "ascending c \<longleftrightarrow> (\<forall>b d f. d < 32 \<longrightarrow> f < 8 \<longrightarrow> vendor c b d f \<noteq> 0xffff \<longrightarrow>
     (bridge c b d f \<longrightarrow> b < secondary c b d f) \<and>
     caps_end 64 c b d f (ucast (c (config_address b d f 0x34) AND 0xff)))"

lemma scan_func_adds:
  assumes c: "config_space H cfg" and asc: "ascending (cfg (hw s))"
    and df: "d < 32" "f < 8" "vendor (cfg (hw s)) b d f \<noteq> 0xffff"
    and rec: "\<And>b' s1. b < b' \<Longrightarrow> cfg (hw s1) = cfg (hw s) \<Longrightarrow>
      \<exists>s'. next_bus b' s1 = Some s' \<and> adds cfg (g b') s1 s'"
  shows "\<exists>s'. scan_func H next_bus b d f s = Some s' \<and>
    adds cfg ((b, d, f) # (if bridge (cfg (hw s)) b d f then g (secondary (cfg (hw s)) b d f) else [])) s s'"
proof -
  define c0 where "c0 = cfg (hw s)"
  note C = config_reads [OF c]
  define h1 where "h1 = snd (pci_read_base_class_code H b d f (hw s))"
  define h2 where "h2 = snd (pci_read_sub_class_code H b d f h1)"
  define h3 where "h3 = snd (pci_read_header_type H b d f h2)"
  define h4 where "h4 = snd (pci_read_class_code H b d f h3)"
  have h: "cfg h1 = c0" "cfg h2 = c0" "cfg h3 = c0" "cfg h4 = c0" by (simp_all add: h1_def h2_def h3_def h4_def c0_def C)
  define base where "base = fst (pci_read_base_class_code H b d f (hw s))"
  define sub where "sub = fst (pci_read_sub_class_code H b d f h1)"
  have br: "base = 0x06 \<and> sub = 0x04 \<longleftrightarrow> bridge c0 b d f"
    by (simp add: base_def sub_def bridge_def pci_read_base_class_code_def pci_read_sub_class_code_def
        pci_read_class_code_def read_config [OF c] h flip: c0_def)
  define dev where "dev = (stack_device s)\<lparr>bus := b, device := d, func := f,
    header_type := fst (pci_read_header_type H b d f h2), class_code := fst (pci_read_class_code H b d f h3)\<rparr>"
  have dev: "bus dev = b" "device dev = d" "func dev = f" by (simp_all add: dev_def)
  obtain dev' h5 where m: "pci_dev_read_msi_info H dev h4 = Some (dev', h5)" "cfg h5 = c0" "place dev' = (b, d, f)"
    using read_msi_info_ends [OF c, of 64 h4 dev] asc df
    by (auto simp: ascending_def dev h place_def simp flip: c0_def)
  define s1 where "s1 = add_device dev' (s\<lparr>hw := h5\<rparr>)"
  have s1: "adds cfg [(b, d, f)] s s1"
    using m(2,3)
    by (auto simp: adds_def s1_def add_device_def c0_def recorded_def unat_word_ariths take_Suc_conv_app_nth
        simp flip: c0_def)
  define h6 where "h6 = snd (pci_read_secondary_bus_number H b d f (hw s1))"
  have h6: "cfg (hw s1) = c0" "cfg h6 = c0" using m(2) by (simp_all add: s1_def add_device_def h6_def C)
  have sec: "fst (pci_read_secondary_bus_number H b d f (hw s1)) = secondary c0 b d f"
    by (simp add: pci_read_secondary_bus_number_def secondary_def read_config [OF c] h6)
  have run: "scan_func H next_bus b d f s =
    (if bridge c0 b d f then next_bus (secondary c0 b d f) (s1\<lparr>hw := h6\<rparr>) else Some s1)"
    using m(1) br sec
    by (simp add: scan_func_def case_prod_unfold Let_def base_def sub_def s1_def h6_def dev_def h1_def h2_def h3_def h4_def)
  show ?thesis
  proof (cases "bridge c0 b d f")
    case True
    then have "b < secondary c0 b d f" using asc df by (auto simp: ascending_def c0_def)
    then obtain s' where s': "next_bus (secondary c0 b d f) (s1\<lparr>hw := h6\<rparr>) = Some s'"
        "adds cfg (g (secondary c0 b d f)) (s1\<lparr>hw := h6\<rparr>) s'"
      using rec [of "secondary c0 b d f" "s1\<lparr>hw := h6\<rparr>"] h6 by (auto simp: c0_def)
    have "adds cfg [] s1 (s1\<lparr>hw := h6\<rparr>)" by (simp add: adds_hw h6)
    then show ?thesis
      using adds_trans [OF s1 adds_trans [OF _ s'(2), of "[]" s1]] run True s'(1) by (simp flip: c0_def)
  next
    case False
    then show ?thesis using run s1 by (simp flip: c0_def)
  qed
qed

text \<open>The walk over the functions of a device that exist, as both loops of the scan have it.\<close>

lemma present_fold:
  assumes c: "config_space H cfg" and s: "cfg (hw s) = c0"
    and run: "\<And>f s. \<lbrakk>f < 8; vendor c0 b d f \<noteq> 0xffff; cfg (hw s) = c0\<rbrakk> \<Longrightarrow> \<exists>s'. run f s = Some s' \<and> adds cfg (g f) s s'"
  shows "\<exists>s'. fold_option (\<lambda>f s. let (vendor_id, h) = pci_read_vendor_id H b d f (hw s); s = s\<lparr>hw := h\<rparr> in
      if vendor_id \<noteq> 0xffff then run f s else Some s) [0, 1, 2, 3, 4, 5, 6, 7] s = Some s' \<and>
    adds cfg (concat (List.map g (List.filter (\<lambda>f. vendor c0 b d f \<noteq> 0xffff) [0, 1, 2, 3, 4, 5, 6, 7]))) s s'"
proof -
  obtain fs :: "u8 list" where fs: "fs = [0, 1, 2, 3, 4, 5, 6, 7]" by blast
  let ?f = "\<lambda>f s. let (vendor_id, h) = pci_read_vendor_id H b d f (hw s); s = s\<lparr>hw := h\<rparr> in
      if vendor_id \<noteq> 0xffff then run f s else Some s"
  let ?g = "\<lambda>f. if vendor c0 b d f \<noteq> 0xffff then g f else []"
  have "\<exists>s'. ?f f s1 = Some s' \<and> adds cfg (?g f) s1 s'" if f: "f \<in> set fs" and s1: "cfg (hw s1) = c0" for f s1
  proof -
    define h3 where "h3 = snd (pci_read_vendor_id H b d f (hw s1))"
    have h3: "cfg h3 = c0" using s1 by (simp add: h3_def config_reads [OF c])
    have st: "adds cfg [] s1 (s1\<lparr>hw := h3\<rparr>)" using s1 h3 by (simp add: adds_hw)
    have "fst (pci_read_vendor_id H b d f (hw s1)) = vendor c0 b d f"
      using s1 by (simp add: pci_read_vendor_id_def vendor_def read_config [OF c])
    then have r: "?f f s1 = (if vendor c0 b d f \<noteq> 0xffff then run f (s1\<lparr>hw := h3\<rparr>) else Some (s1\<lparr>hw := h3\<rparr>))"
      by (simp add: case_prod_unfold Let_def h3_def)
    have "f < 8" using f fs by auto
    then show ?thesis
      using run [of f "s1\<lparr>hw := h3\<rparr>"] h3 adds_trans [OF st, of "g f"] r st by (cases "vendor c0 b d f \<noteq> 0xffff") auto
  qed
  then have "\<exists>s'. fold_option ?f fs s = Some s' \<and> adds cfg (concat (List.map ?g fs)) s s'"
    using s by (intro adds_fold [where c = c0]) auto
  moreover have "concat (List.map ?g xs) = concat (List.map g (List.filter (\<lambda>f. vendor c0 b d f \<noteq> 0xffff) xs))" for xs
    by (induction xs) auto
  ultimately show ?thesis by (simp only: fs)
qed

lemma scan_device_adds:
  assumes c: "config_space H cfg" and asc: "ascending (cfg (hw s))" and d: "d < 32"
    and rec: "\<And>b' s1. b < b' \<Longrightarrow> cfg (hw s1) = cfg (hw s) \<Longrightarrow>
      \<exists>s'. next_bus b' s1 = Some s' \<and> adds cfg (g b') s1 s'"
  defines "c0 \<equiv> cfg (hw s)"
  shows "\<exists>s'. scan_device H next_bus b d s = Some s' \<and> adds cfg (concat (List.map (\<lambda>f.
    (b, d, f) # (if bridge c0 b d f then g (secondary c0 b d f) else [])) (funcs_of c0 b d))) s s'"
proof -
  note C = config_reads [OF c]
  define h1 where "h1 = snd (pci_read_vendor_id H b d 0 (hw s))"
  define h2 where "h2 = snd (pci_read_header_type H b d 0 h1)"
  have h: "cfg h1 = c0" "cfg h2 = c0" by (simp_all add: h1_def h2_def c0_def C)
  have ven: "fst (pci_read_vendor_id H b d f h) = vendor (cfg h) b d f" for f h
    by (simp add: pci_read_vendor_id_def vendor_def read_config [OF c])
  have ht: "fst (pci_read_header_type H b d 0 h1) AND 0x80 = 0 \<longleftrightarrow> \<not> multi_function c0 b d"
    by (simp add: pci_read_header_type_def multi_function_def read_config [OF c] h)
  let ?g = "\<lambda>f. (b, d, f) # (if bridge c0 b d f then g (secondary c0 b d f) else [])"
  have one: "\<exists>s'. scan_func H next_bus b d f s1 = Some s' \<and> adds cfg (?g f) s1 s'"
    if "f < 8" "vendor c0 b d f \<noteq> 0xffff" "cfg (hw s1) = c0" for f s1
    using scan_func_adds [OF c, of s1 d f b next_bus g] asc d rec that
    by (cases "bridge c0 b d f") (auto simp: c0_def)
  have start: "adds cfg [] s (s\<lparr>hw := h2\<rparr>)" "adds cfg [] s (s\<lparr>hw := h1\<rparr>)"
    using h by (simp_all add: adds_hw c0_def)
  have run: "scan_device H next_bus b d s = (if vendor c0 b d 0 = 0xffff then Some (s\<lparr>hw := h1\<rparr>)
    else if \<not> multi_function c0 b d then scan_func H next_bus b d 0 (s\<lparr>hw := h2\<rparr>)
    else fold_option (\<lambda>f s. let (vendor_id, h) = pci_read_vendor_id H b d f (hw s); s = s\<lparr>hw := h\<rparr> in
          if vendor_id \<noteq> 0xffff then scan_func H next_bus b d f s else Some s)
        [0, 1, 2, 3, 4, 5, 6, 7] (s\<lparr>hw := h2\<rparr>))"
    using ht by (simp add: scan_device_def case_prod_unfold Let_def ven h1_def h2_def c0_def)
  consider "vendor c0 b d 0 = 0xffff" | "vendor c0 b d 0 \<noteq> 0xffff" "\<not> multi_function c0 b d"
    | "vendor c0 b d 0 \<noteq> 0xffff" "multi_function c0 b d" by blast
  then show ?thesis
  proof cases
    case 1
    then show ?thesis using run start by (simp add: funcs_of_def)
  next
    case 2
    then obtain s' where "scan_func H next_bus b d 0 (s\<lparr>hw := h2\<rparr>) = Some s'" "adds cfg (?g 0) (s\<lparr>hw := h2\<rparr>) s'"
      using one [of 0 "s\<lparr>hw := h2\<rparr>"] h by auto
    then show ?thesis using 2 run adds_trans [OF start(1), of "?g 0" s'] by (simp add: funcs_of_def)
  next
    case 3
    obtain s' where s': "fold_option (\<lambda>f s. let (vendor_id, h) = pci_read_vendor_id H b d f (hw s); s = s\<lparr>hw := h\<rparr> in
          if vendor_id \<noteq> 0xffff then scan_func H next_bus b d f s else Some s)
        [0, 1, 2, 3, 4, 5, 6, 7] (s\<lparr>hw := h2\<rparr>) = Some s'"
        "adds cfg (concat (List.map ?g (List.filter (\<lambda>f. vendor c0 b d f \<noteq> 0xffff) [0, 1, 2, 3, 4, 5, 6, 7])))
          (s\<lparr>hw := h2\<rparr>) s'"
      using present_fold [OF c, of "s\<lparr>hw := h2\<rparr>" c0 b d "scan_func H next_bus b d" ?g] one h by auto
    have fo: "funcs_of c0 b d = List.filter (\<lambda>f. vendor c0 b d f \<noteq> 0xffff) [0, 1, 2, 3, 4, 5, 6, 7]"
      using 3 by (simp add: funcs_of_def)
    have "scan_device H next_bus b d s = Some s'"
      using 3 s'(1) by (simp only: run if_False not_True_eq_False)
    moreover have "adds cfg (concat (List.map ?g (funcs_of c0 b d))) s s'"
      using adds_trans [OF start(1) s'(2)] by (simp only: fo append_Nil)
    ultimately show ?thesis by blast
  qed
qed

lemma scan_bus_adds:
  assumes c: "config_space H cfg"
  shows "ascending (cfg (hw s)) \<Longrightarrow> 256 - unat b \<le> n \<Longrightarrow>
    \<exists>s'. scan_bus n H b s = Some s' \<and> adds cfg (walk_bus n (cfg (hw s)) b) s s'"
proof (induction n arbitrary: b s)
  case 0
  then show ?case using unat_less_256 [of b] by simp
next
  case (Suc n)
  define c0 where "c0 = cfg (hw s)"
  let ?g = "\<lambda>d. concat (List.map (\<lambda>f. (b, word_of_nat d, f) #
    (if bridge c0 b (word_of_nat d) f then walk_bus n c0 (secondary c0 b (word_of_nat d) f) else []))
    (funcs_of c0 b (word_of_nat d)))"
  have "\<exists>s'. scan_device H (scan_bus n H) b (word_of_nat d) s1 = Some s' \<and> adds cfg (?g d) s1 s'"
    if d: "d < 32" and s1: "cfg (hw s1) = c0" for d s1
  proof -
    have rec: "\<exists>s'. scan_bus n H b' s2 = Some s' \<and> adds cfg (walk_bus n c0 b') s2 s'"
      if "b < b'" "cfg (hw s2) = c0" for b' s2
    proof -
      have "256 - unat b' \<le> n" using that(1) Suc.prems(2) by (simp add: word_less_nat_alt)
      then show ?thesis using Suc.IH [of s2 b'] Suc.prems(1) that(2) by (simp add: c0_def)
    qed
    have w: "(word_of_nat d :: u8) < 32" using d by (simp add: word_less_nat_alt unat_of_nat)
    have asc: "ascending c0" using Suc.prems(1) by (simp add: c0_def)
    show ?thesis
      by (rule scan_device_adds [OF c, of s1 "word_of_nat d" b "scan_bus n H" "walk_bus n c0", unfolded s1, OF asc w])
         (rule rec)
  qed
  then show ?case
    using adds_fold [where f = "\<lambda>d. scan_device H (scan_bus n H) b (word_of_nat d)" and g = ?g and c = c0
        and xs = "[0..<32]" and s = s and cfg = cfg]
    by (simp flip: c0_def)
qed

text \<open>All functions on the buses that \<^verbatim>\<open>pci_scan_all_bus\<close> starts from.\<close>

definition walk_all :: "(u32 \<Rightarrow> u32) \<Rightarrow> (u8 \<times> u8 \<times> u8) list" where
  "walk_all c = (if \<not> multi_function c 0 0 then walk_bus 256 c 0
     else concat (List.map (walk_bus 256 c) (List.filter (\<lambda>f. vendor c 0 0 f \<noteq> 0xffff) [0, 1, 2, 3, 4, 5, 6, 7])))"

text \<open>C26: \<^verbatim>\<open>pci_scan_all_bus\<close> returns and has put exactly the functions of the machine into the
  table, in the order of a depth-first walk, provided they fit.\<close>

theorem pci_scan_finds_all:
  assumes c: "config_space H cfg" and asc: "ascending (cfg (hw s))"
    and room: "length (walk_all (cfg (hw s))) < 256" "length (pci_devices s) = 256"
  shows "\<exists>s'. pci_scan_all_bus 256 H s = Some s' \<and> recorded s' = walk_all (cfg (hw s)) \<and>
    unat (number_of_pci_device s') = length (walk_all (cfg (hw s)))"
proof -
  note C = config_reads [OF c]
  define c0 where "c0 = cfg (hw s)"
  define h1 where "h1 = snd (pci_read_header_type H 0 0 0 (hw s))"
  define s1 where "s1 = s\<lparr>number_of_pci_device := 0, hw := h1\<rparr>"
  have s1: "cfg (hw s1) = c0" "number_of_pci_device s1 = 0" "length (pci_devices s1) = 256" "recorded s1 = []"
    using room(2) by (simp_all add: s1_def h1_def c0_def C recorded_def)
  have ven: "fst (pci_read_vendor_id H b d f h) = vendor (cfg h) b d f" for b d f h
    by (simp add: pci_read_vendor_id_def vendor_def read_config [OF c])
  have ht: "fst (pci_read_header_type H 0 0 0 (hw s)) AND 0x80 = 0 \<longleftrightarrow> \<not> multi_function c0 0 0"
    by (simp add: pci_read_header_type_def multi_function_def read_config [OF c] c0_def)
  let ?f = "\<lambda>f s. let (vendor_id, h) = pci_read_vendor_id H 0 0 f (hw s); s = s\<lparr>hw := h\<rparr> in
          if vendor_id = 0xffff then Some s else scan_bus 256 H f s"
  have run: "pci_scan_all_bus 256 H s = (if \<not> multi_function c0 0 0 then scan_bus 256 H 0 s1
      else fold_option ?f [0, 1, 2, 3, 4, 5, 6, 7] s1)"
    using ht by (simp add: pci_scan_all_bus_def case_prod_unfold Let_def h1_def s1_def)
  have bus: "\<exists>s'. scan_bus 256 H b s2 = Some s' \<and> adds cfg (walk_bus 256 c0 b) s2 s'" if "cfg (hw s2) = c0" for b s2
    using scan_bus_adds [OF c, of s2 b 256] asc that by (simp add: c0_def)
  have "\<exists>s'. pci_scan_all_bus 256 H s = Some s' \<and> adds cfg (walk_all c0) s1 s'"
  proof (cases "multi_function c0 0 0")
    case False
    then show ?thesis using run bus [OF s1(1)] by (simp add: walk_all_def)
  next
    case True
    have "?f = (\<lambda>f s. let (vendor_id, h) = pci_read_vendor_id H 0 0 f (hw s); s = s\<lparr>hw := h\<rparr> in
          if vendor_id \<noteq> 0xffff then scan_bus 256 H f s else Some s)"
      by (auto simp: fun_eq_iff Let_def split: prod.split)
    then show ?thesis
      using run True present_fold [OF c s1(1), of 0 0 "\<lambda>f. scan_bus 256 H f" "walk_bus 256 c0"] bus
      by (simp only: walk_all_def if_False not_not HOL.simp_thms)
  qed
  then show ?thesis using room(1) s1 by (auto simp: adds_def simp flip: c0_def)
qed

text \<open>A machine with a host bridge, a bridge to bus 1 and a USB controller behind it. Its hardware is
  the last address written to the port.\<close>

definition example_reg :: "u8 \<Rightarrow> u8 \<Rightarrow> u8 \<Rightarrow> u8 \<Rightarrow> u32" where
  "example_reg b d f off =
     (if b = 0 \<and> d = 0 \<and> f = 0 then (if off = 0 then 0x12378086 else if off = 8 then 0x06000000 else 0)
      else if b = 0 \<and> d = 1 \<and> f = 0
        then (if off = 0 then 0x244e8086 else if off = 8 then 0x06040000 else if off = 0x18 then 0x010100 else 0)
      else if b = 1 \<and> d = 0 \<and> f = 0 then (if off = 0 then 0x1e318086 else if off = 8 then 0x0c033000 else 0)
      else 0xffffffff)"

definition example_cfg :: "u32 \<Rightarrow> u32" where
  "example_cfg a = example_reg (ucast (drop_bit 16 a)) (ucast (take_bit 5 (drop_bit 11 a)))
     (ucast (take_bit 3 (drop_bit 8 a))) (ucast a)"

definition example_ports :: "u32 hardware" where
  "example_ports = \<lparr>io_in8 = \<lambda>_ h. (0, h), io_out8 = \<lambda>_ _ h. h,
     io_in32 = \<lambda>_ h. (example_cfg h, h), io_out32 = \<lambda>p v h. if p = PCI_CONFIG_ADDRESS then v else h,
     mmio_read = \<lambda>_ h. (0, h), mmio_write = \<lambda>_ _ h. h\<rparr>"

definition example_device :: pci_device where
  "example_device = \<lparr>bus = 0, device = 0, func = 0, header_type = 0, class_code = 0,
     msi = \<lparr>msi_capable = False, cap_addr = 0, msg_cnt = 0, configured_count = 0, start_vector = 0,
       msg_ctrl = 0, data_value = 0, address_value = 0\<rparr>\<rparr>"

definition example_pci :: "u32 pci_state" where
  "example_pci = \<lparr>hw = 0, pci_devices = replicate 256 example_device, number_of_pci_device = 7,
     stack_device = example_device\<rparr>"

lemma example_cfg_reg:
  "d < 32 \<Longrightarrow> f < 8 \<Longrightarrow> example_cfg (config_address b d f off) = example_reg b d f (off AND 0xfc)"
  by (simp add: example_cfg_def address_fields)

lemma example_config_space: "config_space example_ports (\<lambda>_. example_cfg)"
  by (simp add: config_space_def example_ports_def Let_def)

lemma example_fields:
  assumes "d < 32" and "f < 8"
  shows "vendor example_cfg b d f \<noteq> 0xffff \<longleftrightarrow> f = 0 \<and> (b = 0 \<and> d = 0 \<or> b = 0 \<and> d = 1 \<or> b = 1 \<and> d = 0)"
    "bridge example_cfg b d f \<longleftrightarrow> b = 0 \<and> d = 1 \<and> f = 0"
    "vendor example_cfg b d f \<noteq> 0xffff \<Longrightarrow> \<not> multi_function example_cfg b d"
    "vendor example_cfg b d f \<noteq> 0xffff \<Longrightarrow> example_cfg (config_address b d f 0x34) = 0"
proof -
  show v: "vendor example_cfg b d f \<noteq> 0xffff \<longleftrightarrow> f = 0 \<and> (b = 0 \<and> d = 0 \<or> b = 0 \<and> d = 1 \<or> b = 1 \<and> d = 0)"
    using assms by (simp add: vendor_def example_cfg_reg example_reg_def) blast
  show "bridge example_cfg b d f \<longleftrightarrow> b = 0 \<and> d = 1 \<and> f = 0"
    using assms by (simp add: bridge_def example_cfg_reg example_reg_def)
  show "\<not> multi_function example_cfg b d" if "vendor example_cfg b d f \<noteq> 0xffff"
    using that assms by (auto simp: v multi_function_def example_cfg_reg example_reg_def)
  show "example_cfg (config_address b d f 0x34) = 0" if "vendor example_cfg b d f \<noteq> 0xffff"
    using that assms by (auto simp: v example_cfg_reg example_reg_def)
qed

lemma example_secondary: "secondary example_cfg 0 1 0 = 1"
  by (simp add: secondary_def example_cfg_reg example_reg_def)

lemma example_ascending: "ascending example_cfg"
  unfolding ascending_def
proof (intro allI impI conjI)
  fix b d f :: u8
  assume a: "d < 32" "f < 8" "vendor example_cfg b d f \<noteq> 0xffff"
  note F = example_fields [OF a(1,2)]
  show "caps_end 64 example_cfg b d f (ucast (example_cfg (config_address b d f 0x34) AND 0xff))"
    using F(4) [OF a(3)] by (simp add: caps_end.simps(2) [of 63, simplified])
  show "b < secondary example_cfg b d f" if "bridge example_cfg b d f"
    using F(2) that example_secondary by auto
qed

lemma example_funcs:
  assumes "d < 32"
  shows "funcs_of example_cfg b d = (if b = 0 \<and> d = 0 \<or> b = 0 \<and> d = 1 \<or> b = 1 \<and> d = 0 then [0] else [])"
proof (cases "vendor example_cfg b d 0 = 0xffff")
  case True
  then show ?thesis using example_fields(1) [OF assms, of 0 b] by (simp add: funcs_of_def)
next
  case False
  then have "\<not> multi_function example_cfg b d" using example_fields(3) [OF assms, of 0 b] by simp
  then show ?thesis using False example_fields(1) [OF assms, of 0 b] by (simp add: funcs_of_def)
qed

lemma example_walk: "walk_all example_cfg = [(0, 0, 0), (0, 1, 0), (1, 0, 0)]"
proof -
  have m: "\<not> multi_function example_cfg 0 0" using example_fields(1,3) [of 0 0 0] by simp
  have split: "[0..<32] = 0 # 1 # [2..<32]" by (simp add: upt_rec)
  have step: "walk_bus (Suc n) example_cfg b = concat (List.map (\<lambda>d. concat (List.map (\<lambda>f.
       (b, word_of_nat d, f) # (if bridge example_cfg b (word_of_nat d) f
         then walk_bus n example_cfg (secondary example_cfg b (word_of_nat d) f) else []))
       (funcs_of example_cfg b (word_of_nat d)))) [0, 1])" for n b
    by (simp only: walk_bus.simps split) (simp add: example_funcs)
  have one: "walk_bus (Suc n) example_cfg 1 = [(1, 0, 0)]" for n
    by (simp only: step) (simp add: example_funcs example_fields)
  have "walk_bus (Suc (Suc n)) example_cfg 0 = [(0, 0, 0), (0, 1, 0), (1, 0, 0)]" for n
    by (simp only: step) (simp add: example_funcs example_fields example_secondary one del: walk_bus.simps)
  from this [of 254] show ?thesis using m by (simp add: walk_all_def del: walk_bus.simps)
qed

lemma pci_scan_finds_all_witness:
  "\<exists>s'. pci_scan_all_bus 256 example_ports example_pci = Some s' \<and>
    recorded s' = [(0, 0, 0), (0, 1, 0), (1, 0, 0)] \<and> number_of_pci_device s' = 3"
  using pci_scan_finds_all [OF example_config_space, of example_pci] example_ascending example_walk
  by (auto simp: example_pci_def word_unat_eq_iff)

subsection \<open>Lookups\<close>

lemma count_from:
  "foldl (\<lambda>ret i. if P (xs ! i) then ret + 1 else ret) a is = a + (word_of_nat (length (List.filter (\<lambda>i. P (xs ! i)) is)) :: u32)"
  by (induction "is" arbitrary: a) auto

lemma match_from_nth:
  assumes "unat idx + length is < 2 ^ 32" and "idx \<le> index"
  shows "match_from ds base sub prog idx index is =
    (let js = List.filter (\<lambda>i. has_class base sub prog (ds ! i)) is; k = unat index - unat idx in
     if k < length js then Some (js ! k) else None)"
  using assms
proof (induction "is" arbitrary: idx)
  case (Cons i "is")
  have n: "unat (idx + 1) = Suc (unat idx)" using Cons.prems(1) by (simp add: unat_word_ariths)
  show ?case
  proof (cases "has_class base sub prog (ds ! i) \<and> idx \<noteq> index")
    case True
    then have "idx < index" using Cons.prems(2) by (simp add: order.strict_iff_order)
    then have "unat idx < unat index" by (simp add: word_less_nat_alt)
    then show ?thesis using Cons.IH [of "idx + 1"] Cons.prems True n
      by (auto simp: Let_def word_le_nat_alt nth_Cons' diff_Suc split: nat.splits)
  next
    case False
    then show ?thesis using Cons.IH [of idx] Cons.prems by (auto simp: Let_def)
  qed
qed simp

text \<open>The positions of the devices of a class.\<close>

definition of_class :: "'h pci_state \<Rightarrow> u8 \<Rightarrow> u8 \<Rightarrow> u8 \<Rightarrow> nat list" where
  "of_class s base sub prog =
     List.filter (\<lambda>i. has_class base sub prog (pci_devices s ! i)) [0..<unat (number_of_pci_device s)]"

text \<open>\<^verbatim>\<open>pci_dev_count\<close> and \<^verbatim>\<open>pci_dev_match\<close> agree: the indices below the count are
  those that match a device, each another one, and all devices of the class are among them.\<close>

theorem pci_count_match:
  "unat (pci_dev_count s base sub prog) = length (of_class s base sub prog) \<and>
   pci_dev_match s base sub prog index =
     (if index < pci_dev_count s base sub prog then Some (of_class s base sub prog ! unat index) else None)"
proof -
  have n: "unat (number_of_pci_device s) < 256" using unsigned_less [of "number_of_pci_device s"] by simp
  have l: "length (of_class s base sub prog) < 256"
    using n length_filter_le [of _ "[0..<unat (number_of_pci_device s)]"] by (auto simp: of_class_def intro: le_less_trans)
  have cnt: "unat (pci_dev_count s base sub prog) = length (of_class s base sub prog)"
    using l by (simp add: pci_dev_count_def count_from unat_of_nat flip: of_class_def)
  then show ?thesis
    using match_from_nth [of 0 "[0..<unat (number_of_pci_device s)]" index "pci_devices s" base sub prog] n
    by (simp add: pci_dev_match_def Let_def word_less_nat_alt flip: of_class_def)
qed

subsection \<open>Where the code goes wrong\<close>

text \<open>
  \<^verbatim>\<open>configure_msi\<close> keeps bits 20 to 22 of the capability before it tests bits 23 (64-bit
  addresses) and 24 (masking): it never sees them set, so that on a 64-bit device the message data goes
  where the upper half of the address belongs.
\<close>

lemma msi_cap_bits:
  assumes "num < 8" and "k = 23 \<or> k = 24"
  shows "msi_cap_value x num AND push_bit k 1 = 0"
proof -
  have n: "\<not> bit num (k - 20)"
  proof
    assume "bit num (k - 20)"
    then have "bit (take_bit 3 num) (k - 20)"
      using assms(1) less_mask_eq [of num 3] by (simp add: take_bit_eq_mask)
    then show False using assms(2) by (auto simp: bit_take_bit_iff)
  qed
  have m: "\<not> bit (0x00700000 :: u32) k" "\<not> bit (7 :: u32) (k - 20)" using assms(2) by auto
  have "\<not> bit (msi_cap_value x num) k"
    unfolding msi_cap_value_def Let_def
    using assms(2) n m by (simp only: bit_or_iff bit_and_iff bit_push_bit_iff bit_unsigned_iff if_distrib [of "\<lambda>w. bit w k"]
      split: if_split) auto
  then show ?thesis by (simp only: push_bit_of_1 and_exp_eq_0_iff_not_bit not_False_eq_True)
qed

lemma configure_msi_never_64_bit:
  assumes "num < 8" and "m \<noteq> 0"
    and "find_msi_caps H dev (fst (pci_dev_read_cap_point H dev h)) 0 0 (snd (pci_dev_read_cap_point H dev h)) =
      Some (m, x, h1)"
  shows "\<exists>cap msg_addr msg_data. configure_msi H lapic lid dev tm dm vector num h = Some (snd (pci_dev_config_read H dev (m + 0x14)
    (snd (pci_dev_config_read H dev (m + 0x10) (pci_dev_config_write H dev (m + 8) msg_data
      (pci_dev_config_write H dev (m + 4) msg_addr (pci_dev_config_write H dev m cap (snd (pci_dev_config_read H dev m h1)))))))))"
  using assms(2,3) msi_cap_bits [OF assms(1), of 23] msi_cap_bits [OF assms(1), of 24]
  by (simp add: configure_msi_def case_prod_unfold Let_def) blast

text \<open>A base address register of ports with bit 2 set is taken for the lower half of a 64-bit address.\<close>

lemma pci_dev_read_bar_io:
  assumes "fst (pci_dev_config_read H dev 0x10 h) = 0xc005"
  shows "fst (pci_dev_read_bar H dev 0 h) =
    push_bit 32 (ucast (fst (pci_dev_config_read H dev 0x14 (snd (pci_dev_config_read H dev 0x10 h))))) OR 0xc004"
  using assms by (simp add: pci_dev_read_bar_def case_prod_unfold Let_def)

text \<open>The counter of the devices has eight bits: the 256th device takes it back to zero.\<close>

lemma add_device_wraps: "number_of_pci_device s = 0xff \<Longrightarrow> number_of_pci_device (add_device dev s) = 0"
  by (simp add: add_device_def)

text \<open>An invalid count is only logged.\<close>

lemma pci_dev_configure_msi_any_count:
  "msi_capable (msi dev) \<Longrightarrow> configured_count (msi dev) = 0 \<Longrightarrow>
    \<exists>dev' h'. pci_dev_configure_msi H lid dev irq cnt h = (K_SUCCESS, dev', h') \<and> configured_count (msi dev') = cnt"
  by (auto simp: pci_dev_configure_msi_def case_prod_unfold Let_def)

end
