(* ===== verification/XhciState.thy ===== *)
theory XhciState
  imports Pci PageTable FifoQueue
begin

text \<open>
  The data of the driver of USB host controllers, \<^verbatim>\<open>include/device/usb\<close>, and the access to
  the registers of a controller, \<^verbatim>\<open>device/usb/xhci/registers.c\<close>.

  The objects that the code reaches through pointers are maps from their addresses. A pipe and a
  controller are named by the address of the enclosing structure, from which \<^verbatim>\<open>CONTAINER_OF\<close>
  computes them. 64-bit words of memory are in \<open>pt_mem\<close>, 32-bit words of device contexts in
  \<open>ctx_mem\<close>, other bytes in \<open>usb_mem\<close>. The log is left out.
\<close>

record xhci_trb =
  trb_ptr :: u64
  trb_status :: u32
  trb_control :: u32

record xhci_ring =
  trbs_addr :: addr
  trbs :: "xhci_trb list"
  trb_count :: u64
  enqueue :: u32
  dequeue :: u32
  cs :: u32

record xhci_portmap =
  pm_start :: u8
  pm_count :: u8

record xhci_er_seg =
  ptr_lo :: u32
  ptr_hi :: u32
  seg_size :: u32

record xhci =
  freelist :: addr
  usb_pci :: "nat option"
  usb_type :: u8
  max_addr :: u8
  mmio_base :: addr
  cap_regs :: addr
  opt_regs :: addr
  run_regs :: addr
  doorbell_regs :: addr
  xecp :: u32
  ports :: u32
  slots :: u32
  context64 :: u8
  usb2 :: xhci_portmap
  usb3 :: xhci_portmap
  devs :: addr
  eseg :: addr
  eseg_val :: xhci_er_seg
  cmds :: xhci_ring
  evts :: xhci_ring
  cmds_evts :: fifo
  port_evts :: fifo
  xfer_evts :: fifo

record xhci_pipe =
  reqs :: xhci_ring
  ctrl :: addr
  pipe_type :: u8
  ep :: u8
  pipe_dev_addr :: u8
  pipe_speed :: u8
  max_packet :: u16
  ep_type :: u8
  slot_id :: u32
  epid :: u32
  pipe_buf :: addr

text \<open>A hub without a device is the root hub of a controller.\<close>

record usb_hub =
  hub_usb_dev :: addr
  hub_ctrl :: addr
  portcount :: u32

record usb_device =
  hub :: addr
  defpipe :: addr
  port :: u32
  config :: addr
  iface :: addr
  imax :: int
  speed :: u8
  dev_addr :: u8

record 'h usb_state = pt_state +
  pci :: "'h pci_state"
  ctrls :: "addr \<Rightarrow> xhci"
  hubs :: "addr \<Rightarrow> usb_hub"
  usb_devs :: "addr \<Rightarrow> usb_device"
  pipes :: "addr \<Rightarrow> xhci_pipe"
  ctx_mem :: "addr \<Rightarrow> u32"
  usb_mem :: "addr \<Rightarrow> u8"

text \<open>
  What surrounds the driver: the hardware; what the other tasks and the devices do to the state while the
  running task sleeps in \<^verbatim>\<open>task_msleep\<close>; and what a controller does to its event ring between two
  looks that the driver takes at it.
\<close>

record 'h usb_env =
  env_hw :: "'h hardware"
  msleep :: "u32 \<Rightarrow> 'h usb_state \<Rightarrow> 'h usb_state"
  post :: "'h usb_state \<Rightarrow> 'h usb_state"

definition upd_hw :: "'h \<Rightarrow> 'h usb_state \<Rightarrow> 'h usb_state" where
  "upd_hw h s = s\<lparr>pci := (pci s)\<lparr>hw := h\<rparr>\<rparr>"

definition upd_xhci :: "addr \<Rightarrow> (xhci \<Rightarrow> xhci) \<Rightarrow> 'h usb_state \<Rightarrow> 'h usb_state" where
  "upd_xhci x f s = s\<lparr>ctrls := (ctrls s)(x := f (ctrls s x))\<rparr>"

definition upd_pipe :: "addr \<Rightarrow> (xhci_pipe \<Rightarrow> xhci_pipe) \<Rightarrow> 'h usb_state \<Rightarrow> 'h usb_state" where
  "upd_pipe p f s = s\<lparr>pipes := (pipes s)(p := f (pipes s p))\<rparr>"

definition upd_dev :: "addr \<Rightarrow> (usb_device \<Rightarrow> usb_device) \<Rightarrow> 'h usb_state \<Rightarrow> 'h usb_state" where
  "upd_dev d f s = s\<lparr>usb_devs := (usb_devs s)(d := f (usb_devs s d))\<rparr>"

subsection \<open>Registers\<close>

definition reg_read :: "'h usb_env \<Rightarrow> addr \<Rightarrow> 'h usb_state \<Rightarrow> u32 \<times> 'h usb_state" where
  "reg_read E a s = (let (v, h) = mmio_read (env_hw E) a (hw (pci s)) in (v, upd_hw h s))"

definition reg_write :: "'h usb_env \<Rightarrow> addr \<Rightarrow> u32 \<Rightarrow> 'h usb_state \<Rightarrow> 'h usb_state" where
  "reg_write E a v s = upd_hw (mmio_write (env_hw E) a v (hw (pci s))) s"

definition xhci_read_cap :: "'h usb_env \<Rightarrow> addr \<Rightarrow> u32 \<Rightarrow> 'h usb_state \<Rightarrow> u32 \<times> 'h usb_state" where
  "xhci_read_cap E x reg s = reg_read E (cap_regs (ctrls s x) + ucast reg) s"

definition xhci_read_opt :: "'h usb_env \<Rightarrow> addr \<Rightarrow> u32 \<Rightarrow> 'h usb_state \<Rightarrow> u32 \<times> 'h usb_state" where
  "xhci_read_opt E x reg s = reg_read E (opt_regs (ctrls s x) + ucast reg) s"

definition xhci_write_opt :: "'h usb_env \<Rightarrow> addr \<Rightarrow> u32 \<Rightarrow> u32 \<Rightarrow> 'h usb_state \<Rightarrow> 'h usb_state" where
  "xhci_write_opt E x reg v s = reg_write E (opt_regs (ctrls s x) + ucast reg) v s"

definition xhci_read_run :: "'h usb_env \<Rightarrow> addr \<Rightarrow> u32 \<Rightarrow> 'h usb_state \<Rightarrow> u32 \<times> 'h usb_state" where
  "xhci_read_run E x reg s = reg_read E (run_regs (ctrls s x) + ucast reg) s"

definition xhci_write_run :: "'h usb_env \<Rightarrow> addr \<Rightarrow> u32 \<Rightarrow> u32 \<Rightarrow> 'h usb_state \<Rightarrow> 'h usb_state" where
  "xhci_write_run E x reg v s = reg_write E (run_regs (ctrls s x) + ucast reg) v s"

definition xhci_read_doorbell :: "'h usb_env \<Rightarrow> addr \<Rightarrow> u32 \<Rightarrow> 'h usb_state \<Rightarrow> u32 \<times> 'h usb_state" where
  "xhci_read_doorbell E x reg s = reg_read E (doorbell_regs (ctrls s x) + ucast reg) s"

definition xhci_write_doorbell :: "'h usb_env \<Rightarrow> addr \<Rightarrow> u32 \<Rightarrow> u32 \<Rightarrow> 'h usb_state \<Rightarrow> 'h usb_state" where
  "xhci_write_doorbell E x reg v s = reg_write E (doorbell_regs (ctrls s x) + ucast reg) v s"

text \<open>Offsets of the registers.\<close>

definition XHCI_CAP_CAPLENGTH :: u32 where "XHCI_CAP_CAPLENGTH = 0x00"
definition XHCI_CAP_HCSPARAM1 :: u32 where "XHCI_CAP_HCSPARAM1 = 0x04"
definition XHCI_CAP_HCSPARAM2 :: u32 where "XHCI_CAP_HCSPARAM2 = 0x08"
definition XHCI_CAP_HCCPARAM1 :: u32 where "XHCI_CAP_HCCPARAM1 = 0x10"
definition XHCI_CAP_DBOFF :: u32 where "XHCI_CAP_DBOFF = 0x14"
definition XHCI_CAP_RSTOFF :: u32 where "XHCI_CAP_RSTOFF = 0x18"

definition XHCI_OPT_USBCMD :: u32 where "XHCI_OPT_USBCMD = 0x00"
definition XHCI_OPT_USBSTS :: u32 where "XHCI_OPT_USBSTS = 0x04"
definition XHCI_OPT_PAGESIZE :: u32 where "XHCI_OPT_PAGESIZE = 0x08"
definition XHCI_OPT_DNCTRL :: u32 where "XHCI_OPT_DNCTRL = 0x14"
definition XHCI_OPT_CRCR_LO :: u32 where "XHCI_OPT_CRCR_LO = 0x18"
definition XHCI_OPT_CRCR_HI :: u32 where "XHCI_OPT_CRCR_HI = 0x1c"
definition XHCI_OPT_DCBAAP_LO :: u32 where "XHCI_OPT_DCBAAP_LO = 0x30"
definition XHCI_OPT_DCBAAP_HI :: u32 where "XHCI_OPT_DCBAAP_HI = 0x34"
definition XHCI_OPT_CONFIG :: u32 where "XHCI_OPT_CONFIG = 0x38"
definition XHCI_OPT_PORTSC :: "u32 \<Rightarrow> u32" where "XHCI_OPT_PORTSC n = 0x400 + n * 0x10"

definition XHCI_IRS_ERSTSZ :: "u32 \<Rightarrow> u32" where "XHCI_IRS_ERSTSZ n = 0x0028 + 0x20 * n"
definition XHCI_IRS_ERSTBA_LO :: "u32 \<Rightarrow> u32" where "XHCI_IRS_ERSTBA_LO n = 0x0030 + 0x20 * n"
definition XHCI_IRS_ERSTBA_HI :: "u32 \<Rightarrow> u32" where "XHCI_IRS_ERSTBA_HI n = 0x0034 + 0x20 * n"
definition XHCI_IRS_ERDP_LO :: "u32 \<Rightarrow> u32" where "XHCI_IRS_ERDP_LO n = 0x0038 + 0x20 * n"
definition XHCI_IRS_ERDP_HI :: "u32 \<Rightarrow> u32" where "XHCI_IRS_ERDP_HI n = 0x003c + 0x20 * n"

definition XHCI_DOORBELL :: "u32 \<Rightarrow> u32" where "XHCI_DOORBELL n = n * 4"

text \<open>Bits of the registers.\<close>

definition XHCI_CMD_RS :: u32 where "XHCI_CMD_RS = 1"
definition XHCI_CMD_HCRST :: u32 where "XHCI_CMD_HCRST = 2"
definition XHCI_STS_HCH :: u32 where "XHCI_STS_HCH = 1"
definition XHCI_STS_CNR :: u32 where "XHCI_STS_CNR = 0x800"
definition XHCI_PORTSC_CCS :: u32 where "XHCI_PORTSC_CCS = 1"
definition XHCI_PORTSC_PED :: u32 where "XHCI_PORTSC_PED = 2"
definition XHCI_PORTSC_PR :: u32 where "XHCI_PORTSC_PR = 0x10"
definition XHCI_PORTSC_PLS_SHIFT :: nat where "XHCI_PORTSC_PLS_SHIFT = 5"
definition XHCI_PORTSC_PLS_MASK :: u32 where "XHCI_PORTSC_PLS_MASK = 0x0f"
definition XHCI_PORTSC_CSC :: u32 where "XHCI_PORTSC_CSC = 0x20000"
definition PLS_U0 :: u32 where "PLS_U0 = 0"
definition PLS_POLLING :: u32 where "PLS_POLLING = 7"

definition XHCI_PAGE_SIZE :: u32 where "XHCI_PAGE_SIZE = 4096"
definition XHCI_RING_ITEMS :: nat where "XHCI_RING_ITEMS = 16"

definition USB_FULLSPEED :: u8 where "USB_FULLSPEED = 0"
definition USB_LOWSPEED :: u8 where "USB_LOWSPEED = 1"
definition USB_HIGHSPEED :: u8 where "USB_HIGHSPEED = 2"
definition USB_SUPERSPEED :: u8 where "USB_SUPERSPEED = 3"

definition speed_from_xhci :: "u8 \<Rightarrow> int" where
  "speed_from_xhci sp =
     (if sp = 1 then uint USB_FULLSPEED else if sp = 2 then uint USB_LOWSPEED
      else if sp = 3 then uint USB_HIGHSPEED else if sp = 4 then uint USB_SUPERSPEED else -1)"

definition speed_to_xhci :: "u8 \<Rightarrow> u32" where
  "speed_to_xhci sp =
     (if sp = USB_FULLSPEED then 1 else if sp = USB_LOWSPEED then 2
      else if sp = USB_HIGHSPEED then 3 else if sp = USB_SUPERSPEED then 4 else 0)"

end
