(* ===== verification/Xhci.thy ===== *)
theory Xhci
  imports XhciState
begin

text \<open>
  Of \<^verbatim>\<open>device/usb/xhci/xhci.c\<close>: the discovery of a controller, its halt, reset and start,
  and the operations on the ports of its root hub. Loops that wait for the hardware count down a
  number of sleeps; what happens meanwhile is \<open>msleep\<close> of the environment.
\<close>

definition switch_to_xhci :: "'h usb_env \<Rightarrow> pci_device \<Rightarrow> 'h usb_state \<Rightarrow> 'h usb_state option" where
  "switch_to_xhci E xhci_dev s =
     (case pci_dev_match (pci s) 0x0c 0x03 0x20 0 of
        None \<Rightarrow> Some s
      | Some i \<Rightarrow>
          let H = env_hw E; (id, h) = pci_dev_config_read H (pci_devices (pci s) ! i) 0 (hw (pci s)) in
          if id AND 0xffff \<noteq> 0x8086 then Some (upd_hw h s)
          else let (superspeed_ports, h) = pci_dev_config_read H xhci_dev 0xdc h;
                   h = pci_dev_config_write H xhci_dev 0xd8 superspeed_ports h;
                   (ehci2xhci_ports, h) = pci_dev_config_read H xhci_dev 0xd4 h;
                   h = pci_dev_config_write H xhci_dev 0xd0 ehci2xhci_ports h
               in Some (upd_hw h s))"

text \<open>The list of extended capabilities; \<open>0x20425355\<close> are the characters \<^verbatim>\<open>"USB "\<close>.\<close>

partial_function (option) scan_xecp :: "'h usb_env \<Rightarrow> addr \<Rightarrow> addr \<Rightarrow> 'h usb_state \<Rightarrow> 'h usb_state option" where
  "scan_xecp E x a s =
     (let (cap, s) = reg_read E a s;
          s = (if GET_FIELD cap 0 0xff = 0x02
               then let (name, s) = reg_read E (a + 4) s; (pt, s) = reg_read E (a + 8) s;
                        major = GET_FIELD cap 24 0xff;
                        m = \<lparr>pm_start = ucast (pt AND 0xff), pm_count = ucast (drop_bit 8 pt AND 0xff)\<rparr>
                    in if name = 0x20425355
                       then if major = 2 then upd_xhci x (usb2_update (\<lambda>_. m)) s
                            else if major = 3 then upd_xhci x (usb3_update (\<lambda>_. m)) s else s
                       else s
               else s);
          offset = push_bit 2 (GET_FIELD cap 8 0xff)
      in if offset > 0 then scan_xecp E x (a + ucast offset) s else Some s)"

definition XHCI_T_SIZE :: u64 where "XHCI_T_SIZE = 304"

definition zero_ring :: xhci_ring where
  "zero_ring = \<lparr>trbs_addr = NULL, trbs = [], trb_count = 0, enqueue = 0, dequeue = 0, cs = 0\<rparr>"

definition zero_fifo :: fifo where
  "zero_fifo = init_fifo [] 0 0"

definition zero_xhci :: xhci where
  "zero_xhci = \<lparr>freelist = NULL, usb_pci = None, usb_type = 0, max_addr = 0, mmio_base = NULL,
     cap_regs = NULL, opt_regs = NULL, run_regs = NULL, doorbell_regs = NULL, xecp = 0, ports = 0, slots = 0,
     context64 = 0, usb2 = \<lparr>pm_start = 0, pm_count = 0\<rparr>, usb3 = \<lparr>pm_start = 0, pm_count = 0\<rparr>,
     devs = NULL, eseg = NULL, eseg_val = \<lparr>ptr_lo = 0, ptr_hi = 0, seg_size = 0\<rparr>, cmds = zero_ring, evts = zero_ring,
     cmds_evts = zero_fifo, port_evts = zero_fifo, xfer_evts = zero_fifo\<rparr>"

text \<open>The second component of the result is the value of \<^verbatim>\<open>*xhci_addr\<close>, \<open>old\<close> before.\<close>

definition xhci_controller_setup ::
  "'h usb_env \<Rightarrow> addr \<Rightarrow> addr \<Rightarrow> 'h usb_state \<Rightarrow> (status_t \<times> addr \<times> 'h usb_state) option" where
  "xhci_controller_setup E base old s = do {
     (status, r, s) \<leftarrow> kmalloc XHCI_T_SIZE 0 0 s;
     if ERROR status then Some (status, old, s)
     else do {
       x \<leftarrow> r;
       let s = upd_xhci x (\<lambda>_. zero_xhci\<lparr>mmio_base := base, cap_regs := base\<rparr>) s;
       let (caplength, s) = xhci_read_cap E x XHCI_CAP_CAPLENGTH s;
       let s = upd_xhci x (opt_regs_update (\<lambda>_. base + GET_FIELD (ucast caplength) 0 0x00ff)) s;
       let (rstoff, s) = xhci_read_cap E x XHCI_CAP_RSTOFF s;
       let s = upd_xhci x (run_regs_update (\<lambda>_. base + ucast rstoff)) s;
       let (dboff, s) = xhci_read_cap E x XHCI_CAP_DBOFF s;
       let s = upd_xhci x (doorbell_regs_update (\<lambda>_. base + ucast dboff)) s;
       let (hcs1, s) = xhci_read_cap E x XHCI_CAP_HCSPARAM1 s;
       let (hcc1, s) = xhci_read_cap E x XHCI_CAP_HCCPARAM1 s;
       let ecp = push_bit 2 (GET_FIELD hcc1 16 0xfff);
       let s = upd_xhci x (\<lambda>c. c\<lparr>ports := GET_FIELD hcs1 24 0xff, slots := GET_FIELD hcs1 0 0xff,
         xecp := ecp, context64 := (if GET_FIELD hcc1 2 1 \<noteq> 0 then 1 else 0)\<rparr>) s;
       s \<leftarrow> (if ecp \<noteq> 0 then scan_xecp E x (base + ucast ecp) s else Some s);
       let (pagesize, s) = xhci_read_opt E x XHCI_OPT_PAGESIZE s;
       if XHCI_PAGE_SIZE \<noteq> push_bit 12 pagesize
       then do { s \<leftarrow> kfree x s; Some (K_ERROR, NULL, s) }
       else Some (K_SUCCESS, x, s) } }"

subsection \<open>Waiting for the controller\<close>

text \<open>Ask whether the hardware is still busy, at most \<open>n\<close> times, and sleep in between.\<close>

fun poll :: "'h usb_env \<Rightarrow> ('h usb_state \<Rightarrow> bool \<times> 'h usb_state) \<Rightarrow> nat \<Rightarrow> 'h usb_state \<Rightarrow> status_t \<times> 'h usb_state" where
  "poll E busy 0 s = (K_TIMEOUT, s)"
| "poll E busy (Suc n) s =
     (let (b, s) = busy s in
      if \<not> b then (K_SUCCESS, s)
      else if n = 0 then (K_TIMEOUT, s)
      else poll E busy n (msleep E 1 s))"

definition xhci_halt :: "'h usb_env \<Rightarrow> addr \<Rightarrow> 'h usb_state \<Rightarrow> status_t \<times> 'h usb_state" where
  "xhci_halt E x s =
     (let (usbcmd, s) = xhci_read_opt E x XHCI_OPT_USBCMD s in
      if usbcmd AND XHCI_CMD_RS = 0 then (K_SUCCESS, s)
      else let s = xhci_write_opt E x XHCI_OPT_USBCMD (usbcmd AND NOT XHCI_CMD_RS) s
           in poll E (\<lambda>s. let (st, s) = xhci_read_opt E x XHCI_OPT_USBSTS s in (st AND XHCI_STS_HCH = 0, s)) 200 s)"

text \<open>After a reset these registers have to read as zero.\<close>

fun all_zero :: "'h usb_env \<Rightarrow> addr \<Rightarrow> u32 list \<Rightarrow> 'h usb_state \<Rightarrow> status_t \<times> 'h usb_state" where
  "all_zero E x [] s = (K_SUCCESS, s)"
| "all_zero E x (r # rs) s =
     (let (v, s) = xhci_read_opt E x r s in if v \<noteq> 0 then (K_ERROR, s) else all_zero E x rs s)"

definition xhci_reset :: "'h usb_env \<Rightarrow> addr \<Rightarrow> 'h usb_state \<Rightarrow> status_t \<times> 'h usb_state" where
  "xhci_reset E x s =
     (let (usbcmd, s) = xhci_read_opt E x XHCI_OPT_USBCMD s;
          s = xhci_write_opt E x XHCI_OPT_USBCMD (usbcmd OR XHCI_CMD_HCRST) s;
          (status, s) = poll E (\<lambda>s. let (c, s) = xhci_read_opt E x XHCI_OPT_USBCMD s in
              if c AND XHCI_CMD_HCRST \<noteq> 0 then (True, s)
              else let (st, s) = xhci_read_opt E x XHCI_OPT_USBSTS s in (st AND XHCI_STS_CNR \<noteq> 0, s)) 1000 s
      in if ERROR status then (status, s)
         else all_zero E x [XHCI_OPT_USBCMD, XHCI_OPT_DNCTRL, XHCI_OPT_CRCR_LO, XHCI_OPT_CRCR_HI,
           XHCI_OPT_DCBAAP_LO, XHCI_OPT_DCBAAP_HI, XHCI_OPT_CONFIG] (msleep E 50 s))"

definition xhci_run :: "'h usb_env \<Rightarrow> addr \<Rightarrow> 'h usb_state \<Rightarrow> status_t \<times> 'h usb_state" where
  "xhci_run E x s =
     (let (usbcmd, s) = xhci_read_opt E x XHCI_OPT_USBCMD s;
          s = xhci_write_opt E x XHCI_OPT_USBCMD (usbcmd OR XHCI_CMD_RS) s;
          (status, s) = poll E (\<lambda>s. let (st, s) = xhci_read_opt E x XHCI_OPT_USBSTS s in (st AND XHCI_STS_HCH = 1, s)) 1000 s
      in if ERROR status then (status, s)
         else let (usbsts, s) = xhci_read_opt E x XHCI_OPT_USBSTS s
              in (if usbsts AND XHCI_STS_CNR \<noteq> 0 then K_ERROR else K_SUCCESS, s))"

subsection \<open>Ports of the root hub\<close>

definition xhci_hub_detect :: "'h usb_env \<Rightarrow> addr \<Rightarrow> u32 \<Rightarrow> 'h usb_state \<Rightarrow> int \<times> 'h usb_state" where
  "xhci_hub_detect E hb p s =
     (let x = hub_ctrl (hubs s hb); (portsc, s) = xhci_read_opt E x (XHCI_OPT_PORTSC p) s
      in (if portsc AND XHCI_PORTSC_CCS \<noteq> 0 then 1 else 0, s))"

text \<open>
  The loop of \<^verbatim>\<open>xhci_hub_reset\<close>: \<open>None\<close> when the device is gone, otherwise the last value of
  the register. The loop ends when the count is zero, so that the test for zero inside it never holds.
\<close>

fun reset_wait :: "'h usb_env \<Rightarrow> addr \<Rightarrow> u32 \<Rightarrow> nat \<Rightarrow> u32 \<Rightarrow> 'h usb_state \<Rightarrow> u32 option \<times> 'h usb_state" where
  "reset_wait E x p 0 portsc s = (Some portsc, s)"
| "reset_wait E x p (Suc n) portsc s =
     (let (portsc, s) = xhci_read_opt E x (XHCI_OPT_PORTSC p) s in
      if portsc AND XHCI_PORTSC_CCS = 0 then (None, s)
      else if portsc AND XHCI_PORTSC_PED \<noteq> 0 then (Some portsc, s)
      else reset_wait E x p n portsc (msleep E 1 s))"

definition xhci_hub_reset :: "'h usb_env \<Rightarrow> addr \<Rightarrow> u32 \<Rightarrow> 'h usb_state \<Rightarrow> int \<times> 'h usb_state" where
  "xhci_hub_reset E hb p s =
     (let x = hub_ctrl (hubs s hb); (portsc, s) = xhci_read_opt E x (XHCI_OPT_PORTSC p) s;
          pls = GET_FIELD portsc XHCI_PORTSC_PLS_SHIFT XHCI_PORTSC_PLS_MASK in
      if portsc AND XHCI_PORTSC_CCS = 0 then (-1, s)
      else if pls \<noteq> PLS_U0 \<and> pls \<noteq> PLS_POLLING then (-1, s)
      else let s = (if pls = PLS_POLLING
                 then xhci_write_opt E x (XHCI_OPT_PORTSC p) (portsc OR XHCI_PORTSC_PR) s else s);
               (r, s) = reset_wait E x p 100 portsc s
           in case r of None \<Rightarrow> (-1, s)
              | Some portsc \<Rightarrow> (speed_from_xhci (ucast (GET_FIELD portsc 10 0x0f)), s))"

definition in_portmap :: "xhci_portmap \<Rightarrow> u32 \<Rightarrow> bool" where
  "in_portmap m n \<longleftrightarrow> n \<ge> ucast (pm_start m) \<and> n < ucast (pm_start m) + ucast (pm_count m)"

definition xhci_hub_portmap :: "addr \<Rightarrow> u32 \<Rightarrow> 'h usb_state \<Rightarrow> u32" where
  "xhci_hub_portmap hb p s =
     (let c = ctrls s (hub_ctrl (hubs s hb)); pport = p + 1;
          pport = (if in_portmap (usb3 c) (p + 1) then p + 2 - ucast (pm_start (usb3 c)) else pport);
          pport = (if in_portmap (usb2 c) (p + 1) then p + 2 - ucast (pm_start (usb2 c)) else pport)
      in pport)"

definition xhci_hub_disconnect :: "addr \<Rightarrow> u32 \<Rightarrow> int" where
  "xhci_hub_disconnect hb p = 0"

subsection \<open>Properties\<close>

lemma read_frame [simp]:
  "ctrls (snd (xhci_read_opt E x r s)) = ctrls s" "hubs (snd (xhci_read_opt E x r s)) = hubs s"
  by (simp_all add: xhci_read_opt_def reg_read_def upd_hw_def case_prod_unfold Let_def)

text \<open>A wait ends, with success exactly when one of the first \<open>n\<close> questions finds the hardware ready.\<close>

fun asked :: "'h usb_env \<Rightarrow> ('h usb_state \<Rightarrow> bool \<times> 'h usb_state) \<Rightarrow> nat \<Rightarrow> 'h usb_state \<Rightarrow> 'h usb_state" where
  "asked E busy 0 s = s"
| "asked E busy (Suc n) s = asked E busy n (msleep E 1 (snd (busy s)))"

lemma poll_result:
  assumes "0 < n"
  shows "fst (poll E busy n s) = (if \<exists>k < n. \<not> fst (busy (asked E busy k s)) then K_SUCCESS else K_TIMEOUT)"
  using assms
proof (induction n arbitrary: s)
  case (Suc n)
  show ?case
  proof (cases "fst (busy s)")
    case False
    then have "\<exists>k < Suc n. \<not> fst (busy (asked E busy k s))" by (intro exI [of _ 0]) simp
    then show ?thesis using False by (simp add: case_prod_unfold Let_def)
  next
    case True
    define s1 where "s1 = msleep E 1 (snd (busy s))"
    have split: "(\<exists>k < Suc n. \<not> fst (busy (asked E busy k s))) \<longleftrightarrow> (\<exists>k < n. \<not> fst (busy (asked E busy k s1)))"
    proof
      assume "\<exists>k < Suc n. \<not> fst (busy (asked E busy k s))"
      then obtain k where k: "k < Suc n" "\<not> fst (busy (asked E busy k s))" by blast
      then show "\<exists>k < n. \<not> fst (busy (asked E busy k s1))" using True by (cases k) (auto simp: s1_def)
    next
      assume "\<exists>k < n. \<not> fst (busy (asked E busy k s1))"
      then show "\<exists>k < Suc n. \<not> fst (busy (asked E busy k s))"
        by (metis Suc_mono asked.simps(2) s1_def)
    qed
    show ?thesis
    proof (cases "n = 0")
      case True
      then show ?thesis using \<open>fst (busy s)\<close> by (simp add: case_prod_unfold Let_def)
    next
      case False
      then show ?thesis using True Suc.IH [of s1] split by (simp add: case_prod_unfold Let_def flip: s1_def)
    qed
  qed
qed simp

text \<open>The reset of a port never reports a time-out: its result is a speed, or -1 for a missing device.\<close>

lemma xhci_hub_reset_range: "fst (xhci_hub_reset E hb p s) \<in> {-1, 0, 1, 2, 3}"
  by (auto simp: xhci_hub_reset_def case_prod_unfold Let_def speed_from_xhci_def USB_FULLSPEED_def USB_LOWSPEED_def
      USB_HIGHSPEED_def USB_SUPERSPEED_def split: option.splits)

text \<open>The two codings of speeds are inverse to each other.\<close>

lemma speed_roundtrip:
  assumes "sp < 4"
  shows "speed_from_xhci (ucast (speed_to_xhci sp)) = uint sp"
proof -
  have "sp = 0 \<or> sp = 1 \<or> sp = 2 \<or> sp = 3"
    using assms by (auto simp: word_less_nat_alt word_unat_eq_iff)
  then show ?thesis
    by (auto simp: speed_from_xhci_def speed_to_xhci_def USB_FULLSPEED_def USB_LOWSPEED_def
        USB_HIGHSPEED_def USB_SUPERSPEED_def)
qed

end
