(* ===== verification/XhciRing.thy ===== *)
theory XhciRing
  imports Xhci
begin

text \<open>
  The rings of \<^verbatim>\<open>device/usb/xhci/xhci.c\<close>, shared with the controller: commands and
  transfers that the driver queues, and events that it takes from the controller and hands on to the
  waiting tasks. Both sides recognise the new entries of a ring by their cycle bit.
\<close>

definition TRB_C :: u32 where "TRB_C = 1"
definition TRB_LK_TC :: u32 where "TRB_LK_TC = 2"
definition TRB_TYPE :: "u32 \<Rightarrow> u32" where "TRB_TYPE t = drop_bit 10 t AND 0x3f"
definition TR_LINK :: u32 where "TR_LINK = 6"
definition CR_ENABLE_SLOT :: u32 where "CR_ENABLE_SLOT = 9"
definition CR_DISABLE_SLOT :: u32 where "CR_DISABLE_SLOT = 10"
definition CR_ADDRESS_DEVICE :: u32 where "CR_ADDRESS_DEVICE = 11"
definition CR_CONFIGURE_ENDPOINT :: u32 where "CR_CONFIGURE_ENDPOINT = 12"
definition CR_EVALUATE_CONTEXT :: u32 where "CR_EVALUATE_CONTEXT = 13"
definition ER_TRANSFER :: u32 where "ER_TRANSFER = 32"
definition ER_COMMAND_COMPLETE :: u32 where "ER_COMMAND_COMPLETE = 33"
definition ER_PORT_STATUS_CHANGE :: u32 where "ER_PORT_STATUS_CHANGE = 34"
definition CC_INVALID :: u32 where "CC_INVALID = 0"
definition CC_SUCCESS :: u32 where "CC_SUCCESS = 1"

definition zero_trb :: xhci_trb where
  "zero_trb = \<lparr>trb_ptr = 0, trb_status = 0, trb_control = 0\<rparr>"

text \<open>An entry as the 16 bytes that are copied into a queue.\<close>

definition trb_bytes :: "xhci_trb \<Rightarrow> u8 list" where
  "trb_bytes t = le_bytes 8 (unat (trb_ptr t)) @ le_bytes 4 (unat (trb_status t)) @ le_bytes 4 (unat (trb_control t))"

definition trb_of_bytes :: "u8 list \<Rightarrow> xhci_trb" where
  "trb_of_bytes bs = \<lparr>trb_ptr = word_of_nat (le_value (take 8 bs)),
     trb_status = word_of_nat (le_value (take 4 (drop 8 bs))),
     trb_control = word_of_nat (le_value (take 4 (drop 12 bs)))\<rparr>"

subsection \<open>Queueing\<close>

text \<open>The entry is changed as well; the result has both. An index outside the ring is a fault.\<close>

definition xhci_trb_queue :: "xhci_ring \<Rightarrow> xhci_trb \<Rightarrow> (xhci_trb \<times> xhci_ring) option" where
  "xhci_trb_queue r t = do {
     let t = t\<lparr>trb_control := trb_control t OR cs r\<rparr>;
     assert (unat (enqueue r) < length (trbs r));
     let r = r\<lparr>trbs := (trbs r)[unat (enqueue r) := t], enqueue := enqueue r + 1\<rparr>;
     if ucast (enqueue r) = trb_count r - 1 then do {
       let i = unat (enqueue r);
       assert (i < length (trbs r));
       let control = (TRB_LK_TC OR cs r) OR push_bit 10 TR_LINK;
       Some (t, r\<lparr>trbs := (trbs r)[i := (trbs r ! i)\<lparr>trb_control := control\<rparr>],
         enqueue := 0, cs := (if cs r = 0 then 1 else 0)\<rparr>) }
     else Some (t, r) }"

definition xhci_doorbell_ring :: "'h usb_env \<Rightarrow> addr \<Rightarrow> u8 \<Rightarrow> u8 \<Rightarrow> 'h usb_state \<Rightarrow> 'h usb_state" where
  "xhci_doorbell_ring E x slt endpoint s =
     xhci_write_doorbell E x (XHCI_DOORBELL (ucast slt)) (ucast endpoint AND 0xff) s"

subsection \<open>Taking events\<close>

definition pc_event :: "u32 \<Rightarrow> u32 \<Rightarrow> u8 list" where
  "pc_event p portsc = [ucast p, if portsc AND XHCI_PORTSC_CCS \<noteq> 0 then 1 else 0]"

text \<open>Report a change of a port if there is one, and acknowledge it.\<close>

definition port_pclear :: "u32 \<Rightarrow> u32" where
  "port_pclear portsc =
     (let pclear = portsc AND NOT (XHCI_PORTSC_PED OR XHCI_PORTSC_PR);
          pclear = pclear AND NOT (push_bit XHCI_PORTSC_PLS_SHIFT XHCI_PORTSC_PLS_MASK)
      in pclear OR push_bit XHCI_PORTSC_PLS_SHIFT 1)"

definition port_status_change :: "'h usb_env \<Rightarrow> addr \<Rightarrow> u32 \<Rightarrow> 'h usb_state \<Rightarrow> 'h usb_state option" where
  "port_status_change E x p s = do {
     let (portsc, s) = xhci_read_opt E x (XHCI_OPT_PORTSC p) s;
     s \<leftarrow> (if portsc AND XHCI_PORTSC_CSC \<noteq> 0 then do {
             (_, f) \<leftarrow> fifo_write (port_evts (ctrls s x)) (Some (pc_event p portsc));
             Some (upd_xhci x (port_evts_update (\<lambda>_. f)) s) }
           else Some s);
     Some (xhci_write_opt E x (XHCI_OPT_PORTSC p) (port_pclear portsc) s) }"

text \<open>The \<^verbatim>\<open>switch\<close> on the type of an event. A queue that is full drops it.\<close>

definition handle_event :: "'h usb_env \<Rightarrow> addr \<Rightarrow> xhci_trb \<Rightarrow> 'h usb_state \<Rightarrow> 'h usb_state option" where
  "handle_event E x t s =
     (let type = TRB_TYPE (trb_control t) in
      if type = ER_TRANSFER then do {
        (_, f) \<leftarrow> fifo_write (xfer_evts (ctrls s x)) (Some (trb_bytes t));
        Some (upd_xhci x (xfer_evts_update (\<lambda>_. f)) s) }
      else if type = ER_COMMAND_COMPLETE then do {
        (_, f) \<leftarrow> fifo_write (cmds_evts (ctrls s x)) (Some (trb_bytes t));
        Some (upd_xhci x (cmds_evts_update (\<lambda>_. f)) s) }
      else if type = ER_PORT_STATUS_CHANGE
        then port_status_change E x (ucast (drop_bit 24 (trb_ptr t) AND 0xff) - 1) s
      else Some s)"

text \<open>What follows an event: \<open>dq\<close> and \<open>c\<close> are the local copies of index and cycle state.\<close>

definition next_event :: "'h usb_env \<Rightarrow> addr \<Rightarrow> u16 \<Rightarrow> u8 \<Rightarrow> 'h usb_state \<Rightarrow> u16 \<times> u8 \<times> 'h usb_state" where
  "next_event E x dq c s =
     (let dq = dq + 1; r = evts (ctrls s x);
          (dq, c, r) = (if ucast dq = trb_count r
             then let c = (if c = 0 then 1 else 0) in (0, c, r\<lparr>cs := ucast c\<rparr>) else (dq, c, r));
          r = r\<lparr>dequeue := ucast dq\<rparr>;
          s = upd_xhci x (evts_update (\<lambda>_. r)) s;
          a = VIRT_TO_PHYS (trbs_addr r + 16 * ucast dq);
          s = xhci_write_run E x (XHCI_IRS_ERDP_LO 0) (ucast (a AND 0xffffffff) OR push_bit 3 1) s;
          s = xhci_write_run E x (XHCI_IRS_ERDP_HI 0) (ucast (drop_bit 32 a)) s
      in (dq, c, post E s))"

partial_function (option) process_loop :: "'h usb_env \<Rightarrow> addr \<Rightarrow> u16 \<Rightarrow> u8 \<Rightarrow> 'h usb_state \<Rightarrow> 'h usb_state option" where
  "process_loop E x dq c s =
     (if length (trbs (evts (ctrls s x))) \<le> unat dq then None
      else let t = trbs (evts (ctrls s x)) ! unat dq in
      if trb_control t AND TRB_C \<noteq> ucast c then Some s
      else Option.bind (handle_event E x t s) (\<lambda>s.
        let (dq, c, s) = next_event E x dq c s in process_loop E x dq c s))"

definition xhci_process_events :: "'h usb_env \<Rightarrow> addr \<Rightarrow> 'h usb_state \<Rightarrow> 'h usb_state option" where
  "xhci_process_events E x s =
     process_loop E x (ucast (dequeue (evts (ctrls s x)))) (ucast (cs (evts (ctrls s x)))) s"

subsection \<open>Waiting for events and giving commands\<close>

text \<open>The queue that a task waits for.\<close>

datatype event_queue = Cmds | Xfer

fun queue_of :: "event_queue \<Rightarrow> xhci \<Rightarrow> fifo" where
  "queue_of Cmds c = cmds_evts c"
| "queue_of Xfer c = xfer_evts c"

fun set_queue :: "event_queue \<Rightarrow> fifo \<Rightarrow> xhci \<Rightarrow> xhci" where
  "set_queue Cmds f c = c\<lparr>cmds_evts := f\<rparr>"
| "set_queue Xfer f c = c\<lparr>xfer_evts := f\<rparr>"

text \<open>Sleep until the queue is not empty, at most \<open>n\<close> times: whether it is, and the state.\<close>

fun wait_event :: "'h usb_env \<Rightarrow> event_queue \<Rightarrow> addr \<Rightarrow> nat \<Rightarrow> 'h usb_state \<Rightarrow> bool \<times> 'h usb_state" where
  "wait_event E q x 0 s = (False, s)"
| "wait_event E q x (Suc n) s =
     (if \<not> fifo_empty (queue_of q (ctrls s x)) then (True, s)
      else let s = msleep E 1 s in if n = 0 then (False, s) else wait_event E q x n s)"

definition xhci_event_wait ::
  "'h usb_env \<Rightarrow> event_queue \<Rightarrow> addr \<Rightarrow> xhci_trb \<Rightarrow> nat \<Rightarrow> 'h usb_state \<Rightarrow> (u32 \<times> xhci_trb \<times> 'h usb_state) option" where
  "xhci_event_wait E q x t timeout s =
     (let (arrived, s) = wait_event E q x timeout s in
      if \<not> arrived then Some (CC_INVALID, t, s)
      else do {
        (_, r, f) \<leftarrow> fifo_read (queue_of q (ctrls s x)) True;
        let t = (case r of None \<Rightarrow> t | Some bs \<Rightarrow> trb_of_bytes bs);
        Some (drop_bit 24 (trb_status t) AND 0xff, t, upd_xhci x (set_queue q f) s) })"

definition xhci_cmd_submit :: "'h usb_env \<Rightarrow> addr \<Rightarrow> xhci_trb \<Rightarrow> 'h usb_state \<Rightarrow> (u32 \<times> xhci_trb \<times> 'h usb_state) option" where
  "xhci_cmd_submit E x t s = do {
     (t, r) \<leftarrow> xhci_trb_queue (cmds (ctrls s x)) t;
     let s = upd_xhci x (cmds_update (\<lambda>_. r)) s;
     let s = xhci_doorbell_ring E x 0 0 s;
     xhci_event_wait E Cmds x t 200 s }"

text \<open>The slot, or -1.\<close>

definition xhci_cmd_enable_slot :: "'h usb_env \<Rightarrow> addr \<Rightarrow> 'h usb_state \<Rightarrow> (int \<times> 'h usb_state) option" where
  "xhci_cmd_enable_slot E x s = do {
     (cc, t, s) \<leftarrow> xhci_cmd_submit E x (zero_trb\<lparr>trb_control := push_bit 10 CR_ENABLE_SLOT\<rparr>) s;
     Some (if cc \<noteq> CC_SUCCESS then -1 else uint (drop_bit 24 (trb_control t) AND 0xff), s) }"

definition xhci_cmd_disable_slot :: "'h usb_env \<Rightarrow> addr \<Rightarrow> u32 \<Rightarrow> 'h usb_state \<Rightarrow> (u32 \<times> 'h usb_state) option" where
  "xhci_cmd_disable_slot E x slt s = do {
     (cc, _, s) \<leftarrow> xhci_cmd_submit E x
       (zero_trb\<lparr>trb_control := push_bit 10 CR_DISABLE_SLOT OR push_bit 24 slt\<rparr>) s;
     Some (cc, s) }"

text \<open>The commands on an input context.\<close>

definition ctx_command :: "u32 \<Rightarrow> 'h usb_env \<Rightarrow> addr \<Rightarrow> u32 \<Rightarrow> addr \<Rightarrow> 'h usb_state \<Rightarrow> (u32 \<times> 'h usb_state) option" where
  "ctx_command cmd E x slt in_ctx s = do {
     (cc, _, s) \<leftarrow> xhci_cmd_submit E x
       (zero_trb\<lparr>trb_ptr := VIRT_TO_PHYS in_ctx, trb_control := push_bit 10 cmd OR push_bit 24 slt\<rparr>) s;
     Some (cc, s) }"

definition xhci_cmd_address_device ::
  "'h usb_env \<Rightarrow> addr \<Rightarrow> u32 \<Rightarrow> addr \<Rightarrow> 'h usb_state \<Rightarrow> (u32 \<times> 'h usb_state) option" where
  "xhci_cmd_address_device = ctx_command CR_ADDRESS_DEVICE"

definition xhci_cmd_configure_endpoint ::
  "'h usb_env \<Rightarrow> addr \<Rightarrow> u32 \<Rightarrow> addr \<Rightarrow> 'h usb_state \<Rightarrow> (u32 \<times> 'h usb_state) option" where
  "xhci_cmd_configure_endpoint = ctx_command CR_CONFIGURE_ENDPOINT"

definition xhci_cmd_evaluate_context ::
  "'h usb_env \<Rightarrow> addr \<Rightarrow> u32 \<Rightarrow> addr \<Rightarrow> 'h usb_state \<Rightarrow> (u32 \<times> 'h usb_state) option" where
  "xhci_cmd_evaluate_context = ctx_command CR_EVALUATE_CONTEXT"

subsection \<open>Entries as bytes\<close>

lemma trb_bytes_length [simp]: "length (trb_bytes t) = 16"
  by (simp add: trb_bytes_def)

lemma trb_of_bytes_trb_bytes [simp]: "trb_of_bytes (trb_bytes t) = t"
proof -
  have "unat (trb_ptr t) < 256 ^ 8" "unat (trb_status t) < 256 ^ 4" "unat (trb_control t) < 256 ^ 4"
    using unsigned_less [of "trb_ptr t"] unsigned_less [of "trb_status t"] unsigned_less [of "trb_control t"] by simp_all
  then show ?thesis by (cases t) (simp add: trb_of_bytes_def trb_bytes_def le_round)
qed

subsection \<open>What a ring of events holds\<close>

definition ring_ok :: "xhci_ring \<Rightarrow> bool" where
  "ring_ok r \<longleftrightarrow> length (trbs r) = unat (trb_count r) \<and> 0 < unat (trb_count r) \<and> unat (trb_count r) < 2 ^ 16 \<and>
     unat (dequeue r) < unat (trb_count r) \<and> (cs r = 0 \<or> cs r = 1)"

text \<open>
  Entry \<open>k\<close> from the index on is new when its cycle bit is the one that the driver expects there: the
  cycle state, or its opposite past the end of the ring. The new entries are those up to the first old one.
\<close>

definition ring_pos :: "xhci_ring \<Rightarrow> nat \<Rightarrow> nat" where
  "ring_pos r k = (unat (dequeue r) + k) mod length (trbs r)"

definition fresh :: "xhci_ring \<Rightarrow> nat \<Rightarrow> bool" where
  "fresh r k \<longleftrightarrow> trb_control (trbs r ! ring_pos r k) AND TRB_C =
     (if unat (dequeue r) + k < length (trbs r) then cs r else 1 - cs r)"

definition ready :: "xhci_ring \<Rightarrow> xhci_trb list" where
  "ready r = List.map (\<lambda>k. trbs r ! ring_pos r k) (takeWhile (fresh r) [0..<length (trbs r)])"

definition advance :: "xhci_ring \<Rightarrow> xhci_ring" where
  "advance r = (if unat (dequeue r) + 1 = length (trbs r) then r\<lparr>cs := 1 - cs r, dequeue := 0\<rparr>
     else r\<lparr>dequeue := dequeue r + 1\<rparr>)"

lemma ring_ok_dequeue: "ring_ok r \<Longrightarrow> unat (dequeue r + 1) = unat (dequeue r) + 1"
  by (simp add: ring_ok_def unat_word_ariths)

lemma advance_fields:
  assumes "ring_ok r"
  shows "ring_ok (advance r)" "trbs (advance r) = trbs r" "trbs_addr (advance r) = trbs_addr r"
    "unat (dequeue (advance r)) = (unat (dequeue r) + 1) mod length (trbs r)"
  using assms ring_ok_dequeue [OF assms] by (auto simp: advance_def ring_ok_def)

lemma ready_empty: "ring_ok r \<Longrightarrow> ready r = [] \<longleftrightarrow> \<not> fresh r 0"
  by (auto simp: ready_def ring_ok_def takeWhile_eq_Nil_iff)

lemma fresh_here: "ring_ok r \<Longrightarrow> fresh r 0 \<longleftrightarrow> trb_control (trbs r ! unat (dequeue r)) AND TRB_C = cs r"
  by (simp add: fresh_def ring_pos_def ring_ok_def)

lemma ready_advance:
  assumes ok: "ring_ok r" and f: "fresh r 0"
  shows "ready r = trbs r ! unat (dequeue r) # ready (advance r)"
proof -
  define n where "n = length (trbs r)"
  define d where "d = unat (dequeue r)"
  define r' where "r' = advance r"
  have n: "0 < n" "d < n" using ok by (auto simp: ring_ok_def n_def d_def)
  note A = advance_fields [OF ok]
  have t: "trbs r' = trbs r" "length (trbs r') = n" "unat (dequeue r') = (d + 1) mod n"
    using A by (simp_all add: r'_def n_def d_def)
  have c: "cs r' = (if d + 1 = n then 1 - cs r else cs r)" by (simp add: r'_def advance_def d_def n_def)
  have neg: "1 - (1 - cs r) = cs r" "1 - cs r \<noteq> cs r" using ok by (auto simp: ring_ok_def)
  have pos: "ring_pos r' k = ring_pos r (Suc k)" for k
    by (simp add: ring_pos_def t n_def [symmetric] d_def [symmetric]) (metis add_Suc_right mod_Suc_eq mod_add_left_eq add_Suc)
  have fr: "fresh r' k = fresh r (Suc k)" if "k < n - 1" for k
  proof (cases "d + 1 = n")
    case True
    moreover have "k < n" using that by simp
    ultimately show ?thesis using n by (simp add: fresh_def pos t c flip: n_def d_def)
  next
    case False
    then have "(d + 1) mod n = d + 1" using n by simp
    then show ?thesis using False by (simp add: fresh_def pos t c flip: n_def d_def)
  qed
  have last: "\<not> fresh r' (n - 1)"
  proof -
    have p: "ring_pos r' (n - 1) = d"
      using n by (simp only: pos) (simp add: ring_pos_def flip: n_def d_def)
    have b: "trb_control (trbs r ! d) AND TRB_C = cs r" using f fresh_here [OF ok] by (simp add: d_def)
    have "fresh r' (n - 1) \<longleftrightarrow> cs r = 1 - cs r"
    proof (cases "d + 1 = n")
      case True
      then show ?thesis unfolding fresh_def p using n by (simp add: b t c flip: n_def)
    next
      case False
      then have "(d + 1) mod n = d + 1" using n by simp
      then show ?thesis unfolding fresh_def p using False n by (simp add: b t c flip: n_def)
    qed
    then show ?thesis using neg(2) by simp
  qed
  have u: "[0..<n] = 0 # List.map Suc [0..<n - 1]" "[0..<n] = [0..<n - 1] @ [n - 1]"
    using n by (simp_all add: map_Suc_upt upt_conv_Cons flip: upt_Suc_append)
  have tw: "takeWhile (fresh r) [0..<n] = 0 # List.map Suc (takeWhile (fresh r') [0..<n])"
  proof -
    have "takeWhile (fresh r) (List.map Suc [0..<n - 1]) = List.map Suc (takeWhile (fresh r') [0..<n - 1])"
    proof -
      have "takeWhile (\<lambda>k. fresh r (Suc k)) [0..<n - 1] = takeWhile (fresh r') [0..<n - 1]"
        by (rule takeWhile_cong) (simp_all add: fr)
      then show ?thesis by (simp only: takeWhile_map comp_def)
    qed
    also have "takeWhile (fresh r') [0..<n - 1] = takeWhile (fresh r') [0..<n]"
      by (subst u(2)) (rule takeWhile_tail [where P = "fresh r'" and x = "n - 1" and l = "[]", OF last, symmetric])
    finally show ?thesis using f by (subst u(1)) simp
  qed
  have "ready r = trbs r ! ring_pos r 0 # List.map (\<lambda>k. trbs r ! ring_pos r (Suc k)) (takeWhile (fresh r') [0..<n])"
    by (simp add: ready_def tw comp_def flip: n_def)
  also have "\<dots> = trbs r ! d # ready r'"
    using n by (simp add: ready_def t pos) (simp add: ring_pos_def flip: n_def d_def)
  finally show ?thesis by (simp add: d_def r'_def)
qed

lemma ready_length: "length (ready r) \<le> length (trbs r)"
  using length_takeWhile_le [of "fresh r" "[0..<length (trbs r)]"] by (simp add: ready_def)

subsection \<open>The queues behind the event ring\<close>

lemma fifo_write_one:
  assumes "fifo_inv f" and "fifo_okay f it"
  shows "\<exists>st f'. fifo_write f (Some it) = Some (st, f') \<and> fifo_inv f' \<and> fifo_okay f' = fifo_okay f \<and>
    fifo_capacity f' = fifo_capacity f \<and> fifo_contents f' = take (fifo_capacity f) (fifo_contents f @ [it])"
proof (cases "length (fifo_contents f) < fifo_capacity f")
  case True
  then show ?thesis using fq.put_room [OF assms True] by auto
next
  case False
  then have "length (fifo_contents f) = fifo_capacity f" using fq.bounded [OF assms(1)] by simp
  then show ?thesis using fq.put_full [OF assms] assms(1) by simp
qed

lemma take_take_append [simp]: "take n (take n xs @ ys) = take n (xs @ ys)"
  by (cases "n \<le> length xs") simp_all

text \<open>A queue whose items have \<open>k\<close> bytes.\<close>

definition queue_ok :: "nat \<Rightarrow> fifo \<Rightarrow> bool" where
  "queue_ok k f \<longleftrightarrow> fifo_inv f \<and> fifo_okay f = (\<lambda>it. length it = k)"

definition holds_more :: "u8 list list \<Rightarrow> fifo \<Rightarrow> fifo \<Rightarrow> bool" where
  "holds_more its f f' \<longleftrightarrow> fifo_capacity f' = fifo_capacity f \<and>
     fifo_contents f' = take (fifo_capacity f) (fifo_contents f @ its)"

lemma holds_more_trans: "holds_more xs f f1 \<Longrightarrow> holds_more ys f1 f2 \<Longrightarrow> holds_more (xs @ ys) f f2"
  by (simp add: holds_more_def del: take_append)

lemma holds_more_Nil: "queue_ok k f \<Longrightarrow> holds_more [] f f"
  using fq.bounded [of f] by (simp add: holds_more_def queue_ok_def)

lemma queue_write:
  assumes "queue_ok k f" and "length it = k"
  shows "\<exists>st f'. fifo_write f (Some it) = Some (st, f') \<and> queue_ok k f' \<and> holds_more [it] f f'"
  using fifo_write_one [of f it] assms by (auto simp: queue_ok_def holds_more_def)

definition xhci_ok :: "xhci \<Rightarrow> bool" where
  "xhci_ok c \<longleftrightarrow> ring_ok (evts c) \<and> queue_ok 16 (xfer_evts c) \<and> queue_ok 16 (cmds_evts c) \<and> queue_ok 2 (port_evts c)"

text \<open>The events of a kind, as the queues take them.\<close>

definition of_type :: "u32 \<Rightarrow> xhci_trb list \<Rightarrow> u8 list list" where
  "of_type ty ts = List.map trb_bytes (List.filter (\<lambda>t. TRB_TYPE (trb_control t) = ty) ts)"

definition delivered :: "xhci_trb list \<Rightarrow> xhci \<Rightarrow> xhci \<Rightarrow> bool" where
  "delivered ts c c' \<longleftrightarrow> holds_more (of_type ER_TRANSFER ts) (xfer_evts c) (xfer_evts c') \<and>
     holds_more (of_type ER_COMMAND_COMPLETE ts) (cmds_evts c) (cmds_evts c') \<and> cmds c' = cmds c"

lemma delivered_trans: "delivered ts c c1 \<Longrightarrow> delivered us c1 c2 \<Longrightarrow> delivered (ts @ us) c c2"
  by (auto simp: delivered_def of_type_def intro: holds_more_trans)

lemma delivered_Nil: "xhci_ok c \<Longrightarrow> delivered [] c c"
  by (auto simp: delivered_def of_type_def xhci_ok_def intro: holds_more_Nil)

lemma reg_frame [simp]:
  "ctrls (xhci_write_opt E x r v s) = ctrls s" "ctrls (xhci_write_run E x r v s) = ctrls s"
  "ctrls (xhci_write_doorbell E x r v s) = ctrls s"
  by (simp_all add: xhci_write_opt_def xhci_write_run_def xhci_write_doorbell_def reg_write_def upd_hw_def)

lemma upd_xhci_ctrls [simp]: "ctrls (upd_xhci x f s) = (ctrls s)(x := f (ctrls s x))"
  by (simp add: upd_xhci_def)

lemmas event_types = ER_TRANSFER_def ER_COMMAND_COMPLETE_def ER_PORT_STATUS_CHANGE_def

lemma handle_event_delivers:
  assumes ok: "xhci_ok (ctrls s x)"
  shows "\<exists>s'. handle_event E x t s = Some s' \<and> xhci_ok (ctrls s' x) \<and> evts (ctrls s' x) = evts (ctrls s x) \<and>
    delivered [t] (ctrls s x) (ctrls s' x) \<and> (\<forall>y. y \<noteq> x \<longrightarrow> ctrls s' y = ctrls s y)"
proof -
  define c where "c = ctrls s x"
  have q: "queue_ok 16 (xfer_evts c)" "queue_ok 16 (cmds_evts c)" "queue_ok 2 (port_evts c)"
    using ok by (simp_all add: xhci_ok_def c_def)
  note N = holds_more_Nil [OF q(1)] holds_more_Nil [OF q(2)]
  consider "TRB_TYPE (trb_control t) = ER_TRANSFER" | "TRB_TYPE (trb_control t) = ER_COMMAND_COMPLETE"
    | "TRB_TYPE (trb_control t) = ER_PORT_STATUS_CHANGE"
    | "TRB_TYPE (trb_control t) \<notin> {ER_TRANSFER, ER_COMMAND_COMPLETE, ER_PORT_STATUS_CHANGE}" by blast
  then show ?thesis
  proof cases
    case 1
    obtain st f where "fifo_write (xfer_evts c) (Some (trb_bytes t)) = Some (st, f)" "queue_ok 16 f"
        "holds_more [trb_bytes t] (xfer_evts c) f"
      using queue_write [OF q(1), of "trb_bytes t"] by auto
    then show ?thesis using 1 ok N
      by (auto simp: handle_event_def Let_def xhci_ok_def delivered_def of_type_def event_types simp flip: c_def)
  next
    case 2
    obtain st f where "fifo_write (cmds_evts c) (Some (trb_bytes t)) = Some (st, f)" "queue_ok 16 f"
        "holds_more [trb_bytes t] (cmds_evts c) f"
      using queue_write [OF q(2), of "trb_bytes t"] by auto
    then show ?thesis using 2 ok N
      by (auto simp: handle_event_def Let_def xhci_ok_def delivered_def of_type_def event_types simp flip: c_def)
  next
    case 3
    define p where "p = (ucast (drop_bit 24 (trb_ptr t) AND 0xff) - 1 :: u32)"
    define w where "w = fst (xhci_read_opt E x (XHCI_OPT_PORTSC p) s)"
    obtain st f where "fifo_write (port_evts c) (Some (pc_event p w)) = Some (st, f)" "queue_ok 2 f"
      using queue_write [OF q(3), of "pc_event p w"] by (auto simp: pc_event_def)
    then show ?thesis using 3 ok N
      by (auto simp: handle_event_def port_status_change_def case_prod_unfold Let_def xhci_ok_def delivered_def
          of_type_def event_types w_def p_def c_def)
  next
    case 4
    then show ?thesis using ok N
      by (auto simp: handle_event_def Let_def delivered_def of_type_def event_types simp flip: c_def)
  qed
qed

text \<open>A controller that leaves the driver's data alone while its events are taken.\<close>

definition quiet :: "'h usb_env \<Rightarrow> bool" where
  "quiet E \<longleftrightarrow> (\<forall>s. ctrls (post E s) = ctrls s)"

lemma next_event_advances:
  assumes "quiet E" and ok: "ring_ok (evts (ctrls s x))"
  defines "r \<equiv> evts (ctrls s x)"
  shows "\<exists>s'. next_event E x (ucast (dequeue r)) (ucast (cs r)) s =
      (ucast (dequeue (advance r)), ucast (cs (advance r)), s') \<and>
    ctrls s' = (ctrls s)(x := (ctrls s x)\<lparr>evts := advance r\<rparr>)"
proof -
  define dq where "dq = (ucast (dequeue r) :: u16)"
  define c where "c = (ucast (cs r) :: u8)"
  have ok: "ring_ok r" using assms(2) by (simp add: r_def)
  then have b: "unat (dequeue r) + 1 < 2 ^ 16" by (simp add: ring_ok_def)
  have u: "unat dq = unat (dequeue r)" using b by (simp add: dq_def unsigned_ucast_eq take_bit_nat_eq_self)
  then have u1: "unat (dq + 1) = unat (dequeue r) + 1" using b by (simp add: unat_word_ariths)
  have e: "ucast (dq + 1) = trb_count r \<longleftrightarrow> unat (dequeue r) + 1 = length (trbs r)"
    using ok u1 b by (simp add: word_unat_eq_iff unsigned_ucast_eq take_bit_nat_eq_self ring_ok_def)
  have d: "ucast (dq + 1) = dequeue r + 1"
    using u1 b ring_ok_dequeue [OF ok] by (simp add: word_unat_eq_iff unsigned_ucast_eq take_bit_nat_eq_self)
  have d': "ucast (dequeue r + 1) = dq + 1" using u1 b ring_ok_dequeue [OF ok]
    by (simp add: word_unat_eq_iff unsigned_ucast_eq take_bit_nat_eq_self)
  have cc: "ucast (if c = 0 then 1 else 0 :: u8) = 1 - cs r" "ucast (1 - cs r) = (if c = 0 then 1 else 0 :: u8)"
    using ok by (auto simp: c_def ring_ok_def)
  define s2 where "s2 = snd (snd (next_event E x dq c s))"
  have q: "ctrls (post E s1) = ctrls s1" for s1 using assms(1) by (simp add: quiet_def)
  show ?thesis
  proof (cases "unat (dequeue r) + 1 = length (trbs r)")
    case True
    then have "advance r = r\<lparr>cs := 1 - cs r, dequeue := 0\<rparr>" by (simp add: advance_def)
    then show ?thesis
      using True e cc by (auto simp: next_event_def Let_def q simp flip: r_def dq_def c_def)
  next
    case False
    then have "advance r = r\<lparr>dequeue := dequeue r + 1\<rparr>" by (simp add: advance_def)
    then show ?thesis
      using False e d d' by (auto simp: next_event_def Let_def q simp flip: r_def dq_def c_def)
  qed
qed

lemma process_loop_delivers:
  assumes q: "quiet E" and "xhci_ok (ctrls s x)"
  defines "r \<equiv> evts (ctrls s x)"
  shows "\<exists>s'. process_loop E x (ucast (dequeue r)) (ucast (cs r)) s = Some s' \<and> xhci_ok (ctrls s' x) \<and>
    delivered (ready r) (ctrls s x) (ctrls s' x) \<and> ready (evts (ctrls s' x)) = [] \<and>
    trbs (evts (ctrls s' x)) = trbs r \<and>
    unat (dequeue (evts (ctrls s' x))) = (unat (dequeue r) + length (ready r)) mod length (trbs r) \<and>
    (\<forall>y. y \<noteq> x \<longrightarrow> ctrls s' y = ctrls s y)"
  using assms(2) unfolding r_def
proof (induction "ready (evts (ctrls s x))" arbitrary: s)
  case Nil
  define r where "r = evts (ctrls s x)"
  have ok: "ring_ok r" using Nil.prems by (simp add: xhci_ok_def r_def)
  then have old: "trb_control (trbs r ! unat (dequeue r)) AND TRB_C \<noteq> cs r"
    using Nil.hyps ready_empty [of r] fresh_here [of r] by (simp add: r_def)
  have u: "unat (ucast (dequeue r) :: u16) = unat (dequeue r)" "ucast (ucast (cs r) :: u8) = cs r"
      "unat (dequeue r) < length (trbs r)"
    using ok by (auto simp: ring_ok_def unsigned_ucast_eq take_bit_nat_eq_self)
  have "process_loop E x (ucast (dequeue r)) (ucast (cs r)) s = Some s"
    by (subst process_loop.simps) (use u old in \<open>simp add: Let_def flip: r_def\<close>)
  moreover have "delivered [] (ctrls s x) (ctrls s x)" using Nil.prems by (rule delivered_Nil)
  ultimately show ?case using Nil u by (auto simp: r_def)
next
  case (Cons t ts)
  define r where "r = evts (ctrls s x)"
  have ok: "ring_ok r" using Cons.prems by (simp add: xhci_ok_def r_def)
  have "ready r \<noteq> []" using Cons.hyps(2) by (simp add: r_def flip: Cons.hyps(2))
  then have f: "fresh r 0" using ready_empty [OF ok] by blast
  have t: "t = trbs r ! unat (dequeue r)" "ready (advance r) = ts"
    using ready_advance [OF ok f] Cons.hyps(2) by (simp_all add: r_def)
  have new: "trb_control t AND TRB_C = cs r" using f fresh_here [OF ok] t by simp
  have u: "unat (ucast (dequeue r) :: u16) = unat (dequeue r)" "ucast (ucast (cs r) :: u8) = cs r"
      "unat (dequeue r) < length (trbs r)"
    using ok by (auto simp: ring_ok_def unsigned_ucast_eq take_bit_nat_eq_self)
  obtain s1 where s1: "handle_event E x t s = Some s1" "xhci_ok (ctrls s1 x)" "evts (ctrls s1 x) = r"
      "delivered [t] (ctrls s x) (ctrls s1 x)" "\<forall>y. y \<noteq> x \<longrightarrow> ctrls s1 y = ctrls s y"
    using handle_event_delivers [OF Cons.prems, of E t] by (auto simp: r_def)
  obtain s2 where s2: "next_event E x (ucast (dequeue r)) (ucast (cs r)) s1 =
        (ucast (dequeue (advance r)), ucast (cs (advance r)), s2)"
      "ctrls s2 = (ctrls s1)(x := (ctrls s1 x)\<lparr>evts := advance r\<rparr>)"
    using next_event_advances [OF q, of s1 x] ok s1(3) by auto
  have ok2: "xhci_ok (ctrls s2 x)" "evts (ctrls s2 x) = advance r"
    using s1(2) s2(2) advance_fields(1) [OF ok] by (simp_all add: xhci_ok_def)
  have run: "process_loop E x (ucast (dequeue r)) (ucast (cs r)) s =
      process_loop E x (ucast (dequeue (advance r))) (ucast (cs (advance r))) s2"
    by (subst process_loop.simps) (use u new s1(1) s2(1) in \<open>simp add: Let_def flip: r_def t\<close>)
  have "delivered [] (ctrls s1 x) (ctrls s2 x)"
    using delivered_Nil [OF s1(2)] s2(2) by (simp add: delivered_def)
  then have d: "delivered [t] (ctrls s x) (ctrls s2 x)" using delivered_trans [OF s1(4)] by fastforce
  obtain s' where s': "process_loop E x (ucast (dequeue (advance r))) (ucast (cs (advance r))) s2 = Some s'"
      "xhci_ok (ctrls s' x)" "delivered ts (ctrls s2 x) (ctrls s' x)" "ready (evts (ctrls s' x)) = []"
      "trbs (evts (ctrls s' x)) = trbs r"
      "unat (dequeue (evts (ctrls s' x))) = (unat (dequeue (advance r)) + length ts) mod length (trbs r)"
      "\<forall>y. y \<noteq> x \<longrightarrow> ctrls s' y = ctrls s2 y"
    using Cons.hyps(1) [of s2] ok2 t(2) advance_fields [OF ok] by auto
  have "(unat (dequeue (advance r)) + length ts) mod length (trbs r) =
      (unat (dequeue r) + length (ready r)) mod length (trbs r)"
    using advance_fields(4) [OF ok] Cons.hyps(2) by (simp add: mod_simps r_def flip: Cons.hyps(2))
  moreover have "delivered (ready r) (ctrls s x) (ctrls s' x)"
    using delivered_trans [OF d s'(3)] Cons.hyps(2) by (simp add: r_def)
  ultimately show ?case using run s' s1(5) s2(2) by (auto simp: r_def)
qed


text \<open>A ring of four entries whose first two are new, and empty queues.\<close>

definition example_transfer :: xhci_trb where
  "example_transfer = \<lparr>trb_ptr = 0x1000, trb_status = 0x01000000, trb_control = push_bit 10 32 OR 1\<rparr>"

definition example_completion :: xhci_trb where
  "example_completion = \<lparr>trb_ptr = 0x2000, trb_status = 0x01000000, trb_control = push_bit 10 33 OR 1\<rparr>"

definition example_xhci :: xhci where
  "example_xhci = zero_xhci\<lparr>
     evts := \<lparr>trbs_addr = 0x3000, trbs = [example_transfer, example_completion, zero_trb, zero_trb], trb_count = 4,
       enqueue = 0, dequeue = 0, cs = 1\<rparr>,
     cmds_evts := init_fifo (replicate 32 0) 16 2, xfer_evts := init_fifo (replicate 32 0) 16 2,
     port_evts := init_fifo (replicate 4 0) 2 2\<rparr>"

definition example_env :: "unit usb_env" where
  "example_env = \<lparr>env_hw = \<lparr>io_in8 = \<lambda>_ h. (0, h), io_out8 = \<lambda>_ _ h. h, io_in32 = \<lambda>_ h. (0, h),
     io_out32 = \<lambda>_ _ h. h, mmio_read = \<lambda>_ h. (0, h), mmio_write = \<lambda>_ _ h. h\<rparr>, msleep = \<lambda>_ s. s, post = \<lambda>s. s\<rparr>"

lemma example_xhci_ok:
  "xhci_ok example_xhci" "ready (evts example_xhci) = [example_transfer, example_completion]" "quiet example_env"
proof -
  have q: "queue_ok 16 (init_fifo (replicate 32 0) 16 2)" "queue_ok 2 (init_fifo (replicate 4 0) 2 2)"
    by (auto simp: queue_ok_def fifo_inv_def fifo_okay_def init_fifo_def to_int32_def fun_eq_iff)
  show "xhci_ok example_xhci" using q by (simp add: xhci_ok_def example_xhci_def ring_ok_def)
  show "ready (evts example_xhci) = [example_transfer, example_completion]"
    by (simp add: example_xhci_def ready_def fresh_def ring_pos_def example_transfer_def example_completion_def
        zero_trb_def TRB_C_def upt_rec)
  show "quiet example_env" by (simp add: quiet_def example_env_def)
qed


subsection \<open>Waiting\<close>

text \<open>The state after the waiting task has slept \<open>k\<close> times.\<close>

fun slept :: "'h usb_env \<Rightarrow> nat \<Rightarrow> 'h usb_state \<Rightarrow> 'h usb_state" where
  "slept E 0 s = s"
| "slept E (Suc k) s = slept E k (msleep E 1 s)"

lemma wait_event_arrives:
  assumes "k < n" and "\<not> fifo_empty (queue_of q (ctrls (slept E k s) x))"
    and "\<forall>j < k. fifo_empty (queue_of q (ctrls (slept E j s) x))"
  shows "wait_event E q x n s = (True, slept E k s)"
  using assms
proof (induction n arbitrary: k s)
  case (Suc n)
  show ?case
  proof (cases k)
    case 0
    then show ?thesis using Suc.prems by simp
  next
    case (Suc k')
    then have e: "fifo_empty (queue_of q (ctrls s x))" using Suc.prems(3) by (metis slept.simps(1) zero_less_Suc)
    have "\<forall>j < k'. fifo_empty (queue_of q (ctrls (slept E j (msleep E 1 s)) x))"
    proof (intro allI impI)
      fix j assume "j < k'"
      then have "Suc j < k" using Suc by simp
      then show "fifo_empty (queue_of q (ctrls (slept E j (msleep E 1 s)) x))" using Suc.prems(3) by fastforce
    qed
    then have "wait_event E q x n (msleep E 1 s) = (True, slept E k' (msleep E 1 s))"
      using Suc.IH [of k' "msleep E 1 s"] Suc.prems(1,2) Suc by simp
    then show ?thesis using e Suc Suc.prems(1) by (simp add: Let_def)
  qed
qed simp

lemma wait_event_timeout:
  assumes "\<forall>j < n. fifo_empty (queue_of q (ctrls (slept E j s) x))"
  shows "wait_event E q x n s = (False, slept E n s)"
  using assms
proof (induction n arbitrary: s)
  case (Suc n)
  have "fifo_empty (queue_of q (ctrls (slept E 0 s) x))" using Suc.prems by blast
  moreover have "\<forall>j < n. fifo_empty (queue_of q (ctrls (slept E j (msleep E 1 s)) x))"
  proof (intro allI impI)
    fix j assume "j < n"
    then have "Suc j < Suc n" by simp
    then show "fifo_empty (queue_of q (ctrls (slept E j (msleep E 1 s)) x))" using Suc.prems by fastforce
  qed
  ultimately show ?case using Suc.IH [of "msleep E 1 s"] by (simp add: Let_def)
qed simp

lemma queue_of_set [simp]: "queue_of q (set_queue q f c) = f"
  by (cases q) simp_all


text \<open>An environment in which a completion arrives during the first sleep.\<close>

definition completing_env :: "unit usb_env" where
  "completing_env = example_env\<lparr>msleep := \<lambda>_ s. case xhci_process_events example_env 0x9000 s of None \<Rightarrow> s | Some s' \<Rightarrow> s'\<rparr>"


subsection \<open>Filling a ring\<close>

fun queue_all :: "xhci_ring \<Rightarrow> xhci_trb list \<Rightarrow> xhci_ring option" where
  "queue_all r [] = Some r"
| "queue_all r (t # ts) = do { (_, r) \<leftarrow> xhci_trb_queue r t; queue_all r ts }"

lemma queue_all_append: "queue_all r (ts @ us) = Option.bind (queue_all r ts) (\<lambda>r. queue_all r us)"
  by (induction ts arbitrary: r) (auto split: Option.bind_split)

text \<open>A ring of \<open>n\<close> entries as \<^verbatim>\<open>configure_xhci\<close> and \<^verbatim>\<open>xhci_alloc_pipe\<close> set it up, and an
  entry as the controller finds it.\<close>

definition new_ring :: "addr \<Rightarrow> nat \<Rightarrow> xhci_ring" where
  "new_ring a n = \<lparr>trbs_addr = a, trbs = replicate n zero_trb, trb_count = word_of_nat n, enqueue = 0, dequeue = 0, cs = 1\<rparr>"

definition given :: "xhci_trb \<Rightarrow> xhci_trb" where
  "given t = t\<lparr>trb_control := trb_control t OR 1\<rparr>"

definition link_trb :: xhci_trb where
  "link_trb = \<lparr>trb_ptr = 0, trb_status = 0, trb_control = (TRB_LK_TC OR 1) OR push_bit 10 TR_LINK\<rparr>"

lemma queue_step:
  assumes "k < n" and "n < 2 ^ 32"
  shows "xhci_trb_queue \<lparr>trbs_addr = a, trbs = List.map given ts @ replicate (Suc n - length ts) zero_trb,
      trb_count = word_of_nat (Suc n), enqueue = word_of_nat k, dequeue = 0, cs = 1\<rparr> t =
    (if length ts = k then Some (given t,
       if Suc k = n then \<lparr>trbs_addr = a, trbs = List.map given (ts @ [t]) @ [link_trb],
         trb_count = word_of_nat (Suc n), enqueue = 0, dequeue = 0, cs = 0\<rparr>
       else \<lparr>trbs_addr = a, trbs = List.map given (ts @ [t]) @ replicate (n - length ts) zero_trb,
         trb_count = word_of_nat (Suc n), enqueue = word_of_nat (Suc k), dequeue = 0, cs = 1\<rparr>)
     else xhci_trb_queue \<lparr>trbs_addr = a, trbs = List.map given ts @ replicate (Suc n - length ts) zero_trb,
      trb_count = word_of_nat (Suc n), enqueue = word_of_nat k, dequeue = 0, cs = 1\<rparr> t)"
proof (cases "length ts = k")
  case True
  define e where "e = (word_of_nat k :: u32)"
  have u: "unat e = k" "unat (e + 1) = Suc k"
    using assms by (simp_all add: e_def unat_of_nat unat_word_ariths)
  have n: "unat (word_of_nat (Suc n) - 1 :: u64) = n" using assms by (simp add: unat_of_nat)
  have w: "ucast (e + 1) = (word_of_nat (Suc n) - 1 :: u64) \<longleftrightarrow> Suc k = n"
    using u n assms by (simp only: word_unat_eq_iff) (simp add: unsigned_ucast_eq take_bit_nat_eq_self [of "Suc k" 64])
  have s: "e + 1 = word_of_nat (Suc k)" by (simp add: e_def)
  have r: "replicate (Suc n - k) zero_trb = zero_trb # replicate (n - k) zero_trb"
    using assms by (simp add: Suc_diff_le flip: replicate_Suc)
  have l: "replicate (n - k) zero_trb = [zero_trb]" if "Suc k = n" using that by auto
  show ?thesis
    using True assms u w r l
    by (auto simp: xhci_trb_queue_def Let_def given_def s nth_append list_update_append link_trb_def zero_trb_def
        simp flip: e_def)
qed simp

lemma queue_fill:
  assumes "n < 2 ^ 32" and "length ts \<le> n"
  shows "queue_all (new_ring a (Suc n)) ts = Some (if 0 < n \<and> length ts = n
    then \<lparr>trbs_addr = a, trbs = List.map given ts @ [link_trb], trb_count = word_of_nat (Suc n),
      enqueue = 0, dequeue = 0, cs = 0\<rparr>
    else \<lparr>trbs_addr = a, trbs = List.map given ts @ replicate (Suc n - length ts) zero_trb,
      trb_count = word_of_nat (Suc n), enqueue = word_of_nat (length ts), dequeue = 0, cs = 1\<rparr>)"
  using assms(2)
proof (induction ts rule: rev_induct)
  case Nil
  then show ?case by (auto simp: new_ring_def)
next
  case (snoc t ts)
  then have "length ts < n" by simp
  then show ?case
    using snoc.IH queue_step [OF _ assms(1), of "length ts" a ts t]
    by (cases "n = 0") (auto simp: queue_all_append Suc_diff_le)
qed

text \<open>The first entries that are queued on a new ring are found there in order, with the cycle bit set,
  and the rest is untouched. The last place is for the link back to the start: it is written when the ring
  is full, without an address, so that the controller is sent to address 0.\<close>

theorem xhci_trb_queue_fills:
  assumes "0 < n" and "n < 2 ^ 32" and "length ts \<le> n"
  shows "\<exists>r. queue_all (new_ring a (Suc n)) ts = Some r \<and>
    take n (trbs r) = List.map given ts @ replicate (n - length ts) zero_trb \<and>
    (if length ts = n then trbs r ! n = link_trb \<and> enqueue r = 0 \<and> cs r = 0
     else trbs r ! n = zero_trb \<and> unat (enqueue r) = length ts \<and> cs r = 1)"
proof (cases "length ts = n")
  case True
  then show ?thesis using queue_fill [OF assms(2,3), of a] assms(1) by (simp add: nth_append)
next
  case False
  then have l: "length ts < n" using assms(3) by simp
  moreover have "replicate (Suc n - length ts) zero_trb = replicate (n - length ts) zero_trb @ [zero_trb]"
    using l by (simp add: Suc_diff_le replicate_append_same)
  ultimately show ?thesis using queue_fill [OF assms(2,3), of a] assms(2) by (simp add: nth_append unat_of_nat)
qed

lemma xhci_trb_queue_fills_witness:
  "\<exists>r. queue_all (new_ring 0x4000 16) (replicate 15 (zero_trb\<lparr>trb_control := push_bit 10 CR_ENABLE_SLOT\<rparr>)) = Some r \<and>
    trb_ptr (trbs r ! 15) = 0 \<and> trb_control (trbs r ! 15) = 0x1803 \<and> cs r = 0"
  using xhci_trb_queue_fills [of 15 "replicate 15 (zero_trb\<lparr>trb_control := push_bit 10 CR_ENABLE_SLOT\<rparr>)" "0x4000"]
  by (auto simp: link_trb_def TRB_LK_TC_def TR_LINK_def)

end
