(* ===== verification/UsbDesc.thy ===== *)
theory UsbDesc
  imports Xhci
begin

text \<open>
  Of \<^verbatim>\<open>device/usb/service/usb.c\<close>: descriptors of devices and what the driver computes from them.
  Descriptors are packed records of bytes in \<open>usb_mem\<close>.
\<close>

record usb_endpoint_descriptor =
  bEndpointAddress :: u8
  bmAttributes :: u8
  wMaxPacketSize :: u16
  bInterval :: u8

record usb_ctrl_request =
  bRequestType :: u8
  bRequest :: u8
  wValue :: u16
  wIndex :: u16
  wLength :: u16

definition USB_DT_INTERFACE :: u8 where "USB_DT_INTERFACE = 0x04"
definition USB_DT_ENDPOINT :: u8 where "USB_DT_ENDPOINT = 0x05"
definition USB_ENDPOINT_NUMBER_MASK :: u8 where "USB_ENDPOINT_NUMBER_MASK = 0x0f"
definition USB_ENDPOINT_DIR_MASK :: u8 where "USB_ENDPOINT_DIR_MASK = 0x80"
definition USB_ENDPOINT_XFERTYPE_MASK :: u8 where "USB_ENDPOINT_XFERTYPE_MASK = 0x03"
definition USB_ENDPOINT_XFER_CONTROL :: u8 where "USB_ENDPOINT_XFER_CONTROL = 0"
definition USB_ENDPOINT_XFER_INT :: u8 where "USB_ENDPOINT_XFER_INT = 3"
definition USB_DIR_IN :: u8 where "USB_DIR_IN = 0x80"

definition speed_to_ctrl_size :: "u8 \<Rightarrow> int" where
  "speed_to_ctrl_size sp =
     (if sp = USB_FULLSPEED \<or> sp = USB_LOWSPEED then 8
      else if sp = USB_HIGHSPEED then 64
      else if sp = USB_SUPERSPEED then 512 else -1)"

definition usb_add_freelist :: "addr \<Rightarrow> 'h usb_state \<Rightarrow> 'h usb_state" where
  "usb_add_freelist p s =
     (if p = NULL then s
      else let cntl = ctrl (pipes s p);
               s = upd_pipe p (ctrl_update (\<lambda>_. freelist (ctrls s cntl))) s
           in upd_xhci cntl (freelist_update (\<lambda>_. p)) s)"

definition usb_desc2pipe :: "addr \<Rightarrow> addr \<Rightarrow> usb_endpoint_descriptor \<Rightarrow> 'h usb_state \<Rightarrow> 'h usb_state" where
  "usb_desc2pipe p d epdesc s =
     (let dev = usb_devs s d; c = hub_ctrl (hubs s (hub dev)) in
      upd_pipe p (\<lambda>q. q\<lparr>ctrl := c, pipe_type := usb_type (ctrls s c),
        ep := bEndpointAddress epdesc AND USB_ENDPOINT_NUMBER_MASK, pipe_dev_addr := dev_addr dev,
        pipe_speed := speed dev, max_packet := wMaxPacketSize epdesc,
        ep_type := bmAttributes epdesc AND USB_ENDPOINT_XFERTYPE_MASK\<rparr>) s)"

text \<open>One halving step of \<^verbatim>\<open>usb_get_period\<close>.\<close>

definition halve :: "nat \<Rightarrow> u8 \<times> int \<Rightarrow> u8 \<times> int" where
  "halve k = (\<lambda>(period, ret). if drop_bit k period \<noteq> 0 then (drop_bit k period, ret + int k) else (period, ret))"

definition usb_get_period :: "usb_device \<Rightarrow> usb_endpoint_descriptor \<Rightarrow> int" where
  "usb_get_period dev epdesc =
     (let period = bInterval epdesc in
      if speed dev \<noteq> USB_HIGHSPEED
      then let (period, ret) = halve 2 (halve 4 (halve 8 (period, 0)));
               ret = (if drop_bit 1 period \<noteq> 0 then ret + 1 else ret)
           in if period = 0 then 0 else ret
      else if period \<le> 4 then 0 else uint period - 4)"

text \<open>
  The walk over the descriptors behind an interface, from \<open>a\<close> to \<open>e\<close>: \<open>Some None\<close> is the null
  pointer.
\<close>

partial_function (option) find_desc :: "(addr \<Rightarrow> u8) \<Rightarrow> addr \<Rightarrow> u8 \<Rightarrow> u8 \<Rightarrow> addr \<Rightarrow> addr option option" where
  "find_desc mm e type dir a =
     (if a \<ge> e then Some None
      else if mm (a + 1) = USB_DT_INTERFACE then Some None
      else if mm (a + 1) = USB_DT_ENDPOINT \<and> mm (a + 2) AND USB_ENDPOINT_DIR_MASK = dir \<and>
          mm (a + 3) AND USB_ENDPOINT_XFERTYPE_MASK = type
        then Some (Some a)
      else find_desc mm e type dir (a + ucast (mm a)))"

definition usb_find_desc :: "addr \<Rightarrow> u8 \<Rightarrow> u8 \<Rightarrow> 'h usb_state \<Rightarrow> addr option option" where
  "usb_find_desc d type dir s =
     (let dev = usb_devs s d in find_desc (usb_mem s) (iface dev + word_of_int (imax dev)) type dir (iface dev + 9))"

subsection \<open>The period of an interrupt endpoint\<close>

lemma take_bit_u8: "8 \<le> n \<Longrightarrow> take_bit n (unat (b :: u8)) = unat b"
proof -
  assume "8 \<le> n"
  then have "(2 :: nat) ^ 8 \<le> 2 ^ n" by (intro power_increasing) simp_all
  then show ?thesis using unat_less_256 [of b] by (intro take_bit_nat_eq_self) simp
qed

lemma halve_unat:
  "halve k (p, r) = (q, t) \<Longrightarrow>
    (2 ^ k \<le> unat p \<and> unat q = unat p div 2 ^ k \<and> t = r + int k) \<or> (unat p < 2 ^ k \<and> q = p \<and> t = r)"
  for p q :: u8
proof -
  have d: "unat (drop_bit k p) = unat p div 2 ^ k" by (simp add: unsigned_drop_bit_eq take_bit_u8) (simp add: drop_bit_eq_div)
  then have "drop_bit k p = 0 \<longleftrightarrow> unat p < 2 ^ k" by (simp add: word_unat_eq_iff div_eq_0_iff)
  then show "halve k (p, r) = (q, t) \<Longrightarrow>
    (2 ^ k \<le> unat p \<and> unat q = unat p div 2 ^ k \<and> t = r + int k) \<or> (unat p < 2 ^ k \<and> q = p \<and> t = r)"
    using d by (auto simp: halve_def not_less split: if_splits)
qed

text \<open>Except for high-speed devices the result is the logarithm of the interval, rounded down.\<close>

theorem usb_get_period_log:
  assumes "speed dev \<noteq> USB_HIGHSPEED" and "bInterval epdesc \<noteq> 0"
  shows "\<exists>n. usb_get_period dev epdesc = int n \<and> 2 ^ n \<le> unat (bInterval epdesc) \<and> unat (bInterval epdesc) < 2 ^ (n + 1)"
proof -
  define p where "p = bInterval epdesc"
  have p: "0 < unat p" "unat p < 256" using assms(2) unsigned_less [of p] by (simp_all add: p_def unat_gt_0)
  obtain p1 r1 where 1: "halve 8 (p, 0) = (p1, r1)" by (cases "halve 8 (p, 0)")
  obtain p2 r2 where 2: "halve 4 (p1, r1) = (p2, r2)" by (cases "halve 4 (p1, r1)")
  obtain p3 r3 where 3: "halve 2 (p2, r2) = (p3, r3)" by (cases "halve 2 (p2, r2)")
  have h1: "p1 = p" "r1 = 0" using halve_unat [OF 1] p by auto
  have h2: "(16 \<le> unat p \<and> unat p2 = unat p div 16 \<and> r2 = 4) \<or> (unat p < 16 \<and> p2 = p \<and> r2 = 0)"
    using halve_unat [OF 2] h1 by auto
  have h3: "(4 \<le> unat p2 \<and> unat p3 = unat p2 div 4 \<and> r3 = r2 + 2) \<or> (unat p2 < 4 \<and> p3 = p2 \<and> r3 = r2)"
    using halve_unat [OF 3] by auto
  have "unat (drop_bit 1 p3) = unat p3 div 2" by (simp add: unsigned_drop_bit_eq take_bit_u8) (simp add: drop_bit_eq_div)
  then have h4: "drop_bit 1 p3 \<noteq> 0 \<longleftrightarrow> 2 \<le> unat p3" by (simp add: word_unat_eq_iff div_eq_0_iff) linarith
  have p3: "0 < unat p3" using h2 h3 p(1) by (elim disjE conjE) simp_all
  have res: "usb_get_period dev epdesc = (if 2 \<le> unat p3 then r3 + 1 else r3)"
    using assms(1) h1 1 2 3 h4 p3 by (simp add: usb_get_period_def unat_gt_0 flip: p_def)
  have 4: "(16 \<le> unat p \<and> 16 * unat p2 \<le> unat p \<and> unat p < 16 * unat p2 + 16 \<and> r2 = 4) \<or>
      (unat p < 16 \<and> unat p2 = unat p \<and> r2 = 0)" using h2 by auto
  have 2: "(4 \<le> unat p2 \<and> 4 * unat p3 \<le> unat p2 \<and> unat p2 < 4 * unat p3 + 4 \<and> r3 = r2 + 2) \<or>
      (unat p2 < 4 \<and> unat p3 = unat p2 \<and> r3 = r2)" using h3 by auto
  define e where "e = (if 2 \<le> unat p3 then 1 else 0 :: nat)"
  define n where "n = (if 16 \<le> unat p then 4 else 0) + (if 4 \<le> unat p2 then 2 else 0) + e"
  have "usb_get_period dev epdesc = int n" using 4 2 by (auto simp: res n_def e_def)
  moreover have "2 ^ n \<le> unat p \<and> unat p < 2 ^ (n + 1)"
    using 4 2 p p3 by (elim disjE conjE; cases "2 \<le> unat p3") (simp_all add: n_def e_def)
  ultimately show ?thesis by (auto simp: p_def)
qed

lemma usb_get_period_log_witness:
  "\<exists>n. usb_get_period \<lparr>hub = 0, defpipe = 0, port = 0, config = 0, iface = 0, imax = 0, speed = 0, dev_addr = 1\<rparr>
      \<lparr>bEndpointAddress = 0x81, bmAttributes = 3, wMaxPacketSize = 8, bInterval = 10\<rparr> = int n \<and>
    2 ^ n \<le> (10 :: nat) \<and> (10 :: nat) < 2 ^ (n + 1)"
  using usb_get_period_log [of "\<lparr>hub = 0, defpipe = 0, port = 0, config = 0, iface = 0, imax = 0, speed = 0, dev_addr = 1\<rparr>"
      "\<lparr>bEndpointAddress = 0x81, bmAttributes = 3, wMaxPacketSize = 8, bInterval = 10\<rparr>"]
  by (simp add: USB_HIGHSPEED_def)

subsection \<open>Searching an endpoint\<close>

text \<open>The position of descriptor \<open>k\<close>, and whether the search goes on there.\<close>

fun desc_at :: "(addr \<Rightarrow> u8) \<Rightarrow> addr \<Rightarrow> nat \<Rightarrow> addr" where
  "desc_at mm a 0 = a"
| "desc_at mm a (Suc k) = desc_at mm (a + ucast (mm a)) k"

definition wanted :: "(addr \<Rightarrow> u8) \<Rightarrow> u8 \<Rightarrow> u8 \<Rightarrow> addr \<Rightarrow> bool" where
  "wanted mm type dir a \<longleftrightarrow> mm (a + 1) = USB_DT_ENDPOINT \<and> mm (a + 2) AND USB_ENDPOINT_DIR_MASK = dir \<and>
     mm (a + 3) AND USB_ENDPOINT_XFERTYPE_MASK = type"

definition skipped :: "(addr \<Rightarrow> u8) \<Rightarrow> addr \<Rightarrow> u8 \<Rightarrow> u8 \<Rightarrow> addr \<Rightarrow> bool" where
  "skipped mm e type dir a \<longleftrightarrow> a < e \<and> mm (a + 1) \<noteq> USB_DT_INTERFACE \<and> \<not> wanted mm type dir a"

lemma find_desc_step:
  "find_desc mm e type dir a = (if skipped mm e type dir a then find_desc mm e type dir (a + ucast (mm a))
     else Some (if a < e \<and> mm (a + 1) \<noteq> USB_DT_INTERFACE then Some a else None))"
  by (subst find_desc.simps) (auto simp: skipped_def wanted_def not_less USB_DT_INTERFACE_def USB_DT_ENDPOINT_def)

text \<open>A descriptor of length 0 that is not the one searched for holds the search up forever.\<close>

lemma find_desc_stuck:
  assumes "skipped mm e type dir a" and "mm a = 0"
  shows "find_desc mm e type dir a = None"
proof -
  have "find_desc mm' e' type' dir' a' = Some r \<Longrightarrow> mm' = mm \<Longrightarrow> e' = e \<Longrightarrow> type' = type \<Longrightarrow> dir' = dir \<Longrightarrow> a' = a \<Longrightarrow> False"
    for mm' e' type' dir' a' r
  proof (induction rule: find_desc.raw_induct [rotated, consumes 1, case_names step])
    case (step f mm' e' type' dir' a' r)
    show ?case
      using step.hyps step.IH step.prems assms
      by (auto simp: skipped_def wanted_def not_less split: if_splits)
  qed
  then show ?thesis by (metis option.exhaust)
qed

text \<open>
  \<^verbatim>\<open>usb_find_desc\<close> returns exactly when the walk meets no descriptor of length 0 before it stops,
  and then it finds the first endpoint wanted of the interface.
\<close>

theorem find_desc_returns:
  assumes e: "unat e \<le> 2 ^ 64 - 256"
  shows "if \<exists>k. (\<forall>j \<le> k. skipped mm e type dir (desc_at mm a j)) \<and> mm (desc_at mm a k) = 0
    then find_desc mm e type dir a = None
    else \<exists>k. (\<forall>j < k. skipped mm e type dir (desc_at mm a j)) \<and> \<not> skipped mm e type dir (desc_at mm a k) \<and>
      find_desc mm e type dir a = Some (if desc_at mm a k < e \<and> mm (desc_at mm a k + 1) \<noteq> USB_DT_INTERFACE
        then Some (desc_at mm a k) else None)"
proof (induction "unat e - unat a" arbitrary: a rule: less_induct)
  case less
  let ?sk = "\<lambda>a j. skipped mm e type dir (desc_at mm a j)"
  show ?case
  proof (cases "skipped mm e type dir a")
    case False
    then have "\<nexists>k. (\<forall>j \<le> k. ?sk a j) \<and> mm (desc_at mm a k) = 0" by (metis desc_at.simps(1) le0)
    moreover have "\<exists>k. (\<forall>j < k. ?sk a j) \<and> \<not> ?sk a k \<and>
      find_desc mm e type dir a = Some (if desc_at mm a k < e \<and> mm (desc_at mm a k + 1) \<noteq> USB_DT_INTERFACE
        then Some (desc_at mm a k) else None)"
      using False find_desc_step [of mm e type dir a] by (intro exI [of _ 0]) simp
    ultimately show ?thesis by (simp only: if_False)
  next
    case True
    show ?thesis
    proof (cases "mm a = 0")
      case z: True
      have "(\<forall>j \<le> 0. ?sk a j) \<and> mm (desc_at mm a 0) = 0" using True z by simp
      then show ?thesis using find_desc_stuck [OF True z] by metis
    next
      case nz: False
      define b where "b = a + ucast (mm a)"
      have "unat a < unat e" using True by (simp add: skipped_def word_less_nat_alt)
      moreover have "unat (ucast (mm a) :: addr) = unat (mm a)" "unat (mm a) < 256" "0 < unat (mm a)"
        using nz unat_less_256 [of "mm a"] by (simp_all add: unsigned_ucast_eq take_bit_u8 unat_gt_0)
      ultimately have "unat b = unat a + unat (mm a)" "unat e - unat b < unat e - unat a"
        using e by (simp_all add: b_def unat_word_ariths)
      then have IH: "if \<exists>k. (\<forall>j \<le> k. ?sk b j) \<and> mm (desc_at mm b k) = 0 then find_desc mm e type dir b = None
        else \<exists>k. (\<forall>j < k. ?sk b j) \<and> \<not> ?sk b k \<and> find_desc mm e type dir b =
          Some (if desc_at mm b k < e \<and> mm (desc_at mm b k + 1) \<noteq> USB_DT_INTERFACE then Some (desc_at mm b k) else None)"
        by (intro less.hyps) simp
      have run: "find_desc mm e type dir a = find_desc mm e type dir b"
        using find_desc_step [of mm e type dir a] True by (simp add: b_def)
      have S: "desc_at mm a (Suc k) = desc_at mm b k" for k by (simp add: b_def)
      have z: "desc_at mm a 0 = a" by simp
      have st: "(\<exists>k. (\<forall>j \<le> k. ?sk a j) \<and> mm (desc_at mm a k) = 0) \<longleftrightarrow> (\<exists>k. (\<forall>j \<le> k. ?sk b j) \<and> mm (desc_at mm b k) = 0)"
      proof
        assume "\<exists>k. (\<forall>j \<le> k. ?sk a j) \<and> mm (desc_at mm a k) = 0"
        then obtain k where k: "\<forall>j \<le> k. ?sk a j" "mm (desc_at mm a k) = 0" by blast
        then obtain k' where "k = Suc k'" using nz z by (cases k) auto
        then show "\<exists>k. (\<forall>j \<le> k. ?sk b j) \<and> mm (desc_at mm b k) = 0" using k S by (metis Suc_le_mono)
      next
        assume "\<exists>k. (\<forall>j \<le> k. ?sk b j) \<and> mm (desc_at mm b k) = 0"
        then obtain k where k: "\<forall>j \<le> k. ?sk b j" "mm (desc_at mm b k) = 0" by blast
        have "?sk a j" if "j \<le> Suc k" for j using that k(1) True S z by (cases j) auto
        then show "\<exists>k. (\<forall>j \<le> k. ?sk a j) \<and> mm (desc_at mm a k) = 0" using k(2) S by metis
      qed
      show ?thesis
      proof (cases "\<exists>k. (\<forall>j \<le> k. ?sk b j) \<and> mm (desc_at mm b k) = 0")
        case True
        then show ?thesis using IH st run by simp
      next
        case no: False
        then obtain k where k: "\<forall>j < k. ?sk b j" "\<not> ?sk b k" "find_desc mm e type dir b =
          Some (if desc_at mm b k < e \<and> mm (desc_at mm b k + 1) \<noteq> USB_DT_INTERFACE then Some (desc_at mm b k) else None)"
          using IH unfolding if_not_P [OF no] by blast
        have "?sk a j" if "j < Suc k" for j using that k(1) True S z by (cases j) auto
        then have "\<exists>k. (\<forall>j < k. ?sk a j) \<and> \<not> ?sk a k \<and> find_desc mm e type dir a =
          Some (if desc_at mm a k < e \<and> mm (desc_at mm a k + 1) \<noteq> USB_DT_INTERFACE then Some (desc_at mm a k) else None)"
          using k run S by (intro exI [of _ "Suc k"]) simp
        then show ?thesis using no st by (simp only: if_False)
      qed
    qed
  qed
qed

text \<open>A configuration with a report descriptor and one interrupt endpoint.\<close>

definition example_desc :: "addr \<Rightarrow> u8" where
  "example_desc a = (let bs = [9, 0x21, 0, 0, 0, 0, 0, 0, 0, 7, 5, 0x81, 3, 8, 0, 10] in
     if unat a - 0x100 < length bs then bs ! (unat a - 0x100) else 0)"

lemma find_desc_returns_witness:
  "find_desc example_desc 0x110 USB_ENDPOINT_XFER_INT USB_DIR_IN 0x100 = Some (Some 0x109)"
proof -
  have at: "desc_at example_desc 0x100 0 = 0x100" "desc_at example_desc 0x100 1 = 0x109"
    by (simp_all add: example_desc_def)
  have sk: "skipped example_desc 0x110 USB_ENDPOINT_XFER_INT USB_DIR_IN 0x100"
      "\<not> skipped example_desc 0x110 USB_ENDPOINT_XFER_INT USB_DIR_IN 0x109"
    by (simp_all add: skipped_def wanted_def example_desc_def USB_DT_INTERFACE_def USB_DT_ENDPOINT_def
        USB_ENDPOINT_DIR_MASK_def USB_ENDPOINT_XFERTYPE_MASK_def USB_ENDPOINT_XFER_INT_def USB_DIR_IN_def)
  have nz: "example_desc 0x100 \<noteq> 0" by (simp add: example_desc_def)
  have no: "\<nexists>k. (\<forall>j \<le> k. skipped example_desc 0x110 USB_ENDPOINT_XFER_INT USB_DIR_IN (desc_at example_desc 0x100 j)) \<and>
      example_desc (desc_at example_desc 0x100 k) = 0"
  proof
    assume "\<exists>k. (\<forall>j \<le> k. skipped example_desc 0x110 USB_ENDPOINT_XFER_INT USB_DIR_IN (desc_at example_desc 0x100 j)) \<and>
      example_desc (desc_at example_desc 0x100 k) = 0"
    then obtain k where k: "\<forall>j \<le> k. skipped example_desc 0x110 USB_ENDPOINT_XFER_INT USB_DIR_IN (desc_at example_desc 0x100 j)"
      "example_desc (desc_at example_desc 0x100 k) = 0" by blast
    then have "k \<noteq> 0" using nz at(1) by metis
    then have "skipped example_desc 0x110 USB_ENDPOINT_XFER_INT USB_DIR_IN (desc_at example_desc 0x100 1)"
      using k(1) by (metis One_nat_def Suc_leI neq0_conv)
    then show False using sk(2) at(2) by simp
  qed
  from find_desc_returns [of "0x110" example_desc USB_ENDPOINT_XFER_INT USB_DIR_IN "0x100"] no
  obtain k where k: "\<forall>j < k. skipped example_desc 0x110 USB_ENDPOINT_XFER_INT USB_DIR_IN (desc_at example_desc 0x100 j)"
    "\<not> skipped example_desc 0x110 USB_ENDPOINT_XFER_INT USB_DIR_IN (desc_at example_desc 0x100 k)"
    "find_desc example_desc 0x110 USB_ENDPOINT_XFER_INT USB_DIR_IN 0x100 =
      Some (if desc_at example_desc 0x100 k < 0x110 \<and> example_desc (desc_at example_desc 0x100 k + 1) \<noteq> USB_DT_INTERFACE
        then Some (desc_at example_desc 0x100 k) else None)"
    by (simp only: if_False) auto
  have "k = 1"
  proof (cases k rule: nat.exhaust)
    case (Suc j)
    have "j = 0" using k(1) [rule_format, of 1] sk(2) at(2) Suc by (cases j) auto
    then show ?thesis using Suc by simp
  qed (use k(2) sk(1) at(1) in simp)
  then show ?thesis using k(3) at(2) by (simp add: example_desc_def USB_DT_INTERFACE_def)
qed

end
