(* ===== verification/XhciPipe.thy ===== *)
theory XhciPipe
  imports XhciRing UsbDesc
begin

text \<open>
  The rest of \<^verbatim>\<open>device/usb/xhci/xhci.c\<close>: input contexts, pipes to the endpoints of a device,
  transfers, and the configuration of a controller with all its memory.

  A context is an array of 32-byte entries of eight words, 64 bytes apart if \<open>context64\<close> is set. An
  endpoint's 64-bit dequeue pointer is two words.
\<close>

definition ctx_or :: "addr \<Rightarrow> u32 \<Rightarrow> 'h usb_state \<Rightarrow> 'h usb_state" where
  "ctx_or a v s = s\<lparr>ctx_mem := (ctx_mem s)(a := ctx_mem s a OR v)\<rparr>"

definition ctx_set :: "addr \<Rightarrow> u32 \<Rightarrow> 'h usb_state \<Rightarrow> 'h usb_state" where
  "ctx_set a v s = s\<lparr>ctx_mem := (ctx_mem s)(a := v)\<rparr>"

definition ctx_zero :: "addr \<Rightarrow> u64 \<Rightarrow> 'h usb_state \<Rightarrow> 'h usb_state" where
  "ctx_zero a n s = s\<lparr>ctx_mem := (\<lambda>b. if b - a < n then 0 else ctx_mem s b)\<rparr>"

definition mem_zero :: "addr \<Rightarrow> u64 \<Rightarrow> 'h usb_state \<Rightarrow> 'h usb_state" where
  "mem_zero a n s = s\<lparr>pt_mem := (\<lambda>b. if b - a < n then 0 else pt_mem s b)\<rparr>"

definition mem_set :: "addr \<Rightarrow> u64 \<Rightarrow> 'h usb_state \<Rightarrow> 'h usb_state" where
  "mem_set a v s = s\<lparr>pt_mem := (pt_mem s)(a := v)\<rparr>"

text \<open>The entry \<open>xhci->devs[n]\<close>, and entry \<open>n\<close> of a context at \<open>a\<close>.\<close>

definition dev_entry :: "xhci \<Rightarrow> u32 \<Rightarrow> addr" where
  "dev_entry c n = devs c + 8 * ucast n"

definition ctx_entry :: "xhci \<Rightarrow> addr \<Rightarrow> u32 \<Rightarrow> addr" where
  "ctx_entry c a n = a + 32 * push_bit (unat (context64 c)) (ucast n)"

subsection \<open>Input contexts\<close>

text \<open>
  The route string: the ports on the way from the device up to the root hub. The result is the device on
  the root hub and the string.
\<close>

partial_function (option) route_of :: "'h usb_state \<Rightarrow> addr \<Rightarrow> u32 \<Rightarrow> (addr \<times> u32) option" where
  "route_of s d route =
     (let dev = usb_devs s d; up = hub_usb_dev (hubs s (hub dev)) in
      if up = NULL then Some (d, route)
      else route_of s up (push_bit 4 route OR ((port dev + 1) AND 0xf)))"

definition xhci_alloc_in_ctx :: "addr \<Rightarrow> u32 \<Rightarrow> 'h usb_state \<Rightarrow> (addr \<times> 'h usb_state) option" where
  "xhci_alloc_in_ctx d max_epid s = do {
     let dev = usb_devs s d;
     let c = ctrls s (hub_ctrl (hubs s (hub dev)));
     let sz = (push_bit (unat (context64 c)) (32 * 33) :: u64);
     (status, r, s) \<leftarrow> kmalloc sz 64 4096 s;
     if ERROR status then Some (NULL, s)
     else do {
       in_ctx \<leftarrow> r;
       let s = ctx_zero in_ctx sz s;
       let slt = ctx_entry c in_ctx 1;
       let s = ctx_or slt (push_bit 27 max_epid) s;
       let s = ctx_or slt (push_bit 20 (speed_to_xhci (speed dev))) s;
       let up = hub_usb_dev (hubs s (hub dev));
       (d, s) \<leftarrow> (if up \<noteq> NULL then do {
           let hub_dev = usb_devs s up;
           s \<leftarrow> (if speed dev = USB_LOWSPEED \<or> speed dev = USB_FULLSPEED then do {
               assert (defpipe hub_dev \<noteq> NULL);
               let hpipe = pipes s (defpipe hub_dev);
               if speed hub_dev = USB_HIGHSPEED
               then Some (ctx_or (slt + 8) (push_bit 8 (port dev + 1)) (ctx_or (slt + 8) (slot_id hpipe) s))
               else let hslot = PHYS_TO_VIRT (pt_mem s (dev_entry c (slot_id hpipe)))
                    in Some (ctx_set (slt + 8) (ctx_mem s (hslot + 8)) s) }
             else Some s);
           (d, route) \<leftarrow> route_of s d 0;
           Some (d, ctx_or slt route s) }
         else Some (d, s));
       let s = ctx_or (slt + 4) (push_bit 16 (port (usb_devs s d) + 1)) s;
       Some (in_ctx, s) } }"

definition xhci_configure_hub :: "'h usb_env \<Rightarrow> addr \<Rightarrow> 'h usb_state \<Rightarrow> (int \<times> 'h usb_state) option" where
  "xhci_configure_hub E hb s = do {
     let x = hub_ctrl (hubs s hb);
     let hd = hub_usb_dev (hubs s hb);
     assert (hd \<noteq> NULL);
     assert (defpipe (usb_devs s hd) \<noteq> NULL);
     let pipe = pipes s (defpipe (usb_devs s hd));
     let hd_slot = PHYS_TO_VIRT (pt_mem s (dev_entry (ctrls s x) (slot_id pipe)));
     if drop_bit 27 (ctx_mem s (hd_slot + 12)) = 3 then Some (0, s)
     else do {
       (in_ctx, s) \<leftarrow> xhci_alloc_in_ctx hd 1 s;
       if in_ctx = NULL then Some (-1, s)
       else do {
         let s = ctx_set (in_ctx + 4) 1 s;
         let slt = ctx_entry (ctrls s x) in_ctx 1;
         let s = ctx_or slt (push_bit 26 1) s;
         let s = ctx_or (slt + 4) (push_bit 24 (portcount (hubs s hb))) s;
         (cc, s) \<leftarrow> xhci_cmd_configure_endpoint E x (slot_id pipe) in_ctx s;
         s \<leftarrow> kfree in_ctx s;
         Some (if cc \<noteq> CC_SUCCESS then -1 else 0, s) } } }"

subsection \<open>Pipes\<close>

definition XHCI_RING_SIZE :: u64 where "XHCI_RING_SIZE = 256"
definition XHCI_PIPE_T_SIZE :: u64 where "XHCI_PIPE_T_SIZE = 72"

definition zero_pipe :: xhci_pipe where
  "zero_pipe = \<lparr>reqs = zero_ring, ctrl = NULL, pipe_type = 0, ep = 0, pipe_dev_addr = 0, pipe_speed = 0,
     max_packet = 0, ep_type = 0, slot_id = 0, epid = 0, pipe_buf = NULL\<rparr>"

definition endpoint_id :: "usb_endpoint_descriptor \<Rightarrow> u32" where
  "endpoint_id epdesc =
     (if bEndpointAddress epdesc = 0 then 1
      else ucast (bEndpointAddress epdesc AND 0x0f) * 2 + (if bEndpointAddress epdesc AND USB_DIR_IN \<noteq> 0 then 1 else 0))"

text \<open>The common exits: \<^verbatim>\<open>fail\<close> frees what there is and returns the null pointer.\<close>

definition free_all :: "addr list \<Rightarrow> 'h usb_state \<Rightarrow> 'h usb_state option" where
  "free_all as s = fold_option kfree as s"

definition pipe_fail :: "addr \<Rightarrow> addr \<Rightarrow> addr \<Rightarrow> addr \<Rightarrow> 'h usb_state \<Rightarrow> (addr \<times> 'h usb_state) option" where
  "pipe_fail buf pipe_reqs p in_ctx s = do { s \<leftarrow> free_all [buf, pipe_reqs, p, in_ctx] s; Some (NULL, s) }"

text \<open>The endpoint context of a new pipe.\<close>

definition write_ep_ctx ::
  "xhci \<Rightarrow> usb_device \<Rightarrow> usb_endpoint_descriptor \<Rightarrow> addr \<Rightarrow> xhci_pipe \<Rightarrow> 'h usb_state \<Rightarrow> 'h usb_state" where
  "write_ep_ctx c dev epdesc in_ctx q s =
     (let eptype = bmAttributes epdesc AND USB_ENDPOINT_XFERTYPE_MASK;
          s = ctx_set (in_ctx + 4) (0x01 OR push_bit (unat (epid q)) 1) s;
          e = ctx_entry c in_ctx (epid q + 1);
          s = (if eptype = USB_ENDPOINT_XFER_INT
               then ctx_set e (word_of_int ((usb_get_period dev epdesc + 3) * 2 ^ 16)) s else s);
          s = ctx_or (e + 4) (push_bit 3 (ucast eptype)) s;
          s = (if bEndpointAddress epdesc AND USB_DIR_IN \<noteq> 0 \<or> eptype = USB_ENDPOINT_XFER_CONTROL
               then ctx_or (e + 4) (push_bit 5 1) s else s);
          s = ctx_or (e + 4) (push_bit 16 (ucast (max_packet q))) s;
          deq = VIRT_TO_PHYS (trbs_addr (reqs q)) OR 1;
          s = ctx_set (e + 12) (ucast (drop_bit 32 deq)) (ctx_set (e + 8) (ucast deq) s)
      in ctx_set (e + 16) (ucast (max_packet q)) s)"

text \<open>The default pipe of a device: take a slot and give the device its address.\<close>

definition address_device ::
  "'h usb_env \<Rightarrow> addr \<Rightarrow> addr \<Rightarrow> addr \<Rightarrow> addr \<Rightarrow> addr \<Rightarrow> addr \<Rightarrow> 'h usb_state \<Rightarrow> (addr \<times> 'h usb_state) option" where
  "address_device E x d p pipe_reqs buf in_ctx s = do {
     let fail = pipe_fail buf pipe_reqs p in_ctx;
     (ret, s) \<leftarrow> (if hub_usb_dev (hubs s (hub (usb_devs s d))) \<noteq> NULL
       then xhci_configure_hub E (hub (usb_devs s d)) s else Some (0, s));
     if ret \<noteq> 0 then fail s
     else do {
       let c64 = unat (context64 (ctrls s x));
       let sz = (push_bit c64 (32 * 32) :: u64);
       (status, r, s) \<leftarrow> kmalloc sz (push_bit c64 1024) 4096 s;
       if ERROR status then fail s
       else do {
         dev \<leftarrow> r;
         (slt, s) \<leftarrow> xhci_cmd_enable_slot E x s;
         if slt < 0 then do { s \<leftarrow> kfree dev s; fail s }
         else do {
           let n = (word_of_int slt :: u32);
           let s = ctx_zero dev sz s;
           let s = mem_set (dev_entry (ctrls s x) n) (VIRT_TO_PHYS dev) s;
           (cc, s) \<leftarrow> xhci_cmd_address_device E x n in_ctx s;
           if cc \<noteq> CC_SUCCESS then do {
             (cc, s) \<leftarrow> xhci_cmd_disable_slot E x n s;
             if cc \<noteq> CC_SUCCESS then fail s
             else do {
               let s = mem_set (dev_entry (ctrls s x) n) 0 s;
               s \<leftarrow> kfree dev s;
               fail s } }
           else do {
             let s = upd_pipe p (slot_id_update (\<lambda>_. n)) s;
             s \<leftarrow> kfree in_ctx s;
             Some (p, s) } } } } }"

definition xhci_alloc_pipe ::
  "'h usb_env \<Rightarrow> addr \<Rightarrow> usb_endpoint_descriptor \<Rightarrow> 'h usb_state \<Rightarrow> (addr \<times> 'h usb_state) option" where
  "xhci_alloc_pipe E d epdesc s = do {
     let eptype = bmAttributes epdesc AND USB_ENDPOINT_XFERTYPE_MASK;
     let x = hub_ctrl (hubs s (hub (usb_devs s d)));
     (status, r, s) \<leftarrow> kmalloc XHCI_PIPE_T_SIZE 64 4096 s;
     if ERROR status then Some (NULL, s)
     else do {
       p \<leftarrow> r;
       let s = upd_pipe p (\<lambda>_. zero_pipe) s;
       (status, r, s) \<leftarrow> kmalloc XHCI_RING_SIZE 64 65536 s;
       if ERROR status then do { s \<leftarrow> kfree p s; Some (NULL, s) }
       else do {
         pipe_reqs \<leftarrow> r;
         let s = usb_desc2pipe p d epdesc s;
         let s = upd_pipe p (\<lambda>q. q\<lparr>epid := endpoint_id epdesc, reqs := new_ring pipe_reqs XHCI_RING_ITEMS\<rparr>) s;
         (status, r, s) \<leftarrow> (if eptype = USB_ENDPOINT_XFER_INT
           then kmalloc (ucast (max_packet (pipes s p))) 0 0 s else Some (K_SUCCESS, Some NULL, s));
         if ERROR status then do { s \<leftarrow> kfree p s; Some (NULL, s) }
         else do {
           buf \<leftarrow> r;
           let s = (if eptype = USB_ENDPOINT_XFER_INT then upd_pipe p (pipe_buf_update (\<lambda>_. buf)) s else s);
           (in_ctx, s) \<leftarrow> xhci_alloc_in_ctx d (endpoint_id epdesc) s;
           if in_ctx = NULL then pipe_fail buf pipe_reqs p in_ctx s
           else do {
             let s = write_ep_ctx (ctrls s x) (usb_devs s d) epdesc in_ctx (pipes s p) s;
             if epid (pipes s p) = 1 then address_device E x d p pipe_reqs buf in_ctx s
             else do {
               assert (defpipe (usb_devs s d) \<noteq> NULL);
               let n = slot_id (pipes s (defpipe (usb_devs s d)));
               let s = upd_pipe p (slot_id_update (\<lambda>_. n)) s;
               (cc, s) \<leftarrow> xhci_cmd_configure_endpoint E x n in_ctx s;
               if cc \<noteq> CC_SUCCESS then pipe_fail buf pipe_reqs p in_ctx s
               else do { s \<leftarrow> kfree in_ctx s; Some (p, s) } } } } } } }"

text \<open>\<open>None\<close> stands for the null descriptor.\<close>

definition xhci_realloc_pipe ::
  "'h usb_env \<Rightarrow> addr \<Rightarrow> addr \<Rightarrow> usb_endpoint_descriptor option \<Rightarrow> 'h usb_state \<Rightarrow> (addr \<times> 'h usb_state) option" where
  "xhci_realloc_pipe E d p desc s = (case desc of
     None \<Rightarrow> Some (NULL, usb_add_freelist p s)
   | Some epdesc \<Rightarrow>
       if p = NULL then xhci_alloc_pipe E d epdesc s
       else do {
         let eptype = bmAttributes epdesc AND USB_ENDPOINT_XFERTYPE_MASK;
         let old_max_packet = max_packet (pipes s p);
         let s = usb_desc2pipe p d epdesc s;
         let x = ctrl (pipes s p);
         if eptype \<noteq> USB_ENDPOINT_XFER_CONTROL \<or> max_packet (pipes s p) = old_max_packet then Some (p, s)
         else do {
           (in_ctx, s) \<leftarrow> xhci_alloc_in_ctx d 1 s;
           if in_ctx = NULL then Some (p, s)
           else do {
             let s = ctx_set (in_ctx + 4) (push_bit 1 1) s;
             let e = ctx_entry (ctrls s x) in_ctx 2;
             let s = ctx_or (e + 4) (push_bit 16 (ucast (max_packet (pipes s p)))) s;
             (cc, s) \<leftarrow> xhci_cmd_evaluate_context E x (slot_id (pipes s p)) in_ctx s;
             s \<leftarrow> kfree in_ctx s;
             Some (p, s) } } })"

subsection \<open>Transfers\<close>

definition TRB_TR_IOC :: u32 where "TRB_TR_IOC = 0x20"
definition TRB_TR_IDT :: u32 where "TRB_TR_IDT = 0x40"
definition TR_NORMAL :: u32 where "TR_NORMAL = 1"
definition TR_SETUP :: u32 where "TR_SETUP = 2"
definition TR_DATA :: u32 where "TR_DATA = 3"
definition TR_STATUS :: u32 where "TR_STATUS = 4"
definition USB_TIME_COMMAND :: nat where "USB_TIME_COMMAND = 5000"
definition USB_REQ_SET_ADDRESS :: u8 where "USB_REQ_SET_ADDRESS = 0x05"

text \<open>The eight bytes of a request.\<close>

definition request_word :: "usb_ctrl_request \<Rightarrow> u64" where
  "request_word req = ucast (bRequestType req) OR push_bit 8 (ucast (bRequest req)) OR push_bit 16 (ucast (wValue req)) OR
     push_bit 32 (ucast (wIndex req)) OR push_bit 48 (ucast (wLength req))"

definition queue_on_pipe :: "addr \<Rightarrow> xhci_trb \<Rightarrow> 'h usb_state \<Rightarrow> 'h usb_state option" where
  "queue_on_pipe p t s = do {
     (_, r) \<leftarrow> xhci_trb_queue (reqs (pipes s p)) t;
     Some (upd_pipe p (reqs_update (\<lambda>_. r)) s) }"

definition xhci_xfer_wait :: "'h usb_env \<Rightarrow> addr \<Rightarrow> 'h usb_state \<Rightarrow> (u32 \<times> 'h usb_state) option" where
  "xhci_xfer_wait E x s = do {
     (cc, _, s) \<leftarrow> xhci_event_wait E Xfer x zero_trb USB_TIME_COMMAND s;
     Some (cc, s) }"

text \<open>The entries of a control transfer.\<close>

definition setup_trb :: "bool \<Rightarrow> usb_ctrl_request \<Rightarrow> u32 \<Rightarrow> xhci_trb" where
  "setup_trb dir req data_len = \<lparr>trb_ptr = request_word req, trb_status = 8,
     trb_control = TRB_TR_IDT OR push_bit 10 TR_SETUP OR
       push_bit 16 (if data_len \<noteq> 0 then if dir then 3 else 2 else 0)\<rparr>"

definition data_trb :: "bool \<Rightarrow> addr \<Rightarrow> u32 \<Rightarrow> xhci_trb" where
  "data_trb dir buf data_len = \<lparr>trb_ptr = VIRT_TO_PHYS buf, trb_status = data_len,
     trb_control = push_bit 10 TR_DATA OR push_bit 16 (if dir then 1 else 0)\<rparr>"

definition status_trb :: "bool \<Rightarrow> xhci_trb" where
  "status_trb dir = \<lparr>trb_ptr = 0, trb_status = 0,
     trb_control = TRB_TR_IOC OR push_bit 10 TR_STATUS OR push_bit 16 (if dir then 0 else 1)\<rparr>"

definition xhci_xfer_setup ::
  "'h usb_env \<Rightarrow> addr \<Rightarrow> bool \<Rightarrow> usb_ctrl_request \<Rightarrow> addr \<Rightarrow> u32 \<Rightarrow> 'h usb_state \<Rightarrow> (u32 \<times> 'h usb_state) option" where
  "xhci_xfer_setup E p dir req buf data_len s = do {
     let x = ctrl (pipes s p);
     s \<leftarrow> queue_on_pipe p (setup_trb dir req data_len) s;
     s \<leftarrow> (if data_len \<noteq> 0 then queue_on_pipe p (data_trb dir buf data_len) s else Some s);
     s \<leftarrow> queue_on_pipe p (status_trb dir) s;
     let s = xhci_doorbell_ring E x (ucast (slot_id (pipes s p))) (ucast (epid (pipes s p))) s;
     xhci_xfer_wait E x s }"

definition xhci_xfer_normal ::
  "'h usb_env \<Rightarrow> addr \<Rightarrow> addr \<Rightarrow> u32 \<Rightarrow> 'h usb_state \<Rightarrow> (u32 \<times> 'h usb_state) option" where
  "xhci_xfer_normal E p buf data_len s = do {
     let x = ctrl (pipes s p);
     s \<leftarrow> queue_on_pipe p \<lparr>trb_ptr = buf, trb_status = data_len,
       trb_control = TRB_TR_IOC OR push_bit 10 TR_NORMAL\<rparr> s;
     let s = xhci_doorbell_ring E x (ucast (slot_id (pipes s p))) (ucast (epid (pipes s p))) s;
     xhci_xfer_wait E x s }"

definition xhci_send_pipe ::
  "'h usb_env \<Rightarrow> addr \<Rightarrow> bool \<Rightarrow> usb_ctrl_request option \<Rightarrow> addr \<Rightarrow> u32 \<Rightarrow> 'h usb_state \<Rightarrow> (int \<times> 'h usb_state) option" where
  "xhci_send_pipe E p dir cmd buf data_len s = (case cmd of
     Some req \<Rightarrow>
       if bRequest req = USB_REQ_SET_ADDRESS then Some (0, s)
       else do { (cc, s) \<leftarrow> xhci_xfer_setup E p dir req buf data_len s; Some (0, s) }
   | None \<Rightarrow> do { (cc, s) \<leftarrow> xhci_xfer_normal E p buf data_len s; Some (0, s) })"


subsection \<open>The route string\<close>

text \<open>A device and the hubs above it, up to the device on the root hub.\<close>

fun hub_chain :: "'h usb_state \<Rightarrow> addr list \<Rightarrow> bool" where
  "hub_chain s [] \<longleftrightarrow> False"
| "hub_chain s [d] \<longleftrightarrow> hub_usb_dev (hubs s (hub (usb_devs s d))) = NULL"
| "hub_chain s (d # e # ds) \<longleftrightarrow> hub_usb_dev (hubs s (hub (usb_devs s d))) = e \<and> e \<noteq> NULL \<and> hub_chain s (e # ds)"

definition port_nibble :: "'h usb_state \<Rightarrow> addr \<Rightarrow> u32" where
  "port_nibble s d = (port (usb_devs s d) + 1) AND 0xf"

fun route_acc :: "'h usb_state \<Rightarrow> addr list \<Rightarrow> u32 \<Rightarrow> u32" where
  "route_acc s [] r = r"
| "route_acc s [d] r = r"
| "route_acc s (d # e # ds) r = route_acc s (e # ds) (push_bit 4 r OR port_nibble s d)"

lemma route_of_acc:
  "hub_chain s ds \<Longrightarrow> route_of s (hd ds) r = Some (last ds, route_acc s ds r)"
  by (induction s ds r rule: route_acc.induct) (simp, (subst route_of.simps, simp add: Let_def port_nibble_def)+)

lemma nibble_shift:
  fixes r p :: u32
  assumes "Suc i < 8" and "p = p AND 0xf"
  shows "take_bit 4 (drop_bit (4 * Suc i) (push_bit 4 r OR p)) = take_bit 4 (drop_bit (4 * i) r)"
proof -
  have "(0xf :: u32) = mask 4" by (simp add: mask_eq_exp_minus_1)
  then have p: "\<not> bit p n" if "4 \<le> n" for n
    using that assms(2) by (metis bit_and_iff bit_mask_iff not_less)
  show ?thesis using assms(1) p by (intro bit_word_eqI) (auto simp: bit_simps)
qed

lemma nibble_last:
  fixes r p :: u32
  assumes "p = p AND 0xf"
  shows "take_bit 4 (push_bit 4 r OR p) = p"
proof -
  have "(0xf :: u32) = mask 4" by (simp add: mask_eq_exp_minus_1)
  then have "take_bit 4 p = p" using assms by (simp add: take_bit_eq_mask)
  moreover have "take_bit 4 (push_bit 4 r) = 0" by (intro bit_word_eqI) (auto simp: bit_simps)
  ultimately show ?thesis by (simp add: take_bit_or)
qed

text \<open>The nibbles of the string after the walk over \<open>ds\<close>.\<close>

lemma route_acc_nibbles:
  assumes "ds \<noteq> []" and "i < 8"
  shows "take_bit 4 (drop_bit (4 * i) (route_acc s ds r)) =
    (if i + 1 < length ds then port_nibble s (ds ! (length ds - 2 - i)) else take_bit 4 (drop_bit (4 * (i + 1 - length ds)) r))"
  using assms
proof (induction s ds r arbitrary: i rule: route_acc.induct)
  case (3 s d e ds r)
  let ?r = "push_bit 4 r OR port_nibble s d"
  have n: "port_nibble s d = port_nibble s d AND 0xf" by (simp add: port_nibble_def)
  consider "i + 1 < length (e # ds)" | "i = length ds" | j where "i = Suc (length ds + j)"
    by (metis Suc_eq_plus1 add_Suc less_Suc_eq less_iff_Suc_add length_Cons not_less_eq)
  then show ?case
  proof cases
    case 1
    then have "length (d # e # ds) - 2 - i = Suc (length (e # ds) - 2 - i)" by simp
    then show ?thesis using 1 "3.IH" [of i] "3.prems" by simp
  next
    case 2
    then show ?thesis using "3.IH" [of i] "3.prems" nibble_last [OF n] by simp
  next
    case 3
    then have "take_bit 4 (drop_bit (4 * Suc j) ?r) = take_bit 4 (drop_bit (4 * j) r)"
      using "3.prems" by (intro nibble_shift [OF _ n]) simp
    then show ?thesis using 3 "3.IH" [of i] "3.prems" by simp
  qed
qed simp_all

text \<open>The walk of \<^verbatim>\<open>xhci_alloc_in_ctx\<close> from a device over its hubs ends at the device on the root hub. The
  route string names, from its lowest four bits on, the port of the first hub that leads to the device, the
  port of the second one, and so on; it is zero above the last hub.\<close>

theorem route_string_correct:
  assumes "hub_chain s ds" and "i < 8"
  shows "\<exists>r. route_of s (hd ds) 0 = Some (last ds, r) \<and>
    take_bit 4 (drop_bit (4 * i) r) =
      (if i + 1 < length ds then (port (usb_devs s (ds ! (length ds - 2 - i))) + 1) AND 0xf else 0)"
proof -
  have "ds \<noteq> []" using assms(1) by (cases ds) simp_all
  then show ?thesis using route_of_acc [OF assms(1)] route_acc_nibbles [of ds i s 0] assms(2)
    by (simp add: port_nibble_def)
qed

text \<open>A device on port 2 of a hub, which is on port 3 of a hub, which is on the root hub.\<close>

lemma route_string_correct_witness:
  "\<forall>s :: unit usb_state. let s = s\<lparr>
      hubs := (\<lambda>h. \<lparr>hub_usb_dev = if h = 1 then 20 else if h = 2 then 30 else NULL, hub_ctrl = 0, portcount = 4\<rparr>),
      usb_devs := (\<lambda>d. \<lparr>hub = if d = 10 then 1 else if d = 20 then 2 else 3, defpipe = 0,
        port = if d = 10 then 1 else if d = 20 then 2 else 5, config = 0, iface = 0, imax = 0, speed = 0, dev_addr = 0\<rparr>)\<rparr>
    in \<exists>r. route_of s 10 0 = Some (30, r) \<and> take_bit 4 (drop_bit (4 * 0) r) = 3"
proof (intro allI, unfold Let_def)
  fix s :: "unit usb_state"
  let ?s = "s\<lparr>hubs := (\<lambda>h. \<lparr>hub_usb_dev = if h = 1 then 20 else if h = 2 then 30 else NULL, hub_ctrl = 0, portcount = 4\<rparr>),
      usb_devs := (\<lambda>d. \<lparr>hub = if d = 10 then 1 else if d = 20 then 2 else 3, defpipe = 0,
        port = if d = 10 then 1 else if d = 20 then 2 else 5, config = 0, iface = 0, imax = 0, speed = 0, dev_addr = 0\<rparr>)\<rparr>"
  have "hub_chain ?s [10, 20, 30]" by simp
  from route_string_correct [OF this, of 0]
  show "\<exists>r. route_of ?s 10 0 = Some (30, r) \<and> take_bit 4 (drop_bit (4 * 0) r) = 3" by simp
qed

end
