(* ===== verification/XhciSetup.thy ===== *)
theory XhciSetup
  imports XhciPipe HeapUse
begin

text \<open>
  \<^verbatim>\<open>configure_xhci\<close> and \<^verbatim>\<open>xhci_setup\<close> of \<^verbatim>\<open>device/usb/xhci/xhci.c\<close>: the memory of
  a controller, its programming, and the start of all controllers of the machine.
\<close>

text \<open>
  The buffers, one \<^verbatim>\<open>kmalloc\<close> after the other with size, alignment and boundary. When one fails,
  the remaining pointers are null.
\<close>

fun alloc_bufs :: "(u64 \<times> u64 \<times> u64) list \<Rightarrow> 'h usb_state \<Rightarrow> (bool \<times> addr list \<times> 'h usb_state) option" where
  "alloc_bufs [] s = Some (True, [], s)"
| "alloc_bufs ((sz, al, bd) # rs) s = do {
     (status, r, s) \<leftarrow> kmalloc sz al bd s;
     if ERROR status then Some (False, NULL # List.map (\<lambda>_. NULL) rs, s)
     else do { a \<leftarrow> r; (ok, as, s) \<leftarrow> alloc_bufs rs s; Some (ok, a # as, s) } }"

definition xhci_bufs :: "xhci \<Rightarrow> (u64 \<times> u64 \<times> u64) list" where
  "xhci_bufs c = [(8 * ucast (slots c + 1), 64, 0), (16, 64, 0), (XHCI_RING_SIZE, 64, 65536),
     (XHCI_RING_SIZE, 64, 65536), (XHCI_RING_SIZE, 0, 0), (32, 0, 0), (XHCI_RING_SIZE, 0, 0)]"

text \<open>The scratchpad buffers of the controller; \<open>i\<close> of them are in the array already.\<close>

fun alloc_pads :: "nat \<Rightarrow> nat \<Rightarrow> addr \<Rightarrow> 'h usb_state \<Rightarrow> (bool \<times> 'h usb_state) option" where
  "alloc_pads 0 i spba s = Some (True, s)"
| "alloc_pads (Suc n) i spba s = do {
     (status, r, s) \<leftarrow> kmalloc (ucast XHCI_PAGE_SIZE) (ucast XHCI_PAGE_SIZE) (ucast XHCI_PAGE_SIZE) s;
     if ERROR status then do {
       s \<leftarrow> fold_option (\<lambda>j s. kfree (PHYS_TO_VIRT (pt_mem s (spba + 8 * word_of_nat j))) s) (rev [0..<i]) s;
       s \<leftarrow> kfree spba s;
       Some (False, s) }
     else do {
       pad \<leftarrow> r;
       alloc_pads n (Suc i) spba (mem_set (spba + 8 * word_of_nat i) (VIRT_TO_PHYS pad) s) } }"

definition max_scratchpads :: "u32 \<Rightarrow> u32" where
  "max_scratchpads hcs2 = push_bit 5 (GET_FIELD hcs2 21 0x1f) OR GET_FIELD hcs2 27 0x1f"

text \<open>All the scratchpads that the controller asks for.\<close>

definition add_pads :: "addr \<Rightarrow> u32 \<Rightarrow> 'h usb_state \<Rightarrow> (bool \<times> 'h usb_state) option" where
  "add_pads x spb s = (if spb \<noteq> 0 then do {
     (status, r, s) \<leftarrow> kmalloc (8 * ucast spb) 64 4096 s;
     if ERROR status then Some (False, s)
     else do {
       spba \<leftarrow> r;
       (ok, s) \<leftarrow> alloc_pads (unat spb) 0 spba s;
       Some (ok, if ok then mem_set (devs (ctrls s x)) (VIRT_TO_PHYS spba) s else s) } }
   else Some (True, s))"

definition lo :: "u64 \<Rightarrow> u32" where "lo a = ucast (a AND 0xffffffff)"
definition hi :: "u64 \<Rightarrow> u32" where "hi a = ucast (drop_bit 32 a)"

text \<open>The controller is told where its tables and rings are.\<close>

definition program_rings :: "'h usb_env \<Rightarrow> addr \<Rightarrow> 'h usb_state \<Rightarrow> 'h usb_state" where
  "program_rings E x s =
     (let c = ctrls s x; d = VIRT_TO_PHYS (devs c); ev = VIRT_TO_PHYS (trbs_addr (evts c));
          seg = VIRT_TO_PHYS (eseg c); cm = VIRT_TO_PHYS (trbs_addr (cmds c));
          s = xhci_write_opt E x XHCI_OPT_CONFIG (slots c) s;
          s = xhci_write_opt E x XHCI_OPT_DCBAAP_LO (lo d) s;
          s = xhci_write_opt E x XHCI_OPT_DCBAAP_HI (hi d) s;
          s = upd_xhci x (eseg_val_update (\<lambda>_. \<lparr>ptr_lo = lo ev, ptr_hi = hi ev, seg_size = word_of_nat XHCI_RING_ITEMS\<rparr>)) s;
          s = xhci_write_run E x (XHCI_IRS_ERSTSZ 0) (1 AND 0xffff) s;
          s = xhci_write_run E x (XHCI_IRS_ERSTBA_LO 0) (lo seg) s;
          s = xhci_write_run E x (XHCI_IRS_ERSTBA_HI 0) (hi seg) s;
          s = upd_xhci x (evts_update (\<lambda>r. r\<lparr>trb_count := word_of_nat XHCI_RING_ITEMS, cs := 1, enqueue := 0, dequeue := 0\<rparr>)) s;
          s = xhci_write_run E x (XHCI_IRS_ERDP_LO 0) (lo ev) s;
          s = xhci_write_run E x (XHCI_IRS_ERDP_HI 0) (hi ev) s;
          s = upd_xhci x (cmds_update (\<lambda>r. r\<lparr>trb_count := word_of_nat XHCI_RING_ITEMS, cs := 1, enqueue := 0, dequeue := 0\<rparr>)) s;
          s = xhci_write_opt E x XHCI_OPT_CRCR_LO (lo cm OR 1) s
      in xhci_write_opt E x XHCI_OPT_CRCR_HI (hi cm) s)"

text \<open>The memory is cleared and the queues are empty.\<close>

definition clear_ring :: "addr \<Rightarrow> xhci_ring \<Rightarrow> xhci_ring" where
  "clear_ring a r = r\<lparr>trbs_addr := a, trbs := replicate XHCI_RING_ITEMS zero_trb\<rparr>"

definition init_bufs :: "addr \<Rightarrow> addr list \<Rightarrow> 'h usb_state \<Rightarrow> 'h usb_state" where
  "init_bufs x as s = mem_zero (as ! 0) (8 * ucast (slots (ctrls s x) + 1)) (upd_xhci x (\<lambda>c. c\<lparr>
     devs := as ! 0, eseg := as ! 1, eseg_val := \<lparr>ptr_lo = 0, ptr_hi = 0, seg_size = 0\<rparr>,
     evts := clear_ring (as ! 2) (evts c), cmds := clear_ring (as ! 3) (cmds c),
     cmds_evts := init_fifo (replicate 256 0) 16 (int XHCI_RING_ITEMS),
     port_evts := init_fifo (replicate 32 0) 2 (int XHCI_RING_ITEMS),
     xfer_evts := init_fifo (replicate 256 0) 16 (int XHCI_RING_ITEMS)\<rparr>) s)"

definition configure_xhci :: "'h usb_env \<Rightarrow> addr \<Rightarrow> addr \<Rightarrow> 'h usb_state \<Rightarrow> (status_t \<times> 'h usb_state) option" where
  "configure_xhci E x hb s = do {
     (ok, as, s) \<leftarrow> alloc_bufs (xhci_bufs (ctrls s x)) s;
     let fail = (\<lambda>s. do { s \<leftarrow> free_all (rev as) s; Some (K_ERROR, s) });
     if \<not> ok then fail s
     else do {
       let s = init_bufs x as s;
       let (status, s) = xhci_halt E x s;
       if ERROR status then fail s
       else do {
         let (status, s) = xhci_reset E x s;
         if ERROR status then fail s
         else do {
           let s = program_rings E x s;
           let (hcs2, s) = xhci_read_cap E x XHCI_CAP_HCSPARAM2 s;
           let spb = max_scratchpads hcs2;
           (ok, s) \<leftarrow> add_pads x spb s;
           if \<not> ok then fail s
           else do {
             let (_, s) = xhci_run E x s;
             let s = msleep E 20 s;
             Some (K_SUCCESS, s\<lparr>hubs := (hubs s)(hb := \<lparr>hub_usb_dev = NULL, hub_ctrl = x, portcount = ports (ctrls s x)\<rparr>)\<rparr>) }
           } } } }"

definition USB_HUB_T_SIZE :: u64 where "USB_HUB_T_SIZE = 56"

definition setup_one :: "'h usb_env \<Rightarrow> addr \<Rightarrow> nat \<Rightarrow> 'h usb_state \<Rightarrow> 'h usb_state option" where
  "setup_one E hub_base i s = do {
     n \<leftarrow> pci_dev_match (pci s) 0x0c 0x03 0x30 (word_of_nat i);
     let dev = pci_devices (pci s) ! n;
     let (mmio, h) = pci_dev_read_bar (env_hw E) dev 0 (hw (pci s));
     let s = upd_hw h s;
     s \<leftarrow> page_map KERNEL_PAGE_DIR_TABLE_POS mmio (PHYS_TO_VIRT mmio) s;
     let (id, h) = pci_dev_config_read (env_hw E) dev 0 (hw (pci s));
     let s = upd_hw h s;
     s \<leftarrow> (if id AND 0xffff = 0x8086 then switch_to_xhci E dev s else Some s);
     (_, x, s) \<leftarrow> xhci_controller_setup E (PHYS_TO_VIRT mmio) NULL s;
     assert (x \<noteq> NULL);
     let s = upd_xhci x (usb_pci_update (\<lambda>_. Some n)) s;
     (_, s) \<leftarrow> configure_xhci E x (hub_base + USB_HUB_T_SIZE * word_of_nat i) s;
     Some s }"

text \<open>The result is the status and the hubs: their address and number.\<close>

definition xhci_setup :: "'h usb_env \<Rightarrow> 'h usb_state \<Rightarrow> (status_t \<times> addr \<times> nat \<times> 'h usb_state) option" where
  "xhci_setup E s = do {
     let number_of_xhci = pci_dev_count (pci s) 0x0c 0x03 0x30;
     (status, r, s) \<leftarrow> kmalloc (USB_HUB_T_SIZE * ucast number_of_xhci) 0 0 s;
     if ERROR status then Some (status, NULL, 0, s)
     else do {
       hub_base \<leftarrow> r;
       s \<leftarrow> fold_option (setup_one E hub_base) [0..<unat number_of_xhci] s;
       Some (K_SUCCESS, hub_base, unat number_of_xhci, s) } }"

subsection \<open>Memory of a controller\<close>

lemma usb_more:
  assumes "alloc_state.more s' = alloc_state.more s"
  shows "ctrls s' = ctrls s" "pt_mem s' = pt_mem s" "pci s' = pci s" "hubs s' = hubs s"
  using assms by (cases s'; cases s; simp)+

text \<open>Only the fields of the driver change.\<close>

definition heap_same :: "'h usb_state \<Rightarrow> 'h usb_state \<Rightarrow> bool" where
  "heap_same s s' \<longleftrightarrow> heap_ok s' = heap_ok s \<and> live s' = live s"

lemma heap_sameI:
  assumes "page_bitmap s' = page_bitmap s" "free_pages s' = free_pages s" "locks s' = locks s"
    and "mem_groups s' = mem_groups s" "caches s' = caches s" "magic s' = magic s"
  shows "heap_same s s'"
  using alloc_fields_cong [of s' s] assms by (simp add: heap_same_def heap_ok_def)

lemma heap_same_updates [simp]:
  "heap_same s (upd_xhci x f s)" "heap_same s (mem_zero a n s)" "heap_same s (mem_set a v s)" "heap_same s (upd_hw h s)"
  "heap_same s (s\<lparr>hubs := hb\<rparr>)"
  by (rule heap_sameI; simp add: upd_xhci_def mem_zero_def mem_set_def upd_hw_def)+

lemma heap_updates [simp]:
  "heap_ok (upd_xhci x f s) = heap_ok s" "live (upd_xhci x f s) = live s"
  "heap_ok (mem_zero a n s) = heap_ok s" "live (mem_zero a n s) = live s"
  "heap_ok (mem_set a v s) = heap_ok s" "live (mem_set a v s) = live s"
  "heap_ok (upd_hw h s) = heap_ok s" "live (upd_hw h s) = live s"
  "heap_ok (s\<lparr>hubs := hb\<rparr>) = heap_ok s" "live (s\<lparr>hubs := hb\<rparr>) = live s"
  using heap_same_updates [of s] unfolding heap_same_def by blast+

lemma mem_updates [simp]:
  "ctrls (mem_zero a n s) = ctrls s" "ctrls (mem_set a v s) = ctrls s" "ctrls (upd_hw h s) = ctrls s"
  "pt_mem (upd_xhci x f s) = pt_mem s" "pt_mem (upd_hw h s) = pt_mem s" "pt_mem (mem_set a v s) = (pt_mem s)(a := v)"
  by (simp_all add: mem_zero_def mem_set_def upd_hw_def upd_xhci_def)

text \<open>Accesses to registers change nothing but the hardware.\<close>

lemma reg_updates [simp]:
  "snd (reg_read E a s) = upd_hw (snd (mmio_read (env_hw E) a (hw (pci s)))) s"
  "reg_write E a v s = upd_hw (mmio_write (env_hw E) a v (hw (pci s))) s"
  by (simp_all add: reg_read_def reg_write_def case_prod_unfold Let_def)

text \<open>
  What is the same before and after: the heap, the driver's data and the 64-bit words of memory. The other
  tasks leave them alone while the driver sleeps.
\<close>

definition kept :: "'h usb_state \<Rightarrow> 'h usb_state \<Rightarrow> bool" where
  "kept s s' \<longleftrightarrow> heap_ok s' = heap_ok s \<and> live s' = live s \<and> ctrls s' = ctrls s \<and> pt_mem s' = pt_mem s"

definition undisturbed :: "'h usb_env \<Rightarrow> bool" where
  "undisturbed E \<longleftrightarrow> (\<forall>n s. kept s (msleep E n s))"

lemma kept_refl [simp]: "kept s s" by (simp add: kept_def)

lemma kept_trans: "kept s s1 \<Longrightarrow> kept s1 s2 \<Longrightarrow> kept s s2" by (simp add: kept_def)

lemma kept_hw [simp]: "kept s (upd_hw h s)" by (simp add: kept_def)

lemma kept_opt [simp]: "kept s (snd (xhci_read_opt E x r s))" "kept s (snd (xhci_read_cap E x r s))"
    "kept s (xhci_write_opt E x r v s)" "kept s (xhci_write_run E x r v s)"
  by (simp_all add: xhci_read_opt_def xhci_read_cap_def xhci_write_opt_def xhci_write_run_def)

lemma kept_sleep: "undisturbed E \<Longrightarrow> kept s (msleep E n s)"
  by (simp add: undisturbed_def)

lemma poll_kept:
  assumes u: "undisturbed E" and b: "\<And>s. kept s (snd (busy s))"
  shows "kept s (snd (poll E busy n s))"
proof (induction n arbitrary: s)
  case (Suc n)
  have "kept s (msleep E 1 (snd (busy s)))" by (rule kept_trans [OF b kept_sleep [OF u]])
  from kept_trans [OF this Suc.IH] show ?case using b [of s] by (simp add: case_prod_unfold Let_def)
qed simp

lemma halt_kept:
  assumes u: "undisturbed E"
  shows "kept s (snd (xhci_halt E x s))"
proof -
  have "kept s1 (snd (poll E (\<lambda>s. let (st, s) = xhci_read_opt E x XHCI_OPT_USBSTS s in (st AND XHCI_STS_HCH = 0, s)) n s1))" for n s1
    by (rule poll_kept [OF u]) (simp add: case_prod_unfold Let_def)
  note kept_trans [OF kept_opt(1) kept_trans [OF kept_opt(3) this]]
  then show ?thesis by (simp add: xhci_halt_def case_prod_unfold Let_def)
qed

lemma all_zero_kept: "kept s (snd (all_zero E x rs s))"
proof (induction rs arbitrary: s)
  case (Cons r rs)
  from kept_trans [OF kept_opt(1) Cons.IH] show ?case by (simp add: case_prod_unfold Let_def)
qed simp

lemma reset_kept:
  assumes u: "undisturbed E"
  shows "kept s (snd (xhci_reset E x s))"
proof -
  let ?busy = "\<lambda>s. let (c, s) = xhci_read_opt E x XHCI_OPT_USBCMD s in
              if c AND XHCI_CMD_HCRST \<noteq> 0 then (True, s)
              else let (st, s) = xhci_read_opt E x XHCI_OPT_USBSTS s in (st AND XHCI_STS_CNR \<noteq> 0, s)"
  have b: "kept s1 (snd (?busy s1))" for s1
  proof -
    have "kept s1 (snd (xhci_read_opt E x XHCI_OPT_USBSTS (snd (xhci_read_opt E x XHCI_OPT_USBCMD s1))))"
      by (rule kept_trans [OF kept_opt(1) kept_opt(1)])
    then show ?thesis by (simp add: case_prod_unfold Let_def)
  qed
  have p: "kept s (snd (poll E ?busy 1000 (xhci_write_opt E x r v (snd (xhci_read_opt E x XHCI_OPT_USBCMD s)))))" for r v
    by (rule kept_trans [OF kept_opt(1) kept_trans [OF kept_opt(3) poll_kept [OF u b]]])
  from kept_trans [OF p kept_trans [OF kept_sleep [OF u] all_zero_kept]] p
  show ?thesis by (simp add: xhci_reset_def case_prod_unfold Let_def del: all_zero.simps)
qed

lemma run_kept:
  assumes u: "undisturbed E"
  shows "kept s (snd (xhci_run E x s))"
proof -
  let ?busy = "\<lambda>s. let (st, s) = xhci_read_opt E x XHCI_OPT_USBSTS s in (st AND XHCI_STS_HCH = 1, s)"
  have b: "kept s1 (snd (?busy s1))" for s1 by (simp add: case_prod_unfold Let_def)
  have p: "kept s (snd (poll E ?busy 1000 (xhci_write_opt E x r v (snd (xhci_read_opt E x XHCI_OPT_USBCMD s)))))" for r v
    by (rule kept_trans [OF kept_opt(1) kept_trans [OF kept_opt(3) poll_kept [OF u b]]])
  from kept_trans [OF p kept_opt(1)] p show ?thesis by (simp add: xhci_run_def case_prod_unfold Let_def)
qed

text \<open>After the rings are programmed the driver finds its queues and rings in order.\<close>

lemma heap_regs [simp]:
  "heap_ok (xhci_write_opt E x r v s) = heap_ok s" "live (xhci_write_opt E x r v s) = live s"
  "heap_ok (xhci_write_run E x r v s) = heap_ok s" "live (xhci_write_run E x r v s) = live s"
  "pt_mem (xhci_write_opt E x r v s) = pt_mem s" "pt_mem (xhci_write_run E x r v s) = pt_mem s"
  by (simp_all add: xhci_write_opt_def xhci_write_run_def)

lemma program_rings_effect:
  "heap_ok (program_rings E x s) = heap_ok s" "live (program_rings E x s) = live s"
  "\<exists>e. ctrls (program_rings E x s) x = (ctrls s x)\<lparr>eseg_val := e,
     evts := (evts (ctrls s x))\<lparr>trb_count := 16, cs := 1, enqueue := 0, dequeue := 0\<rparr>,
     cmds := (cmds (ctrls s x))\<lparr>trb_count := 16, cs := 1, enqueue := 0, dequeue := 0\<rparr>\<rparr>"
  by (simp_all add: program_rings_def Let_def XHCI_RING_ITEMS_def)
    (rule exI, rule xhci.equality; simp)

lemma configured_ok:
  assumes "ctrls s' x = ctrls (program_rings E x (s0 :: 'h usb_state)) x" and "ctrls s0 = ctrls (init_bufs x as s)"
  shows "xhci_ok (ctrls s' x) \<and> ready (evts (ctrls s' x)) = [] \<and> cmds (ctrls s' x) = new_ring (as ! 3) 16"
proof -
  have q: "queue_ok 16 (init_fifo (replicate 256 0) 16 16)" "queue_ok 2 (init_fifo (replicate 32 0) 2 16)"
    by (auto simp: queue_ok_def fifo_inv_def fifo_okay_def init_fifo_def to_int32_def fun_eq_iff)
  obtain e where e: "ctrls s' x = (ctrls s0 x)\<lparr>eseg_val := e,
     evts := (evts (ctrls s0 x))\<lparr>trb_count := 16, cs := 1, enqueue := 0, dequeue := 0\<rparr>,
     cmds := (cmds (ctrls s0 x))\<lparr>trb_count := 16, cs := 1, enqueue := 0, dequeue := 0\<rparr>\<rparr>"
    using program_rings_effect(3) [of E x s0] assms(1) by auto
  have ok: "xhci_ok (ctrls s' x)" using q
    by (simp add: e assms(2) init_bufs_def clear_ring_def xhci_ok_def ring_ok_def XHCI_RING_ITEMS_def)
  moreover have "\<not> fresh (evts (ctrls s' x)) 0"
    by (simp add: e assms(2) init_bufs_def clear_ring_def XHCI_RING_ITEMS_def fresh_def ring_pos_def zero_trb_def TRB_C_def)
  moreover have "cmds (ctrls s' x) = new_ring (as ! 3) 16"
    by (simp add: e assms(2) init_bufs_def clear_ring_def XHCI_RING_ITEMS_def new_ring_def)
  ultimately show ?thesis using ready_empty [of "evts (ctrls s' x)"] by (simp add: xhci_ok_def)
qed

lemma alloc_bufs_spec:
  assumes "heap_ok s" and "\<forall>(sz, al, bd) \<in> set rs. fair sz al bd"
  shows "\<exists>ok as s'. alloc_bufs rs s = Some (ok, as, s') \<and> heap_ok s' \<and> length as = length rs \<and>
    distinct (nonnull as) \<and> set (nonnull as) \<inter> live s = {} \<and> live s' = live s \<union> set (nonnull as) \<and>
    alloc_state.more s' = alloc_state.more s \<and> (ok \<longrightarrow> NULL \<notin> set as)"
  using assms
proof (induction rs arbitrary: s)
  case (Cons q rs)
  obtain sz al bd where q: "q = (sz, al, bd)" by (cases q)
  have f: "fair sz al bd" using Cons.prems(2) q by auto
  from kmalloc_fair [OF Cons.prems(1) f] show ?case
  proof (elim disjE exE conjE)
    fix b s1
    assume b: "kmalloc sz al bd s = Some (K_SUCCESS, Some b, s1)" "heap_ok s1" "b \<notin> live s" "b \<noteq> NULL"
      "live s1 = insert b (live s)" "alloc_state.more s1 = alloc_state.more s"
    obtain ok as s2 where "alloc_bufs rs s1 = Some (ok, as, s2)" "heap_ok s2" "length as = length rs"
        "distinct (nonnull as)" "set (nonnull as) \<inter> live s1 = {}" "live s2 = live s1 \<union> set (nonnull as)"
        "alloc_state.more s2 = alloc_state.more s1" "ok \<longrightarrow> NULL \<notin> set as"
      using Cons.IH [OF b(2)] Cons.prems(2) by auto
    then show ?thesis using b q by auto
  next
    assume "kmalloc sz al bd s = Some (K_NOMEM, None, s)"
    then show ?thesis using q Cons.prems(1) by auto
  qed
qed auto


subsection \<open>Scratchpads\<close>

definition pad_slot :: "addr \<Rightarrow> nat \<Rightarrow> addr" where
  "pad_slot spba j = spba + 8 * word_of_nat j"

definition pads :: "addr \<Rightarrow> 'h usb_state \<Rightarrow> nat list \<Rightarrow> addr list" where
  "pads spba s js = List.map (\<lambda>j. PHYS_TO_VIRT (pt_mem s (pad_slot spba j))) js"

lemma pad_slot_inject:
  assumes "i \<le> 512" "j \<le> 512" "pad_slot spba i = pad_slot spba j"
  shows "i = j"
proof -
  have u: "unat (8 * word_of_nat k :: addr) = 8 * k" if "k \<le> 512" for k
  proof -
    have "8 * k < 2 ^ LENGTH(64)" using that by simp
    then have "unat (word_of_nat (8 * k) :: addr) = 8 * k" by (rule unat_of_nat_lt)
    moreover have "word_of_nat (8 * k) = (8 * word_of_nat k :: addr)" by simp
    ultimately show ?thesis by (simp only:)
  qed
  have "8 * word_of_nat i = (8 * word_of_nat j :: addr)" using assms(3) by (simp add: pad_slot_def)
  then have "8 * i = 8 * j" by (simp only: u [OF assms(1), symmetric] u [OF assms(2), symmetric])
  then show ?thesis by simp
qed

lemma free_pads:
  assumes "heap_ok s" and "distinct (pads spba s js)" and "set (pads spba s js) \<subseteq> live s"
  shows "\<exists>s'. fold_option (\<lambda>j s. kfree (PHYS_TO_VIRT (pt_mem s (pad_slot spba j))) s) js s = Some s' \<and> heap_ok s' \<and>
    live s' = live s - set (pads spba s js) \<and> alloc_state.more s' = alloc_state.more s"
  using assms
proof (induction js arbitrary: s)
  case (Cons j js)
  let ?p = "PHYS_TO_VIRT (pt_mem s (pad_slot spba j))"
  obtain s1 where s1: "kfree ?p s = Some s1" "heap_ok s1" "live s1 = live s - {?p}" "alloc_state.more s1 = alloc_state.more s"
    using kfree_live [of s ?p] Cons.prems by (auto simp: pads_def)
  have c: "pads spba s (j # js) = ?p # pads spba s js" by (simp add: pads_def)
  have p: "pads spba s1 js = pads spba s js" using usb_more(2) [OF s1(4)] by (simp add: pads_def)
  have "set (pads spba s1 js) \<subseteq> live s1" unfolding p s1(3) using Cons.prems(2,3) unfolding c by auto
  moreover have "distinct (pads spba s1 js)" unfolding p using Cons.prems by (simp add: pads_def)
  ultimately obtain s2 where s2: "fold_option (\<lambda>j s. kfree (PHYS_TO_VIRT (pt_mem s (pad_slot spba j))) s) js s1 = Some s2" "heap_ok s2"
      "live s2 = live s1 - set (pads spba s1 js)" "alloc_state.more s2 = alloc_state.more s1"
    using Cons.IH [OF s1(2)] by blast
  have "alloc_state.more s2 = alloc_state.more s" using s1(4) s2(4) by simp
  moreover have "live s2 = live s - set (pads spba s (j # js))" unfolding s2(3) p s1(3) c by auto
  ultimately show ?case using s1(1) s2(1,2) by simp
qed (auto simp: pads_def)

text \<open>
  Either every scratchpad is there, or those that were there and the array are free again.
\<close>

lemma alloc_pads_spec:
  assumes "heap_ok s" and "n + i \<le> 512" and "live s = L \<union> set (pads spba s [0..<i])" and "spba \<in> L"
    and "L \<inter> set (pads spba s [0..<i]) = {}" and "distinct (pads spba s [0..<i])"
  shows "\<exists>ok s'. alloc_pads n i spba s = Some (ok, s') \<and> heap_ok s' \<and> ctrls s' = ctrls s \<and>
    (if ok then L \<subseteq> live s' else live s' = L - {spba})"
  using assms
proof (induction n arbitrary: i s)
  case (Suc n)
  have f: "fair (ucast XHCI_PAGE_SIZE) (ucast XHCI_PAGE_SIZE) (ucast XHCI_PAGE_SIZE)"
    by (auto simp: fair_def XHCI_PAGE_SIZE_def MAX_ALLOCATE_MEMORY_SIZE_def intro: exI [of _ 12])
  from kmalloc_fair [OF Suc.prems(1) f] show ?case
  proof (elim disjE exE conjE)
    fix b s1
    assume b: "kmalloc (ucast XHCI_PAGE_SIZE) (ucast XHCI_PAGE_SIZE) (ucast XHCI_PAGE_SIZE) s = Some (K_SUCCESS, Some b, s1)"
      "heap_ok s1" "b \<notin> live s" "b \<noteq> NULL" "live s1 = insert b (live s)" "alloc_state.more s1 = alloc_state.more s"
    let ?s = "mem_set (pad_slot spba i) (VIRT_TO_PHYS b) s1"
    have "pad_slot spba j \<noteq> pad_slot spba i" if "j < i" for j
      using pad_slot_inject [of j i spba] Suc.prems(2) that by auto
    then have old: "pads spba ?s [0..<i] = pads spba s [0..<i]"
      using usb_more(2) [OF b(6)] by (auto simp: pads_def)
    then have p: "pads spba ?s [0..<Suc i] = pads spba s [0..<i] @ [b]"
      by (simp add: pads_def PHYS_TO_VIRT_def VIRT_TO_PHYS_def)
    have "live ?s = L \<union> set (pads spba ?s [0..<Suc i])" "L \<inter> set (pads spba ?s [0..<Suc i]) = {}"
        "distinct (pads spba ?s [0..<Suc i])"
      unfolding p using b(3,5) Suc.prems(3-6) by auto
    then have "\<exists>ok s'. alloc_pads n (Suc i) spba ?s = Some (ok, s') \<and> heap_ok s' \<and> ctrls s' = ctrls ?s \<and>
        (if ok then L \<subseteq> live s' else live s' = L - {spba})"
      using Suc.IH [of ?s "Suc i"] Suc.prems(2,4) b(2) by simp
    then show ?thesis using b(1) usb_more(1) [OF b(6)] by (auto simp flip: pad_slot_def)
  next
    assume no: "kmalloc (ucast XHCI_PAGE_SIZE) (ucast XHCI_PAGE_SIZE) (ucast XHCI_PAGE_SIZE) s = Some (K_NOMEM, None, s)"
    have r: "set (pads spba s (rev [0..<i])) = set (pads spba s [0..<i])" "distinct (pads spba s (rev [0..<i]))"
      using Suc.prems(6) by (simp_all add: pads_def rev_map [symmetric])
    obtain s1 where s1: "fold_option (\<lambda>j s. kfree (PHYS_TO_VIRT (pt_mem s (pad_slot spba j))) s) (rev [0..<i]) s = Some s1"
        "heap_ok s1" "live s1 = L" "alloc_state.more s1 = alloc_state.more s"
      using free_pads [OF Suc.prems(1) r(2)] Suc.prems(3,5) unfolding r(1) by blast
    obtain s2 where s2: "kfree spba s1 = Some s2" "heap_ok s2" "live s2 = L - {spba}" "alloc_state.more s2 = alloc_state.more s1"
      using kfree_live [of s1 spba] s1 Suc.prems(4) by auto
    have "alloc_state.more s2 = alloc_state.more s" using s1(4) s2(4) by simp
    then show ?thesis using no s1(1) s2(1-3) usb_more(1) [of s2 s]
      by (intro exI [of _ False] exI [of _ s2]) (simp flip: pad_slot_def)
  qed
qed auto

text \<open>The array and the scratchpads together.\<close>

lemma add_pads_spec:
  assumes h: "heap_ok s" and n: "unat spb \<le> 512"
  shows "\<exists>ok s'. add_pads x spb s = Some (ok, s') \<and> heap_ok s' \<and> ctrls s' = ctrls s \<and>
    (if ok then live s \<subseteq> live s' else live s' = live s)"
proof (cases "spb = 0")
  case False
  have u: "unat (8 * ucast spb :: u64) = 8 * unat spb"
    using n by (simp add: unat_word_ariths unsigned_ucast_eq take_bit_nat_eq_self)
  have "0 < unat spb" using False by (simp add: unat_gt_0)
  then have f: "fair (8 * ucast spb) 64 4096" using n u
    by (auto simp: fair_def MAX_ALLOCATE_MEMORY_SIZE_def word_less_nat_alt word_le_nat_alt intro!: exI [of _ 12])
  from kmalloc_fair [OF h f] show ?thesis
  proof (elim disjE exE conjE)
    fix b s1
    assume b: "kmalloc (8 * ucast spb) 64 4096 s = Some (K_SUCCESS, Some b, s1)"
      "heap_ok s1" "b \<notin> live s" "b \<noteq> NULL" "live s1 = insert b (live s)" "alloc_state.more s1 = alloc_state.more s"
    obtain ok s2 where s2: "alloc_pads (unat spb) 0 b s1 = Some (ok, s2)" "heap_ok s2" "ctrls s2 = ctrls s1"
        "if ok then live s1 \<subseteq> live s2 else live s2 = live s1 - {b}"
      using alloc_pads_spec [OF b(2), of "unat spb" 0 "live s1" b] n b(5) by (auto simp: pads_def)
    show ?thesis using False b s2 usb_more(1) [OF b(6)] by (cases ok) (auto simp: add_pads_def)
  next
    assume "kmalloc (8 * ucast spb) 64 4096 s = Some (K_NOMEM, None, s)"
    then show ?thesis using False h by (intro exI [of _ False] exI [of _ s]) (simp add: add_pads_def)
  qed
qed (use h in \<open>intro exI [of _ True] exI [of _ s], simp add: add_pads_def\<close>)


subsection \<open>Starting a controller\<close>

text \<open>
  The array of addresses is served from one page of 4 KiB: a controller that asks for more than 512
  scratchpads cannot be served.
\<close>

definition few_pads :: "'h usb_env \<Rightarrow> addr \<Rightarrow> bool" where
  "few_pads E x \<longleftrightarrow> (\<forall>s. unat (max_scratchpads (fst (xhci_read_cap E x XHCI_CAP_HCSPARAM2 s))) \<le> 512)"

lemma bufs_fair:
  assumes "slots c \<le> 0xff"
  shows "\<forall>(sz, al, bd) \<in> set (xhci_bufs c). fair sz al bd"
proof -
  have u: "unat (8 * ucast (slots c + 1) :: u64) = 8 * (unat (slots c) + 1)"
    using assms by (simp add: unat_word_ariths unsigned_ucast_eq take_bit_nat_eq_self word_le_nat_alt)
  have "fair (8 * ucast (slots c + 1)) 64 0"
    using assms u by (simp add: fair_def MAX_ALLOCATE_MEMORY_SIZE_def word_less_nat_alt word_le_nat_alt)
  moreover have "fair XHCI_RING_SIZE 64 65536"
    by (auto simp: fair_def XHCI_RING_SIZE_def MAX_ALLOCATE_MEMORY_SIZE_def intro: exI [of _ 16])
  ultimately show ?thesis by (auto simp: xhci_bufs_def fair_def XHCI_RING_SIZE_def MAX_ALLOCATE_MEMORY_SIZE_def)
qed



text \<open>A controller whose registers all read as zero, on the memory of the example.\<close>

definition example_usb :: "unit usb_state" where
  "example_usb = pt_state.extend (alloc_state.extend example_alloc (pt_state.fields (\<lambda>_. 0) 0))
     \<lparr>pci = \<lparr>hw = (), pci_devices = [], number_of_pci_device = 0, stack_device = example_device\<rparr>,
      ctrls = (\<lambda>_. example_xhci), hubs = (\<lambda>_. \<lparr>hub_usb_dev = 0, hub_ctrl = 0, portcount = 0\<rparr>),
      usb_devs = (\<lambda>_. \<lparr>hub = 0, defpipe = 0, port = 0, config = 0,
        iface = 0, imax = 0, speed = 0, dev_addr = 0\<rparr>), pipes = (\<lambda>_. zero_pipe), ctx_mem = (\<lambda>_. 0), usb_mem = (\<lambda>_. 0)\<rparr>"


end
