(* ===== verification/Usb.thy ===== *)
theory Usb
  imports XhciSetup
begin

text \<open>
  The rest of \<^verbatim>\<open>device/usb/service/usb.c\<close> and \<^verbatim>\<open>device/usb/hid/hid.c\<close>: what the two
  tasks of the USB service do when a device is plugged in. The local variables that a device writes to lie at
  the addresses \<open>di\<close> (its descriptor) and \<open>cf\<close> (the head of its configuration).
\<close>

definition USB_MAXADDR :: u8 where "USB_MAXADDR = 127"
definition USB_TIME_RSTRCY :: u32 where "USB_TIME_RSTRCY = 10"
definition USB_TIME_SETADDR_RECOVERY :: u32 where "USB_TIME_SETADDR_RECOVERY = 2"
definition USB_REQ_GET_DESCRIPTOR :: u8 where "USB_REQ_GET_DESCRIPTOR = 0x06"
definition USB_REQ_SET_CONFIGURATION :: u8 where "USB_REQ_SET_CONFIGURATION = 0x09"
definition USB_DT_DEVICE :: u16 where "USB_DT_DEVICE = 0x01"
definition USB_DT_CONFIG :: u16 where "USB_DT_CONFIG = 0x02"
definition USB_CLASS_HID :: u8 where "USB_CLASS_HID = 3"
definition USB_CLASS_MASS_STORAGE :: u8 where "USB_CLASS_MASS_STORAGE = 8"
definition USB_CLASS_HUB :: u8 where "USB_CLASS_HUB = 9"
definition USB_INTERFACE_SUBCLASS_BOOT :: u8 where "USB_INTERFACE_SUBCLASS_BOOT = 1"
definition US_PR_BULK :: u8 where "US_PR_BULK = 0x50"
definition US_PR_UAS :: u8 where "US_PR_UAS = 0x62"

subsection \<open>Pipes\<close>

definition usb_realloc_pipe ::
  "'h usb_env \<Rightarrow> addr \<Rightarrow> addr \<Rightarrow> usb_endpoint_descriptor option \<Rightarrow> 'h usb_state \<Rightarrow> (addr \<times> 'h usb_state) option" where
  "usb_realloc_pipe E d p epdesc s = xhci_realloc_pipe E d p epdesc s"

definition usb_send_pipe ::
  "'h usb_env \<Rightarrow> addr \<Rightarrow> bool \<Rightarrow> usb_ctrl_request option \<Rightarrow> addr \<Rightarrow> u32 \<Rightarrow> 'h usb_state \<Rightarrow> (int \<times> 'h usb_state) option" where
  "usb_send_pipe E p dir cmd buf n s = xhci_send_pipe E p dir cmd buf n s"

definition usb_alloc_pipe ::
  "'h usb_env \<Rightarrow> addr \<Rightarrow> usb_endpoint_descriptor option \<Rightarrow> 'h usb_state \<Rightarrow> (addr \<times> 'h usb_state) option" where
  "usb_alloc_pipe E d epdesc s = usb_realloc_pipe E d NULL epdesc s"

definition usb_free_pipe :: "'h usb_env \<Rightarrow> addr \<Rightarrow> addr \<Rightarrow> 'h usb_state \<Rightarrow> 'h usb_state option" where
  "usb_free_pipe E d p s = (if p = NULL then Some s else do { (_, s) \<leftarrow> usb_realloc_pipe E d p None s; Some s })"

definition usb_send_default_control ::
  "'h usb_env \<Rightarrow> addr \<Rightarrow> usb_ctrl_request \<Rightarrow> addr \<Rightarrow> 'h usb_state \<Rightarrow> (int \<times> 'h usb_state) option" where
  "usb_send_default_control E p req buf s =
     usb_send_pipe E p (bRequestType req AND USB_DIR_IN \<noteq> 0) (Some req) buf (ucast (wLength req)) s"

subsection \<open>Requests to a device\<close>

definition get_device_info8 :: "'h usb_env \<Rightarrow> addr \<Rightarrow> addr \<Rightarrow> 'h usb_state \<Rightarrow> (int \<times> 'h usb_state) option" where
  "get_device_info8 E p dinfo s = usb_send_default_control E p
     \<lparr>bRequestType = USB_DIR_IN, bRequest = USB_REQ_GET_DESCRIPTOR, wValue = push_bit 8 USB_DT_DEVICE, wIndex = 0,
      wLength = 8\<rparr> dinfo s"

definition u16_at :: "(addr \<Rightarrow> u8) \<Rightarrow> addr \<Rightarrow> u16" where
  "u16_at mm a = ucast (mm a) OR push_bit 8 (ucast (mm (a + 1)))"

definition wTotalLength :: "(addr \<Rightarrow> u8) \<Rightarrow> addr \<Rightarrow> u16" where "wTotalLength mm c = u16_at mm (c + 2)"

definition config_request :: "u16 \<Rightarrow> usb_ctrl_request" where
  "config_request n = \<lparr>bRequestType = USB_DIR_IN, bRequest = USB_REQ_GET_DESCRIPTOR, wValue = push_bit 8 USB_DT_CONFIG,
     wIndex = 0, wLength = n\<rparr>"

text \<open>The null pointer stands for failure.\<close>

definition get_device_config :: "'h usb_env \<Rightarrow> addr \<Rightarrow> addr \<Rightarrow> 'h usb_state \<Rightarrow> (addr \<times> 'h usb_state) option" where
  "get_device_config E p cf s = do {
     (ret, s) \<leftarrow> usb_send_default_control E p (config_request 9) cf s;
     if ret \<noteq> 0 then Some (NULL, s)
     else do {
       (status, r, s) \<leftarrow> kmalloc (ucast (wTotalLength (usb_mem s) cf)) 16 0 s;
       if ERROR status then Some (NULL, s)
       else do {
         p_config \<leftarrow> r;
         (ret, s) \<leftarrow> usb_send_default_control E p (config_request (wTotalLength (usb_mem s) cf)) p_config s;
         if ret \<noteq> 0 \<or> wTotalLength (usb_mem s) p_config \<noteq> wTotalLength (usb_mem s) cf
         then do { s \<leftarrow> kfree p_config s; Some (NULL, s) }
         else Some (p_config, s) } } }"

definition set_configuration :: "'h usb_env \<Rightarrow> addr \<Rightarrow> u16 \<Rightarrow> 'h usb_state \<Rightarrow> (int \<times> 'h usb_state) option" where
  "set_configuration E p val s = usb_send_default_control E p
     \<lparr>bRequestType = 0, bRequest = USB_REQ_SET_CONFIGURATION, wValue = val, wIndex = 0, wLength = 0\<rparr> NULL s"

definition control_epdesc :: "u16 \<Rightarrow> usb_endpoint_descriptor" where
  "control_epdesc mp = \<lparr>bEndpointAddress = 0, bmAttributes = USB_ENDPOINT_XFER_CONTROL, wMaxPacketSize = mp, bInterval = 0\<rparr>"

definition usb_set_address :: "'h usb_env \<Rightarrow> addr \<Rightarrow> 'h usb_state \<Rightarrow> (int \<times> 'h usb_state) option" where
  "usb_set_address E d s = do {
     let x = hub_ctrl (hubs s (hub (usb_devs s d)));
     if max_addr (ctrls s x) \<ge> USB_MAXADDR then Some (-1, s)
     else do {
       let s = msleep E USB_TIME_RSTRCY s;
       let epdesc = control_epdesc (word_of_int (speed_to_ctrl_size (speed (usb_devs s d))));
       (p, s) \<leftarrow> usb_alloc_pipe E d (Some epdesc) s;
       let s = upd_dev d (defpipe_update (\<lambda>_. p)) s;
       if p = NULL then Some (-1, s)
       else do {
         (ret, s) \<leftarrow> usb_send_default_control E p
           \<lparr>bRequestType = 0, bRequest = USB_REQ_SET_ADDRESS, wValue = ucast (max_addr (ctrls s x)) + 1, wIndex = 0,
            wLength = 0\<rparr> NULL s;
         if ret \<noteq> 0 then do { s \<leftarrow> usb_free_pipe E d p s; Some (ret, s) }
         else do {
           let s = msleep E USB_TIME_SETADDR_RECOVERY s;
           let s = upd_xhci x (max_addr_update (\<lambda>n. n + 1)) s;
           let s = upd_dev d (dev_addr_update (\<lambda>_. max_addr (ctrls s x))) s;
           (p, s) \<leftarrow> usb_realloc_pipe E d (defpipe (usb_devs s d)) (Some epdesc) s;
           let s = upd_dev d (defpipe_update (\<lambda>_. p)) s;
           Some (if p = NULL then -1 else 0, s) } } } }"

subsection \<open>Choosing an interface\<close>

text \<open>Hubs, two kinds of mass storage and boot devices are supported.\<close>

definition supported :: "(addr \<Rightarrow> u8) \<Rightarrow> addr \<Rightarrow> bool" where
  "supported mm a \<longleftrightarrow> mm (a + 5) = USB_CLASS_HUB \<or>
     mm (a + 5) = USB_CLASS_MASS_STORAGE \<and> (mm (a + 7) = US_PR_BULK \<or> mm (a + 7) = US_PR_UAS) \<or>
     mm (a + 5) = USB_CLASS_HID \<and> mm (a + 6) = USB_INTERFACE_SUBCLASS_BOOT"

text \<open>The loop: \<open>n\<close> interfaces are left, \<open>e\<close> is the end; \<open>Some None\<close> means not supported.\<close>

partial_function (option) find_iface :: "(addr \<Rightarrow> u8) \<Rightarrow> addr \<Rightarrow> nat \<Rightarrow> addr \<Rightarrow> addr option option" where
  "find_iface mm e n a =
     (if n = 0 \<or> a + ucast (mm a) > e then Some None
      else if mm (a + 1) = USB_DT_INTERFACE
        then if supported mm a then Some (Some a) else find_iface mm e (n - 1) (a + ucast (mm a))
      else find_iface mm e n (a + ucast (mm a)))"

definition usb_hid_setup :: "addr \<Rightarrow> 'h usb_state \<Rightarrow> int option" where
  "usb_hid_setup d s =
     (if usb_mem s (iface (usb_devs s d) + 6) \<noteq> USB_INTERFACE_SUBCLASS_BOOT then Some (-1)
      else do {
        epdesc \<leftarrow> usb_find_desc d USB_ENDPOINT_XFER_INT USB_DIR_IN s;
        Some (if epdesc = None then -1 else 0) })"

definition max_packet_of :: "(addr \<Rightarrow> u8) \<Rightarrow> addr \<Rightarrow> u16" where
  "max_packet_of mm di = (if u16_at mm (di + 2) \<ge> 0x0300 then push_bit (unat (mm (di + 7))) 1 else ucast (mm (di + 7)))"

definition configure_usb_device :: "'h usb_env \<Rightarrow> addr \<Rightarrow> addr \<Rightarrow> addr \<Rightarrow> 'h usb_state \<Rightarrow> (int \<times> 'h usb_state) option" where
  "configure_usb_device E di cf d s = do {
     (ret, s) \<leftarrow> get_device_info8 E (defpipe (usb_devs s d)) di s;
     let mp = max_packet_of (usb_mem s) di;
     if ret \<noteq> 0 \<or> mp < 8 then Some (0, s)
     else do {
       (p, s) \<leftarrow> usb_realloc_pipe E d (defpipe (usb_devs s d)) (Some (control_epdesc mp)) s;
       let s = upd_dev d (defpipe_update (\<lambda>_. p)) s;
       if p = NULL then Some (-1, s)
       else do {
         (c, s) \<leftarrow> get_device_config E p cf s;
         if c = NULL then Some (-1, s)
         else do {
           let mm = usb_mem s;
           let config_end = c + ucast (wTotalLength mm c);
           found \<leftarrow> find_iface mm config_end (unat (mm (c + 4))) (c + 9);
           case found of
             None \<Rightarrow> do { s \<leftarrow> kfree c s; Some (-1, s) }
           | Some a \<Rightarrow> do {
               (ret, s) \<leftarrow> set_configuration E p (ucast (mm (c + 5))) s;
               if ret \<noteq> 0 then do { s \<leftarrow> kfree c s; Some (-1, s) }
               else do {
                 let s = upd_dev d (\<lambda>v. v\<lparr>config := c, iface := a, imax := sint (c + ucast (wTotalLength (usb_mem s) c) - a)\<rparr>) s;
                 let cl = usb_mem s (a + 5);
                 _ \<leftarrow> (if cl = USB_CLASS_HUB \<or> cl = USB_CLASS_MASS_STORAGE then Some 0 else usb_hid_setup d s);
                 s \<leftarrow> kfree c s;
                 Some (1, s) } } } } } }"

subsection \<open>Ports\<close>

definition usb_hub_port_setup :: "'h usb_env \<Rightarrow> addr \<Rightarrow> addr \<Rightarrow> addr \<Rightarrow> 'h usb_state \<Rightarrow> (int \<times> 'h usb_state) option" where
  "usb_hub_port_setup E di cf d s = do {
     let hb = hub (usb_devs s d);
     let p = port (usb_devs s d);
     let fail = (\<lambda>ret s. do { s \<leftarrow> kfree d s; Some (ret, s) });
     let (ret, s) = xhci_hub_reset E hb p s;
     if ret < 0 then fail ret s
     else do {
       let s = upd_dev d (speed_update (\<lambda>_. word_of_int ret)) s;
       (ret, s) \<leftarrow> usb_set_address E d s;
       if ret < 0 then fail ret s
       else do {
         (n, s) \<leftarrow> configure_usb_device E di cf d s;
         if n < 0 then fail ret s else Some (0, s) } } }"

definition USB_DEVICE_T_SIZE :: u64 where "USB_DEVICE_T_SIZE = 48"

text \<open>One hub in a round of \<^verbatim>\<open>usb_main\<close>: take an event of a port, if there is one, and handle it.\<close>

definition usb_port_event :: "'h usb_env \<Rightarrow> addr \<Rightarrow> addr \<Rightarrow> addr \<Rightarrow> 'h usb_state \<Rightarrow> 'h usb_state option" where
  "usb_port_event E di cf hb s = do {
     let x = hub_ctrl (hubs s hb);
     if fifo_empty (port_evts (ctrls s x)) then Some s
     else do {
       (_, r, f) \<leftarrow> fifo_read (port_evts (ctrls s x)) True;
       let s = upd_xhci x (port_evts_update (\<lambda>_. f)) s;
       pc_evt \<leftarrow> r;
       if pc_evt ! 1 \<noteq> 0 then do {
         (status, r, s) \<leftarrow> kmalloc USB_DEVICE_T_SIZE 16 0 s;
         if ERROR status then Some s
         else do {
           d \<leftarrow> r;
           let s = upd_dev d (\<lambda>_. \<lparr>hub = hb, defpipe = NULL, port = ucast (pc_evt ! 0), config = NULL, iface = NULL,
             imax = 0, speed = 0, dev_addr = 0\<rparr>) s;
           (_, s) \<leftarrow> usb_hub_port_setup E di cf d s;
           Some s } }
       else (let _ = xhci_hub_disconnect hb (ucast (pc_evt ! 0)) in Some s) } }"

text \<open>The hubs are consecutive from \<open>base\<close>. The rounds of the two tasks, and the scan of the ports before them.\<close>

definition nth_hub :: "addr \<Rightarrow> nat \<Rightarrow> addr" where
  "nth_hub base i = base + USB_HUB_T_SIZE * word_of_nat i"

definition usb_main_round :: "'h usb_env \<Rightarrow> addr \<Rightarrow> addr \<Rightarrow> addr \<Rightarrow> nat \<Rightarrow> 'h usb_state \<Rightarrow> 'h usb_state option" where
  "usb_main_round E di cf base n s = fold_option (\<lambda>i. usb_port_event E di cf (nth_hub base i)) [0..<n] s"

definition scan_port :: "'h usb_env \<Rightarrow> addr \<Rightarrow> nat \<Rightarrow> 'h usb_state \<Rightarrow> 'h usb_state option" where
  "scan_port E hb p s =
     (let (r, s) = xhci_hub_detect E hb (word_of_nat p) s
      in if r \<noteq> 0 then port_status_change E (hub_ctrl (hubs s hb)) (word_of_nat p) s else Some s)"

definition scan_ports :: "'h usb_env \<Rightarrow> addr \<Rightarrow> nat \<Rightarrow> 'h usb_state \<Rightarrow> 'h usb_state option" where
  "scan_ports E base n s = fold_option (\<lambda>i s.
     fold_option (scan_port E (nth_hub base i)) [0..<unat (portcount (hubs s (nth_hub base i)))] s) [0..<n] s"

definition xhci_event_round :: "'h usb_env \<Rightarrow> addr \<Rightarrow> nat \<Rightarrow> 'h usb_state \<Rightarrow> 'h usb_state option" where
  "xhci_event_round E base n s =
     fold_option (\<lambda>i s. xhci_process_events E (hub_ctrl (hubs s (nth_hub base i))) s) [0..<n] s"


subsection \<open>The search for an interface\<close>

lemma find_iface_step:
  "find_iface mm e n a =
     (if n = 0 \<or> a + ucast (mm a) > e then Some None
      else if mm (a + 1) = USB_DT_INTERFACE \<and> supported mm a then Some (Some a)
      else find_iface mm e (if mm (a + 1) = USB_DT_INTERFACE then n - 1 else n) (a + ucast (mm a)))"
  by (subst find_iface.simps) auto

text \<open>A descriptor of length 0 that is not an interface holds the search up forever.\<close>

lemma find_iface_stuck:
  assumes "0 < n" and "a \<le> e" and "mm a = 0" and "mm (a + 1) \<noteq> USB_DT_INTERFACE"
  shows "find_iface mm e n a = None"
proof -
  have "find_iface mm' e' n' a' = Some r \<Longrightarrow> mm' = mm \<Longrightarrow> e' = e \<Longrightarrow> n' = n \<Longrightarrow> a' = a \<Longrightarrow> False" for mm' e' n' a' r
  proof (induction rule: find_iface.raw_induct [rotated, consumes 1, case_names step])
    case (step f mm' e' n' a' r)
    show ?case using step.hyps step.IH step.prems assms by (auto split: if_splits)
  qed
  then show ?thesis by (metis option.exhaust)
qed

text \<open>The walk meets no descriptor of length 0 before it passes \<open>e\<close>.\<close>

definition no_empty :: "(addr \<Rightarrow> u8) \<Rightarrow> addr \<Rightarrow> addr \<Rightarrow> bool" where
  "no_empty mm e a \<longleftrightarrow> (\<forall>k. (\<forall>j \<le> k. desc_at mm a j \<le> e) \<longrightarrow> mm (desc_at mm a k) \<noteq> 0)"

lemma walk_step:
  fixes mm :: "addr \<Rightarrow> u8"
  assumes "unat e \<le> 2 ^ 64 - 256" and "no_empty mm e a" and "a \<le> e"
  shows "unat (a + ucast (mm a)) = unat a + unat (mm a)" "0 < unat (mm a)"
    "a + ucast (mm a) \<le> e \<Longrightarrow> no_empty mm e (a + ucast (mm a))"
proof -
  have "mm a \<noteq> 0" using assms(2,3) by (auto simp: no_empty_def dest: spec [of _ 0])
  then have m: "unat (ucast (mm a) :: addr) = unat (mm a)" "unat (mm a) < 256" "0 < unat (mm a)"
    using unat_less_256 [of "mm a"] by (simp_all add: unsigned_ucast_eq take_bit_u8 unat_gt_0)
  moreover have "unat a \<le> unat e" using assms(3) by (simp add: word_le_nat_alt)
  ultimately show "unat (a + ucast (mm a)) = unat a + unat (mm a)" using assms(1) by (simp add: unat_word_ariths)
  show "0 < unat (mm a)" by (rule m(3))
  assume "a + ucast (mm a) \<le> e"
  show "no_empty mm e (a + ucast (mm a))" unfolding no_empty_def
  proof (intro allI impI)
    fix k assume k: "\<forall>j \<le> k. desc_at mm (a + ucast (mm a)) j \<le> e"
    have "desc_at mm a j \<le> e" if "j \<le> Suc k" for j using that k assms(3) by (cases j) auto
    then have "mm (desc_at mm a (Suc k)) \<noteq> 0" using assms(2) unfolding no_empty_def by blast
    then show "mm (desc_at mm (a + ucast (mm a)) k) \<noteq> 0" by simp
  qed
qed

text \<open>The search of \<^verbatim>\<open>configure_usb_device\<close> for an interface returns for every configuration without
  descriptors of length 0. What it finds is a supported interface descriptor inside the configuration.\<close>

theorem find_iface_returns:
  assumes "unat e \<le> 2 ^ 64 - 256" and "a \<le> e" and "no_empty mm e a"
  shows "\<exists>r. find_iface mm e n a = Some r \<and>
    (\<forall>b. r = Some b \<longrightarrow> a \<le> b \<and> b + ucast (mm b) \<le> e \<and> mm (b + 1) = USB_DT_INTERFACE \<and> supported mm b)"
  using assms(2,3)
proof (induction "unat e - unat a" arbitrary: a n rule: less_induct)
  case less
  define b where "b = a + ucast (mm a)"
  have w: "unat b = unat a + unat (mm a)" "0 < unat (mm a)" "b \<le> e \<Longrightarrow> no_empty mm e b"
    using walk_step [OF assms(1) less.prems(2,1)] by (simp_all add: b_def)
  consider (stop) "n = 0 \<or> b > e" | (found) "0 < n" "b \<le> e" "mm (a + 1) = USB_DT_INTERFACE" "supported mm a" |
    (next_desc) "0 < n" "b \<le> e" "\<not> (mm (a + 1) = USB_DT_INTERFACE \<and> supported mm a)" by force
  then show ?case
  proof cases
    case next_desc
    have "unat b \<le> unat e" "a \<le> b" using next_desc(2) w(1) by (simp_all add: word_le_nat_alt)
    then have "unat e - unat b < unat e - unat a" using w(1,2) by simp
    from less.hyps [OF this next_desc(2) w(3) [OF next_desc(2)]]
    obtain r where r: "find_iface mm e (if mm (a + 1) = USB_DT_INTERFACE then n - 1 else n) b = Some r"
        "\<forall>c. r = Some c \<longrightarrow> b \<le> c \<and> c + ucast (mm c) \<le> e \<and> mm (c + 1) = USB_DT_INTERFACE \<and> supported mm c"
      by blast
    have "find_iface mm e n a = Some r"
      using next_desc r(1) find_iface_step [of mm e n a] by (auto simp flip: b_def)
    then show ?thesis using r(2) \<open>a \<le> b\<close> by (auto intro: order_trans)
  qed (use find_iface_step [of mm e n a] in \<open>auto simp flip: b_def\<close>)
qed

text \<open>The configuration of a keyboard.\<close>

definition example_config :: "addr \<Rightarrow> u8" where
  "example_config a = (let bs = [9, 4, 0, 0, 1, 3, 1, 1, 0, 9, 0x21, 0, 0, 0, 0, 0, 0, 0, 7, 5, 0x81, 3, 8, 0, 10, 1, 0] in
     if unat a - 0x100 < length bs then bs ! (unat a - 0x100) else 1)"

lemma desc_at_numeral: "desc_at mm a (numeral k) = desc_at mm (a + ucast (mm a)) (pred_numeral k)"
  by (simp add: numeral_eq_Suc)

lemma find_iface_returns_witness:
  "\<exists>r. find_iface example_config 0x119 1 0x100 = Some r \<and>
    (\<forall>b. r = Some b \<longrightarrow> b + ucast (example_config b) \<le> 0x119 \<and> supported example_config b)"
proof -
  have at: "desc_at example_config 0x100 0 = 0x100" "desc_at example_config 0x100 1 = 0x109"
    "desc_at example_config 0x100 2 = 0x112" "desc_at example_config 0x100 3 = 0x119" "desc_at example_config 0x100 4 = 0x11a"
    by (simp_all add: example_config_def desc_at_numeral)
  have "no_empty example_config 0x119 0x100" unfolding no_empty_def
  proof (intro allI impI)
    fix k assume k: "\<forall>j \<le> k. desc_at example_config 0x100 j \<le> 0x119"
    have "k < 4" using spec [OF k, of 4] at(5) by (cases "k < 4") auto
    then consider "k = 0" | "k = 1" | "k = 2" | "k = 3" by linarith
    then show "example_config (desc_at example_config 0x100 k) \<noteq> 0"
      by cases (simp_all only: at; simp add: example_config_def)+
  qed
  then show ?thesis using find_iface_returns [of "0x119" "0x100" example_config 1] by force
qed

end
