(* ===== verification/AsmLibc.thy ===== *)
theory AsmLibc
  imports CString
begin

text \<open>
  The memory and string functions in assembly, \<^verbatim>\<open>lib/asm_libc.S\<close>, an alternative to \<^verbatim>\<open>src/lib/string.c\<close>:
  the string instructions of the processor over its registers, flags and memory, the functions as the sequences
  of these instructions, and what they have in common with the functions in C.
\<close>

subsection \<open>The processor's string instructions\<close>

text \<open>\<open>zf\<close> and \<open>sf\<close> are flags, \<open>lt\<close> is the condition \<^verbatim>\<open>l\<close> of a jump (sign differs from overflow).
  The direction flag is clear: every function executes \<^verbatim>\<open>cld\<close> before its first string instruction.\<close>

record cpu =
  rax :: u64
  rcx :: u64
  rdx :: u64
  rsi :: u64
  rdi :: u64
  zf :: bool
  sf :: bool
  lt :: bool
  ram :: mem

definition al :: "cpu \<Rightarrow> u8" where "al c = ucast (rax c)"

definition set_al :: "u8 \<Rightarrow> cpu \<Rightarrow> cpu" where
  "set_al b c = c\<lparr>rax := (rax c AND NOT 0xff) OR ucast b\<rparr>"

definition cmp8 :: "u8 \<Rightarrow> u8 \<Rightarrow> cpu \<Rightarrow> cpu" where
  "cmp8 a b c = c\<lparr>zf := a = b, sf := bit (a - b) 7, lt := a <s b\<rparr>"

definition test_al :: "cpu \<Rightarrow> cpu" where
  "test_al c = c\<lparr>zf := al c = 0, sf := bit (al c) 7, lt := bit (al c) 7\<rparr>"

definition dec_rcx :: "cpu \<Rightarrow> cpu" where
  "dec_rcx c = (let x = rcx c - 1 in
     c\<lparr>rcx := x, zf := x = 0, sf := bit x 63, lt := bit x 63 \<noteq> (rcx c = 0x8000000000000000)\<rparr>)"

definition stosb :: "cpu \<Rightarrow> cpu" where
  "stosb c = c\<lparr>ram := (ram c)(rdi c := al c), rdi := rdi c + 1\<rparr>"

definition lodsb :: "cpu \<Rightarrow> cpu" where
  "lodsb c = (set_al (ram c (rsi c)) c)\<lparr>rsi := rsi c + 1\<rparr>"

definition movsb :: "cpu \<Rightarrow> cpu" where
  "movsb c = c\<lparr>ram := (ram c)(rdi c := ram c (rsi c)), rsi := rsi c + 1, rdi := rdi c + 1\<rparr>"

definition cmpsb :: "cpu \<Rightarrow> cpu" where
  "cmpsb c = (cmp8 (ram c (rsi c)) (ram c (rdi c)) c)\<lparr>rsi := rsi c + 1, rdi := rdi c + 1\<rparr>"

definition scasb :: "cpu \<Rightarrow> cpu" where
  "scasb c = (cmp8 (al c) (ram c (rdi c)) c)\<lparr>rdi := rdi c + 1\<rparr>"

lemmas ins_defs = stosb_def lodsb_def movsb_def cmpsb_def scasb_def cmp8_def test_al_def dec_rcx_def Let_def

lemma set_al_fields [simp]:
  "rcx (set_al b c) = rcx c" "rdx (set_al b c) = rdx c" "rsi (set_al b c) = rsi c" "rdi (set_al b c) = rdi c"
  "zf (set_al b c) = zf c" "lt (set_al b c) = lt c" "ram (set_al b c) = ram c"
  by (simp_all add: set_al_def)

text \<open>The prefixes: \<open>n\<close> is the number of rounds left, the value of \<^verbatim>\<open>rcx\<close>; the counter is not a flag.\<close>

fun rep_rounds :: "(cpu \<Rightarrow> cpu) \<Rightarrow> nat \<Rightarrow> cpu \<Rightarrow> cpu" where
  "rep_rounds ins 0 c = c"
| "rep_rounds ins (Suc n) c = rep_rounds ins n ((ins c)\<lparr>rcx := rcx c - 1\<rparr>)"

fun rep_while :: "bool \<Rightarrow> (cpu \<Rightarrow> cpu) \<Rightarrow> nat \<Rightarrow> cpu \<Rightarrow> cpu" where
  "rep_while b ins 0 c = c"
| "rep_while b ins (Suc n) c =
     (let c' = (ins c)\<lparr>rcx := rcx c - 1\<rparr> in if zf c' = b then rep_while b ins n c' else c')"

definition rep :: "(cpu \<Rightarrow> cpu) \<Rightarrow> cpu \<Rightarrow> cpu" where "rep ins c = rep_rounds ins (unat (rcx c)) c"
definition repe :: "(cpu \<Rightarrow> cpu) \<Rightarrow> cpu \<Rightarrow> cpu" where "repe ins c = rep_while True ins (unat (rcx c)) c"
definition repne :: "(cpu \<Rightarrow> cpu) \<Rightarrow> cpu \<Rightarrow> cpu" where "repne ins c = rep_while False ins (unat (rcx c)) c"

subsection \<open>The functions\<close>

text \<open>The arguments are in \<^verbatim>\<open>rdi\<close>, \<^verbatim>\<open>rsi\<close>, \<^verbatim>\<open>rdx\<close>, the result is in \<^verbatim>\<open>rax\<close>. Of \<^verbatim>\<open>push\<close> and \<^verbatim>\<open>pop\<close> the
  model keeps that \<^verbatim>\<open>rcx\<close> is restored.\<close>

definition asm_memset :: "cpu \<Rightarrow> cpu" where
  "asm_memset c0 =
     (let c = c0\<lparr>rax := (rax c0 AND NOT 0xffff) OR (rsi c0 AND 0xffff)\<rparr>;
          c = c\<lparr>rcx := rdx c\<rparr>;
          c = rep stosb c
      in c\<lparr>rcx := rcx c0\<rparr>)"

definition asm_memcpy :: "cpu \<Rightarrow> cpu" where
  "asm_memcpy c0 =
     (let c = c0\<lparr>rax := rsi c0\<rparr>;
          c = c\<lparr>rcx := rdx c\<rparr>;
          c = rep movsb c
      in c\<lparr>rcx := rcx c0\<rparr>)"

text \<open>The 32-bit register holds 0, 1 or -1; a move to it clears the upper half and no flag.\<close>

definition asm_memcmp :: "cpu \<Rightarrow> cpu" where
  "asm_memcmp c0 =
     (let c = c0\<lparr>rcx := rdx c0\<rparr>;
          c = c\<lparr>rax := 0\<rparr>;
          c = repe cmpsb c;
          c = (if zf c then c else c\<lparr>rax := if lt c then 1 else 0xffffffff\<rparr>)
      in c\<lparr>rcx := rcx c0\<rparr>)"

partial_function (option) strcpy_loop :: "cpu \<Rightarrow> cpu option" where
  "strcpy_loop c = (let c = test_al (stosb (lodsb c)) in if \<not> zf c then strcpy_loop c else Some c)"

definition asm_strcpy :: "cpu \<Rightarrow> cpu option" where
  "asm_strcpy c0 = map_option (rax_update (\<lambda>_. rdi c0)) (strcpy_loop c0)"

partial_function (option) strcmp_loop :: "cpu \<Rightarrow> cpu option" where
  "strcmp_loop c =
     (let c = scasb (lodsb c) in
      if \<not> zf c then Some (c\<lparr>rax := if lt c then 1 else 0xffffffff\<rparr>)
      else let c = test_al c in if \<not> zf c then strcmp_loop c else Some (c\<lparr>rax := 0\<rparr>))"

definition asm_strcmp :: "cpu \<Rightarrow> cpu option" where "asm_strcmp c = strcmp_loop c"

function asm_strncpy_loop :: "cpu \<Rightarrow> cpu" where
  "asm_strncpy_loop c0 =
     (let c = dec_rcx c0 in
      if sf c then c
      else let c = test_al (stosb (lodsb c)) in
        if \<not> zf c then asm_strncpy_loop c else rep stosb c)"
  by pat_completeness auto
termination
proof (relation "measure (\<lambda>c. unat (rcx c))")
  fix c0 x xa
  assume "x = dec_rcx c0" and s: "\<not> sf x" and xa: "xa = test_al (stosb (lodsb x))"
  then have "\<not> bit (rcx c0 - 1) 63" "rcx xa = rcx c0 - 1" by (simp_all add: ins_defs)
  moreover from this have "rcx c0 \<noteq> 0" by (auto simp: bit_simps)
  ultimately show "(xa, c0) \<in> measure (\<lambda>c. unat (rcx c))" using unat_eq_Suc_minus_one [of "rcx c0"] by simp
qed simp

declare asm_strncpy_loop.simps [simp del]

definition asm_strncpy :: "cpu \<Rightarrow> cpu" where
  "asm_strncpy c0 = (asm_strncpy_loop (c0\<lparr>rcx := rdx c0\<rparr>))\<lparr>rax := rdi c0, rcx := rcx c0\<rparr>"

function asm_strncmp_loop :: "cpu \<Rightarrow> cpu" where
  "asm_strncmp_loop c0 =
     (let c = dec_rcx c0 in
      if zf c then c\<lparr>rax := 0\<rparr>
      else let c = scasb (lodsb c) in
        if \<not> zf c then c\<lparr>rax := if lt c then 1 else 0xffffffff\<rparr>
        else let c = test_al c in if \<not> zf c then asm_strncmp_loop c else c\<lparr>rax := 0\<rparr>)"
  by pat_completeness auto
termination
proof (relation "measure (\<lambda>c. unat (rcx c - 1))")
  fix c0 x xa xb
  assume "x = dec_rcx c0" and "\<not> zf x" and "xa = scasb (lodsb x)" and "xb = test_al xa"
  then have "rcx c0 - 1 \<noteq> 0" "rcx xb = rcx c0 - 1" by (simp_all add: ins_defs)
  then show "(xb, c0) \<in> measure (\<lambda>c. unat (rcx c - 1))" using unat_eq_Suc_minus_one [of "rcx c0 - 1"] by simp
qed simp

declare asm_strncmp_loop.simps [simp del]

definition asm_strncmp :: "cpu \<Rightarrow> cpu" where
  "asm_strncmp c0 = (asm_strncmp_loop (c0\<lparr>rcx := rdx c0\<rparr>))\<lparr>rcx := rcx c0\<rparr>"

definition asm_strlen :: "cpu \<Rightarrow> cpu" where
  "asm_strlen c0 =
     (let c = c0\<lparr>rcx := - 1, rax := 0\<rparr>;
          c = repne scasb c;
          c = c\<lparr>rcx := NOT (rcx c)\<rparr>;
          c = dec_rcx c
      in c\<lparr>rax := rcx c, rcx := rcx c0\<rparr>)"

subsection \<open>The instructions\<close>

lemma al_set [simp]: "al (set_al b c) = b"
proof -
  have m: "0xff = (mask 8 :: u64)" by (simp add: mask_eq_exp_minus_1)
  show ?thesis unfolding al_def set_al_def m by (intro bit_word_eqI) (simp add: bit_simps)
qed

lemma al_rax [simp]: "al (c\<lparr>rax := x\<rparr>) = ucast x"
  by (simp add: al_def)

lemma al_fields [simp]:
  "al (c\<lparr>rcx := x\<rparr>) = al c" "al (c\<lparr>rdi := x\<rparr>) = al c" "al (c\<lparr>rsi := x\<rparr>) = al c" "al (c\<lparr>ram := r\<rparr>) = al c"
  "al (c\<lparr>zf := b\<rparr>) = al c" "al (c\<lparr>sf := b\<rparr>) = al c" "al (c\<lparr>lt := b\<rparr>) = al c"
  by (simp_all add: al_def)

lemma rep_stosb: "ram (rep_rounds stosb n c) = memset_loop n (al c) (ram c) (rdi c)"
  by (induction n arbitrary: c) (simp_all add: stosb_def)

lemma rep_stosb_rax: "rax (rep_rounds stosb n c) = rax c"
  by (induction n arbitrary: c) (simp_all add: stosb_def)

lemma rep_movsb: "ram (rep_rounds movsb n c) = memcpy_loop n (ram c) (rdi c) (rsi c) \<and> rax (rep_rounds movsb n c) = rax c"
  by (induction n arbitrary: c) (simp_all add: movsb_def)

lemma rep_movsb_al [simp]: "al (rep_rounds movsb n c) = al c"
  by (simp add: al_def rep_movsb)

subsection \<open>Memory blocks\<close>

text \<open>The functions on blocks write what those in C write; they return something else than the destination,
  \<^verbatim>\<open>memcpy\<close> the source.\<close>

theorem asm_blocks_like_C:
  "ram (asm_memset c) = memset (ram c) (rdi c) (ucast (rsi c)) (rdx c) \<and>
   ram (asm_memcpy c) = memcpy (ram c) (rdi c) (rsi c) (rdx c) \<and> rax (asm_memcpy c) = rsi c \<and>
   rcx (asm_memset c) = rcx c \<and> rcx (asm_memcpy c) = rcx c"
proof -
  have m: "0xffff = (mask 16 :: u64)" by (simp add: mask_eq_exp_minus_1)
  have "ucast ((rax c AND NOT (mask 16)) OR (rsi c AND mask 16)) = (ucast (rsi c) :: u8)"
    by (rule bit_word_eqI) (simp add: bit_simps)
  moreover have "ucast (ucast (rsi c) :: u32) = (ucast (rsi c) :: u8)"
    by (rule bit_word_eqI) (simp add: bit_simps)
  ultimately show ?thesis
    by (simp add: asm_memset_def asm_memcpy_def rep_def Let_def rep_stosb rep_movsb memset_def memcpy_def m)
qed

text \<open>The difference of the first bytes that differ, as signed numbers.\<close>

fun signed_diff :: "nat \<Rightarrow> mem \<Rightarrow> addr \<Rightarrow> addr \<Rightarrow> int" where
  "signed_diff 0 m p q = 0"
| "signed_diff (Suc n) m p q = (if m p \<noteq> m q then sint (m p) - sint (m q) else signed_diff n m (p + 1) (q + 1))"

lemma sint_eq [simp]: "sint (a :: u8) = sint b \<longleftrightarrow> a = b"
  by (rule word_eq_iff_signed [symmetric])

lemma uint_eq [simp]: "uint (a :: u8) = uint b \<longleftrightarrow> a = b"
  by (rule word_uint_eq_iff [symmetric])

lemma signed_diff_0: "signed_diff n m p q = 0 \<longleftrightarrow> memcmp_loop n m p q = 0"
  by (induction n arbitrary: p q) auto

lemma signed_diff_ascii:
  "(\<And>a. m a < 0x80) \<Longrightarrow> signed_diff n m p q = memcmp_loop n m p q"
proof (induction n arbitrary: p q)
  case (Suc n)
  have "sint (m a) = uint (m a)" for a
  proof -
    have "uint (m a) < 128" "- 128 \<le> uint (m a)"
      using Suc.prems [of a] order.trans [of "- 128" 0 "uint (m a)"] by (simp_all add: word_less_def)
    then have "signed_take_bit 7 (uint (m a)) = uint (m a)" by (intro signed_take_bit_int_eq_self) simp_all
    then show ?thesis by (simp add: sint_uint)
  qed
  then show ?case using Suc by simp
qed simp

lemma repe_cmpsb:
  "zf (rep_while True cmpsb (Suc n) c) = (signed_diff (Suc n) (ram c) (rdi c) (rsi c) = 0) \<and>
   (signed_diff (Suc n) (ram c) (rdi c) (rsi c) \<noteq> 0 \<longrightarrow>
     lt (rep_while True cmpsb (Suc n) c) = (0 < signed_diff (Suc n) (ram c) (rdi c) (rsi c)))"
proof (induction n arbitrary: c)
  case 0
  show ?case by (auto simp: ins_defs word_sless_alt)
next
  case (Suc n)
  show ?case
  proof (cases "ram c (rsi c) = ram c (rdi c)")
    case True
    let ?d = "(cmpsb c)\<lparr>rcx := rcx c - 1\<rparr>"
    have "zf ?d" "ram ?d = ram c" "rdi ?d = rdi c + 1" "rsi ?d = rsi c + 1" using True by (simp_all add: ins_defs)
    then show ?thesis using Suc [of ?d] True
      by (subst rep_while.simps, subst (2) rep_while.simps) (simp del: rep_while.simps signed_diff.simps add: signed_diff.simps(2) [of "Suc n"])
  next
    case False
    then show ?thesis by (auto simp: ins_defs word_sless_alt)
  qed
qed

text \<open>The result of a function that compares, from the sign of a difference.\<close>

definition sign_result :: "int \<Rightarrow> u64" where
  "sign_result d = (if d = 0 then 0 else if 0 < d then 1 else 0xffffffff)"

text \<open>For a block that is not empty \<^verbatim>\<open>memcmp\<close> finds the same equality as the one in C, and the sign of the signed
  difference; for an empty one the result depends on the flags that the caller left.\<close>

theorem asm_memcmp_sign:
  assumes "rdx c \<noteq> 0"
  shows "rax (asm_memcmp c) = sign_result (signed_diff (unat (rdx c)) (ram c) (rdi c) (rsi c)) \<and>
    (rax (asm_memcmp c) = 0 \<longleftrightarrow> memcmp (ram c) (rdi c) (rsi c) (rdx c) = 0)"
proof -
  obtain n where n: "unat (rdx c) = Suc n" using unat_eq_Suc_minus_one [OF assms] by blast
  let ?c = "c\<lparr>rcx := rdx c, rax := 0\<rparr>"
  have keeps: "rax (rep_while True cmpsb k d) = rax d" for k d
    by (induction k arbitrary: d) (simp_all add: ins_defs)
  have "rax (asm_memcmp c) = sign_result (signed_diff (unat (rdx c)) (ram c) (rdi c) (rsi c))"
    using repe_cmpsb [of n ?c]
    by (auto simp: asm_memcmp_def Let_def repe_def n sign_result_def keeps simp del: rep_while.simps signed_diff.simps)
  then show ?thesis by (simp add: sign_result_def signed_diff_0 memcmp_def)
qed

lemma asm_memcmp_empty: "rdx c = 0 \<Longrightarrow> rax (asm_memcmp c) = (if zf c then 0 else if lt c then 1 else 0xffffffff)"
  by (simp add: asm_memcmp_def Let_def repe_def)

subsection \<open>Strings\<close>

text \<open>One round of the loops.\<close>

lemma test_al_fields [simp]:
  "al (test_al c) = al c" "zf (test_al c) \<longleftrightarrow> al c = 0" "ram (test_al c) = ram c" "rdi (test_al c) = rdi c" "rsi (test_al c) = rsi c" "rcx (test_al c) = rcx c"
  by (simp_all add: test_al_def)

lemma strcpy_round:
  "al (stosb (lodsb c)) = ram c (rsi c)" "ram (stosb (lodsb c)) = (ram c)(rdi c := ram c (rsi c))"
  "rdi (stosb (lodsb c)) = rdi c + 1" "rsi (stosb (lodsb c)) = rsi c + 1" "rcx (stosb (lodsb c)) = rcx c"
  by (simp_all add: ins_defs)

lemma strcmp_round:
  "zf (scasb (lodsb c)) \<longleftrightarrow> ram c (rsi c) = ram c (rdi c)" "lt (scasb (lodsb c)) \<longleftrightarrow> ram c (rsi c) <s ram c (rdi c)"
  "ram (scasb (lodsb c)) = ram c" "rdi (scasb (lodsb c)) = rdi c + 1" "rsi (scasb (lodsb c)) = rsi c + 1"
  "rcx (scasb (lodsb c)) = rcx c" "al (scasb (lodsb c)) = ram c (rsi c)"
  by (simp_all add: ins_defs)

lemma strcpy_loop_ram: "strcpy_loop c = Some c' \<Longrightarrow> strcpy (ram c) (rdi c) (rsi c) = Some (ram c')"
proof (induction rule: strcpy_loop.raw_induct [rotated, consumes 1, case_names step])
  case (step f c c')
  then show ?case
    by (subst strcpy.simps) (auto simp: strcpy_round Let_def fun_upd_def split: if_splits dest!: step.IH)
qed

lemma strcpy_loop_ends: "strcpy mm d s = Some mm' \<Longrightarrow> ram c = mm \<Longrightarrow> rdi c = d \<Longrightarrow> rsi c = s \<Longrightarrow> strcpy_loop c \<noteq> None"
proof (induction arbitrary: c rule: strcpy.raw_induct [rotated, consumes 1, case_names step])
  case (step f mm d s mm')
  show ?case
  proof (cases "mm s = 0")
    case True
    then show ?thesis using step.prems by (subst strcpy_loop.simps) (simp add: strcpy_round Let_def)
  next
    case False
    then have "strcpy_loop (test_al (stosb (lodsb c))) \<noteq> None"
      using step.hyps step.prems by (intro step.IH) (auto simp: strcpy_round Let_def fun_upd_def)
    then show ?thesis using False step.prems by (subst strcpy_loop.simps) (simp add: strcpy_round Let_def)
  qed
qed

lemma strcpy_loop_like_C: "map_option ram (strcpy_loop c) = strcpy (ram c) (rdi c) (rsi c)"
  using strcpy_loop_ram [of c] strcpy_loop_ends [of "ram c" "rdi c" "rsi c" _ c]
  by (cases "strcpy_loop c"; cases "strcpy (ram c) (rdi c) (rsi c)") auto

text \<open>The sign of a difference, as the loops return it.\<close>

lemma sign_of_less: "a \<noteq> b \<Longrightarrow> (if a <s b then 1 else 0xffffffff) = sign_result (sint (b :: u8) - sint a)"
  by (auto simp: sign_result_def word_sless_alt)

lemma sign_result_0 [simp]: "sign_result 0 = 0"
  by (simp add: sign_result_def)

lemma strcmp_loop_rax:
  "strcmp_loop c = Some c' \<Longrightarrow> map_option sign_result (strcmp (ram c) (rdi c) (rsi c)) = Some (rax c')"
proof (induction rule: strcmp_loop.raw_induct [rotated, consumes 1, case_names step])
  case (step f c c')
  then show ?case
    by (subst strcmp.simps) (auto simp: strcmp_round Let_def sign_of_less split: if_splits dest!: step.IH)
qed

lemma strcmp_loop_ends: "strcmp mm p q = Some d \<Longrightarrow> ram c = mm \<Longrightarrow> rdi c = p \<Longrightarrow> rsi c = q \<Longrightarrow> strcmp_loop c \<noteq> None"
proof (induction arbitrary: c rule: strcmp.raw_induct [rotated, consumes 1, case_names step])
  case (step f mm p q d)
  show ?case
  proof (cases "mm p \<noteq> 0 \<and> mm p = mm q")
    case False
    then show ?thesis using step.prems by (subst strcmp_loop.simps) (auto simp: strcmp_round Let_def)
  next
    case True
    then have "strcmp_loop (test_al (scasb (lodsb c))) \<noteq> None"
      using step.hyps step.prems by (intro step.IH) (auto simp: strcmp_round)
    then show ?thesis using True step.prems by (subst strcmp_loop.simps) (simp add: strcmp_round Let_def)
  qed
qed

lemma strcmp_loop_like_C: "map_option rax (strcmp_loop c) = map_option sign_result (strcmp (ram c) (rdi c) (rsi c))"
  using strcmp_loop_rax [of c] strcmp_loop_ends [of "ram c" "rdi c" "rsi c" _ c]
  by (cases "strcmp_loop c"; cases "strcmp (ram c) (rdi c) (rsi c)") auto

lemma repne_scasb:
  "cstr (ram c) (rdi c) s \<Longrightarrow> al c = 0 \<Longrightarrow> length s < n \<Longrightarrow>
   rcx (rep_while False scasb n c) = rcx c - word_of_nat (Suc (length s))"
proof (induction s arbitrary: n c)
  case Nil
  then show ?case by (cases n) (auto simp: ins_defs)
next
  case (Cons b s)
  then obtain k where n: "n = Suc k" "length s < k" by (cases n) auto
  let ?d = "(scasb c)\<lparr>rcx := rcx c - 1\<rparr>"
  have "ram ?d = ram c" "rdi ?d = rdi c + 1" "al ?d = al c" "zf ?d \<longleftrightarrow> al c = ram c (rdi c)" by (simp_all add: ins_defs)
  then show ?case using Cons.IH [of ?d k] Cons.prems n by (auto simp: cstr_Cons Let_def)
qed

text \<open>\<^verbatim>\<open>strcpy\<close>, \<^verbatim>\<open>strcmp\<close> and \<^verbatim>\<open>strlen\<close> do what the functions in C do, on every memory, also where these do not
  return; of the difference \<^verbatim>\<open>strcmp\<close> returns the sign.\<close>

theorem asm_strings_like_C:
  "map_option (\<lambda>c'. (ram c', rax c')) (asm_strcpy c) = map_option (\<lambda>mm. (mm, rdi c)) (strcpy (ram c) (rdi c) (rsi c)) \<and>
   map_option rax (asm_strcmp c) = map_option sign_result (strcmp (ram c) (rdi c) (rsi c)) \<and>
   (cstr (ram c) (rdi c) s \<longrightarrow> Some (rax (asm_strlen c)) = strlen (ram c) (rdi c))"
proof -
  have "map_option (\<lambda>c'. (ram c', rax c')) (asm_strcpy c) = map_option (\<lambda>mm. (mm, rdi c)) (map_option ram (strcpy_loop c))"
    by (simp add: asm_strcpy_def option.map_comp comp_def)
  moreover have "rax (asm_strlen c) = word_of_nat (length s)" if s: "cstr (ram c) (rdi c) s"
  proof -
    let ?c = "c\<lparr>rcx := - 1, rax := 0\<rparr>"
    have "length s < unat (- 1 :: u64)"
      using s by (simp add: cstr_def unsigned_minus_1_eq_mask mask_eq_exp_minus_1)
    with s have "rcx (repne scasb ?c) = - 1 - word_of_nat (Suc (length s))"
      unfolding repne_def by (subst repne_scasb [where s = s]) simp_all
    then show ?thesis by (simp add: asm_strlen_def Let_def dec_rcx_def not_eq_complement)
  qed
  moreover have "strlen (ram c) (rdi c) = Some (word_of_nat (length s))" if "cstr (ram c) (rdi c) s"
    using strlen_from_cstr [OF that, of "rdi c"] by (simp add: strlen_def)
  ultimately show ?thesis by (simp add: strcpy_loop_like_C asm_strcmp_def strcmp_loop_like_C)
qed

subsection \<open>Strings with a bound\<close>

text \<open>What the C standard asks of \<^verbatim>\<open>strncpy\<close>: at most \<open>n\<close> characters, and nulls up to \<open>n\<close>.\<close>

fun strncpy_std :: "nat \<Rightarrow> mem \<Rightarrow> addr \<Rightarrow> addr \<Rightarrow> mem" where
  "strncpy_std 0 m d s = m"
| "strncpy_std (Suc n) m d s =
     (let m' = m(d := m s) in if m s = 0 then memset_loop n 0 m' (d + 1) else strncpy_std n m' (d + 1) (s + 1))"

lemma strncpy_std_frame: "n \<le> 2 ^ 64 \<Longrightarrow> \<not> in_block a d n \<Longrightarrow> strncpy_std n m d s a = m a"
proof (induction n arbitrary: m d s)
  case (Suc n)
  then show ?case using in_block_Suc [of n a d] by (simp add: Let_def memset_loop_spec)
qed simp

lemma strncpy_std_bytes:
  assumes "cstr m s str" and "n \<le> 2 ^ 64" and "\<And>a. in_block a d n \<Longrightarrow> \<not> in_block a s (Suc (length str))"
  shows "bytes_at (strncpy_std n m d s) d n = take n (str @ replicate n 0)"
  using assms
proof (induction n arbitrary: m d s str)
  case 0
  then show ?case by (simp add: bytes_at_def)
next
  case (Suc n)
  have le: "Suc n \<le> 2 ^ 64" by (rule Suc.prems(2))
  have d: "\<not> in_block d (d + 1) n" by (rule not_in_block_next [OF le])
  show ?case
  proof (cases str)
    case Nil
    then have "m s = 0" using Suc.prems(1) by simp
    moreover have "bytes_at (memset_loop n 0 m' (d + 1)) (d + 1) n = replicate n 0" for m'
      using le by (intro nth_equalityI) (simp_all add: memset_loop_spec in_block_offset)
    moreover have "memset_loop n 0 (m(d := 0)) (d + 1) d = 0" using d le by (simp add: memset_loop_spec)
    ultimately show ?thesis using Nil by (simp add: bytes_at_Suc Let_def)
  next
    case (Cons b bs)
    have s: "m s = b" "b \<noteq> 0" "cstr m (s + 1) bs" using Suc.prems(1) Cons by (simp_all add: cstr_Cons)
    have len: "Suc (length bs) < 2 ^ 64" using Suc.prems(1) Cons by (simp add: cstr_def)
    have out: "\<not> in_block a (s + 1) (Suc (length bs))" if "in_block a d (Suc n)" for a
      using Suc.prems(3) [OF that] len in_block_Suc [of "Suc (length bs)" a s] Cons by simp
    have "cstr (m(d := b)) (s + 1) bs"
      by (rule cstr_cong [OF s(3)]) (use out [OF in_block_start] in auto)
    then have "bytes_at (strncpy_std n (m(d := b)) (d + 1) (s + 1)) (d + 1) n = take n (bs @ replicate n 0)"
      using out le in_block_Suc [OF le] by (intro Suc.IH) (auto simp: fun_upd_def)
    moreover have "strncpy_std n (m(d := b)) (d + 1) (s + 1) d = b"
      using d le by (simp add: strncpy_std_frame)
    moreover have "take n (bs @ replicate n 0) = take n (bs @ replicate (Suc n) 0)"
      by (simp del: replicate_Suc add: min_def)
    ultimately show ?thesis using s Cons by (simp add: bytes_at_Suc Let_def del: replicate_Suc)
  qed
qed

lemma no_sign: "unat x < 2 ^ 63 \<Longrightarrow> \<not> bit (x :: u64) 63"
  using bit_unsigned_iff [of x 63, where ?'a = nat] by (simp add: bit_iff_odd)

lemma asm_strncpy_loop_std:
  "unat (rcx c) \<le> 2 ^ 63 \<Longrightarrow> ram (asm_strncpy_loop c) = strncpy_std (unat (rcx c)) (ram c) (rdi c) (rsi c)"
proof (induction "unat (rcx c)" arbitrary: c)
  case 0
  then have "rcx c = 0" by (simp add: unat_eq_0)
  then show ?case by (subst asm_strncpy_loop.simps) (simp add: dec_rcx_def Let_def bit_simps)
next
  case (Suc n)
  then have "rcx c \<noteq> 0" by auto
  then have n: "unat (rcx c - 1) = n" using Suc.hyps(2) unat_eq_Suc_minus_one [of "rcx c"] by simp
  let ?c = "dec_rcx c"
  have c: "\<not> sf ?c" "rcx ?c = rcx c - 1" "ram ?c = ram c" "rdi ?c = rdi c" "rsi ?c = rsi c"
    using no_sign [of "rcx c - 1"] n Suc.hyps(2) Suc.prems by (simp_all add: dec_rcx_def Let_def)
  have "ram (asm_strncpy_loop (test_al (stosb (lodsb ?c)))) =
      strncpy_std n ((ram c)(rdi c := ram c (rsi c))) (rdi c + 1) (rsi c + 1)"
    using Suc.hyps(1) [of "test_al (stosb (lodsb ?c))"] Suc.hyps(2) Suc.prems n by (simp add: strcpy_round c)
  then show ?case
    using c n by (subst asm_strncpy_loop.simps)
      (auto simp: strcpy_round Let_def rep_def rep_stosb Suc.hyps(2) [symmetric])
qed

text \<open>The assembly copies as the standard says, for every bound up to half of memory: no more than the bound, nulls
  behind a string that is shorter, and nothing else, unlike the function in C.\<close>

theorem asm_strncpy_standard:
  assumes "cstr (ram c) (rsi c) str" and "unat (rdx c) \<le> 2 ^ 63"
    and "\<forall>a. in_block a (rdi c) (unat (rdx c)) \<longrightarrow> \<not> in_block a (rsi c) (Suc (length str))"
  shows "bytes_at (ram (asm_strncpy c)) (rdi c) (unat (rdx c)) = take (unat (rdx c)) (str @ replicate (unat (rdx c)) 0) \<and>
    (\<forall>a. \<not> in_block a (rdi c) (unat (rdx c)) \<longrightarrow> ram (asm_strncpy c) a = ram c a) \<and> rax (asm_strncpy c) = rdi c"
proof -
  have "ram (asm_strncpy c) = strncpy_std (unat (rdx c)) (ram c) (rdi c) (rsi c)"
    using asm_strncpy_loop_std [of "c\<lparr>rcx := rdx c\<rparr>"] assms(2) by (simp add: asm_strncpy_def)
  then show ?thesis
    using strncpy_std_bytes [OF assms(1) unat_le_64, of "rdi c" "rdx c"] assms(3) strncpy_std_frame [OF unat_le_64]
    by (simp add: asm_strncpy_def)
qed

fun strncmp_std :: "nat \<Rightarrow> mem \<Rightarrow> addr \<Rightarrow> addr \<Rightarrow> int" where
  "strncmp_std 0 m p q = 0"
| "strncmp_std (Suc n) m p q =
     (if m p \<noteq> m q then sint (m p) - sint (m q) else if m p = 0 then 0 else strncmp_std n m (p + 1) (q + 1))"

lemma asm_strncmp_loop_std:
  "rax (asm_strncmp_loop c) = sign_result (strncmp_std (unat (rcx c - 1)) (ram c) (rdi c) (rsi c))"
proof (induction "unat (rcx c - 1)" arbitrary: c)
  case 0
  then have "rcx c - 1 = 0" by (simp add: unat_eq_0)
  then show ?case by (subst asm_strncmp_loop.simps) (simp add: dec_rcx_def Let_def)
next
  case (Suc n)
  then have "rcx c - 1 \<noteq> 0" by (metis nat.distinct(1) unat_0)
  then have n: "unat (rcx c - 1 - 1) = n" using Suc.hyps(2) unat_eq_Suc_minus_one [of "rcx c - 1"] by simp
  let ?c = "dec_rcx c"
  have c: "\<not> zf ?c" "rcx ?c = rcx c - 1" "ram ?c = ram c" "rdi ?c = rdi c" "rsi ?c = rsi c"
    using Suc.hyps(2) by (auto simp: dec_rcx_def Let_def)
  have "rax (asm_strncmp_loop (test_al (scasb (lodsb ?c)))) = sign_result (strncmp_std n (ram c) (rdi c + 1) (rsi c + 1))"
    using Suc.hyps(1) [of "test_al (scasb (lodsb ?c))"] n by (simp add: strcmp_round c)
  then show ?case
    using c by (subst asm_strncmp_loop.simps)
      (auto simp: strcmp_round Let_def sign_of_less Suc.hyps(2) [symmetric])
qed

text \<open>\<^verbatim>\<open>strncmp\<close> compares one character less than it is asked to; with a bound of 1 any two strings are equal.\<close>

theorem asm_strncmp_one_short:
  "rax (asm_strncmp c) = sign_result (strncmp_std (unat (rdx c - 1)) (ram c) (rdi c) (rsi c)) \<and>
   (rdx c = 1 \<longrightarrow> rax (asm_strncmp c) = 0)"
  using asm_strncmp_loop_std [of "c\<lparr>rcx := rdx c\<rparr>"] by (auto simp: asm_strncmp_def)

subsection \<open>Examples\<close>

text \<open>The string ``AB'' at 16 and an empty one at 32.\<close>

definition example_cpu :: cpu where
  "example_cpu = \<lparr>rax = 7, rcx = 9, rdx = 3, rsi = 16, rdi = 32, zf = False, sf = False, lt = True,
     ram = (\<lambda>a. if a = 16 then 65 else if a = 17 then 66 else if a = 40 then 1 else 0)\<rparr>"

lemma example_cpu_string: "cstr (ram example_cpu) 16 [65, 66]" "cstr (ram example_cpu) 32 []"
  by (simp_all add: example_cpu_def cstr_Cons)

lemma asm_strings_like_C_witness:
  "rax (asm_strlen (example_cpu\<lparr>rdi := 16\<rparr>)) = 2 \<and> map_option rax (asm_strcmp example_cpu) = Some 0xffffffff"
proof -
  have "cstr (ram (example_cpu\<lparr>rdi := 16\<rparr>)) (rdi (example_cpu\<lparr>rdi := 16\<rparr>)) [65, 66]" using example_cpu_string by simp
  then have "Some (rax (asm_strlen (example_cpu\<lparr>rdi := 16\<rparr>))) = strlen (ram (example_cpu\<lparr>rdi := 16\<rparr>)) 16"
    using asm_strings_like_C [of "example_cpu\<lparr>rdi := 16\<rparr>" "[65, 66]"] by simp
  moreover have "strlen (ram (example_cpu\<lparr>rdi := 16\<rparr>)) 16 = Some 2"
    using strlen_from_cstr [OF example_cpu_string(1), of 16] by (simp add: strlen_def)
  moreover have "strcmp (ram example_cpu) 32 16 = Some (- 65)"
    using strcmp_cstr [OF example_cpu_string(2,1)] by simp
  then have "map_option rax (asm_strcmp example_cpu) = Some 0xffffffff"
    using asm_strings_like_C [of example_cpu "[]"] by (simp add: example_cpu_def sign_result_def)
  ultimately show ?thesis by simp
qed

lemma asm_strncpy_standard_witness:
  "bytes_at (ram (asm_strncpy (example_cpu\<lparr>rdx := 5\<rparr>))) 32 5 = [65, 66, 0, 0, 0] \<and>
   ram (asm_strncpy (example_cpu\<lparr>rdx := 5\<rparr>)) 40 = 1"
proof -
  let ?c = "example_cpu\<lparr>rdx := 5\<rparr>"
  have "\<not> in_block a 16 3" if "in_block a 32 5" for a :: addr
  proof -
    from that obtain i where "i < 5" "a = 32 + word_of_nat i" by (rule in_blockE)
    moreover have "i = 0 \<or> i = 1 \<or> i = 2 \<or> i = 3 \<or> i = 4" if "i < 5" using that by linarith
    ultimately show ?thesis by (auto simp: in_block_def)
  qed
  then have "\<forall>a. in_block a (rdi ?c) (unat (rdx ?c)) \<longrightarrow> \<not> in_block a (rsi ?c) (Suc (length [65, 66 :: u8]))"
    by (simp add: example_cpu_def numeral_3_eq_3 [symmetric])
  moreover have "cstr (ram ?c) (rsi ?c) [65, 66]" using example_cpu_string(1) by (simp add: example_cpu_def)
  ultimately show ?thesis
    using asm_strncpy_standard [of ?c "[65, 66]"]
    by (simp add: example_cpu_def in_block_def numeral_3_eq_3)
qed

end
