(* ===== verification/Console.thy ===== *)
theory Console
  imports Hardware Stdio
begin

text \<open>
  The console, \<^verbatim>\<open>src/graphic/print.c\<close>: characters of a fixed-width font in a box of the frame
  buffer, a copy of the log on the serial port, and the decoder of UTF-8. The font is an argument: row \<open>i\<close> of
  character \<open>c\<close> is the byte \<open>font c i\<close>. Strings are lists of bytes without the terminating null.

  The frame buffer is a map from addresses to pixels. What the functions of the vendored
  \<^verbatim>\<open>stb_truetype.h\<close> compute, in floating point, is a record of arguments.
\<close>

record position =
  pos_x :: u32
  pos_y :: u32

record textbox =
  cur_pos :: position
  box_pos :: position
  xsize :: u32
  ysize :: u32
  char_xsize :: u32
  char_ysize :: u32

record graph_info =
  frame_buffer_base :: addr
  horizontal_resolution :: u32
  vertical_resolution :: u32
  pixel_per_scanline :: u32

type_synonym frame = "addr \<Rightarrow> u32"

text \<open>The address of pixel \<open>x\<close> in a line of the screen.\<close>

definition pixel_at :: "graph_info \<Rightarrow> u32 \<Rightarrow> u64 \<Rightarrow> addr" where
  "pixel_at gi line x = frame_buffer_base gi + 4 * (ucast (line * pixel_per_scanline gi) + x)"

definition upd_cur :: "(position \<Rightarrow> position) \<Rightarrow> textbox \<Rightarrow> textbox" where
  "upd_cur f tb = tb\<lparr>cur_pos := f (cur_pos tb)\<rparr>"

subsection \<open>Characters\<close>

definition put_row :: "(nat \<Rightarrow> addr) \<Rightarrow> u8 \<Rightarrow> u32 \<Rightarrow> frame \<Rightarrow> frame" where
  "put_row p d col m =
     fold (\<lambda>j m. if bit d (7 - j) then m(p j := col) else m) [0..<8] (fold (\<lambda>j m. m(p j := 0)) [0..<8] m)"

definition basic_put_char ::
  "(u8 \<Rightarrow> nat \<Rightarrow> u8) \<Rightarrow> graph_info \<Rightarrow> textbox \<Rightarrow> u8 \<Rightarrow> u32 \<Rightarrow> frame \<Rightarrow> frame" where
  "basic_put_char font gi tb c col m =
     fold (\<lambda>i. put_row (\<lambda>j. pixel_at gi (pos_y (box_pos tb) + pos_y (cur_pos tb) + word_of_nat i)
         (ucast (pos_x (box_pos tb)) + ucast (pos_x (cur_pos tb)) + word_of_nat j)) (font c i) col) [0..<16] m"

definition clear_lines :: "graph_info \<Rightarrow> textbox \<Rightarrow> u32 \<Rightarrow> u32 \<Rightarrow> frame \<Rightarrow> frame" where
  "clear_lines gi tb y n m =
     fold (\<lambda>i m. fold (\<lambda>j m. m(pixel_at gi (y + word_of_nat i) (ucast (word_of_nat j + pos_x (box_pos tb))) := 0))
       [0..<unat (xsize tb)] m) [0..<unat n] m"

definition clear_line :: "graph_info \<Rightarrow> textbox \<Rightarrow> frame \<Rightarrow> frame" where
  "clear_line gi tb = clear_lines gi tb (pos_y (box_pos tb) + pos_y (cur_pos tb)) (char_ysize tb)"

definition clear_textbox :: "graph_info \<Rightarrow> textbox \<times> frame \<Rightarrow> textbox \<times> frame" where
  "clear_textbox gi = (\<lambda>(tb, m).
     (tb\<lparr>cur_pos := \<lparr>pos_x = 0, pos_y = 0\<rparr>\<rparr>, clear_lines gi tb (pos_y (box_pos tb)) (ysize tb) m))"

text \<open>One round of the loop of \<^verbatim>\<open>basic_print\<close>.\<close>

definition print_step ::
  "(u8 \<Rightarrow> nat \<Rightarrow> u8) \<Rightarrow> graph_info \<Rightarrow> u32 \<Rightarrow> u8 \<Rightarrow> textbox \<times> frame \<Rightarrow> textbox \<times> frame" where
  "print_step font gi col c = (\<lambda>(tb, m).
     let max_x = xsize tb - char_xsize tb; max_y = ysize tb - char_ysize tb in
     if c = 10 \<or> pos_x (cur_pos tb) \<ge> max_x
     then let y = pos_y (cur_pos tb) + char_ysize tb;
              tb = upd_cur (\<lambda>_. \<lparr>pos_x = 0, pos_y = if y > max_y then 0 else y\<rparr>) tb
          in (tb, clear_line gi tb m)
     else if c = 8
     then if pos_x (cur_pos tb) \<ge> char_xsize tb then (upd_cur (pos_x_update (\<lambda>x. x - char_xsize tb)) tb, m)
          else (upd_cur (\<lambda>p. \<lparr>pos_x = 0, pos_y = if pos_y p \<ge> char_ysize tb then pos_y p - char_ysize tb else 0\<rparr>) tb, m)
     else if c = 13 then (upd_cur (pos_x_update (\<lambda>_. 0)) tb, m)
     else (upd_cur (pos_x_update (\<lambda>x. x + char_xsize tb)) tb, basic_put_char font gi tb c col m))"

fun basic_print ::
  "(u8 \<Rightarrow> nat \<Rightarrow> u8) \<Rightarrow> graph_info \<Rightarrow> u32 \<Rightarrow> u8 list \<Rightarrow> textbox \<times> frame \<Rightarrow> textbox \<times> frame" where
  "basic_print font gi col [] t = t"
| "basic_print font gi col (c # s) t = basic_print font gi col s (print_step font gi col c t)"

subsection \<open>The log\<close>

definition LOG_FATAL :: int where "LOG_FATAL = 1"
definition LOG_ERROR :: int where "LOG_ERROR = 2"
definition LOG_WARN :: int where "LOG_WARN = 3"
definition LOG_INFO :: int where "LOG_INFO = 4"
definition LOG_DEBUG :: int where "LOG_DEBUG = 5"
definition DEBUG_LEVEL :: int where "DEBUG_LEVEL = 6"

definition ascii :: "string \<Rightarrow> u8 list" where
  "ascii s = List.map of_char s"

text \<open>
  What the log writes to: the hardware, the box and the frame buffer. \<open>nano\<close> is
  \<^verbatim>\<open>get_nano_time\<close>; \<open>fl\<close> formats doubles.
\<close>

record 'h console =
  con_hw :: 'h
  con_tb :: textbox
  con_frame :: frame

definition print_time :: "('h \<Rightarrow> u64 \<times> 'h) \<Rightarrow> ('d \<Rightarrow> int \<Rightarrow> int \<Rightarrow> u32 \<Rightarrow> u8 list) \<Rightarrow> 'h \<Rightarrow> (u8 list \<times> 'h) option" where
  "print_time nano fl h = do {
     let (t, h) = nano h;
     let (u, h) = nano h;
     (_, s) \<leftarrow> sprintf fl (ascii ''[%5u.%06u]'') [VInt (t div 1000000000), VInt ((u div 1000) mod 1000000)];
     Some (s, h) }"

text \<open>The loop that waits for the transmitter, and the loop over the characters with the null at the end.\<close>

partial_function (option) serial_wait :: "'h hardware \<Rightarrow> u32 \<Rightarrow> 'h \<Rightarrow> 'h option" where
  "serial_wait H port h = (let (v, h) = io_in8 H (port + 5) h in if v AND 0x20 = 0 then serial_wait H port h else Some h)"

definition serial_char :: "'h hardware \<Rightarrow> u32 \<Rightarrow> u8 \<Rightarrow> 'h \<Rightarrow> 'h option" where
  "serial_char H port c h = do {
     h \<leftarrow> serial_wait H port h;
     let h = io_out8 H port (ucast c) h;
     Some (if c = 10 then io_out8 H port 13 h else h) }"

definition serial_pr_log_sub :: "'h hardware \<Rightarrow> u32 \<Rightarrow> u8 list \<Rightarrow> 'h \<Rightarrow> 'h option" where
  "serial_pr_log_sub H port buf h = do {
     h \<leftarrow> serial_wait H port h;
     if buf = [] then Some h else fold_option (serial_char H port) (buf @ [0]) h }"

definition serial_level_str :: "int \<Rightarrow> u8 list" where
  "serial_level_str l =
     (if l = LOG_FATAL then [27] @ ascii ''[0;91m[ FATAL ]'' @ [27] @ ascii ''[0m ''
      else if l = LOG_ERROR then [27] @ ascii ''[0;31m[ ERROR ]'' @ [27] @ ascii ''[0m ''
      else if l = LOG_WARN then [27] @ ascii ''[0;33m[ WARN  ]'' @ [27] @ ascii ''[0m ''
      else if l = LOG_INFO then [27] @ ascii ''[0;32m[ INFO  ]'' @ [27] @ ascii ''[0m ''
      else [27] @ ascii ''[0;36m[ DEBUG ]'' @ [27] @ ascii ''[0m '')"

definition level_str :: "int \<Rightarrow> u8 list" where
  "level_str l =
     (if l = LOG_FATAL then ascii ''[ FATAL ] '' else if l = LOG_ERROR then ascii ''[ ERROR ] ''
      else if l = LOG_WARN then ascii ''[ WARN  ] '' else if l = LOG_INFO then ascii ''[ INFO  ] ''
      else ascii ''[ DEBUG ] '')"

definition level_color :: "int \<Rightarrow> u32" where
  "level_color l = [0x00c5c5c5, 0x00ff0000, 0x00c00000, 0x00c0c000, 0x0000c000, 0x0000c0c0, 0x00a0a0a0] ! nat l"

text \<open>The message is formatted into an array of 256 characters.\<close>

definition format_msg ::
  "('d \<Rightarrow> int \<Rightarrow> int \<Rightarrow> u32 \<Rightarrow> u8 list) \<Rightarrow> u8 list \<Rightarrow> 'd varg list \<Rightarrow> u8 list option" where
  "format_msg fl fmt ap = do {
     (_, s) \<leftarrow> vsprintf fl fmt ap;
     assert (length s < 256);
     Some (takeWhile (\<lambda>c. c \<noteq> 0) s) }"

definition serial_pr_log ::
  "('h \<Rightarrow> u64 \<times> 'h) \<Rightarrow> ('d \<Rightarrow> int \<Rightarrow> int \<Rightarrow> u32 \<Rightarrow> u8 list) \<Rightarrow> 'h hardware \<Rightarrow> int \<Rightarrow> u8 list \<Rightarrow> 'd varg list \<Rightarrow> 'h \<Rightarrow> 'h option" where
  "serial_pr_log nano fl H level log ap h = do {
     let p = 0x3f8;
     if level > DEBUG_LEVEL then Some h
     else do {
       h \<leftarrow> (if level \<ge> LOG_FATAL \<and> level \<le> LOG_DEBUG then do {
           (s, h) \<leftarrow> print_time nano fl h;
           h \<leftarrow> serial_pr_log_sub H p s h;
           serial_pr_log_sub H p (serial_level_str level) h }
         else Some h);
       msg \<leftarrow> format_msg fl log ap;
       serial_pr_log_sub H p msg h } }"

definition con_print ::
  "(u8 \<Rightarrow> nat \<Rightarrow> u8) \<Rightarrow> graph_info \<Rightarrow> u32 \<Rightarrow> u8 list \<Rightarrow> 'h console \<Rightarrow> 'h console" where
  "con_print font gi col s c =
     (let (tb, m) = basic_print font gi col s (con_tb c, con_frame c) in c\<lparr>con_tb := tb, con_frame := m\<rparr>)"

definition pr_log ::
  "('h \<Rightarrow> u64 \<times> 'h) \<Rightarrow> ('d \<Rightarrow> int \<Rightarrow> int \<Rightarrow> u32 \<Rightarrow> u8 list) \<Rightarrow> 'h hardware \<Rightarrow> (u8 \<Rightarrow> nat \<Rightarrow> u8) \<Rightarrow> graph_info \<Rightarrow>
     int \<Rightarrow> u8 list \<Rightarrow> 'd varg list \<Rightarrow> 'h console \<Rightarrow> 'h console option" where
  "pr_log nano fl H font gi level log ap c =
     (if level > DEBUG_LEVEL then Some c
      else do {
        c \<leftarrow> (if level \<ge> LOG_FATAL \<and> level \<le> LOG_DEBUG then do {
            (s, h) \<leftarrow> print_time nano fl (con_hw c);
            let c = con_print font gi (level_color 0) s (c\<lparr>con_hw := h\<rparr>);
            Some (con_print font gi (level_color level) (level_str level) c) }
          else Some c);
        h \<leftarrow> serial_pr_log nano fl H level log ap (con_hw c);
        msg \<leftarrow> format_msg fl log ap;
        Some (con_print font gi (level_color 0) msg (c\<lparr>con_hw := h\<rparr>)) })"

definition pr_msg ::
  "('h \<Rightarrow> u64 \<times> 'h) \<Rightarrow> ('d \<Rightarrow> int \<Rightarrow> int \<Rightarrow> u32 \<Rightarrow> u8 list) \<Rightarrow> 'h hardware \<Rightarrow> (u8 \<Rightarrow> nat \<Rightarrow> u8) \<Rightarrow> graph_info \<Rightarrow>
     u8 list \<Rightarrow> 'd varg list \<Rightarrow> 'h console \<Rightarrow> 'h console option" where
  "pr_msg nano fl H font gi msg ap c = do {
     h \<leftarrow> serial_pr_log nano fl H 0 msg ap (con_hw c);
     s \<leftarrow> format_msg fl msg ap;
     Some (con_print font gi 0x00c5c5c5 s (c\<lparr>con_hw := h\<rparr>)) }"

subsection \<open>UTF-8 and TrueType\<close>

text \<open>A character behind an address of memory, and the address behind it.\<close>

definition utf8_decode :: "(addr \<Rightarrow> u8) \<Rightarrow> addr \<Rightarrow> u64 \<times> addr" where
  "utf8_decode mm a =
     (let b = (ucast (mm a) :: u64); b1 = ucast (mm (a + 1)); b2 = ucast (mm (a + 2)) in
      if drop_bit 7 b = 0 then (b, a + 1)
      else if drop_bit 5 b AND 0x0f = 0x6 then (push_bit 6 (b AND 0x1f) OR (b1 AND 0x3f), a + 2)
      else if drop_bit 4 b AND 0xf = 0xe
        then (push_bit 12 (b AND 0x0f) OR push_bit 6 (b1 AND 0x3f) OR (b2 AND 0x3f), a + 3)
      else (0, a))"

text \<open>
  The font: its vertical metrics at the size of the text, the advance of a character before another one,
  and the bitmap of a character, whose lines are \<open>font_px\<close> bytes long.
\<close>

record ttf_info =
  has_ttf :: bool
  ascent :: int
  descent :: int
  line_gap :: int
  advance_px :: "u64 \<Rightarrow> u64 \<Rightarrow> u32"
  font_px :: nat
  glyph :: "u64 \<Rightarrow> nat \<Rightarrow> u8"

definition init_ttf_info :: "ttf_info \<Rightarrow> ttf_info" where
  "init_ttf_info t = t\<lparr>has_ttf := False\<rparr>"

definition RGB :: "u8 \<Rightarrow> u8 \<Rightarrow> u8 \<Rightarrow> u32" where
  "RGB r g b = SET_FIELD 0 16 0xff (ucast r) OR SET_FIELD 0 8 0xff (ucast g) OR SET_FIELD 0 0 0xff (ucast b)"

definition shade :: "u8 \<Rightarrow> u32 \<Rightarrow> u32" where
  "shade alpha col =
     RGB (ucast (drop_bit 8 (ucast alpha * GET_FIELD col 16 0xff))) (ucast (drop_bit 8 (ucast alpha * GET_FIELD col 8 0xff)))
       (ucast (drop_bit 8 (ucast alpha * GET_FIELD col 0 0xff)))"

definition pr_ch :: "graph_info \<Rightarrow> ttf_info \<Rightarrow> textbox \<Rightarrow> u32 \<Rightarrow> u64 \<Rightarrow> frame \<Rightarrow> frame" where
  "pr_ch gi t tb col ch m =
     (if \<not> has_ttf t then m
      else fold (\<lambda>x0. fold (\<lambda>y0 m.
          let alpha = glyph t ch (y0 * font_px t + x0) in
          if alpha \<noteq> 0 then m(pixel_at gi (pos_y (box_pos tb) + pos_y (cur_pos tb) + word_of_nat y0)
            (ucast (pos_x (box_pos tb)) + ucast (pos_x (cur_pos tb)) + word_of_nat x0) := shade alpha col)
          else m) [0..<font_px t]) [0..<font_px t] m)"

text \<open>The loop of \<^verbatim>\<open>pr_ttf_str\<close>.\<close>

partial_function (option) ttf_loop ::
  "graph_info \<Rightarrow> ttf_info \<Rightarrow> u32 \<Rightarrow> (addr \<Rightarrow> u8) \<Rightarrow> addr \<Rightarrow> textbox \<times> frame \<Rightarrow> (textbox \<times> frame) option" where
  "ttf_loop gi t col mm a tm =
     (let (tb, m) = tm in
      if mm a = 0 then Some (tb, m)
      else let (code, a) = utf8_decode mm a; cx = advance_px t code (fst (utf8_decode mm a));
               cy = word_of_int (ascent t - descent t + line_gap t) in
        if code = 10 then ttf_loop gi t col mm a (upd_cur (\<lambda>p. \<lparr>pos_x = 0, pos_y = pos_y p + cy\<rparr>) tb, m)
        else if code = 32 then ttf_loop gi t col mm a (upd_cur (pos_x_update (\<lambda>x. x + cx)) tb, m)
        else if code = 13 then ttf_loop gi t col mm a (upd_cur (pos_x_update (\<lambda>_. 0)) tb, m)
        else let m = pr_ch gi t tb col code m; tb = upd_cur (pos_x_update (\<lambda>x. x + cx)) tb;
                 max_x = xsize tb - cx; max_y = ysize tb - cy;
                 tb = (if pos_x (cur_pos tb) \<ge> max_x
                   then upd_cur (\<lambda>p. \<lparr>pos_x = 0, pos_y = if pos_y p + cy > max_y then 0 else pos_y p + cy\<rparr>) tb else tb)
             in ttf_loop gi t col mm a (tb, m))"

text \<open>The string is at \<open>a\<close>; \<open>s\<close> are its bytes.\<close>

definition pr_ttf_str ::
  "(u8 \<Rightarrow> nat \<Rightarrow> u8) \<Rightarrow> graph_info \<Rightarrow> ttf_info \<Rightarrow> u32 \<Rightarrow> (addr \<Rightarrow> u8) \<Rightarrow> addr \<Rightarrow> u8 list \<Rightarrow> textbox \<times> frame \<Rightarrow>
     (textbox \<times> frame) option" where
  "pr_ttf_str font gi t col mm a s tm =
     (if \<not> has_ttf t then Some (basic_print font gi col s tm) else ttf_loop gi t col mm a tm)"


subsection \<open>Pixels of the screen\<close>

text \<open>Pixel \<open>(x, y)\<close>, on a screen whose pixels have different addresses.\<close>

definition pixel :: "graph_info \<Rightarrow> nat \<Rightarrow> nat \<Rightarrow> addr" where
  "pixel gi x y = frame_buffer_base gi + 4 * word_of_nat (y * unat (pixel_per_scanline gi) + x)"

definition screen_ok :: "graph_info \<Rightarrow> bool" where
  "screen_ok gi \<longleftrightarrow> unat (vertical_resolution gi) * unat (pixel_per_scanline gi) < 2 ^ 32"

lemma pixel_inject:
  assumes "screen_ok gi" and "x < unat (pixel_per_scanline gi)" "y < unat (vertical_resolution gi)"
    and "x' < unat (pixel_per_scanline gi)" "y' < unat (vertical_resolution gi)" and "pixel gi x y = pixel gi x' y'"
  shows "x = x' \<and> y = y'"
proof -
  define w where "w = unat (pixel_per_scanline gi)"
  have lim: "y * w + x < 2 ^ 32" if "x < w" "y < unat (vertical_resolution gi)" for x y
  proof -
    have "y * w + x < Suc y * w" using that(1) by simp
    also have "\<dots> \<le> unat (vertical_resolution gi) * w" using that(2) by (intro mult_le_mono1) simp
    finally show ?thesis using assms(1) by (simp add: screen_ok_def w_def)
  qed
  have u: "unat (4 * word_of_nat n :: addr) = 4 * n" if "n < 2 ^ 32" for n
  proof -
    have "4 * n < 2 ^ LENGTH(64)" using that by simp
    then have "unat (word_of_nat (4 * n) :: addr) = 4 * n" by (rule unat_of_nat_lt)
    then show ?thesis by simp
  qed
  have "4 * word_of_nat (y * w + x) = (4 * word_of_nat (y' * w + x') :: addr)"
    using assms(6) unfolding pixel_def w_def [symmetric] by (rule add_left_imp_eq)
  then have "4 * (y * w + x) = 4 * (y' * w + x')"
    using u [OF lim] assms(2-5) by (metis w_def)
  then have e: "y * w + x = y' * w + x'" by simp
  have "(y * w + x) div w = y" "(y' * w + x') div w = y'" "(y * w + x) mod w = x" "(y' * w + x') mod w = x'"
    using assms(2,4) by (simp_all add: w_def)
  then show ?thesis using e by metis
qed

lemma pixel_at_pixel:
  assumes "screen_ok gi" and "y < unat (vertical_resolution gi)"
  shows "pixel_at gi (word_of_nat y) (word_of_nat x) = pixel gi x y"
proof -
  let ?w = "unat (pixel_per_scanline gi)"
  have "y * ?w \<le> unat (vertical_resolution gi) * ?w" using assms(2) by (intro mult_le_mono1) simp
  also have "\<dots> < 2 ^ 32" using assms(1) by (simp add: screen_ok_def)
  finally have lt: "y * ?w < 2 ^ 32" .
  have "word_of_nat y * pixel_per_scanline gi = (word_of_nat (y * ?w) :: u32)" by simp
  moreover have "ucast (word_of_nat (y * ?w) :: u32) = (word_of_nat (y * ?w) :: u64)"
    by (rule ucast_of_nat_32 [OF lt])
  ultimately show ?thesis unfolding pixel_at_def pixel_def of_nat_add by (simp only:)
qed

text \<open>The box lies on the screen and has room for a character; the cursor is at a character's place.\<close>

definition box_x :: "textbox \<Rightarrow> nat" where "box_x tb = unat (pos_x (box_pos tb))"
definition box_y :: "textbox \<Rightarrow> nat" where "box_y tb = unat (pos_y (box_pos tb))"
definition cur_x :: "textbox \<Rightarrow> nat" where "cur_x tb = unat (pos_x (cur_pos tb))"
definition cur_y :: "textbox \<Rightarrow> nat" where "cur_y tb = unat (pos_y (cur_pos tb))"

definition box_ok :: "graph_info \<Rightarrow> textbox \<Rightarrow> bool" where
  "box_ok gi tb \<longleftrightarrow> screen_ok gi \<and> 8 \<le> unat (char_xsize tb) \<and> unat (char_xsize tb) \<le> unat (xsize tb) \<and>
     16 \<le> unat (char_ysize tb) \<and> unat (char_ysize tb) \<le> unat (ysize tb) \<and>
     box_x tb + unat (xsize tb) \<le> unat (pixel_per_scanline gi) \<and>
     box_y tb + unat (ysize tb) \<le> unat (vertical_resolution gi) \<and>
     cur_x tb < unat (xsize tb) \<and> cur_y tb \<le> unat (ysize tb) - unat (char_ysize tb)"

definition box_pixels :: "graph_info \<Rightarrow> textbox \<Rightarrow> addr set" where
  "box_pixels gi tb = {pixel gi (box_x tb + i) (box_y tb + j) |i j. i < unat (xsize tb) \<and> j < unat (ysize tb)}"

definition same_box :: "textbox \<Rightarrow> textbox \<Rightarrow> bool" where
  "same_box tb tb' \<longleftrightarrow> box_pos tb' = box_pos tb \<and> xsize tb' = xsize tb \<and> ysize tb' = ysize tb \<and>
     char_xsize tb' = char_xsize tb \<and> char_ysize tb' = char_ysize tb"

lemma fold_set: "fold (\<lambda>j m. m(f j := v)) js m a = (if a \<in> f ` set js then v else m a)"
  by (induction js arbitrary: m) auto

lemma fold_set_if: "fold (\<lambda>j m. if P j then m(f j := v) else m) js m a = (if a \<in> f ` {j \<in> set js. P j} then v else m a)"
  by (induction js arbitrary: m) auto

lemma put_row_other: "a \<notin> p ` {..<8} \<Longrightarrow> put_row p d col m a = m a"
  by (auto simp: put_row_def fold_set fold_set_if)

lemma put_row_at:
  "inj_on p {..<8} \<Longrightarrow> j < 8 \<Longrightarrow> put_row p d col m (p j) = (if bit d (7 - j) then col else 0)"
  by (auto simp: put_row_def fold_set fold_set_if inj_on_def)

text \<open>A character at pixel \<open>(x, y)\<close>.\<close>

lemma put_char_rows:
  fixes p :: "nat \<Rightarrow> nat \<Rightarrow> addr"
  shows "a \<notin> {p i j |i j. i < n \<and> j < 8} \<Longrightarrow> fold (\<lambda>i. put_row (p i) (d i) col) [0..<n] m a = m a"
    and "inj_on (\<lambda>(i, j). p i j) ({..<n} \<times> {..<8}) \<Longrightarrow> i < n \<Longrightarrow> j < 8 \<Longrightarrow>
      fold (\<lambda>i. put_row (p i) (d i) col) [0..<n] m (p i j) = (if bit (d i) (7 - j) then col else 0)"
proof (induction n)
  case (Suc n)
  {
    case 1
    then have a: "a \<notin> p n ` {..<8}" "a \<notin> {p i j |i j. i < n \<and> j < 8}" using less_SucI by blast+
    show ?case using Suc(1) [OF a(2)] put_row_other [OF a(1)] by simp
  next
    case 2
    show ?case
    proof (cases "i = n")
      case True
      have "inj_on (p n) {..<8}" by (rule inj_onI) (use inj_onD [OF 2(1), of "(n, _)" "(n, _)"] in auto)
      then show ?thesis using put_row_at 2(3) True by simp
    next
      case False
      then have i: "i < n" using 2(2) by simp
      have "p i j \<noteq> p n k" if "k < 8" for k
        using inj_onD [OF 2(1), of "(i, j)" "(n, k)"] 2(3) i that by auto
      then have "p i j \<notin> p n ` {..<8}" by auto
      moreover have "inj_on (\<lambda>(i, j). p i j) ({..<n} \<times> {..<8})"
        by (rule inj_on_subset [OF 2(1)]) auto
      ultimately show ?thesis using Suc(2) i 2(3) put_row_other by simp
    qed
  }
qed simp_all


lemma basic_put_char_pixel:
  assumes "screen_ok gi" and "box_y tb + cur_y tb + 16 \<le> unat (vertical_resolution gi)"
  shows "basic_put_char font gi tb c col m =
    fold (\<lambda>i. put_row (\<lambda>j. pixel gi (box_x tb + cur_x tb + j) (box_y tb + cur_y tb + i)) (font c i) col) [0..<16] m"
proof -
  have "pixel_at gi (pos_y (box_pos tb) + pos_y (cur_pos tb) + word_of_nat i)
      (ucast (pos_x (box_pos tb)) + ucast (pos_x (cur_pos tb)) + word_of_nat j) =
      pixel gi (box_x tb + cur_x tb + j) (box_y tb + cur_y tb + i)" if "i < 16" for i j
  proof -
    have "pos_y (box_pos tb) + pos_y (cur_pos tb) + word_of_nat i = word_of_nat (box_y tb + cur_y tb + i)"
      by (simp add: box_y_def cur_y_def)
    moreover have "ucast (pos_x (box_pos tb)) + ucast (pos_x (cur_pos tb)) + word_of_nat j =
        (word_of_nat (box_x tb + cur_x tb + j) :: u64)"
      by (simp add: box_x_def cur_x_def)
    moreover have "box_y tb + cur_y tb + i < unat (vertical_resolution gi)" using assms(2) that by simp
    ultimately show ?thesis by (simp only: pixel_at_pixel [OF assms(1)])
  qed
  then show ?thesis unfolding basic_put_char_def by (intro fold_cong refl) auto
qed

lemma basic_put_char_effect:
  assumes "screen_ok gi" and "box_y tb + cur_y tb + 16 \<le> unat (vertical_resolution gi)"
    and "box_x tb + cur_x tb + 8 \<le> unat (pixel_per_scanline gi)"
  shows "a \<notin> {pixel gi (box_x tb + cur_x tb + j) (box_y tb + cur_y tb + i) |i j. i < 16 \<and> j < 8} \<Longrightarrow>
      basic_put_char font gi tb c col m a = m a"
    and "i < 16 \<Longrightarrow> j < 8 \<Longrightarrow> basic_put_char font gi tb c col m (pixel gi (box_x tb + cur_x tb + j) (box_y tb + cur_y tb + i)) =
      (if bit (font c i) (7 - j) then col else 0)"
proof -
  let ?p = "\<lambda>i j. pixel gi (box_x tb + cur_x tb + j) (box_y tb + cur_y tb + i)"
  note P = basic_put_char_pixel [OF assms(1,2)]
  show "a \<notin> {?p i j |i j. i < 16 \<and> j < 8} \<Longrightarrow> basic_put_char font gi tb c col m a = m a"
    unfolding P by (rule put_char_rows(1))
  have "inj_on (\<lambda>(i, j). ?p i j) ({..<16} \<times> {..<8})"
  proof (rule inj_onI, clarify)
    fix i j i' j' :: nat
    assume b: "i < 16" "j < 8" "i' < 16" "j' < 8" "?p i j = ?p i' j'"
    then show "i = i' \<and> j = j'"
      using pixel_inject [OF assms(1) _ _ _ _ b(5)] assms(2,3) by simp
  qed
  then show "i < 16 \<Longrightarrow> j < 8 \<Longrightarrow> basic_put_char font gi tb c col m (?p i j) = (if bit (font c i) (7 - j) then col else 0)"
    unfolding P by (rule put_char_rows(2))
qed

lemma fold_unchanged:
  assumes "\<And>i m. i \<in> set is \<Longrightarrow> f i m a = m a"
  shows "fold f is m a = m a"
  using assms by (induction "is" arbitrary: m) simp_all

lemma clear_lines_outside:
  assumes "screen_ok gi" and "y + unat n \<le> unat (vertical_resolution gi)" "box_x tb + unat (xsize tb) \<le> unat (pixel_per_scanline gi)"
    and "a \<notin> {pixel gi (box_x tb + j) (y + i) |i j. i < unat n \<and> j < unat (xsize tb)}"
  shows "clear_lines gi tb (word_of_nat y) n m a = m a"
  unfolding clear_lines_def
proof (rule fold_unchanged)
  fix i m assume "i \<in> set [0..<unat n]"
  then have i: "i < unat n" by simp
  have "pixel_at gi (word_of_nat y + word_of_nat i) (ucast (word_of_nat j + pos_x (box_pos tb))) = pixel gi (box_x tb + j) (y + i)"
    if "j < unat (xsize tb)" for j
  proof -
    have w: "word_of_nat j + pos_x (box_pos tb) = word_of_nat (box_x tb + j)" by (simp add: box_x_def)
    have "unat (pixel_per_scanline gi) < 2 ^ 32" using unsigned_less [of "pixel_per_scanline gi"] by simp
    then have "box_x tb + j < 2 ^ 32" using assms(3) that by simp
    then have "ucast (word_of_nat (box_x tb + j) :: u32) = (word_of_nat (box_x tb + j) :: u64)" by (rule ucast_of_nat_32)
    then show ?thesis
      using pixel_at_pixel [OF assms(1), of "y + i" "box_x tb + j"] assms(2) i unfolding w by simp
  qed
  then have "a \<notin> (\<lambda>j. pixel_at gi (word_of_nat y + word_of_nat i) (ucast (word_of_nat j + pos_x (box_pos tb)))) ` set [0..<unat (xsize tb)]"
    using assms(4) i by auto
  then show "fold (\<lambda>j m. m(pixel_at gi (word_of_nat y + word_of_nat i) (ucast (word_of_nat j + pos_x (box_pos tb))) := 0))
      [0..<unat (xsize tb)] m a = m a" by (simp only: fold_set if_False)
qed

lemma upd_cur_box [simp]:
  "box_pos (upd_cur f tb) = box_pos tb" "xsize (upd_cur f tb) = xsize tb" "ysize (upd_cur f tb) = ysize tb"
  "char_xsize (upd_cur f tb) = char_xsize tb" "char_ysize (upd_cur f tb) = char_ysize tb" "cur_pos (upd_cur f tb) = f (cur_pos tb)"
  "box_x (upd_cur f tb) = box_x tb" "box_y (upd_cur f tb) = box_y tb"
  by (simp_all add: upd_cur_def box_x_def box_y_def)

lemma clear_line_outside:
  assumes "box_ok gi tb" and "a \<notin> box_pixels gi tb"
  shows "clear_line gi tb m a = m a"
proof -
  have "pos_y (box_pos tb) + pos_y (cur_pos tb) = word_of_nat (box_y tb + cur_y tb)" by (simp add: box_y_def cur_y_def)
  moreover have "a \<notin> {pixel gi (box_x tb + j) (box_y tb + cur_y tb + i) |i j. i < unat (char_ysize tb) \<and> j < unat (xsize tb)}"
  proof
    assume "a \<in> {pixel gi (box_x tb + j) (box_y tb + cur_y tb + i) |i j. i < unat (char_ysize tb) \<and> j < unat (xsize tb)}"
    then obtain i j where e: "a = pixel gi (box_x tb + j) (box_y tb + (cur_y tb + i))" "i < unat (char_ysize tb)" "j < unat (xsize tb)"
      by (auto simp: add.assoc)
    then have "cur_y tb + i < unat (ysize tb)" using assms(1) by (auto simp: box_ok_def)
    then show False using assms(2) e by (auto simp: box_pixels_def)
  qed
  ultimately show ?thesis
    using clear_lines_outside [of gi "box_y tb + cur_y tb" "char_ysize tb" tb a m] assms(1)
    by (auto simp: clear_line_def box_ok_def)
qed

text \<open>One round keeps the box and the rest of the screen.\<close>

lemma print_step_box:
  assumes ok: "box_ok gi tb" and st: "print_step font gi col c (tb, m) = (tb', m')"
  shows "box_ok gi tb' \<and> same_box tb tb' \<and> (\<forall>a. a \<notin> box_pixels gi tb \<longrightarrow> m' a = m a)"
proof -
  have sub: "unat (xsize tb - char_xsize tb) = unat (xsize tb) - unat (char_xsize tb)"
    "unat (ysize tb - char_ysize tb) = unat (ysize tb) - unat (char_ysize tb)"
    using ok by (simp_all add: box_ok_def unat_sub word_le_nat_alt)
  consider (line) "c = 10 \<or> pos_x (cur_pos tb) \<ge> xsize tb - char_xsize tb" |
    (bksp) "\<not> (c = 10 \<or> pos_x (cur_pos tb) \<ge> xsize tb - char_xsize tb)" "c = 8" |
    (ret) "\<not> (c = 10 \<or> pos_x (cur_pos tb) \<ge> xsize tb - char_xsize tb)" "c = 13" |
    (put) "\<not> (c = 10 \<or> pos_x (cur_pos tb) \<ge> xsize tb - char_xsize tb)" "c \<noteq> 8" "c \<noteq> 13" by blast
  then show ?thesis
  proof cases
    case line
    define y where "y = pos_y (cur_pos tb) + char_ysize tb"
    define t where "t = upd_cur (\<lambda>_. \<lparr>pos_x = 0, pos_y = if y > ysize tb - char_ysize tb then 0 else y\<rparr>) tb"
    have r: "tb' = t" "m' = clear_line gi t m" using line st by (auto simp: print_step_def Let_def t_def y_def)
    have "box_ok gi t" using ok sub by (auto simp: box_ok_def t_def cur_x_def cur_y_def word_less_nat_alt)
    moreover have "box_pixels gi t = box_pixels gi tb" by (simp add: box_pixels_def t_def)
    ultimately show ?thesis unfolding r using clear_line_outside [of gi t] by (auto simp: same_box_def t_def)
  next
    case bksp
    have "m' = m" using bksp st by (auto simp: print_step_def Let_def split: if_splits)
    moreover have "box_ok gi tb' \<and> same_box tb tb'"
      using bksp st ok by (auto simp: print_step_def Let_def box_ok_def same_box_def cur_x_def cur_y_def unat_sub
          word_le_nat_alt split: if_splits)
    ultimately show ?thesis by simp
  next
    case ret
    then show ?thesis using st ok by (auto simp: print_step_def Let_def box_ok_def same_box_def cur_x_def cur_y_def)
  next
    case put
    have r: "tb' = upd_cur (pos_x_update (\<lambda>x. x + char_xsize tb)) tb" "m' = basic_put_char font gi tb c col m"
      using put st by (auto simp: print_step_def Let_def)
    have lt: "cur_x tb + unat (char_xsize tb) < unat (xsize tb)"
      using put(1) sub(1) ok by (auto simp: cur_x_def word_le_nat_alt not_le)
    have "unat (xsize tb) < 2 ^ 32" using unsigned_less [of "xsize tb"] by simp
    then have "unat (pos_x (cur_pos tb) + char_xsize tb) = cur_x tb + unat (char_xsize tb)"
      using lt by (simp add: cur_x_def unat_word_ariths)
    then have "box_ok gi tb'" using ok lt by (simp add: r(1) box_ok_def cur_x_def cur_y_def)
    moreover have "m' a = m a" if "a \<notin> box_pixels gi tb" for a
    proof -
      have "a \<notin> {pixel gi (box_x tb + cur_x tb + j) (box_y tb + cur_y tb + i) |i j. i < 16 \<and> j < 8}"
      proof
        assume "a \<in> {pixel gi (box_x tb + cur_x tb + j) (box_y tb + cur_y tb + i) |i j. i < 16 \<and> j < 8}"
        then obtain i j where e: "a = pixel gi (box_x tb + (cur_x tb + j)) (box_y tb + (cur_y tb + i))" "i < 16" "j < 8"
          by (auto simp: add.assoc)
        moreover have "cur_x tb + j < unat (xsize tb)" "cur_y tb + i < unat (ysize tb)"
          using ok lt e by (auto simp: box_ok_def)
        ultimately show False using that by (auto simp: box_pixels_def)
      qed
      then show ?thesis unfolding r(2) using ok lt by (intro basic_put_char_effect(1)) (auto simp: box_ok_def)
    qed
    ultimately show ?thesis by (simp add: r(1) same_box_def)
  qed
qed

text \<open>C17: Whatever is printed, \<^verbatim>\<open>basic_print\<close> writes only to the pixels of its box, and the cursor stays at
  a place in the box.\<close>

theorem basic_print_stays_in_box:
  assumes "box_ok gi tb"
  shows "\<exists>tb' m'. basic_print font gi col s (tb, m) = (tb', m') \<and> box_ok gi tb' \<and> same_box tb tb' \<and>
    (\<forall>a. a \<notin> box_pixels gi tb \<longrightarrow> m' a = m a)"
  using assms
proof (induction s arbitrary: tb m)
  case (Cons c s)
  obtain t n where n: "print_step font gi col c (tb, m) = (t, n)" by (cases "print_step font gi col c (tb, m)")
  note 1 = print_step_box [OF Cons.prems n]
  then obtain tb' m' where 2: "basic_print font gi col s (t, n) = (tb', m')" "box_ok gi tb'" "same_box t tb'"
      "\<forall>a. a \<notin> box_pixels gi t \<longrightarrow> m' a = n a" using Cons.IH [of t n] by blast
  have "box_pixels gi t = box_pixels gi tb" using 1 by (simp add: box_pixels_def same_box_def box_x_def box_y_def)
  then show ?case using 1 2 n by (auto simp: same_box_def)
qed (auto simp: same_box_def)


text \<open>What is already there to the left of the cursor stays while visible characters are printed.\<close>

lemma print_visible:
  assumes "box_ok gi tb" and "c \<noteq> 8" "c \<noteq> 10" "c \<noteq> 13" and "cur_x tb + unat (char_xsize tb) < unat (xsize tb)"
  shows "\<exists>t m'. print_step font gi col c (tb, m) = (t, m') \<and> box_ok gi t \<and> same_box tb t \<and> cur_y t = cur_y tb \<and>
    cur_x t = cur_x tb + unat (char_xsize tb) \<and>
    (\<forall>i < 16. \<forall>j < 8. m' (pixel gi (box_x tb + cur_x tb + j) (box_y tb + cur_y tb + i)) = (if bit (font c i) (7 - j) then col else 0)) \<and>
    (\<forall>x y. x < box_x tb + cur_x tb \<longrightarrow> y < unat (vertical_resolution gi) \<longrightarrow> m' (pixel gi x y) = m (pixel gi x y))"
proof -
  have sub: "unat (xsize tb - char_xsize tb) = unat (xsize tb) - unat (char_xsize tb)"
    using assms(1) by (simp add: box_ok_def unat_sub word_le_nat_alt)
  then have "\<not> pos_x (cur_pos tb) \<ge> xsize tb - char_xsize tb" using assms(5) by (simp add: cur_x_def word_le_nat_alt)
  then have st: "print_step font gi col c (tb, m) =
      (upd_cur (pos_x_update (\<lambda>x. x + char_xsize tb)) tb, basic_put_char font gi tb c col m)"
    using assms(2-4) by (simp add: print_step_def Let_def)
  have "unat (xsize tb) < 2 ^ 32" using unsigned_less [of "xsize tb"] by simp
  then have x: "unat (pos_x (cur_pos tb) + char_xsize tb) = cur_x tb + unat (char_xsize tb)"
    using assms(5) by (simp add: cur_x_def unat_word_ariths)
  have room: "screen_ok gi" "box_y tb + cur_y tb + 16 \<le> unat (vertical_resolution gi)"
      "box_x tb + cur_x tb + 8 \<le> unat (pixel_per_scanline gi)"
    using assms(1,5) by (auto simp: box_ok_def)
  have keep: "basic_put_char font gi tb c col m (pixel gi x y) = m (pixel gi x y)"
    if "x < box_x tb + cur_x tb" "y < unat (vertical_resolution gi)" for x y
  proof (rule basic_put_char_effect(1) [OF room], clarify)
    fix i j :: nat
    assume b: "pixel gi x y = pixel gi (box_x tb + cur_x tb + j) (box_y tb + cur_y tb + i)" "i < 16" "j < 8"
    from pixel_inject [OF room(1) _ that(2) _ _ b(1)] that(1) room b(2,3) show False by simp
  qed
  have "box_ok gi (upd_cur (pos_x_update (\<lambda>x. x + char_xsize tb)) tb) \<and> same_box tb (upd_cur (pos_x_update (\<lambda>x. x + char_xsize tb)) tb)"
    using print_step_box [OF assms(1) st] by blast
  then show ?thesis unfolding st using basic_put_char_effect(2) [OF room] keep x
    by (auto simp: cur_x_def cur_y_def)
qed

text \<open>Visible characters that fit into the rest of the line appear one beside the other with the shape that the
  font gives them, in the colour asked for on black, and the cursor moves behind them.\<close>

theorem basic_print_shows:
  assumes "box_ok gi tb" and "\<forall>c \<in> set s. c \<noteq> 8 \<and> c \<noteq> 10 \<and> c \<noteq> 13"
    and "cur_x tb + unat (char_xsize tb) * length s < unat (xsize tb)"
  shows "\<exists>tb' m'. basic_print font gi col s (tb, m) = (tb', m') \<and> cur_y tb' = cur_y tb \<and>
    cur_x tb' = cur_x tb + unat (char_xsize tb) * length s \<and>
    (\<forall>k < length s. \<forall>i < 16. \<forall>j < 8.
      m' (pixel gi (box_x tb + cur_x tb + unat (char_xsize tb) * k + j) (box_y tb + cur_y tb + i)) =
        (if bit (font (s ! k) i) (7 - j) then col else 0)) \<and>
    (\<forall>x y. x < box_x tb + cur_x tb \<longrightarrow> y < unat (vertical_resolution gi) \<longrightarrow> m' (pixel gi x y) = m (pixel gi x y))"
  using assms
proof (induction s arbitrary: tb m)
  case (Cons c s)
  let ?w = "unat (char_xsize tb)"
  have fit: "cur_x tb + ?w + ?w * length s < unat (xsize tb)" using Cons.prems(3) by (simp add: algebra_simps)
  then have room: "cur_x tb + ?w < unat (xsize tb)" by simp
  have c: "c \<noteq> 8" "c \<noteq> 10" "c \<noteq> 13" using Cons.prems(2) by simp_all
  obtain t n where n: "print_step font gi col c (tb, m) = (t, n)" "box_ok gi t" "same_box tb t" "cur_y t = cur_y tb"
      "cur_x t = cur_x tb + ?w"
      "\<forall>i < 16. \<forall>j < 8. n (pixel gi (box_x tb + cur_x tb + j) (box_y tb + cur_y tb + i)) = (if bit (font c i) (7 - j) then col else 0)"
      "\<forall>x y. x < box_x tb + cur_x tb \<longrightarrow> y < unat (vertical_resolution gi) \<longrightarrow> n (pixel gi x y) = m (pixel gi x y)"
    using print_visible [OF Cons.prems(1) c room, of font col m] by blast
  have b: "box_x t = box_x tb" "box_y t = box_y tb" "char_xsize t = char_xsize tb" "xsize t = xsize tb"
    using n(3) by (simp_all add: same_box_def box_x_def box_y_def)
  obtain tb' m' where r: "basic_print font gi col s (t, n) = (tb', m')" "cur_y tb' = cur_y tb"
      "cur_x tb' = cur_x tb + ?w + ?w * length s"
      "\<forall>k < length s. \<forall>i < 16. \<forall>j < 8. m' (pixel gi (box_x tb + (cur_x tb + ?w) + ?w * k + j) (box_y tb + cur_y tb + i)) =
        (if bit (font (s ! k) i) (7 - j) then col else 0)"
      "\<forall>x y. x < box_x tb + (cur_x tb + ?w) \<longrightarrow> y < unat (vertical_resolution gi) \<longrightarrow> m' (pixel gi x y) = n (pixel gi x y)"
    using Cons.IH [OF n(2), of n] Cons.prems(2) fit b n(4,5) by auto
  have glyphs: "m' (pixel gi (box_x tb + cur_x tb + ?w * k + j) (box_y tb + cur_y tb + i)) =
      (if bit (font ((c # s) ! k) i) (7 - j) then col else 0)" if "k < Suc (length s)" "i < 16" "j < 8" for k i j
  proof (cases k)
    case 0
    have "box_y tb + cur_y tb + i < unat (vertical_resolution gi)" "j < ?w" using Cons.prems(1) that by (auto simp: box_ok_def)
    then show ?thesis using 0 r(5) n(6) that by simp
  next
    case (Suc k')
    then show ?thesis using r(4) that by (simp add: algebra_simps)
  qed
  have "m' (pixel gi x y) = m (pixel gi x y)" if "x < box_x tb + cur_x tb" "y < unat (vertical_resolution gi)" for x y
    using r(5) n(7) that by simp
  then show ?case using n(1) r(1-3) glyphs by (simp add: algebra_simps)
qed simp

text \<open>At the end of a line the character that starts the next one is lost, whatever it is.\<close>

lemma basic_print_loses_character:
  assumes "pos_x (cur_pos tb) \<ge> xsize tb - char_xsize tb"
  shows "basic_print font gi col (c # s) (tb, m) = basic_print font gi col (10 # s) (tb, m)"
  using assms by (simp add: print_step_def Let_def)

text \<open>A screen of 640 by 480 pixels that is one box.\<close>

definition example_screen :: graph_info where
  "example_screen = \<lparr>frame_buffer_base = 0xe0000000, horizontal_resolution = 640, vertical_resolution = 480,
     pixel_per_scanline = 640\<rparr>"

definition example_box :: textbox where
  "example_box = \<lparr>cur_pos = \<lparr>pos_x = 16, pos_y = 32\<rparr>, box_pos = \<lparr>pos_x = 0, pos_y = 0\<rparr>, xsize = 640, ysize = 480,
     char_xsize = 8, char_ysize = 16\<rparr>"

lemma example_box_ok: "box_ok example_screen example_box"
  by (simp add: box_ok_def screen_ok_def example_screen_def example_box_def box_x_def box_y_def cur_x_def cur_y_def)

lemma basic_print_stays_in_box_witness:
  "\<forall>font m. \<exists>tb' m'. basic_print font example_screen 0xffffff [72, 105, 10, 13, 8] (example_box, m) = (tb', m') \<and>
    box_ok example_screen tb'"
  using basic_print_stays_in_box [OF example_box_ok] by blast

lemma basic_print_shows_witness:
  "\<forall>font m. \<exists>tb' m'. basic_print font example_screen 0xffffff [72, 105] (example_box, m) = (tb', m') \<and> cur_x tb' = 32 \<and>
    m' (pixel example_screen 27 34) = (if bit (font 105 2) 4 then 0xffffff else 0)"
proof (intro allI)
  fix font :: "u8 \<Rightarrow> nat \<Rightarrow> u8" and m :: frame
  have f: "box_x example_box = 0" "box_y example_box = 0" "cur_x example_box = 16" "cur_y example_box = 32"
      "unat (char_xsize example_box) = 8" "unat (xsize example_box) = 640"
    by (simp_all add: example_box_def box_x_def box_y_def cur_x_def cur_y_def)
  obtain tb' m' where r: "basic_print font example_screen 0xffffff [72, 105] (example_box, m) = (tb', m')"
      "cur_x tb' = 32" "\<forall>k < 2. \<forall>i < 16. \<forall>j < 8. m' (pixel example_screen (16 + 8 * k + j) (32 + i)) =
        (if bit (font ([72, 105] ! k) i) (7 - j) then 0xffffff else 0)"
    using basic_print_shows [OF example_box_ok, of "[72, 105]" font "0xffffff" m] by (auto simp: f)
  have "m' (pixel example_screen (16 + 8 * 1 + 3) (32 + 2)) = (if bit (font ([72, 105] ! 1) 2) (7 - 3) then 0xffffff else 0)"
    using r(3) by (elim allE [where x = 1] impE allE [where x = 2] allE [where x = 3]) simp_all
  then show "\<exists>tb' m'. basic_print font example_screen 0xffffff [72, 105] (example_box, m) = (tb', m') \<and> cur_x tb' = 32 \<and>
    m' (pixel example_screen 27 34) = (if bit (font 105 2) 4 then 0xffffff else 0)" using r(1,2) by simp
qed

subsection \<open>UTF-8\<close>

text \<open>The code of a character of the basic plane.\<close>

definition utf8_encode :: "nat \<Rightarrow> nat list" where
  "utf8_encode c =
     (if c < 0x80 then [c]
      else if c < 0x800 then [0xc0 + c div 64, 0x80 + c mod 64]
      else [0xe0 + c div 4096, 0x80 + c div 64 mod 64, 0x80 + c mod 64])"

fun bytes_at :: "(addr \<Rightarrow> u8) \<Rightarrow> addr \<Rightarrow> nat list \<Rightarrow> bool" where
  "bytes_at mm a [] \<longleftrightarrow> True"
| "bytes_at mm a (b # bs) \<longleftrightarrow> unat (mm a) = b \<and> bytes_at mm (a + 1) bs"

lemma or_add: "push_bit n x OR (y AND mask n) = push_bit n x + (y AND mask n)" for x y :: u64
proof -
  have "push_bit n x AND (y AND mask n) = 0" by (intro bit_word_eqI) (auto simp: bit_simps)
  then show ?thesis by (simp add: disjunctive_add_eq_or)
qed

lemma masks: "0x0f = (mask 4 :: u64)" "0x1f = (mask 5 :: u64)" "0x3f = (mask 6 :: u64)"
  by (simp_all add: mask_eq_exp_minus_1)

text \<open>The bits of the bytes of a character, as quotients and remainders.\<close>

lemma top_digits:
  "q < 64 \<Longrightarrow> (192 + q) div 128 = (1 :: nat)" "q < 32 \<Longrightarrow> (192 + q) div 32 = (6 :: nat)"
  "p < 32 \<Longrightarrow> (224 + p) div 128 = (1 :: nat)" "p < 32 \<Longrightarrow> (224 + p) div 32 = (7 :: nat)"
  "p < 16 \<Longrightarrow> (224 + p) div 16 = (14 :: nat)"
  by (auto intro!: div_nat_eqI)

lemma low_digits:
  "q < 32 \<Longrightarrow> (192 + q) mod 32 = (q :: nat)" "p < 16 \<Longrightarrow> (224 + p) mod 16 = (p :: nat)"
  "r < 64 \<Longrightarrow> (128 + r) mod 64 = (r :: nat)"
  using mod_mult_self1 [of q 6 32] mod_mult_self1 [of p 14 16] mod_mult_self1 [of r 2 64] by (simp_all add: add.commute)

text \<open>\<^verbatim>\<open>utf8_decode\<close> reads back every character of the basic plane from its encoding, and moves behind
  it.\<close>

theorem utf8_roundtrip:
  assumes "c < 0x10000" and "bytes_at mm a (utf8_encode c)"
  shows "utf8_decode mm a = (word_of_nat c, a + word_of_nat (length (utf8_encode c)))"
proof -
  define b where "b i = (ucast (mm (a + word_of_nat i)) :: u64)" for i
  have ub: "unat (b i) = unat (mm (a + word_of_nat i))" for i
    using unat_less_256 [of "mm (a + word_of_nat i)"] by (simp add: b_def unsigned_ucast_eq take_bit_nat_eq_self)
  have d: "utf8_decode mm a = (if drop_bit 7 (b 0) = 0 then (b 0, a + 1)
      else if drop_bit 5 (b 0) AND 0x0f = 0x6 then (push_bit 6 (b 0 AND 0x1f) OR (b 1 AND 0x3f), a + 2)
      else if drop_bit 4 (b 0) AND 0xf = 0xe
        then (push_bit 12 (b 0 AND 0x0f) OR push_bit 6 (b 1 AND 0x3f) OR (b 2 AND 0x3f), a + 3)
      else (0, a))" by (simp add: utf8_decode_def b_def)
  have B: "unat (b 0) = unat (mm a)" "unat (b 1) = unat (mm (a + 1))" "unat (b 2) = unat (mm (a + 2))"
    using ub [of 0] ub [of 1] ub [of 2] by simp_all
  consider "c < 0x80" | "0x80 \<le> c" "c < 0x800" | "0x800 \<le> c" by linarith
  then show ?thesis
  proof cases
    case 1
    have "unat (b 0) = c" using B(1) 1 assms(2) by (simp add: utf8_encode_def)
    then have "drop_bit 7 (b 0) = 0" "b 0 = word_of_nat c" using 1 by (auto simp: word_unat_eq_iff unat_drop)
    then show ?thesis using d 1 by (simp add: utf8_encode_def)
  next
    case 2
    obtain q r where qr: "c = 64 * q + r" "r < 64" "c div 64 = q" "c mod 64 = r" by (metis mod_less_divisor mult_div_mod_eq zero_less_numeral)
    have q: "q < 32" using 2 qr by simp
    have u: "unat (b 0) = 0xc0 + q" "unat (b 1) = 0x80 + r" using B(1,2) 2 qr assms(2) by (simp_all add: utf8_encode_def)
    have "(0xc0 + q) div 128 = 1" "(0xc0 + q) div 32 mod 16 = 6" using q by (simp_all add: top_digits)
    then have "unat (drop_bit 7 (b 0)) = 1" "unat (drop_bit 5 (b 0) AND 0x0f) = 6"
      unfolding masks unat_masked unat_drop u by simp_all
    then have t: "drop_bit 7 (b 0) \<noteq> 0" "drop_bit 5 (b 0) AND 0x0f = 0x6" by (auto simp: word_unat_eq_iff)
    have "(0xc0 + q) mod 32 = q" "(0x80 + r) mod 64 = r" using q qr(2) by (simp_all add: low_digits)
    then have "b 0 AND mask 5 = word_of_nat q" "b 1 AND mask 6 = word_of_nat r"
      unfolding masked_of_nat u by simp_all
    then have "push_bit 6 (b 0 AND 0x1f) OR (b 1 AND 0x3f) = word_of_nat c"
      unfolding masks or_add by (simp add: push_bit_eq_mult qr(1) ac_simps)
    then show ?thesis using d t 2 by (simp add: utf8_encode_def)
  next
    case 3
    define x where "x = c div 64"
    define p where "p = x div 64"
    define q where "q = x mod 64"
    define r where "r = c mod 64"
    have "c = 64 * x + r" "x = 64 * p + q" by (simp_all add: x_def p_def q_def r_def)
    then have "c = 4096 * p + 64 * q + r" by linarith
    moreover have "c div 4096 = p" using div_mult2_eq [of c 64 64] by (simp add: x_def p_def)
    ultimately have qr: "c = 4096 * p + 64 * q + r" "r < 64" "q < 64" "c div 4096 = p" "c div 64 mod 64 = q" "c mod 64 = r"
      by (simp_all add: x_def q_def r_def)
    have p: "p < 16" using assms(1) qr by simp
    have u: "unat (b 0) = 0xe0 + p" "unat (b 1) = 0x80 + q" "unat (b 2) = 0x80 + r"
      using B 3 qr assms(2) by (simp_all add: utf8_encode_def add.commute [of 2])
    have "(0xe0 + p) div 128 = 1" "(0xe0 + p) div 32 mod 16 = 7" "(0xe0 + p) div 16 mod 16 = 14" using p by (simp_all add: top_digits)
    then have "unat (drop_bit 7 (b 0)) = 1" "unat (drop_bit 5 (b 0) AND 0x0f) = 7" "unat (drop_bit 4 (b 0) AND 0x0f) = 14"
      unfolding masks unat_masked unat_drop u by simp_all
    then have t: "drop_bit 7 (b 0) \<noteq> 0" "drop_bit 5 (b 0) AND 0x0f \<noteq> 0x6" "drop_bit 4 (b 0) AND 0x0f = 0xe"
      by (auto simp: word_unat_eq_iff)
    have "(0xe0 + p) mod 16 = p" "(0x80 + q) mod 64 = q" "(0x80 + r) mod 64 = r" using p qr(2,3) by (simp_all add: low_digits)
    then have m: "b 0 AND mask 4 = word_of_nat p" "b 1 AND mask 6 = word_of_nat q" "b 2 AND mask 6 = word_of_nat r"
      unfolding masked_of_nat u by simp_all
    have "push_bit 12 (b 0 AND 0x0f) OR push_bit 6 (b 1 AND 0x3f) = push_bit 6 (push_bit 6 (b 0 AND 0x0f) OR (b 1 AND 0x3f))"
      by (simp add: push_bit_or)
    then have "push_bit 12 (b 0 AND 0x0f) OR push_bit 6 (b 1 AND 0x3f) OR (b 2 AND 0x3f) =
        push_bit 6 (push_bit 6 (b 0 AND mask 4) OR (b 1 AND mask 6)) OR (b 2 AND mask 6)" by (simp only: masks flip: or.assoc)
    also have "\<dots> = word_of_nat c" 
      by (simp only: or_add) (simp only: m, simp add: push_bit_eq_mult qr(1) algebra_simps)
    finally have "push_bit 12 (b 0 AND 0x0f) OR push_bit 6 (b 1 AND 0x3f) OR (b 2 AND 0x3f) = word_of_nat c" .
    then show ?thesis using d t 3 by (simp add: utf8_encode_def)
  qed
qed

text \<open>A byte that cannot start such a character is not passed: the loop of \<^verbatim>\<open>pr_ttf_str\<close> stays at it.\<close>

lemma utf8_stuck: "utf8_decode mm a = (0, a)" if "mm a = 0xf0"
  using that by (simp add: utf8_decode_def)

lemma utf8_roundtrip_witness:
  "utf8_decode (\<lambda>a. if a = 0x100 then 0xe4 else if a = 0x101 then 0xbd else 0xa0) 0x100 = (0x4f60, 0x103)"
  using utf8_roundtrip [of "0x4f60" "\<lambda>a. if a = 0x100 then 0xe4 else if a = 0x101 then 0xbd else 0xa0" "0x100"]
  by (simp add: utf8_encode_def)

end
