(* ===== verification/BootPages.thy ===== *)
theory BootPages
  imports PageTable
begin

text \<open>
  The page tables that the boot loader builds for the kernel,
  \<^verbatim>\<open>src/arch/x86_64/bootloader/memory.c\<close>: the first 4 GiB at their own addresses and again at
  \<^verbatim>\<open>0xffff800000000000\<close>, the kernel in the last two gigabytes, the frame buffer in the last one. They are
  read by the walk of \<^verbatim>\<open>page.c\<close>, of the theory \<^verbatim>\<open>PageTable\<close>.

  The boot loader runs with addresses that are not translated. Its memory is a map from addresses to
  64-bit words; only addresses of words are used.
\<close>

type_synonym pmem = "addr \<Rightarrow> u64"

text \<open>What the firmware says of the screen's frame buffer.\<close>

record gop_mode =
  FrameBufferBase :: addr
  FrameBufferSize :: u64

definition put :: "addr \<Rightarrow> u64 \<Rightarrow> u64 \<Rightarrow> pmem \<Rightarrow> pmem" where
  "put t i x m = m(t + 8 * i := x)"

text \<open>\<open>SetMem\<close> is the call of the firmware that sets \<open>n\<close> bytes at \<open>b\<close>.\<close>

text \<open>A loop over the entries of a table of pages.\<close>

definition fill_pdt :: "addr \<Rightarrow> nat \<Rightarrow> pmem \<times> addr \<Rightarrow> pmem \<times> addr" where
  "fill_pdt pdt n = fold (\<lambda>i (m, addr).
     (put pdt (word_of_nat i) (addr OR PG_US_U OR PG_RW_W OR PG_P OR PG_SIZE_2M) m, addr + 0x200000)) [0..<n]"

text \<open>A round of the outer loop over the first 4 GiB.\<close>

definition identity_pdt :: "addr \<Rightarrow> u64 \<Rightarrow> pmem \<times> addr \<times> addr \<Rightarrow> pmem \<times> addr \<times> addr" where
  "identity_pdt pdpt i = (\<lambda>(m, addr, PG_TABLE).
     let pdt = PG_TABLE; PG_TABLE = PG_TABLE + 0x1000;
         m = put pdpt i (pdt OR PG_US_U OR PG_RW_W OR PG_P) m;
         (m, addr) = fill_pdt pdt 512 (m, addr)
     in (m, addr, PG_TABLE))"

definition CreatePage :: "(addr \<Rightarrow> u64 \<Rightarrow> u8 \<Rightarrow> pmem \<Rightarrow> pmem) \<Rightarrow> gop_mode \<Rightarrow> addr \<Rightarrow> pmem \<Rightarrow> pmem" where
  "CreatePage SetMem gop PG_TABLE m =
     (let m = SetMem PG_TABLE (9 * 0x1000) 0 m;
          pml4t = PG_TABLE; PG_TABLE = PG_TABLE + 0x1000;
          pdpt = PG_TABLE; PG_TABLE = PG_TABLE + 0x1000;
          m = put pml4t 0 (pdpt OR PG_US_U OR PG_RW_W OR PG_P) m;
          m = put pml4t 256 (pdpt OR PG_US_U OR PG_RW_W OR PG_P) m;
          (m, addr, PG_TABLE) = fold (identity_pdt pdpt) [0, 1, 2, 3] (m, 0, PG_TABLE);
          pdpt = PG_TABLE; PG_TABLE = PG_TABLE + 0x1000;
          m = put pml4t 511 (pdpt OR PG_US_U OR PG_RW_W OR PG_P) m;
          pdt = PG_TABLE; PG_TABLE = PG_TABLE + 0x1000;
          m = put pdpt 510 (pdt OR PG_US_U OR PG_RW_W OR PG_P) m;
          (m, addr) = fill_pdt pdt 2 (m, 0);
          pdt = PG_TABLE; PG_TABLE = PG_TABLE + 0x1000;
          m = put pdpt 511 (pdt OR PG_US_U OR PG_RW_W OR PG_P) m;
          (m, addr) = fill_pdt pdt (unat ((FrameBufferSize gop + 0x1fffff) div 0x200000)) (m, FrameBufferBase gop)
      in m)"

subsection \<open>The entries of the tables\<close>

definition SetMem0 :: "addr \<Rightarrow> u64 \<Rightarrow> pmem \<Rightarrow> pmem" where
  "SetMem0 b n m = (\<lambda>a. if a - b < n then 0 else m a)"

definition clears_memory :: "(addr \<Rightarrow> u64 \<Rightarrow> u8 \<Rightarrow> pmem \<Rightarrow> pmem) \<Rightarrow> bool" where
  "clears_memory SetMem \<longleftrightarrow> (\<forall>b n m. SetMem b n 0 m = SetMem0 b n m)"

definition get :: "pmem \<Rightarrow> addr \<Rightarrow> u64 \<Rightarrow> u64" where "get m t i = m (t + 8 * i)"

lemma slot_inj:
  assumes "aligned t" "aligned u" "unat i < 512" "unat j < 512"
  shows "t + 8 * i = u + 8 * j \<longleftrightarrow> t = u \<and> i = j"
  using entry_inj [OF assms] by (simp add: entry_def PHYS_TO_VIRT_def)

lemma get_put:
  assumes "aligned t" "aligned u" "unat i < 512" "unat j < 512"
  shows "get (put t i x m) u j = (if u = t \<and> j = i then x else get m u j)"
  using slot_inj [OF assms] by (auto simp: get_def put_def)

definition big_page :: "addr \<Rightarrow> u64" where
  "big_page a = a OR PG_US_U OR PG_RW_W OR PG_P OR PG_SIZE_2M"

lemma fill_pdt_addr: "snd (fill_pdt pdt n (m, a)) = a + 0x200000 * word_of_nat n"
  by (induction n) (auto simp: fill_pdt_def case_prod_beta algebra_simps)

lemma fill_pdt_Suc:
  "fill_pdt pdt (Suc n) (m, a) = (put pdt (word_of_nat n) (big_page (a + 0x200000 * word_of_nat n)) (fst (fill_pdt pdt n (m, a))),
     a + 0x200000 * word_of_nat (Suc n))"
  using fill_pdt_addr [of pdt n m a]
  by (simp add: fill_pdt_def case_prod_beta big_page_def algebra_simps)

lemma get_fill:
  assumes "aligned pdt" "aligned u" "unat j < 512" and "n \<le> 512"
  shows "get (fst (fill_pdt pdt n (m, a))) u j =
    (if u = pdt \<and> unat j < n then big_page (a + 0x200000 * j) else get m u j)"
  using assms(4)
proof (induction n)
  case 0
  show ?case by (simp add: fill_pdt_def)
next
  case (Suc n)
  have n: "unat (word_of_nat n :: u64) = n" using Suc.prems by (intro unat_of_nat_lt) simp
  have "get (fst (fill_pdt pdt (Suc n) (m, a))) u j =
      (if u = pdt \<and> j = word_of_nat n then big_page (a + 0x200000 * word_of_nat n)
       else get (fst (fill_pdt pdt n (m, a))) u j)"
    using get_put [OF assms(1,2) _ assms(3), of "word_of_nat n"] n Suc.prems by (simp add: fill_pdt_Suc)
  moreover have "j = word_of_nat n \<longleftrightarrow> unat j = n" using n by (simp only: word_unat_eq_iff)
  ultimately show ?case using Suc by (auto simp: less_Suc_eq)
qed

lemma fill_pdt_eq: "fill_pdt pdt n (m, a) = (fst (fill_pdt pdt n (m, a)), a + 0x200000 * word_of_nat n)"
  by (rule prod_eqI) (simp_all add: fill_pdt_addr)

lemma get_clear:
  assumes "unat (u - b) \<le> 0x8000" "unat j < 512"
  shows "get (SetMem0 b 0x9000 m) u j = 0"
proof -
  have "unat (8 * j) = 8 * unat j" by (rule unat_8 [OF assms(2)])
  then have "unat ((u - b) + 8 * j) = unat (u - b) + 8 * unat j" using assms by (subst unat_add_no_wrap) simp_all
  then have "unat (u + 8 * j - b) < 0x9000" using assms by (simp add: add_diff_eq [symmetric] diff_add_eq)
  then show ?thesis by (simp add: get_def SetMem0_def word_less_nat_alt)
qed

definition fb_pages :: "gop_mode \<Rightarrow> nat" where
  "fb_pages gop = unat ((FrameBufferSize gop + 0x1fffff) div 0x200000)"

abbreviation link :: "addr \<Rightarrow> u64" where "link t \<equiv> t OR PG_US_U OR PG_RW_W OR PG_P"

definition boot_tables :: "gop_mode \<Rightarrow> pmem \<Rightarrow> pmem" where
  "boot_tables gop = CreatePage (\<lambda>b n _. SetMem0 b n) gop KERNEL_PAGE_DIR_TABLE_POS"

lemma CreatePage_eq: "clears_memory SetMem \<Longrightarrow> CreatePage SetMem gop KERNEL_PAGE_DIR_TABLE_POS m = boot_tables gop m"
  by (simp add: CreatePage_def boot_tables_def clears_memory_def)

lemma boot_tables_eq:
  "boot_tables gop m =
     fst (fill_pdt 0x518000 (fb_pages gop) (put 0x516000 511 (link 0x518000) (fst (fill_pdt 0x517000 2
     (put 0x516000 510 (link 0x517000) (put 0x510000 511 (link 0x516000) (fst (fill_pdt 0x515000 512 (put
     0x511000 3 (link 0x515000) (fst (fill_pdt 0x514000 512 (put 0x511000 2 (link 0x514000) (fst
     (fill_pdt 0x513000 512 (put 0x511000 1 (link 0x513000) (fst (fill_pdt 0x512000 512 (put 0x511000 0
     (link 0x512000) (put 0x510000 256 (link 0x511000) (put 0x510000 0 (link 0x511000) (SetMem0 0x510000
     0x9000 m))), 0))), 0x40000000))), 0x80000000))), 0xc0000000)))), 0))), (FrameBufferBase gop)))"
  unfolding boot_tables_def CreatePage_def Let_def identity_pdt_def KERNEL_PAGE_DIR_TABLE_POS_def fb_pages_def
  by (simp add: case_prod_beta fill_pdt_addr)

lemma table_aligned: "aligned 0x510000" "aligned 0x511000" "aligned 0x512000" "aligned 0x513000" "aligned 0x514000"
  "aligned 0x515000" "aligned 0x516000" "aligned 0x517000" "aligned 0x518000"
  by (simp_all add: aligned_def tbl_def)

lemmas get_rules = get_put [OF table_aligned(1)] get_put [OF table_aligned(2)] get_put [OF table_aligned(7)]
  get_fill [OF table_aligned(3)] get_fill [OF table_aligned(4)] get_fill [OF table_aligned(5)]
  get_fill [OF table_aligned(6)] get_fill [OF table_aligned(8)] get_fill [OF table_aligned(9)]

lemma boot_entries:
  assumes "fb_pages gop \<le> 512" and j: "unat j < 512"
  shows "get (boot_tables gop m) 0x510000 j = (if j = 0 \<or> j = 256 then link 0x511000 else if j = 511 then link 0x516000 else 0)"
    and "get (boot_tables gop m) 0x511000 j = (if j = 0 then link 0x512000 else if j = 1 then link 0x513000
      else if j = 2 then link 0x514000 else if j = 3 then link 0x515000 else 0)"
    and "get (boot_tables gop m) 0x512000 j = big_page (0x200000 * j)"
    and "get (boot_tables gop m) 0x513000 j = big_page (0x40000000 + 0x200000 * j)"
    and "get (boot_tables gop m) 0x514000 j = big_page (0x80000000 + 0x200000 * j)"
    and "get (boot_tables gop m) 0x515000 j = big_page (0xc0000000 + 0x200000 * j)"
    and "get (boot_tables gop m) 0x516000 j = (if j = 510 then link 0x517000 else if j = 511 then link 0x518000 else 0)"
    and "get (boot_tables gop m) 0x517000 j = (if unat j < 2 then big_page (0x200000 * j) else 0)"
    and "get (boot_tables gop m) 0x518000 j = (if unat j < fb_pages gop then big_page (FrameBufferBase gop + 0x200000 * j) else 0)"
  unfolding boot_tables_eq
  by (simp_all add: get_rules table_aligned j assms(1) get_clear)

subsection \<open>The addresses the kernel starts with\<close>

definition canonical :: "addr \<Rightarrow> bool" where
  "canonical v \<longleftrightarrow> v < 0x800000000000 \<or> 0xffff800000000000 \<le> v"

definition boot_translation :: "gop_mode \<Rightarrow> addr \<Rightarrow> addr" where
  "boot_translation gop v =
     (if v < 0x100000000 then v
      else if 0xffff800000000000 \<le> v \<and> v < 0xffff800100000000 then v - 0xffff800000000000
      else if 0xffffffff80000000 \<le> v \<and> v < 0xffffffff80400000 then v - 0xffffffff80000000
      else if 0xffffffffc0000000 \<le> v \<and> unat (v - 0xffffffffc0000000) < 0x200000 * fb_pages gop
        then FrameBufferBase gop + (v - 0xffffffffc0000000)
      else NULL)"

lemma indices:
  fixes v :: addr
  shows "unat (pml4t_index v) = unat v div 2 ^ 39 mod 512"
    and "unat (pdpt_index v) = unat v mod 2 ^ 39 div 2 ^ 30"
    and "unat (pdt_index v) = unat v mod 2 ^ 30 div 2 ^ 21"
    and "unat (addr_offset v) = unat v mod 2 ^ 21"
proof -
  have e: "(n div 2 ^ 30) mod 512 = n mod 2 ^ 39 div 2 ^ 30" "(n div 2 ^ 21) mod 512 = n mod 2 ^ 30 div 2 ^ 21" for n :: nat
    using div_mod_decomp by (simp_all add: mod_mult2_eq [of n "2 ^ 30" 512, simplified] mod_mult2_eq [of n "2 ^ 21" 512, simplified])
  show "unat (pml4t_index v) = unat v div 2 ^ 39 mod 512"
    unfolding pml4t_index_def mask9 unat_masked unat_drop by simp
  show "unat (pdpt_index v) = unat v mod 2 ^ 39 div 2 ^ 30"
    unfolding pdpt_index_def mask9 unat_masked unat_drop using e(1) by simp
  show "unat (pdt_index v) = unat v mod 2 ^ 30 div 2 ^ 21"
    unfolding pdt_index_def mask9 unat_masked unat_drop using e(2) by simp
  show "unat (addr_offset v) = unat v mod 2 ^ 21"
    unfolding addr_offset_def mask21 unat_masked by simp
qed

lemma in_gigabyte: "0x200000 * pdt_index v + addr_offset v = word_of_nat (unat v mod 2 ^ 30)"
proof -
  have "word_of_nat (unat v mod 2 ^ 30) = (word_of_nat (2 ^ 21 * (unat v mod 2 ^ 30 div 2 ^ 21) + unat v mod 2 ^ 30 mod 2 ^ 21) :: addr)"
    by (simp only: mult_div_mod_eq)
  also have "\<dots> = word_of_nat (2 ^ 21 * unat (pdt_index v) + unat (addr_offset v))"
    by (simp add: indices mod_mod_cancel)
  also have "\<dots> = 0x200000 * pdt_index v + addr_offset v" by simp
  finally show ?thesis by simp
qed

lemma big_page_entry:
  assumes "aligned a"
  shows "tbl (big_page a) = a" "present (big_page a)"
proof -
  have "big_page a = a OR 0x87" by (simp add: big_page_def or.assoc PG_US_U_def PG_RW_W_def PG_P_def PG_SIZE_2M_def)
  then show "tbl (big_page a) = a" "present (big_page a)"
    using tbl_or_low [OF assms, of "0x87"] by (simp_all add: present_bit bit_or_iff)
qed

lemma aligned_unat: "aligned a \<longleftrightarrow> unat a mod 4096 = 0"
proof -
  have "unat (take_bit 12 a) = unat a mod 4096" by (simp add: take_bit_eq_mod unat_mod)
  then show ?thesis by (simp add: aligned_iff flip: unat_eq_zero)
qed

lemma aligned_add:
  assumes "aligned a"
  shows "aligned (a + 0x200000 * x)"
proof -
  have "unat (a + 0x200000 * x) mod 4096 = (unat a + 0x200000 * unat x) mod 4096"
    by (simp add: unat_word_ariths mod_mod_cancel mod_simps)
  also have "\<dots> = (unat a + 512 * unat x * 4096) mod 4096" by simp
  also have "\<dots> = 0" using assms by (simp only: mod_mult_self1 aligned_unat)
  finally show ?thesis by (simp add: aligned_unat)
qed

text \<open>One gigabyte of big pages.\<close>

lemma walk_big:
  assumes "aligned a" and "rd s t (pdt_index v) = big_page (a + 0x200000 * pdt_index v)"
  shows "present (rd s t (pdt_index v))"
    and "tbl (rd s t (pdt_index v)) + addr_offset v = a + word_of_nat (unat v mod 2 ^ 30)"
  using big_page_entry [OF aligned_add [OF assms(1)], of "pdt_index v"]
  by (simp_all add: assms(2) add.assoc flip: in_gigabyte [simplified])

definition boot_loaded :: "'a pt_state_scheme \<Rightarrow> pmem \<Rightarrow> bool" where
  "boot_loaded s m \<longleftrightarrow> (\<forall>a. 0x510000 \<le> a \<and> a < 0x519000 \<longrightarrow> pt_mem s (PHYS_TO_VIRT a) = m a)"

lemma boot_rd:
  assumes "boot_loaded s (boot_tables gop m)" and "unat j < 512" and "0x510000 \<le> t" "t \<le> 0x518000"
  shows "rd s t j = get (boot_tables gop m) t j"
proof -
  have "unat (8 * j) = 8 * unat j" by (rule unat_8 [OF assms(2)])
  moreover have "unat t \<le> 0x518000" "0x510000 \<le> unat t" using assms(3,4) by (simp_all add: word_le_nat_alt)
  ultimately have "unat (t + 8 * j) = unat t + 8 * unat j" using assms(2) by (subst unat_add_no_wrap) simp_all
  then have "0x510000 \<le> t + 8 * j" "t + 8 * j < 0x519000"
    using assms(2) \<open>unat t \<le> _\<close> \<open>_ \<le> unat t\<close> by (simp_all add: word_le_nat_alt word_less_nat_alt)
  then show ?thesis using assms(1) by (simp add: boot_loaded_def rd_def entry_def get_def)
qed

lemma link_entry: "aligned t \<Longrightarrow> tbl (link t) = t" "aligned t \<Longrightarrow> present (link t)"
  by simp_all

text \<open>The walk in the part of the tables that an entry of the root leads to.\<close>

lemma boot_low:
  assumes L: "boot_loaded s (boot_tables gop m)" and n: "fb_pages gop \<le> 512"
    and root: "pml4t_index v = 0 \<or> pml4t_index v = 256"
  shows "to_physical_address s KERNEL_PAGE_DIR_TABLE_POS v =
    (if unat v mod 2 ^ 39 < 2 ^ 32 then word_of_nat (unat v mod 2 ^ 39) else NULL)"
proof -
  define i where "i = pdpt_index v"
  define j where "j = pdt_index v"
  define x where "x = unat v mod 2 ^ 39"
  note E = boot_entries [OF n, of _ m]
  have ij: "unat i < 512" "unat j < 512" using index_less by (simp_all add: i_def j_def)
  have ui: "unat i = x div 2 ^ 30" by (simp add: i_def x_def indices)
  have r1: "rd s 0x510000 (pml4t_index v) = link 0x511000"
    using boot_rd [OF L, of "pml4t_index v" "0x510000"] E(1) index_less(1) [of v] root by auto
  have r2: "rd s 0x511000 i = get (boot_tables gop m) 0x511000 i" by (rule boot_rd [OF L ij(1)]) simp_all
  have w: "to_physical_address s KERNEL_PAGE_DIR_TABLE_POS v =
      (if \<not> present (rd s 0x511000 i) then NULL
       else if \<not> present (rd s (tbl (rd s 0x511000 i)) j) then NULL
       else tbl (rd s (tbl (rd s 0x511000 i)) j) + addr_offset v)"
    unfolding to_physical_address_def KERNEL_PAGE_DIR_TABLE_POS_def i_def j_def Let_def r1
    by (simp add: link_entry table_aligned)
  have giga: "to_physical_address s KERNEL_PAGE_DIR_TABLE_POS v = a + word_of_nat (unat v mod 2 ^ 30)"
    if "rd s 0x511000 i = link t" "aligned t" "aligned a" "0x510000 \<le> t" "t \<le> 0x518000"
      "get (boot_tables gop m) t j = big_page (a + 0x200000 * j)" for t a
  proof -
    have "rd s t (pdt_index v) = big_page (a + 0x200000 * pdt_index v)"
      using boot_rd [OF L ij(2) that(4,5)] that(6) by (simp add: j_def)
    from walk_big [OF that(3) this] show ?thesis by (simp add: w that(1,2) link_entry j_def)
  qed
  have sp: "word_of_nat x = (word_of_nat (2 ^ 30 * (x div 2 ^ 30)) + word_of_nat (unat v mod 2 ^ 30) :: addr)"
  proof -
    have "x mod 2 ^ 30 = unat v mod 2 ^ 30" by (simp add: x_def mod_mod_cancel)
    then have "x = 2 ^ 30 * (x div 2 ^ 30) + unat v mod 2 ^ 30" by (metis mult_div_mod_eq)
    then show ?thesis by (metis of_nat_add)
  qed
  have lim: "x < 2 ^ 32 \<longleftrightarrow> x div 2 ^ 30 < 4" by (simp add: div_less_iff_less_mult)
  have al: "aligned 0" "aligned 0x40000000" "aligned 0x80000000" "aligned 0xc0000000" by (simp_all add: aligned_unat)
  have idx: "i = word_of_nat (x div 2 ^ 30)" unfolding ui [symmetric] by simp
  consider "x div 2 ^ 30 = 0" | "x div 2 ^ 30 = 1" | "x div 2 ^ 30 = 2" | "x div 2 ^ 30 = 3" | "4 \<le> x div 2 ^ 30"
    by linarith
  then show ?thesis
  proof cases
    case 1
    then have "i = 0" using idx by simp
    then have "rd s 0x511000 i = link 0x512000" using r2 E(2) [OF ij(1)] by simp
    from giga [OF this, of 0] show ?thesis
      unfolding x_def [symmetric] using E(3) [OF ij(2)] al table_aligned lim sp 1 by simp
  next
    case 2
    then have "i = 1" using idx by simp
    then have "rd s 0x511000 i = link 0x513000" using r2 E(2) [OF ij(1)] by simp
    from giga [OF this, of "0x40000000"] show ?thesis
      unfolding x_def [symmetric] using E(4) [OF ij(2)] al table_aligned lim sp 2 by simp
  next
    case 3
    then have "i = 2" using idx by simp
    then have "rd s 0x511000 i = link 0x514000" using r2 E(2) [OF ij(1)] by simp
    from giga [OF this, of "0x80000000"] show ?thesis
      unfolding x_def [symmetric] using E(5) [OF ij(2)] al table_aligned lim sp 3 by simp
  next
    case 4
    then have "i = 3" using idx by simp
    then have "rd s 0x511000 i = link 0x515000" using r2 E(2) [OF ij(1)] by simp
    from giga [OF this, of "0xc0000000"] show ?thesis
      unfolding x_def [symmetric] using E(6) [OF ij(2)] al table_aligned lim sp 4 by simp
  next
    case 5
    then have "\<not> unat i < 4" using ui by simp
    then have "i \<noteq> 0 \<and> i \<noteq> 1 \<and> i \<noteq> 2 \<and> i \<noteq> 3" by auto
    then have "rd s 0x511000 i = 0" using r2 E(2) ij by simp
    then show ?thesis using lim 5 by (simp add: w x_def)
  qed
qed

lemma boot_high:
  assumes L: "boot_loaded s (boot_tables gop m)" and n: "fb_pages gop \<le> 512" and a: "aligned (FrameBufferBase gop)"
    and root: "pml4t_index v = 511"
  defines "x \<equiv> unat v mod 2 ^ 39" and "y \<equiv> unat v mod 2 ^ 30"
  shows "to_physical_address s KERNEL_PAGE_DIR_TABLE_POS v =
    (if x div 2 ^ 30 = 510 \<and> y < 0x400000 then word_of_nat y
     else if x div 2 ^ 30 = 511 \<and> y < 0x200000 * fb_pages gop then FrameBufferBase gop + word_of_nat y
     else NULL)"
proof -
  define i where "i = pdpt_index v"
  define j where "j = pdt_index v"
  note E = boot_entries [OF n, of _ m]
  have ij: "unat i < 512" "unat j < 512" using index_less by (simp_all add: i_def j_def)
  have ui: "unat i = x div 2 ^ 30" and uj: "unat j = y div 2 ^ 21" by (simp_all add: i_def j_def x_def y_def indices)
  have r1: "rd s 0x510000 (pml4t_index v) = link 0x516000"
    using boot_rd [OF L, of "pml4t_index v" "0x510000"] E(1) index_less(1) [of v] root by auto
  have r2: "rd s 0x516000 i = get (boot_tables gop m) 0x516000 i" by (rule boot_rd [OF L ij(1)]) simp_all
  have w: "to_physical_address s KERNEL_PAGE_DIR_TABLE_POS v =
      (if \<not> present (rd s 0x516000 i) then NULL
       else if \<not> present (rd s (tbl (rd s 0x516000 i)) j) then NULL
       else tbl (rd s (tbl (rd s 0x516000 i)) j) + addr_offset v)"
    unfolding to_physical_address_def KERNEL_PAGE_DIR_TABLE_POS_def i_def j_def Let_def r1
    by (simp add: link_entry table_aligned)
  have giga: "to_physical_address s KERNEL_PAGE_DIR_TABLE_POS v = (if y < 0x200000 * k then b + word_of_nat y else NULL)"
    if "rd s 0x516000 i = link t" "aligned t" "aligned b" "0x510000 \<le> t" "t \<le> 0x518000"
      "get (boot_tables gop m) t j = (if unat j < k then big_page (b + 0x200000 * j) else 0)" for t b k
  proof -
    have r: "rd s t (pdt_index v) = (if unat j < k then big_page (b + 0x200000 * pdt_index v) else 0)"
      using boot_rd [OF L ij(2) that(4,5)] that(6) by (simp add: j_def)
    have k: "unat j < k \<longleftrightarrow> y < 0x200000 * k" by (simp add: uj div_less_iff_less_mult mult.commute)
    show ?thesis
    proof (cases "unat j < k")
      case True
      then have "rd s t (pdt_index v) = big_page (b + 0x200000 * pdt_index v)" using r by simp
      from walk_big [OF that(3) this] show ?thesis using True k by (simp add: w that(1,2) link_entry j_def y_def)
    next
      case False
      then show ?thesis using r k by (simp add: w that(1,2) link_entry j_def)
    qed
  qed
  have idx: "i = word_of_nat (x div 2 ^ 30)" unfolding ui [symmetric] by simp
  consider "x div 2 ^ 30 = 510" | "x div 2 ^ 30 = 511" | "x div 2 ^ 30 \<noteq> 510" "x div 2 ^ 30 \<noteq> 511" by blast
  then show ?thesis
  proof cases
    case 1
    then have "i = 510" using idx by simp
    then have "rd s 0x516000 i = link 0x517000" using r2 E(7) [OF ij(1)] by simp
    from giga [OF this, of 0 2] show ?thesis using E(8) [OF ij(2)] table_aligned 1 by (simp add: aligned_unat)
  next
    case 2
    then have "i = 511" using idx by simp
    then have "rd s 0x516000 i = link 0x518000" using r2 E(7) [OF ij(1)] by simp
    from giga [OF this, of "FrameBufferBase gop" "fb_pages gop"] show ?thesis
      using E(9) [OF ij(2)] table_aligned a 2 by simp
  next
    case 3
    then have "unat i \<noteq> 510 \<and> unat i \<noteq> 511" using ui by simp
    then have "i \<noteq> 510 \<and> i \<noteq> 511" by auto
    then have "rd s 0x516000 i = 0" using r2 E(7) [OF ij(1)] by simp
    then show ?thesis using 3 by (simp add: w)
  qed
qed

lemma boot_none:
  assumes L: "boot_loaded s (boot_tables gop m)" and n: "fb_pages gop \<le> 512"
    and root: "pml4t_index v \<noteq> 0" "pml4t_index v \<noteq> 256" "pml4t_index v \<noteq> 511"
  shows "to_physical_address s KERNEL_PAGE_DIR_TABLE_POS v = NULL"
proof -
  have "rd s 0x510000 (pml4t_index v) = 0"
    using boot_rd [OF L, of "pml4t_index v" "0x510000"] boot_entries(1) [OF n, of "pml4t_index v" m] index_less(1) [of v] root by auto
  then show ?thesis by (simp add: to_physical_address_def KERNEL_PAGE_DIR_TABLE_POS_def)
qed

lemma split_off: "r < b \<Longrightarrow> (r + k * b) div b = k" "r < b \<Longrightarrow> (r + k * b) mod b = r" for r b k :: nat
  by simp_all

lemma split_div39: "(r + k * 2 ^ 39) div 2 ^ 39 = k + r div 2 ^ 39" for r k :: nat
  by simp

text \<open>The specification over the number of the address.\<close>

lemma boot_translation_nat:
  "boot_translation gop v = (let N = unat v in
     if N < 2 ^ 32 then word_of_nat N
     else if 2 ^ 64 - 2 ^ 47 \<le> N \<and> N < 2 ^ 64 - 2 ^ 47 + 2 ^ 32 then word_of_nat (N - (2 ^ 64 - 2 ^ 47))
     else if 2 ^ 64 - 2 ^ 31 \<le> N \<and> N < 2 ^ 64 - 2 ^ 31 + 0x400000 then word_of_nat (N - (2 ^ 64 - 2 ^ 31))
     else if 2 ^ 64 - 2 ^ 30 \<le> N \<and> N - (2 ^ 64 - 2 ^ 30) < 0x200000 * fb_pages gop
       then FrameBufferBase gop + word_of_nat (N - (2 ^ 64 - 2 ^ 30))
     else NULL)"
proof -
  have le: "w \<le> v \<longleftrightarrow> unat w \<le> unat v" "v < w \<longleftrightarrow> unat v < unat w" for w :: addr
    by (simp_all add: word_less_nat_alt word_le_nat_alt)
  have W: "v - w = word_of_nat (unat v - unat w)" if "w \<le> v" for w :: addr
    unfolding unat_sub_no_wrap [OF that, symmetric] by simp
  have U: "unat (v - w) = unat v - unat w" if "w \<le> v" for w :: addr
    by (rule unat_sub_no_wrap [OF that])
  have v: "word_of_nat (unat v) = v" by simp
  have c: "unat v < 2 ^ 32 \<longleftrightarrow> v < 0x100000000" "2 ^ 64 - 2 ^ 47 \<le> unat v \<longleftrightarrow> 0xffff800000000000 \<le> v"
    "unat v < 2 ^ 64 - 2 ^ 47 + 2 ^ 32 \<longleftrightarrow> v < 0xffff800100000000" "2 ^ 64 - 2 ^ 31 \<le> unat v \<longleftrightarrow> 0xffffffff80000000 \<le> v"
    "unat v < 2 ^ 64 - 2 ^ 31 + 0x400000 \<longleftrightarrow> v < 0xffffffff80400000" "2 ^ 64 - 2 ^ 30 \<le> unat v \<longleftrightarrow> 0xffffffffc0000000 \<le> v"
    by (simp_all add: le)
  show ?thesis
    unfolding boot_translation_def Let_def c v
    using W [of "0xffff800000000000"] W [of "0xffffffff80000000"] W [of "0xffffffffc0000000"] U [of "0xffffffffc0000000"]
    by (cases "0xffff800000000000 \<le> v"; cases "0xffffffff80000000 \<le> v"; cases "0xffffffffc0000000 \<le> v") simp_all
qed

lemma boot_translates:
  assumes "boot_loaded s (boot_tables gop m)" and "fb_pages gop \<le> 512" and "aligned (FrameBufferBase gop)" and "canonical v"
  shows "to_physical_address s KERNEL_PAGE_DIR_TABLE_POS v = boot_translation gop v"
proof -
  define N where "N = unat v"
  have c: "N < 2 ^ 47 \<or> 2 ^ 64 - 2 ^ 47 \<le> N" and top: "N < 2 ^ 64"
    using assms(4) unsigned_less [of v] by (auto simp: canonical_def N_def word_less_nat_alt word_le_nat_alt)
  have ip: "unat (pml4t_index v) = N div 2 ^ 39 mod 512" by (simp only: indices N_def)
  consider "N < 2 ^ 39" | "2 ^ 39 \<le> N" "N < 2 ^ 47" | r where "N = 2 ^ 64 - 2 ^ 47 + r" "r < 2 ^ 39"
    | r where "N = 2 ^ 64 - 2 ^ 47 + r" "2 ^ 39 \<le> r" "r < 2 ^ 47 - 2 ^ 39" | r where "N = 2 ^ 64 - 2 ^ 39 + r" "r < 2 ^ 39"
  proof -
    define r where "r = N - (2 ^ 64 - 2 ^ 47)"
    consider "N < 2 ^ 39" | "2 ^ 39 \<le> N" "N < 2 ^ 47" | "2 ^ 64 - 2 ^ 47 \<le> N" "r < 2 ^ 39"
      | "2 ^ 64 - 2 ^ 47 \<le> N" "2 ^ 39 \<le> r" "r < 2 ^ 47 - 2 ^ 39" | "2 ^ 64 - 2 ^ 47 \<le> N" "2 ^ 47 - 2 ^ 39 \<le> r"
      using c by linarith
    then show thesis
    proof cases
      case 5
      then show thesis using top by (intro that(5) [of "r - (2 ^ 47 - 2 ^ 39)"]) (simp_all add: r_def)
    next
      case 3
      then show thesis by (intro that(3) [of r]) (simp_all add: r_def)
    next
      case 4
      then show thesis by (intro that(4) [of r]) (simp_all add: r_def)
    qed (use that(1,2) in blast)+
  qed
  then show ?thesis
  proof cases
    case 1
    then have "pml4t_index v = 0" using ip by (simp flip: unat_eq_zero)
    from boot_low [OF assms(1,2) disjI1 [OF this]] show ?thesis
      using 1 by (simp add: boot_translation_nat N_def Let_def)
  next
    case 2
    then have "1 \<le> N div 2 ^ 39" "N div 2 ^ 39 < 256" by (simp_all add: div_less_iff_less_mult less_eq_div_iff_mult_less_eq)
    then have "unat (pml4t_index v) \<noteq> 0 \<and> unat (pml4t_index v) < 256" using ip by simp
    then have "pml4t_index v \<noteq> 0 \<and> pml4t_index v \<noteq> 256 \<and> pml4t_index v \<noteq> 511" by auto
    then show ?thesis using boot_none [OF assms(1,2)] 2 by (simp add: boot_translation_nat N_def Let_def)
  next
    case 3
    have "N = r + (512 * 65535 + 256) * 2 ^ 39" using 3(1) by simp
    then have "N div 2 ^ 39 = 512 * 65535 + 256" "N mod 2 ^ 39 = r" by (simp_all only: split_off [OF 3(2)])
    then have "pml4t_index v = 256" and x: "unat v mod 2 ^ 39 = r" using ip by (simp_all add: word_unat_eq_iff N_def)
    from boot_low [OF assms(1,2) disjI2 [OF this(1)]] show ?thesis
      unfolding x using 3 by (simp add: boot_translation_nat N_def Let_def)
  next
    case 4
    have d: "r div 2 ^ 39 < 255" "1 \<le> r div 2 ^ 39" using 4 by (simp_all add: div_less_iff_less_mult less_eq_div_iff_mult_less_eq)
    have "N = r + (512 * 65535 + 256) * 2 ^ 39" using 4(1) by simp
    then have "N div 2 ^ 39 = 512 * 65535 + 256 + r div 2 ^ 39" by (simp only: split_div39)
    then have "N div 2 ^ 39 = (256 + r div 2 ^ 39) + 65535 * 512" by simp
    moreover have "256 + r div 2 ^ 39 < 512" using d(1) by simp
    ultimately have "unat (pml4t_index v) = 256 + r div 2 ^ 39" by (simp only: ip split_off(2))
    then have "unat (pml4t_index v) \<noteq> 0 \<and> unat (pml4t_index v) \<noteq> 256 \<and> unat (pml4t_index v) \<noteq> 511" using d by simp
    then have "pml4t_index v \<noteq> 0 \<and> pml4t_index v \<noteq> 256 \<and> pml4t_index v \<noteq> 511" by auto
    then show ?thesis using boot_none [OF assms(1,2)] 4 by (simp add: boot_translation_nat N_def Let_def)
  next
    case 5
    have N: "N = r + (512 * 65535 + 511) * 2 ^ 39" using 5(1) by simp
    then have "N div 2 ^ 39 = 512 * 65535 + 511" "N mod 2 ^ 39 = r" by (simp_all only: split_off [OF 5(2)])
    then have "pml4t_index v = 511" and x: "unat v mod 2 ^ 39 = r" using ip by (simp_all add: word_unat_eq_iff N_def)
    have "N = r + ((512 * 65535 + 511) * 512) * 2 ^ 30" using N by simp
    then have y: "unat v mod 2 ^ 30 = r mod 2 ^ 30" by (simp only: mod_mult_self1 N_def [symmetric])
    have H: "to_physical_address s KERNEL_PAGE_DIR_TABLE_POS v =
      (if r div 2 ^ 30 = 510 \<and> r mod 2 ^ 30 < 0x400000 then word_of_nat (r mod 2 ^ 30)
       else if r div 2 ^ 30 = 511 \<and> r mod 2 ^ 30 < 0x200000 * fb_pages gop then FrameBufferBase gop + word_of_nat (r mod 2 ^ 30)
       else NULL)"
      using boot_high [OF assms(1-3) \<open>pml4t_index v = 511\<close>] unfolding x y .
    consider "r < 510 * 2 ^ 30" | q where "r = q + 510 * 2 ^ 30" "q < 2 ^ 30" | q where "r = q + 511 * 2 ^ 30" "q < 2 ^ 30"
    proof -
      consider "r < 510 * 2 ^ 30" | "510 * 2 ^ 30 \<le> r" "r < 511 * 2 ^ 30" | "511 * 2 ^ 30 \<le> r" by linarith
      then show thesis
      proof cases
        case 2
        then show thesis by (intro that(2) [of "r - 510 * 2 ^ 30"]) simp_all
      next
        case 3
        then show thesis using 5(2) by (intro that(3) [of "r - 511 * 2 ^ 30"]) simp_all
      qed (use that(1) in blast)
    qed
    then show ?thesis
    proof cases
      case 1
      then have "r div 2 ^ 30 < 510" by (simp add: div_less_iff_less_mult)
      then show ?thesis using H 1 5(1) by (simp add: boot_translation_nat N_def Let_def)
    next
      case 2
      then have "r div 2 ^ 30 = 510" "r mod 2 ^ 30 = q" by (simp_all only: split_off)
      then show ?thesis using H 2 5(1) by (simp add: boot_translation_nat N_def [symmetric] Let_def)
    next
      case 3
      then have "r div 2 ^ 30 = 511" "r mod 2 ^ 30 = q" by (simp_all only: split_off)
      then show ?thesis using H 3 5(1) by (simp add: boot_translation_nat N_def [symmetric] Let_def)
    qed
  qed
qed

text \<open>C16: The tables that \<^verbatim>\<open>CreatePage\<close> builds, walked as the kernel's \<^verbatim>\<open>to_physical_address\<close>
  walks them: the first four gigabytes at their own address and again at the base of the kernel's memory, four
  megabytes at the kernel's text, the frame buffer in the last gigabyte, and nothing anywhere else. The frame buffer
  starts at a page boundary and has at most a gigabyte; \<^verbatim>\<open>SetMem\<close> clears what it is given.\<close>

theorem boot_page_tables_correct:
  assumes "clears_memory SetMem" and "boot_loaded s (CreatePage SetMem gop KERNEL_PAGE_DIR_TABLE_POS m)" and "fb_pages gop \<le> 512" and "aligned (FrameBufferBase gop)" and "canonical v"
  shows "to_physical_address s KERNEL_PAGE_DIR_TABLE_POS v = boot_translation gop v"
  by (rule boot_translates [OF _ assms(3-5), of _ m]) (use assms(1,2) CreatePage_eq in metis)

text \<open>
  At the end of the start-up the entry of the identity mapping is cleared: the kernel's own addresses stay,
  the low ones are free for processes.
\<close>

lemma tbl_zero: "tbl 0 = 0"
  by (simp add: tbl_def)

definition drop_identity :: "'a pt_state_scheme \<Rightarrow> 'a pt_state_scheme" where
  "drop_identity = wr KERNEL_PAGE_DIR_TABLE_POS 0 0"

lemma drop_identity_effect:
  assumes "boot_loaded s (boot_tables gop m)" and "fb_pages gop \<le> 512" and "aligned (FrameBufferBase gop)" and "canonical v"
  shows "to_physical_address (drop_identity s) KERNEL_PAGE_DIR_TABLE_POS v =
    (if pml4t_index v = 0 then NULL else to_physical_address s KERNEL_PAGE_DIR_TABLE_POS v)"
proof -
  note E = boot_entries [OF assms(2), of _ m]
  have rd': "rd (drop_identity s) u j = (if u = 0x510000 \<and> j = 0 then 0 else rd s u j)" if "aligned u" "unat j < 512" for u j
    unfolding drop_identity_def KERNEL_PAGE_DIR_TABLE_POS_def using rd_wr [OF table_aligned(1) that(1), of 0 j 0 s] that(2)
    by (simp split del: if_split)
  have root: "rd s 0x510000 (pml4t_index v) = (if pml4t_index v = 0 \<or> pml4t_index v = 256 then link 0x511000
      else if pml4t_index v = 511 then link 0x516000 else 0)"
    using boot_rd [OF assms(1), of "pml4t_index v" "0x510000"] E(1) index_less(1) [of v] by auto
  have below: "rd (drop_identity s) (tbl e) j = rd s (tbl e) j" if "tbl e \<noteq> 0x510000" "unat j < 512" for e j
    using rd' [OF tbl_aligned that(2)] that(1) by simp
  have i: "unat (pdpt_index v) < 512" "unat (pdt_index v) < 512" using index_less by simp_all
  have t1: "tbl (rd s 0x511000 (pdpt_index v)) \<noteq> 0x510000 \<and> tbl (rd s 0x516000 (pdpt_index v)) \<noteq> 0x510000"
    using boot_rd [OF assms(1) i(1), of "0x511000"] boot_rd [OF assms(1) i(1), of "0x516000"] E(2,7) [OF i(1)] table_aligned tbl_zero
    by (simp add: link_entry)
  show ?thesis
  proof (cases "pml4t_index v = 0")
    case True
    then show ?thesis using rd' [OF table_aligned(1), of 0]
      by (simp add: to_physical_address_def KERNEL_PAGE_DIR_TABLE_POS_def Let_def)
  next
    case False
    then have r: "rd (drop_identity s) 0x510000 (pml4t_index v) = rd s 0x510000 (pml4t_index v)"
      using rd' [OF table_aligned(1) index_less(1)] by simp
    have tt: "tbl (rd s 0x510000 (pml4t_index v)) = (if pml4t_index v = 256 then 0x511000
        else if pml4t_index v = 511 then 0x516000 else 0)"
      using False root by (simp add: link_entry table_aligned tbl_zero)
    show ?thesis
    proof (cases "present (rd s 0x510000 (pml4t_index v))")
      case True
      then have "pml4t_index v = 256 \<or> pml4t_index v = 511" using root False by (auto split: if_splits)
      then show ?thesis
        unfolding to_physical_address_def KERNEL_PAGE_DIR_TABLE_POS_def Let_def r tt
        using False True below [OF _ i(1)] below [OF _ i(2)] t1 rd' [OF _ i(1)] table_aligned by (auto simp: tt)
    next
      case no: False
      then show ?thesis using False unfolding to_physical_address_def KERNEL_PAGE_DIR_TABLE_POS_def Let_def r by simp
    qed
  qed
qed

lemma boot_page_tables_correct_witness:
  "let gop = \<lparr>FrameBufferBase = 0xe0000000, FrameBufferSize = 0x300000\<rparr>;
       s = example_tables\<lparr>pt_mem := \<lambda>a. CreatePage (\<lambda>b n _. SetMem0 b n) gop KERNEL_PAGE_DIR_TABLE_POS (\<lambda>_. 7) (VIRT_TO_PHYS a)\<rparr>
   in to_physical_address s KERNEL_PAGE_DIR_TABLE_POS 0xffff800000123456 = 0x123456 \<and>
     to_physical_address s KERNEL_PAGE_DIR_TABLE_POS 0xffffffffc0200010 = 0xe0200010 \<and>
     to_physical_address s KERNEL_PAGE_DIR_TABLE_POS 0xffffffffc0400010 = NULL"
proof -
  define gop where "gop = \<lparr>FrameBufferBase = 0xe0000000, FrameBufferSize = 0x300000\<rparr>"
  define s where "s = example_tables\<lparr>pt_mem := \<lambda>a. CreatePage (\<lambda>b n _. SetMem0 b n) gop KERNEL_PAGE_DIR_TABLE_POS (\<lambda>_. 7) (VIRT_TO_PHYS a)\<rparr>"
  have fb: "fb_pages gop = 2" by (simp add: fb_pages_def gop_def)
  let ?S = "\<lambda>b n _. SetMem0 b n"
  have "clears_memory ?S" by (simp add: clears_memory_def)
  moreover have "boot_loaded s (CreatePage ?S gop KERNEL_PAGE_DIR_TABLE_POS (\<lambda>_. 7))" by (simp add: boot_loaded_def s_def)
  moreover have "fb_pages gop \<le> 512" "aligned (FrameBufferBase gop)" by (simp_all add: fb) (simp add: gop_def aligned_unat)
  moreover have "canonical 0xffff800000123456" "canonical 0xffffffffc0200010" "canonical 0xffffffffc0400010"
    by (simp_all add: canonical_def)
  ultimately have "to_physical_address s KERNEL_PAGE_DIR_TABLE_POS v = boot_translation gop v"
    if "v \<in> {0xffff800000123456, 0xffffffffc0200010, 0xffffffffc0400010}" for v
    using boot_page_tables_correct [of ?S s gop "\<lambda>_. 7" v] that by blast
  then show ?thesis unfolding Let_def gop_def [symmetric] s_def [symmetric]
    by (simp add: boot_translation_def fb) (simp add: gop_def)
qed

end
