(* ===== verification/BootElf.thy ===== *)
theory BootElf
  imports ElfLoad
begin

text \<open>
  The loader of the kernel's file, \<^verbatim>\<open>src/arch/x86_64/bootloader/elf.c\<close>. The firmware's services
  \<^verbatim>\<open>AllocatePages\<close>, \<^verbatim>\<open>SetMem\<close> and \<^verbatim>\<open>CopyMem\<close> are arguments.
  The text that it prints on errors is left out.
\<close>

record boot_services =
  AllocateAnyPages :: "u64 \<Rightarrow> addr option"
  AllocateAddress :: "addr \<Rightarrow> u64 \<Rightarrow> bool"
  SetMem :: "addr \<Rightarrow> u64 \<Rightarrow> u8 \<Rightarrow> mem \<Rightarrow> mem"
  CopyMem :: "addr \<Rightarrow> addr \<Rightarrow> u64 \<Rightarrow> mem \<Rightarrow> mem"

datatype boot_error = ELF_MAGIC | ELF_VERSION | ELF_TYPE | ELF_NO_MEMORY

definition ET_EXEC :: u16 where "ET_EXEC = 2"

definition e_entry :: "mem \<Rightarrow> addr \<Rightarrow> u64" where "e_entry mm ehdr = rd64 mm (ehdr + 24)"

definition loadable :: "elf_phdr \<Rightarrow> bool" where
  "loadable ph \<longleftrightarrow> p_type ph = PT_LOAD \<and> p_vaddr ph \<noteq> 0"

definition boot_widen :: "elf_phdr \<Rightarrow> u64 \<times> u64 \<Rightarrow> u64 \<times> u64" where
  "boot_widen ph r =
     (let (AddrLo, AddrHi) = r in
      if loadable ph
      then (if AddrLo > p_vaddr ph then p_vaddr ph else AddrLo,
            if AddrHi < p_vaddr ph + p_memsz ph then p_vaddr ph else AddrHi)
      else (AddrLo, AddrHi))"

definition boot_range :: "mem \<Rightarrow> addr \<Rightarrow> u64 \<times> u64" where
  "boot_range mm elf =
     fold boot_widen (map (phdr_at mm (elf + e_phoff mm elf)) [0..<unat (e_phnum mm elf)]) (0xffffffffffffffff, 0)"

definition boot_load_one :: "boot_services \<Rightarrow> addr \<Rightarrow> addr \<Rightarrow> u64 \<Rightarrow> addr \<Rightarrow> nat \<Rightarrow> mem \<Rightarrow> mem" where
  "boot_load_one bs elf base lo phdr i mm =
     (if loadable (phdr_at mm phdr i) then
        let off = p_vaddr (phdr_at mm phdr i) - lo;
            mm = SetMem bs (base + off) (p_memsz (phdr_at mm phdr 0)) 0 mm
        in CopyMem bs (base + off) (elf + p_offset (phdr_at mm phdr i)) (p_filesz (phdr_at mm phdr i)) mm
      else mm)"

text \<open>The entry point and the memory, or an error. A type of file without a name is an access behind the
  array \<^verbatim>\<open>file_type\<close>.\<close>

definition LoadSegment :: "boot_services \<Rightarrow> addr \<Rightarrow> addr \<Rightarrow> mem \<Rightarrow> (boot_error + addr \<times> mem) option" where
  "LoadSegment bs elf base mm =
     (let phdr = elf + e_phoff mm elf in
      if mm elf \<noteq> 0x7f \<or> mm (elf + 1) \<noteq> 0x45 \<or> mm (elf + 2) \<noteq> 0x4c \<or> mm (elf + 3) \<noteq> 0x46 then Some (Inl ELF_MAGIC)
      else if e_version mm elf \<noteq> EV_CURRENT then Some (Inl ELF_VERSION)
      else if e_type mm elf \<noteq> ET_EXEC then (if e_type mm elf < 6 then Some (Inl ELF_TYPE) else None)
      else
        let (AddrLo, AddrHi) = boot_range mm elf;
            pages = (AddrHi - AddrLo) div 0x1000 + 1
        in case (if base = 0 then AllocateAnyPages bs pages else if AllocateAddress bs base pages then Some base else None) of
             None \<Rightarrow> Some (Inl ELF_NO_MEMORY)
           | Some base \<Rightarrow>
               let mm = SetMem bs base (pages * 0x1000) 0 mm;
                   mm = fold (boot_load_one bs elf base AddrLo phdr) [0..<unat (e_phnum mm elf)] mm
               in Some (Inr (e_entry mm elf, mm)))"

subsection \<open>The layout\<close>

definition efi_memory :: "boot_services \<Rightarrow> bool" where
  "efi_memory bs \<longleftrightarrow>
     (\<forall>d n v mm a. SetMem bs d n v mm a = (if in_block a d (unat n) then v else mm a)) \<and>
     (\<forall>d s n mm a. CopyMem bs d s n mm a = (if in_block a d (unat n) then mm (s + (a - d)) else mm a))"

text \<open>The parts of the file that are read.\<close>

definition boot_file :: "mem \<Rightarrow> addr \<Rightarrow> addr set" where
  "boot_file mm elf = {a. in_block a elf 64} \<union>
     {a. \<exists>j < unat (e_phnum mm elf). in_block a (elf + e_phoff mm elf + word_of_nat (phdr_size * j)) phdr_size \<or>
       (loadable (phdr_at mm (elf + e_phoff mm elf) j) \<and>
        in_block a (elf + p_offset (phdr_at mm (elf + e_phoff mm elf) j)) (unat (p_filesz (phdr_at mm (elf + e_phoff mm elf) j))))}"

definition boot_writes :: "mem \<Rightarrow> addr \<Rightarrow> addr \<Rightarrow> nat \<Rightarrow> addr set" where
  "boot_writes mm elf base i =
     (let ph = phdr_at mm (elf + e_phoff mm elf); d = dest base (fst (boot_range mm elf)) (ph i) in
      if loadable (ph i) then {a. in_block a d (unat (p_memsz (ph 0))) \<or> in_block a d (unat (p_filesz (ph i)))} else {})"

definition boot_image :: "mem \<Rightarrow> addr \<Rightarrow> addr \<Rightarrow> nat \<Rightarrow> addr set" where
  "boot_image mm elf base i =
     (let ph = phdr_at mm (elf + e_phoff mm elf) i in
      if loadable ph then {a. in_block a (dest base (fst (boot_range mm elf)) ph) (unat (p_filesz ph))} else {})"

definition boot_pages :: "mem \<Rightarrow> addr \<Rightarrow> u64" where
  "boot_pages mm elf = (snd (boot_range mm elf) - fst (boot_range mm elf)) div 0x1000 + 1"

definition boot_layout :: "mem \<Rightarrow> addr \<Rightarrow> addr \<Rightarrow> bool" where
  "boot_layout mm elf base \<longleftrightarrow>
     {a. in_block a base (unat (boot_pages mm elf * 0x1000))} \<inter> boot_file mm elf = {} \<and>
     (\<forall>i < unat (e_phnum mm elf). boot_writes mm elf base i \<inter> boot_file mm elf = {} \<and>
        (\<forall>j < i. boot_image mm elf base j \<inter> boot_writes mm elf base i = {}))"

definition same_file :: "mem \<Rightarrow> addr \<Rightarrow> mem \<Rightarrow> bool" where
  "same_file mm elf m \<longleftrightarrow> (\<forall>a \<in> boot_file mm elf. m a = mm a)"

lemma same_file_phdr:
  assumes "same_file mm elf m" and "i < unat (e_phnum mm elf)"
  shows "phdr_at m (elf + e_phoff mm elf) i = phdr_at mm (elf + e_phoff mm elf) i"
  by (rule phdr_at_cong) (use assms in \<open>auto simp: same_file_def boot_file_def\<close>)

lemma boot_load_one_effect:
  fixes mm :: mem and elf base :: addr
  defines "ph \<equiv> phdr_at mm (elf + e_phoff mm elf)" and "lo \<equiv> fst (boot_range mm elf)"
  assumes bs: "efi_memory bs" and lay: "boot_layout mm elf base" and sf: "same_file mm elf m" and i: "i < unat (e_phnum mm elf)"
  defines "m' \<equiv> boot_load_one bs elf base lo (elf + e_phoff mm elf) i m"
  shows "same_file mm elf m'"
    and "a \<in> boot_image mm elf base i \<Longrightarrow> m' a = mm (elf + p_offset (ph i) + (a - dest base lo (ph i)))"
    and "a \<notin> boot_writes mm elf base i \<Longrightarrow> m' a = m a"
proof -
  have P: "phdr_at m (elf + e_phoff mm elf) i = ph i" "phdr_at m (elf + e_phoff mm elf) 0 = ph 0"
    using same_file_phdr [OF sf] i by (simp_all add: ph_def)
  have W: "boot_writes mm elf base i \<inter> boot_file mm elf = {}" using lay i by (simp add: boot_layout_def)
  have all: "same_file mm elf m' \<and>
    (a \<in> boot_image mm elf base i \<longrightarrow> m' a = mm (elf + p_offset (ph i) + (a - dest base lo (ph i)))) \<and>
    (a \<notin> boot_writes mm elf base i \<longrightarrow> m' a = m a)"
  proof (cases "loadable (ph i)")
    case False
    then show ?thesis using sf P by (simp add: m'_def boot_load_one_def boot_image_def Let_def flip: ph_def)
  next
    case True
    define d where "d = dest base lo (ph i)"
    define m1 where "m1 = SetMem bs d (p_memsz (ph 0)) 0 m"
    have w: "boot_writes mm elf base i = {a. in_block a d (unat (p_memsz (ph 0))) \<or> in_block a d (unat (p_filesz (ph i)))}"
      using True by (simp add: boot_writes_def Let_def ph_def d_def lo_def)
    have m1: "m1 x = (if in_block x d (unat (p_memsz (ph 0))) then 0 else m x)" for x
      using bs by (simp add: m1_def efi_memory_def)
    have sf1: "same_file mm elf m1" using sf W by (auto simp: same_file_def m1 w)
    have P1: "phdr_at m1 (elf + e_phoff mm elf) i = ph i" using same_file_phdr [OF sf1 i] by (simp add: ph_def)
    have m': "m' x = (if in_block x d (unat (p_filesz (ph i))) then m1 (elf + p_offset (ph i) + (x - d)) else m1 x)" for x
      using True bs P P1 unfolding m'_def boot_load_one_def Let_def m1_def d_def dest_def
      by (simp add: efi_memory_def)
    have src: "m1 (elf + p_offset (ph i) + (x - d)) = mm (elf + p_offset (ph i) + (x - d))"
      if "in_block x d (unat (p_filesz (ph i)))" for x
    proof -
      have "in_block (elf + p_offset (ph i) + (x - d)) (elf + p_offset (ph i)) (unat (p_filesz (ph i)))"
        using that by (simp add: in_block_def)
      then have "elf + p_offset (ph i) + (x - d) \<in> boot_file mm elf"
        using True i by (auto simp: boot_file_def ph_def)
      then show ?thesis using sf1 by (simp add: same_file_def)
    qed
    have "x \<notin> boot_writes mm elf base i \<Longrightarrow> m' x = m x" for x by (simp add: m' m1 w)
    moreover from this have "same_file mm elf m'" using sf W by (auto simp: same_file_def) (metis disjoint_iff)
    moreover have "a \<in> boot_image mm elf base i \<longleftrightarrow> in_block a d (unat (p_filesz (ph i)))"
      using True by (simp add: boot_image_def Let_def d_def lo_def flip: ph_def)
    ultimately show ?thesis using m' src by (auto simp flip: d_def)
  qed
  show "same_file mm elf m'"
    and "a \<in> boot_image mm elf base i \<Longrightarrow> m' a = mm (elf + p_offset (ph i) + (a - dest base lo (ph i)))"
    and "a \<notin> boot_writes mm elf base i \<Longrightarrow> m' a = m a"
    using all by blast+
qed

lemma boot_load_fold:
  fixes mm :: mem and elf base :: addr
  defines "ph \<equiv> phdr_at mm (elf + e_phoff mm elf)" and "lo \<equiv> fst (boot_range mm elf)"
  assumes bs: "efi_memory bs" and lay: "boot_layout mm elf base" and sf: "same_file mm elf m" and n: "n \<le> unat (e_phnum mm elf)"
  defines "m' \<equiv> fold (boot_load_one bs elf base lo (elf + e_phoff mm elf)) [0..<n] m"
  shows "same_file mm elf m' \<and>
    (\<forall>i < n. \<forall>a \<in> boot_image mm elf base i. m' a = mm (elf + p_offset (ph i) + (a - dest base lo (ph i)))) \<and>
    (\<forall>a. (\<forall>i < n. a \<notin> boot_writes mm elf base i) \<longrightarrow> m' a = m a)"
  using n unfolding m'_def
proof (induction n)
  case 0
  then show ?case using sf by simp
next
  case (Suc n)
  define m1 where "m1 = fold (boot_load_one bs elf base lo (elf + e_phoff mm elf)) [0..<n] m"
  have IH: "same_file mm elf m1"
    "\<forall>i < n. \<forall>a \<in> boot_image mm elf base i. m1 a = mm (elf + p_offset (ph i) + (a - dest base lo (ph i)))"
    "\<forall>a. (\<forall>i < n. a \<notin> boot_writes mm elf base i) \<longrightarrow> m1 a = m a"
    using Suc unfolding m1_def by simp_all
  have i: "n < unat (e_phnum mm elf)" using Suc.prems by simp
  note E = boot_load_one_effect [OF bs lay IH(1) i, folded ph_def lo_def]
  have "boot_image mm elf base j \<inter> boot_writes mm elf base n = {}" if "j < n" for j
    using lay i that by (simp add: boot_layout_def)
  then have "a \<in> boot_image mm elf base j \<Longrightarrow> a \<notin> boot_writes mm elf base n" if "j < n" for a j
    using that by blast
  then show ?case using E IH(2,3) by (auto simp: less_Suc_eq simp flip: m1_def)
qed


subsection \<open>An example\<close>

definition example_kernel :: "u8 list" where
  "example_kernel =
     [0x7f, 0x45, 0x4c, 0x46] @ replicate 12 0 @ le_bytes 2 2 @ le_bytes 2 0x3e @ le_bytes 4 1 @ le_bytes 8 0x200002 @
     le_bytes 8 64 @ replicate 16 0 @ le_bytes 2 1 @ replicate 6 0 @
     le_bytes 4 1 @ le_bytes 4 0 @ le_bytes 8 120 @ le_bytes 8 0x200000 @ le_bytes 8 0 @ le_bytes 8 4 @ le_bytes 8 8 @
     le_bytes 8 0 @ [0x11, 0x22, 0x33, 0x44]"

definition example_kernel_mem :: mem where
  "example_kernel_mem = load example_kernel 0x1000 (\<lambda>_. 0xAA)"

definition example_services :: boot_services where
  "example_services = \<lparr>AllocateAnyPages = (\<lambda>_. None), AllocateAddress = (\<lambda>_ _. True),
     SetMem = (\<lambda>d n v mm a. if in_block a d (unat n) then v else mm a),
     CopyMem = (\<lambda>d s n mm a. if in_block a d (unat n) then mm (s + (a - d)) else mm a)\<rparr>"

lemma example_kernel_parts:
  "stored example_kernel_mem 0x1000 [0x7f, 0x45, 0x4c, 0x46]" "e_phoff example_kernel_mem 0x1000 = 64"
  "e_phnum example_kernel_mem 0x1000 = 1" "e_entry example_kernel_mem 0x1000 = 0x200002"
  "e_version example_kernel_mem 0x1000 = 1" "e_type example_kernel_mem 0x1000 = 2" "example_kernel_mem 0x1079 = 0x22"
  "phdr_at example_kernel_mem 0x1040 0 = \<lparr>p_type = 1, p_offset = 120, p_vaddr = 0x200000, p_filesz = 4, p_memsz = 8\<rparr>"
proof -
  have "stored example_kernel_mem 0x1000 example_kernel"
    unfolding example_kernel_mem_def by (rule load_stored) (simp add: example_kernel_def)
  note st = this [unfolded example_kernel_def stored_append stored_Cons stored_Nil, simplified]
  show "stored example_kernel_mem 0x1000 [0x7f, 0x45, 0x4c, 0x46]" using st by (simp add: stored_Cons stored_Nil)
  show "e_phoff example_kernel_mem 0x1000 = 64"
    using st stored_le [of example_kernel_mem "0x1020" 64] by (simp add: e_phoff_def)
  show "e_phnum example_kernel_mem 0x1000 = 1"
    using st stored_le_16 [of example_kernel_mem "0x1038" 1] by (simp add: e_phnum_def)
  show "e_entry example_kernel_mem 0x1000 = 0x200002"
    using st stored_le [of example_kernel_mem "0x1018" "0x200002"] by (simp add: e_entry_def)
  show "e_version example_kernel_mem 0x1000 = 1"
    using st stored_le_32 [of example_kernel_mem "0x1014" 1] by (simp add: e_version_def)
  show "e_type example_kernel_mem 0x1000 = 2"
    using st stored_le_16 [of example_kernel_mem "0x1010" 2] by (simp add: e_type_def)
  show "example_kernel_mem 0x1079 = 0x22" using st by simp
  show "phdr_at example_kernel_mem 0x1040 0 = \<lparr>p_type = 1, p_offset = 120, p_vaddr = 0x200000, p_filesz = 4, p_memsz = 8\<rparr>"
    using st stored_le_32 [of example_kernel_mem "0x1040" 1] stored_le [of example_kernel_mem "0x1048" 120]
      stored_le [of example_kernel_mem "0x1050" "0x200000"] stored_le [of example_kernel_mem "0x1060" 4]
      stored_le [of example_kernel_mem "0x1068" 8]
    by (simp add: phdr_at_def Let_def)
qed


text \<open>
  The end of the range is the start of the last segment: for a file with one segment, whatever its size,
  one page is allocated.
\<close>

lemma boot_pages_ignores_size:
  assumes "e_phnum mm elf = 1" and "loadable (phdr_at mm (elf + e_phoff mm elf) 0)"
    and "p_vaddr (phdr_at mm (elf + e_phoff mm elf) 0) < 0xffffffffffffffff"
    and "0 < p_vaddr (phdr_at mm (elf + e_phoff mm elf) 0) + p_memsz (phdr_at mm (elf + e_phoff mm elf) 0)"
  shows "boot_pages mm elf = 1"
  using assms by (simp add: boot_pages_def boot_range_def boot_widen_def Let_def)

end
