(* ===== verification/BootMain.thy ===== *)
theory BootMain
  imports BootPages BootElf Console
begin

text \<open>
  The main program of the boot loader: \<^verbatim>\<open>bootloader/main.c\<close>, \<^verbatim>\<open>video.c\<close>, \<^verbatim>\<open>file.c\<close> and
  \<^verbatim>\<open>GetMemoryMap\<close> of \<^verbatim>\<open>memory.c\<close>. The firmware is a record of functions on a state of its own; a call that can
  fail returns a sum, whose left side is an error status. The frame buffer is a map of pixels as in \<open>Console\<close>, the
  page tables are words as in \<open>BootPages\<close>, and all other memory is a map of bytes.
\<close>

subsection \<open>The firmware\<close>

record mode_info =
  HorizontalResolution :: u32
  VerticalResolution :: u32
  PixelsPerScanLine :: u32

record 'f firmware =
  MaxMode :: "'f \<Rightarrow> u32"
  QueryMode :: "'f \<Rightarrow> nat \<Rightarrow> mode_info"
  SetMode :: "nat \<Rightarrow> 'f \<Rightarrow> 'f"
  ModeInfo :: "'f \<Rightarrow> mode_info"
  FrameBuffer :: "'f \<Rightarrow> gop_mode"
  LocateHandleBuffer :: "'f \<Rightarrow> (u64 + addr list) \<times> 'f"
  OpenProtocol :: "addr \<Rightarrow> 'f \<Rightarrow> (u64 + addr) \<times> 'f"
  OpenVolume :: "addr \<Rightarrow> 'f \<Rightarrow> (u64 + addr) \<times> 'f"
  FileOpen :: "addr \<Rightarrow> u8 list \<Rightarrow> 'f \<Rightarrow> (u64 + addr) \<times> 'f"
  FileGetSize :: "addr \<Rightarrow> 'f \<Rightarrow> (u64 + u64) \<times> 'f"
  FileRead :: "addr \<Rightarrow> u64 \<Rightarrow> addr \<Rightarrow> 'f \<times> mem \<Rightarrow> u64 option \<times> 'f \<times> mem"
  FileClose :: "addr \<Rightarrow> 'f \<Rightarrow> 'f"
  AllocatePool :: "u64 \<Rightarrow> 'f \<Rightarrow> (u64 + addr) \<times> 'f"
  FreePool :: "addr \<Rightarrow> 'f \<Rightarrow> 'f"
  AllocatePages :: "u64 \<Rightarrow> 'f \<Rightarrow> (u64 + addr) \<times> 'f"
  AllocateAt :: "addr \<Rightarrow> u64 \<Rightarrow> 'f \<Rightarrow> 'f"
  MemoryMap :: "u64 \<Rightarrow> addr \<Rightarrow> 'f \<times> mem \<Rightarrow> u64 option \<times> (u64 \<times> u64 \<times> u64 \<times> u32) \<times> 'f \<times> mem"
  ExitBootServices :: "u64 \<Rightarrow> 'f \<Rightarrow> 'f"
  services :: "'f \<Rightarrow> boot_services"

definition EFI_ERR :: u64 where "EFI_ERR = 0x8000000000000000"

subsection \<open>The screen\<close>

definition VideoModes :: "(u32 \<times> u32) list" where
  "VideoModes = [(2560, 1600), (1920, 1200), (1920, 1080), (1680, 1050), (1600, 1200), (1440, 900), (1280, 1024),
     (1280, 800), (1280, 720), (1024, 768), (800, 600), (0, 0)]"

definition SetVideoMode :: "'f firmware \<Rightarrow> u32 \<Rightarrow> u32 \<Rightarrow> 'f \<Rightarrow> bool \<times> 'f" where
  "SetVideoMode E xs ys f =
     (case find (\<lambda>i. xs = HorizontalResolution (QueryMode E f i) \<and> ys = VerticalResolution (QueryMode E f i))
         [0..<unat (MaxMode E f)] of
        Some i \<Rightarrow> (True, SetMode E i f)
      | None \<Rightarrow> (False, f))"

text \<open>The loop of \<^verbatim>\<open>UefiMain\<close> over the table of modes.\<close>

fun choose_mode :: "'f firmware \<Rightarrow> (u32 \<times> u32) list \<Rightarrow> 'f \<Rightarrow> 'f" where
  "choose_mode E [] f = f"
| "choose_mode E ((x, y) # ms) f = (let (ok, f) = SetVideoMode E x y f in if ok then f else choose_mode E ms f)"

definition fill_block :: "graph_info \<Rightarrow> u32 \<Rightarrow> u32 \<Rightarrow> u32 \<Rightarrow> u32 \<Rightarrow> u32 \<Rightarrow> frame \<Rightarrow> frame" where
  "fill_block gi color x y x1 y1 =
     fold (\<lambda>i. fold (\<lambda>j m. m(pixel_at gi (word_of_nat j) (word_of_nat i) := color)) [unat y..<unat y1]) [unat x..<unat x1]"

definition CleanBlock :: "graph_info \<Rightarrow> u32 \<Rightarrow> u32 \<Rightarrow> u32 \<Rightarrow> u32 \<Rightarrow> frame \<Rightarrow> frame" where
  "CleanBlock gi = fill_block gi 0"

definition DisplayBlock :: "graph_info \<Rightarrow> u32 \<Rightarrow> u32 \<Rightarrow> u32 \<Rightarrow> u32 \<Rightarrow> u32 \<Rightarrow> frame \<Rightarrow> frame" where
  "DisplayBlock gi x y x1 y1 color = fill_block gi color x y x1 y1"

definition DisplayLogo :: "graph_info \<Rightarrow> frame \<Rightarrow> frame" where
  "DisplayLogo gi m =
     (let bx = (horizontal_resolution gi - 400) div 2; bys = (vertical_resolution gi - 200) div 2;
          m = CleanBlock gi (bx - 5) (bys - 5) (bx + 405) (bys + 205) m;
          m = DisplayBlock gi bx bys (bx + 400) (bys + 200) 0x00ffffff m;
          m = CleanBlock gi (bx + 98) (bys + 0) (bx + 102) (bys + 200) m;
          m = CleanBlock gi (bx + 198) (bys + 0) (bx + 202) (bys + 200) m;
          m = CleanBlock gi (bx + 298) (bys + 0) (bx + 302) (bys + 200) m;
          m = CleanBlock gi (bx + 48) (bys + 48) (bx + 52) (bys + 152) m;
          m = CleanBlock gi (bx + 48) (bys + 98) (bx + 100) (bys + 102) m;
          m = CleanBlock gi (bx + 148) (bys + 0) (bx + 200) (bys + 148) m;
          m = CleanBlock gi (bx + 248) (bys + 100) (bx + 300) (bys + 200) m;
          m = CleanBlock gi (bx + 248) (bys + 48) (bx + 300) (bys + 52) m;
          m = CleanBlock gi (bx + 348) (bys + 48) (bx + 400) (bys + 52) m
      in CleanBlock gi (bx + 348) (bys + 48) (bx + 352) (bys + 152) m)"

subsection \<open>The tables of the firmware\<close>

text \<open>\<^verbatim>\<open>CompareGuid\<close> of the identifier at \<open>a\<close> with that of the ACPI tables.\<close>

record guid =
  Data1 :: u32
  Data2 :: u16
  Data3 :: u16
  Data4 :: "u8 list"

definition guid_at :: "mem \<Rightarrow> addr \<Rightarrow> guid" where
  "guid_at mm a = \<lparr>Data1 = rd32 mm a, Data2 = rd16 mm (a + 4), Data3 = rd16 mm (a + 6),
     Data4 = map (\<lambda>i. mm (a + 8 + i)) [0, 1, 2, 3, 4, 5, 6, 7]\<rparr>"

definition CompareGuid :: "guid \<Rightarrow> guid \<Rightarrow> bool" where
  "CompareGuid g h \<longleftrightarrow> Data1 g = Data1 h \<and> Data2 g = Data2 h \<and> Data3 g = Data3 h \<and>
     (\<forall>i \<in> set [0, 1, 2, 3, 4, 5, 6, 7]. Data4 g ! i = Data4 h ! i)"

definition gEfiAcpiTableGuid :: guid where
  "gEfiAcpiTableGuid = \<lparr>Data1 = 0x8868e871, Data2 = 0xe4f1, Data3 = 0x11d3,
     Data4 = [0xbc, 0x22, 0x0, 0x80, 0xc7, 0x3c, 0x88, 0x81]\<rparr>"

text \<open>The loop over the configuration tables; \<open>rsdp\<close> is the variable, \<open>None\<close> as long as it is not initialised.\<close>

fun find_rsdp :: "mem \<Rightarrow> nat \<Rightarrow> addr \<Rightarrow> addr option \<Rightarrow> addr option" where
  "find_rsdp mm 0 ConfigTable rsdp = rsdp"
| "find_rsdp mm (Suc n) ConfigTable rsdp =
     (if CompareGuid (guid_at mm ConfigTable) gEfiAcpiTableGuid
      then let r = rd64 mm (ConfigTable + 16) in
        if mm (r + 15) = 2 then Some r else find_rsdp mm n (ConfigTable + 24) (Some r)
      else find_rsdp mm n (ConfigTable + 24) rsdp)"

definition MADT_SIGNATURE :: u32 where "MADT_SIGNATURE = 0x43495041"

text \<open>The table with the signature among those of the extended table at \<open>xsdt\<close>.\<close>

definition find_madt :: "mem \<Rightarrow> addr \<Rightarrow> addr option" where
  "find_madt mm xsdt =
     (let entries = (ucast ((ucast (rd32 mm (xsdt + 4)) - 36) div (8 :: u64)) :: u32);
          sdt = (\<lambda>i. rd64 mm (xsdt + 36 + 8 * word_of_nat i))
      in map_option sdt (find (\<lambda>i. rd32 mm (sdt i) = MADT_SIGNATURE) [0..<unat entries]))"

subsection \<open>Files\<close>

text \<open>The loop over the volumes; with no volume at all a handle is read that does not exist.\<close>

fun open_file :: "'f firmware \<Rightarrow> u8 list \<Rightarrow> addr list \<Rightarrow> 'f \<Rightarrow> ((u64 + addr \<times> addr) \<times> 'f) option" where
  "open_file E nm [] f = None"
| "open_file E nm (v # vs) f =
     (case OpenProtocol E v f of
        (Inl e, f) \<Rightarrow> Some (Inl e, f)
      | (Inr fs, f) \<Rightarrow>
          (case OpenVolume E fs f of
             (Inl e, f) \<Rightarrow> Some (Inl e, f)
           | (Inr root, f) \<Rightarrow>
               (case FileOpen E root nm f of
                  (Inr h, f) \<Rightarrow> Some (Inr (root, h), f)
                | (Inl e, f) \<Rightarrow> if vs \<noteq> [] then open_file E nm vs f else Some (Inl e, f))))"

text \<open>\<^verbatim>\<open>base\<close> is the value of \<^verbatim>\<open>*FileBufferBase\<close> before the call, which is cleared also when no page was
  given.\<close>

definition read_opened ::
  "'f firmware \<Rightarrow> addr \<Rightarrow> addr \<Rightarrow> addr \<Rightarrow> 'f \<times> mem \<Rightarrow> (u64 + addr \<times> u64) \<times> 'f \<times> mem" where
  "read_opened E base root h = (\<lambda>(f, mm).
     (case AllocatePool E (88 + 2 * 256) f of
        (Inl e, f) \<Rightarrow> (Inl e, f, mm)
      | (Inr info, f) \<Rightarrow>
          (case FileGetSize E h f of
             (Inl e, f) \<Rightarrow> (Inl e, FreePool E info f, mm)
           | (Inr n, f) \<Rightarrow>
               let pages = (n + 0x0fff) div 0x1000;
                   (r, f) = AllocatePages E pages f;
                   b = (case r of Inl _ \<Rightarrow> base | Inr b \<Rightarrow> b);
                   mm = SetMem (services E f) b (pages * 0x1000) 0 mm
               in (case r of
                     Inl e \<Rightarrow> (Inl e, FreePool E info f, mm)
                   | Inr _ \<Rightarrow>
                       let (st, f, mm) = FileRead E h n b (f, mm);
                           f = FileClose E root (FileClose E h (FreePool E info f))
                       in (case st of Some e \<Rightarrow> Inl e | None \<Rightarrow> Inr (b, n), f, mm)))))"

definition ReadFile ::
  "'f firmware \<Rightarrow> u8 list \<Rightarrow> addr \<Rightarrow> 'f \<times> mem \<Rightarrow> ((u64 + addr \<times> u64) \<times> 'f \<times> mem) option" where
  "ReadFile E nm base = (\<lambda>(f, mm).
     (case LocateHandleBuffer E f of
        (Inl e, f) \<Rightarrow> Some (Inl e, f, mm)
      | (Inr hds, f) \<Rightarrow> do {
          (r, f) \<leftarrow> open_file E nm hds f;
          Some (case r of Inl e \<Rightarrow> (Inl e, f, mm) | Inr (root, h) \<Rightarrow> read_opened E base root h (f, mm)) }))"

subsection \<open>The main program\<close>

record memory_map =
  map_size :: u64
  map_buffer :: addr
  map_key :: u64
  descriptor_size :: u64
  descriptor_version :: u32

record boot_info =
  bi_magic :: u64
  bi_memory_map :: memory_map
  bi_graph :: graph_info
  bi_initramfs :: addr
  bi_initramfs_size :: u64
  bi_madt :: addr

definition GetMemoryMap :: "'f firmware \<Rightarrow> memory_map \<Rightarrow> 'f \<times> mem \<Rightarrow> (u64 + memory_map) \<times> 'f \<times> mem" where
  "GetMemoryMap E mp = (\<lambda>(f, mm).
     (case AllocatePool E (map_size mp) f of
        (Inl e, f) \<Rightarrow> (Inl e, f, mm)
      | (Inr b, f) \<Rightarrow>
          let (st, (n, k, d, v), f, mm) = MemoryMap E (map_size mp) b (f, mm) in
          (case st of Some e \<Rightarrow> Inl e
             | None \<Rightarrow> Inr \<lparr>map_size = n, map_buffer = b, map_key = k, descriptor_size = d, descriptor_version = v\<rparr>, f, mm)))"

definition KERNEL_NAME :: "u8 list" where "KERNEL_NAME = ascii ''Kernel'' @ [92] @ ascii ''clfgkrnl.sys''"
definition INITRAMFS_NAME :: "u8 list" where "INITRAMFS_NAME = ascii ''Kernel'' @ [92] @ ascii ''initramfs.img''"

definition screen_of :: "'f firmware \<Rightarrow> 'f \<Rightarrow> addr \<Rightarrow> graph_info" where
  "screen_of E f base = \<lparr>frame_buffer_base = base, horizontal_resolution = HorizontalResolution (ModeInfo E f),
     vertical_resolution = VerticalResolution (ModeInfo E f), pixel_per_scanline = PixelsPerScanLine (ModeInfo E f)\<rparr>"

record boot_memory =
  boot_bytes :: mem
  boot_words :: pmem
  boot_frame :: frame

text \<open>The end of the program: the files are read, and the kernel is loaded and entered.\<close>

definition enter_kernel ::
  "'f firmware \<Rightarrow> memory_map \<Rightarrow> graph_info \<Rightarrow> addr \<Rightarrow> 'f \<times> boot_memory \<Rightarrow>
     (addr \<times> boot_info \<times> 'f \<times> boot_memory) option" where
  "enter_kernel E mp gi madt = (\<lambda>(f, mb). do {
     (r, f, mm) \<leftarrow> ReadFile E KERNEL_NAME 0 (f, boot_bytes mb);
     (kernel, _) \<leftarrow> (case r of Inl _ \<Rightarrow> None | Inr x \<Rightarrow> Some x);
     (r, f, mm) \<leftarrow> ReadFile E INITRAMFS_NAME 0 (f, mm);
     (ramfs, n) \<leftarrow> (case r of Inl _ \<Rightarrow> None | Inr x \<Rightarrow> Some x);
     r \<leftarrow> LoadSegment (services E f) kernel 0x100000 mm;
     (entr, mm) \<leftarrow> (case r of Inl _ \<Rightarrow> None | Inr x \<Rightarrow> Some x);
     let f = ExitBootServices E (map_key mp) f;
     Some (entr, \<lparr>bi_magic = 0x5a42cb1613d4a62f, bi_memory_map = mp, bi_graph = gi, bi_initramfs = ramfs,
       bi_initramfs_size = n, bi_madt = madt\<rparr>, f, mb\<lparr>boot_bytes := mm\<rparr>) })"

text \<open>The middle: the table of processors is copied, and the page tables are built.\<close>

definition copy_madt :: "'f firmware \<Rightarrow> addr \<Rightarrow> 'f \<times> boot_memory \<Rightarrow> addr \<times> 'f \<times> boot_memory" where
  "copy_madt E h = (\<lambda>(f, mb).
     let len = ucast (rd32 (boot_bytes mb) (h + 4));
         (r, f) = AllocatePool E len f;
         madt = (case r of Inl _ \<Rightarrow> 0 | Inr a \<Rightarrow> a)
     in (madt, f, mb\<lparr>boot_bytes := CopyMem (services E f) madt h len (boot_bytes mb)\<rparr>))"

text \<open>
  The arguments are the number and the place of the configuration tables. The result is an error status, or the
  entry that is jumped to with what the kernel finds in memory. A program that ends in an endless loop, or jumps to an
  entry that was never set, is \<open>None\<close>.
\<close>

definition UefiMain ::
  "'f firmware \<Rightarrow> (addr \<Rightarrow> u64 \<Rightarrow> u8 \<Rightarrow> pmem \<Rightarrow> pmem) \<Rightarrow> nat \<Rightarrow> addr \<Rightarrow> 'f \<times> boot_memory \<Rightarrow>
     (u64 + addr \<times> boot_info \<times> 'f \<times> boot_memory) option" where
  "UefiMain E set_mem tables ConfigTable = (\<lambda>(f, mb). do {
     let f = choose_mode E VideoModes f;
     let mb = mb\<lparr>boot_frame := DisplayLogo (screen_of E f (FrameBufferBase (FrameBuffer E f))) (boot_frame mb)\<rparr>;
     let f = AllocateAt E 0x410000 1 f;
     let gi = screen_of E f 0xffffffffc0000000;
     rsdp \<leftarrow> find_rsdp (boot_bytes mb) tables ConfigTable None;
     let xsdt = rd64 (boot_bytes mb) (rsdp + 24);
     (case find_madt (boot_bytes mb) xsdt of
        None \<Rightarrow> Some (Inl EFI_ERR)
      | Some h \<Rightarrow>
          let (madt, f, mb) = copy_madt E h (f, mb);
              f = AllocateAt E 0x510000 9 f;
              mb = mb\<lparr>boot_words := CreatePage set_mem (FrameBuffer E f) 0x510000 (boot_words mb)\<rparr>;
              mp = \<lparr>map_size = 4096 * 4, map_buffer = 0, map_key = 0, descriptor_size = 0, descriptor_version = 0\<rparr>;
              (r, f, mm) = GetMemoryMap E mp (f, boot_bytes mb)
          in (case r of
             Inl _ \<Rightarrow> Some (Inl EFI_ERR)
           | Inr mp \<Rightarrow> map_option Inr (enter_kernel E mp gi madt (f, mb\<lparr>boot_bytes := mm\<rparr>)))) })"

subsection \<open>The screen is set up\<close>

definition supported :: "'f firmware \<Rightarrow> 'f \<Rightarrow> u32 \<times> u32 \<Rightarrow> bool" where
  "supported E f = (\<lambda>(x, y). \<exists>i < unat (MaxMode E f).
     HorizontalResolution (QueryMode E f i) = x \<and> VerticalResolution (QueryMode E f i) = y)"

lemma SetVideoMode_supported:
  "fst (SetVideoMode E x y f) \<longleftrightarrow> supported E f (x, y)"
  "\<not> fst (SetVideoMode E x y f) \<Longrightarrow> snd (SetVideoMode E x y f) = f"
  by (auto simp: SetVideoMode_def supported_def find_None_iff find_Some_iff split: option.splits)

lemma SetVideoMode_sets:
  assumes "\<And>i f. i < unat (MaxMode E f) \<Longrightarrow> ModeInfo E (SetMode E i f) = QueryMode E f i" and "fst (SetVideoMode E x y f)"
  shows "HorizontalResolution (ModeInfo E (snd (SetVideoMode E x y f))) = x \<and>
    VerticalResolution (ModeInfo E (snd (SetVideoMode E x y f))) = y"
proof -
  let ?P = "\<lambda>i. x = HorizontalResolution (QueryMode E f i) \<and> y = VerticalResolution (QueryMode E f i)"
  obtain i where i: "find ?P [0..<unat (MaxMode E f)] = Some i"
    using assms(2) by (auto simp: SetVideoMode_def split: option.splits)
  then have "?P i" "i < unat (MaxMode E f)" by (auto simp: find_Some_iff)
  then show ?thesis using i assms(1) [of i f] by (simp add: SetVideoMode_def)
qed

text \<open>The first resolution of the table that the screen supports is set; without one the mode stays as it was. The
  firmware reports the mode that was set.\<close>

theorem video_mode_chosen:
  assumes "\<And>i f. i < unat (MaxMode E f) \<Longrightarrow> ModeInfo E (SetMode E i f) = QueryMode E f i"
  shows "case find (supported E f) ms of
      None \<Rightarrow> choose_mode E ms f = f
    | Some (x, y) \<Rightarrow> HorizontalResolution (ModeInfo E (choose_mode E ms f)) = x \<and>
        VerticalResolution (ModeInfo E (choose_mode E ms f)) = y"
proof (induction ms)
  case (Cons xy ms)
  obtain x y where xy: "xy = (x, y)" by (cases xy)
  obtain ok f' where r: "SetVideoMode E x y f = (ok, f')" by fastforce
  show ?case
    using Cons SetVideoMode_supported [of E x y f] SetVideoMode_sets [OF assms, of x y f]
    by (cases ok) (auto simp: xy r split: option.splits)
qed simp

lemma fill_block_outside:
  assumes "screen_ok gi" and "unat y1 \<le> unat (vertical_resolution gi)"
    and "a \<notin> {pixel gi i j |i j. unat x \<le> i \<and> i < unat x1 \<and> unat y \<le> j \<and> j < unat y1}"
  shows "fill_block gi col x y x1 y1 m a = m a"
  unfolding fill_block_def
proof (rule fold_unchanged)
  fix i :: nat and m' :: frame
  assume i: "i \<in> set [unat x..<unat x1]"
  show "fold (\<lambda>j m. m(pixel_at gi (word_of_nat j) (word_of_nat i) := col)) [unat y..<unat y1] m' a = m' a"
  proof (rule fold_unchanged)
    fix j :: nat and m'' :: frame
    assume j: "j \<in> set [unat y..<unat y1]"
    then have "pixel_at gi (word_of_nat j) (word_of_nat i) = pixel gi i j"
      using assms(2) by (intro pixel_at_pixel assms(1)) simp
    then show "(m''(pixel_at gi (word_of_nat j) (word_of_nat i) := col)) a = m'' a"
      using assms(3) i j by auto
  qed
qed

text \<open>The pixels of the logo with its border.\<close>

definition logo_pixels :: "graph_info \<Rightarrow> addr set" where
  "logo_pixels gi =
     (let bx = (unat (horizontal_resolution gi) - 400) div 2; bys = (unat (vertical_resolution gi) - 200) div 2 in
      {pixel gi i j |i j. bx - 5 \<le> i \<and> i < bx + 405 \<and> bys - 5 \<le> j \<and> j < bys + 205})"

lemma centre:
  fixes h :: u32
  assumes "n + 10 \<le> unat h" and "n < 1000"
  defines "b \<equiv> (h - word_of_nat n) div 2"
  shows "unat b = (unat h - n) div 2" and "unat (b - 5) = unat b - 5" and "5 \<le> unat b"
    and "k \<le> n + 5 \<Longrightarrow> unat (b + word_of_nat k) = unat b + k" and "unat b + n + 5 \<le> unat h"
proof -
  have n: "unat (word_of_nat n :: u32) = n" using assms(2) by (intro unat_of_nat_lt) simp
  have "unat (h - word_of_nat n) = unat h - n"
    using assms(1) n by (subst unat_sub_no_wrap) (simp_all add: word_le_nat_alt)
  then show b: "unat b = (unat h - n) div 2" by (simp add: b_def unat_div)
  show five: "5 \<le> unat b" using b assms(1) by simp
  show "unat (b - 5) = unat b - 5" using five by (subst unat_sub_no_wrap) (simp_all add: word_le_nat_alt)
  show top: "unat b + n + 5 \<le> unat h" using b assms(1) by linarith
  have "unat h < 2 ^ LENGTH(32)" by (rule unsigned_less)
  then have lim: "unat b + k < 2 ^ 32" if "k \<le> n + 5" using top that by simp
  show "unat (b + word_of_nat k) = unat b + k" if "k \<le> n + 5"
  proof -
    have k: "unat (word_of_nat k :: u32) = k" using that assms(2) by (intro unat_of_nat_lt) simp
    show ?thesis using lim [OF that] k by (subst unat_add_no_wrap) simp_all
  qed
qed

text \<open>On a screen of at least 410 by 210 pixels the logo is drawn in the middle and changes nothing else.\<close>

theorem logo_on_screen:
  assumes "screen_ok gi" and "410 \<le> unat (horizontal_resolution gi)" "210 \<le> unat (vertical_resolution gi)"
    and "a \<notin> logo_pixels gi"
  shows "DisplayLogo gi m a = m a"
proof -
  let ?h = "horizontal_resolution gi" and ?v = "vertical_resolution gi"
  define bx where "bx = (?h - 400) div 2"
  define bys where "bys = (?v - 200) div 2"
  have cx: "unat bx = (unat ?h - 400) div 2" "unat (bx - 5) = unat bx - 5" "unat bx + 405 \<le> unat ?h"
      "k \<le> 405 \<Longrightarrow> unat (bx + word_of_nat k) = unat bx + k" for k
    using centre [of 400 ?h] assms(2) by (simp_all add: bx_def)
  have cy: "unat bys = (unat ?v - 200) div 2" "unat (bys - 5) = unat bys - 5" "unat bys + 205 \<le> unat ?v"
      "k \<le> 205 \<Longrightarrow> unat (bys + word_of_nat k) = unat bys + k" for k
    using centre [of 200 ?v] assms(3) by (simp_all add: bys_def)
  have x: "unat (bx + k) = unat bx + unat k" if "k \<le> 405" for k
    using cx(4) [of "unat k"] that by (simp add: word_le_nat_alt)
  have y: "unat (bys + k) = unat bys + unat k" if "k \<le> 205" for k
    using cy(4) [of "unat k"] that by (simp add: word_le_nat_alt)
  have out: "a \<notin> {pixel gi i j |i j. l \<le> i \<and> i < r \<and> u \<le> j \<and> j < d}"
    if "unat bx - 5 \<le> l" "r \<le> unat bx + 405" "unat bys - 5 \<le> u" "d \<le> unat bys + 205" for l r u d
    using assms(4) that unfolding logo_pixels_def Let_def cx(1) [symmetric] cy(1) [symmetric] by fastforce
  have keep: "fill_block gi col x0 y0 x1 y1 m' a = m' a"
    if "unat bx - 5 \<le> unat x0" "unat x1 \<le> unat bx + 405" "unat bys - 5 \<le> unat y0" "unat y1 \<le> unat bys + 205" for col x0 y0 x1 y1 m'
    using that cy(3) by (intro fill_block_outside assms(1) out) simp_all
  show ?thesis
    unfolding DisplayLogo_def CleanBlock_def DisplayBlock_def Let_def bx_def [symmetric] bys_def [symmetric]
    by (simp add: keep x y cx(2) cy(2))
qed

subsection \<open>The tables are found\<close>

definition acpi2_entry :: "mem \<Rightarrow> addr \<Rightarrow> bool" where
  "acpi2_entry mm e \<longleftrightarrow> CompareGuid (guid_at mm e) gEfiAcpiTableGuid \<and> mm (rd64 mm (e + 16) + 15) = 2"

text \<open>The search ends at the first ACPI table of revision 2.\<close>

theorem find_rsdp_first:
  assumes "i < n" and "acpi2_entry mm (ct + 24 * word_of_nat i)" and "\<And>j. j < i \<Longrightarrow> \<not> acpi2_entry mm (ct + 24 * word_of_nat j)"
  shows "find_rsdp mm n ct r = Some (rd64 mm (ct + 24 * word_of_nat i + 16))"
  using assms
proof (induction n arbitrary: i ct r)
  case (Suc n)
  show ?case
  proof (cases i)
    case 0
    then show ?thesis using Suc.prems(2) by (simp add: acpi2_entry_def Let_def)
  next
    case (Suc k)
    have "find_rsdp mm n (ct + 24) r' = Some (rd64 mm (ct + 24 + 24 * word_of_nat k + 16))" for r'
      using Suc.prems(1,2) Suc.prems(3) [of "Suc _"] Suc by (intro Suc.IH) (simp_all add: algebra_simps)
    moreover have "\<not> acpi2_entry mm ct" using Suc.prems(3) [of 0] Suc by simp
    ultimately show ?thesis using Suc by (auto simp: acpi2_entry_def Let_def algebra_simps)
  qed
qed simp

subsection \<open>The kernel is entered\<close>

lemma enter_kernel_info:
  assumes "enter_kernel E mp gi madt (f, mb) = Some (entr, bi, f', mb')"
  shows "boot_words mb' = boot_words mb \<and> boot_frame mb' = boot_frame mb \<and> bi_magic bi = 0x5a42cb1613d4a62f \<and> bi_graph bi = gi"
  using assms by (auto simp: enter_kernel_def elim!: bind_eq_SomeE split: sum.splits prod.splits)

lemma copy_madt_keeps:
  assumes "\<And>n f. FrameBuffer E (snd (AllocatePool E n f)) = FrameBuffer E f" and "copy_madt E h (f, mb) = (madt, f', mb')"
  shows "FrameBuffer E f' = FrameBuffer E f \<and> boot_words mb' = boot_words mb \<and> boot_frame mb' = boot_frame mb"
  using assms(2) assms(1) [of "ucast (rd32 (boot_bytes mb) (h + 4))" f]
  by (auto simp: copy_madt_def Let_def split: prod.splits)

text \<open>Allocations do not change the mode and do not move the frame buffer.\<close>

definition stable_screen :: "'f firmware \<Rightarrow> bool" where
  "stable_screen E \<longleftrightarrow> (\<forall>n f. FrameBuffer E (snd (AllocatePool E n f)) = FrameBuffer E f) \<and>
     (\<forall>a n f. FrameBuffer E (AllocateAt E a n f) = FrameBuffer E f \<and> ModeInfo E (AllocateAt E a n f) = ModeInfo E f)"

lemma UefiMain_enters:
  assumes "UefiMain E set_mem n ct (f, mb) = Some (Inr (entr, bi, f', mb'))" and "stable_screen E"
  defines "f0 \<equiv> choose_mode E VideoModes f"
  shows "boot_words mb' = CreatePage set_mem (FrameBuffer E f0) 0x510000 (boot_words mb) \<and> bi_magic bi = 0x5a42cb1613d4a62f \<and>
    bi_graph bi = screen_of E f0 0xffffffffc0000000 \<and>
    boot_frame mb' = DisplayLogo (screen_of E f0 (FrameBufferBase (FrameBuffer E f0))) (boot_frame mb)"
proof -
  let ?mb = "mb\<lparr>boot_frame := DisplayLogo (screen_of E f0 (FrameBufferBase (FrameBuffer E f0))) (boot_frame mb)\<rparr>"
  obtain rsdp h where h: "find_rsdp (boot_bytes mb) n ct None = Some rsdp"
    "find_madt (boot_bytes mb) (rd64 (boot_bytes mb) (rsdp + 24)) = Some h"
    using assms(1) by (auto simp: UefiMain_def Let_def elim!: bind_eq_SomeE split: option.splits)
  obtain madt f1 mb1 where c: "copy_madt E h (AllocateAt E 0x410000 1 f0, ?mb) = (madt, f1, mb1)" by (metis surj_pair)
  let ?f2 = "AllocateAt E 0x510000 9 f1"
  let ?mp = "\<lparr>map_size = 4096 * 4, map_buffer = 0, map_key = 0, descriptor_size = 0, descriptor_version = 0\<rparr>"
  obtain r f3 mm where g: "GetMemoryMap E ?mp (?f2, boot_bytes mb1) = (r, f3, mm)" by (metis surj_pair)
  have k: "FrameBuffer E f1 = FrameBuffer E f0" "boot_words mb1 = boot_words mb" "boot_frame mb1 = boot_frame ?mb"
    using copy_madt_keeps [OF _ c] assms(2) by (simp_all add: stable_screen_def)
  have sg: "screen_of E (AllocateAt E a l f) b = screen_of E f b" for a l f b
    using assms(2) by (simp add: stable_screen_def screen_of_def)
  have k2: "FrameBuffer E (AllocateAt E a l f) = FrameBuffer E f" for a l f
    using assms(2) by (simp add: stable_screen_def)
  have "\<exists>mp. enter_kernel E mp (screen_of E f0 0xffffffffc0000000) madt
      (f3, mb1\<lparr>boot_words := CreatePage set_mem (FrameBuffer E f0) 0x510000 (boot_words mb), boot_bytes := mm\<rparr>) =
      Some (entr, bi, f', mb')"
    using assms(1) k unfolding UefiMain_def Let_def
    by (auto simp: h c g [simplified] sg k2 simp flip: f0_def split: sum.splits)
  then show ?thesis using enter_kernel_info k(3) by fastforce
qed


subsection \<open>An example\<close>

text \<open>The configuration table, the root pointer, the table of tables and a table of processors, from 0x2000 on.\<close>

definition example_acpi :: "u8 list" where
  "example_acpi =
     le_bytes 4 0x8868e871 @ le_bytes 2 0xe4f1 @ le_bytes 2 0x11d3 @ [0xbc, 0x22, 0x0, 0x80, 0xc7, 0x3c, 0x88, 0x81] @
     le_bytes 8 0x2018 @
     replicate 15 0 @ [2] @ replicate 8 0 @ le_bytes 8 0x203c @ replicate 4 0 @
     le_bytes 4 0 @ le_bytes 4 44 @ replicate 28 0 @ le_bytes 8 0x2068 @
     le_bytes 4 0x43495041 @ le_bytes 4 44 @ replicate 36 0"

definition example_acpi_mem :: mem where "example_acpi_mem = load example_acpi 0x2000 (\<lambda>_. 0)"

definition example_gop :: gop_mode where "example_gop = \<lparr>FrameBufferBase = 0xe0000000, FrameBufferSize = 0x300000\<rparr>"

definition example_firmware :: "unit firmware" where
  "example_firmware = \<lparr>
     MaxMode = \<lambda>_. 2,
     QueryMode = (\<lambda>_ i. if i = 0 then \<lparr>HorizontalResolution = 640, VerticalResolution = 480, PixelsPerScanLine = 640\<rparr>
       else \<lparr>HorizontalResolution = 800, VerticalResolution = 600, PixelsPerScanLine = 832\<rparr>),
     SetMode = \<lambda>_ f. f,
     ModeInfo = \<lambda>_. \<lparr>HorizontalResolution = 800, VerticalResolution = 600, PixelsPerScanLine = 832\<rparr>,
     FrameBuffer = \<lambda>_. example_gop,
     LocateHandleBuffer = \<lambda>f. (Inr [1], f),
     OpenProtocol = \<lambda>_ f. (Inr 2, f), OpenVolume = \<lambda>_ f. (Inr 3, f), FileOpen = \<lambda>_ _ f. (Inr 4, f),
     FileGetSize = \<lambda>_ f. (Inr 124, f),
     FileRead = \<lambda>_ _ b (f, mm). (None, f, load example_kernel b mm),
     FileClose = \<lambda>_ f. f,
     AllocatePool = \<lambda>_ f. (Inr 0x9000, f), FreePool = \<lambda>_ f. f,
     AllocatePages = \<lambda>_ f. (Inr 0x1000, f), AllocateAt = \<lambda>_ _ f. f,
     MemoryMap = \<lambda>_ _ (f, mm). (None, (0, 0, 0, 0), f, mm),
     ExitBootServices = \<lambda>_ f. f,
     services = \<lambda>_. example_services\<rparr>"

lemma example_acpi_parts:
  "guid_at example_acpi_mem 0x2000 = gEfiAcpiTableGuid" "rd64 example_acpi_mem 0x2010 = 0x2018"
  "example_acpi_mem 0x2027 = 2" "rd64 example_acpi_mem 0x2030 = 0x203c" "rd32 example_acpi_mem 0x2040 = 44"
  "rd64 example_acpi_mem 0x2060 = 0x2068" "rd32 example_acpi_mem 0x2068 = 0x43495041"
proof -
  have "stored example_acpi_mem 0x2000 example_acpi"
    unfolding example_acpi_mem_def by (rule load_stored) (simp add: example_acpi_def)
  note st = this [unfolded example_acpi_def stored_append stored_Cons stored_Nil, simplified]
  show "guid_at example_acpi_mem 0x2000 = gEfiAcpiTableGuid"
    using st stored_le_32 [of example_acpi_mem "0x2000" "0x8868e871"] stored_le_16 [of example_acpi_mem "0x2004" "0xe4f1"]
      stored_le_16 [of example_acpi_mem "0x2006" "0x11d3"]
    by (simp add: guid_at_def gEfiAcpiTableGuid_def)
  show "rd64 example_acpi_mem 0x2010 = 0x2018" using st stored_le [of example_acpi_mem "0x2010" "0x2018"] by simp
  show "example_acpi_mem 0x2027 = 2" using st by simp
  show "rd64 example_acpi_mem 0x2030 = 0x203c" using st stored_le [of example_acpi_mem "0x2030" "0x203c"] by simp
  show "rd32 example_acpi_mem 0x2040 = 44" using st stored_le_32 [of example_acpi_mem "0x2040" 44] by simp
  show "rd64 example_acpi_mem 0x2060 = 0x2068" using st stored_le [of example_acpi_mem "0x2060" "0x2068"] by simp
  show "rd32 example_acpi_mem 0x2068 = 0x43495041" using st stored_le_32 [of example_acpi_mem "0x2068" "0x43495041"] by simp
qed

lemma example_madt: "find_rsdp example_acpi_mem 1 0x2000 None = Some 0x2018" "find_madt example_acpi_mem 0x203c = Some 0x2068"
  by (simp_all add: example_acpi_parts CompareGuid_def find_madt_def Let_def MADT_SIGNATURE_def)

lemma example_kernel_loads:
  assumes "stored mm 0x1000 example_kernel"
  shows "\<exists>x. LoadSegment example_services 0x1000 0x100000 mm = Some (Inr x)"
proof -
  note st = assms [unfolded example_kernel_def stored_append stored_Cons stored_Nil, simplified]
  show ?thesis
    using st stored_le_32 [of mm "0x1014" 1] stored_le_16 [of mm "0x1010" 2]
    by (auto simp: LoadSegment_def e_version_def e_type_def EV_CURRENT_def ET_EXEC_def Let_def example_services_def
        split: prod.splits)
qed

lemma example_enters:
  "\<exists>entr bi mb'. UefiMain example_firmware set_mem 1 0x2000 ((), \<lparr>boot_bytes = example_acpi_mem, boot_words = \<lambda>_. 7, boot_frame = fr\<rparr>) =
     Some (Inr (entr, bi, (), mb'))"
proof -
  have read: "ReadFile example_firmware nm 0 ((), mm) =
      Some (Inr (0x1000, 124), (), load example_kernel 0x1000 (SetMem example_services 0x1000 0x1000 0 mm))" for nm mm
    by (simp add: ReadFile_def read_opened_def example_firmware_def Let_def)
  have load: "\<exists>x. LoadSegment example_services 0x1000 0x100000 (load example_kernel 0x1000 mm) = Some (Inr x)" for mm
    by (intro example_kernel_loads load_stored) (simp add: example_kernel_def)
  have sv: "services example_firmware f = example_services" for f by (simp add: example_firmware_def)
  have enter: "\<exists>entr bi mb'. enter_kernel example_firmware mp gi madt ((), mb) = Some (entr, bi, (), mb')" for mp gi madt mb
  proof -
    obtain entr mm' where "LoadSegment example_services 0x1000 0x100000 (load example_kernel 0x1000
        (SetMem example_services 0x1000 0x1000 0 (load example_kernel 0x1000
          (SetMem example_services 0x1000 0x1000 0 (boot_bytes mb))))) = Some (Inr (entr, mm'))"
      using load by (metis surj_pair)
    then show ?thesis by (simp add: enter_kernel_def read sv)
  qed
  have "MemoryMap example_firmware n b (f, mm) = (None, (0, 0, 0, 0), f, mm)" "AllocatePool example_firmware n f = (Inr 0x9000, f)"
    for n b f mm by (simp_all add: example_firmware_def)
  then show ?thesis
    using enter
    by (simp add: UefiMain_def Let_def example_madt [simplified] example_acpi_parts copy_madt_def GetMemoryMap_def CompareGuid_def)
qed


end
