(* ===== verification/Descriptors.thy ===== *)
theory Descriptors
  imports Hardware
begin

text \<open>
  The tables that the processor reads: segment descriptors and the task state segments
  (\<^verbatim>\<open>src/arch/x86_64/init.c\<close>, \<^verbatim>\<open>task/tss.c\<close>), gate descriptors
  (\<^verbatim>\<open>intr/intr.c\<close>), and the registers of the \<^verbatim>\<open>syscall\<close> instruction
  (\<^verbatim>\<open>syscall/syscall.c\<close>). The addresses of tables and of assembly code are fixed by the linker
  and are arguments. What the processor finds in a descriptor is stated by functions of its fields.
\<close>

subsection \<open>Segments\<close>

definition AR_G_4K :: u16 where "AR_G_4K = 0x8000"
definition AR_D_64 :: u16 where "AR_D_64 = 0x0000"
definition AR_L :: u16 where "AR_L = 0x0000"
definition AR_L_64 :: u16 where "AR_L_64 = 0x2000"
definition AR_AVL :: u16 where "AR_AVL = 0x0000"
definition AR_P :: u16 where "AR_P = 0x0080"
definition AR_DPL_0 :: u16 where "AR_DPL_0 = 0x0000"
definition AR_DPL_3 :: u16 where "AR_DPL_3 = 0x0060"
definition AR_S_CODE :: u16 where "AR_S_CODE = 0x0010"
definition AR_S_SYS :: u16 where "AR_S_SYS = 0x0000"
definition AR_TYPE_CODE :: u16 where "AR_TYPE_CODE = 0x0008"
definition AR_TYPE_DATA :: u16 where "AR_TYPE_DATA = 0x0002"
definition AR_TYPE_TSS :: u16 where "AR_TYPE_TSS = 0x0009"
definition TSS_D_0 :: u16 where "TSS_D_0 = 0"
definition AR_CODE64 :: u16 where
  "AR_CODE64 = AR_G_4K OR AR_D_64 OR AR_L_64 OR AR_AVL OR AR_P OR AR_DPL_0 OR AR_S_CODE OR AR_TYPE_CODE"
definition AR_CODE64_DPL3 :: u16 where
  "AR_CODE64_DPL3 = AR_G_4K OR AR_D_64 OR AR_L_64 OR AR_AVL OR AR_P OR AR_DPL_3 OR AR_S_CODE OR AR_TYPE_CODE"
definition AR_DATA64 :: u16 where
  "AR_DATA64 = AR_G_4K OR AR_D_64 OR AR_L_64 OR AR_AVL OR AR_P OR AR_DPL_0 OR AR_S_CODE OR AR_TYPE_DATA"
definition AR_DATA64_DPL3 :: u16 where
  "AR_DATA64_DPL3 = AR_G_4K OR AR_D_64 OR AR_L_64 OR AR_AVL OR AR_P OR AR_DPL_3 OR AR_S_CODE OR AR_TYPE_DATA"
definition AR_TSS64 :: u16 where
  "AR_TSS64 = AR_G_4K OR TSS_D_0 OR AR_L OR AR_AVL OR AR_P OR AR_DPL_0 OR AR_S_SYS OR AR_TYPE_TSS"

definition SELECTOR_CODE64_K :: u16 where "SELECTOR_CODE64_K = push_bit 3 1"
definition SELECTOR_DATA64_K :: u16 where "SELECTOR_DATA64_K = push_bit 3 2"
definition SELECTOR_DATA64_U :: u16 where "SELECTOR_DATA64_U = push_bit 3 3 OR 3"
definition SELECTOR_CODE64_U :: u16 where "SELECTOR_CODE64_U = push_bit 3 4 OR 3"

definition SELECTOR_TSS :: "u8 \<Rightarrow> u16" where
  "SELECTOR_TSS cpu = push_bit 3 (5 + ucast cpu * 2)"

record segmdesc =
  limit_low :: u16
  base_low :: u16
  base_mid :: u8
  access_right :: u8
  limit_high :: u8
  base_high :: u8

definition make_segmdesc :: "u32 \<Rightarrow> u32 \<Rightarrow> u16 \<Rightarrow> segmdesc" where
  "make_segmdesc base limit access =
     \<lparr>limit_low = ucast (limit AND 0x0000ffff), base_low = ucast (base AND 0x0000ffff),
      base_mid = ucast (drop_bit 16 (base AND 0x00ff0000)), access_right = ucast (access AND 0x00ff),
      limit_high = ucast ((drop_bit 16 limit AND 0x0f) OR (ucast (drop_bit 8 access) AND 0x00f0)),
      base_high = ucast (drop_bit 24 base AND 0x00ff)\<rparr>"

text \<open>What the processor reads from a descriptor.\<close>

definition seg_base :: "segmdesc \<Rightarrow> u32" where
  "seg_base d = ucast (base_low d) OR push_bit 16 (ucast (base_mid d)) OR push_bit 24 (ucast (base_high d))"

definition seg_limit :: "segmdesc \<Rightarrow> u32" where
  "seg_limit d = ucast (limit_low d) OR push_bit 16 (ucast (limit_high d AND 0x0f))"

definition seg_access :: "segmdesc \<Rightarrow> u16" where
  "seg_access d = ucast (access_right d) OR push_bit 8 (ucast (limit_high d AND 0xf0))"

text \<open>The last byte of the segment: with the bit \<^verbatim>\<open>G\<close> the limit counts pages.\<close>

definition seg_last :: "segmdesc \<Rightarrow> u32" where
  "seg_last d = (if bit (seg_access d) 15 then push_bit 12 (seg_limit d) OR 0xfff else seg_limit d)"

lemma seg_round:
  "seg_base (make_segmdesc base limit access) = base"
  "seg_limit (make_segmdesc base limit access) = limit AND 0xfffff"
  "seg_access (make_segmdesc base limit access) = access AND 0xf0ff"
proof -
  have m: "0xffff = (mask 16 :: u32)" "0x0f = (mask 4 :: u32)" "0xff = (mask 8 :: u32)" "0xfffff = (mask 20 :: u32)"
    "0xff0000 = (push_bit 16 (mask 8) :: u32)" "0xf0 = (push_bit 4 (mask 4) :: u32)" "0x0f = (mask 4 :: u8)"
    "0xf0 = (push_bit 4 (mask 4) :: u8)" "0xff = (mask 8 :: u16)" "0xf0ff = (mask 8 OR push_bit 12 (mask 4) :: u16)"
    by (simp_all add: mask_eq_exp_minus_1)
  show "seg_base (make_segmdesc base limit access) = base"
  proof (rule bit_word_eqI)
    show "bit (seg_base (make_segmdesc base limit access)) n = bit base n" if "n < LENGTH(32)" for n
      unfolding seg_base_def make_segmdesc_def segmdesc.simps m using that
      by (cases "24 \<le> n") (auto simp: bit_simps)
  qed
  show "seg_limit (make_segmdesc base limit access) = limit AND 0xfffff"
    unfolding seg_limit_def make_segmdesc_def segmdesc.simps m
    by (intro bit_word_eqI) (auto simp: bit_simps)
  show "seg_access (make_segmdesc base limit access) = access AND 0xf0ff"
    unfolding seg_access_def make_segmdesc_def segmdesc.simps m
    by (intro bit_word_eqI) (auto simp: bit_simps)
qed

subsection \<open>Task state segments\<close>

record tss64 =
  rsp0 :: u64
  rsp1 :: u64
  rsp2 :: u64
  ist1 :: u64
  ist2 :: u64
  ist3 :: u64
  ist4 :: u64
  ist5 :: u64
  ist6 :: u64
  ist7 :: u64
  io_map :: u32

definition zero_tss :: tss64 where
  "zero_tss = \<lparr>rsp0 = 0, rsp1 = 0, rsp2 = 0, ist1 = 0, ist2 = 0, ist3 = 0, ist4 = 0, ist5 = 0, ist6 = 0, ist7 = 0, io_map = 0\<rparr>"

definition sizeof_tss64 :: u32 where "sizeof_tss64 = 104"

text \<open>Eight bytes seen as a descriptor.\<close>

definition segm_of_word :: "u64 \<Rightarrow> segmdesc" where
  "segm_of_word x = \<lparr>limit_low = ucast x, base_low = ucast (drop_bit 16 x), base_mid = ucast (drop_bit 32 x),
     access_right = ucast (drop_bit 40 x), limit_high = ucast (drop_bit 48 x), base_high = ucast (drop_bit 56 x)\<rparr>"

definition word_of_segm :: "segmdesc \<Rightarrow> u64" where
  "word_of_segm d = ucast (limit_low d) OR push_bit 16 (ucast (base_low d)) OR push_bit 32 (ucast (base_mid d)) OR
     push_bit 40 (ucast (access_right d)) OR push_bit 48 (ucast (limit_high d)) OR push_bit 56 (ucast (base_high d))"

text \<open>
  The tables in memory: \<^verbatim>\<open>gdt_table\<close> with 8192 entries, the segments \<^verbatim>\<open>tss\<close> of the processors. \<open>gdt_base\<close> and
  \<open>tss_base\<close> are their addresses; \<open>gdtr\<close> are the two words that the last processor has loaded from, and \<open>tr\<close> its
  task register.
\<close>

record desc_tables =
  gdt_table :: "segmdesc list"
  tss :: "u8 \<Rightarrow> tss64"
  gdt_base :: addr
  tss_base :: addr
  gdtr :: "u64 \<times> u64"
  tr :: u16

definition tss_addr :: "desc_tables \<Rightarrow> u8 \<Rightarrow> addr" where
  "tss_addr t cpu = tss_base t + ucast cpu * ucast sizeof_tss64"

definition set_gdt :: "nat \<Rightarrow> segmdesc \<Rightarrow> desc_tables \<Rightarrow> desc_tables" where
  "set_gdt i d t = t\<lparr>gdt_table := (gdt_table t)[i := d]\<rparr>"

definition init_tss :: "u8 \<Rightarrow> desc_tables \<Rightarrow> desc_tables" where
  "init_tss cpu_id t =
     (let tss_size = sizeof_tss64;
          t = t\<lparr>tss := (tss t)(cpu_id := zero_tss\<lparr>io_map := push_bit 16 tss_size\<rparr>)\<rparr>;
          tss_base_l = tss_addr t cpu_id AND 0xffffffff;
          tss_base_h = drop_bit 32 (tss_addr t cpu_id) AND 0xffffffff;
          gdt_entry = 5 + unat cpu_id * 2
      in set_gdt (gdt_entry + 1) (segm_of_word tss_base_h)
           (set_gdt gdt_entry (make_segmdesc (ucast tss_base_l) (tss_size - 1) AR_TSS64) t))"

text \<open>Stack for entries from user mode, of the processor \<open>cpu\<close> that runs the caller.\<close>

definition update_tss_rsp0 :: "u8 \<Rightarrow> addr \<Rightarrow> desc_tables \<Rightarrow> desc_tables" where
  "update_tss_rsp0 cpu kstack_top t = t\<lparr>tss := (tss t)(cpu := (tss t cpu)\<lparr>rsp0 := kstack_top\<rparr>)\<rparr>"

definition table_pointer :: "addr \<Rightarrow> u64 \<Rightarrow> u64 \<times> u64" where
  "table_pointer base sz = (push_bit 16 base OR (sz - 1), drop_bit 48 base AND 0xffff)"

definition load_gdt :: "desc_tables \<Rightarrow> desc_tables" where
  "load_gdt t = t\<lparr>gdtr := table_pointer (gdt_base t) (8192 * 8)\<rparr>"

definition load_tss :: "u8 \<Rightarrow> desc_tables \<Rightarrow> desc_tables" where
  "load_tss cpu_id t = t\<lparr>tr := SELECTOR_TSS cpu_id\<rparr>"

definition init_desc :: "desc_tables \<Rightarrow> desc_tables" where
  "init_desc t =
     (let t = set_gdt 0 (make_segmdesc 0 0 0) t;
          t = set_gdt 1 (make_segmdesc 0 0 AR_CODE64) t;
          t = set_gdt 2 (make_segmdesc 0 0 AR_DATA64) t;
          t = set_gdt 3 (make_segmdesc 0 0 AR_DATA64_DPL3) t;
          t = set_gdt 4 (make_segmdesc 0 0 AR_CODE64_DPL3) t
      in load_tss 0 (load_gdt (init_tss 0 t)))"

text \<open>The descriptor part of \<^verbatim>\<open>ap_init_all\<close>.\<close>

definition ap_init_desc :: "u8 \<Rightarrow> desc_tables \<Rightarrow> desc_tables" where
  "ap_init_desc cpu_id t = load_tss cpu_id (load_gdt (init_tss cpu_id t))"

text \<open>What the processor makes of the two words of a table pointer, of a system descriptor of 16 bytes, and
  of the privilege level in an access byte.\<close>

definition pointer_base :: "u64 \<times> u64 \<Rightarrow> addr" where
  "pointer_base p = drop_bit 16 (fst p) OR push_bit 48 (snd p)"

definition pointer_limit :: "u64 \<times> u64 \<Rightarrow> u16" where
  "pointer_limit p = ucast (fst p)"

definition system_base :: "segmdesc \<Rightarrow> segmdesc \<Rightarrow> addr" where
  "system_base d e = ucast (seg_base d) OR push_bit 32 (word_of_segm e AND 0xffffffff)"

definition seg_dpl :: "segmdesc \<Rightarrow> u8" where
  "seg_dpl d = drop_bit 5 (access_right d) AND 3"

lemma table_pointer_round:
  assumes "0 < sz" "sz \<le> 0x10000"
  shows "pointer_base (table_pointer base sz) = base" "pointer_limit (table_pointer base sz) = ucast (sz - 1)"
proof -
  have m: "0xffff = (mask 16 :: u64)" by (simp add: mask_eq_exp_minus_1)
  have "sz - 1 < 2 ^ 16" using assms by (simp add: word_less_nat_alt word_le_nat_alt unat_sub_if')
  then have "take_bit 16 (sz - 1) = sz - 1" by (simp add: word_unat_eq_iff unsigned_take_bit_eq take_bit_nat_eq_self word_less_nat_alt)
  then have b: "bit (sz - 1) n \<Longrightarrow> n < 16" for n by (metis bit_take_bit_iff)
  show "pointer_base (table_pointer base sz) = base"
  proof (rule bit_word_eqI)
    fix n assume n: "n < LENGTH(64)"
    have hi: "\<not> bit (sz - 1) (16 + n)" using b [of "16 + n"] by auto
    show "bit (pointer_base (table_pointer base sz)) n = bit base n"
      unfolding pointer_base_def table_pointer_def fst_conv snd_conv m using n hi
      by (cases "48 \<le> n") (simp_all add: bit_simps, auto)
  qed
  show "pointer_limit (table_pointer base sz) = ucast (sz - 1)"
    unfolding pointer_limit_def table_pointer_def fst_conv
    by (intro bit_word_eqI) (simp add: bit_simps)
qed

lemma word_segm_round: "word_of_segm (segm_of_word x) = x"
proof (rule bit_word_eqI)
  fix n assume n: "n < LENGTH(64)"
  consider "n < 16" | "16 \<le> n" "n < 32" | "32 \<le> n" "n < 40" | "40 \<le> n" "n < 48" | "48 \<le> n" "n < 56" | "56 \<le> n" by linarith
  then show "bit (word_of_segm (segm_of_word x)) n = bit x n"
    unfolding word_of_segm_def segm_of_word_def segmdesc.simps using n by cases (simp_all add: bit_simps, auto)
qed

definition selected :: "desc_tables \<Rightarrow> u16 \<Rightarrow> segmdesc" where
  "selected t sel = gdt_table t ! (unat sel div 8)"

definition tss_descriptor :: "desc_tables \<Rightarrow> u8 \<Rightarrow> segmdesc \<times> segmdesc" where
  "tss_descriptor t cpu = (let i = unat (SELECTOR_TSS cpu) div 8 in (gdt_table t ! i, gdt_table t ! Suc i))"

lemma selector_tss_index: "unat (SELECTOR_TSS cpu) div 8 = 5 + 2 * unat cpu"
proof -
  have c: "unat cpu < 256" using unsigned_less [of cpu] by simp
  have "unat (ucast cpu :: u16) = unat cpu" using c by (simp add: unsigned_ucast_eq take_bit_nat_eq_self)
  then have "unat (SELECTOR_TSS cpu) = (5 + 2 * unat cpu) * 8"
    using c by (simp add: SELECTOR_TSS_def push_bit_eq_mult unat_word_ariths)
  then show ?thesis by simp
qed

lemma init_tss_gdt:
  assumes "length (gdt_table t) = 8192"
  shows "length (gdt_table (init_tss cpu t)) = 8192"
    and "i < 5 \<Longrightarrow> gdt_table (init_tss cpu t) ! i = gdt_table t ! i"
    and "tss_descriptor (init_tss cpu t) c = (if c = cpu
      then (make_segmdesc (ucast (tss_addr t cpu AND 0xffffffff)) (sizeof_tss64 - 1) AR_TSS64,
            segm_of_word (drop_bit 32 (tss_addr t cpu) AND 0xffffffff))
      else tss_descriptor t c)"
    and "tss (init_tss cpu t) c = (if c = cpu then zero_tss\<lparr>io_map := push_bit 16 sizeof_tss64\<rparr> else tss t c)"
proof -
  have lt: "unat cpu < 256" "unat c < 256" using unsigned_less [of cpu] unsigned_less [of c] by simp_all
  show "length (gdt_table (init_tss cpu t)) = 8192" using assms by (simp add: init_tss_def set_gdt_def Let_def)
  show "i < 5 \<Longrightarrow> gdt_table (init_tss cpu t) ! i = gdt_table t ! i"
    by (simp add: init_tss_def set_gdt_def Let_def)
  show "tss (init_tss cpu t) c = (if c = cpu then zero_tss\<lparr>io_map := push_bit 16 sizeof_tss64\<rparr> else tss t c)"
    by (simp add: init_tss_def set_gdt_def Let_def)
  have ne: "c \<noteq> cpu \<Longrightarrow> unat c \<noteq> unat cpu" by (simp add: word_unat_eq_iff)
  have odd: "5 + 2 * unat c \<noteq> 6 + 2 * unat cpu" "6 + 2 * unat c \<noteq> 5 + 2 * unat cpu" by presburger+
  show "tss_descriptor (init_tss cpu t) c = (if c = cpu
      then (make_segmdesc (ucast (tss_addr t cpu AND 0xffffffff)) (sizeof_tss64 - 1) AR_TSS64,
            segm_of_word (drop_bit 32 (tss_addr t cpu) AND 0xffffffff))
      else tss_descriptor t c)"
    using assms lt ne odd unfolding tss_descriptor_def selector_tss_index Let_def init_tss_def set_gdt_def
    by (cases "c = cpu") (simp_all add: tss_addr_def nth_list_update mult.commute)
qed

lemma system_base_round:
  "system_base (make_segmdesc (ucast (a AND 0xffffffff)) l x) (segm_of_word (drop_bit 32 a AND 0xffffffff)) = a"
proof -
  have m: "0xffffffff = (mask 32 :: u64)" by (simp add: mask_eq_exp_minus_1)
  show ?thesis
  proof (rule bit_word_eqI)
    fix n assume n: "n < LENGTH(64)"
    show "bit (system_base (make_segmdesc (ucast (a AND 0xffffffff)) l x) (segm_of_word (drop_bit 32 a AND 0xffffffff))) n = bit a n"
      unfolding system_base_def seg_round word_segm_round m using n by (cases "32 \<le> n") (simp_all add: bit_simps, auto)
  qed
qed

definition tables_ok :: "u8 set \<Rightarrow> desc_tables \<Rightarrow> bool" where
  "tables_ok cpus t \<longleftrightarrow> length (gdt_table t) = 8192 \<and> selected t 0 = make_segmdesc 0 0 0 \<and>
     selected t SELECTOR_CODE64_K = make_segmdesc 0 0 AR_CODE64 \<and> selected t SELECTOR_DATA64_K = make_segmdesc 0 0 AR_DATA64 \<and>
     selected t SELECTOR_CODE64_U = make_segmdesc 0 0 AR_CODE64_DPL3 \<and> selected t SELECTOR_DATA64_U = make_segmdesc 0 0 AR_DATA64_DPL3 \<and>
     (\<forall>c \<in> cpus. system_base (fst (tss_descriptor t c)) (snd (tss_descriptor t c)) = tss_addr t c \<and>
        seg_access (fst (tss_descriptor t c)) = AR_TSS64 \<and> tss t c = zero_tss\<lparr>io_map := push_bit 16 sizeof_tss64\<rparr>)"

lemma selector_indices:
  "unat SELECTOR_CODE64_K div 8 = 1" "unat SELECTOR_DATA64_K div 8 = 2" "unat SELECTOR_DATA64_U div 8 = 3"
  "unat SELECTOR_CODE64_U div 8 = 4"
  by (simp_all add: SELECTOR_CODE64_K_def SELECTOR_DATA64_K_def SELECTOR_DATA64_U_def SELECTOR_CODE64_U_def push_bit_eq_mult)

lemma tables_ok_init_tss: "tables_ok cpus t \<Longrightarrow> tables_ok (insert cpu cpus) (init_tss cpu t)"
proof -
  assume ok: "tables_ok cpus t"
  then have l: "length (gdt_table t) = 8192" by (simp add: tables_ok_def)
  note I = init_tss_gdt [OF l, where cpu = cpu]
  have a: "tss_addr (init_tss cpu t) c = tss_addr t c" for c by (simp add: tss_addr_def init_tss_def set_gdt_def Let_def)
  have acc: "seg_access (make_segmdesc b n AR_TSS64) = AR_TSS64" for b n
    by (simp add: seg_round AR_TSS64_def AR_G_4K_def TSS_D_0_def AR_L_def AR_AVL_def AR_P_def AR_DPL_0_def AR_S_SYS_def AR_TYPE_TSS_def)
  show ?thesis
    using ok I(1) by (auto simp: tables_ok_def selected_def selector_indices I(2-4) a acc system_base_round)
qed

lemma load_simps [simp]:
  "tables_ok cpus (load_gdt t) = tables_ok cpus t" "tables_ok cpus (load_tss c t) = tables_ok cpus t"
  by (simp_all add: tables_ok_def selected_def tss_descriptor_def tss_addr_def load_gdt_def load_tss_def Let_def)

lemma ap_init:
  "tables_ok cpus t \<Longrightarrow> tables_ok (insert c cpus) (ap_init_desc c t)"
  "gdtr (ap_init_desc c t) = table_pointer (gdt_base t) 0x10000" "tr (ap_init_desc c t) = SELECTOR_TSS c"
  "gdt_base (ap_init_desc c t) = gdt_base t"
  using tables_ok_init_tss [of cpus t c]
  by (simp_all add: ap_init_desc_def) (simp_all add: load_gdt_def load_tss_def init_tss_def set_gdt_def Let_def)

lemma init_desc_ok:
  assumes "length (gdt_table t) = 8192"
  shows "tables_ok {0} (init_desc t) \<and> gdtr (init_desc t) = table_pointer (gdt_base t) 0x10000 \<and>
    gdt_base (init_desc t) = gdt_base t \<and> tr (init_desc t) = SELECTOR_TSS 0"
proof -
  define t0 where "t0 = set_gdt 4 (make_segmdesc 0 0 AR_CODE64_DPL3) (set_gdt 3 (make_segmdesc 0 0 AR_DATA64_DPL3)
      (set_gdt 2 (make_segmdesc 0 0 AR_DATA64) (set_gdt 1 (make_segmdesc 0 0 AR_CODE64) (set_gdt 0 (make_segmdesc 0 0 0) t))))"
  have "tables_ok {} t0" "gdt_base t0 = gdt_base t"
    using assms by (simp_all add: t0_def tables_ok_def selected_def selector_indices set_gdt_def)
  moreover have "init_desc t = ap_init_desc 0 t0" by (simp add: init_desc_def ap_init_desc_def t0_def Let_def)
  ultimately show ?thesis using ap_init(1) [of "{}" t0 0] ap_init(2-4) [of 0 t0] by simp
qed

text \<open>C19: After \<^verbatim>\<open>init_desc\<close> and the initialisation of any other processors, in any order and number, the
  four selectors select the code and data segments they are named after, the descriptor pair of each of these processors
  describes its own task state segment, which is cleared, the table register covers the table and nothing more, and the
  task register selects the segment of the processor that came last.\<close>

theorem descriptor_tables_correct:
  assumes "length (gdt_table t) = 8192"
  defines "t' \<equiv> \<lambda>cpus. fold ap_init_desc cpus (init_desc t)"
  shows "tables_ok (insert 0 (set cpus)) (t' cpus) \<and>
    pointer_base (gdtr (t' cpus)) = gdt_base t \<and> pointer_limit (gdtr (t' cpus)) = 0xffff \<and>
    tr (t' cpus) = SELECTOR_TSS (last (0 # cpus))"
proof -
  have "tables_ok (insert 0 (set cpus)) (t' cpus) \<and> gdtr (t' cpus) = table_pointer (gdt_base t) 0x10000 \<and>
      gdt_base (t' cpus) = gdt_base t \<and> tr (t' cpus) = SELECTOR_TSS (last (0 # cpus))"
  proof (induction cpus rule: rev_induct)
    case Nil
    show ?case using init_desc_ok [OF assms(1)] by (simp add: t'_def)
  next
    case (snoc c cpus)
    have "t' (cpus @ [c]) = ap_init_desc c (t' cpus)" by (simp add: t'_def)
    then show ?case using snoc ap_init(1) [of "insert 0 (set cpus)" "t' cpus" c] ap_init(2-4) [of c "t' cpus"] by (simp add: insert_commute)
  qed
  then show ?thesis using table_pointer_round [of "0x10000" "gdt_base t"] by simp
qed

lemma descriptor_tables_correct_witness:
  "let t = fold ap_init_desc [3, 1] (init_desc \<lparr>gdt_table = replicate 8192 (make_segmdesc 1 1 1), tss = (\<lambda>_. zero_tss),
       gdt_base = 0xffffffff80100000, tss_base = 0xffffffff80123450, gdtr = (0, 0), tr = 0\<rparr>)
   in tables_ok {0, 1, 3} t \<and> tss_addr t 3 = 0xffffffff80123588 \<and> tr t = SELECTOR_TSS 1"
proof -
  define t where "t = \<lparr>gdt_table = replicate 8192 (make_segmdesc 1 1 1), tss = (\<lambda>_. zero_tss),
       gdt_base = 0xffffffff80100000, tss_base = 0xffffffff80123450, gdtr = (0, 0), tr = 0\<rparr>"
  define t' where "t' = fold ap_init_desc [3, 1] (init_desc t)"
  have l: "length (gdt_table t) = 8192" by (simp add: t_def)
  have "tss_base t' = tss_base t"
    by (simp add: t'_def ap_init_desc_def init_desc_def load_gdt_def load_tss_def init_tss_def set_gdt_def Let_def)
  then have "tss_addr t' 3 = 0xffffffff80123588" by (simp add: tss_addr_def sizeof_tss64_def t_def)
  then show ?thesis
    using descriptor_tables_correct [OF l, of "[3, 1]"] unfolding t_def [symmetric] Let_def t'_def [symmetric]
    by (simp add: insert_commute)
qed

text \<open>
  The descriptor of a task state segment counts its limit in pages. The segment reaches far behind the
  104 bytes of the structure, so the map of permitted ports, which \<^verbatim>\<open>io_map\<close> puts behind
  the structure, is there: it is made of the bytes of the next processors' segments.
\<close>

theorem tss_limit_in_pages:
  "seg_last (make_segmdesc b (sizeof_tss64 - 1) AR_TSS64) = 104 * 4096 - 1 \<and>
   unat (drop_bit 16 (push_bit 16 sizeof_tss64)) < unat (seg_last (make_segmdesc b (sizeof_tss64 - 1) AR_TSS64))"
  by (simp add: seg_last_def seg_round AR_TSS64_def AR_G_4K_def TSS_D_0_def AR_L_def AR_AVL_def AR_P_def
      AR_DPL_0_def AR_S_SYS_def AR_TYPE_TSS_def sizeof_tss64_def)

subsection \<open>Gates\<close>

definition IRQ_CNT :: nat where "IRQ_CNT = 0x100"
definition AR_DESC_32 :: u16 where "AR_DESC_32 = 0xe"
definition AR_IDT_DESC_DPL0 :: u16 where "AR_IDT_DESC_DPL0 = AR_P OR AR_DPL_0 OR AR_DESC_32"

record gate_desc =
  offset_low :: u16
  selector :: u16
  ist :: u8
  attribute :: u8
  offset_mid :: u16
  offset_high :: u32
  reserved :: u32

definition set_gatedesc :: "addr \<Rightarrow> u16 \<Rightarrow> u16 \<Rightarrow> gate_desc \<Rightarrow> gate_desc" where
  "set_gatedesc func sel ar gd = gd\<lparr>offset_low := ucast (func AND 0xffff), selector := sel, ist := 0,
     attribute := ucast (ar AND 0xff), offset_mid := ucast (drop_bit 16 func AND 0xffff),
     offset_high := ucast (drop_bit 32 func AND 0xffffffff)\<rparr>"

text \<open>\<open>entry i\<close> is the address of the assembly entry of interrupt \<open>i\<close>, \<^verbatim>\<open>asm_intr0x..\<close>.\<close>

definition idt_desc_init :: "(nat \<Rightarrow> addr) \<Rightarrow> gate_desc list \<Rightarrow> gate_desc list" where
  "idt_desc_init entry idt =
     fold (\<lambda>i t. t[i := set_gatedesc (entry i) SELECTOR_CODE64_K AR_IDT_DESC_DPL0 (t ! i)]) [0..<IRQ_CNT] idt"

definition gate_offset :: "gate_desc \<Rightarrow> addr" where
  "gate_offset g = ucast (offset_low g) OR push_bit 16 (ucast (offset_mid g)) OR push_bit 32 (ucast (offset_high g))"

text \<open>An interrupt gate of the kernel: present, privilege 0, type 14, for the code segment of the kernel, on
  the current stack.\<close>

definition kernel_gate :: "addr \<Rightarrow> gate_desc \<Rightarrow> bool" where
  "kernel_gate a g \<longleftrightarrow> gate_offset g = a \<and> selector g = SELECTOR_CODE64_K \<and> ist g = 0 \<and>
     bit (attribute g) 7 \<and> drop_bit 5 (attribute g) AND 3 = 0 \<and> attribute g AND 0x1f = 14"

lemma set_gatedesc_gate: "kernel_gate a (set_gatedesc a SELECTOR_CODE64_K AR_IDT_DESC_DPL0 g)"
proof -
  have m: "0xffff = (mask 16 :: u64)" "0xffffffff = (mask 32 :: u64)" by (simp_all add: mask_eq_exp_minus_1)
  have "gate_offset (set_gatedesc a SELECTOR_CODE64_K AR_IDT_DESC_DPL0 g) = a"
  proof (rule bit_word_eqI)
    fix n assume n: "n < LENGTH(64)"
    consider "n < 16" | "16 \<le> n" "n < 32" | "32 \<le> n" by linarith
    then show "bit (gate_offset (set_gatedesc a SELECTOR_CODE64_K AR_IDT_DESC_DPL0 g)) n = bit a n"
      unfolding gate_offset_def set_gatedesc_def gate_desc.simps m using n by cases (simp_all add: bit_simps, auto)
  qed
  then show ?thesis
    by (simp add: kernel_gate_def) (simp add: set_gatedesc_def AR_IDT_DESC_DPL0_def AR_P_def AR_DPL_0_def AR_DESC_32_def)
qed

lemma idt_fold:
  "n \<le> length idt \<Longrightarrow> length (fold (\<lambda>i t. t[i := f i (t ! i)]) [0..<n] idt) = length idt \<and>
     (\<forall>i < n. fold (\<lambda>i t. t[i := f i (t ! i)]) [0..<n] idt ! i = f i (idt ! i)) \<and>
     (\<forall>i \<ge> n. i < length idt \<longrightarrow> fold (\<lambda>i t. t[i := f i (t ! i)]) [0..<n] idt ! i = idt ! i)"
  by (induction n) (auto simp: nth_list_update less_Suc_eq)

text \<open>C20: The table of interrupts is well formed: each of the 256 gates is present, an interrupt gate that only the
  kernel may call, for the kernel's code segment, and its three pieces make up the address of the entry of its vector.\<close>

theorem idt_well_formed:
  assumes "length idt = IRQ_CNT"
  shows "length (idt_desc_init entry idt) = IRQ_CNT \<and> (\<forall>i < IRQ_CNT. kernel_gate (entry i) (idt_desc_init entry idt ! i))"
  using idt_fold [of IRQ_CNT idt "\<lambda>i. set_gatedesc (entry i) SELECTOR_CODE64_K AR_IDT_DESC_DPL0"] assms
  by (simp add: idt_desc_init_def set_gatedesc_gate)

lemma idt_well_formed_witness:
  "let g = \<lparr>offset_low = 1, selector = 1, ist = 1, attribute = 1, offset_mid = 1, offset_high = 1, reserved = 0\<rparr>
   in kernel_gate 0xffffffff80100d20 (idt_desc_init (\<lambda>i. 0xffffffff80100000 + 0x10 * word_of_nat i) (replicate IRQ_CNT g) ! 210)"
proof -
  define g where "g = \<lparr>offset_low = 1, selector = 1, ist = 1, attribute = 1, offset_mid = 1, offset_high = 1, reserved = 0\<rparr>"
  define E where "E = (\<lambda>i. 0xffffffff80100000 + 0x10 * word_of_nat i :: addr)"
  have "length (replicate IRQ_CNT g) = IRQ_CNT" "210 < IRQ_CNT" by (simp_all add: IRQ_CNT_def)
  then have "kernel_gate (E 210) (idt_desc_init E (replicate IRQ_CNT g) ! 210)"
    using idt_well_formed [of "replicate IRQ_CNT g" E] by blast
  then show ?thesis unfolding Let_def g_def [symmetric] E_def [symmetric] by (simp add: E_def)
qed

end
