(* ===== verification/Intr.thy ===== *)
theory Intr
  imports Proc Symbols Descriptors
begin

text \<open>
  Interrupts: the frame that the assembly entries of \<^verbatim>\<open>intr/asm_intr.S\<close> build and take down, with the list
  of entries of \<^verbatim>\<open>include/intr.h\<close>, and the dispatch of \<^verbatim>\<open>intr/intr.c\<close>. The stack is the list of its
  words from the top. Text on the console is left out; the backtrace is the list of what is printed.
\<close>

subsection \<open>The frame\<close>

record gp_regs =
  r_rax :: u64
  r_rbx :: u64
  r_rcx :: u64
  r_rdx :: u64
  r_rbp :: u64
  r_rsi :: u64
  r_rdi :: u64
  r_r8 :: u64
  r_r9 :: u64
  r_r10 :: u64
  r_r11 :: u64
  r_r12 :: u64
  r_r13 :: u64
  r_r14 :: u64
  r_r15 :: u64

record seg_regs =
  r_ds :: u16
  r_es :: u16
  r_fs :: u16
  r_gs :: u16

record iret_frame =
  f_rip :: u64
  f_cs :: u64
  f_rflags :: u64
  f_rsp :: u64
  f_ss :: u64

record intr_stack =
  i_ds :: u64
  i_es :: u64
  i_fs :: u64
  i_gs :: u64
  i_rax :: u64
  i_rbx :: u64
  i_rcx :: u64
  i_rdx :: u64
  i_rbp :: u64
  i_rsi :: u64
  i_rdi :: u64
  i_r8 :: u64
  i_r9 :: u64
  i_r10 :: u64
  i_r11 :: u64
  i_r12 :: u64
  i_r13 :: u64
  i_r14 :: u64
  i_r15 :: u64
  int_vector :: u64
  error_code :: u64
  i_rip :: u64
  i_cs :: u64
  i_rflags :: u64
  i_rsp :: u64
  i_ss :: u64

text \<open>The entries that are declared with \<^verbatim>\<open>CODE\<close>: the processor has pushed an error code. The others, with
  \<^verbatim>\<open>ZERO\<close>, make room for a word of their own, which is not written.\<close>

definition CODE_entry :: "nat \<Rightarrow> bool" where
  "CODE_entry v \<longleftrightarrow> v \<in> set [0x08, 0x0a, 0x0b, 0x0d, 0x0e, 0x11, 0x18, 0x1a, 0x1b, 0x1d, 0x1e]"

definition intr_entry :: "nat \<Rightarrow> u64 \<Rightarrow> u64 list \<Rightarrow> u64 list" where
  "intr_entry v junk st = word_of_nat v # (if CODE_entry v then st else junk # st)"

definition save_all :: "seg_regs \<Rightarrow> gp_regs \<Rightarrow> u64 list \<Rightarrow> u64 list" where
  "save_all sg g st =
     [ucast (r_ds sg), ucast (r_es sg), ucast (r_fs sg), ucast (r_gs sg), r_rax g, r_rbx g, r_rcx g, r_rdx g, r_rbp g,
      r_rsi g, r_rdi g, r_r8 g, r_r9 g, r_r10 g, r_r11 g, r_r12 g, r_r13 g, r_r14 g, r_r15 g] @ st"

text \<open>The stack as the structure that the handlers get.\<close>

definition intr_stack_of :: "u64 list \<Rightarrow> intr_stack" where
  "intr_stack_of st = \<lparr>i_ds = st ! 0, i_es = st ! 1, i_fs = st ! 2, i_gs = st ! 3, i_rax = st ! 4, i_rbx = st ! 5,
     i_rcx = st ! 6, i_rdx = st ! 7, i_rbp = st ! 8, i_rsi = st ! 9, i_rdi = st ! 10, i_r8 = st ! 11, i_r9 = st ! 12,
     i_r10 = st ! 13, i_r11 = st ! 14, i_r12 = st ! 15, i_r13 = st ! 16, i_r14 = st ! 17, i_r15 = st ! 18,
     int_vector = st ! 19, error_code = st ! 20, i_rip = st ! 21, i_cs = st ! 22, i_rflags = st ! 23,
     i_rsp = st ! 24, i_ss = st ! 25\<rparr>"

text \<open>The pops of \<^verbatim>\<open>intr_exit\<close>, and \<^verbatim>\<open>iretq\<close>.\<close>

definition intr_exit :: "u64 list \<Rightarrow> seg_regs \<times> gp_regs \<times> iret_frame" where
  "intr_exit st =
     (\<lparr>r_ds = ucast (st ! 0), r_es = ucast (st ! 1), r_fs = ucast (st ! 2), r_gs = ucast (st ! 3)\<rparr>,
      \<lparr>r_rax = st ! 4, r_rbx = st ! 5, r_rcx = st ! 6, r_rdx = st ! 7, r_rbp = st ! 8, r_rsi = st ! 9, r_rdi = st ! 10,
       r_r8 = st ! 11, r_r9 = st ! 12, r_r10 = st ! 13, r_r11 = st ! 14, r_r12 = st ! 15, r_r13 = st ! 16,
       r_r14 = st ! 17, r_r15 = st ! 18\<rparr>,
      let st = drop 2 (drop 19 st) in
      \<lparr>f_rip = st ! 0, f_cs = st ! 1, f_rflags = st ! 2, f_rsp = st ! 3, f_ss = st ! 4\<rparr>)"

text \<open>What the processor pushes: its frame and, for some vectors, an error code. \<open>pushes v\<close> says for which.\<close>

definition hardware_frame :: "(nat \<Rightarrow> bool) \<Rightarrow> nat \<Rightarrow> u64 \<Rightarrow> iret_frame \<Rightarrow> u64 list \<Rightarrow> u64 list" where
  "hardware_frame pushes v err f st =
     (if pushes v then [err] else []) @ [f_rip f, f_cs f, f_rflags f, f_rsp f, f_ss f] @ st"


text \<open>
  The processor also pushes an error code for a stack fault, vector 12, whose entry is declared with
  \<^verbatim>\<open>ZERO\<close>: the handler sees the frame one word off, and the return would go to the error code.
\<close>

theorem stack_fault_frame_shifted:
  fixes sg :: seg_regs and g :: gp_regs and f :: iret_frame and junk err :: u64 and st :: "u64 list"
  assumes "pushes 0x0c"
  defines "st' \<equiv> save_all sg g (intr_entry 0x0c junk (hardware_frame pushes 0x0c err f st))"
  shows "i_rip (intr_stack_of st') = err \<and> i_cs (intr_stack_of st') = f_rip f \<and> f_rip (snd (snd (intr_exit st'))) = err"
  using assms(1) by (simp add: st'_def intr_entry_def hardware_frame_def CODE_entry_def intr_exit_def intr_stack_of_def save_all_def)


subsection \<open>Dispatch\<close>

text \<open>A pointer to a handler, which may be null. \<open>'h\<close> are the handlers of the drivers.\<close>

datatype 'h irq_function = DefaultIrqHandler | PrDebugInfo | Handler 'h

record 'h intr_state =
  idt :: "gate_desc list"
  idt_base :: addr
  idtr :: "u64 \<times> u64"
  irq_handler :: "'h irq_function option list"
  intr_lock :: bool

definition lidt :: "'h intr_state \<Rightarrow> 'h intr_state" where
  "lidt t = t\<lparr>idtr := table_pointer (idt_base t) (256 * 16)\<rparr>"

definition intr_init :: "(nat \<Rightarrow> addr) \<Rightarrow> 'h intr_state \<Rightarrow> 'h intr_state" where
  "intr_init ent t =
     (let t = t\<lparr>idt := idt_desc_init ent (idt t)\<rparr>;
          t = t\<lparr>irq_handler := replicate IRQ_CNT (Some DefaultIrqHandler)\<rparr>;
          t = (lidt t)\<lparr>intr_lock := False\<rparr>
      in t\<lparr>irq_handler := (irq_handler t)[0x82 := Some PrDebugInfo]\<rparr>)"

definition ap_intr_init :: "'h intr_state \<Rightarrow> 'h intr_state" where
  "ap_intr_init t = lidt t"

definition register_handle :: "u8 \<Rightarrow> 'h \<Rightarrow> 'h intr_state \<Rightarrow> 'h intr_state" where
  "register_handle v h t = t\<lparr>irq_handler := (irq_handler t)[unat v := Some (Handler h)]\<rparr>"

definition unregister_handle :: "u8 \<Rightarrow> 'h intr_state \<Rightarrow> 'h intr_state" where
  "unregister_handle v t = t\<lparr>irq_handler := (irq_handler t)[unat v := None]\<rparr>"

text \<open>The vector is converted to a signed 32-bit number.\<close>

definition vector_of :: "intr_stack \<Rightarrow> u32" where
  "vector_of stack = ucast (int_vector stack)"

text \<open>The default handler ends a process, and never returns for a task of the kernel.\<close>

definition default_irq_handler ::
  "'h intr_state \<Rightarrow> intr_stack \<Rightarrow> 'a proc_state_scheme \<Rightarrow> 'a proc_state_scheme outcome option" where
  "default_irq_handler t stack s =
     (if vector_of stack = 0x27 then Some (Runs s)
      else if intr_lock t then None
      else unhandled_fault s)"

definition do_irq ::
  "('h \<Rightarrow> intr_stack \<Rightarrow> 'a proc_state_scheme \<Rightarrow> 'a proc_state_scheme outcome option) \<Rightarrow> 'h intr_state \<Rightarrow>
     intr_stack \<Rightarrow> 'a proc_state_scheme \<Rightarrow> 'a proc_state_scheme outcome option" where
  "do_irq run t stack s = do {
     assert (unat (vector_of stack) < IRQ_CNT);
     (case irq_handler t ! unat (vector_of stack) of
        None \<Rightarrow> default_irq_handler t stack s
      | Some DefaultIrqHandler \<Rightarrow> default_irq_handler t stack s
      | Some PrDebugInfo \<Rightarrow> Some (Runs s)
      | Some (Handler h) \<Rightarrow> run h stack s) }"

text \<open>Drivers register and unregister handlers; the last call for a vector decides.\<close>

datatype 'h irq_op = Register u8 'h | Unregister u8

fun irq_step :: "'h irq_op \<Rightarrow> 'h intr_state \<Rightarrow> 'h intr_state" where
  "irq_step (Register v h) t = register_handle v h t"
| "irq_step (Unregister v) t = unregister_handle v t"

fun handler_of :: "nat \<Rightarrow> 'h irq_op list \<Rightarrow> 'h irq_function option" where
  "handler_of v [] = Some (if v = 0x82 then PrDebugInfo else DefaultIrqHandler)"
| "handler_of v (Register w h # ops) = (if unat w = v then Some (Handler h) else handler_of v ops)"
| "handler_of v (Unregister w # ops) = (if unat w = v then None else handler_of v ops)"

lemma irq_table:
  "v < IRQ_CNT \<Longrightarrow> irq_handler (fold irq_step ops (intr_init ent t)) ! v = handler_of v (rev ops) \<and>
     length (irq_handler (fold irq_step ops (intr_init ent t))) = IRQ_CNT \<and>
     \<not> intr_lock (fold irq_step ops (intr_init ent t))"
proof (induction ops rule: rev_induct)
  case Nil
  then show ?case by (simp add: intr_init_def lidt_def IRQ_CNT_def nth_list_update)
next
  case (snoc op ops)
  then show ?case
    by (cases op) (auto simp: register_handle_def unregister_handle_def nth_list_update)
qed

text \<open>C21: \<^verbatim>\<open>do_irq\<close> calls the handler that was registered last for the vector and not taken back; without one
  the default handler lets the spurious interrupt 0x27 pass and ends the task for any other.\<close>

theorem do_irq_dispatches:
  fixes ent :: "nat \<Rightarrow> addr" and t :: "'h intr_state"
  assumes "vector_of stack = word_of_nat v" and "v < IRQ_CNT"
  defines "t' \<equiv> \<lambda>ops. fold irq_step ops (intr_init ent t)"
  shows "do_irq run (t' ops) stack s =
    (case handler_of v (rev ops) of
       Some (Handler h) \<Rightarrow> run h stack s
     | Some PrDebugInfo \<Rightarrow> Some (Runs s)
     | _ \<Rightarrow> if v = 0x27 then Some (Runs s) else unhandled_fault s)"
proof -
  have u: "unat (vector_of stack) = v"
    using assms(1,2) by (simp add: IRQ_CNT_def unat_of_nat_lt)
  then have v27: "vector_of stack = 0x27 \<longleftrightarrow> v = 0x27" by (auto simp: word_unat_eq_iff)
  show ?thesis
    using irq_table [OF assms(2), of ops ent t] assms(2)
    by (auto simp: do_irq_def t'_def u default_irq_handler_def v27 split: option.splits irq_function.splits)
qed

subsection \<open>The backtrace\<close>

definition IS_AVAILABLE_ADDRESS :: "addr \<Rightarrow> bool" where
  "IS_AVAILABLE_ADDRESS a \<longleftrightarrow> a \<ge> 0xffff800000000000 \<and> a \<le> 0xffff8000ffffffff"

text \<open>\<open>w\<close> is memory as 64-bit words; the result is what is printed: the address, its symbol, and the distance.\<close>

fun backtrace :: "nat \<Rightarrow> (addr \<Rightarrow> u64) \<Rightarrow> symbol_table \<Rightarrow> addr \<Rightarrow> addr \<Rightarrow> (addr \<times> u8 list \<times> u64) list" where
  "backtrace 0 w t rip rbp = []"
| "backtrace (Suc n) w t rip rbp =
     (case get_symbol_index_by_addr t rip of
        (st, Some i) \<Rightarrow>
          if ERROR st then []
          else (rip, index_to_symbol t i, rip - index_to_addr t i) #
            (if \<not> IS_AVAILABLE_ADDRESS (rbp + 8) then [] else backtrace n w t (w (rbp + 8)) (w rbp))
      | (_, None) \<Rightarrow> [])"

definition kernel_backtrace :: "(addr \<Rightarrow> u64) \<Rightarrow> symbol_table \<Rightarrow> intr_stack \<Rightarrow> (addr \<times> u8 list \<times> u64) list" where
  "kernel_backtrace w t stack = backtrace 8 w t (i_rip stack) (i_rbp stack)"

text \<open>
  The test is of the word above the one that \<^verbatim>\<open>rbp\<close> points to: one more address is read than those that
  the kernel maps.
\<close>

definition backtrace_reads :: "addr \<Rightarrow> bool" where
  "backtrace_reads a \<longleftrightarrow> IS_AVAILABLE_ADDRESS a \<or> IS_AVAILABLE_ADDRESS (a + 8)"

theorem backtrace_safe:
  assumes "\<And>a. backtrace_reads a \<Longrightarrow> w a = w' a"
  shows "backtrace n w t rip rbp = backtrace n w' t rip rbp \<and> length (backtrace n w t rip rbp) \<le> n"
proof (induction n arbitrary: rip rbp)
  case (Suc n)
  have "IS_AVAILABLE_ADDRESS (rbp + 8) \<Longrightarrow> w (rbp + 8) = w' (rbp + 8) \<and> w rbp = w' rbp"
    using assms by (simp add: backtrace_reads_def)
  then show ?case using Suc.IH [of "w (rbp + 8)" "w rbp"] by (auto split: option.splits prod.splits)
qed simp

lemma backtrace_reads_unmapped: "backtrace_reads 0xffff7ffffffffff8 \<and> \<not> IS_AVAILABLE_ADDRESS 0xffff7ffffffffff8"
  by (simp add: backtrace_reads_def IS_AVAILABLE_ADDRESS_def)

lemma do_irq_dispatches_witness:
  "\<forall>s :: unit proc_state_scheme.
     do_irq (\<lambda>h stack s. if h = 7 then Some (Runs s) else None)
       (fold irq_step [Register 0x20 5, Register 0x21 6, Register 0x20 (7 :: nat)]
         (intr_init (\<lambda>_. 0) \<lparr>idt = [], idt_base = 0, idtr = (0, 0), irq_handler = [], intr_lock = True\<rparr>))
       (intr_stack_of (replicate 26 0x20)) s = Some (Runs s)"
proof
  fix s :: "unit proc_state_scheme"
  have "vector_of (intr_stack_of (replicate 26 0x20)) = word_of_nat 0x20" "(0x20 :: nat) < IRQ_CNT"
    by (simp_all add: vector_of_def intr_stack_of_def IRQ_CNT_def)
  then show "do_irq (\<lambda>h stack s. if h = 7 then Some (Runs s) else None)
       (fold irq_step [Register 0x20 5, Register 0x21 6, Register 0x20 (7 :: nat)]
         (intr_init (\<lambda>_. 0) \<lparr>idt = [], idt_base = 0, idtr = (0, 0), irq_handler = [], intr_lock = True\<rparr>))
       (intr_stack_of (replicate 26 0x20)) s = Some (Runs s)"
    by (subst do_irq_dispatches [where v = "0x20"]) simp_all
qed

end
