(* ===== verification/Apic.thy ===== *)
theory Apic
  imports Descriptors ElfLoad KMalloc
begin

text \<open>
  The interrupt controllers and the processors' registers: \<^verbatim>\<open>device/pic/apic.c\<close>, \<^verbatim>\<open>8259a.c\<close>,
  \<^verbatim>\<open>pic.c\<close>, \<^verbatim>\<open>device/cpu/cpu.c\<close>, the messages between processors of
  \<^verbatim>\<open>device/cpu/smp/smp.c\<close>, and \<^verbatim>\<open>syscall_init\<close>. The hardware is the
  record of \<^verbatim>\<open>Hardware\<close> with the accesses of other widths, the model-specific registers and \<^verbatim>\<open>cpuid\<close>.
\<close>

record 'h cpu_hardware = "'h hardware" +
  mmio_write8 :: "addr \<Rightarrow> u8 \<Rightarrow> 'h \<Rightarrow> 'h"
  mmio_read64 :: "addr \<Rightarrow> 'h \<Rightarrow> u64 \<times> 'h"
  mmio_write64 :: "addr \<Rightarrow> u64 \<Rightarrow> 'h \<Rightarrow> 'h"
  rdmsr :: "u64 \<Rightarrow> 'h \<Rightarrow> u64 \<times> 'h"
  wrmsr :: "u64 \<Rightarrow> u64 \<Rightarrow> 'h \<Rightarrow> 'h"
  cpuid :: "u32 \<Rightarrow> u32 \<Rightarrow> u32 \<times> u32 \<times> u32 \<times> u32"

definition APIC_REG_VERSION :: u16 where "APIC_REG_VERSION = 0x030"
definition APIC_REG_TPR :: u16 where "APIC_REG_TPR = 0x080"
definition APIC_REG_EOI :: u16 where "APIC_REG_EOI = 0x0b0"
definition APIC_REG_SVR :: u16 where "APIC_REG_SVR = 0x0f0"
definition APIC_REG_LVT_TIMER :: u16 where "APIC_REG_LVT_TIMER = 0x320"
definition APIC_REG_TIMER_ICNT :: u16 where "APIC_REG_TIMER_ICNT = 0x380"
definition APIC_REG_TIMER_CCNT :: u16 where "APIC_REG_TIMER_CCNT = 0x390"
definition APIC_REG_TIMER_DIV :: u16 where "APIC_REG_TIMER_DIV = 0x3e0"
definition PIC_M_CTRL :: u32 where "PIC_M_CTRL = 0x20"
definition PIC_M_DATA :: u32 where "PIC_M_DATA = 0x21"
definition PIC_S_CTRL :: u32 where "PIC_S_CTRL = 0xa0"
definition PIC_S_DATA :: u32 where "PIC_S_DATA = 0xa1"
definition IA32_APIC_BASE :: u64 where "IA32_APIC_BASE = 0x0000001b"
definition IA32_APIC_BASE_BSP :: u64 where "IA32_APIC_BASE_BSP = 0x100"
definition IA32_EFER :: u64 where "IA32_EFER = 0xc0000080"
definition IA32_EFER_SCE :: u64 where "IA32_EFER_SCE = 1"
definition IA32_STAR :: u64 where "IA32_STAR = 0xc0000081"
definition IA32_LSTAR :: u64 where "IA32_LSTAR = 0xc0000082"
definition IA32_FMASK :: u64 where "IA32_FMASK = 0xc0000084"
definition EFLAGS_IF_1 :: u64 where "EFLAGS_IF_1 = 0x200"

subsection \<open>The processors that the firmware lists\<close>

record ioapic_t =
  index_addr :: addr
  data_addr :: addr
  EOI_addr :: addr

record apic_t =
  local_apic_address :: u64
  number_of_cores :: u8
  lapic_id :: "u8 list"
  number_of_ioapic :: u8
  ioapic :: "ioapic_t list"

definition zero_ioapic :: ioapic_t where
  "zero_ioapic = \<lparr>index_addr = 0, data_addr = 0, EOI_addr = 0\<rparr>"

text \<open>One record of the table at \<open>p\<close>. A ninth controller would be written behind the array.\<close>

definition madt_record :: "mem \<Rightarrow> addr \<Rightarrow> apic_t \<Rightarrow> apic_t option" where
  "madt_record mm p a =
     (if mm p = 0 then
        Some (if mm (p + 4) AND 1 \<noteq> 0
          then a\<lparr>lapic_id := (lapic_id a)[unat (number_of_cores a) := mm (p + 3)], number_of_cores := number_of_cores a + 1\<rparr>
          else a)
      else if mm p = 1 then do {
        let x = ucast (rd32 mm (p + 4));
        assert (unat (number_of_ioapic a) < 8);
        Some (a\<lparr>ioapic := (ioapic a)[unat (number_of_ioapic a) := \<lparr>index_addr = x, data_addr = x + 0x10, EOI_addr = x + 0x40\<rparr>],
          number_of_ioapic := number_of_ioapic a + 1\<rparr>) }
      else Some a)"

partial_function (option) madt_loop :: "mem \<Rightarrow> addr \<Rightarrow> addr \<Rightarrow> apic_t \<Rightarrow> apic_t option" where
  "madt_loop mm p2 p a =
     (if p < p2 then Option.bind (madt_record mm p a) (madt_loop mm p2 (p + ucast (mm (p + 1)))) else Some a)"

text \<open>\<open>madt\<close> is the address through the kernel's window; the header with two more words has 44 bytes.\<close>

definition detect_cores :: "mem \<Rightarrow> addr \<Rightarrow> apic_t option" where
  "detect_cores mm madt =
     madt_loop mm (madt + ucast (rd32 mm (madt + 4))) (madt + 44)
       \<lparr>local_apic_address = ucast (rd32 mm (madt + 36)), number_of_cores = 0, lapic_id = replicate 256 0,
        number_of_ioapic = 0, ioapic = replicate 8 zero_ioapic\<rparr>"

text \<open>The records as the firmware writes them.\<close>

datatype madt_entry =
    LocalApic (cpu_uid: u8) (apic_nr: u8) (apic_flags: nat)
  | IoApic (ioapic_nr: u8) (ioapic_address: nat) (gsi_base: nat)
  | OtherEntry (entry_kind: u8) (entry_body: "u8 list")

fun entry_bytes :: "madt_entry \<Rightarrow> u8 list" where
  "entry_bytes (LocalApic u i f) = [0, 8, u, i] @ le_bytes 4 f"
| "entry_bytes (IoApic n x g) = [1, 12, n, 0] @ le_bytes 4 x @ le_bytes 4 g"
| "entry_bytes (OtherEntry k b) = [k, word_of_nat (length b + 2)] @ b"

fun entry_ok :: "madt_entry \<Rightarrow> bool" where
  "entry_ok (LocalApic u i f) = (f < 2 ^ 32)"
| "entry_ok (IoApic n x g) = (x < 2 ^ 32 \<and> g < 2 ^ 32)"
| "entry_ok (OtherEntry k b) = (k \<noteq> 0 \<and> k \<noteq> 1 \<and> length b < 254)"

fun entry_core :: "madt_entry \<Rightarrow> u8 list" where
  "entry_core (LocalApic u i f) = (if odd f then [i] else [])"
| "entry_core _ = []"

fun entry_ioapic :: "madt_entry \<Rightarrow> ioapic_t list" where
  "entry_ioapic (IoApic n x g) = [\<lparr>index_addr = word_of_nat x, data_addr = word_of_nat x + 0x10, EOI_addr = word_of_nat x + 0x40\<rparr>]"
| "entry_ioapic _ = []"

definition cores :: "madt_entry list \<Rightarrow> u8 list" where "cores es = concat (map entry_core es)"
definition ioapics :: "madt_entry list \<Rightarrow> ioapic_t list" where "ioapics es = concat (map entry_ioapic es)"

definition found :: "u64 \<Rightarrow> u8 list \<Rightarrow> ioapic_t list \<Rightarrow> apic_t" where
  "found l cs ios = \<lparr>local_apic_address = l, number_of_cores = word_of_nat (length cs),
     lapic_id = cs @ replicate (256 - length cs) 0, number_of_ioapic = word_of_nat (length ios),
     ioapic = ios @ replicate (8 - length ios) zero_ioapic\<rparr>"

lemma update_next:
  assumes "length xs < n"
  shows "(xs @ replicate (n - length xs) z)[length xs := x] = (xs @ [x]) @ replicate (n - length (xs @ [x])) z"
proof -
  obtain k where "n - length xs = Suc k" using assms by (metis Suc_diff_Suc)
  then show ?thesis by simp
qed

lemma entry_length: "entry_ok e \<Longrightarrow> 2 \<le> length (entry_bytes e) \<and> length (entry_bytes e) < 256"
  by (cases e) auto

lemma odd_word: "(word_of_nat (f mod 256) :: u8) AND 1 \<noteq> 0 \<longleftrightarrow> odd f"
proof -
  have "(word_of_nat (f mod 256) :: u8) AND 1 = take_bit 1 (word_of_nat (f mod 256))" by (simp add: take_bit_eq_mask)
  also have "\<dots> = word_of_nat (take_bit 1 (f mod 256))" by (simp only: take_bit_of_nat)
  also have "take_bit 1 (f mod 256) = f mod 2" by (simp add: take_bit_eq_mod mod_mod_cancel)
  finally show ?thesis by (cases "even f") (simp_all add: odd_iff_mod_2_eq_one)
qed

lemma le_bytes_4: "le_bytes 4 f = word_of_nat (f mod 256) # le_bytes 3 (f div 256)"
  using le_bytes.simps(2) [of 3 f] by simp

lemma madt_record_entry:
  assumes ok: "entry_ok e" and st: "stored mm p (entry_bytes e)"
    and "length cs + length (entry_core e) < 256" and "length ios + length (entry_ioapic e) \<le> 8"
  shows "madt_record mm p (found l cs ios) = Some (found l (cs @ entry_core e) (ios @ entry_ioapic e))"
    and "mm (p + 1) = word_of_nat (length (entry_bytes e))"
proof -
  have n: "unat (word_of_nat (length cs) :: u8) = length cs" using assms(3) by (intro unat_of_nat_lt) simp
  have k: "unat (word_of_nat (length ios) :: u8) = length ios" using assms(4) by (intro unat_of_nat_lt) simp
  show "mm (p + 1) = word_of_nat (length (entry_bytes e))" using st by (cases e) auto
  show "madt_record mm p (found l cs ios) = Some (found l (cs @ entry_core e) (ios @ entry_ioapic e))"
  proof (cases e)
    case (LocalApic u i f)
    have b: "mm p = 0" "mm (p + 3) = i" "mm (p + 4) = word_of_nat (f mod 256)"
      using st by (simp_all add: LocalApic le_bytes_4 add.commute)
    then show ?thesis
      using b odd_word assms(3) n update_next [of cs 256 0 i] by (simp add: madt_record_def LocalApic found_def)
  next
    case (IoApic nr x g)
    have "stored mm (p + 4) (le_bytes 4 x)" and b: "mm p = 1" using st by (simp_all add: IoApic add.commute)
    then have "rd32 mm (p + 4) = word_of_nat x" using ok IoApic stored_le_32 by simp
    moreover have "ucast (word_of_nat x :: u32) = (word_of_nat x :: addr)" using ok IoApic by (simp add: ucast_of_nat_32)
    ultimately show ?thesis
      using b assms(4) k update_next [of ios 8 zero_ioapic] by (simp add: madt_record_def IoApic found_def Let_def add.commute)
  next
    case (OtherEntry kd b)
    then show ?thesis using ok st by (simp add: madt_record_def)
  qed
qed

lemma madt_loop_entries:
  assumes "\<forall>e \<in> set es. entry_ok e" and "stored mm p (concat (map entry_bytes es))"
    and "length cs + length (cores es) < 256" and "length ios + length (ioapics es) \<le> 8"
    and "unat p2 = unat p + length (concat (map entry_bytes es))"
  shows "madt_loop mm p2 p (found l cs ios) = Some (found l (cs @ cores es) (ios @ ioapics es))"
  using assms
proof (induction es arbitrary: p cs ios)
  case Nil
  then have "\<not> p < p2" by (simp add: word_less_nat_alt)
  then show ?case by (subst madt_loop.simps) (simp add: cores_def ioapics_def)
next
  case (Cons e es)
  have e: "entry_ok e" "2 \<le> length (entry_bytes e)" "length (entry_bytes e) < 256" using Cons.prems(1) entry_length [of e] by simp_all
  have st: "stored mm p (entry_bytes e)" using Cons.prems(2) by simp
  have rec: "madt_record mm p (found l cs ios) = Some (found l (cs @ entry_core e) (ios @ entry_ioapic e))"
    "mm (p + 1) = word_of_nat (length (entry_bytes e))"
    using madt_record_entry [OF e(1) st, of cs ios] Cons.prems(3,4) by (simp_all add: cores_def ioapics_def)
  define q where "q = p + word_of_nat (length (entry_bytes e))"
  have p2: "unat p2 < 2 ^ 64" using unsigned_less [of p2] by simp
  have step: "p + ucast (mm (p + 1)) = q"
    using e(3) by (simp add: q_def rec(2) word_unat_eq_iff unsigned_ucast_eq unat_word_ariths unat_of_nat_lt take_bit_nat_eq_self)
  have len: "unat p2 = unat p + length (entry_bytes e) + length (concat (map entry_bytes es))" using Cons.prems(5) by simp
  then have lt: "p < p2" using e(2) unfolding word_less_nat_alt by linarith
  have "unat q = unat p + length (entry_bytes e)"
    using len p2 e(3) unfolding q_def by (subst unat_add_no_wrap) (simp_all add: unat_of_nat_lt)
  then have "madt_loop mm p2 q (found l (cs @ entry_core e) (ios @ entry_ioapic e)) =
      Some (found l ((cs @ entry_core e) @ cores es) ((ios @ entry_ioapic e) @ ioapics es))"
    using Cons.prems by (intro Cons.IH) (simp_all add: q_def cores_def ioapics_def)
  then show ?case
    using lt rec(1) step by (subst madt_loop.simps) (simp add: cores_def ioapics_def)
qed

text \<open>C22: \<^verbatim>\<open>detect_cores\<close> reads a table of any records that fits its arrays and returns the numbers of all
  enabled processors and the addresses of all I/O controllers, in the order of the table.\<close>

theorem detect_cores_finds_all:
  fixes es :: "madt_entry list"
  defines "bs \<equiv> concat (map entry_bytes es)"
  assumes "\<forall>e \<in> set es. entry_ok e" and "stored mm (madt + 44) bs"
    and "rd32 mm (madt + 4) = word_of_nat (44 + length bs)" and "44 + length bs < 2 ^ 32" and "unat madt + 44 + length bs < 2 ^ 64"
    and "length (cores es) < 256" and "length (ioapics es) \<le> 8"
  shows "detect_cores mm madt = Some \<lparr>local_apic_address = ucast (rd32 mm (madt + 36)),
     number_of_cores = word_of_nat (length (cores es)), lapic_id = cores es @ replicate (256 - length (cores es)) 0,
     number_of_ioapic = word_of_nat (length (ioapics es)), ioapic = ioapics es @ replicate (8 - length (ioapics es)) zero_ioapic\<rparr>"
proof -
  have u: "unat (madt + word_of_nat k) = unat madt + k" if "unat madt + k < 2 ^ 64" for k
    using that by (subst unat_add_no_wrap) (simp_all add: unat_of_nat_lt)
  have l: "ucast (rd32 mm (madt + 4)) = (word_of_nat (44 + length bs) :: addr)"
    using assms(4,5) by (simp only: ucast_of_nat_32)
  have "unat (madt + word_of_nat (44 + length bs)) = unat (madt + 44) + length bs"
    using u [of "44 + length bs"] u [of 44] assms(6) by simp
  then have "madt_loop mm (madt + word_of_nat (44 + length bs)) (madt + 44) (found (ucast (rd32 mm (madt + 36))) [] []) =
      Some (found (ucast (rd32 mm (madt + 36))) (cores es) (ioapics es))"
    using madt_loop_entries [of es mm "madt + 44" "[]" "[]" "madt + word_of_nat (44 + length bs)"] assms by (simp add: bs_def)
  then show ?thesis unfolding detect_cores_def l by (simp add: found_def)
qed

text \<open>A record of length zero is walked over forever.\<close>

theorem madt_loop_stuck:
  assumes "p < p2" and "mm (p + 1) = 0" and "mm p \<noteq> 0" "mm p \<noteq> 1"
  shows "madt_loop mm p2 p a = None"
proof -
  have "madt_loop mm' p2' p' a' = Some r \<Longrightarrow> mm' = mm \<Longrightarrow> p2' = p2 \<Longrightarrow> p' = p \<Longrightarrow> False" for mm' p2' p' a' r
  proof (induction rule: madt_loop.raw_induct [rotated, consumes 1, case_names step])
    case (step f mm' p2' p' a' r)
    show ?case using step.hyps step.IH step.prems assms by (auto simp: madt_record_def split: if_splits)
  qed
  then show ?thesis by (metis option.exhaust)
qed

lemma detect_cores_finds_all_witness:
  "let es = [LocalApic 0 0 1, LocalApic 1 4 0, OtherEntry 2 [0, 0, 2, 0, 0, 0, 0, 0], IoApic 0 0xfec00000 0, LocalApic 2 6 3];
       bs = [0x41, 0x50, 0x49, 0x43] @ le_bytes 4 90 @ replicate 28 0 @ le_bytes 4 0xfee00000 @ le_bytes 4 0 @
            concat (map entry_bytes es)
   in map_option number_of_cores (detect_cores (load bs 0x1000 (\<lambda>_. 0)) 0x1000) = Some 2 \<and>
      map_option (\<lambda>a. lapic_id a ! 1) (detect_cores (load bs 0x1000 (\<lambda>_. 0)) 0x1000) = Some 6"
proof -
  define es where "es = [LocalApic 0 0 1, LocalApic 1 4 0, OtherEntry 2 [0, 0, 2, 0, 0, 0, 0, 0], IoApic 0 0xfec00000 0, LocalApic 2 6 3]"
  define bs where "bs = [0x41, 0x50, 0x49, 0x43] @ le_bytes 4 90 @ replicate 28 0 @ le_bytes 4 0xfee00000 @ le_bytes 4 0 @
            concat (map entry_bytes es)"
  define mm where "mm = load bs 0x1000 (\<lambda>_. 0)"
  have lb: "length (concat (map entry_bytes es)) = 46" by (simp add: es_def)
  have "stored mm 0x1000 bs" unfolding mm_def by (rule load_stored) (simp add: bs_def lb)
  then have st: "stored mm 0x1004 (le_bytes 4 90)" "stored mm (0x1000 + 44) (concat (map entry_bytes es))"
    by (simp_all add: bs_def)
  have "rd32 mm (0x1000 + 4) = word_of_nat (44 + length (concat (map entry_bytes es)))"
    using stored_le_32 [OF st(1)] by (simp add: lb)
  moreover have "\<forall>e \<in> set es. entry_ok e" "length (cores es) = 2" "cores es ! 1 = 6" "length (ioapics es) = 1"
    by (simp_all add: es_def cores_def ioapics_def)
  ultimately show ?thesis
    using detect_cores_finds_all [of es mm "0x1000"] st(2) lb
    unfolding Let_def es_def [symmetric] bs_def [symmetric] mm_def [symmetric] by (simp add: nth_append)
qed

subsection \<open>The local controller\<close>

definition local_apic_write :: "'h cpu_hardware \<Rightarrow> apic_t \<Rightarrow> u16 \<Rightarrow> u32 \<Rightarrow> 'h \<Rightarrow> 'h" where
  "local_apic_write H a i v h = mmio_write H (PHYS_TO_VIRT (local_apic_address a + ucast i)) v h"

definition local_apic_read :: "'h cpu_hardware \<Rightarrow> apic_t \<Rightarrow> u16 \<Rightarrow> 'h \<Rightarrow> u32 \<times> 'h" where
  "local_apic_read H a i h = mmio_read H (PHYS_TO_VIRT (local_apic_address a + ucast i)) h"

definition xapic_init :: "'h cpu_hardware \<Rightarrow> apic_t \<Rightarrow> 'h \<Rightarrow> 'h" where
  "xapic_init H a h =
     (let (svr, h) = local_apic_read H a APIC_REG_SVR h;
          svr = svr OR push_bit 8 1;
          (ver, h) = local_apic_read H a APIC_REG_VERSION h;
          svr = (if drop_bit 24 ver AND 1 \<noteq> 0 then svr OR push_bit 12 1 else svr);
          h = local_apic_write H a APIC_REG_SVR svr h
      in fold (\<lambda>i. local_apic_write H a i 0x10000) [0x2f0, 0x320, 0x330, 0x340, 0x350, 0x360, 0x370] h)"

definition x2apic_init :: "'h cpu_hardware \<Rightarrow> 'h \<Rightarrow> 'h" where
  "x2apic_init H h =
     (let (svr, h) = rdmsr H 0x80f h;
          svr = (ucast svr :: u32) OR push_bit 8 1;
          (ver, h) = rdmsr H 0x803 h;
          svr = (if drop_bit 24 ver AND 1 \<noteq> 0 then svr OR push_bit 12 1 else svr);
          h = wrmsr H 0x80f (ucast svr) h
      in fold (\<lambda>i. wrmsr H i 0x10000) [0x82f, 0x832, 0x833, 0x834, 0x835, 0x836, 0x837] h)"

definition local_apic_init :: "'h cpu_hardware \<Rightarrow> apic_t \<Rightarrow> 'h \<Rightarrow> 'h" where
  "local_apic_init H a h =
     (let (_, _, c, d) = cpuid H 1 0; (base, h) = rdmsr H IA32_APIC_BASE h in
      if bit c 21 \<and> base AND 0x400 \<noteq> 0 then x2apic_init H h
      else if bit d 9 \<and> base AND 0x800 \<noteq> 0 then xapic_init H a h
      else h)"

definition send_eoi :: "'h cpu_hardware \<Rightarrow> apic_t \<Rightarrow> 'h \<Rightarrow> 'h" where
  "send_eoi H a h = local_apic_write H a APIC_REG_EOI 0 h"

subsection \<open>The controller of the pins\<close>

definition ioapic_rte_write :: "'h cpu_hardware \<Rightarrow> apic_t \<Rightarrow> u8 \<Rightarrow> u64 \<Rightarrow> 'h \<Rightarrow> 'h" where
  "ioapic_rte_write H a i v h =
     (let idx = PHYS_TO_VIRT (index_addr (ioapic a ! 0)); dat = PHYS_TO_VIRT (data_addr (ioapic a ! 0));
          h = mmio_write8 H idx i h;
          h = mmio_write H dat (ucast (v AND 0xffffffff)) h;
          v = drop_bit 32 v;
          h = mmio_write8 H idx (i + 1) h
      in mmio_write H dat (ucast (v AND 0xffffffff)) h)"

definition ioapic_enable :: "'h cpu_hardware \<Rightarrow> apic_t \<Rightarrow> u64 \<Rightarrow> u64 \<Rightarrow> 'h \<Rightarrow> 'h" where
  "ioapic_enable H a pin vector = ioapic_rte_write H a (ucast (pin * 2 + 0x10)) (vector AND 0xff)"

definition ioapic_init :: "'h cpu_hardware \<Rightarrow> apic_t \<Rightarrow> 'h \<Rightarrow> 'h" where
  "ioapic_init H a h =
     (let h = mmio_write8 H (PHYS_TO_VIRT (index_addr (ioapic a ! 0))) 0 h;
          h = mmio_write H (PHYS_TO_VIRT (data_addr (ioapic a ! 0))) 0x0f000000 h
      in fold (\<lambda>k. ioapic_rte_write H a (word_of_nat (0x10 + 2 * k)) 0x10000) [0..<24] h)"

definition apic_init :: "'h cpu_hardware \<Rightarrow> apic_t \<Rightarrow> 'h \<Rightarrow> 'h" where
  "apic_init H a h =
     (let h = io_out8 H PIC_M_DATA 0xff h;
          h = io_out8 H PIC_S_DATA 0xff h;
          h = io_out8 H 0x22 0x70 h;
          h = io_out8 H 0x23 0x01 h;
          h = local_apic_init H a h
      in ioapic_init H a h)"

definition init_8259a :: "'h cpu_hardware \<Rightarrow> 'h \<Rightarrow> 'h" where
  "init_8259a H h = fold (\<lambda>(p, d). io_out8 H p d)
     [(PIC_M_DATA, 0xff), (PIC_S_DATA, 0xff), (PIC_M_CTRL, 0x11), (PIC_M_DATA, 0x20), (PIC_M_DATA, 0x04), (PIC_M_DATA, 0x01),
      (PIC_S_CTRL, 0x11), (PIC_S_DATA, 0x28), (PIC_S_DATA, 0x02), (PIC_S_DATA, 0x01), (PIC_M_DATA, 0xfe), (PIC_S_DATA, 0xff)] h"

text \<open>The kernel is built without \<^verbatim>\<open>__PIC_8259A__\<close>.\<close>

definition pic_init :: "'h cpu_hardware \<Rightarrow> apic_t \<Rightarrow> 'h \<Rightarrow> 'h" where
  "pic_init H a = apic_init H a"

text \<open>
  The registers of an I/O APIC: a write to the index register selects one, a write to the data register
  changes it. \<open>sel\<close> and \<open>reg\<close> read the selection and the registers off the hardware's state.
\<close>

definition ioapic_device :: "'h cpu_hardware \<Rightarrow> addr \<Rightarrow> addr \<Rightarrow> ('h \<Rightarrow> u8) \<Rightarrow> ('h \<Rightarrow> u8 \<Rightarrow> u32) \<Rightarrow> bool" where
  "ioapic_device H idx dat sel reg \<longleftrightarrow>
     (\<forall>i h. sel (mmio_write8 H idx i h) = i \<and> reg (mmio_write8 H idx i h) = reg h) \<and>
     (\<forall>v h. sel (mmio_write H dat v h) = sel h \<and> reg (mmio_write H dat v h) = (reg h)(sel h := v))"

definition pin_entry :: "('h \<Rightarrow> u8 \<Rightarrow> u32) \<Rightarrow> 'h \<Rightarrow> nat \<Rightarrow> u32 \<times> u32" where
  "pin_entry reg h pin = (reg h (word_of_nat (0x10 + 2 * pin)), reg h (word_of_nat (0x11 + 2 * pin)))"

lemma rte_write_effect:
  assumes "ioapic_device H (PHYS_TO_VIRT (index_addr (ioapic a ! 0))) (PHYS_TO_VIRT (data_addr (ioapic a ! 0))) sel reg"
  shows "reg (ioapic_rte_write H a i v h) =
    (reg h)(i := ucast (v AND 0xffffffff), i + 1 := ucast (drop_bit 32 v AND 0xffffffff))"
  using assms by (simp add: ioapic_device_def ioapic_rte_write_def Let_def)

lemma pin_entry_write:
  assumes "ioapic_device H (PHYS_TO_VIRT (index_addr (ioapic a ! 0))) (PHYS_TO_VIRT (data_addr (ioapic a ! 0))) sel reg"
    and "pin < 24" "k < 24"
  shows "pin_entry reg (ioapic_rte_write H a (word_of_nat (0x10 + 2 * k)) v h) pin =
    (if pin = k then (ucast (v AND 0xffffffff), ucast (drop_bit 32 v AND 0xffffffff)) else pin_entry reg h pin)"
proof -
  have u: "word_of_nat x = (word_of_nat y :: u8) \<longleftrightarrow> x = y" if "x < 256" "y < 256" for x y
    using that by (auto simp: word_unat_eq_iff unat_of_nat_lt)
  have s: "(word_of_nat (0x10 + 2 * k) :: u8) + 1 = word_of_nat (0x11 + 2 * k)" by simp
  have "0x10 + 2 * pin = 0x10 + 2 * k \<longleftrightarrow> pin = k" "0x11 + 2 * pin = 0x11 + 2 * k \<longleftrightarrow> pin = k"
    "0x10 + 2 * pin \<noteq> 0x11 + 2 * k" "0x11 + 2 * pin \<noteq> 0x10 + 2 * k" by presburger+
  then show ?thesis
    using assms(2,3) unfolding pin_entry_def rte_write_effect [OF assms(1)] s by (simp add: u del: of_nat_add of_nat_mult)
qed

text \<open>C34: On an I/O controller with a select and a data register \<^verbatim>\<open>ioapic_init\<close> masks every pin, and
  \<^verbatim>\<open>ioapic_enable\<close> routes exactly the pin asked for to the vector asked for.\<close>

theorem ioapic_masks_and_enables:
  assumes "ioapic_device H (PHYS_TO_VIRT (index_addr (ioapic a ! 0))) (PHYS_TO_VIRT (data_addr (ioapic a ! 0))) sel reg"
    and "pin < 24"
  shows "pin_entry reg (ioapic_init H a h) pin = (0x10000, 0) \<and>
    (\<forall>k < 24. \<forall>vector < 256. pin_entry reg (ioapic_enable H a (word_of_nat k) (word_of_nat vector) h) pin =
       (if pin = k then (word_of_nat vector, 0) else pin_entry reg h pin))"
proof
  have "pin_entry reg (fold (\<lambda>k. ioapic_rte_write H a (word_of_nat (0x10 + 2 * k)) 0x10000) [0..<n] h) pin =
      (if pin < n then (0x10000, 0) else pin_entry reg h pin)" if "n \<le> 24" for n h
    using that pin_entry_write [OF assms] by (induction n) (auto simp: less_Suc_eq)
  then show "pin_entry reg (ioapic_init H a h) pin = (0x10000, 0)"
    using assms(2) by (simp add: ioapic_init_def Let_def)
  show "\<forall>k < 24. \<forall>vector < 256. pin_entry reg (ioapic_enable H a (word_of_nat k) (word_of_nat vector) h) pin =
       (if pin = k then (word_of_nat vector, 0) else pin_entry reg h pin)"
  proof (intro allI impI)
    fix k vector :: nat assume k: "k < 24" and v: "vector < 256"
    have "word_of_nat k * 2 + 0x10 = (word_of_nat (0x10 + 2 * k) :: u64)" by simp
    moreover have "ucast (word_of_nat n :: u64) = (word_of_nat n :: u8)" for n
      by (simp add: word_unat_eq_iff unsigned_ucast_eq unat_of_nat take_bit_eq_mod mod_mod_cancel)
    ultimately have i: "ucast (word_of_nat k * 2 + 0x10 :: u64) = (word_of_nat (0x10 + 2 * k) :: u8)" by metis
    have uv: "unat (word_of_nat vector :: u64) = vector" using v by (intro unat_of_nat_lt) simp
    have m: "0xff = (mask 8 :: u64)" "0xffffffff = (mask 32 :: u64)" by (simp_all add: mask_eq_exp_minus_1)
    have x: "(word_of_nat vector :: u64) AND 0xff = word_of_nat vector"
      using v uv unfolding m by (simp add: word_unat_eq_iff unat_masked)
    have "unat ((word_of_nat vector :: u64) AND 0xffffffff) = vector" "unat (drop_bit 32 (word_of_nat vector :: u64) AND 0xffffffff) = 0"
      using v uv unfolding m unat_masked unat_drop by simp_all
    then have y: "(word_of_nat vector :: u64) AND 0xffffffff = word_of_nat vector"
      "drop_bit 32 (word_of_nat vector :: u64) AND 0xffffffff = 0" using uv by (simp_all add: word_unat_eq_iff)
    have "ucast (word_of_nat vector :: u64) = (word_of_nat vector :: u32)"
      by (simp add: word_unat_eq_iff unsigned_ucast_eq unat_of_nat take_bit_eq_mod mod_mod_cancel)
    then show "pin_entry reg (ioapic_enable H a (word_of_nat k) (word_of_nat vector) h) pin =
       (if pin = k then (word_of_nat vector, 0) else pin_entry reg h pin)"
      unfolding ioapic_enable_def i x pin_entry_write [OF assms k] y by simp
  qed
qed

text \<open>A machine whose only device is an I/O APIC at the usual address.\<close>

definition example_ioapic :: "(u8 \<times> (u8 \<Rightarrow> u32)) cpu_hardware" where
  "example_ioapic = \<lparr>io_in8 = (\<lambda>_ h. (0, h)), io_out8 = (\<lambda>_ _ h. h), io_in32 = (\<lambda>_ h. (0, h)), io_out32 = (\<lambda>_ _ h. h),
     mmio_read = (\<lambda>a h. (if a = PHYS_TO_VIRT 0xfec00010 then snd h (fst h) else 0, h)),
     mmio_write = (\<lambda>a v h. if a = PHYS_TO_VIRT 0xfec00010 then (fst h, (snd h)(fst h := v)) else h),
     mmio_write8 = (\<lambda>a v h. if a = PHYS_TO_VIRT 0xfec00000 then (v, snd h) else h),
     mmio_read64 = (\<lambda>_ h. (0, h)), mmio_write64 = (\<lambda>_ _ h. h), rdmsr = (\<lambda>_ h. (0, h)), wrmsr = (\<lambda>_ _ h. h),
     cpuid = (\<lambda>_ _. (0, 0, 0, 0))\<rparr>"

lemma ioapic_masks_and_enables_witness:
  "let a = \<lparr>local_apic_address = 0xfee00000, number_of_cores = 1, lapic_id = replicate 256 0, number_of_ioapic = 1,
         ioapic = \<lparr>index_addr = 0xfec00000, data_addr = 0xfec00010, EOI_addr = 0xfec00040\<rparr> # replicate 7 zero_ioapic\<rparr>;
       h = ioapic_init example_ioapic a (0, \<lambda>_. 7)
   in pin_entry snd h 2 = (0x10000, 0) \<and> pin_entry snd (ioapic_enable example_ioapic a 2 0x20 h) 2 = (0x20, 0) \<and>
      pin_entry snd (ioapic_enable example_ioapic a 1 0x21 h) 2 = (0x10000, 0)"
proof -
  define a where "a = \<lparr>local_apic_address = 0xfee00000, number_of_cores = 1, lapic_id = replicate 256 0, number_of_ioapic = 1,
         ioapic = \<lparr>index_addr = 0xfec00000, data_addr = 0xfec00010, EOI_addr = 0xfec00040\<rparr> # replicate 7 zero_ioapic\<rparr>"
  define h where "h = ioapic_init example_ioapic a (0, \<lambda>_. 7)"
  have "ioapic_device example_ioapic (PHYS_TO_VIRT (index_addr (ioapic a ! 0))) (PHYS_TO_VIRT (data_addr (ioapic a ! 0))) fst snd"
    by (simp add: ioapic_device_def example_ioapic_def a_def)
  note T = ioapic_masks_and_enables [OF this, of 2]
  have "pin_entry snd h 2 = (0x10000, 0)" using T [of "(0, \<lambda>_. 7)"] by (simp add: h_def)
  moreover have "pin_entry snd (ioapic_enable example_ioapic a (word_of_nat k) (word_of_nat v) h) 2 =
      (if 2 = k then (word_of_nat v, 0) else pin_entry snd h 2)" if "k < 24" "v < 256" for k v
    using T [of h] that by simp
  from this [of 2 "0x20"] this [of 1 "0x21"] calculation show ?thesis
    unfolding Let_def a_def [symmetric] h_def [symmetric] by simp
qed

subsection \<open>Messages between processors\<close>

definition ICR_DELIVER_MODE_INIT :: u8 where "ICR_DELIVER_MODE_INIT = 5"
definition ICR_DELIVER_MODE_START_UP :: u8 where "ICR_DELIVER_MODE_START_UP = 6"
definition ICR_DEST_MODE_PHY :: u8 where "ICR_DEST_MODE_PHY = 0"
definition ICR_LEVEL_DE_ASSEST :: u8 where "ICR_LEVEL_DE_ASSEST = 0"
definition ICR_TRIGGER_EDGE :: u8 where "ICR_TRIGGER_EDGE = 0"
definition ICR_DELIVER_STATUS_IDLE :: u8 where "ICR_DELIVER_STATUS_IDLE = 0"
definition ICR_ALL_EXCLUDE_SELF :: u8 where "ICR_ALL_EXCLUDE_SELF = 3"

definition make_icr :: "u8 \<Rightarrow> u8 \<Rightarrow> u8 \<Rightarrow> u8 \<Rightarrow> u8 \<Rightarrow> u8 \<Rightarrow> u8 \<Rightarrow> u32 \<Rightarrow> u64" where
  "make_icr vector deliver_mode dest_mode deliver_status level trigger des_shorthand destination =
     (ucast vector AND 0xff) OR push_bit 8 (ucast deliver_mode AND 0x07) OR push_bit 11 (ucast dest_mode AND 1) OR
     push_bit 12 (ucast deliver_status AND 1) OR push_bit 14 (ucast level AND 1) OR push_bit 15 (ucast trigger AND 1) OR
     push_bit 18 (ucast des_shorthand AND 0x03) OR push_bit 32 (ucast destination)"

definition send_ipi :: "'h cpu_hardware \<Rightarrow> apic_t \<Rightarrow> u64 \<Rightarrow> 'h \<Rightarrow> 'h" where
  "send_ipi H a icr h = local_apic_write H a 0x300 (ucast (icr AND 0xffffffff)) (local_apic_write H a 0x310 (ucast (drop_bit 32 icr)) h)"

text \<open>The end of \<^verbatim>\<open>smp_init\<close>, and \<^verbatim>\<open>smp_start\<close> up to its wait; \<open>flag\<close> reads \<^verbatim>\<open>AP_START_FLAG\<close>.\<close>

definition init_ipi :: "'h cpu_hardware \<Rightarrow> apic_t \<Rightarrow> 'h \<Rightarrow> 'h" where
  "init_ipi H a = send_ipi H a (make_icr 0 ICR_DELIVER_MODE_INIT ICR_DEST_MODE_PHY ICR_DELIVER_STATUS_IDLE
     ICR_LEVEL_DE_ASSEST ICR_TRIGGER_EDGE ICR_ALL_EXCLUDE_SELF 0)"

partial_function (option) wait_started :: "('h \<Rightarrow> u64 \<times> 'h) \<Rightarrow> u64 \<Rightarrow> 'h \<Rightarrow> 'h option" where
  "wait_started flag n h = (let (v, h) = flag h in if v \<noteq> n then wait_started flag n h else Some h)"

definition smp_start :: "'h cpu_hardware \<Rightarrow> apic_t \<Rightarrow> ('h \<Rightarrow> u64 \<times> 'h) \<Rightarrow> 'h \<Rightarrow> 'h option" where
  "smp_start H a flag h =
     (let icr = make_icr 0x10 ICR_DELIVER_MODE_START_UP ICR_DEST_MODE_PHY ICR_DELIVER_STATUS_IDLE
            ICR_LEVEL_DE_ASSEST ICR_TRIGGER_EDGE ICR_ALL_EXCLUDE_SELF 0;
          h = send_ipi H a icr (send_ipi H a icr h)
      in wait_started flag (ucast (number_of_cores a) - 1) h)"

text \<open>The fields of a message are where the controller looks for them.\<close>

theorem make_icr_fields:
  fixes vec dmode dmod stat lvl trig sh :: u8 and dst :: u32
  defines "icr \<equiv> make_icr vec dmode dmod stat lvl trig sh dst"
  shows "ucast icr = vec \<and> (drop_bit 8 icr AND 7) = ucast dmode AND 7 \<and> bit icr 11 = bit dmod 0 \<and> bit icr 12 = bit stat 0 \<and>
    bit icr 14 = bit lvl 0 \<and> bit icr 15 = bit trig 0 \<and> (drop_bit 18 icr AND 3) = ucast sh AND 3 \<and>
    ucast (drop_bit 32 icr) = dst"
proof -
  have m: "0xff = (mask 8 :: u64)" "7 = (mask 3 :: u64)" "1 = (mask 1 :: u64)" "3 = (mask 2 :: u64)"
    by (simp_all add: mask_eq_exp_minus_1)
  note D = icr_def make_icr_def m
  have "ucast icr = vec"
    unfolding D by (intro bit_word_eqI) (simp add: bit_simps)
  moreover have "(drop_bit 8 icr AND mask 3) = ucast dmode AND mask 3"
  proof (rule bit_word_eqI)
    fix n :: nat
    consider "n = 0" | "n = 1" | "n = 2" | "3 \<le> n" by linarith
    then show "bit (drop_bit 8 icr AND mask 3) n = bit (ucast dmode AND mask 3 :: u64) n"
      unfolding D by cases (simp_all add: bit_simps)
  qed
  moreover have "(drop_bit 18 icr AND mask 2) = ucast sh AND mask 2"
  proof (rule bit_word_eqI)
    fix n :: nat
    consider "n = 0" | "n = 1" | "2 \<le> n" by linarith
    then show "bit (drop_bit 18 icr AND mask 2) n = bit (ucast sh AND mask 2 :: u64) n"
      unfolding D by cases (simp_all add: bit_simps)
  qed
  moreover have "bit icr 11 = bit dmod 0" "bit icr 12 = bit stat 0" "bit icr 14 = bit lvl 0" "bit icr 15 = bit trig 0"
    unfolding D by (simp_all add: bit_simps)
  moreover have "ucast (drop_bit 32 icr) = dst"
    unfolding D by (intro bit_word_eqI) (simp add: bit_simps)
  ultimately show ?thesis unfolding m by blast
qed

subsection \<open>The processor\<close>

text \<open>The twelve words of the name.\<close>

definition cpu_name :: "'h cpu_hardware \<Rightarrow> u32 list" where
  "cpu_name H = concat (map (\<lambda>i. let (a, b, c, d) = cpuid H i 0 in [a, b, c, d]) [0x80000002, 0x80000003, 0x80000004])"

text \<open>The name of the hypervisor is compared byte by byte with two names at once.\<close>

definition hypervisor_name :: "'h cpu_hardware \<Rightarrow> u8 list" where
  "hypervisor_name H = (let (a, b, c, d) = cpuid H 0x40000000 0
     in le_bytes 4 (unat b) @ le_bytes 4 (unat c) @ le_bytes 4 (unat d) @ [0])"

definition TCG_name :: "u8 list" where
  "TCG_name = [0x54, 0x43, 0x47, 0x54, 0x43, 0x47, 0x54, 0x43, 0x47, 0x54, 0x43, 0x47, 0]"

definition KVM_name :: "u8 list" where
  "KVM_name = [0x4b, 0x56, 0x4d, 0x4b, 0x56, 0x4d, 0x4b, 0x56, 0x4d, 0, 0, 0, 0]"

definition is_virtual_machine :: "'h cpu_hardware \<Rightarrow> bool" where
  "is_virtual_machine H = list_all (\<lambda>(s, t, k). s = t \<or> s = k) (zip (hypervisor_name H) (zip TCG_name KVM_name))"

definition is_bsp :: "'h cpu_hardware \<Rightarrow> 'h \<Rightarrow> bool \<times> 'h" where
  "is_bsp H h = (let (v, h) = rdmsr H IA32_APIC_BASE h in (v AND IA32_APIC_BASE_BSP \<noteq> 0, h))"

definition apic_id :: "'h cpu_hardware \<Rightarrow> u32" where
  "apic_id H = (let (a, b, c, d) = cpuid H 1 0 in drop_bit 24 b AND 0xff)"

definition check_sse :: "'h cpu_hardware \<Rightarrow> status_t" where
  "check_sse H = (let (a, b, c, d) = cpuid H 1 0 in if d AND push_bit 24 3 \<noteq> 0 then K_SUCCESS else K_HW_NOSUPPORT)"

text \<open>SSE needs both bits, FXSR (24) and SSE (25); the test is content with one.\<close>

lemma check_sse_one_bit:
  "check_sse H = K_SUCCESS \<longleftrightarrow> (let (a, b, c, d) = cpuid H 1 0 in bit d 24 \<or> bit d 25)"
proof -
  have "d AND push_bit 24 3 \<noteq> 0 \<longleftrightarrow> bit d 24 \<or> bit d 25" for d :: u32
  proof -
    have p: "push_bit 24 3 = (push_bit 24 (mask 2) :: u32)" by (simp add: mask_eq_exp_minus_1)
    have "n < 32 \<Longrightarrow> bit (d AND push_bit 24 3) n \<longleftrightarrow> (n = 24 \<or> n = 25) \<and> bit d n" for n
      unfolding p by (auto simp: bit_simps)
    moreover have "n < 32" if "bit w n" for w :: u32 and n using bit_imp_le_length [OF that] by simp
    ultimately have b: "bit (d AND push_bit 24 3) 24 = bit d 24" "bit (d AND push_bit 24 3) 25 = bit d 25"
      "\<And>n. bit (d AND push_bit 24 3) n \<Longrightarrow> n = 24 \<or> n = 25"
      by (simp, simp, metis)
    show ?thesis
    proof
      assume "d AND push_bit 24 3 \<noteq> 0"
      then have "\<exists>n. bit (d AND push_bit 24 3) n" by (simp only: bit_eq_iff bit_0_eq bot_apply bot_bool_def) blast
      then obtain n where "bit (d AND push_bit 24 3) n" ..
      then show "bit d 24 \<or> bit d 25" using b by metis
    next
      assume "bit d 24 \<or> bit d 25"
      moreover have "\<not> bit (0 :: u32) n" for n by simp
      ultimately show "d AND push_bit 24 3 \<noteq> 0" using b(1,2) by metis
    qed
  qed
  then show ?thesis by (auto simp: check_sse_def Let_def case_prod_beta)
qed

lemma le_bytes_4_list:
  "le_bytes 4 x = [word_of_nat (x mod 256), word_of_nat (x div 256 mod 256), word_of_nat (x div 65536 mod 256),
     word_of_nat (x div 16777216 mod 256)]"
proof -
  have n: "(4 :: nat) = Suc (Suc (Suc (Suc 0)))" by simp
  have d: "x div 65536 = x div 256 div 256" "x div 16777216 = x div 256 div 256 div 256" by (simp_all flip: div_mult2_eq)
  show ?thesis unfolding d by (subst n) (simp only: le_bytes.simps)
qed

lemma is_virtual_machine_mixed:
  assumes "cpuid H 0x40000000 0 = (0, 0x4b475654, 0x56544d43, 0x00430047)"
  shows "is_virtual_machine H"
  by (simp add: is_virtual_machine_def hypervisor_name_def assms le_bytes_4_list TCG_name_def KVM_name_def)

subsection \<open>System calls\<close>

text \<open>\<open>syscall_entry\<close> is the address of the assembly entry.\<close>

definition syscall_init :: "'h cpu_hardware \<Rightarrow> addr \<Rightarrow> 'h \<Rightarrow> 'h" where
  "syscall_init H syscall_entry h =
     (let (val, h) = rdmsr H IA32_EFER h;
          h = wrmsr H IA32_EFER (val OR IA32_EFER_SCE) h;
          h = wrmsr H IA32_LSTAR syscall_entry h;
          val = push_bit 32 (ucast SELECTOR_CODE64_K) OR push_bit 48 (ucast (SELECTOR_CODE64_U - 16));
          h = wrmsr H IA32_STAR val h
      in wrmsr H IA32_FMASK EFLAGS_IF_1 h)"

text \<open>The registers keep what is written to them; \<open>msr\<close> reads them off the hardware's state.\<close>

definition msr_device :: "'h cpu_hardware \<Rightarrow> ('h \<Rightarrow> u64 \<Rightarrow> u64) \<Rightarrow> bool" where
  "msr_device H msr \<longleftrightarrow> (\<forall>i v h. msr (wrmsr H i v h) = (msr h)(i := v)) \<and>
     (\<forall>i h. fst (rdmsr H i h) = msr h i \<and> msr (snd (rdmsr H i h)) = msr h)"

text \<open>The selectors that \<^verbatim>\<open>syscall\<close> and \<^verbatim>\<open>sysret\<close> load.\<close>

definition syscall_cs :: "u64 \<Rightarrow> u16" where "syscall_cs star = ucast (drop_bit 32 star)"
definition syscall_ss :: "u64 \<Rightarrow> u16" where "syscall_ss star = ucast (drop_bit 32 star) + 8"
definition sysret_cs :: "u64 \<Rightarrow> u16" where "sysret_cs star = ucast (drop_bit 48 star) + 16"
definition sysret_ss :: "u64 \<Rightarrow> u16" where "sysret_ss star = ucast (drop_bit 48 star) + 8"

text \<open>C35: After \<^verbatim>\<open>syscall_init\<close> the instruction enters at the handler with interrupts off, in the kernel's
  segments, and returns to the segments of user mode with privilege 3, as the descriptor tables define them.\<close>

theorem syscall_init_correct:
  fixes H :: "'h cpu_hardware" and syscall_entry :: addr
  assumes "msr_device H msr" and "tables_ok cpus t"
  defines "m' \<equiv> \<lambda>h. msr (syscall_init H syscall_entry h)"
  shows "bit (m' h IA32_EFER) 0 \<and> m' h IA32_LSTAR = syscall_entry \<and> m' h IA32_FMASK = EFLAGS_IF_1 \<and>
    selected t (syscall_cs (m' h IA32_STAR)) = make_segmdesc 0 0 AR_CODE64 \<and>
    selected t (syscall_ss (m' h IA32_STAR)) = make_segmdesc 0 0 AR_DATA64 \<and>
    selected t (sysret_cs (m' h IA32_STAR)) = make_segmdesc 0 0 AR_CODE64_DPL3 \<and>
    selected t (sysret_ss (m' h IA32_STAR)) = make_segmdesc 0 0 AR_DATA64_DPL3 \<and>
    sysret_cs (m' h IA32_STAR) AND 3 = 3 \<and> sysret_ss (m' h IA32_STAR) AND 3 = 3"
proof -
  obtain v h1 where r: "rdmsr H IA32_EFER h = (v, h1)" by force
  have m: "m' h = (msr h)(IA32_EFER := v OR IA32_EFER_SCE, IA32_LSTAR := syscall_entry,
      IA32_STAR := push_bit 32 (ucast SELECTOR_CODE64_K) OR push_bit 48 (ucast (SELECTOR_CODE64_U - 16)), IA32_FMASK := EFLAGS_IF_1)"
    using assms(1) r unfolding m'_def syscall_init_def Let_def msr_device_def by (metis case_prod_conv snd_conv)
  have star: "m' h IA32_STAR = 0x0013000800000000"
    by (simp add: m IA32_STAR_def IA32_FMASK_def SELECTOR_CODE64_K_def SELECTOR_CODE64_U_def push_bit_eq_mult)
  have sel: "syscall_cs (m' h IA32_STAR) = SELECTOR_CODE64_K" "syscall_ss (m' h IA32_STAR) = SELECTOR_DATA64_K"
    "sysret_cs (m' h IA32_STAR) = SELECTOR_CODE64_U" "sysret_ss (m' h IA32_STAR) = SELECTOR_DATA64_U"
    unfolding star by (simp_all add: syscall_cs_def syscall_ss_def sysret_cs_def sysret_ss_def SELECTOR_CODE64_K_def
        SELECTOR_DATA64_K_def SELECTOR_CODE64_U_def SELECTOR_DATA64_U_def push_bit_eq_mult drop_bit_eq_div)
  have "bit (m' h IA32_EFER) 0"
    by (simp add: m IA32_STAR_def IA32_FMASK_def IA32_EFER_def IA32_LSTAR_def IA32_EFER_SCE_def bit_or_iff)
  moreover have "m' h IA32_LSTAR = syscall_entry" "m' h IA32_FMASK = EFLAGS_IF_1"
    by (simp_all add: m IA32_STAR_def IA32_FMASK_def IA32_LSTAR_def)
  moreover have "SELECTOR_CODE64_U AND 3 = 3" "SELECTOR_DATA64_U AND 3 = 3"
    by (simp_all add: SELECTOR_CODE64_U_def SELECTOR_DATA64_U_def push_bit_eq_mult)
  ultimately show ?thesis using assms(2) by (simp add: sel tables_ok_def)
qed

definition example_msrs :: "(u64 \<Rightarrow> u64) cpu_hardware" where
  "example_msrs = \<lparr>io_in8 = (\<lambda>_ h. (0, h)), io_out8 = (\<lambda>_ _ h. h), io_in32 = (\<lambda>_ h. (0, h)), io_out32 = (\<lambda>_ _ h. h),
     mmio_read = (\<lambda>_ h. (0, h)), mmio_write = (\<lambda>_ _ h. h), mmio_write8 = (\<lambda>_ _ h. h), mmio_read64 = (\<lambda>_ h. (0, h)),
     mmio_write64 = (\<lambda>_ _ h. h), rdmsr = (\<lambda>i h. (h i, h)), wrmsr = (\<lambda>i v h. h(i := v)), cpuid = (\<lambda>_ _. (0, 0, 0, 0))\<rparr>"

lemma syscall_init_correct_witness:
  "syscall_init example_msrs 0xffffffff80101000 (\<lambda>_. 0) IA32_LSTAR = 0xffffffff80101000 \<and>
   sysret_cs (syscall_init example_msrs 0xffffffff80101000 (\<lambda>_. 0) IA32_STAR) AND 3 = 3"
proof -
  define t where "t = \<lparr>gdt_table = replicate 8192 (make_segmdesc 1 1 1), tss = (\<lambda>_. zero_tss),
       gdt_base = 0xffffffff80100000, tss_base = 0xffffffff80123450, gdtr = (0, 0), tr = 0\<rparr>"
  have "tables_ok {0} (init_desc t)" using init_desc_ok [of t] by (simp add: t_def)
  moreover have "msr_device example_msrs (\<lambda>h. h)" by (simp add: msr_device_def example_msrs_def)
  ultimately show ?thesis using syscall_init_correct [of example_msrs "\<lambda>h. h"] by blast
qed

end
