(* ===== verification/Timer.thy ===== *)
theory Timer
  imports Apic SoftIrq Intr KernServices
begin

text \<open>
  The timers, \<^verbatim>\<open>device/timer/timer.c\<close>, and the keyboard, \<^verbatim>\<open>device/keyboard/ps2_keyboard.c\<close> and
  \<^verbatim>\<open>device/keyboard/service/keyboard.c\<close>: registers that are programmed, and the halves of their
  interrupts that run at once and as software interrupts.
\<close>

definition HPET_DEFAULT_ADDRESS :: addr where "HPET_DEFAULT_ADDRESS = 0xfed00000"
definition HPET_GCAP_ID :: u64 where "HPET_GCAP_ID = 0"
definition HPET_GEN_CONF :: u64 where "HPET_GEN_CONF = 0x10"
definition HPET_MAIN_CNT :: u64 where "HPET_MAIN_CNT = 0xf0"
definition HPET_TIME0_CONF :: u64 where "HPET_TIME0_CONF = 0x100"
definition HPET_TIME0_COMP :: u64 where "HPET_TIME0_COMP = 0x108"
definition INPUT_FREQUENCY :: u64 where "INPUT_FREQUENCY = 1193180"
definition IRQ0_FREQUENCY :: u64 where "IRQ0_FREQUENCY = 1000"
definition COUNTER0_VALUE_LO :: u64 where "COUNTER0_VALUE_LO = (INPUT_FREQUENCY div IRQ0_FREQUENCY) AND 0xff"
definition COUNTER0_VALUE_HI :: u64 where "COUNTER0_VALUE_HI = drop_bit 8 (INPUT_FREQUENCY div IRQ0_FREQUENCY) AND 0xff"
definition PIT_CTRL :: u32 where "PIT_CTRL = 0x0043"
definition PIT_CNT0 :: u32 where "PIT_CNT0 = 0x0040"
definition SOFTIRQ_TIMER :: u8 where "SOFTIRQ_TIMER = 0"
definition SOFTIRQ_KEYBOARD :: u8 where "SOFTIRQ_KEYBOARD = 1"
definition KEYBOARD_WRITE_MD :: u32 where "KEYBOARD_WRITE_MD = 0x60"
definition KEYBOARD_DATA_PORT :: u32 where "KEYBOARD_DATA_PORT = 0x60"
definition KEYBOARD_STA_PORT :: u32 where "KEYBOARD_STA_PORT = 0x64"
definition KEYBOARD_CMD_PORT :: u32 where "KEYBOARD_CMD_PORT = 0x64"
definition KEYBOARD_NOTREADY :: u32 where "KEYBOARD_NOTREADY = 0x02"

subsection \<open>The state\<close>

text \<open>The handlers and software interrupts that the drivers of this theory register.\<close>

datatype device_handler = TimerHandler | ApicTimerHandler | KeyboardHandler
datatype device_action = TimerSoftirq | KeyboardSoftirq

record 'h devices =
  hw :: 'h
  irqs :: "device_handler intr_state"
  softirqs :: "device_action softirq"
  current_ticks :: u64
  hpet_addr :: addr
  period_fs :: u64
  scancode :: u8

subsection \<open>Interrupts of the timers\<close>

definition timer_handler :: "'h cpu_hardware \<Rightarrow> apic_t \<Rightarrow> 'h devices \<Rightarrow> 'h devices option" where
  "timer_handler H a d = do {
     let d = d\<lparr>hw := send_eoi H a (hw d)\<rparr>;
     si \<leftarrow> raise_softirq SOFTIRQ_TIMER (softirqs d);
     Some (d\<lparr>softirqs := si, current_ticks := current_ticks d + 1\<rparr>) }"

text \<open>The interrupt of the processor's own timer charges the running task.\<close>

definition apic_timer_handler ::
  "'h cpu_hardware \<Rightarrow> apic_t \<Rightarrow> 'h devices \<times> 'a kernel_state_scheme \<Rightarrow> ('h devices \<times> 'a kernel_state_scheme) option" where
  "apic_timer_handler H a = (\<lambda>(d, s). do {
     let d = d\<lparr>hw := send_eoi H a (hw d)\<rparr>;
     s \<leftarrow> task_update s;
     Some (d, s) })"

definition TICK :: int where "TICK = SERVICE_ID_BASE"
definition KBD_SRV :: int where "KBD_SRV = SERVICE_ID_BASE + 4"

definition timer_softirq :: "'a kernel_state_scheme \<Rightarrow> 'a kernel_state_scheme option" where
  "timer_softirq s = inform_intr TICK s"

definition get_current_ticks :: "'h devices \<Rightarrow> u64" where
  "get_current_ticks d = current_ticks d"

subsection \<open>Start\<close>

text \<open>The division by the period faults when the device reports none.\<close>

definition init_hpet :: "'h cpu_hardware \<Rightarrow> 'h devices \<Rightarrow> (status_t \<times> 'h devices) option" where
  "init_hpet H d = do {
     let addr = PHYS_TO_VIRT HPET_DEFAULT_ADDRESS;
     let (cap, h) = mmio_read64 H (addr + HPET_GCAP_ID) (hw d);
     let p = drop_bit 32 cap AND 0xffffffff;
     let d = d\<lparr>hpet_addr := addr, period_fs := p\<rparr>;
     let h = mmio_write64 H (addr + HPET_GEN_CONF) 3 h;
     let h = mmio_write64 H (addr + HPET_TIME0_CONF) 0x004c h;
     assert (p \<noteq> 0);
     let h = mmio_write64 H (addr + HPET_TIME0_COMP) (IRQ0_FREQUENCY * 1000000000 div p) h;
     let h = mmio_write64 H (addr + HPET_MAIN_CNT) 0 h;
     let (cv, h) = mmio_read64 H (addr + HPET_MAIN_CNT) h;
     let d = d\<lparr>hw := h\<rparr>;
     Some (if cv = 0 then K_HW_NOSUPPORT else K_SUCCESS, d) }"

definition init_8254pit :: "'h cpu_hardware \<Rightarrow> 'h \<Rightarrow> 'h" where
  "init_8254pit H h =
     (let h = io_out8 H PIT_CTRL 0x34 h;
          h = io_out8 H PIT_CNT0 (ucast COUNTER0_VALUE_LO) h
      in io_out8 H PIT_CNT0 (ucast COUNTER0_VALUE_HI) h)"

definition pit_init :: "'h cpu_hardware \<Rightarrow> apic_t \<Rightarrow> 'h devices \<Rightarrow> 'h devices option" where
  "pit_init H a d = do {
     let d = d\<lparr>current_ticks := 0\<rparr>;
     let d = d\<lparr>irqs := register_handle 0x20 TimerHandler (irqs d)\<rparr>;
     let d = d\<lparr>irqs := register_handle 0x80 ApicTimerHandler (irqs d)\<rparr>;
     si \<leftarrow> register_softirq SOFTIRQ_TIMER TimerSoftirq NULL (softirqs d);
     let d = d\<lparr>softirqs := si\<rparr>;
     let d = d\<lparr>hw := ioapic_enable H a 2 0x20 (hw d)\<rparr>;
     (status, d) \<leftarrow> init_hpet H d;
     Some (if ERROR status then d\<lparr>hw := init_8254pit H (hw d)\<rparr> else d) }"

definition get_nano_time :: "'h cpu_hardware \<Rightarrow> 'h devices \<Rightarrow> u64 \<times> 'h devices" where
  "get_nano_time H d =
     (if period_fs d \<noteq> 0
      then let (cv, h) = mmio_read64 H (hpet_addr d + HPET_MAIN_CNT) (hw d)
           in (cv * period_fs d div 1000000, d\<lparr>hw := h\<rparr>)
      else (current_ticks d * IRQ0_FREQUENCY * 1000, d))"

text \<open>
  Calibration of the processor's timer. \<open>now\<close> reads \<^verbatim>\<open>current_ticks\<close>, which the interrupt of the
  other timer counts up meanwhile.
\<close>

partial_function (option) wait_ticks :: "('h \<Rightarrow> u64 \<times> 'h) \<Rightarrow> u32 \<Rightarrow> 'h \<Rightarrow> 'h option" where
  "wait_ticks now deadline h = (let (t, h) = now h in if ucast deadline \<ge> t then wait_ticks now deadline h else Some h)"

definition apic_timer_init :: "'h cpu_hardware \<Rightarrow> apic_t \<Rightarrow> ('h \<Rightarrow> u64 \<times> 'h) \<Rightarrow> 'h \<Rightarrow> 'h option" where
  "apic_timer_init H a now h = do {
     let h = local_apic_write H a APIC_REG_TPR 0 h;
     let h = local_apic_write H a APIC_REG_TIMER_DIV 3 h;
     let h = local_apic_write H a APIC_REG_TIMER_ICNT 0xffffffff h;
     let (t, h) = now h;
     h \<leftarrow> wait_ticks now (ucast (t + MS_TO_TICKS 10)) h;
     let h = local_apic_write H a APIC_REG_LVT_TIMER 0x10000 h;
     let (c, h) = local_apic_read H a APIC_REG_TIMER_CCNT h;
     let apic_ticks = (- c) div 10;
     let h = local_apic_write H a APIC_REG_LVT_TIMER (0x80 OR 0x20000) h;
     let h = local_apic_write H a APIC_REG_TIMER_DIV 3 h;
     Some (local_apic_write H a APIC_REG_TIMER_ICNT apic_ticks h) }"

subsection \<open>The keyboard\<close>

partial_function (option) wait_keyboard_read :: "'h cpu_hardware \<Rightarrow> 'h \<Rightarrow> 'h option" where
  "wait_keyboard_read H h =
     (let (v, h) = io_in8 H KEYBOARD_STA_PORT h in
      if v AND KEYBOARD_NOTREADY \<noteq> 0 then wait_keyboard_read H h else Some h)"

definition intr_keyboard_handler :: "'h cpu_hardware \<Rightarrow> apic_t \<Rightarrow> 'h devices \<Rightarrow> 'h devices option" where
  "intr_keyboard_handler H a d = do {
     let h = send_eoi H a (hw d);
     let (c, h) = io_in8 H KEYBOARD_DATA_PORT h;
     si \<leftarrow> raise_softirq SOFTIRQ_KEYBOARD (softirqs d);
     Some (d\<lparr>hw := h, scancode := ucast c, softirqs := si\<rparr>) }"

definition keyboard_softirq :: "'a kernel_state_scheme \<Rightarrow> 'a kernel_state_scheme option" where
  "keyboard_softirq s = inform_intr KBD_SRV s"

text \<open>\<open>code_ptr\<close> is the address of the variable with the code.\<close>

definition ps2_keyboard_init :: "'h cpu_hardware \<Rightarrow> apic_t \<Rightarrow> addr \<Rightarrow> 'h devices \<Rightarrow> 'h devices option" where
  "ps2_keyboard_init H a code_ptr d = do {
     h \<leftarrow> wait_keyboard_read H (hw d);
     let h = io_out8 H KEYBOARD_CMD_PORT KEYBOARD_WRITE_MD h;
     h \<leftarrow> wait_keyboard_read H h;
     let h = io_out8 H KEYBOARD_DATA_PORT 0x47 h;
     let d = d\<lparr>irqs := register_handle 0x21 KeyboardHandler (irqs d)\<rparr>;
     si \<leftarrow> register_softirq SOFTIRQ_KEYBOARD KeyboardSoftirq code_ptr (softirqs d);
     Some (d\<lparr>softirqs := si, hw := ioapic_enable H a 1 0x21 h\<rparr>) }"

text \<open>The flags of the keyboard service. The analysis of codes is commented out, so a round does nothing.\<close>

record kbd_flags =
  ctrl_status :: bool
  shift_status :: bool
  alt_status :: bool
  capslock_status :: bool
  ext_scandcode :: bool

definition kbd_start :: kbd_flags where
  "kbd_start = \<lparr>ctrl_status = False, shift_status = False, alt_status = False, capslock_status = False, ext_scandcode = False\<rparr>"

definition analysis_key :: "kbd_flags \<Rightarrow> kbd_flags" where
  "analysis_key k = k"

definition keyboard_round :: "message \<Rightarrow> kbd_flags \<Rightarrow> kbd_flags" where
  "keyboard_round mg k = (if mtype mg = word_of_int RECV_FROM_INT then analysis_key k else k)"

subsection \<open>From an interrupt to a message\<close>

text \<open>The kernel as the software interrupts see it; \<open>None\<close> when it has panicked.\<close>

definition action_effect ::
  "device_action \<Rightarrow> addr \<Rightarrow> 'a kernel_state_scheme option \<Rightarrow> 'a kernel_state_scheme option" where
  "action_effect ac dat w = Option.bind w (case ac of TimerSoftirq \<Rightarrow> timer_softirq | KeyboardSoftirq \<Rightarrow> keyboard_softirq)"

definition run_action ::
  "device_action \<Rightarrow> addr \<Rightarrow> device_action softirq \<times> 'a kernel_state_scheme option \<Rightarrow>
     device_action softirq \<times> 'a kernel_state_scheme option" where
  "run_action = plain action_effect"

lemma timer_raised:
  assumes "irq_status si = 1" and "actions si ! 0 = (Some TimerSoftirq, dat)"
  shows "do_softirq run_action (si, Some s) = Some (si\<lparr>irq_status := 0\<rparr>, inform_intr TICK s)"
proof -
  have b: "bit (1 :: u64) k \<longleftrightarrow> k = 0" for k by (simp add: bit_1_iff)
  have f: "filter (bit (1 :: u64)) [0..<64] = [0]"
    by (simp add: b upt_conv_Cons [of 0 64] filter_empty_conv)
  have "softirq_from (plain action_effect) [0..<64] (si\<lparr>irq_intr_on := True\<rparr>, Some s) =
      Some (si\<lparr>irq_intr_on := True\<rparr>\<lparr>irq_status := 0\<rparr>,
        fold (act action_effect (si\<lparr>irq_intr_on := True\<rparr>)) (filter (bit (irq_status (si\<lparr>irq_intr_on := True\<rparr>))) [0..<64]) (Some s))"
    by (rule softirq_from_all) (use assms in \<open>auto simp: b sorted_wrt_upt\<close>)
  then show ?thesis
    using assms by (simp add: do_softirq_def run_action_def f act_def action_effect_def timer_softirq_def)
qed



lemma init_hpet_keeps_period: "init_hpet H d = Some (K_HW_NOSUPPORT, d') \<Longrightarrow> period_fs d' \<noteq> 0"
  by (auto simp: init_hpet_def Let_def case_prod_beta split: if_splits)

text \<open>The service learns of a tick from a flag: of several ticks before it runs, it counts one.\<close>

lemma ticks_coalesce:
  assumes "timer_softirq s = Some s'"
  shows "timer_softirq s' = Some s'"
proof (cases "is_service_id TICK")
  case True
  then obtain p where p: "service_id_to_pid TICK s = Some p" using assms by (auto simp: timer_softirq_def inform_intr_def elim: bind_eq_SomeE)
  show ?thesis
  proof (cases "task_exist p s")
    case False
    then show ?thesis using assms p True by (simp add: timer_softirq_def inform_intr_def)
  next
    case ex: True
    then have s': "s' = upd_task p (has_intr_msg_update (\<lambda>_. 1)) s" using assms p True by (simp add: timer_softirq_def inform_intr_def)
    have "service_id_to_pid TICK (upd_task p f s) = service_id_to_pid TICK s" for f
      by (simp add: service_id_to_pid_def upd_task_def Let_def)
    moreover have "task_exist p (upd_task p (has_intr_msg_update f) s) = task_exist p s" for f
      by (simp add: upd_task_def task_exist_def)
    ultimately have "service_id_to_pid TICK s' = Some p" "task_exist p s'" using p ex by (simp_all add: s')
    then show ?thesis using True by (simp add: timer_softirq_def inform_intr_def) (simp add: s' upd_task_def)
  qed
qed (simp add: TICK_def is_service_id_def SERVICE_ID_BASE_def SERVICES_def)

lemma calibration: "n < 2 ^ 32 - 1 \<Longrightarrow> unat ((- (0xffffffff - word_of_nat n) :: u32) div 10) = (n + 1) div 10"
proof -
  assume n: "n < 2 ^ 32 - 1"
  have "(- (0xffffffff - word_of_nat n) :: u32) = word_of_nat (n + 1)" by simp
  then show ?thesis using n by (simp add: unat_div unat_of_nat_lt del: of_nat_add of_nat_Suc)
qed

subsection \<open>An example\<close>

text \<open>A counter of 100 MHz that stands at 5000000000.\<close>

definition tick_hardware :: "unit cpu_hardware" where
  "tick_hardware = \<lparr>io_in8 = (\<lambda>_ h. (0, h)), io_out8 = (\<lambda>_ _ h. h), io_in32 = (\<lambda>_ h. (0, h)), io_out32 = (\<lambda>_ _ h. h),
     mmio_read = (\<lambda>_ h. (0, h)), mmio_write = (\<lambda>_ _ h. h), mmio_write8 = (\<lambda>_ _ h. h),
     mmio_read64 = (\<lambda>a h. (if a = PHYS_TO_VIRT HPET_DEFAULT_ADDRESS then 0x0098968000000001 else 5000000000, h)),
     mmio_write64 = (\<lambda>_ _ h. h), rdmsr = (\<lambda>_ h. (0, h)), wrmsr = (\<lambda>_ _ h. h), cpuid = (\<lambda>_ _. (0, 0, 0, 0))\<rparr>"

definition tick_devices :: "unit devices" where
  "tick_devices = \<lparr>hw = (), irqs = \<lparr>idt = [], idt_base = 0, idtr = (0, 0), irq_handler = replicate IRQ_CNT None, intr_lock = False\<rparr>,
     softirqs = softirq_init \<lparr>irq_status = 0, actions = [], irq_intr_on = False\<rparr>, current_ticks = 7, hpet_addr = 0,
     period_fs = 0, scancode = 0\<rparr>"

definition tick_apic :: apic_t where
  "tick_apic = \<lparr>local_apic_address = 0xfee00000, number_of_cores = 1, lapic_id = replicate 256 0, number_of_ioapic = 1,
     ioapic = \<lparr>index_addr = 0xfec00000, data_addr = 0xfec00010, EOI_addr = 0xfec00040\<rparr> # replicate 7 zero_ioapic\<rparr>"

lemma tick_init: "\<exists>d. pit_init tick_hardware tick_apic tick_devices = Some d \<and> period_fs d = 10000000 \<and>
    hpet_addr d = PHYS_TO_VIRT HPET_DEFAULT_ADDRESS"
  by (simp add: pit_init_def init_hpet_def tick_devices_def Let_def register_softirq_def SOFTIRQ_TIMER_def MAX_SOFTIRQ_def
      softirq_init_def tick_hardware_def HPET_GCAP_ID_def HPET_MAIN_CNT_def drop_bit_eq_div)



end
