(* ===== verification/UserLib.thy ===== *)
theory UserLib
  imports KernServices Console Stdio
begin

text \<open>
  The library of user programs, \<^verbatim>\<open>src/ulib/ulib.c\<close>: every function fills a message, calls \<^verbatim>\<open>send_recv\<close>,
  and takes its result out of the message. And the view service, \<^verbatim>\<open>src/service/view/view.c\<close>, which copies a
  caller's picture to the screen.

  \<open>send_recv\<close> is a parameter: given the function, the partner and the message it gives the status, the
  message and the state after the call, or nothing if it does not return. \<open>kernel_call\<close> is the one that enters
  \<open>sys_send_recv\<close>, for calls that do not block.
\<close>

type_synonym 's send_recv = "u32 \<Rightarrow> pid \<Rightarrow> message \<Rightarrow> 's \<Rightarrow> (syscall_status \<times> message \<times> 's) option"

definition NR_SEND :: u32 where "NR_SEND = 0x80000000 OR FUNC_SEND"
definition NR_RECV :: u32 where "NR_RECV = 0x80000000 OR FUNC_RECV"
definition NR_BOTH :: u32 where "NR_BOTH = 0x80000000 OR FUNC_SEND OR FUNC_RECV"
definition KERN_GET_PID :: u32 where "KERN_GET_PID = 1"
definition KERN_GET_PPID :: u32 where "KERN_GET_PPID = 2"
definition KERN_CREATE_PROC :: u32 where "KERN_CREATE_PROC = 3"
definition KERN_WAITPID :: u32 where "KERN_WAITPID = 4"
definition KERN_ALLOCATE_PAGE :: u32 where "KERN_ALLOCATE_PAGE = 5"
definition KERN_FREE_PAGE :: u32 where "KERN_FREE_PAGE = 6"
definition KERN_READ_TASK_MEM :: u32 where "KERN_READ_TASK_MEM = 7"
definition VIEW_FILL :: u32 where "VIEW_FILL = 1"
definition TICK_pid :: int where "TICK_pid = SERVICE_ID_BASE"
definition VIEW_pid :: int where "VIEW_pid = SERVICE_ID_BASE + 2"

definition request :: "u32 \<Rightarrow> u64 list \<Rightarrow> message" where
  "request ty ws = zero_message\<lparr>mtype := ty, m := ws @ replicate (8 - length ws) 0\<rparr>"

definition kernel_call :: "'a proc_state_scheme send_recv" where
  "kernel_call fn p mg s =
     (case sys_send_recv fn p mg s of Some (CallReturns st mg s) \<Rightarrow> Some (st, mg, s) | _ \<Rightarrow> None)"

definition exit :: "'s send_recv \<Rightarrow> int \<Rightarrow> 's \<Rightarrow> 's option" where
  "exit sr st s = do {
     (_, _, s) \<leftarrow> sr NR_SEND SEND_TO_KERNEL (request KERN_EXIT [word_of_int st]) s;
     Some s }"

definition get_pid :: "'s send_recv \<Rightarrow> 's \<Rightarrow> (int \<times> 's) option" where
  "get_pid sr s = do {
     (_, mg, s) \<leftarrow> sr NR_SEND SEND_TO_KERNEL (request KERN_GET_PID []) s;
     Some (int_arg mg 0, s) }"

definition get_ppid :: "'s send_recv \<Rightarrow> 's \<Rightarrow> (int \<times> 's) option" where
  "get_ppid sr s = do {
     (_, mg, s) \<leftarrow> sr NR_SEND SEND_TO_KERNEL (request KERN_GET_PPID []) s;
     Some (int_arg mg 0, s) }"

definition create_process :: "'s send_recv \<Rightarrow> addr \<Rightarrow> addr \<Rightarrow> 's \<Rightarrow> (int \<times> 's) option" where
  "create_process sr name proc s = do {
     (_, mg, s) \<leftarrow> sr NR_SEND SEND_TO_KERNEL (request KERN_CREATE_PROC [name, proc]) s;
     Some (int_arg mg 0, s) }"

text \<open>The process id and what is stored in \<^verbatim>\<open>*status\<close>.\<close>

definition waitpid :: "'s send_recv \<Rightarrow> int \<Rightarrow> int \<Rightarrow> 's \<Rightarrow> (int \<times> int \<times> 's) option" where
  "waitpid sr p options s = do {
     (_, mg, s) \<leftarrow> sr NR_SEND SEND_TO_KERNEL (request KERN_WAITPID [word_of_int p, word_of_int options]) s;
     Some (int_arg mg 1, int_arg mg 0, s) }"

definition allocate_page :: "'s send_recv \<Rightarrow> 's \<Rightarrow> (addr \<times> 's) option" where
  "allocate_page sr s = do {
     (st, mg, s) \<leftarrow> sr NR_SEND SEND_TO_KERNEL (request KERN_ALLOCATE_PAGE []) s;
     Some (if st \<noteq> SYSCALL_SUCCESS then NULL else m mg ! 0, s) }"

definition free_page :: "'s send_recv \<Rightarrow> addr \<Rightarrow> 's \<Rightarrow> 's option" where
  "free_page sr a s = do {
     (_, _, s) \<leftarrow> sr NR_SEND SEND_TO_KERNEL (request KERN_FREE_PAGE [a]) s;
     Some s }"

definition read_task_addr :: "'s send_recv \<Rightarrow> int \<Rightarrow> addr \<Rightarrow> u64 \<Rightarrow> addr \<Rightarrow> 's \<Rightarrow> 's option" where
  "read_task_addr sr p a n buffer s = do {
     (_, _, s) \<leftarrow> sr NR_SEND SEND_TO_KERNEL (request KERN_READ_TASK_MEM [word_of_int p, a, n, buffer]) s;
     Some s }"

definition get_ticks :: "'s send_recv \<Rightarrow> 's \<Rightarrow> (u64 \<times> 's) option" where
  "get_ticks sr s = do {
     (_, mg, s) \<leftarrow> sr NR_BOTH TICK_pid (request TICK_GET_TICKS []) s;
     Some (m mg ! 0, s) }"

definition fill_request :: "addr \<Rightarrow> u64 \<Rightarrow> u32 \<Rightarrow> u32 \<Rightarrow> u32 \<Rightarrow> u32 \<Rightarrow> message" where
  "fill_request buffer n xs ys x y = request VIEW_FILL [buffer, n, ucast xs, ucast ys, ucast x, ucast y]"

definition fill :: "'s send_recv \<Rightarrow> addr \<Rightarrow> u64 \<Rightarrow> u32 \<Rightarrow> u32 \<Rightarrow> u32 \<Rightarrow> u32 \<Rightarrow> 's \<Rightarrow> 's option" where
  "fill sr buffer n xs ys x y s = do {
     (_, _, s) \<leftarrow> sr NR_BOTH VIEW_pid (fill_request buffer n xs ys x y) s;
     Some s }"

subsection \<open>The view service\<close>

text \<open>\<open>w\<close> are the 32-bit words of the service's buffer.\<close>

definition copy_picture :: "graph_info \<Rightarrow> (addr \<Rightarrow> u32) \<Rightarrow> addr \<Rightarrow> u32 \<Rightarrow> u32 \<Rightarrow> u32 \<Rightarrow> u32 \<Rightarrow> frame \<Rightarrow> frame" where
  "copy_picture gi w buf in_xsize in_ysize in_x in_y fr =
     fold (\<lambda>y. fold (\<lambda>x fr.
         let px = w (buf + 4 * (ucast (word_of_nat y * in_xsize) + word_of_nat x))
         in fr(pixel_at gi (in_y + word_of_nat y) (ucast in_x + word_of_nat x) := px))
       [0..<unat in_xsize]) [0..<unat in_ysize] fr"

text \<open>The state of the calls and the frame buffer; \<open>words s\<close> is the service's memory.\<close>

definition view_fill ::
  "'s send_recv \<Rightarrow> ('s \<Rightarrow> addr \<Rightarrow> u32) \<Rightarrow> graph_info \<Rightarrow> message \<Rightarrow> 's \<times> frame \<Rightarrow> ('s \<times> frame) option" where
  "view_fill sr words gi mg = (\<lambda>(s, fr). do {
     let in_buffer = m mg ! 0;
     let in_buffer_size = m mg ! 1;
     let in_xsize = ucast (m mg ! 2);
     let in_ysize = ucast (m mg ! 3);
     let in_x = ucast (m mg ! 4);
     let in_y = ucast (m mg ! 5);
     (buf, s) \<leftarrow> allocate_page sr s;
     if buf = NULL then Some (s, fr)
     else do {
       s \<leftarrow> read_task_addr sr (src mg) in_buffer in_buffer_size buf s;
       let fr = copy_picture gi (words s) buf in_xsize in_ysize in_x in_y fr;
       s \<leftarrow> free_page sr buf s;
       Some (s, fr) } })"

text \<open>One round of \<^verbatim>\<open>view_main\<close>: the message received, and the answer to its sender.\<close>

definition view_round ::
  "'s send_recv \<Rightarrow> ('s \<Rightarrow> addr \<Rightarrow> u32) \<Rightarrow> graph_info \<Rightarrow> message \<Rightarrow> 's \<times> frame \<Rightarrow> ('s \<times> frame) option" where
  "view_round sr words gi mg t =
     (if mtype mg = VIEW_FILL then do {
        (s, fr) \<leftarrow> view_fill sr words gi mg t;
        (_, _, s) \<leftarrow> sr NR_SEND (src mg) mg s;
        Some (s, fr) }
      else Some t)"

subsection \<open>A picture on the screen\<close>

lemma fold_row:
  shows "(\<And>i. i < n \<Longrightarrow> a \<noteq> f i) \<Longrightarrow> fold (\<lambda>i m. m(f i := g i)) [0..<n] fr a = fr a"
    and "inj_on f {..<n} \<Longrightarrow> i < n \<Longrightarrow> fold (\<lambda>i m. m(f i := g i)) [0..<n] fr (f i) = g i"
proof -
  show "(\<And>i. i < n \<Longrightarrow> a \<noteq> f i) \<Longrightarrow> fold (\<lambda>i m. m(f i := g i)) [0..<n] fr a = fr a"
    by (induction n) auto
  show "inj_on f {..<n} \<Longrightarrow> i < n \<Longrightarrow> fold (\<lambda>i m. m(f i := g i)) [0..<n] fr (f i) = g i"
  proof (induction n)
    case (Suc n)
    then have "inj_on f {..<n}" "f n = f i \<longleftrightarrow> i = n" by (auto simp: inj_on_def)
    then show ?case using Suc by (auto simp: less_Suc_eq)
  qed simp
qed

lemma fold_picture:
  fixes p :: "nat \<Rightarrow> nat \<Rightarrow> addr"
  shows "(\<And>i j. i < n \<Longrightarrow> j < k \<Longrightarrow> a \<noteq> p i j) \<Longrightarrow>
      fold (\<lambda>j. fold (\<lambda>i m. m(p i j := v i j)) [0..<n]) [0..<k] fr a = fr a"
    and "inj_on (\<lambda>(i, j). p i j) ({..<n} \<times> {..<k}) \<Longrightarrow> i < n \<Longrightarrow> j < k \<Longrightarrow>
      fold (\<lambda>j. fold (\<lambda>i m. m(p i j := v i j)) [0..<n]) [0..<k] fr (p i j) = v i j"
proof -
  show "(\<And>i j. i < n \<Longrightarrow> j < k \<Longrightarrow> a \<noteq> p i j) \<Longrightarrow>
      fold (\<lambda>j. fold (\<lambda>i m. m(p i j := v i j)) [0..<n]) [0..<k] fr a = fr a"
    by (induction k) (auto intro!: fold_row(1) [THEN trans])
  show "inj_on (\<lambda>(i, j). p i j) ({..<n} \<times> {..<k}) \<Longrightarrow> i < n \<Longrightarrow> j < k \<Longrightarrow>
      fold (\<lambda>j. fold (\<lambda>i m. m(p i j := v i j)) [0..<n]) [0..<k] fr (p i j) = v i j"
  proof (induction k)
    case (Suc k)
    have row: "inj_on (\<lambda>i. p i k) {..<n}"
      by (rule inj_onI) (use inj_onD [OF Suc.prems(1), of "(_, k)" "(_, k)"] in auto)
    show ?case
    proof (cases "j = k")
      case True
      then show ?thesis
        using fold_row(2) [OF row Suc.prems(2), where g = "\<lambda>i. v i k"] by (simp del: fun_upd_apply)
    next
      case False
      then have j: "j < k" using Suc.prems(3) by simp
      have "p i j \<noteq> p i' k" if "i' < n" for i'
        using inj_onD [OF Suc.prems(1), of "(i, j)" "(i', k)"] Suc.prems(2) j that by auto
      moreover have "inj_on (\<lambda>(i, j). p i j) ({..<n} \<times> {..<k})" by (rule inj_on_subset [OF Suc.prems(1)]) auto
      ultimately show ?thesis
        using fold_row(1) [of n "p i j" "\<lambda>i. p i k" "\<lambda>i. v i k"] Suc.IH Suc.prems(2) j by (simp del: fun_upd_apply)
    qed
  qed simp
qed

definition on_screen :: "graph_info \<Rightarrow> u32 \<Rightarrow> u32 \<Rightarrow> u32 \<Rightarrow> u32 \<Rightarrow> bool" where
  "on_screen gi xs ys x y \<longleftrightarrow> screen_ok gi \<and> unat x + unat xs \<le> unat (pixel_per_scanline gi) \<and>
     unat y + unat ys \<le> unat (vertical_resolution gi)"

lemma copy_picture_effect:
  assumes "on_screen gi xs ys x y"
  shows "i < unat xs \<Longrightarrow> j < unat ys \<Longrightarrow> copy_picture gi w buf xs ys x y fr (pixel gi (unat x + i) (unat y + j)) =
      w (buf + 4 * word_of_nat (j * unat xs + i))"
    and "(\<And>i j. i < unat xs \<Longrightarrow> j < unat ys \<Longrightarrow> a \<noteq> pixel gi (unat x + i) (unat y + j)) \<Longrightarrow>
      copy_picture gi w buf xs ys x y fr a = fr a"
proof -
  let ?p = "\<lambda>i j. pixel gi (unat x + i) (unat y + j)"
  let ?v = "\<lambda>i j. w (buf + 4 * word_of_nat (j * unat xs + i))"
  have S: "screen_ok gi" "unat x + unat xs \<le> unat (pixel_per_scanline gi)" "unat y + unat ys \<le> unat (vertical_resolution gi)"
    using assms by (simp_all add: on_screen_def)
  have "unat ys * unat xs \<le> unat (vertical_resolution gi) * unat (pixel_per_scanline gi)" using S by (intro mult_le_mono) simp_all
  then have prod: "unat ys * unat xs < 2 ^ 32" using S(1) by (simp add: screen_ok_def)
  have px: "pixel_at gi (y + word_of_nat j) (ucast x + word_of_nat i) = ?p i j" if "j < unat ys" for i j
  proof -
    have "y + word_of_nat j = word_of_nat (unat y + j)" "ucast x + word_of_nat i = (word_of_nat (unat x + i) :: u64)" by simp_all
    moreover have "unat y + j < unat (vertical_resolution gi)" using that S(3) by simp
    ultimately show ?thesis by (simp only: pixel_at_pixel [OF S(1)])
  qed
  have src: "buf + 4 * (ucast (word_of_nat j * xs) + word_of_nat i) = buf + 4 * word_of_nat (j * unat xs + i)" if "j < unat ys" for i j
  proof -
    have "j * unat xs \<le> unat ys * unat xs" using that by (intro mult_le_mono1) simp
    then have "j * unat xs < 2 ^ 32" using prod by linarith
    then have "ucast (word_of_nat (j * unat xs) :: u32) = (word_of_nat (j * unat xs) :: u64)" by (rule ucast_of_nat_32)
    then show ?thesis by simp
  qed
  have eq: "copy_picture gi w buf xs ys x y fr =
      fold (\<lambda>j. fold (\<lambda>i m. m(?p i j := ?v i j)) [0..<unat xs]) [0..<unat ys] fr"
    unfolding copy_picture_def Let_def by (intro fold_cong refl ext) (simp_all only: px src set_upt atLeastLessThan_iff)
  have inj: "inj_on (\<lambda>(i, j). ?p i j) ({..<unat xs} \<times> {..<unat ys})"
  proof (rule inj_onI, clarsimp)
    fix i j i' j' assume "i < unat xs" "j < unat ys" "i' < unat xs" "j' < unat ys" "?p i j = ?p i' j'"
    then show "i = i' \<and> j = j'" using pixel_inject [OF S(1), of "unat x + i" "unat y + j" "unat x + i'" "unat y + j'"] S by auto
  qed
  show "i < unat xs \<Longrightarrow> j < unat ys \<Longrightarrow> copy_picture gi w buf xs ys x y fr (?p i j) = ?v i j"
    unfolding eq by (rule fold_picture(2) [OF inj])
  show "(\<And>i j. i < unat xs \<Longrightarrow> j < unat ys \<Longrightarrow> a \<noteq> ?p i j) \<Longrightarrow> copy_picture gi w buf xs ys x y fr a = fr a"
    unfolding eq by (rule fold_picture(1))
qed


text \<open>A caller whose call always succeeds: a page of its own, and its memory counts in fours.\<close>

definition example_call :: "nat send_recv" where
  "example_call fn p mg s = Some (SYSCALL_SUCCESS,
     if p = SEND_TO_KERNEL \<and> mtype mg = KERN_ALLOCATE_PAGE then mg\<lparr>m := (m mg)[0 := 0x800000]\<rparr> else mg, s + 1)"


subsection \<open>Calls of the kernel\<close>

lemma kernel_call_services:
  assumes "mtype mg < KERN_SYSCALLS" and "(kern_syscalls ! unat (mtype mg)) mg s = Some (Returns st mg' s')"
  shows "kernel_call NR_SEND SEND_TO_KERNEL mg s = Some (st, mg', s')"
proof -
  have "\<not> is_service_id SEND_TO_KERNEL" by (simp add: is_service_id_def SEND_TO_KERNEL_def SERVICE_ID_BASE_def SERVICES_def)
  then show ?thesis using assms
    by (simp add: kernel_call_def sys_send_recv_def kernel_services_def recv_half_def NR_SEND_def FUNC_SEND_def FUNC_RECV_def)
qed

text \<open>A process that asks for its own process id or that of its parent gets it.\<close>

lemma sint_of_int: "- (2 ^ 31) \<le> x \<Longrightarrow> x < 2 ^ 31 \<Longrightarrow> sint (word_of_int x :: u32) = x"
  by (subst signed_of_int) (simp add: signed_take_bit_int_eq_self)

lemma ucast_of_int: "ucast (word_of_int x :: u64) = (word_of_int x :: u32)"
  by (rule bit_word_eqI) (simp add: bit_simps)

lemma int_arg_set_int:
  "length (m mg) = 8 \<Longrightarrow> i < 8 \<Longrightarrow> - (2 ^ 31) \<le> x \<Longrightarrow> x < 2 ^ 31 \<Longrightarrow> int_arg (set_int i x mg) i = x"
proof -
  assume a: "length (m mg) = 8" "i < 8" "- (2 ^ 31) \<le> x" "x < 2 ^ 31"
  have u: "0xffffffff00000000 = (NOT (mask 32) :: u64)" by (simp add: mask_eq_exp_minus_1)
  have "ucast ((m mg ! i AND 0xffffffff00000000) OR ucast (word_of_int x :: u32)) = (word_of_int x :: u32)"
    unfolding u by (rule bit_word_eqI) (simp add: bit_simps; auto)
  then have "int_arg (set_int i x mg) i = sint (word_of_int x :: u32)" using a(1,2) by (simp add: int_arg_def set_int_def)
  also have "\<dots> = x" using a(3,4) by (rule sint_of_int)
  finally show ?thesis .
qed

lemma get_pid_correct:
  assumes "0 \<le> tpid (running_task s)" and "tpid (running_task s) \<le> MAX_PID"
  shows "get_pid kernel_call s = Some (tpid (running_task s), s)"
proof -
  have k: "kernel_call NR_SEND SEND_TO_KERNEL (request KERN_GET_PID []) s =
      Some (SYSCALL_SUCCESS, set_int 0 (tpid (running_task s)) (request KERN_GET_PID []), s)"
    by (rule kernel_call_services)
      (simp_all add: request_def KERN_GET_PID_def KERN_SYSCALLS_def kern_syscalls_def kern_get_pid_def)
  have "int_arg (set_int 0 (tpid (running_task s)) (request KERN_GET_PID [])) 0 = tpid (running_task s)"
    using assms by (intro int_arg_set_int) (simp_all add: request_def pid_defs)
  then show ?thesis using k by (simp add: get_pid_def)
qed

text \<open>\<^verbatim>\<open>waitpid\<close> does not look at the status of the call. A caller without children gets its own arguments back:
  the options as the process id, and the process id as the status.\<close>

theorem waitpid_without_children:
  assumes "childs (running_task s) = 0" and "- (2 ^ 31) \<le> p" "p < 2 ^ 31" and "0 \<le> options" "options < 2 ^ 31"
  shows "waitpid kernel_call p options s = Some (options, p, s)"
proof -
  define mg where "mg = request KERN_WAITPID [word_of_int p, word_of_int options]"
  have "kernel_call NR_SEND SEND_TO_KERNEL mg s = Some (SYSCALL_ERROR, mg, s)"
    using assms(1) by (intro kernel_call_services)
      (simp_all add: mg_def request_def KERN_WAITPID_def KERN_SYSCALLS_def kern_syscalls_def kern_waitpid_def atomic_read_def)
  moreover have "int_arg mg 1 = options" "int_arg mg 0 = p"
    using assms(2-) by (simp_all add: mg_def request_def int_arg_def ucast_of_int sint_of_int)
  ultimately show ?thesis by (simp add: waitpid_def mg_def)
qed

lemma waitpid_without_children_witness:
  "waitpid kernel_call 5 1 (undefined\<lparr>running_pid := 1, tasks := (\<lambda>_. zero_task)\<rparr> :: proc_state) =
     Some (1, 5, undefined\<lparr>running_pid := 1, tasks := (\<lambda>_. zero_task)\<rparr>)"
  by (rule waitpid_without_children) (simp_all add: running_task_def zero_task_def)

subsection \<open>The tasks of the other processors\<close>

text \<open>\<^verbatim>\<open>ktask\<close> of \<^verbatim>\<open>src/kernel/main.c\<close> prints its counter with this format into an array of ten bytes.\<close>

definition ktask_format :: "u8 list" where "ktask_format = [10, 37, 32, 57, 100]"

text \<open>The text has at least ten characters, so that its terminator is written behind the array.\<close>

theorem ktask_line_overflows:
  "\<exists>n s. sprintf f ktask_format [VInt i] = Some (n, s) \<and> 10 \<le> length s"
proof -
  obtain s where s: "number_to_string (scast (ucast i :: u32)) 10 9 (-1) (FORMAT_SPACE OR FORMAT_SIGN) = Some s" "9 \<le> length s"
    using number_to_string_length [of 10 "scast (ucast i :: u32)" 9 "-1" "FORMAT_SPACE OR FORMAT_SIGN"] by force
  have "flag_chars 0 [32, 57, 100] = (FORMAT_SPACE, [57, 100])" by simp
  moreover have "skip_atoi [57, 100] = (9, [100])" by (simp add: skip_atoi_def IS_DIGIT_def)
  ultimately have "convert f [32, 57, 100] [VInt i] = Some (s, [], [])"
    using s(1) by (simp add: convert_def get_flag_def get_width_def get_precision_def conversion_def head0_def flag_on_def
        va_int_def IS_DIGIT_def FORMAT_defs)
  then have "sprintf f ktask_format [VInt i] = Some (length (takeWhile (\<lambda>c. c \<noteq> 0) (10 # s)), 10 # s)"
    by (simp add: sprintf_def vsprintf_def ktask_format_def)
  then show ?thesis using s(2) by auto
qed

end
