(* ===== verification/StartUp.thy ===== *)
theory StartUp
  imports SchedProps Frames Apic Intr UserLib
begin

text \<open>
  The first tasks: \<^verbatim>\<open>task_init\<close>, \<^verbatim>\<open>make_main_task\<close> and \<^verbatim>\<open>create_idle_task\<close> of
  \<^verbatim>\<open>task/task.c\<close>, the loop of \<^verbatim>\<open>smp_init\<close> (\<^verbatim>\<open>device/cpu/smp/smp.c\<close>) that makes a main task for
  every processor, the start of a processor (\<^verbatim>\<open>ap_boot.S\<close>, \<^verbatim>\<open>ap_init_all\<close>), and the loop of
  \<^verbatim>\<open>kernel_main\<close>. The theorems show that start-up establishes the invariants which those on
  scheduling, creation and exit of tasks assume.
\<close>

subsection \<open>The box of the kernel's messages\<close>

text \<open>The box on the screen that \<^verbatim>\<open>init_all\<close> sets up, and what it takes for \<^verbatim>\<open>basic_print\<close> to stay in it.\<close>

definition init_textbox :: "graph_info \<Rightarrow> textbox" where
  "init_textbox gi = \<lparr>cur_pos = \<lparr>pos_x = 0, pos_y = 0\<rparr>, box_pos = \<lparr>pos_x = 8, pos_y = 16\<rparr>,
     xsize = pixel_per_scanline gi - 8, ysize = vertical_resolution gi - 16, char_xsize = 9, char_ysize = 16\<rparr>"

lemma init_textbox_ok:
  assumes "screen_ok gi" and "17 \<le> pixel_per_scanline gi" "32 \<le> vertical_resolution gi"
  shows "box_ok gi (init_textbox gi)"
proof -
  have "unat (pixel_per_scanline gi - 8) = unat (pixel_per_scanline gi) - 8" "17 \<le> unat (pixel_per_scanline gi)"
    using assms(2) by (simp_all add: unat_sub_no_wrap word_le_nat_alt)
  moreover have "unat (vertical_resolution gi - 16) = unat (vertical_resolution gi) - 16" "32 \<le> unat (vertical_resolution gi)"
    using assms(3) by (simp_all add: unat_sub_no_wrap word_le_nat_alt)
  ultimately show ?thesis
    using assms(1) by (simp add: box_ok_def init_textbox_def box_x_def box_y_def cur_x_def cur_y_def) linarith
qed

subsection \<open>The table of tasks\<close>

text \<open>The sizes of the structures in bytes, with their padding.\<close>

definition sizeof_task_struct :: u64 where "sizeof_task_struct = 424"
definition sizeof_task_man :: u64 where "sizeof_task_man = 112"

definition sizeof_global_task_man :: u64 where
  "sizeof_global_task_man = 4096 * sizeof_task_struct + 8 + 256 * sizeof_task_man"

definition zero_man :: task_man where
  "zero_man = \<lparr>task_list = [], waiting_list = [], min_vrun_time = 0, running_tasks = 0, total_weight = 0,
     main_task = None, idle_task = None\<rparr>"

text \<open>\<^verbatim>\<open>memset(global_task_man, 0, sizeof(*global_task_man))\<close>, with the locks and counters inside.\<close>

definition clear_task_man :: "'a kernel_state_scheme \<Rightarrow> 'a kernel_state_scheme" where
  "clear_task_man s = s\<lparr>
     tasks := (\<lambda>p. if 0 \<le> p \<and> p \<le> MAX_PID then zero_task else tasks s p),
     cpus := (\<lambda>c. if c < NR_CPUS then zero_man else cpus s c),
     preempt_count := (\<lambda>p. if 0 \<le> p \<and> p \<le> MAX_PID then 0 else preempt_count s p),
     locks := (\<lambda>l. case l of
         TasksLock \<Rightarrow> 0
       | TaskListLock c \<Rightarrow> if c < NR_CPUS then 0 else locks s l
       | SendLock p \<Rightarrow> if 0 \<le> p \<and> p \<le> MAX_PID then 0 else locks s l
       | ChildListLock p \<Rightarrow> if 0 \<le> p \<and> p \<le> MAX_PID then 0 else locks s l
       | _ \<Rightarrow> locks s l)\<rparr>"

text \<open>The two loops of \<^verbatim>\<open>task_init\<close>.\<close>

definition init_task_man :: "'a kernel_state_scheme \<Rightarrow> 'a kernel_state_scheme" where
  "init_task_man s =
     (let s = clear_task_man s;
          s = fold (\<lambda>i. upd_task (int i) (tpid_update (\<lambda>_. PID_NO_TASK))) [0..<nat TASKS] s;
          s = fold (\<lambda>c s. init_spinlock (TaskListLock c) (upd_cpu c (\<lambda>tm. tm\<lparr>task_list := [], waiting_list := [],
              min_vrun_time := 0, running_tasks := 0, total_weight := 0, main_task := None, idle_task := None\<rparr>) s))
            [0..<NR_CPUS] s
      in init_spinlock TasksLock s)"

subsection \<open>The first tasks\<close>

definition KERNEL_STACK_BASE :: addr where "KERNEL_STACK_BASE = 0x400000"
definition KERNEL_STACK_SIZE :: u64 where "KERNEL_STACK_SIZE = 0x10000"

definition main_name :: "u8 list" where "main_name = [77, 97, 105, 110, 32, 116, 97, 115, 107]"
definition idle_name :: "u8 list" where "idle_name = [105, 100, 108, 101]"

text \<open>The write of the base of \<^verbatim>\<open>gs\<close> makes the new task the running one.\<close>

definition make_main_task :: "'h cpu_hardware \<Rightarrow> 'a kernel_state_scheme \<Rightarrow> 'a kernel_state_scheme option" where
  "make_main_task H s = do {
     (p, s) \<leftarrow> task_alloc s;
     p \<leftarrow> p;
     let cpu = unat (apic_id H);
     let s = upd_task p (cpu_id_update (\<lambda>_. cpu)) s;
     _ \<leftarrow> get_task_man cpu s;
     let s = s\<lparr>running_pid := p\<rparr>;
     (_, s) \<leftarrow> init_task_struct p main_name DEFAULT_PRIORITY (PHYS_TO_VIRT KERNEL_STACK_BASE) KERNEL_STACK_SIZE s;
     let s = upd_task p (status_update (\<lambda>_. TASK_RUNNING)) s;
     Some (upd_cpu cpu (main_task_update (\<lambda>_. Some p)) s) }"

text \<open>The argument is the address of \<^verbatim>\<open>idle_task\<close>, each of whose rounds is \<open>idle_round\<close>.\<close>

definition create_idle_task :: "addr \<Rightarrow> 'a kernel_state_scheme \<Rightarrow> 'a kernel_state_scheme option" where
  "create_idle_task func s = do {
     let cpu = cpu_id (running_task s);
     _ \<leftarrow> get_task_man cpu s;
     (idle, s) \<leftarrow> task_start idle_name IDLE_PRIORITY 4096 func 0 s;
     Some (upd_cpu cpu (idle_task_update (\<lambda>_. idle)) s) }"

definition idle_round :: "'a kernel_state_scheme \<Rightarrow> 'a kernel_state_scheme option" where
  "idle_round s = task_block TASK_BLOCKED s"

definition task_init :: "'h cpu_hardware \<Rightarrow> addr \<Rightarrow> 'a kernel_state_scheme \<Rightarrow> 'a kernel_state_scheme option" where
  "task_init H idle_func s = do {
     let pages = sizeof_global_task_man div PG_SIZE + 1;
     (st, a, s) \<leftarrow> alloc_physical_page_sub pages s;
     assert (\<not> ERROR st);
     s \<leftarrow> make_main_task H (init_task_man s);
     create_idle_task idle_func s }"

subsection \<open>The other processors\<close>

text \<open>\<^verbatim>\<open>sprintf(name, "Main task (%d)", i)\<close>.\<close>

definition cpu_task_name :: "nat \<Rightarrow> u8 list option" where
  "cpu_task_name i = map_option snd (sprintf (\<lambda>_ _ _ _. [])
     [77, 97, 105, 110, 32, 116, 97, 115, 107, 32, 40, 37, 100, 41] [VInt (word_of_nat i) :: unit varg])"

definition AP_STACK_PAGES :: u64 where
  "AP_STACK_PAGES = (255 * KERNEL_STACK_SIZE) div PG_SIZE + 1"

fun ap_main_tasks ::
  "addr \<Rightarrow> nat list \<Rightarrow> 'a kernel_state_scheme \<Rightarrow> (status_t \<times> 'a kernel_state_scheme) option" where
  "ap_main_tasks base [] s = Some (K_SUCCESS, s)"
| "ap_main_tasks base (i # cs) s = do {
     name \<leftarrow> cpu_task_name i;
     (p, s) \<leftarrow> task_alloc s;
     (case p of
        None \<Rightarrow> do { s \<leftarrow> free_physical_page base AP_STACK_PAGES s; Some (K_NOMEM, s) }
      | Some p \<Rightarrow> do {
          let kbase = PHYS_TO_VIRT (base + word_of_nat (i - 1) * KERNEL_STACK_SIZE);
          (_, s) \<leftarrow> init_task_struct p name DEFAULT_PRIORITY kbase KERNEL_STACK_SIZE s;
          let s = upd_task p (cpu_id_update (\<lambda>_. i)) s;
          _ \<leftarrow> get_task_man i s;
          ap_main_tasks base cs (upd_cpu i (main_task_update (\<lambda>_. Some p)) s) }) }"

definition AP_STACK_BASE_PTR :: addr where "AP_STACK_BASE_PTR = 0x1000"

text \<open>\<open>boot_code\<close> and \<open>boot_size\<close> are the code between \<^verbatim>\<open>AP_BOOT_BASE\<close> and \<^verbatim>\<open>AP_BOOT_END\<close>;
  \<open>panic\<close> is the handler \<^verbatim>\<open>ipi_panic_handler\<close>. The message to the other processors is sent at the end.\<close>

definition smp_init ::
  "'h cpu_hardware \<Rightarrow> apic_t \<Rightarrow> addr \<Rightarrow> u64 \<Rightarrow> 'i \<Rightarrow> 'a proc_state_scheme \<times> 'i intr_state \<times> 'h \<Rightarrow>
    (status_t \<times> 'a proc_state_scheme \<times> 'i intr_state \<times> 'h) option" where
  "smp_init H a boot_code boot_size panic = (\<lambda>(s, t, h). do {
     let s = s\<lparr>bytes := memcpy (bytes s) (PHYS_TO_VIRT 0x10000) boot_code boot_size\<rparr>;
     (st, base, s) \<leftarrow> alloc_physical_page AP_STACK_PAGES s;
     if ERROR st then Some (K_NOMEM, s, t, h)
     else do {
       base \<leftarrow> base;
       let s = s\<lparr>pt_mem := (pt_mem s)(AP_STACK_BASE_PTR := base)\<rparr>;
       (st, s) \<leftarrow> ap_main_tasks base [1..<NR_CPUS] s;
       if ERROR st then Some (st, s, t, h)
       else Some (K_SUCCESS, s, register_handle 0x81 panic t, init_ipi H a h) } })"

text \<open>\<^verbatim>\<open>ap_boot.S\<close>: the stack pointer of a processor, from its number and the word at \<^verbatim>\<open>AP_STACK_BASE_PTR\<close>.\<close>

definition ap_boot_rsp :: "addr \<Rightarrow> u32 \<Rightarrow> addr" where
  "ap_boot_rsp base apic = push_bit 16 (ucast apic) + base + KERNEL_VMA_BASE"

text \<open>The tasks in \<^verbatim>\<open>ap_init_all\<close>: its main task runs on the processor, and it gets an idle task.\<close>

definition ap_start_tasks :: "nat \<Rightarrow> addr \<Rightarrow> 'a kernel_state_scheme \<Rightarrow> 'a kernel_state_scheme option" where
  "ap_start_tasks cpu idle_func s = do {
     tm \<leftarrow> get_task_man cpu s;
     p \<leftarrow> main_task tm;
     let s = s\<lparr>running_pid := p\<rparr>;
     let s = upd_task p (status_update (\<lambda>_. TASK_RUNNING)) s;
     create_idle_task idle_func s }"

text \<open>A round of the loop of \<^verbatim>\<open>kernel_main\<close> and \<^verbatim>\<open>ap_kernel_main\<close>.\<close>

definition kernel_main_round :: "'a proc_state_scheme \<Rightarrow> 'a proc_state_scheme call_state option" where
  "kernel_main_round s = sys_send_recv NR_SEND SEND_TO_KERNEL (request KERN_WAITPID [word_of_int (- 1)]) s"

subsection \<open>Stopping the machine\<close>

text \<open>
  \<^verbatim>\<open>panic_spin\<close> of \<^verbatim>\<open>graphic/print.c\<close> up to its interrupt 0x82 and the endless loop behind it: the other
  processors get the interrupt 0x81, whose handler is \<^verbatim>\<open>ipi_panic_handler\<close>, here up to its endless loop.
\<close>

definition ICR_DELIVER_MODE_FIXED :: u8 where "ICR_DELIVER_MODE_FIXED = 0"

definition panic_spin ::
  "'h cpu_hardware \<Rightarrow> apic_t \<Rightarrow> ('h \<Rightarrow> u64 \<times> 'h) \<Rightarrow> ('d \<Rightarrow> int \<Rightarrow> int \<Rightarrow> u32 \<Rightarrow> u8 list) \<Rightarrow> (u8 \<Rightarrow> nat \<Rightarrow> u8) \<Rightarrow> graph_info \<Rightarrow>
     u8 list \<Rightarrow> u32 \<Rightarrow> u8 list \<Rightarrow> u8 list \<Rightarrow> 'h console \<times> 'a kernel_state_scheme \<Rightarrow>
     ('h console \<times> 'a kernel_state_scheme) option" where
  "panic_spin H a nano fl font gi filename line func message = (\<lambda>(c, s). do {
     let msg = pr_msg nano fl (hardware.truncate H) font gi;
     let icr = make_icr 0x81 ICR_DELIVER_MODE_FIXED ICR_DEST_MODE_PHY ICR_DELIVER_STATUS_IDLE
       ICR_LEVEL_DE_ASSEST ICR_TRIGGER_EDGE ICR_ALL_EXCLUDE_SELF 0;
     let c = c\<lparr>con_hw := send_ipi H a icr (con_hw c)\<rparr>;
     let (_, s) = intr_disable s;
     c \<leftarrow> msg [10] [] c;
     c \<leftarrow> msg (ascii ''>>> PANIC <<<'' @ [10]) [] c;
     c \<leftarrow> msg (ascii ''%s: In function '' @ [39, 37, 115, 39, 58, 10]) [VStr filename, VStr func] c;
     c \<leftarrow> msg (ascii ''%s:%d: %s'' @ [10]) [VStr filename, VInt (scast line), VStr message] c;
     Some (c, s) })"

definition ipi_panic_handler ::
  "'h cpu_hardware \<Rightarrow> apic_t \<Rightarrow> 'h \<times> 'a kernel_state_scheme \<Rightarrow> 'h \<times> 'a kernel_state_scheme" where
  "ipi_panic_handler H a = (\<lambda>(h, s). (send_eoi H a h, snd (intr_disable s)))"

text \<open>\<open>bitmap\<close> is the buffer of the font.\<close>

definition free_ttf_info :: "addr \<Rightarrow> ttf_info \<times> 'a alloc_state_scheme \<Rightarrow> (ttf_info \<times> 'a alloc_state_scheme) option" where
  "free_ttf_info bitmap = (\<lambda>(t, s).
     if has_ttf t then do { s \<leftarrow> kfree bitmap s; Some (t\<lparr>has_ttf := False\<rparr>, s) } else Some (t, s))"

text \<open>The start of \<^verbatim>\<open>ap_kernel_main\<close> behind \<^verbatim>\<open>ap_init_all\<close>: a process that draws its counter.\<close>

definition ap_process :: "addr \<Rightarrow> 'a proc_state_scheme \<Rightarrow> (pid \<times> 'a proc_state_scheme) option" where
  "ap_process ktask s = do {
     (_, name) \<leftarrow> sprintf (\<lambda>_ _ _ _. []) (ascii ''k task %d'') [VInt (word_of_nat (cpu_id (running_task s))) :: unit varg];
     proc_execute name DEFAULT_PRIORITY 4096 ktask s }"

subsection \<open>Names\<close>

lemma number_digits_IS_DIGIT: "c \<in> set (number_digits small 10 n) \<Longrightarrow> IS_DIGIT c"
proof (induction small "10 :: nat" n rule: number_digits.induct)
  case (1 small n)
  have "unat n mod 10 < 10" by simp
  then show ?case
    using 1 digit_char_10 [of "unat n mod 10" small] by (subst (asm) (2) number_digits.simps) (auto split: if_splits)
qed

lemma number_digits_short: "unat n < 10 ^ k \<Longrightarrow> length (number_digits small 10 n) \<le> k"
proof (induction k arbitrary: n)
  case (Suc k)
  have "unat (word_of_nat (unat n div 10) :: u64) = unat n div 10" by (rule word_of_nat_div)
  also have "\<dots> < 10 ^ k" using Suc.prems by (simp add: less_mult_imp_div_less)
  finally show ?case using Suc.IH by (subst number_digits.simps) simp
qed (simp add: number_digits.simps unat_eq_zero)

lemma signed_decimal:
  assumes "\<not> n <s 0"
  shows "number_to_string n 10 (-1) (-1) FORMAT_SIGN = Some (if n = 0 then [48] else rev (number_digits False 10 n))"
proof -
  have "length (number_digits False 10 n) \<le> 22" by (rule number_digits_22) simp
  moreover have "length (number_digits False 10 n) \<noteq> 0" if "n \<noteq> 0"
    using that by (simp add: number_digits.simps [of False 10 n])
  ultimately show ?thesis using assms
    by (auto simp: number_to_string_def Let_def flag_on_def pad_loop_def FORMAT_defs)
qed

lemma cpu_task_name_fits:
  assumes "i < NR_CPUS"
  obtains nm where "cpu_task_name i = Some nm" "length nm < 16" "0 \<notin> set nm"
proof -
  have i: "unat (word_of_nat i :: u64) = i" "i < 1000" using assms by (simp_all add: NR_CPUS_def unat_of_nat_lt)
  define n where "n = (word_of_nat i :: u64)"
  have "\<not> n <s 0" using i by (simp add: n_def sless_0_iff)
  moreover have "scast (ucast n :: u32) = n"
  proof -
    have "ucast n = (word_of_int (int i) :: u32)" using ucast_of_int [of "int i"] by (simp add: n_def)
    then have "sint (ucast n :: u32) = int i" using assms sint_of_int [of "int i"] by (simp add: NR_CPUS_def)
    then have "scast (ucast n :: u32) = (word_of_int (int i) :: u64)" by (simp only: scast_eq)
    then show ?thesis by (simp add: n_def)
  qed
  moreover define d where "d = (if n = 0 then [48 :: u8] else rev (number_digits False 10 n))"
  ultimately have "convert (\<lambda>_ _ _ _. []) [100, 41] [VInt n :: unit varg] = Some (d, [41], [])"
    by (simp add: convert_def get_flag_def get_width_def get_precision_def conversion_def head0_def flag_on_def
        va_int_def FORMAT_LEFT_def FORMAT_ZERO_def signed_decimal)
  then have nm: "cpu_task_name i = Some ([77, 97, 105, 110, 32, 116, 97, 115, 107, 32, 40] @ d @ [41])"
    by (simp add: cpu_task_name_def sprintf_def vsprintf_def n_def)
  have "length d \<le> 3" using number_digits_short [of n 3 False] i by (auto simp: d_def n_def)
  moreover have "0 \<notin> set d"
    using number_digits_IS_DIGIT [of 0 False n] by (auto simp: d_def)
  ultimately show thesis by (intro that [OF nm]) auto
qed

subsection \<open>The empty table\<close>

lemma fold_upd_tasks:
  "fold (\<lambda>i. upd_task (int i) f) [0..<n] s = s\<lparr>tasks := (\<lambda>p. if 0 \<le> p \<and> p < int n then f (tasks s p) else tasks s p)\<rparr>"
proof (induction n)
  case (Suc n)
  have "p < int (Suc n) \<longleftrightarrow> p = int n \<or> p < int n" for p by auto
  then show ?case using Suc by (auto simp: upd_task_def fun_eq_iff)
next
  case 0
  have "(\<lambda>p. if 0 \<le> p \<and> p < int 0 then f (tasks s p) else tasks s p) = tasks s" by (rule ext) auto
  then show ?case by simp
qed

lemma fold_init_cpus:
  "fold (\<lambda>c s. init_spinlock (TaskListLock c) (upd_cpu c f s)) [0..<n] s =
     s\<lparr>locks := (\<lambda>l. case l of TaskListLock c \<Rightarrow> if c < n then 1 else locks s l | _ \<Rightarrow> locks s l),
       cpus := (\<lambda>c. if c < n then f (cpus s c) else cpus s c)\<rparr>"
proof (induction n)
  case 0
  have "(\<lambda>l. case l of TaskListLock c \<Rightarrow> if c < (0 :: nat) then 1 else locks s l | _ \<Rightarrow> locks s l) = locks s"
    by (auto simp: fun_eq_iff split: lock_id.splits)
  then show ?case by simp
next
  case (Suc n)
  have "((\<lambda>l. case l of TaskListLock c \<Rightarrow> if c < n then 1 else locks s l | _ \<Rightarrow> locks s l) (TaskListLock n := 1)) =
      (\<lambda>l. case l of TaskListLock c \<Rightarrow> if c < Suc n then 1 else locks s l | _ \<Rightarrow> locks s l)"
    by (auto simp: fun_eq_iff less_Suc_eq split: lock_id.splits)
  then show ?case using Suc by (auto simp: upd_cpu_def init_spinlock_def fun_eq_iff less_Suc_eq)
qed

lemma init_task_man_fields:
  "tasks (init_task_man s) p = (if 0 \<le> p \<and> p \<le> MAX_PID then zero_task\<lparr>tpid := PID_NO_TASK\<rparr> else tasks s p)"
  "cpus (init_task_man s) c = (if c < NR_CPUS then zero_man else cpus s c)"
  "locks (init_task_man s) TasksLock = 1" "c < NR_CPUS \<Longrightarrow> locks (init_task_man s) (TaskListLock c) = 1"
  "running_pid (init_task_man s) = running_pid s" "beyond_weights (init_task_man s) = beyond_weights s"
  "kinv (init_task_man s) = kinv s" "groups_unlocked (init_task_man s) = groups_unlocked s"
  "live (init_task_man s) = live s" "free_set (init_task_man s) = free_set s"
  "\<not> task_exist p (init_task_man s)"
proof -
  have n: "p < int (nat TASKS) \<longleftrightarrow> p \<le> MAX_PID" for p by (auto simp: pid_defs)
  note d = init_task_man_def Let_def fold_upd_tasks fold_init_cpus n
  show t: "tasks (init_task_man s) p = (if 0 \<le> p \<and> p \<le> MAX_PID then zero_task\<lparr>tpid := PID_NO_TASK\<rparr> else tasks s p)" for p
    unfolding d by (simp add: init_spinlock_def clear_task_man_def)
  show "cpus (init_task_man s) c = (if c < NR_CPUS then zero_man else cpus s c)"
    unfolding d by (simp add: init_spinlock_def clear_task_man_def zero_man_def)
  show "locks (init_task_man s) TasksLock = 1" "c < NR_CPUS \<Longrightarrow> locks (init_task_man s) (TaskListLock c) = 1"
    "running_pid (init_task_man s) = running_pid s" "beyond_weights (init_task_man s) = beyond_weights s"
    unfolding d by (simp_all add: init_spinlock_def clear_task_man_def)
  show "kinv (init_task_man s) = kinv s" "groups_unlocked (init_task_man s) = groups_unlocked s"
    "live (init_task_man s) = live s" "free_set (init_task_man s) = free_set s"
    unfolding d by (rule alloc_fields_cong; simp add: init_spinlock_def clear_task_man_def)+
  show "\<not> task_exist p (init_task_man s)" by (simp add: task_exist_def t)
qed

subsection \<open>Processors with an idle task\<close>

text \<open>What holds between the steps of start-up: the first \<open>k\<close> process ids are in use, and the locks of the tasks are free.\<close>

definition boot_ok :: "nat \<Rightarrow> 'a kernel_state_scheme \<Rightarrow> bool" where
  "boot_ok k s \<longleftrightarrow> kernel_ok s \<and> (\<forall>p. task_exist p s \<longleftrightarrow> 0 \<le> p \<and> p < int k) \<and>
     (\<forall>p. task_exist p s \<longrightarrow> lock_free (SendLock p) s \<and> lock_free (ChildListLock p) s)"

lemma boot_ok_slot:
  assumes "boot_ok k s" and "k < 4096"
  shows "free_slot s = Some (int k)"
proof -
  have ex: "task_exist p s \<longleftrightarrow> 0 \<le> p \<and> p < int k" for p using assms(1) by (simp add: boot_ok_def)
  have "\<not> task_exist (int k) s" "0 \<le> int k" "int k \<le> MAX_PID" using assms(2) by (simp_all add: ex pid_defs)
  then obtain i where i: "free_slot s = Some i" using free_slot_iff(1) [of s] by blast
  note F = free_slot_iff(2) [OF i]
  have "\<not> i < int k" using F by (auto simp: ex)
  moreover have "\<not> int k < i" using F spec [of _ "int k"] ex [of "int k"] by auto
  ultimately have "i = int k" by simp
  then show ?thesis using i by simp
qed

text \<open>A processor before its idle task is made.\<close>

definition fresh_cpu :: "nat \<Rightarrow> 'a kernel_state_scheme \<Rightarrow> bool" where
  "fresh_cpu c s \<longleftrightarrow> task_list (cpus s c) = [] \<and> waiting_list (cpus s c) = [] \<and> running_tasks (cpus s c) = 0 \<and>
     total_weight (cpus s c) = 0"

lemma fresh_cpu_queue: "fresh_cpu c s \<Longrightarrow> queue_ok s c b"
  by (simp add: fresh_cpu_def queue_ok_def vsorted_def)

lemma task_exist_upd_cpu [simp]: "task_exist p (upd_cpu c g s) = task_exist p s"
  by (simp add: task_exist_def)

lemma kernel_ok_upd_cpu [simp]: "kernel_ok (upd_cpu c g s) = kernel_ok s"
  by (simp add: kernel_ok_def)

lemma create_idle_task_ok:
  fixes s :: "'a kernel_state_scheme"
  assumes ok: "boot_ok k s" and k: "k < 4096" and fs: "2 \<le> card (free_set s)"
    and cpu: "cpu = cpu_id (running_task s)" and fresh: "fresh_cpu cpu s"
  obtains s1 s' tm where "create_idle_task func s = Some s'" and "boot_ok (Suc k) s'" and "sched_ok s' cpu 0"
    and "running_pid s' = running_pid s" and "beyond_weights s' = beyond_weights s"
    and "\<And>q. q \<noteq> int k \<Longrightarrow> q \<noteq> running_pid s \<Longrightarrow> tasks s' q = tasks s q"
    and "running_task s' = childs_update atomic_inc (running_task s)"
    and "cpu_id (tasks s' (int k)) = cpu" and "exited_child_list (tasks s' (int k)) = []"
    and "ppid (tasks s' (int k)) = running_pid s"
    and "cpus s' = (cpus s)(cpu := tm)" and "main_task tm = main_task (cpus s cpu)" and "idle_task tm = Some (int k)"
    and "locks s' = (locks s)(SendLock (int k) := 1, ChildListLock (int k) := 1)"
    and "card (free_set s) \<le> Suc (Suc (card (free_set s')))"
proof -
  let ?p = "int k"
  have K: "kernel_ok s" and ex: "\<And>p. task_exist p s \<longleftrightarrow> 0 \<le> p \<and> p < int k"
    and lk: "\<And>p. task_exist p s \<Longrightarrow> lock_free (SendLock p) s \<and> lock_free (ChildListLock p) s"
    using ok by (auto simp: boot_ok_def)
  note slot = boot_ok_slot [OF ok k]
  have run: "task_exist (running_pid s) s" "cpu < NR_CPUS" using kernel_okD(5,7) [OF K] by (auto simp: cpu running_task_def)
  have q: "queue_ok s (cpu_id (running_task s)) 0" using fresh_cpu_queue [OF fresh] by (simp add: cpu)
  have win: "in_window 0 0" by (simp add: in_window_def vdist_def)
  have sz: "(4096 :: u64) AND (4096 - 1) = 0" "(4096 :: u64) \<le> MAX_ALLOCATE_MEMORY_SIZE"
    by (simp_all add: MAX_ALLOCATE_MEMORY_SIZE_def)
  have nm: "length idle_name < 31" "0 \<notin> set idle_name" by (simp_all add: idle_name_def)
  obtain s1 where S: "task_start idle_name IDLE_PRIORITY 4096 func 0 s = Some (Some ?p, s1)" "kernel_ok s1"
      "queue_ok s1 cpu 0" "started ?p s s1" "ppid (tasks s1 ?p) = running_pid s"
    using task_start_spec [OF K slot fs sz nm q win, of IDLE_PRIORITY func 0] by (auto simp: cpu)
  obtain tm0 where F: "running_pid s1 = running_pid s" "beyond_weights s1 = beyond_weights s"
      "locks s1 = (locks s)(SendLock ?p := 1, ChildListLock ?p := 1)" "\<And>q. task_exist q s1 \<longleftrightarrow> q = ?p \<or> task_exist q s"
      "\<And>q. q \<noteq> ?p \<Longrightarrow> q \<noteq> running_pid s \<Longrightarrow> tasks s1 q = tasks s q"
      "running_task s1 = childs_update atomic_inc (running_task s)" "cpu_id (tasks s1 ?p) = cpu" "vrun_time (tasks s1 ?p) = 0"
      "exited_child_list (tasks s1 ?p) = []" "cpus s1 = (cpus s)(cpu := tm0)" "waiting_list tm0 = []"
      "main_task tm0 = main_task (cpus s cpu)" "card (free_set s) \<le> Suc (Suc (card (free_set s1)))"
    using S(4) fresh by (auto simp: started_def Let_def cpu fresh_cpu_def)
  define tm where "tm = tm0\<lparr>idle_task := Some ?p\<rparr>"
  define s' where "s' = upd_cpu cpu (idle_task_update (\<lambda>_. Some ?p)) s1"
  have run': "create_idle_task func s = Some s'"
    using S(1) run(2) by (simp add: create_idle_task_def get_task_man_def cpu s'_def Let_def)
  have cp: "cpus s' = (cpus s)(cpu := tm)" by (simp add: s'_def F(10) tm_def)
  have ex': "task_exist q s' \<longleftrightarrow> 0 \<le> q \<and> q < int (Suc k)" for q
    using F(4) [of q] ex [of q] by (auto simp: s'_def)
  have lk': "lock_free (SendLock q) s' \<and> lock_free (ChildListLock q) s'" if "task_exist q s'" for q
    using that ex' [of q] ex [of q] lk [of q] by (cases "q = ?p") (auto simp: s'_def F(3) lock_free_def)
  have b: "boot_ok (Suc k) s'" using S(2) ex' lk' by (simp add: boot_ok_def s'_def)
  have qo: "queue_ok s' cpu 0"
    using S(3) by (simp add: queue_ok_def Let_def s'_def)
  have ids: "tpid (tasks s' q) = q" "cpu_id (tasks s' q) < NR_CPUS" if "task_exist q s'" for q
    using kernel_okD(6,7) [of s' q] b that by (auto simp: boot_ok_def)
  have "sched_ok s' cpu 0"
    unfolding sched_ok_def
  proof (intro conjI exI [of _ ?p] allI impI ballI)
    show "lock_free (TaskListLock cpu) s'" using kernel_okD(4) [of s' cpu] b run(2) by (simp add: boot_ok_def)
  qed (use run(2) qo ids lk' ex' F(7,8,11) win in \<open>simp_all add: cp tm_def\<close>, simp_all add: s'_def F(7,8) win)
  then show thesis
    using that [OF run' b _ _ _ _ _ _ _ _ cp] F S(5) by (simp add: s'_def tm_def running_task_def)
qed

subsection \<open>The first task\<close>

lemma task_alloc_first:
  assumes lk: "lock_free TasksLock s" and slot: "free_slot s = Some i" and ne: "i \<noteq> running_pid s"
  shows "task_alloc s = Some (Some i, fresh_slot i s)"
proof -
  have fs: "free_slot (locked TasksLock s) = free_slot s" by (simp add: free_slot_def)
  have "spinlock_unlock TasksLock (fresh_slot i (locked TasksLock s)) = fresh_slot i s"
    using lk ne by (auto simp: fresh_slot_def spinlock_unlock_def locked_def bump_preempt_def lock_free_def
        upd_task_def clear_task_def fun_upd_twist fun_upd_idem)
  then show ?thesis using lk fs slot by (simp add: task_alloc_def spinlock_lock_free fresh_slot_def)
qed

lemma init_task_struct_self:
  assumes "running_pid s = p" and "p \<le> MAX_PID" and "name_field nm = Some nm'"
  shows "init_task_struct p nm prio kbase ksize s = do {
     (st, r, s) \<leftarrow> kmalloc FXSAVE_SIZE 0 0 (with_record p (fresh_record p nm' prio kbase ksize p 0) s);
     if ERROR st then Some (st, s)
     else do { a \<leftarrow> r; Some (K_SUCCESS, upd_task p (fxsave_region_update (\<lambda>_. a)) s) } }"
proof -
  have l: "(locks s)(SendLock p := 0, ChildListLock p := 0, SendLock p := 1, ChildListLock p := 1) =
     (locks s)(SendLock p := 1, ChildListLock p := 1)" by (auto simp: fun_eq_iff)
  show ?thesis
    unfolding init_task_struct_def Let_def assms(3) bind.simps
    using assms(1,2) l
    by (simp add: upd_task_def clear_task_def init_spinlock_def with_record_def fresh_record_def
        running_task_def task_to_pid_def zero_task_def)
qed

text \<open>What the main task of the first processor looks like.\<close>

definition first_task :: "task_struct \<Rightarrow> bool" where
  "first_task t \<longleftrightarrow> tpid t = 0 \<and> ppid t = 0 \<and> cpu_id t = 0 \<and> status t = TASK_RUNNING \<and> vrun_time t = 0 \<and>
     priority t = DEFAULT_PRIORITY \<and> exited_child_list t = [] \<and> sender_list t = [] \<and>
     tcontext t = PHYS_TO_VIRT (KERNEL_STACK_BASE + KERNEL_STACK_SIZE)"

lemma apic_id_bound: "unat (apic_id H) < NR_CPUS"
proof -
  have "unat (x AND 0xff :: u32) < 256" for x :: u32
    using word_and_le1 [of x "0xff"] by (simp add: word_le_nat_alt)
  then show ?thesis by (simp add: apic_id_def NR_CPUS_def split: prod.split)
qed

lemma make_main_task_ok:
  fixes s :: "'a kernel_state_scheme"
  assumes inv: "kinv s" "groups_unlocked s" and lk: "lock_free TasksLock s" "\<And>c. c < NR_CPUS \<Longrightarrow> lock_free (TaskListLock c) s"
    and none: "\<And>p. \<not> task_exist p s" and run: "\<not> (0 \<le> running_pid s \<and> running_pid s \<le> MAX_PID)" and fs: "free_set s \<noteq> {}"
  obtains s' where "make_main_task H s = Some s'" and "boot_ok 1 s'" and "running_pid s' = 0" and "first_task (tasks s' 0)"
    and "cpus s' = (cpus s)(unat (apic_id H) := (cpus s (unat (apic_id H)))\<lparr>main_task := Some 0\<rparr>)"
    and "beyond_weights s' = beyond_weights s" and "childs (tasks s' 0) = 0"
    and "card (free_set s) \<le> Suc (card (free_set s'))"
proof -
  have slot: "free_slot s = Some 0"
  proof -
    obtain i where i: "free_slot s = Some i" using free_slot_iff(1) [of s] none [of 0] by (auto simp: pid_defs)
    then show ?thesis using free_slot_iff(2) [OF i] none by force
  qed
  have "0 \<noteq> running_pid s" using run by (auto simp: pid_defs)
  note al = task_alloc_first [OF lk(1) slot this]
  define cpu where "cpu = unat (apic_id H)"
  define s1 where "s1 = upd_task 0 (cpu_id_update (\<lambda>_. cpu)) (fresh_slot 0 s)\<lparr>running_pid := 0\<rparr>"
  define r where "r = fresh_record 0 (main_name @ replicate (32 - length main_name) 0) DEFAULT_PRIORITY
    (PHYS_TO_VIRT KERNEL_STACK_BASE) KERNEL_STACK_SIZE 0 0"
  have f1: "kinv s1 = kinv (fresh_slot 0 s)" "groups_unlocked s1 = groups_unlocked (fresh_slot 0 s)"
      "free_set s1 = free_set (fresh_slot 0 s)"
    by (rule alloc_fields_cong; simp add: s1_def upd_task_def)+
  have s1: "kinv s1" "groups_unlocked s1" "free_set s1 = free_set s" "running_pid s1 = 0" "cpus s1 = cpus s"
      "beyond_weights s1 = beyond_weights s"
    using inv unfolding f1 by (simp_all add: s1_def)
  have fs1: "free_set s1 \<noteq> {}" using fs s1(3) by simp
  obtain fx s2 where A: "do {
       (st, r, s) \<leftarrow> kmalloc FXSAVE_SIZE 0 0 (with_record 0 r s1);
       if ERROR st then Some (st, s)
       else do { a \<leftarrow> r; Some (K_SUCCESS, upd_task 0 (fxsave_region_update (\<lambda>_. a)) s) } } = Some (K_SUCCESS, s2)"
    "kinv s2" "groups_unlocked s2" "fx \<notin> live s1" "live s2 = insert fx (live s1)"
    "locks s2 = (locks s1)(SendLock 0 := 1, ChildListLock 0 := 1)" "running_pid s2 = running_pid s1"
    "tasks s2 = (tasks s1)(0 := r\<lparr>fxsave_region := fx\<rparr>)" "cpus s2 = cpus s1" "pt_mem s2 = pt_mem s1"
    "kernel_task_addr s2 = kernel_task_addr s1" "beyond_weights s2 = beyond_weights s1"
    "card (free_set s1) \<le> Suc (card (free_set s2))"
    by (rule allocate_record [OF s1(1,2) fs1])
  have nm: "name_field main_name = Some (main_name @ replicate (32 - length main_name) 0)"
    by (rule name_field_Some) (simp_all add: main_name_def)
  have init: "init_task_struct 0 main_name DEFAULT_PRIORITY (PHYS_TO_VIRT KERNEL_STACK_BASE) KERNEL_STACK_SIZE s1 =
      Some (K_SUCCESS, s2)"
    using init_task_struct_self [OF s1(4) _ nm] A(1) by (simp add: pid_defs r_def)
  define s' where "s' = upd_cpu cpu (main_task_update (\<lambda>_. Some 0)) (upd_task 0 (status_update (\<lambda>_. TASK_RUNNING)) s2)"
  have "make_main_task H s = Some s'"
    using al init apic_id_bound [of H]
    by (simp add: make_main_task_def get_task_man_def cpu_def s1_def s'_def)
  moreover have t: "tasks s' 0 = r\<lparr>fxsave_region := fx, status := TASK_RUNNING\<rparr>" by (simp add: s'_def A(8))
  moreover have ft: "first_task (tasks s' 0)" "childs (tasks s' 0) = 0"
    by (simp_all add: t first_task_def r_def fresh_record_def zero_task_def PHYS_TO_VIRT_def)
  moreover have f: "cpus s' = (cpus s)(cpu := (cpus s cpu)\<lparr>main_task := Some 0\<rparr>)" "running_pid s' = 0"
      "beyond_weights s' = beyond_weights s" "card (free_set s) \<le> Suc (card (free_set s'))"
    using A s1 by (simp_all add: s'_def)
  moreover have "boot_ok 1 s'"
  proof -
    have ex: "task_exist p s' \<longleftrightarrow> p = 0" for p
    proof (cases "p = 0")
      case True
      then show ?thesis using ft(1) by (simp add: task_exist_def first_task_def pid_defs)
    next
      case False
      then show ?thesis using none [of p] by (auto simp: task_exist_def s'_def A(8) s1_def split: if_splits)
    qed
    have lks: "locks s' = (locks s)(SendLock 0 := 1, ChildListLock 0 := 1)"
      by (auto simp: s'_def A(6) s1_def fun_eq_iff)
    have "kinv s'" "groups_unlocked s'" using A(2,3) by (simp_all add: s'_def)
    then have "kernel_ok s'"
      using lk ft(1) f(2) by (simp add: kernel_ok_def ex lks lock_free_def first_task_def NR_CPUS_def)
    then show ?thesis by (auto simp: boot_ok_def ex lks lock_free_def)
  qed
  ultimately show thesis by (intro that [of s']) (simp_all add: cpu_def)
qed

text \<open>\<^verbatim>\<open>alloc_physical_page_sub\<close> does the work of \<^verbatim>\<open>alloc_physical_page\<close> without the lock.\<close>

lemma alloc_sub_locked:
  "alloc_physical_page_sub n (locked l s) = map_option (\<lambda>(st, r, s). (st, r, locked l s)) (alloc_physical_page_sub n s)"
  by (simp add: alloc_physical_page_sub_def Let_def split: Option.bind_split prod.split)

lemma alloc_sub_lock: "alloc_physical_page_sub n s = Some (st, r, s') \<Longrightarrow> lock_free l s' = lock_free l s"
  by (auto simp: alloc_physical_page_sub_def Let_def lock_free_def split: if_splits elim!: bind_eq_SomeE)

lemma alloc_physical_page_unlocked:
  assumes "lock_free MemLock s" and "\<not> free_pages s < n" and "n \<noteq> 0"
    and "alloc_physical_page n s = Some (K_SUCCESS, r, s')"
  shows "alloc_physical_page_sub n s = Some (K_SUCCESS, r, s')"
  using assms
  by (auto simp: alloc_physical_page_def spinlock_lock_free alloc_sub_locked spinlock_unlock_locked
      alloc_sub_lock elim!: bind_eq_SomeE split: prod.splits)


subsection \<open>The other processors\<close>

lemma sched_ok_keep:
  assumes ok: "sched_ok s c b" and b: "boot_ok k s'" and c: "cpus s' c = cpus s c" "beyond_weights s' = beyond_weights s"
    and t: "\<And>p. task_exist p s \<Longrightarrow> task_exist p s' \<and> vrun_time (tasks s' p) = vrun_time (tasks s p) \<and>
      priority (tasks s' p) = priority (tasks s p) \<and> cpu_id (tasks s' p) = cpu_id (tasks s p) \<and>
      (cpu_id (tasks s p) = c \<longrightarrow> status (tasks s' p) = status (tasks s p))"
  shows "sched_ok s' c b"
proof -
  note D = sched_okD [OF ok]
  have K: "kernel_ok s'" and lk: "\<And>p. task_exist p s' \<Longrightarrow> lock_free (SendLock p) s' \<and> lock_free (ChildListLock p) s'"
    using b by (auto simp: boot_ok_def)
  have ids: "tpid (tasks s' q) = q" if "task_exist q s'" for q using kernel_okD(6) [OF K that] .
  have q: "queue_ok s' c b"
  proof (rule queue_ok_cong [OF D(2) c])
    fix p assume "p \<in> set (task_list (cpus s c))"
    then have "task_exist p s" using D(2) by (auto simp: queue_ok_def Let_def)
    then show "vrun_time (tasks s' p) = vrun_time (tasks s p) \<and> priority (tasks s' p) = priority (tasks s p) \<and> task_exist p s'"
      using t by blast
  qed
  have w: "task_exist p s' \<and> cpu_id (tasks s' p) = c \<and> in_window b (vrun_time (tasks s' p)) \<and> parked (status (tasks s' p))"
    if "p \<in> set (waiting_list (cpus s c))" for p
    using D(9-12) [OF that] t [of p] by simp
  obtain idle where i: "idle_task (cpus s c) = Some idle" "task_exist idle s" "cpu_id (tasks s idle) = c"
      "in_window b (vrun_time (tasks s idle))" "idle \<notin> set (waiting_list (cpus s c))"
    by (rule sched_ok_idle [OF ok])
  have "task_exist idle s' \<and> cpu_id (tasks s' idle) = c \<and> in_window b (vrun_time (tasks s' idle))"
    using t [OF i(2)] i(3,4) by simp
  moreover have "lock_free (TaskListLock c) s'" using kernel_okD(4) [OF K D(1)] .
  ultimately show ?thesis
    using D(1,7,8) q ids lk w i(1,5) unfolding sched_ok_def c(1) by blast
qed

text \<open>The main task of processor \<open>c\<close>: the top of its stack is where \<^verbatim>\<open>ap_boot.S\<close> points.\<close>

definition main_made :: "addr \<Rightarrow> pid \<Rightarrow> nat \<Rightarrow> task_struct \<Rightarrow> bool" where
  "main_made base parent c t \<longleftrightarrow> ppid t = parent \<and> cpu_id t = c \<and> status t = TASK_READY \<and> exited_child_list t = [] \<and>
     tcontext t = ap_boot_rsp base (word_of_nat c)"

lemma ap_stack_top:
  assumes "0 < c" and "c < NR_CPUS"
  shows "PHYS_TO_VIRT (base + word_of_nat (c - 1) * KERNEL_STACK_SIZE) + KERNEL_STACK_SIZE = ap_boot_rsp base (word_of_nat c)"
proof -
  have "ucast (word_of_nat c :: u32) = (word_of_nat c :: u64)"
    using assms(2) by (intro ucast_of_nat_32) (simp add: NR_CPUS_def)
  moreover obtain d where "c = Suc d" using assms(1) by (cases c) auto
  ultimately show ?thesis
    by (simp add: ap_boot_rsp_def PHYS_TO_VIRT_def KERNEL_STACK_SIZE_def push_bit_eq_mult distrib_right)
qed

lemma ap_main_task_ok:
  fixes s :: "'a kernel_state_scheme"
  assumes ok: "boot_ok k s" and k: "k < 4096" and fs: "free_set s \<noteq> {}" and c: "0 < c" "c < NR_CPUS"
  obtains s' where "ap_main_tasks base (c # cs) s = ap_main_tasks base cs s'" and "boot_ok (Suc k) s'"
    and "cpus s' = (cpus s)(c := (cpus s c)\<lparr>main_task := Some (int k)\<rparr>)"
    and "main_made base (running_pid s) c (tasks s' (int k))" and "\<And>q. q \<noteq> int k \<Longrightarrow> tasks s' q = tasks s q"
    and "running_pid s' = running_pid s" and "beyond_weights s' = beyond_weights s" and "pt_mem s' = pt_mem s"
    and "card (free_set s) \<le> Suc (card (free_set s'))"
proof -
  let ?p = "int k"
  have K: "kernel_ok s" and ex: "\<And>p. task_exist p s \<longleftrightarrow> 0 \<le> p \<and> p < int k"
    and lk: "\<And>p. task_exist p s \<Longrightarrow> lock_free (SendLock p) s \<and> lock_free (ChildListLock p) s"
    using ok by (auto simp: boot_ok_def)
  note slot = boot_ok_slot [OF ok k]
  have run: "task_exist (running_pid s) s" "tpid (running_task s) = running_pid s"
    using kernel_okD(5,6) [OF K] by (auto simp: running_task_def)
  then have ne: "?p \<noteq> running_pid s" using ex by auto
  note al = task_alloc_first [OF kernel_okD(3) [OF K] slot ne]
  obtain nm where nm: "cpu_task_name c = Some nm" "length nm < 16" "0 \<notin> set nm" by (rule cpu_task_name_fits [OF c(2)])
  define kb where "kb = PHYS_TO_VIRT (base + word_of_nat (c - 1) * KERNEL_STACK_SIZE)"
  define s1 where "s1 = fresh_slot ?p s"
  have s1: "kinv s1" "groups_unlocked s1" "free_set s1 = free_set s" "running_pid s1 = running_pid s"
    using kernel_okD(1,2) [OF K] by (simp_all add: s1_def)
  have fs1: "free_set s1 \<noteq> {}" using fs s1(3) by simp
  have run1: "tpid (running_task s1) = running_pid s" using run(2) ne by (simp add: running_task_def s1_def)
  define r where "r = fresh_record ?p (nm @ replicate (32 - length nm) 0) DEFAULT_PRIORITY kb KERNEL_STACK_SIZE
    (running_pid s) (cpu_id (running_task s1))"
  obtain fx s2 where A: "do {
       (st, r, s) \<leftarrow> kmalloc FXSAVE_SIZE 0 0 (with_record ?p r s1);
       if ERROR st then Some (st, s)
       else do { a \<leftarrow> r; Some (K_SUCCESS, upd_task ?p (fxsave_region_update (\<lambda>_. a)) s) } } = Some (K_SUCCESS, s2)"
    "kinv s2" "groups_unlocked s2" "fx \<notin> live s1" "live s2 = insert fx (live s1)"
    "locks s2 = (locks s1)(SendLock ?p := 1, ChildListLock ?p := 1)" "running_pid s2 = running_pid s1"
    "tasks s2 = (tasks s1)(?p := r\<lparr>fxsave_region := fx\<rparr>)" "cpus s2 = cpus s1" "pt_mem s2 = pt_mem s1"
    "kernel_task_addr s2 = kernel_task_addr s1" "beyond_weights s2 = beyond_weights s1"
    "card (free_set s1) \<le> Suc (card (free_set s2))"
    by (rule allocate_record [OF s1(1,2) fs1])
  have init: "init_task_struct ?p nm DEFAULT_PRIORITY kb KERNEL_STACK_SIZE s1 = Some (K_SUCCESS, s2)"
    using init_task_struct_eq [of ?p s1 nm "nm @ replicate (32 - length nm) 0" DEFAULT_PRIORITY kb KERNEL_STACK_SIZE]
      ne k nm name_field_Some [of nm] A(1) run1
    by (simp add: pid_defs s1(4) r_def)
  define s' where "s' = upd_cpu c (main_task_update (\<lambda>_. Some ?p)) (upd_task ?p (cpu_id_update (\<lambda>_. c)) s2)"
  have step: "ap_main_tasks base (c # cs) s = ap_main_tasks base cs s'"
    using al init c nm(1) by (simp add: get_task_man_def kb_def s1_def s'_def)
  have t: "tasks s' ?p = r\<lparr>fxsave_region := fx, cpu_id := c\<rparr>" by (simp add: s'_def A(8))
  have tq: "tasks s' q = tasks s q" if "q \<noteq> ?p" for q using that by (simp add: s'_def A(8) s1_def)
  have top: "kb + KERNEL_STACK_SIZE = ap_boot_rsp base (word_of_nat c)" unfolding kb_def by (rule ap_stack_top [OF c])
  have mm: "main_made base (running_pid s) c (tasks s' ?p)" "tpid (tasks s' ?p) = ?p"
    by (simp_all add: t main_made_def r_def fresh_record_def zero_task_def top)
  have ex': "task_exist q s' \<longleftrightarrow> 0 \<le> q \<and> q < int (Suc k)" for q
  proof (cases "q = ?p")
    case True
    then show ?thesis using mm(2) k by (simp add: task_exist_def pid_defs)
  next
    case False
    have "task_exist q s' = task_exist q s" by (simp only: task_exist_def tq [OF False])
    then show ?thesis using ex [of q] False by auto
  qed
  have lks: "locks s' = (locks s)(SendLock ?p := 1, ChildListLock ?p := 1)"
    by (auto simp: s'_def A(6) s1_def fun_eq_iff)
  have ids: "tpid (tasks s' q) = q \<and> cpu_id (tasks s' q) < NR_CPUS" if "task_exist q s'" for q
  proof (cases "q = ?p")
    case True
    then show ?thesis using mm c(2) by (simp add: main_made_def)
  next
    case False
    then have "task_exist q s" using that ex' ex by auto
    then show ?thesis using kernel_okD(6,7) [OF K] tq [OF False] by simp
  qed
  have rp: "running_pid s' = running_pid s" by (simp add: s'_def A(7) s1(4))
  have "task_exist (running_pid s') s'" using run(1) ex ex' by (simp add: rp)
  then have "kernel_ok s'"
    using A(2,3) kernel_okD(3,4) [OF K] ids by (simp add: kernel_ok_def lks lock_free_def) (simp add: s'_def)
  moreover have "lock_free (SendLock q) s' \<and> lock_free (ChildListLock q) s'" if "task_exist q s'" for q
    using that ex' [of q] ex [of q] lk [of q] by (cases "q = ?p") (auto simp: lks lock_free_def)
  ultimately have "boot_ok (Suc k) s'" using ex' by (simp add: boot_ok_def)
  then show thesis
    using step mm(1) tq rp A(9,10,12,13) s1(3)
    by (intro that [of s']) (simp_all add: s'_def, simp_all add: s1_def upd_task_def upd_cpu_def)
qed

lemma ap_main_tasks_ok:
  fixes s :: "'a kernel_state_scheme"
  assumes "boot_ok (Suc i) s" and "0 < i" "i \<le> n" "n \<le> NR_CPUS" and "n - i \<le> card (free_set s)"
  obtains s' where "ap_main_tasks base [i..<n] s = Some (K_SUCCESS, s')" and "boot_ok (Suc n) s'"
    and "\<And>c. cpus s' c = (if i \<le> c \<and> c < n then (cpus s c)\<lparr>main_task := Some (int (Suc c))\<rparr> else cpus s c)"
    and "\<And>c. i \<le> c \<Longrightarrow> c < n \<Longrightarrow> main_made base (running_pid s) c (tasks s' (int (Suc c)))"
    and "\<And>q. q \<le> int i \<Longrightarrow> tasks s' q = tasks s q"
    and "running_pid s' = running_pid s" and "beyond_weights s' = beyond_weights s" and "pt_mem s' = pt_mem s"
    and "card (free_set s) \<le> n - i + card (free_set s')"
  using assms
proof (induction "n - i" arbitrary: i s thesis)
  case 0
  have "n = i" using "0.hyps" "0.prems"(4) by simp
  show ?case
  proof (rule "0.prems"(1) [of s])
    show "ap_main_tasks base [i..<n] s = Some (K_SUCCESS, s)" "card (free_set s) \<le> n - i + card (free_set s)"
      using \<open>n = i\<close> by simp_all
    show "boot_ok (Suc n) s" using "0.prems"(2) \<open>n = i\<close> by simp
    show "cpus s c = (if i \<le> c \<and> c < n then (cpus s c)\<lparr>main_task := Some (int (Suc c))\<rparr> else cpus s c)" for c
      using \<open>n = i\<close> by auto
    show "main_made base (running_pid s) c (tasks s (int (Suc c)))" if "i \<le> c" "c < n" for c
      using that \<open>n = i\<close> by simp
  qed (rule refl)+
next
  case (Suc d)
  have i: "i < n" "d = n - Suc i" using Suc.hyps(2) by simp_all
  have k: "Suc i < 4096" "i < NR_CPUS" using i(1) Suc.prems(5) by (simp_all add: NR_CPUS_def)
  have ne: "free_set s \<noteq> {}" using Suc.prems(6) i(1) by auto
  obtain s1 where A: "ap_main_tasks base (i # [Suc i..<n]) s = ap_main_tasks base [Suc i..<n] s1" "boot_ok (Suc (Suc i)) s1"
      "cpus s1 = (cpus s)(i := (cpus s i)\<lparr>main_task := Some (int (Suc i))\<rparr>)"
      "main_made base (running_pid s) i (tasks s1 (int (Suc i)))" "\<And>q. q \<noteq> int (Suc i) \<Longrightarrow> tasks s1 q = tasks s q"
      "running_pid s1 = running_pid s" "beyond_weights s1 = beyond_weights s" "pt_mem s1 = pt_mem s"
      "card (free_set s) \<le> Suc (card (free_set s1))"
    by (rule ap_main_task_ok [OF Suc.prems(2) k(1) ne Suc.prems(3) k(2), where base = base and cs = "[Suc i..<n]"]) blast
  have c: "n - Suc i \<le> card (free_set s1)" using Suc.prems(6) A(9) i(1) by linarith
  obtain s' where B: "ap_main_tasks base [Suc i..<n] s1 = Some (K_SUCCESS, s')" "boot_ok (Suc n) s'"
      "\<And>c. cpus s' c = (if Suc i \<le> c \<and> c < n then (cpus s1 c)\<lparr>main_task := Some (int (Suc c))\<rparr> else cpus s1 c)"
      "\<And>c. Suc i \<le> c \<Longrightarrow> c < n \<Longrightarrow> main_made base (running_pid s1) c (tasks s' (int (Suc c)))"
      "\<And>q. q \<le> int (Suc i) \<Longrightarrow> tasks s' q = tasks s1 q"
      "running_pid s' = running_pid s1" "beyond_weights s' = beyond_weights s1" "pt_mem s' = pt_mem s1"
      "card (free_set s1) \<le> n - Suc i + card (free_set s')"
    by (rule Suc.hyps(1) [OF i(2) _ A(2) _ _ Suc.prems(5) c]) (use i(1) in auto)
  show ?case
  proof (rule Suc.prems(1))
    show "ap_main_tasks base [i..<n] s = Some (K_SUCCESS, s')" using A(1) B(1) i(1) by (simp only: upt_conv_Cons)
    show "boot_ok (Suc n) s'" by (rule B(2))
    show "cpus s' c = (if i \<le> c \<and> c < n then (cpus s c)\<lparr>main_task := Some (int (Suc c))\<rparr> else cpus s c)" for c
      using i(1) by (cases "c = i") (auto simp: B(3) A(3))
    show "main_made base (running_pid s) c (tasks s' (int (Suc c)))" if "i \<le> c" "c < n" for c
    proof (cases "c = i")
      case True
      then show ?thesis using A(4) B(5) [of "int (Suc i)"] by simp
    next
      case False
      then show ?thesis using B(4) [of c] that A(6) by simp
    qed
    show "tasks s' q = tasks s q" if "q \<le> int i" for q using that B(5) [of q] A(5) [of q] by simp
    show "running_pid s' = running_pid s" "beyond_weights s' = beyond_weights s" "pt_mem s' = pt_mem s"
      using A(6-8) B(6-8) by simp_all
    show "card (free_set s) \<le> n - i + card (free_set s')" using A(9) B(9) i(1) by linarith
  qed
qed

text \<open>The state of the processors while they start; \<open>S\<close> are those that have an idle task.\<close>

definition cpus_ok :: "nat set \<Rightarrow> 'a kernel_state_scheme \<Rightarrow> bool" where
  "cpus_ok S s \<longleftrightarrow> (\<forall>c \<in> S. sched_ok s c 0) \<and>
     (\<forall>c < NR_CPUS. (c \<notin> S \<longrightarrow> fresh_cpu c s) \<and>
        (\<exists>p. main_task (cpus s c) = Some p \<and> task_exist p s \<and> cpu_id (tasks s p) = c))"

lemma ap_start_ok:
  fixes s :: "'a kernel_state_scheme"
  assumes ok: "boot_ok k s" "cpus_ok S s" and k: "k < 4096" and fs: "2 \<le> card (free_set s)" and c: "c < NR_CPUS" "c \<notin> S"
  obtains s' where "ap_start_tasks c func s = Some s'" and "boot_ok (Suc k) s'" and "cpus_ok (insert c S) s'"
    and "card (free_set s) \<le> Suc (Suc (card (free_set s')))"
    and "\<And>d. main_task (cpus s' d) = main_task (cpus s d)"
    and "\<And>p. task_exist p s \<Longrightarrow> tcontext (tasks s' p) = tcontext (tasks s p)"
    and "\<And>p. task_exist p s \<Longrightarrow> task_exist p s'"
proof -
  obtain p where p: "main_task (cpus s c) = Some p" "task_exist p s" "cpu_id (tasks s p) = c" and fr: "fresh_cpu c s"
    using ok(2) c by (auto simp: cpus_ok_def)
  define s0 where "s0 = upd_task p (status_update (\<lambda>_. TASK_RUNNING)) (s\<lparr>running_pid := p\<rparr>)"
  have t0: "tasks s0 = (tasks s)(p := (tasks s p)\<lparr>status := TASK_RUNNING\<rparr>)" "cpus s0 = cpus s" "running_pid s0 = p"
      "locks s0 = locks s" "beyond_weights s0 = beyond_weights s"
    by (simp_all add: s0_def)
  have ex0: "task_exist q s0 = task_exist q s" for q by (simp add: task_exist_def t0(1))
  have inv0: "kinv s0 = kinv s" "groups_unlocked s0 = groups_unlocked s" "free_set s0 = free_set s"
    by (rule alloc_fields_cong; simp add: s0_def upd_task_def)+
  have b0: "boot_ok k s0"
    using ok(1) p(2) by (auto simp: boot_ok_def kernel_ok_def ex0 inv0 t0 lock_free_def)
  have c0: "c = cpu_id (running_task s0)" "fresh_cpu c s0" "2 \<le> card (free_set s0)"
    using p(3) fr fs by (simp_all add: running_task_def t0 fresh_cpu_def inv0)
  obtain s' tm where I: "create_idle_task func s0 = Some s'" "boot_ok (Suc k) s'" "sched_ok s' c 0"
      "beyond_weights s' = beyond_weights s0" "\<And>q. q \<noteq> int k \<Longrightarrow> q \<noteq> running_pid s0 \<Longrightarrow> tasks s' q = tasks s0 q"
      "running_pid s' = running_pid s0" "running_task s' = childs_update atomic_inc (running_task s0)"
      "cpus s' = (cpus s0)(c := tm)" "main_task tm = main_task (cpus s0 c)"
      "card (free_set s0) \<le> Suc (Suc (card (free_set s')))"
    by (rule create_idle_task_ok [OF b0 k c0(3,1,2), of func]) blast
  have old: "q \<noteq> int k" if "task_exist q s" for q using that ok(1) by (auto simp: boot_ok_def)
  have r: "tasks s' p = childs_update atomic_inc ((tasks s p)\<lparr>status := TASK_RUNNING\<rparr>)"
    using I(6,7) by (simp add: running_task_def t0(1,3))
  have o: "tasks s' q = tasks s q" if "task_exist q s" "q \<noteq> p" for q
    using I(5) [OF old [OF that(1)]] that(2) by (simp add: t0(1,3))
  have keep: "vrun_time (tasks s' q) = vrun_time (tasks s q)" "priority (tasks s' q) = priority (tasks s q)"
      "cpu_id (tasks s' q) = cpu_id (tasks s q)" "tcontext (tasks s' q) = tcontext (tasks s q)"
      "q \<noteq> p \<Longrightarrow> status (tasks s' q) = status (tasks s q)" if "task_exist q s" for q
    by (cases "q = p"; simp add: r o that)+
  have ex': "task_exist q s'" if "task_exist q s" for q
    using that ok(1) I(2) by (auto simp: boot_ok_def)
  have run: "ap_start_tasks c func s = Some s'"
    using I(1) c(1) p(1) by (simp add: ap_start_tasks_def get_task_man_def s0_def)
  have mt: "main_task (cpus s' d) = main_task (cpus s d)" for d using I(8,9) t0(2) by simp
  have "cpus_ok (insert c S) s'"
    unfolding cpus_ok_def
  proof (intro conjI ballI allI impI)
    fix d assume d: "d \<in> insert c S"
    show "sched_ok s' d 0"
    proof (cases "d = c")
      case False
      then have "sched_ok s d 0" using d ok(2) by (simp add: cpus_ok_def)
      then show ?thesis
      proof (rule sched_ok_keep [OF _ I(2)])
        show "cpus s' d = cpus s d" "beyond_weights s' = beyond_weights s" using I(4,8) t0 False by simp_all
        fix q assume "task_exist q s"
        note q = keep [OF this] ex' [OF this]
        show "task_exist q s' \<and> vrun_time (tasks s' q) = vrun_time (tasks s q) \<and> priority (tasks s' q) = priority (tasks s q) \<and>
          cpu_id (tasks s' q) = cpu_id (tasks s q) \<and> (cpu_id (tasks s q) = d \<longrightarrow> status (tasks s' q) = status (tasks s q))"
          using q(1-3,6) q(5) p(3) False by (cases "q = p") simp_all
      qed
    qed (simp add: I(3))
  next
    fix d assume d: "d < NR_CPUS"
    show "fresh_cpu d s'" if "d \<notin> insert c S" using that d ok(2) I(8) t0(2) by (simp add: cpus_ok_def fresh_cpu_def)
    show "\<exists>p. main_task (cpus s' d) = Some p \<and> task_exist p s' \<and> cpu_id (tasks s' p) = d"
      using ok(2) d mt ex' keep(3) by (metis cpus_ok_def)
  qed
  then show thesis using that [OF run I(2)] I(10) inv0(3) mt keep(4) ex' by simp
qed

lemma ap_starts_ok:
  fixes s :: "'a kernel_state_scheme"
  assumes "boot_ok k s" "cpus_ok S s" and "k + length cs \<le> 4096" and "2 * length cs \<le> card (free_set s)"
    and "distinct cs" "set cs \<inter> S = {}" "set cs \<subseteq> {..<NR_CPUS}"
  obtains s' where "fold_option (\<lambda>c. ap_start_tasks c func) cs s = Some s'" and "boot_ok (k + length cs) s'"
    and "cpus_ok (set cs \<union> S) s'" and "\<And>d. main_task (cpus s' d) = main_task (cpus s d)"
    and "\<And>p. task_exist p s \<Longrightarrow> tcontext (tasks s' p) = tcontext (tasks s p)"
  using assms
proof (induction cs arbitrary: k S s thesis)
  case (Cons c cs)
  have a: "k < 4096" "2 \<le> card (free_set s)" "c < NR_CPUS" "c \<notin> S" using Cons.prems by auto
  obtain s1 where A: "ap_start_tasks c func s = Some s1" "boot_ok (Suc k) s1" "cpus_ok (insert c S) s1"
      "card (free_set s) \<le> Suc (Suc (card (free_set s1)))" "\<And>d. main_task (cpus s1 d) = main_task (cpus s d)"
      "\<And>p. task_exist p s \<Longrightarrow> tcontext (tasks s1 p) = tcontext (tasks s p)" "\<And>p. task_exist p s \<Longrightarrow> task_exist p s1"
    by (rule ap_start_ok [OF Cons.prems(2,3) a, of func]) blast
  have h: "Suc k + length cs \<le> 4096" "2 * length cs \<le> card (free_set s1)" "distinct cs" "set cs \<inter> insert c S = {}"
      "set cs \<subseteq> {..<NR_CPUS}"
    using Cons.prems A(4) by auto
  obtain s' where B: "fold_option (\<lambda>c. ap_start_tasks c func) cs s1 = Some s'" "boot_ok (Suc k + length cs) s'"
      "cpus_ok (set cs \<union> insert c S) s'" "\<And>d. main_task (cpus s' d) = main_task (cpus s1 d)"
      "\<And>p. task_exist p s1 \<Longrightarrow> tcontext (tasks s' p) = tcontext (tasks s1 p)"
    by (rule Cons.IH [OF _ A(2,3) h]) blast
  show ?case
    by (rule Cons.prems(1) [of s']) (use A B in auto)
qed simp

lemma boot_ok_cong:
  assumes "boot_ok k s" and "kinv s'" "groups_unlocked s'" "locks s' = locks s" "running_pid s' = running_pid s" "tasks s' = tasks s"
  shows "boot_ok k s'"
proof -
  have "task_exist p s' = task_exist p s" for p by (simp add: task_exist_def assms(6))
  then show ?thesis using assms by (auto simp: boot_ok_def kernel_ok_def lock_free_def)
qed

lemma cpus_ok_mains:
  assumes "kernel_ok s" and "cpus_ok S s" and "\<And>c. c < NR_CPUS \<Longrightarrow> main_task (cpus s c) \<noteq> Some parent"
  shows "mains_ok s parent"
  unfolding mains_ok_def
proof (intro allI impI)
  fix p assume "task_exist p s"
  then have c: "cpu_id (tasks s p) < NR_CPUS" using kernel_okD(7) [OF assms(1)] by blast
  then obtain q where q: "main_task (cpus s (cpu_id (tasks s p))) = Some q" "task_exist q s"
    using assms(2) by (auto simp: cpus_ok_def)
  then show "cpu_id (tasks s p) < NR_CPUS \<and> main_task (cpus s (cpu_id (tasks s p))) \<noteq> None \<and> main_of s p \<noteq> parent \<and>
     task_exist (main_of s p) s \<and> tpid (tasks s (main_of s p)) = main_of s p"
    using c assms(3) [OF c] kernel_okD(6) [OF assms(1) q(2)] by (simp add: main_of_def)
qed

text \<open>The stacks of the other processors.\<close>

lemma ap_stacks_ok:
  fixes s :: "'a kernel_state_scheme"
  assumes ok: "boot_ok k s" and stacks: "{f..<f + 8} \<subseteq> free_set s"
  obtains base s1 where "alloc_physical_page AP_STACK_PAGES s = Some (K_SUCCESS, Some base, s1)" and "boot_ok k s1"
    and "cpus s1 = cpus s" "tasks s1 = tasks s" "running_pid s1 = running_pid s" "beyond_weights s1 = beyond_weights s"
    and "card (free_set s) \<le> 8 + card (free_set s1)"
proof -
  have inv: "kinv s" "groups_unlocked s" using ok kernel_okD(1,2) [of s] by (simp_all add: boot_ok_def)
  have pages: "AP_STACK_PAGES \<noteq> 0" "unat AP_STACK_PAGES = 8"
    by (simp_all add: AP_STACK_PAGES_def KERNEL_STACK_SIZE_def PG_SIZE_def)
  have "f + 7 \<in> free_set s" using stacks by auto
  then have "f + 8 \<le> page_limit s \<and> {f..<f + 8} \<subseteq> free_set s" using stacks by (simp add: free_set_def)
  then obtain p b where A: "alloc_physical_page AP_STACK_PAGES s = Some (K_SUCCESS, Some (word_of_nat p * PG_SIZE),
        s\<lparr>page_bitmap := b, free_pages := free_pages s - AP_STACK_PAGES\<rparr>)"
      "phys_inv (s\<lparr>page_bitmap := b, free_pages := free_pages s - AP_STACK_PAGES\<rparr>)"
      "page_limit (s\<lparr>page_bitmap := b\<rparr>) = page_limit s" "free_set (s\<lparr>page_bitmap := b\<rparr>) = free_set s - {p..<p + 8}"
    using pages(2) by (cases rule: alloc_physical_page_cases [OF kinvD(1,2) [OF inv(1)] pages(1)]) auto
  define s1 where "s1 = s\<lparr>page_bitmap := b, free_pages := free_pages s - AP_STACK_PAGES\<rparr>"
  have fs1: "free_set s1 = free_set s - {p..<p + 8}" using A(4) by (simp add: s1_def)
  have "kinv s1" by (rule kinv_alloc_page [OF inv(1)]) (use A(2,3) fs1 in \<open>auto simp: s1_def\<close>)
  moreover have "groups_unlocked s1" using inv(2) by (simp add: groups_unlocked_def s1_def lock_free_def)
  ultimately have "boot_ok k s1" by (intro boot_ok_cong [OF ok]) (simp_all add: s1_def)
  moreover have "card (free_set s) \<le> 8 + card (free_set s1)"
    using diff_card_le_card_Diff [of "{p..<p + 8}" "free_set s"] by (simp add: fs1)
  ultimately show thesis using A(1) by (intro that [of _ s1]) (simp_all add: s1_def)
qed

text \<open>After \<^verbatim>\<open>smp_init\<close> every processor has a main task.\<close>

lemma smp_init_ok:
  fixes s :: "'a proc_state_scheme" and t :: "'i intr_state"
  assumes ok: "boot_ok 2 s" and main: "cpu_id (tasks s 0) = 0" "main_task (cpus s 0) = Some 0"
    and sched: "sched_ok s 0 0" and fresh: "\<And>c. 0 < c \<Longrightarrow> c < NR_CPUS \<Longrightarrow> fresh_cpu c s"
    and stacks: "{f..<f + 8} \<subseteq> free_set s" and mem: "263 \<le> card (free_set s)"
  obtains base s1 where "smp_init H a code sz panic (s, t, h) =
      Some (K_SUCCESS, s1, register_handle 0x81 panic t, init_ipi H a h)"
    and "boot_ok (Suc NR_CPUS) s1" and "cpus_ok {0} s1" and "pt_mem s1 AP_STACK_BASE_PTR = base"
    and "\<forall>c. 0 < c \<longrightarrow> c < NR_CPUS \<longrightarrow> main_task (cpus s1 c) = Some (int (Suc c)) \<and>
      tcontext (tasks s1 (int (Suc c))) = ap_boot_rsp base (word_of_nat c)"
    and "card (free_set s) \<le> 263 + card (free_set s1)"
proof -
  define s0 where "s0 = s\<lparr>bytes := memcpy (bytes s) (PHYS_TO_VIRT 0x10000) code sz\<rparr>"
  have g0: "kinv s0 = kinv s" "groups_unlocked s0 = groups_unlocked s" "free_set s0 = free_set s"
    by (rule alloc_fields_cong; simp add: s0_def)+
  have "boot_ok 2 s0"
    using ok by (intro boot_ok_cong [OF ok]) (simp_all add: g0 boot_ok_def kernel_ok_def, simp_all add: s0_def)
  moreover have "{f..<f + 8} \<subseteq> free_set s0" using stacks by (simp add: g0)
  ultimately obtain base s1 where A: "alloc_physical_page AP_STACK_PAGES s0 = Some (K_SUCCESS, Some base, s1)" "boot_ok 2 s1"
      "cpus s1 = cpus s0" "tasks s1 = tasks s0" "running_pid s1 = running_pid s0" "beyond_weights s1 = beyond_weights s0"
      "card (free_set s0) \<le> 8 + card (free_set s1)"
    by (rule ap_stacks_ok)
  define s2 where "s2 = s1\<lparr>pt_mem := (pt_mem s1)(AP_STACK_BASE_PTR := base)\<rparr>"
  have g2: "kinv s2 = kinv s1" "groups_unlocked s2 = groups_unlocked s1" "free_set s2 = free_set s1"
    by (rule alloc_fields_cong; simp add: s2_def)+
  have f2: "tasks s2 = tasks s" "cpus s2 = cpus s" "beyond_weights s2 = beyond_weights s"
    using A(3-6) by (simp_all add: s2_def s0_def)
  have b2: "boot_ok (Suc 1) s2"
    unfolding One_nat_def numeral_2_eq_2 [symmetric]
    by (rule boot_ok_cong [OF A(2)]) (use A(2) in \<open>simp_all add: g2 boot_ok_def kernel_ok_def\<close>, simp_all add: s2_def)
  have c2: "card (free_set s) \<le> 8 + card (free_set s2)" using A(7) by (simp add: g2 g0)
  then have c3: "NR_CPUS - 1 \<le> card (free_set s2)" using mem by (simp add: NR_CPUS_def)
  obtain s3 where B: "ap_main_tasks base [1..<NR_CPUS] s2 = Some (K_SUCCESS, s3)" "boot_ok (Suc NR_CPUS) s3"
      "\<And>c. cpus s3 c = (if 1 \<le> c \<and> c < NR_CPUS then (cpus s2 c)\<lparr>main_task := Some (int (Suc c))\<rparr> else cpus s2 c)"
      "\<And>c. 1 \<le> c \<Longrightarrow> c < NR_CPUS \<Longrightarrow> main_made base (running_pid s2) c (tasks s3 (int (Suc c)))"
      "\<And>q. q \<le> int 1 \<Longrightarrow> tasks s3 q = tasks s2 q" "running_pid s3 = running_pid s2"
      "beyond_weights s3 = beyond_weights s2" "pt_mem s3 = pt_mem s2"
      "card (free_set s2) \<le> NR_CPUS - 1 + card (free_set s3)"
    by (rule ap_main_tasks_ok [OF b2 _ _ _ c3, where base = base]) (simp_all add: NR_CPUS_def)
  have ex3: "task_exist p s3 \<longleftrightarrow> 0 \<le> p \<and> p \<le> int NR_CPUS" for p using B(2) by (auto simp: boot_ok_def)
  have mt3: "main_task (cpus s3 c) = Some (int (Suc c)) \<and> cpu_id (tasks s3 (int (Suc c))) = c \<and>
      tcontext (tasks s3 (int (Suc c))) = ap_boot_rsp base (word_of_nat c)" if "0 < c" "c < NR_CPUS" for c
    using B(3) [of c] B(4) [of c] that by (simp add: main_made_def)
  have "sched_ok s3 0 0"
  proof (rule sched_ok_keep [OF sched B(2)])
    show "cpus s3 0 = cpus s 0" "beyond_weights s3 = beyond_weights s" using B(3) [of 0] B(7) f2 by simp_all
    fix p assume "task_exist p s"
    then have p: "0 \<le> p" "p \<le> 1" using ok by (auto simp: boot_ok_def)
    then show "task_exist p s3 \<and> vrun_time (tasks s3 p) = vrun_time (tasks s p) \<and> priority (tasks s3 p) = priority (tasks s p) \<and>
        cpu_id (tasks s3 p) = cpu_id (tasks s p) \<and> (cpu_id (tasks s p) = 0 \<longrightarrow> status (tasks s3 p) = status (tasks s p))"
      using B(5) [of p] f2(1) ex3 [of p] by (simp add: NR_CPUS_def)
  qed
  moreover have "fresh_cpu c s3" if "c \<noteq> 0" "c < NR_CPUS" for c
    using fresh [of c] that B(3) [of c] f2(2) by (simp add: fresh_cpu_def)
  moreover have "\<exists>p. main_task (cpus s3 c) = Some p \<and> task_exist p s3 \<and> cpu_id (tasks s3 p) = c" if "c < NR_CPUS" for c
    using main B(3) [of 0] B(5) [of 0] f2 ex3 [of 0] mt3 [of c] that ex3 [of "int (Suc c)"] by (cases "c = 0") simp_all
  ultimately have "cpus_ok {0} s3" by (auto simp: cpus_ok_def)
  moreover have "smp_init H a code sz panic (s, t, h) = Some (K_SUCCESS, s3, register_handle 0x81 panic t, init_ipi H a h)"
    unfolding smp_init_def Let_def split s0_def [symmetric] A(1) using B(1) by (simp add: s2_def)
  moreover have "pt_mem s3 AP_STACK_BASE_PTR = base" by (simp add: B(8) s2_def)
  moreover have "card (free_set s) \<le> 263 + card (free_set s3)" using c2 B(9) by (simp add: NR_CPUS_def)
  ultimately show thesis using that B(2) mt3 by blast
qed

text \<open>C4: The other processors: after \<^verbatim>\<open>task_init\<close>, and with enough memory, \<^verbatim>\<open>smp_init\<close> succeeds and makes a
  main task for each of the 255 of them, whose stack ends where \<^verbatim>\<open>ap_boot.S\<close> points the processor with that number.
  Whichever processors then start, in whatever order, each of them and the first one satisfy the scheduler's invariant;
  and the condition under which \<^verbatim>\<open>task_exit\<close> leaves no orphan holds for every task that is not a main task.\<close>

theorem processors_start:
  fixes s :: "'a proc_state_scheme" and t :: "'i intr_state"
  assumes ok: "boot_ok 2 s" and main: "cpu_id (tasks s 0) = 0" "main_task (cpus s 0) = Some 0"
    and sched: "sched_ok s 0 0" and fresh: "\<And>c. 0 < c \<Longrightarrow> c < NR_CPUS \<Longrightarrow> fresh_cpu c s"
    and stacks: "{f..<f + 8} \<subseteq> free_set s" and mem: "263 + 2 * length cs \<le> card (free_set s)"
    and cs: "distinct cs" "set cs \<subseteq> {1..<NR_CPUS}"
  shows "\<exists>base s1 s2. smp_init H a code sz panic (s, t, h) =
      Some (K_SUCCESS, s1, register_handle 0x81 panic t, init_ipi H a h) \<and>
    fold_option (\<lambda>c. ap_start_tasks c func) cs s1 = Some s2 \<and> kernel_ok s2 \<and>
    (\<forall>c \<in> insert 0 (set cs). sched_ok s2 c 0) \<and> pt_mem s1 AP_STACK_BASE_PTR = base \<and>
    (\<forall>c. 0 < c \<longrightarrow> c < NR_CPUS \<longrightarrow> main_task (cpus s2 c) = Some (int (Suc c)) \<and>
       tcontext (tasks s2 (int (Suc c))) = ap_boot_rsp base (word_of_nat c)) \<and>
    (\<forall>p. (\<forall>c < NR_CPUS. main_task (cpus s2 c) \<noteq> Some p) \<longrightarrow> mains_ok s2 p)"
proof -
  have m: "263 \<le> card (free_set s)" using mem by simp
  obtain s1 base where A: "smp_init H a code sz panic (s, t, h) =
      Some (K_SUCCESS, s1, register_handle 0x81 panic t, init_ipi H a h)"
    "boot_ok (Suc NR_CPUS) s1" "cpus_ok {0} s1" "pt_mem s1 AP_STACK_BASE_PTR = base"
    "\<forall>c. 0 < c \<longrightarrow> c < NR_CPUS \<longrightarrow> main_task (cpus s1 c) = Some (int (Suc c)) \<and>
      tcontext (tasks s1 (int (Suc c))) = ap_boot_rsp base (word_of_nat c)"
    "card (free_set s) \<le> 263 + card (free_set s1)"
    by (rule smp_init_ok [OF ok main sched fresh stacks m, where H = H and a = a and code = code and sz = sz and panic = panic and t = t and h = h]) blast
  have "length cs \<le> 255"
    using card_mono [OF _ cs(2)] distinct_card [OF cs(1)] by (simp add: NR_CPUS_def)
  then have l: "Suc NR_CPUS + length cs \<le> 4096" by (simp add: NR_CPUS_def)
  have "2 * length cs \<le> card (free_set s1)" using A(6) mem by simp
  moreover have "set cs \<inter> {0} = {}" "set cs \<subseteq> {..<NR_CPUS}" using cs(2) by auto
  ultimately obtain s2 where C: "fold_option (\<lambda>c. ap_start_tasks c func) cs s1 = Some s2" "boot_ok (Suc NR_CPUS + length cs) s2"
      "cpus_ok (set cs \<union> {0}) s2" "\<And>d. main_task (cpus s2 d) = main_task (cpus s1 d)"
      "\<And>p. task_exist p s1 \<Longrightarrow> tcontext (tasks s2 p) = tcontext (tasks s1 p)"
    using ap_starts_ok [OF A(2,3) l _ cs(1), where func = func] by metis
  have k: "kernel_ok s2" using C(2) by (simp add: boot_ok_def)
  have "task_exist (int (Suc c)) s1" if "c < NR_CPUS" for c using A(2) that by (simp add: boot_ok_def)
  then have "main_task (cpus s2 c) = Some (int (Suc c)) \<and>
       tcontext (tasks s2 (int (Suc c))) = ap_boot_rsp base (word_of_nat c)" if "0 < c" "c < NR_CPUS" for c
    using A(5) [rule_format, OF that] C(4) [of c] C(5) [of "int (Suc c)"] that(2) by simp
  moreover have "mains_ok s2 p" if "\<forall>c < NR_CPUS. main_task (cpus s2 c) \<noteq> Some p" for p
    using that by (intro cpus_ok_mains [OF k C(3)]) blast
  moreover have "\<forall>c \<in> insert 0 (set cs). sched_ok s2 c 0" using C(3) by (simp add: cpus_ok_def)
  ultimately show ?thesis using A(1,4) C(1) k by blast
qed

subsection \<open>Examples\<close>


text \<open>A machine with a gigabyte of memory after \<^verbatim>\<open>task_init\<close>.\<close>

definition big_phys :: phys_state where
  "big_phys = \<lparr>locks = \<lambda>_. 1, preempt_count = \<lambda>_. 0, running_pid = 0,
     page_bitmap = \<lparr>btmp_bytes_len = 128, bmap = 0 # replicate 127 0xff\<rparr>,
     mem_size = 0x80000000, total_pages = 1024, total_free_pages = 1016, free_pages = 1016\<rparr>"

definition big_raw :: alloc_state where
  "big_raw = phys_state.extend big_phys
     \<lparr>mem_groups = replicate 13 \<lparr>block_size = 0, total_free = 0, free_block_list = []\<rparr>,
      caches = (\<lambda>_. None), magic = (\<lambda>_. 0)\<rparr>"

definition big_main :: task_struct where
  "big_main = zero_task\<lparr>status := TASK_RUNNING, priority := DEFAULT_PRIORITY\<rparr>"

definition big_man :: task_man where
  "big_man = zero_man\<lparr>main_task := Some 0, idle_task := Some 1\<rparr>"

definition big_boot :: proc_state where
  "big_boot = kernel_state.extend (pt_state.extend
     (alloc_state.extend (mem_allocator_init big_raw) \<lparr>pt_mem = (\<lambda>_. 0), cr3 = 0\<rparr>)
     \<lparr>tasks = (\<lambda>p. if p = 0 then big_main else if p = 1 then zero_task\<lparr>tpid := 1\<rparr> else zero_task\<lparr>tpid := PID_NO_TASK\<rparr>),
      cpus = (\<lambda>c. if c = 0 then big_man else zero_man), intr_on = False, ticks = 0,
      kernel_task_addr = 0xffff800000123450, beyond_weights = (\<lambda>_. 0),
      service_pid_table = [PID_NO_TASK, 0, 0, 0, 0], tss_rsp0 = (\<lambda>_. 0)\<rparr>)
     \<lparr>start_process_addr = 0, proc_start_addr = 0, vmm_free_ptr = (\<lambda>_. 0), vmm_using_ptr = (\<lambda>_. 0), bytes = (\<lambda>_. 0)\<rparr>"

lemma big_free_set: "free_set big_phys = {8..<1024}"
proof -
  have "bmbit (page_bitmap big_phys) i \<longleftrightarrow> 8 \<le> i" if "i < 1024" for i
  proof (cases "i < 8")
    case True
    then show ?thesis by (simp add: bmbit_def big_phys_def)
  next
    case False
    then have "0 < i div 8" "i div 8 < 128" using that by (simp_all add: div_greater_zero_iff less_mult_imp_div_less)
    then have "(0 # replicate 127 0xff) ! (i div 8) = (0xff :: u8)" by (simp add: nth_Cons')
    moreover have "bit (0xff :: u8) (i mod 8)"
      using bit_mask_iff [of 8 "i mod 8", where 'a = u8] by (simp add: mask_eq_exp_minus_1)
    ultimately show ?thesis using False by (simp add: bmbit_def big_phys_def)
  qed
  then show ?thesis by (auto simp: free_set_def page_limit_def big_phys_def)
qed

lemma big_inv: "kinv big_boot" "groups_unlocked big_boot" "free_set big_boot = {8..<1024}" "locks big_boot l = 1" "running_pid big_boot = 0"
proof -
  have pb: "page_bitmap big_raw = page_bitmap big_phys" "free_pages big_raw = free_pages big_phys"
      "locks big_raw = locks big_phys" "running_pid big_raw = 0" "length (mem_groups big_raw) = 13" "caches big_raw = (\<lambda>_. None)"
    by (simp_all add: big_raw_def phys_state.extend_def big_phys_def)
  have "phys_inv big_phys"
    unfolding phys_inv_def slack_def big_free_set
    by (simp add: big_phys_def phys_wf_def bitmap_wf_def PAGE_BITMAP_BYTES_LEN_def)
  then have "phys_inv big_raw" using phys_inv_cong(1) [of big_raw big_phys] pb by simp
  moreover have "lock_free MemLock big_raw" by (simp add: lock_free_def pb(3) big_phys_def)
  ultimately have inv: "kinv (mem_allocator_init big_raw)" "groups_unlocked (mem_allocator_init big_raw)"
    using mem_allocator_init_kinv [of big_raw] pb(5,6) by blast+
  have l: "locks (mem_allocator_init big_raw) l = 1" for l
    unfolding mem_allocator_init_def by (rule init_groups_locks) (simp add: pb(3) big_phys_def)
  have r: "running_pid (init_groups n bs s) = running_pid s" for n bs and s :: alloc_state
    by (induction n arbitrary: bs s) (simp_all add: Let_def init_spinlock_def)
  have o: "page_bitmap (mem_allocator_init big_raw) = page_bitmap big_phys"
    using init_groups_other [of 13 MIN_ALLOCATE_MEMORY_SIZE big_raw] pb(1)
    by (simp add: mem_allocator_init_def NUMBER_OF_MEMORY_BLOCK_TYPES_def)
  have f: "page_bitmap big_boot = page_bitmap (mem_allocator_init big_raw)"
      "free_pages big_boot = free_pages (mem_allocator_init big_raw)" "locks big_boot = locks (mem_allocator_init big_raw)"
      "mem_groups big_boot = mem_groups (mem_allocator_init big_raw)" "caches big_boot = caches (mem_allocator_init big_raw)"
      "magic big_boot = magic (mem_allocator_init big_raw)" "running_pid big_boot = running_pid (mem_allocator_init big_raw)"
    by (simp_all add: big_boot_def kernel_state.extend_def pt_state.extend_def alloc_state.extend_def)
  show "locks big_boot l = 1" "running_pid big_boot = 0" by (simp_all add: f l) (simp add: mem_allocator_init_def r pb)
  show "kinv big_boot" using inv(1) kinv_cong [of big_boot "mem_allocator_init big_raw"] f by (simp add: lock_free_def)
  show "groups_unlocked big_boot" using inv(2) by (simp add: groups_unlocked_def lock_free_def f(3))
  show "free_set big_boot = {8..<1024}" using big_free_set by (simp add: free_set_def page_limit_def f(1) o)
qed

lemma big_fields:
  "tasks big_boot p = (if p = 0 then big_main else if p = 1 then zero_task\<lparr>tpid := 1\<rparr> else zero_task\<lparr>tpid := PID_NO_TASK\<rparr>)"
  "cpus big_boot c = (if c = 0 then big_man else zero_man)"
  by (simp_all add: big_boot_def kernel_state.extend_def pt_state.extend_def)

lemma big_boot_ok: "boot_ok 2 big_boot" "sched_ok big_boot 0 0" "0 < c \<Longrightarrow> fresh_cpu c big_boot"
proof -
  have ex: "task_exist p big_boot \<longleftrightarrow> p = 0 \<or> p = 1" for p
    by (auto simp: task_exist_def big_fields pid_defs big_main_def zero_task_def)
  have two: "p = 0 \<or> p = 1 \<longleftrightarrow> 0 \<le> p \<and> p < int 2" for p :: int by auto
  show b: "boot_ok 2 big_boot"
    by (auto simp: boot_ok_def kernel_ok_def ex big_inv lock_free_def NR_CPUS_def big_fields big_main_def zero_task_def)
  show "0 < c \<Longrightarrow> fresh_cpu c big_boot" by (simp add: fresh_cpu_def big_fields zero_man_def)
  show "sched_ok big_boot 0 0"
    by (auto simp: sched_ok_def queue_ok_def vsorted_def ex big_inv lock_free_def NR_CPUS_def big_fields big_main_def
        zero_task_def big_man_def zero_man_def in_window_def vdist_def)
qed

lemma processors_start_witness:
  "\<forall>a t h panic. \<exists>base s1 s2. smp_init example_ioapic a 0x100000 0x200 panic (big_boot, t, h) =
      Some (K_SUCCESS, s1, register_handle 0x81 panic t, init_ipi example_ioapic a h) \<and>
    fold_option (\<lambda>c. ap_start_tasks c 0x123000) [3, 1, 2] s1 = Some s2 \<and> sched_ok s2 1 0 \<and>
    tcontext (tasks s2 4) = ap_boot_rsp base 3"
proof (intro allI)
  fix a t h panic
  have m: "cpu_id (tasks big_boot 0) = 0" "main_task (cpus big_boot 0) = Some 0"
    by (simp_all add: big_fields big_main_def big_man_def zero_task_def)
  have fs: "{8..<8 + 8} \<subseteq> free_set big_boot" "263 + 2 * length [3 :: nat, 1, 2] \<le> card (free_set big_boot)"
    by (simp_all add: big_inv)
  have cs: "distinct [3 :: nat, 1, 2]" "set [3 :: nat, 1, 2] \<subseteq> {1..<NR_CPUS}" by (simp_all add: NR_CPUS_def)
  show "\<exists>base s1 s2. smp_init example_ioapic a 0x100000 0x200 panic (big_boot, t, h) =
      Some (K_SUCCESS, s1, register_handle 0x81 panic t, init_ipi example_ioapic a h) \<and>
    fold_option (\<lambda>c. ap_start_tasks c 0x123000) [3, 1, 2] s1 = Some s2 \<and> sched_ok s2 1 0 \<and>
    tcontext (tasks s2 4) = ap_boot_rsp base 3"
    using processors_start [OF big_boot_ok(1) m big_boot_ok(2,3) fs cs, of example_ioapic a "0x100000" "0x200" panic t h "0x123000"]
    by (auto simp: NR_CPUS_def dest!: spec [of _ "3 :: nat"])
qed

end
