(* ===== verification/Spec2Isabelle.thy ===== *)
theory Spec2Isabelle
  imports DList BitmapAlloc FifoQueue CString Stdio VmmRanges SyncLocks PhysPages KMalloc PageTable Tasks
    Ipc IpcSystem Scheduler SchedProps Semaphore Proc KernServices UserPages SoftIrq RamFs ElfLoad ConfigFile Symbols
    Hardware Pci XhciState Xhci XhciRing XhciPipe XhciSetup UsbDesc Usb
    AsmLibc Console BootPages BootElf BootMain Descriptors Intr Apic Timer UserLib StartUp
begin

text \<open>
  A verification development of the Clay Figure kernel, a micro-kernel in C for x86-64 processors.

  \<^bold>\<open>The program.\<close> Tasks are scheduled by virtual run time on each processor and communicate by synchronous
  messages. Kernel services (processes, memory) and service tasks (ticks, memory, display, USB, keyboard)
  are reached by sending a message. Processes live in an address space of their own, whose pages are given
  out as ranges of addresses and backed by page frames when they are first touched. Frames come from a
  bitmap, kernel memory from a block allocator over frames. The boot loader passes a map of memory and a
  file image (ramfs), from which the configuration is read.

  \<^bold>\<open>The model.\<close> Paths are relative to \<^verbatim>\<open>src/\<close> of the kernel; \<^verbatim>\<open>arch\<close> abbreviates
  \<^verbatim>\<open>src/arch/x86_64\<close>. C functions are HOL functions on explicit states, C integers are words of their
  width. A function that can reach a failing assertion, a null or wild pointer, a division by zero or a
  lock that is never released returns an option; \<open>None\<close> is such a fault, so a theorem that a call yields
  \<open>Some\<close> says that it returns. Status codes are values of the same names. The states are records, each of
  which extends the one before it: physical pages, the heap, page tables, tasks and processors, processes.

  \<^item> \<open>Prelude\<close>: status codes, addresses, the option monad's \<open>assert\<close> and folds, facts on words and lists.
  \<^item> \<open>DList\<close> (\<^verbatim>\<open>src/lib/list.c\<close>): intrusive lists as a heap of nodes; refinement of a sequence.
  \<^item> \<open>BitmapAlloc\<close> (\<^verbatim>\<open>src/lib/bitmap.c\<close>): scans and searches for runs.
  \<^item> \<open>FifoQueue\<close> (\<^verbatim>\<open>src/lib/fifo.c\<close>): the ring buffer; equivalence with a bounded queue.
  \<^item> \<open>CString\<close> (\<^verbatim>\<open>src/lib/string.c\<close>), \<open>Stdio\<close> (\<^verbatim>\<open>src/lib/stdio.c\<close>): memory blocks, strings, formatted output.
  \<^item> \<open>AsmLibc\<close> (\<^verbatim>\<open>arch/lib/asm_libc.S\<close>): the same functions in assembly, over registers, flags and
    memory; where they agree with those in C, and where they do not.
  \<^item> \<open>VmmRanges\<close> (\<^verbatim>\<open>src/mem/vmm.c\<close>): tables of ranges; refinement of sets of addresses.
  \<^item> \<open>SyncLocks\<close> (\<^verbatim>\<open>arch/sync\<close>): atomic operations, spinlocks, interleaved processors.
  \<^item> \<open>PhysPages\<close>, \<open>PageTable\<close> (\<^verbatim>\<open>arch/mem/page.c\<close>), \<open>KMalloc\<close> (\<^verbatim>\<open>src/mem/allocator.c\<close>): memory.
  \<^item> \<open>Tasks\<close> (\<^verbatim>\<open>arch/task/task.c\<close>), \<open>Scheduler\<close> and \<open>SchedProps\<close> (\<^verbatim>\<open>arch/task/schedule.c\<close>): the life of a
    task, its states and queues, and the choice of the next task.
  \<^item> \<open>Ipc\<close>, \<open>IpcSystem\<close> (\<^verbatim>\<open>arch/syscall/ipc.c\<close>): messages. The functions are cut where they block; the
    step relation \<open>ipc_step\<close> interleaves the parts, and its invariant is proved by rule induction.
  \<^item> \<open>Semaphore\<close> (\<^verbatim>\<open>src/sync/semaphore.c\<close>), \<open>SoftIrq\<close> (\<^verbatim>\<open>src/softirq/softirq.c\<close>).
  \<^item> \<open>Proc\<close> (\<^verbatim>\<open>arch/task/proc.c\<close>), \<open>KernServices\<close> (\<^verbatim>\<open>src/kernel/service\<close>, \<^verbatim>\<open>arch/syscall/syscall.c\<close>,
    \<^verbatim>\<open>src/service\<close>): processes, page faults, system calls and services.
  \<^item> \<open>Frames\<close>, \<open>UserPages\<close>: the composition of ranges, frames, heap and page tables; what a process sees
    when it asks for pages, touches them and gives them back.
  \<^item> \<open>RamFs\<close> (\<^verbatim>\<open>src/ramfs\<close>, \<^verbatim>\<open>tools/imgcopy.c\<close>), \<open>ElfLoad\<close> (\<^verbatim>\<open>src/elf\<close>), \<open>ConfigFile\<close>
    (\<^verbatim>\<open>src/kernel/config.c\<close>), \<open>Symbols\<close> (\<^verbatim>\<open>src/kernel/symbols.c\<close>): the files that come with the kernel.
  \<^item> \<open>Hardware\<close>, \<open>Pci\<close> (\<^verbatim>\<open>arch/device/pci\<close>): ports and registers as functions of a state of the
    hardware; the scan of the buses, base addresses, capabilities, message-signalled interrupts.
  \<^item> \<open>XhciState\<close>, \<open>Xhci\<close>, \<open>XhciRing\<close>, \<open>XhciPipe\<close>, \<open>XhciSetup\<close> (\<^verbatim>\<open>arch/device/usb/xhci\<close>): the USB host
    controller: its registers, rings, commands, contexts, pipes, transfers and start.
  \<^item> \<open>UsbDesc\<close>, \<open>Usb\<close> (\<^verbatim>\<open>arch/device/usb/service\<close>, \<^verbatim>\<open>arch/device/usb/hid\<close>): descriptors, addresses and
    configuration of devices, and the rounds of the two tasks of the USB service.
  \<^item> \<open>BootPages\<close>, \<open>BootElf\<close> (\<^verbatim>\<open>arch/bootloader/memory.c\<close>, \<^verbatim>\<open>elf.c\<close>): the page tables that the boot
    loader builds, walked by the kernel's own translation, and the loading of the kernel.
  \<^item> \<open>BootMain\<close> (\<^verbatim>\<open>arch/bootloader/main.c\<close>, \<^verbatim>\<open>video.c\<close>, \<^verbatim>\<open>file.c\<close>): the main program of the boot loader over
    any firmware, up to the entry of the kernel.
  \<^item> \<open>Descriptors\<close> (\<^verbatim>\<open>arch/init.c\<close>, \<^verbatim>\<open>arch/task/tss.c\<close>): segments, task state segments, gates; what the
    selectors select after any processors have started.
  \<^item> \<open>Intr\<close> (\<^verbatim>\<open>arch/intr\<close>): the frame of an interrupt as the assembly builds it, the table of handlers and
    the dispatch, the backtrace.
  \<^item> \<open>Apic\<close> (\<^verbatim>\<open>arch/device/pic\<close>, \<^verbatim>\<open>arch/device/cpu\<close>): the table of processors, interrupt controllers,
    messages between processors, and the registers of the system call instruction.
  \<^item> \<open>Timer\<close> (\<^verbatim>\<open>arch/device/timer\<close>, \<^verbatim>\<open>arch/device/keyboard\<close>): ticks and keys from the interrupt over the
    software interrupt to the message, clocks and calibration.
  \<^item> \<open>Console\<close> (\<^verbatim>\<open>src/graphic/print.c\<close>): text in a box of the frame buffer, the log, UTF-8.
  \<^item> \<open>UserLib\<close> (\<^verbatim>\<open>src/ulib\<close>, \<^verbatim>\<open>src/service/view\<close>): the calls that a process makes, over any implementation
    of \<^verbatim>\<open>send_recv\<close>, and the view service that draws pictures.
  \<^item> \<open>StartUp\<close> (\<^verbatim>\<open>task_init\<close>, \<^verbatim>\<open>smp_init\<close>, \<^verbatim>\<open>ap_init_all\<close>, \<^verbatim>\<open>src/kernel/main.c\<close>): the first tasks of every
    processor; start-up establishes the invariants which the theorems on scheduling and tasks assume.

  \<^bold>\<open>Interfaces.\<close> The locales \<open>intrusive_list\<close>, \<open>bounded_queue\<close>, \<open>allocator\<close> and \<open>page_frames\<close> state what
  the clients of a component rely on; each is interpreted on the definitions of the component.

  \<^bold>\<open>Bounds.\<close> Recursion follows the data, and loops over a counter run over its range of values. Loops whose
  end depends on a file, on memory that a device writes or on a register are partial functions
  (\<open>parse_loop\<close>, \<open>process_loop\<close>, \<open>find_desc\<close>, \<open>find_iface\<close>, \<open>find_msi_cap\<close>, \<open>scan_xecp\<close>, \<open>route_of\<close>, \<open>madt_loop\<close>,
  \<open>ttf_loop\<close>, and the waits \<open>serial_wait\<close>, \<open>wait_started\<close>, \<open>wait_ticks\<close>, \<open>wait_keyboard_read\<close>); theorems say
  when the loops over data return, the waits depend on the device alone. Only the scan of the PCI buses has fuel, one unit for each bus on the way from the
  host controller: 256 is enough since every bridge leads to a bus with a greater number.

  \<^bold>\<open>Devices.\<close> A driver sees a device through functions from the state of the hardware to the value read and
  the state after the access, on which nothing is assumed but what a theorem says. What other tasks and
  the device do while a task sleeps is a function \<open>msleep\<close> on the state, a parameter of the model.

  \<^bold>\<open>Start.\<close> The boot loader's tables, the descriptor tables, the interrupt controllers, the timers, memory,
  the tasks and the other processors each have a theorem that says what their start leaves behind.
  The theorem on \<open>task_init\<close> ends in the assumptions of the one on \<open>smp_init\<close>, and that one in those of the
  theorems on \<open>schedule\<close>, \<open>task_start\<close> and \<open>task_exit\<close>.

  \<^bold>\<open>Not modelled.\<close> The firmware, whose calls are parameters, and the order of the calls in \<^verbatim>\<open>init_all\<close>, which
  is a straight line without a decision of its own; the shapes of the characters, the vendored TrueType library
  and floating-point arithmetic, which are parameters; the assembly that swaps stacks and privilege
  levels (its effect is a change of the running task); the loop of the memory service, which is empty;
  \<^verbatim>\<open>tools/kallsyms.c\<close>, which prints the table of symbols; the log output of the other components. The
  state is sequentially consistent; only the spinlock and the messages are interleaved.
\<close>

end
